(* ===== verification/Prelude.thy ===== *)
theory Prelude
  imports Main "HOL-Library.Word"
begin

text \<open>
  What the components share.

  \<^item> The C types of the sources: \<open>size_t\<close>, pointers and \<open>intptr_t\<close> are 64-bit words,
    an \<open>int\<close> or \<open>long\<close> is a HOL integer with the conversions between widths written out
    (\<open>c_int\<close>, \<open>c_long\<close>, \<open>size_of_int\<close>).
  \<^item> Programs with effects: a value of type \<open>('e, 'r, 'a) prog\<close> is a C function body as a
    tree. It returns a value, performs an effect \<open>'e\<close> (an MPI call, a load, a store) and
    continues with the response \<open>'r\<close>, or stops: by \<open>MPI_Abort\<close>, by a failed \<open>assert\<close>, or
    because the C text has no defined behaviour from there on.
  \<^item> \<open>run\<close> interprets a program over a handler, the parameter that stands for the
    effects. A theorem that holds for every handler needs no assumption on MPI at all; the
    others name the laws of the handler they use.
  \<^item> \<open>logged\<close> is the handler that only records the effects, with an arbitrary oracle for the
    responses; \<open>effects\<close> is the trace of a program under it.
\<close>

section \<open>Fact collections\<close>

named_theorems prog_simps \<open>equations of the program combinators\<close>
named_theorems shmem_defs \<open>definitions of the one-line entry points\<close>
named_theorems mem_simps \<open>reads and writes of byte ranges\<close>

section \<open>C integers\<close>

type_synonym byte = "8 word"
type_synonym addr = "64 word"
type_synonym size_t = "64 word"
type_synonym scalar = "64 word"

definition INT32_MAX :: int where
  "INT32_MAX = 2147483647"

definition INT32_MIN :: int where
  "INT32_MIN = - 2147483648"

text \<open>Conversion to \<open>int\<close> and to \<open>long\<close> keeps the low 32 and 64 bits.\<close>

definition c_int :: "int \<Rightarrow> int" where
  "c_int x = signed_take_bit 31 x"

definition c_long :: "int \<Rightarrow> int" where
  "c_long x = signed_take_bit 63 x"

definition ptrdiff :: "addr \<Rightarrow> addr \<Rightarrow> int" where
  "ptrdiff a b = sint (a - b)"

lemma c_int_small: "INT32_MIN \<le> x \<Longrightarrow> x \<le> INT32_MAX \<Longrightarrow> c_int x = x"
  by (simp add: c_int_def INT32_MIN_def INT32_MAX_def signed_take_bit_int_eq_self)

lemma c_int_bounds: "INT32_MIN \<le> c_int x \<and> c_int x \<le> INT32_MAX"
  using signed_take_bit_int_greater_eq_minus_exp [of 31 x]
    signed_take_bit_int_less_exp [of 31 x]
  by (simp add: c_int_def INT32_MIN_def INT32_MAX_def)

lemma c_int_cong: "c_int x = c_int y" if "x mod 2 ^ 32 = y mod 2 ^ 32"
proof -
  have "take_bit (Suc 31) x = take_bit (Suc 31) y"
    using that by (simp add: take_bit_eq_mod)
  then show ?thesis
    unfolding c_int_def by (rule signed_take_bit_eq_iff_take_bit_eq [THEN iffD2])
qed

lemma c_long_small: "- (2 ^ 63) \<le> x \<Longrightarrow> x < 2 ^ 63 \<Longrightarrow> c_long x = x"
  by (simp add: c_long_def signed_take_bit_int_eq_self)

section \<open>Programs with effects\<close>

datatype (plugins only: code size) (dead 'e, dead 'r, 'a) prog =
    Return 'a
  | Eff 'e "'r \<Rightarrow> ('e, 'r, 'a) prog"
  | Abort int string
  | Assert_fail string
  | Undef string

datatype 'a outcome =
    Done 'a
  | Aborted int string
  | Asserted string
  | Undefined string

primrec pbind :: "('e, 'r, 'a) prog \<Rightarrow> ('a \<Rightarrow> ('e, 'r, 'b) prog) \<Rightarrow> ('e, 'r, 'b) prog" where
  "pbind (Return a) k = k a"
| "pbind (Eff e c) k = Eff e (\<lambda>r. pbind (c r) k)"
| "pbind (Abort n msg) k = Abort n msg"
| "pbind (Assert_fail msg) k = Assert_fail msg"
| "pbind (Undef msg) k = Undef msg"

definition pseq :: "('e, 'r, unit) prog \<Rightarrow> ('e, 'r, 'b) prog \<Rightarrow> ('e, 'r, 'b) prog" where
  "pseq p q = pbind p (\<lambda>_. q)"

primrec pseqs :: "('e, 'r, unit) prog list \<Rightarrow> ('e, 'r, unit) prog" where
  "pseqs [] = Return ()"
| "pseqs (p # ps) = pseq p (pseqs ps)"

definition pwhen :: "bool \<Rightarrow> ('e, 'r, unit) prog \<Rightarrow> ('e, 'r, unit) prog" where
  "pwhen b p = (if b then p else Return ())"

definition passert :: "bool \<Rightarrow> string \<Rightarrow> ('e, 'r, unit) prog" where
  "passert b msg = (if b then Return () else Assert_fail msg)"

lemma pbind_assoc [prog_simps, simp]: "pbind (pbind p f) g = pbind p (\<lambda>x. pbind (f x) g)"
  by (induction p) auto

lemma pbind_Return [prog_simps, simp]: "pbind p Return = p"
  by (induction p) auto

lemma pseq_simps [prog_simps, simp]:
  "pseq (Return u) q = q"
  "pseq (Eff e c) q = Eff e (\<lambda>r. pseq (c r) q)"
  "pseq (Abort n msg) q = Abort n msg"
  "pseq (Assert_fail msg) q = Assert_fail msg"
  "pseq (Undef msg) q = Undef msg"
  by (simp_all add: pseq_def)

lemma pseq_assoc [prog_simps, simp]: "pseq (pseq p q) r = pseq p (pseq q r)"
  by (simp add: pseq_def)

lemma pbind_pseq [prog_simps, simp]: "pbind (pseq p q) k = pseq p (pbind q k)"
  by (simp add: pseq_def)

lemma pwhen_simps [prog_simps, simp]: "pwhen True p = p" "pwhen False p = Return ()"
  by (simp_all add: pwhen_def)

lemma passert_simps [prog_simps, simp]:
  "passert True msg = Return ()" "passert False msg = Assert_fail msg"
  by (simp_all add: passert_def)

section \<open>Running a program over a handler\<close>

type_synonym ('e, 'r, 's) handler = "'e \<Rightarrow> 's \<Rightarrow> 'r \<times> 's"

primrec run :: "('e, 'r, 's) handler \<Rightarrow> ('e, 'r, 'a) prog \<Rightarrow> 's \<Rightarrow> 'a outcome \<times> 's" where
  "run h (Return a) s = (Done a, s)"
| "run h (Eff e c) s = (case h e s of (r, s') \<Rightarrow> run h (c r) s')"
| "run h (Abort n msg) s = (Aborted n msg, s)"
| "run h (Assert_fail msg) s = (Asserted msg, s)"
| "run h (Undef msg) s = (Undefined msg, s)"

fun continue :: "'a outcome \<times> 's \<Rightarrow> ('a \<Rightarrow> 's \<Rightarrow> 'b outcome \<times> 's) \<Rightarrow> 'b outcome \<times> 's" where
  "continue (Done a, s) k = k a s"
| "continue (Aborted n msg, s) k = (Aborted n msg, s)"
| "continue (Asserted msg, s) k = (Asserted msg, s)"
| "continue (Undefined msg, s) k = (Undefined msg, s)"

lemma run_pbind: "run h (pbind p k) s = continue (run h p s) (\<lambda>a s'. run h (k a) s')"
  by (induction p arbitrary: s) (auto split: prod.split)

lemma run_pseq: "run h (pseq p q) s = continue (run h p s) (\<lambda>_ s'. run h q s')"
  by (simp add: pseq_def run_pbind)

lemma run_pbind_Done: "run h p s = (Done a, s') \<Longrightarrow> run h (pbind p k) s = run h (k a) s'"
  by (simp add: run_pbind)

lemma run_pseq_Done: "run h p s = (Done a, s') \<Longrightarrow> run h (pseq p q) s = run h q s'"
  by (simp add: run_pseq)

section \<open>Postconditions\<close>

text \<open>The run returns, and the value and the state satisfy \<open>Q\<close>: a total-correctness triple.\<close>

definition ends :: "('e, 'r, 's) handler \<Rightarrow> ('e, 'r, 'a) prog \<Rightarrow> 's \<Rightarrow> ('a \<Rightarrow> 's \<Rightarrow> bool) \<Rightarrow> bool"
  where
  "ends h p s Q \<longleftrightarrow> (\<exists>a s'. run h p s = (Done a, s') \<and> Q a s')"

lemma ends_Return [prog_simps, simp]: "ends h (Return a) s Q \<longleftrightarrow> Q a s"
  by (simp add: ends_def)

lemma ends_pbind [prog_simps]:
  "ends h (pbind p k) s Q \<longleftrightarrow> ends h p s (\<lambda>a s'. ends h (k a) s' Q)"
proof (cases "run h p s")
  case (Pair out s')
  then show ?thesis by (cases out) (simp_all add: ends_def run_pbind)
qed

lemma ends_pseq [prog_simps]:
  "ends h (pseq p q) s Q \<longleftrightarrow> ends h p s (\<lambda>_ s'. ends h q s' Q)"
  by (simp add: pseq_def ends_pbind)

lemma ends_mono: "ends h p s P \<Longrightarrow> (\<And>a s'. P a s' \<Longrightarrow> Q a s') \<Longrightarrow> ends h p s Q"
  by (auto simp: ends_def)

lemma endsE:
  assumes "ends h p s Q"
  obtains a s' where "run h p s = (Done a, s')" "Q a s'"
  using assms by (auto simp: ends_def)

text \<open>If the run returns, the value and the state satisfy \<open>Q\<close>: for invariants, where stopping is fine.\<close>

definition yields :: "('e, 'r, 's) handler \<Rightarrow> ('e, 'r, 'a) prog \<Rightarrow> 's \<Rightarrow> ('a \<Rightarrow> 's \<Rightarrow> bool) \<Rightarrow> bool"
  where
  "yields h p s Q \<longleftrightarrow> (\<forall>a s'. run h p s = (Done a, s') \<longrightarrow> Q a s')"

lemma yields_stop [simp]:
  "yields h (Return a) s Q \<longleftrightarrow> Q a s"
  "yields h (Abort n msg) s Q" "yields h (Assert_fail msg) s Q" "yields h (Undef msg) s Q"
  by (simp_all add: yields_def)

lemma yields_Eff: "yields h (Eff e c) s Q \<longleftrightarrow> (case h e s of (r, s') \<Rightarrow> yields h (c r) s' Q)"
  by (simp add: yields_def split: prod.split)

lemma yields_pbind [prog_simps]:
  "yields h (pbind p k) s Q \<longleftrightarrow> yields h p s (\<lambda>a s'. yields h (k a) s' Q)"
proof (cases "run h p s")
  case (Pair out s')
  then show ?thesis by (cases out) (simp_all add: yields_def run_pbind)
qed

lemma yields_pseq [prog_simps]:
  "yields h (pseq p q) s Q \<longleftrightarrow> yields h p s (\<lambda>_ s'. yields h q s' Q)"
  by (simp add: pseq_def yields_pbind)

lemma yields_mono: "yields h p s P \<Longrightarrow> (\<And>a s'. P a s' \<Longrightarrow> Q a s') \<Longrightarrow> yields h p s Q"
  by (auto simp: yields_def)

lemma yieldsD: "yields h p s Q \<Longrightarrow> run h p s = (Done a, s') \<Longrightarrow> Q a s'"
  by (simp add: yields_def)

section \<open>What holds all along a run\<close>

text \<open>\<open>I\<close> holds at the start and after every effect, also in a run that stops.\<close>

primrec along :: "('e, 'r, 's) handler \<Rightarrow> ('e, 'r, 'a) prog \<Rightarrow> 's \<Rightarrow> ('s \<Rightarrow> bool) \<Rightarrow> bool" where
  "along h (Return a) s I = I s"
| "along h (Eff e c) s I = (I s \<and> (case h e s of (r, s') \<Rightarrow> along h (c r) s' I))"
| "along h (Abort n msg) s I = I s"
| "along h (Assert_fail msg) s I = I s"
| "along h (Undef msg) s I = I s"

text \<open>\<open>I\<close> holds all along, and the run returns with \<open>Q\<close>.\<close>

definition through ::
    "('e, 'r, 's) handler \<Rightarrow> ('e, 'r, 'a) prog \<Rightarrow> 's \<Rightarrow> ('s \<Rightarrow> bool) \<Rightarrow> ('a \<Rightarrow> 's \<Rightarrow> bool) \<Rightarrow> bool" where
  "through h p s I Q \<longleftrightarrow> along h p s I \<and> ends h p s Q"

lemma along_final: "along h p s I \<Longrightarrow> I (snd (run h p s))"
  by (induction p arbitrary: s) (auto split: prod.splits)

lemma along_start: "along h p s I \<Longrightarrow> I s"
  by (cases p) simp_all

lemma along_mono: "along h p s I \<Longrightarrow> (\<And>s. I s \<Longrightarrow> J s) \<Longrightarrow> along h p s J"
  by (induction p arbitrary: s) (auto split: prod.splits)

lemma along_pbind:
  "along h (pbind p k) s I \<longleftrightarrow>
     along h p s I \<and> (\<forall>a s'. run h p s = (Done a, s') \<longrightarrow> along h (k a) s' I)"
proof (induction p arbitrary: s)
  case (Return a)
  then show ?case using along_start by fastforce
qed (auto split: prod.splits)

lemma through_Return [simp]: "through h (Return a) s I Q \<longleftrightarrow> I s \<and> Q a s"
  by (simp add: through_def)

lemma through_pbind:
  "through h (pbind p k) s I Q \<longleftrightarrow> through h p s I (\<lambda>a s'. through h (k a) s' I Q)"
  by (auto simp: through_def along_pbind ends_pbind) (auto simp: ends_def)

lemma through_pseq:
  "through h (pseq p q) s I Q \<longleftrightarrow> through h p s I (\<lambda>_ s'. through h q s' I Q)"
  by (simp add: pseq_def through_pbind)

lemma through_mono:
  assumes "through h p s I P" "\<And>s. I s \<Longrightarrow> J s" "\<And>a s'. I s' \<Longrightarrow> P a s' \<Longrightarrow> Q a s'"
  shows "through h p s J Q"
proof -
  obtain a s' where "run h p s = (Done a, s')" "P a s'" and al: "along h p s I"
    using assms(1) by (auto simp: through_def ends_def)
  moreover from this along_final [OF al] have "I s'" by simp
  ultimately show ?thesis
    using along_mono [OF al assms(2)] assms(3) by (auto simp: through_def ends_def)
qed

lemma throughD: "through h p s I Q \<Longrightarrow> along h p s I" "through h p s I Q \<Longrightarrow> ends h p s Q"
  by (simp_all add: through_def)

text \<open>A program of one effect passes through its first and its last state only.\<close>

definition one_effect :: "('e, 'r, 'a) prog \<Rightarrow> bool" where
  "one_effect p \<longleftrightarrow> (\<exists>e c. p = Eff e c \<and> (\<forall>r e' c'. c r \<noteq> Eff e' c'))"

lemma through_one:
  assumes "one_effect p" "I s" "ends h p s Q" "\<And>a s'. Q a s' \<Longrightarrow> I s'"
  shows "through h p s I Q"
proof -
  obtain e c where p: "p = Eff e c" "\<forall>r e' c'. c r \<noteq> Eff e' c'"
    using assms(1) by (auto simp: one_effect_def)
  obtain r s' where h: "h e s = (r, s')" by (cases "h e s")
  obtain a s'' where "run h (c r) s' = (Done a, s'')" "Q a s''"
    using assms(3) by (auto simp: ends_def p h)
  moreover from this p(2) have "c r = Return a" "s'' = s'"
    by (cases "c r"; simp)+
  ultimately show ?thesis
    using assms(2-4) by (simp add: through_def p h)
qed

text \<open>Taking a program one effect at a time.\<close>

lemma through_eff:
  assumes "one_effect p" "I s" "ends h p s (\<lambda>a s'. through h (k a) s' I Q)"
  shows "through h (pbind p k) s I Q"
  unfolding through_pbind
  using assms by (rule through_one) (auto simp: through_def intro: along_start)

lemma through_then:
  assumes "one_effect p" "I s" "ends h p s (\<lambda>_ s'. through h q s' I Q)"
  shows "through h (pseq p q) s I Q"
  unfolding pseq_def by (rule through_eff [OF assms])

lemma through_last:
  assumes "one_effect p" "I s" "ends h p s (\<lambda>a s'. I s' \<and> Q a s')"
  shows "through h p s I Q"
proof -
  have "through h p s I (\<lambda>a s'. I s' \<and> Q a s')"
    using assms by (rule through_one) simp
  then show ?thesis
    by (rule through_mono) simp_all
qed

section \<open>Several processes\<close>

text \<open>
  Each process has the rest of its program and a handler of its own over the shared state. A
  step is one effect of one process, so the effects of different processes interleave freely.
\<close>

inductive pe_step ::
    "(int \<Rightarrow> ('e, 'r, 's) handler) \<Rightarrow> (int \<Rightarrow> ('e, 'r, 'a) prog) \<times> 's \<Rightarrow>
     (int \<Rightarrow> ('e, 'r, 'a) prog) \<times> 's \<Rightarrow> bool" for h where
  pe_stepI: "T k = Eff e c \<Longrightarrow> h k e s = (r, s') \<Longrightarrow> pe_step h (T, s) (T(k := c r), s')"

inductive_cases pe_stepE: "pe_step h st st'"

section \<open>Traces\<close>

definition logged :: "('e list \<Rightarrow> 'e \<Rightarrow> 'r) \<Rightarrow> ('e, 'r, 'e list) handler" where
  "logged orc e l = (orc l e, l @ [e])"

definition effects :: "('e list \<Rightarrow> 'e \<Rightarrow> 'r) \<Rightarrow> ('e, 'r, 'a) prog \<Rightarrow> 'e list" where
  "effects orc p = snd (run (logged orc) p [])"

definition result :: "('e list \<Rightarrow> 'e \<Rightarrow> 'r) \<Rightarrow> ('e, 'r, 'a) prog \<Rightarrow> 'a outcome" where
  "result orc p = fst (run (logged orc) p [])"

lemma run_logged_Eff [simp]:
  "run (logged orc) (Eff e c) l = run (logged orc) (c (orc l e)) (l @ [e])"
  by (subst run.simps, subst logged_def) (rule prod.case)

lemma run_logged_extends: "\<exists>t. snd (run (logged orc) p l) = l @ t"
proof (induction p arbitrary: l)
  case (Eff e c)
  obtain t where "snd (run (logged orc) (c (orc l e)) (l @ [e])) = (l @ [e]) @ t"
    using Eff.IH by blast
  then show ?case by (auto simp del: run.simps(2))
qed auto

section \<open>Effects a program can perform\<close>

primrec all_eff :: "('e \<Rightarrow> bool) \<Rightarrow> ('e, 'r, 'a) prog \<Rightarrow> bool" where
  "all_eff P (Return a) = True"
| "all_eff P (Eff e c) = (P e \<and> (\<forall>r. all_eff P (c r)))"
| "all_eff P (Abort n msg) = True"
| "all_eff P (Assert_fail msg) = True"
| "all_eff P (Undef msg) = True"

lemma all_eff_pbind [intro, prog_simps]:
  "all_eff P p \<Longrightarrow> (\<And>a. all_eff P (k a)) \<Longrightarrow> all_eff P (pbind p k)"
  by (induction p) auto

lemma all_eff_pseq [intro, prog_simps]: "all_eff P p \<Longrightarrow> all_eff P q \<Longrightarrow> all_eff P (pseq p q)"
  by (auto simp: pseq_def)

lemma all_eff_pseqs [intro, prog_simps]: "(\<And>p. p \<in> set ps \<Longrightarrow> all_eff P p) \<Longrightarrow> all_eff P (pseqs ps)"
  by (induction ps) auto

lemma all_eff_simps [simp]:
  "all_eff P (pwhen b p) \<longleftrightarrow> (b \<longrightarrow> all_eff P p)" "all_eff P (passert b msg)"
  by (simp_all add: pwhen_def passert_def)

text \<open>What no effect of a program changes is the same after it.\<close>

lemma run_keeps:
  assumes "all_eff P p" "\<And>e s. P e \<Longrightarrow> f (snd (h e s)) = f s"
  shows "f (snd (run h p s)) = f s"
  using assms(1)
proof (induction p arbitrary: s)
  case (Eff e c)
  obtain r s' where h: "h e s = (r, s')" by (cases "h e s")
  with Eff.prems assms(2) [of e s] have "f s' = f s" "all_eff P (c r)" by auto
  with Eff.IH [of "c r" s'] h show ?case by simp
qed simp_all

section \<open>Lists\<close>

lemma map_upt_add: "map f [i..<i + n] = map (\<lambda>k. f (i + k)) [0..<n]"
  by (rule nth_equalityI) simp_all

lemma nth_concat_same_length:
  assumes "\<And>xs. xs \<in> set xss \<Longrightarrow> length xs = n"
    and "i < length xss" and "j < n"
  shows "concat xss ! (i * n + j) = xss ! i ! j"
  using assms
proof (induction xss arbitrary: i)
  case Nil
  then show ?case by simp
next
  case (Cons xs xss)
  show ?case
  proof (cases i)
    case 0
    with Cons.prems show ?thesis by (simp add: nth_append)
  next
    case (Suc i')
    have "concat xss ! (i' * n + j) = xss ! i' ! j"
      using Cons.prems Suc by (intro Cons.IH) auto
    with Cons.prems Suc show ?thesis by (simp add: nth_append add.assoc)
  qed
qed

lemma length_concat_same_length:
  "(\<And>xs. xs \<in> set xss \<Longrightarrow> length xs = n) \<Longrightarrow> length (concat xss) = length xss * n"
  by (induction xss) auto

end
