(* ===== verification/Dl_Bits.thy ===== *)
theory Dl_Bits
  imports Prelude
begin

unbundle bit_operations_syntax

text \<open>
  The arithmetic of the allocator of the symmetric heap (\<open>src/src/dlmalloc.c\<close>): sizes and
  alignment, the conversion of requests to chunk sizes, the index of a tree bin in its x86 and in
  its portable form, and the bit maps of the bins. The build of the repository sets
  \<open>ONLY_MSPACES\<close>; the other options have their defaults on a 64-bit Linux system: an alignment of
  16 bytes, no footers, no locks, no \<open>MORECORE\<close>.
\<close>

type_synonym bindex = "32 word"
type_synonym binmap = "32 word"

section \<open>Sizes and alignment\<close>

definition MALLOC_ALIGNMENT :: size_t where "MALLOC_ALIGNMENT = 2 * 8"
definition CHUNK_ALIGN_MASK :: size_t where "CHUNK_ALIGN_MASK = MALLOC_ALIGNMENT - 1"
definition MAX_SIZE_T :: size_t where "MAX_SIZE_T = NOT 0"
definition SIZE_T_SIZE :: size_t where "SIZE_T_SIZE = 8"
definition SIZE_T_BITSIZE :: size_t where "SIZE_T_BITSIZE = push_bit 3 SIZE_T_SIZE"
definition TWO_SIZE_T_SIZES :: size_t where "TWO_SIZE_T_SIZES = push_bit 1 SIZE_T_SIZE"
definition FOUR_SIZE_T_SIZES :: size_t where "FOUR_SIZE_T_SIZES = push_bit 2 SIZE_T_SIZE"
definition SIX_SIZE_T_SIZES :: size_t where "SIX_SIZE_T_SIZES = FOUR_SIZE_T_SIZES + TWO_SIZE_T_SIZES"

definition is_aligned :: "addr \<Rightarrow> bool" where
  "is_aligned A \<longleftrightarrow> A AND CHUNK_ALIGN_MASK = 0"

definition align_offset :: "addr \<Rightarrow> size_t" where
  "align_offset A =
     (if A AND CHUNK_ALIGN_MASK = 0 then 0
      else (MALLOC_ALIGNMENT - (A AND CHUNK_ALIGN_MASK)) AND CHUNK_ALIGN_MASK)"

definition MCHUNK_SIZE :: size_t where "MCHUNK_SIZE = 4 * 8"
definition CHUNK_OVERHEAD :: size_t where "CHUNK_OVERHEAD = SIZE_T_SIZE"
definition MMAP_CHUNK_OVERHEAD :: size_t where "MMAP_CHUNK_OVERHEAD = TWO_SIZE_T_SIZES"
definition MMAP_FOOT_PAD :: size_t where "MMAP_FOOT_PAD = FOUR_SIZE_T_SIZES"

definition MIN_CHUNK_SIZE :: size_t where
  "MIN_CHUNK_SIZE = (MCHUNK_SIZE + CHUNK_ALIGN_MASK) AND NOT CHUNK_ALIGN_MASK"

definition chunk2mem :: "addr \<Rightarrow> addr" where "chunk2mem p = p + TWO_SIZE_T_SIZES"
definition mem2chunk :: "addr \<Rightarrow> addr" where "mem2chunk mem = mem - TWO_SIZE_T_SIZES"
definition align_as_chunk :: "addr \<Rightarrow> addr" where "align_as_chunk A = A + align_offset (chunk2mem A)"

definition MAX_REQUEST :: size_t where "MAX_REQUEST = push_bit 2 (- MIN_CHUNK_SIZE)"
definition MIN_REQUEST :: size_t where "MIN_REQUEST = MIN_CHUNK_SIZE - CHUNK_OVERHEAD - 1"

definition pad_request :: "size_t \<Rightarrow> size_t" where
  "pad_request req = (req + CHUNK_OVERHEAD + CHUNK_ALIGN_MASK) AND NOT CHUNK_ALIGN_MASK"

definition request2size :: "size_t \<Rightarrow> size_t" where
  "request2size req = (if req < MIN_REQUEST then MIN_CHUNK_SIZE else pad_request req)"

definition PINUSE_BIT :: size_t where "PINUSE_BIT = 1"
definition CINUSE_BIT :: size_t where "CINUSE_BIT = 2"
definition FLAG4_BIT :: size_t where "FLAG4_BIT = 4"
definition INUSE_BITS :: size_t where "INUSE_BITS = PINUSE_BIT OR CINUSE_BIT"
definition FLAG_BITS :: size_t where "FLAG_BITS = PINUSE_BIT OR CINUSE_BIT OR FLAG4_BIT"
definition FENCEPOST_HEAD :: size_t where "FENCEPOST_HEAD = INUSE_BITS OR SIZE_T_SIZE"

section \<open>Bins\<close>

definition NSMALLBINS :: bindex where "NSMALLBINS = 32"
definition NTREEBINS :: bindex where "NTREEBINS = 32"
definition SMALLBIN_SHIFT :: nat where "SMALLBIN_SHIFT = 3"
definition TREEBIN_SHIFT :: nat where "TREEBIN_SHIFT = 8"
definition MIN_LARGE_SIZE :: size_t where "MIN_LARGE_SIZE = push_bit TREEBIN_SHIFT 1"
definition MAX_SMALL_SIZE :: size_t where "MAX_SMALL_SIZE = MIN_LARGE_SIZE - 1"
definition MAX_SMALL_REQUEST :: size_t where
  "MAX_SMALL_REQUEST = MAX_SMALL_SIZE - CHUNK_ALIGN_MASK - CHUNK_OVERHEAD"

definition is_small :: "size_t \<Rightarrow> bool" where
  "is_small s \<longleftrightarrow> drop_bit SMALLBIN_SHIFT s < ucast NSMALLBINS"

definition small_index :: "size_t \<Rightarrow> bindex" where
  "small_index s = ucast (drop_bit SMALLBIN_SHIFT s)"

definition small_index2size :: "bindex \<Rightarrow> size_t" where
  "small_index2size i = ucast (push_bit SMALLBIN_SHIFT i)"

text \<open>The two bit counts of the compiler; the sources never apply them to 0.\<close>

definition builtin_clz :: "32 word \<Rightarrow> 32 word" where
  "builtin_clz x = of_nat (length (takeWhile (\<lambda>i. \<not> bit x i) (rev [0..<32])))"

definition builtin_ctz :: "32 word \<Rightarrow> 32 word" where
  "builtin_ctz x = of_nat (length (takeWhile (\<lambda>i. \<not> bit x i) [0..<32]))"

text \<open>\<open>compute_tree_index\<close> as gcc builds it on x86: \<open>X\<close> is an \<open>unsigned int\<close>.\<close>

definition compute_tree_index :: "size_t \<Rightarrow> bindex" where
  "compute_tree_index S =
     (let X = (ucast (drop_bit TREEBIN_SHIFT S) :: 32 word)
      in if X = 0 then 0
         else if X > 0xFFFF then NTREEBINS - 1
         else let K = 32 - 1 - builtin_clz X
              in ucast (ucast (push_bit 1 K) + (drop_bit (unat K + (TREEBIN_SHIFT - 1)) S AND 1)))"

text \<open>The portable version: \<open>X\<close> is a \<open>size_t\<close>, the logarithm is computed by shifts.\<close>

definition compute_tree_index_portable :: "size_t \<Rightarrow> bindex" where
  "compute_tree_index_portable S =
     (let X = drop_bit TREEBIN_SHIFT S
      in if X = 0 then 0
         else if X > 0xFFFF then NTREEBINS - 1
         else let Y = (ucast X :: 32 word);
                  N = drop_bit 16 (Y - 0x100) AND 8;
                  Y = push_bit (unat N) Y;
                  K = drop_bit 16 (Y - 0x1000) AND 4;
                  N = N + K;
                  Y = push_bit (unat K) Y;
                  K = drop_bit 16 (Y - 0x4000) AND 2;
                  N = N + K;
                  Y = push_bit (unat K) Y;
                  K = 14 - N + drop_bit 15 Y
              in ucast (ucast (push_bit 1 K) + (drop_bit (unat K + (TREEBIN_SHIFT - 1)) S AND 1)))"

definition leftshift_for_tree_index :: "bindex \<Rightarrow> nat" where
  "leftshift_for_tree_index i =
     (if i = NTREEBINS - 1 then 0
      else unat ((SIZE_T_BITSIZE - 1) - ucast (drop_bit 1 i + of_nat TREEBIN_SHIFT - 2)))"

definition minsize_for_tree_index :: "bindex \<Rightarrow> size_t" where
  "minsize_for_tree_index i =
     push_bit (unat (drop_bit 1 i) + TREEBIN_SHIFT) 1 OR
     push_bit (unat (drop_bit 1 i) + TREEBIN_SHIFT - 1) (ucast i AND 1)"

section \<open>Bit maps\<close>

definition idx2bit :: "bindex \<Rightarrow> binmap" where "idx2bit i = push_bit (unat i) 1"
definition least_bit :: "binmap \<Rightarrow> binmap" where "least_bit x = x AND - x"
definition left_bits :: "binmap \<Rightarrow> binmap" where "left_bits x = push_bit 1 x OR - push_bit 1 x"
definition same_or_left_bits :: "binmap \<Rightarrow> binmap" where "same_or_left_bits x = x OR - x"
definition compute_bit2idx :: "binmap \<Rightarrow> bindex" where "compute_bit2idx X = builtin_ctz X"

definition compute_bit2idx_portable :: "binmap \<Rightarrow> bindex" where
  "compute_bit2idx_portable X =
     (let Y = X - 1;
          K = drop_bit (16 - 4) Y AND 16;
          N = K; Y = drop_bit (unat K) Y;
          K = drop_bit (8 - 3) Y AND 8;
          N = N + K; Y = drop_bit (unat K) Y;
          K = drop_bit (4 - 2) Y AND 4;
          N = N + K; Y = drop_bit (unat K) Y;
          K = drop_bit (2 - 1) Y AND 2;
          N = N + K; Y = drop_bit (unat K) Y;
          K = drop_bit (1 - 0) Y AND 1;
          N = N + K; Y = drop_bit (unat K) Y
      in N + Y)"

section \<open>The values of the constants\<close>

named_theorems dl_consts \<open>the numbers behind the names of the macros\<close>

lemma dl_values [dl_consts]:
  "MALLOC_ALIGNMENT = 16" "CHUNK_ALIGN_MASK = 15" "MAX_SIZE_T = 0xFFFFFFFFFFFFFFFF"
  "SIZE_T_SIZE = 8" "SIZE_T_BITSIZE = 64" "TWO_SIZE_T_SIZES = 16" "FOUR_SIZE_T_SIZES = 32"
  "SIX_SIZE_T_SIZES = 48" "MCHUNK_SIZE = 32" "CHUNK_OVERHEAD = 8" "MMAP_CHUNK_OVERHEAD = 16"
  "MMAP_FOOT_PAD = 32" "MIN_CHUNK_SIZE = 32" "MAX_REQUEST = 0xFFFFFFFFFFFFFF80" "MIN_REQUEST = 23"
  "PINUSE_BIT = 1" "CINUSE_BIT = 2" "FLAG4_BIT = 4" "INUSE_BITS = 3" "FLAG_BITS = 7"
  "FENCEPOST_HEAD = 11" "MIN_LARGE_SIZE = 256" "MAX_SMALL_SIZE = 255" "MAX_SMALL_REQUEST = 232"
  by code_simp+

section \<open>Requests\<close>

lemma unat_and15: "unat (x AND 15 :: 64 word) = unat x mod 16"
proof -
  have "(x AND 15 :: 64 word) = take_bit 4 x"
    by (simp add: take_bit_eq_mask mask_eq_exp_minus_1)
  then show ?thesis
    by (simp only: unsigned_take_bit_eq) (simp add: take_bit_eq_mod)
qed

lemma unat_and_not15: "unat (x AND NOT 15 :: 64 word) = unat x - unat x mod 16"
proof -
  have "(x AND NOT 15) + (x AND 15) = (x AND NOT 15) OR (x AND 15)"
    by (rule disjunctive_add_eq_or) (simp add: bit_eq_iff bit_simps)
  also have "\<dots> = x"
    by (auto simp: bit_eq_iff bit_simps simp del: numeral_eq_Suc)
  finally have "x AND NOT 15 = x - (x AND 15)"
    by (simp add: eq_diff_eq)
  moreover have "x AND 15 \<le> x"
    by (simp add: word_le_nat_alt unat_and15)
  ultimately show ?thesis
    by (simp add: unat_sub unat_and15)
qed

lemma is_aligned_iff: "is_aligned a \<longleftrightarrow> 16 dvd unat a"
  using unat_and15 [of a] by (auto simp: is_aligned_def dl_consts dvd_eq_mod_eq_0 unat_eq_0 simp flip: unat_0_iff)

lemma unat_pad_request:
  assumes "unat r < 2 ^ 64 - 23"
  shows "unat (pad_request r) = (unat r + 23) div 16 * 16"
proof -
  have "unat (r + 8 + 15) = unat r + 23"
    using assms by (simp add: unat_word_ariths)
  then show ?thesis
    by (simp only: pad_request_def dl_consts unat_and_not15 minus_mod_eq_div_mult)
qed

lemma request2size_fits:
  assumes "r < MAX_REQUEST"
  shows "is_aligned (request2size r) \<and> MIN_CHUNK_SIZE \<le> request2size r
    \<and> unat r + unat CHUNK_OVERHEAD \<le> unat (request2size r)
    \<and> unat (request2size r) < unat r + unat CHUNK_OVERHEAD + unat MIN_CHUNK_SIZE"
proof -
  have r: "unat r < 2 ^ 64 - 128"
    using assms by (simp add: word_less_nat_alt dl_consts)
  then have [simp]: "unat (pad_request r) = (unat r + 23) div 16 * 16"
    by (simp add: unat_pad_request)
  show ?thesis
    by (auto simp: request2size_def is_aligned_iff word_less_nat_alt word_le_nat_alt dl_consts) 
qed

end
