(* ===== verification/Dl_Index.thy ===== *)
theory Dl_Index
  imports Dl_Bits
begin

unbundle bit_operations_syntax

text \<open>
  What the index computations of the allocator compute (\<open>src/src/dlmalloc.c\<close>, lines 2820-2975).
  \<open>at_log Y k\<close> says that bit \<open>k\<close> is the highest of the 16-bit number \<open>Y\<close>; both versions of
  \<open>compute_tree_index\<close> find it and return \<open>tree_index_at k\<close>. The bit map operations find the next
  marked bin.
\<close>

section \<open>Counting bits\<close>

lemma bit_nat_top: "bit n k" if "2 ^ k \<le> n" "n < 2 ^ Suc k" for n :: nat
proof -
  have "n div 2 ^ k = 1"
    using that by (intro div_nat_eqI) simp_all
  then show ?thesis
    by (simp add: bit_iff_odd)
qed

lemma bit_nat_above: "\<not> bit n i" if "n < 2 ^ i" for n :: nat
  using that by (simp add: bit_iff_odd)

lemma clz_top:
  assumes "2 ^ k \<le> unat X" "unat X < 2 ^ Suc k" "k < 32"
  shows "builtin_clz X = of_nat (31 - k)"
proof -
  have above: "\<not> bit X i" if "k < i" for i
  proof -
    have "unat X < 2 ^ i"
      using assms(2) that by (meson Suc_leI less_le_trans one_le_numeral power_increasing)
    then show ?thesis
      using bit_nat_above [of "unat X" i] by (simp add: bit_unsigned_iff)
  qed
  have at: "bit X k"
    using bit_nat_top [OF assms(1,2)] by (simp add: bit_unsigned_iff)
  have split: "rev [0..<32] = rev [Suc k..<32] @ k # rev [0..<k]"
  proof -
    have "[0..<32] = [0..<k] @ k # [Suc k..<32]"
      using assms(3) by (metis less_imp_le_nat upt_add_eq_append upt_conv_Cons le_add_diff_inverse zero_le)
    then show ?thesis by simp
  qed
  have "takeWhile (\<lambda>i. \<not> bit X i) (rev [0..<32]) = rev [Suc k..<32]"
    unfolding split using above at by (subst takeWhile_append2) auto
  then show ?thesis
    by (simp add: builtin_clz_def)
qed

lemma ctz_low:
  assumes "bit X k" "\<And>i. i < k \<Longrightarrow> \<not> bit X i" "k < 32"
  shows "builtin_ctz X = of_nat k"
proof -
  have split: "[0..<32] = [0..<k] @ k # [Suc k..<32]"
    using assms(3) by (metis less_imp_le_nat upt_add_eq_append upt_conv_Cons le_add_diff_inverse zero_le)
  have "takeWhile (\<lambda>i. \<not> bit X i) [0..<32] = [0..<k]"
    unfolding split using assms by (subst takeWhile_append2) auto
  then show ?thesis
    by (simp add: builtin_ctz_def)
qed

lemma msb_shift:
  fixes Y c :: "32 word"
  assumes "unat Y < 2 ^ 16" "unat c \<le> 2 ^ 16"
  shows "drop_bit 16 (Y - c) = (if unat Y < unat c then 0xFFFF else 0)"
proof (cases "unat Y < unat c")
  case True
  then have "unat (Y - c) = 2 ^ 32 + unat Y - unat c"
    by (simp add: unat_sub_if')
  then have "unat (drop_bit 16 (Y - c)) = 65535"
    using assms True by (simp only: unat_drop_bit_eq) (simp add: drop_bit_eq_div)
  then show ?thesis
    using True by (simp add: word_unat_eq_iff)
next
  case False
  then have "unat (Y - c) = unat Y - unat c"
    by (simp add: unat_sub word_le_nat_alt)
  then have "unat (drop_bit 16 (Y - c)) = 0"
    using assms by (simp only: unat_drop_bit_eq) (simp add: drop_bit_eq_div)
  then show ?thesis
    using False by (simp add: word_unat_eq_iff)
qed

lemma log16:
  assumes "0 < n" "n < (2::nat) ^ 16"
  obtains k where "k < 16" "2 ^ k \<le> n" "n < 2 ^ Suc k"
proof -
  have "\<exists>k. 2 ^ k \<le> n \<and> n < 2 ^ (k + 1)"
    using assms(1) ex_power_ivl1 [of 2 n] by auto
  then obtain k where k: "2 ^ k \<le> n" "n < 2 ^ Suc k" by auto
  have "k < 16"
  proof (rule ccontr)
    assume "\<not> k < 16"
    then have "(2::nat) ^ 16 \<le> 2 ^ k" by (intro power_increasing) auto
    then show False using k assms by simp
  qed
  with k that show ?thesis by blast
qed

definition at_log :: "32 word \<Rightarrow> nat \<Rightarrow> bool" where
  "at_log Y k \<longleftrightarrow> k < 16 \<and> 2 ^ k \<le> unat Y \<and> unat Y < 2 ^ Suc k"

lemma at_log_shift: "at_log Y k \<Longrightarrow> k + m < 16 \<Longrightarrow> at_log (push_bit m Y) (k + m)"
proof -
  assume a: "at_log Y k" "k + m < 16"
  have "unat Y * 2 ^ m < 2 ^ Suc k * 2 ^ m"
    using a by (simp add: at_log_def)
  also have "\<dots> = 2 ^ Suc (k + m)" by (simp add: power_add)
  also have "\<dots> \<le> (2::nat) ^ 16" using a(2) by (intro power_increasing) auto
  finally have "unat (push_bit m Y) = unat Y * 2 ^ m"
    by (simp only: unsigned_push_bit_eq) (simp add: push_bit_eq_mult take_bit_nat_eq_self)
  moreover have "2 ^ k * 2 ^ m \<le> unat Y * 2 ^ m"
    using a by (simp add: at_log_def)
  ultimately show ?thesis
    using a \<open>unat Y * 2 ^ m < 2 ^ Suc k * 2 ^ m\<close> by (simp add: at_log_def power_add ac_simps)
qed

lemma at_log_less: "at_log Y k \<Longrightarrow> unat Y < 2 ^ j \<longleftrightarrow> k < j"
  unfolding at_log_def
  by (metis Suc_leI less_le_trans linorder_not_less one_le_numeral power_increasing)

lemma at_log_step:
  assumes "at_log Y k" "unat c = 2 ^ j" "j \<le> 16"
  shows "drop_bit 16 (Y - c) = (if k < j then 0xFFFF else 0)"
proof -
  have "unat Y < 2 ^ 16"
    using at_log_less [OF assms(1), where j = 16] assms(1) by (simp add: at_log_def)
  moreover have "unat c \<le> 2 ^ 16"
    unfolding assms(2) using assms(3) by (intro power_increasing) auto
  ultimately show ?thesis
    using msb_shift [of Y c] at_log_less [OF assms(1), where j = j] assms(2) by simp
qed

lemma portable_log:
  assumes "at_log Y k"
  shows "(let N = drop_bit 16 (Y - 0x100) AND 8; Y = push_bit (unat N) Y;
              K = drop_bit 16 (Y - 0x1000) AND 4; N = N + K; Y = push_bit (unat K) Y;
              K = drop_bit 16 (Y - 0x4000) AND 2; N = N + K; Y = push_bit (unat K) Y
          in 14 - N + drop_bit 15 Y) = of_nat k"
proof -
  define a where "a = (if k < 8 then 8 else 0 :: nat)"
  define b where "b = (if k + a < 12 then 4 else 0 :: nat)"
  define c where "c = (if k + a + b < 14 then 2 else 0 :: nat)"
  have k: "k < 16" using assms by (simp add: at_log_def)
  have A: "drop_bit 16 (Y - 0x100) AND 8 = of_nat a"
    using at_log_step [OF assms, where c = "0x100" and j = 8] by (simp add: a_def)
  have Ya: "at_log (push_bit a Y) (k + a)"
    using at_log_shift [OF assms, of a] k by (simp add: a_def)
  have B: "drop_bit 16 (push_bit a Y - 0x1000) AND 4 = of_nat b"
    using at_log_step [OF Ya, where c = "0x1000" and j = 12] by (simp add: b_def)
  have Yb: "at_log (push_bit b (push_bit a Y)) (k + a + b)"
    using at_log_shift [OF Ya, of b] k by (auto simp: a_def b_def)
  have C: "drop_bit 16 (push_bit b (push_bit a Y) - 0x4000) AND 2 = of_nat c"
    using at_log_step [OF Yb, where c = "0x4000" and j = 14] by (simp add: c_def)
  have Yc: "at_log (push_bit c (push_bit b (push_bit a Y))) (k + a + b + c)"
    using at_log_shift [OF Yb, of c] k by (auto simp: a_def b_def c_def)
  have abc: "k + a + b + c = 14 \<or> k + a + b + c = 15" "a \<le> 8" "b \<le> 4" "c \<le> 2"
    using k by (auto simp: a_def b_def c_def)
  have "unat (drop_bit 15 (push_bit c (push_bit b (push_bit a Y)))) = k + a + b + c - 14"
    using abc(1) Yc by (simp only: unat_drop_bit_eq) (auto simp: drop_bit_eq_div at_log_def)
  then have D: "drop_bit 15 (push_bit c (push_bit b (push_bit a Y))) = of_nat (k + a + b + c - 14)"
    by (metis of_nat_unat ucast_id)
  have "(14 - (of_nat a + of_nat b + of_nat c) + of_nat (k + a + b + c - 14) :: 32 word) = of_nat k"
    using abc k by (auto simp: a_def b_def c_def split: if_splits)
  moreover have "unat (of_nat a :: 32 word) = a" "unat (of_nat b :: 32 word) = b"
    "unat (of_nat c :: 32 word) = c"
    by (simp_all add: a_def b_def c_def)
  ultimately show ?thesis
    by (simp only: Let_def A B C D)
qed


section \<open>Tree bins\<close>

definition tree_index_at :: "nat \<Rightarrow> size_t \<Rightarrow> nat" where
  "tree_index_at k S = 2 * k + of_bool (bit S (k + 7))"

lemma tree_index_cast:
  assumes "k < 16"
  shows "(ucast (ucast (push_bit 1 (of_nat k :: 32 word)) + (drop_bit (unat (of_nat k :: 32 word) + (TREEBIN_SHIFT - 1)) S AND 1)) :: bindex)
    = of_nat (tree_index_at k S)"
proof -
  have "unat (of_nat k :: 32 word) = k"
    using assms by (simp add: unsigned_of_nat take_bit_nat_eq_self)
  moreover have "(drop_bit (k + 7) S AND 1) = of_bool (bit S (k + 7))"
    by (simp add: and_one_eq bit_iff_odd_drop_bit mod_2_eq_odd)
  moreover have "(ucast (push_bit 1 (of_nat k :: 32 word)) :: size_t) = of_nat (2 * k)"
    using assms by (simp add: word_unat_eq_iff unsigned_of_nat take_bit_nat_eq_self unat_word_ariths unsigned_ucast_eq)
  ultimately show ?thesis
    using assms by (auto simp: TREEBIN_SHIFT_def tree_index_at_def word_unat_eq_iff unsigned_of_nat take_bit_nat_eq_self unat_word_ariths unsigned_ucast_eq)
qed

lemma tree_word:
  fixes S :: size_t
  assumes "S < 2 ^ 40"
  shows "unat (ucast (drop_bit TREEBIN_SHIFT S) :: 32 word) = unat (drop_bit TREEBIN_SHIFT S)"
    "unat (drop_bit TREEBIN_SHIFT S) = unat S div 256"
proof -
  show q: "unat (drop_bit TREEBIN_SHIFT S) = unat S div 256"
    by (simp only: unat_drop_bit_eq) (simp add: drop_bit_eq_div TREEBIN_SHIFT_def)
  have "unat S < 2 ^ 40"
    using assms by (simp add: word_less_nat_alt)
  with q show "unat (ucast (drop_bit TREEBIN_SHIFT S) :: 32 word) = unat (drop_bit TREEBIN_SHIFT S)"
    by (simp only: unsigned_ucast_eq) (simp add: take_bit_nat_eq_self)
qed

lemma tree_index_middle:
  assumes "k < 16" "2 ^ (k + 8) \<le> unat S" "unat S < 2 ^ (k + 9)"
  shows "compute_tree_index S = of_nat (tree_index_at k S)"
    "compute_tree_index_portable S = of_nat (tree_index_at k S)"
proof -
  have "(2::nat) ^ (k + 9) \<le> 2 ^ 25"
    using assms(1) by (intro power_increasing) auto
  then have S: "S < 2 ^ 40"
    using assms(3) by (simp add: word_less_nat_alt)
  let ?X = "ucast (drop_bit TREEBIN_SHIFT S) :: 32 word"
  have "2 ^ k \<le> unat S div 256" "unat S div 256 < 2 ^ Suc k"
    using assms(2,3) by (auto simp: power_add less_eq_div_iff_mult_less_eq div_less_iff_less_mult)
  then have log: "at_log ?X k" and X: "unat ?X = unat S div 256"
    using assms(1) tree_word [OF S] by (simp_all add: at_log_def)
  have nz: "?X \<noteq> 0" and le: "\<not> ?X > 0xFFFF" and nz': "drop_bit TREEBIN_SHIFT S \<noteq> 0" and le': "\<not> drop_bit TREEBIN_SHIFT S > 0xFFFF"
    using at_log_less [OF log, where j = 16] log tree_word [OF S]
    by (auto simp: at_log_def word_less_nat_alt)
  have clz: "32 - 1 - builtin_clz ?X = of_nat k"
    using clz_top [of k ?X] log by (simp add: at_log_def of_nat_diff)
  show "compute_tree_index S = of_nat (tree_index_at k S)"
    unfolding compute_tree_index_def Let_def clz using nz le tree_index_cast [OF assms(1)] by simp
  show "compute_tree_index_portable S = of_nat (tree_index_at k S)"
    unfolding compute_tree_index_portable_def Let_def
    by (simp only: nz' le' if_False portable_log [OF log, unfolded Let_def] tree_index_cast [OF assms(1)])
qed

lemma tree_index_same:
  assumes "S < 2 ^ 40"
  shows "compute_tree_index S = compute_tree_index_portable S"
proof -
  let ?n = "unat S div 256"
  note w = tree_word [OF assms]
  consider "?n = 0" | "2 ^ 16 \<le> ?n" | "0 < ?n" "?n < 2 ^ 16" by linarith
  then show ?thesis
  proof cases
    case 1
    then have "drop_bit TREEBIN_SHIFT S = 0"
      using w by (simp add: unat_eq_0 flip: unat_0_iff)
    then show ?thesis
      by (simp add: compute_tree_index_def compute_tree_index_portable_def)
  next
    case 2
    then have "(ucast (drop_bit TREEBIN_SHIFT S) :: 32 word) > 0xFFFF" "drop_bit TREEBIN_SHIFT S > 0xFFFF"
      using w by (simp_all add: word_less_nat_alt)
    then show ?thesis
      by (auto simp: compute_tree_index_def compute_tree_index_portable_def Let_def)
  next
    case 3
    from 3 obtain k where "k < 16" "2 ^ k \<le> ?n" "?n < 2 ^ Suc k" by (rule log16)
    then have "2 ^ (k + 8) \<le> unat S" "unat S < 2 ^ (k + 9)"
      by (auto simp: power_add less_eq_div_iff_mult_less_eq div_less_iff_less_mult)
    with \<open>k < 16\<close> show ?thesis
      by (simp add: tree_index_middle)
  qed
qed
lemma below_32: "n < 32 \<Longrightarrow> n \<in> {0,1,2,3,4,5,6,7,8,9,10,11,12,13,14,15,16,17,18,19,20,21,22,23,24,25,26,27,28,29,30,31}" for n :: nat
  unfolding insert_iff empty_iff by presburger

lemma minsize_table:
  "minsize_for_tree_index 0 = 0x100"
  "minsize_for_tree_index 1 = 0x180"
  "minsize_for_tree_index 2 = 0x200"
  "minsize_for_tree_index 3 = 0x300"
  "minsize_for_tree_index 4 = 0x400"
  "minsize_for_tree_index 5 = 0x600"
  "minsize_for_tree_index 6 = 0x800"
  "minsize_for_tree_index 7 = 0xc00"
  "minsize_for_tree_index 8 = 0x1000"
  "minsize_for_tree_index 9 = 0x1800"
  "minsize_for_tree_index 10 = 0x2000"
  "minsize_for_tree_index 11 = 0x3000"
  "minsize_for_tree_index 12 = 0x4000"
  "minsize_for_tree_index 13 = 0x6000"
  "minsize_for_tree_index 14 = 0x8000"
  "minsize_for_tree_index 15 = 0xc000"
  "minsize_for_tree_index 16 = 0x10000"
  "minsize_for_tree_index 17 = 0x18000"
  "minsize_for_tree_index 18 = 0x20000"
  "minsize_for_tree_index 19 = 0x30000"
  "minsize_for_tree_index 20 = 0x40000"
  "minsize_for_tree_index 21 = 0x60000"
  "minsize_for_tree_index 22 = 0x80000"
  "minsize_for_tree_index 23 = 0xc0000"
  "minsize_for_tree_index 24 = 0x100000"
  "minsize_for_tree_index 25 = 0x180000"
  "minsize_for_tree_index 26 = 0x200000"
  "minsize_for_tree_index 27 = 0x300000"
  "minsize_for_tree_index 28 = 0x400000"
  "minsize_for_tree_index 29 = 0x600000"
  "minsize_for_tree_index 30 = 0x800000"
  "minsize_for_tree_index 31 = 0xc00000"
  by code_simp+

lemma minsize_at:
  assumes "n < 32"
  shows "unat (minsize_for_tree_index (of_nat n)) = 2 ^ (n div 2 + 8) + (n mod 2) * 2 ^ (n div 2 + 7)"
  using below_32 [OF assms] by (elim insertE emptyE) (simp_all add: minsize_table)

lemma tree_bin_range:
  assumes "k < 16" "2 ^ (k + 8) \<le> unat S" "unat S < 2 ^ (k + 9)"
  shows "unat (minsize_for_tree_index (of_nat (tree_index_at k S))) \<le> unat S"
    "tree_index_at k S \<noteq> 31 \<Longrightarrow> unat S < unat (minsize_for_tree_index (of_nat (tree_index_at k S) + 1))"
    "tree_index_at k S < 32"
proof -
  have bit: "bit S (k + 7) \<longleftrightarrow> 2 ^ (k + 8) + 2 ^ (k + 7) \<le> unat S"
  proof -
    have "bit S (k + 7) \<longleftrightarrow> bit (unat S) (k + 7)"
      by (simp add: bit_unsigned_iff)
    also have "\<dots> \<longleftrightarrow> odd (unat S div 2 ^ (k + 7))"
      by (simp add: bit_iff_odd)
    also have "\<dots> \<longleftrightarrow> unat S div 2 ^ (k + 7) = 3"
    proof -
      have "2 \<le> unat S div 2 ^ (k + 7)" "unat S div 2 ^ (k + 7) < 4"
        using assms(2,3) by (simp_all add: less_eq_div_iff_mult_less_eq div_less_iff_less_mult power_add)
      then have "unat S div 2 ^ (k + 7) \<in> {2, 3}" by auto
      then show ?thesis by auto
    qed
    also have "\<dots> \<longleftrightarrow> 3 \<le> unat S div 2 ^ (k + 7)"
    proof -
      have "unat S div 2 ^ (k + 7) < 4"
        using assms(3) by (simp add: div_less_iff_less_mult power_add)
      then show ?thesis by auto
    qed
    also have "\<dots> \<longleftrightarrow> 2 ^ (k + 8) + 2 ^ (k + 7) \<le> unat S"
      by (simp add: less_eq_div_iff_mult_less_eq power_add)
    finally show ?thesis .
  qed
  show "tree_index_at k S < 32" using assms(1) by (auto simp: tree_index_at_def)
  show "unat (minsize_for_tree_index (of_nat (tree_index_at k S))) \<le> unat S"
    using assms by (subst minsize_at) (auto simp: tree_index_at_def bit)
  assume "tree_index_at k S \<noteq> 31"
  then have "Suc (tree_index_at k S) < 32" using assms(1) by (auto simp: tree_index_at_def)
  then show "unat S < unat (minsize_for_tree_index (of_nat (tree_index_at k S) + 1))"
    using assms minsize_at [of "Suc (tree_index_at k S)"] bit
    by (auto simp: tree_index_at_def add.commute algebra_simps split: if_splits)
qed

lemma tree_index_in_bin:
  assumes "MIN_LARGE_SIZE \<le> S" "S < 2 ^ 40"
  shows "compute_tree_index S = compute_tree_index_portable S \<and> compute_tree_index S < NTREEBINS
    \<and> minsize_for_tree_index (compute_tree_index S) \<le> S
    \<and> (compute_tree_index S = NTREEBINS - 1 \<or> S < minsize_for_tree_index (compute_tree_index S + 1))"
proof -
  let ?n = "unat S div 256"
  have S: "256 \<le> unat S" using assms(1) by (simp add: dl_consts word_le_nat_alt)
  note w = tree_word [OF assms(2)]
  show ?thesis
  proof (cases "?n < 2 ^ 16")
    case True
    have "0 < ?n" using S by (simp add: div_greater_zero_iff)
    then obtain k where "k < 16" "2 ^ k \<le> ?n" "?n < 2 ^ Suc k" using True by (rule log16)
    then have k: "k < 16" "2 ^ (k + 8) \<le> unat S" "unat S < 2 ^ (k + 9)"
      by (auto simp: power_add less_eq_div_iff_mult_less_eq div_less_iff_less_mult)
    note r = tree_bin_range [OF k]
    have u: "unat (of_nat (tree_index_at k S) :: bindex) = tree_index_at k S"
      using r(3) by (simp add: unsigned_of_nat take_bit_nat_eq_self)
    show ?thesis
      unfolding tree_index_middle [OF k] NTREEBINS_def
      using r u by (auto simp: word_le_nat_alt word_less_nat_alt word_unat_eq_iff)
  next
    case False
    then have "compute_tree_index S = 31"
      using w by (auto simp: compute_tree_index_def NTREEBINS_def Let_def word_less_nat_alt)
    then show ?thesis
      using tree_index_same [OF assms(2)] False
      by (auto simp: NTREEBINS_def minsize_table word_le_nat_alt)
  qed
qed

text \<open>
  C39: Below a terabyte the x86 and the portable computation of a tree index agree, the index is
  one of the 32 bins, and the bin's range of sizes contains the size.
\<close>

theorem tree_bin_holds_size:
  assumes "MIN_LARGE_SIZE \<le> S" "S < 2 ^ 40"
  shows "compute_tree_index S = compute_tree_index_portable S \<and> compute_tree_index S < NTREEBINS
    \<and> minsize_for_tree_index (compute_tree_index S) \<le> S
    \<and> (compute_tree_index S = NTREEBINS - 1 \<or> S < minsize_for_tree_index (compute_tree_index S + 1))"
  using assms by (rule tree_index_in_bin)

theorem tree_bin_holds_size_witness:
  "compute_tree_index 5000 = 8 \<and> compute_tree_index_portable 5000 = 8"
  using tree_bin_holds_size [of 5000] by (simp add: dl_consts) code_simp

text \<open>At a terabyte they differ: the x86 version loses the high bits of the size.\<close>

lemma tree_index_differs:
  "compute_tree_index (2 ^ 40) = 0 \<and> compute_tree_index_portable (2 ^ 40) = 31"
  by code_simp

section \<open>Bit maps\<close>

lemma lowest_bit:
  fixes x :: "32 word"
  assumes "x \<noteq> 0"
  obtains k where "k < 32" "bit x k" "\<And>j. j < k \<Longrightarrow> \<not> bit x j"
proof -
  have "\<exists>k. bit x k" using assms by (auto simp: bit_eq_iff)
  then have "bit x (LEAST k. bit x k)" by (rule LeastI_ex)
  moreover have "\<not> bit x j" if "j < (LEAST k. bit x k)" for j using that not_less_Least by blast
  moreover have "(LEAST k. bit x k) < 32"
    using calculation(1) bit_imp_le_length by fastforce
  ultimately show ?thesis using that by blast
qed

lemma bit_idx2bit: "bit (idx2bit i) j \<longleftrightarrow> j = unat i \<and> j < 32"
  by (auto simp: idx2bit_def bit_simps)

lemma least_bit_at:
  fixes x :: "32 word"
  assumes "k < 32" "bit x k" "\<And>j. j < k \<Longrightarrow> \<not> bit x j"
  shows "least_bit x = push_bit k 1"
proof -
  have "x = unset_bit k x + push_bit k 1"
    using assms(1,2) by (subst disjunctive_add_eq_or) (auto intro!: bit_word_eqI simp: bit_simps)
  then have "x - 1 = unset_bit k x + mask k"
    by (simp add: mask_eq_exp_minus_1 push_bit_eq_mult algebra_simps)
  also have "\<dots> = unset_bit k x OR mask k"
    using assms(3) by (subst disjunctive_add_eq_or) (auto intro!: bit_word_eqI simp: bit_simps)
  finally have m: "x - 1 = unset_bit k x OR mask k" .
  show ?thesis
    unfolding least_bit_def
    using assms by (auto intro!: bit_word_eqI simp: bit_minus_iff m bit_simps)
qed

lemma compute_bit2idx_least:
  assumes "x \<noteq> 0"
  shows "bit x (unat (compute_bit2idx x)) \<and> (\<forall>j. bit x j \<longrightarrow> unat (compute_bit2idx x) \<le> j)
     \<and> least_bit x = idx2bit (compute_bit2idx x) \<and> compute_bit2idx x < 32
     \<and> compute_bit2idx (least_bit x) = compute_bit2idx x"
proof -
  obtain k where k: "k < 32" "bit x k" "\<And>j. j < k \<Longrightarrow> \<not> bit x j"
    using lowest_bit [OF assms] by blast
  have c: "compute_bit2idx x = of_nat k"
    using ctz_low [OF k(2,3,1)] by (simp add: compute_bit2idx_def)
  have u: "unat (of_nat k :: 32 word) = k"
    using k(1) by (simp add: unsigned_of_nat take_bit_nat_eq_self)
  have l: "least_bit x = push_bit k 1"
    by (rule least_bit_at [OF k])
  have "compute_bit2idx (push_bit k 1) = of_nat k"
    unfolding compute_bit2idx_def by (rule ctz_low) (use k in \<open>auto simp: bit_simps\<close>)
  with k c u l show ?thesis
    by (auto simp: idx2bit_def word_less_nat_alt not_less [symmetric])
qed

lemma bit2idx_inverse:
  assumes "i < 32"
  shows "compute_bit2idx (idx2bit i) = i"
  unfolding compute_bit2idx_def
  using ctz_low [of "idx2bit i" "unat i"] assms by (simp add: bit_idx2bit word_less_nat_alt)

lemma bit2idx_portable_table:
  "compute_bit2idx_portable (idx2bit 0) = 0"
  "compute_bit2idx_portable (idx2bit 1) = 1"
  "compute_bit2idx_portable (idx2bit 2) = 2"
  "compute_bit2idx_portable (idx2bit 3) = 3"
  "compute_bit2idx_portable (idx2bit 4) = 4"
  "compute_bit2idx_portable (idx2bit 5) = 5"
  "compute_bit2idx_portable (idx2bit 6) = 6"
  "compute_bit2idx_portable (idx2bit 7) = 7"
  "compute_bit2idx_portable (idx2bit 8) = 8"
  "compute_bit2idx_portable (idx2bit 9) = 9"
  "compute_bit2idx_portable (idx2bit 10) = 10"
  "compute_bit2idx_portable (idx2bit 11) = 11"
  "compute_bit2idx_portable (idx2bit 12) = 12"
  "compute_bit2idx_portable (idx2bit 13) = 13"
  "compute_bit2idx_portable (idx2bit 14) = 14"
  "compute_bit2idx_portable (idx2bit 15) = 15"
  "compute_bit2idx_portable (idx2bit 16) = 16"
  "compute_bit2idx_portable (idx2bit 17) = 17"
  "compute_bit2idx_portable (idx2bit 18) = 18"
  "compute_bit2idx_portable (idx2bit 19) = 19"
  "compute_bit2idx_portable (idx2bit 20) = 20"
  "compute_bit2idx_portable (idx2bit 21) = 21"
  "compute_bit2idx_portable (idx2bit 22) = 22"
  "compute_bit2idx_portable (idx2bit 23) = 23"
  "compute_bit2idx_portable (idx2bit 24) = 24"
  "compute_bit2idx_portable (idx2bit 25) = 25"
  "compute_bit2idx_portable (idx2bit 26) = 26"
  "compute_bit2idx_portable (idx2bit 27) = 27"
  "compute_bit2idx_portable (idx2bit 28) = 28"
  "compute_bit2idx_portable (idx2bit 29) = 29"
  "compute_bit2idx_portable (idx2bit 30) = 30"
  "compute_bit2idx_portable (idx2bit 31) = 31"
  by code_simp+

lemma bindex_cases:
  assumes "i < (32 :: bindex)" "\<And>n. n < 32 \<Longrightarrow> P (of_nat n)"
  shows "P i"
  using assms(2) [of "unat i"] assms(1) by (simp add: word_less_nat_alt)

lemma bit2idx_portable:
  assumes "i < 32"
  shows "compute_bit2idx_portable (idx2bit i) = i"
proof (rule bindex_cases [OF assms])
  show "compute_bit2idx_portable (idx2bit (of_nat n)) = of_nat n" if "n < 32" for n
    using below_32 [OF that] by (elim insertE emptyE) (simp_all add: bit2idx_portable_table)
qed

lemma bit_left_bits:
  assumes "i < 32"
  shows "bit (left_bits (idx2bit i)) j \<longleftrightarrow> unat i < j \<and> j < 32"
proof -
  have "left_bits (idx2bit i) = push_bit (Suc (unat i)) 1 OR - push_bit (Suc (unat i)) 1"
    by (simp add: left_bits_def idx2bit_def mult.commute)
  also have "- push_bit (Suc (unat i)) (1 :: 32 word) = NOT (mask (Suc (unat i)))"
    by (simp only: push_bit_of_1 minus_exp_eq_not_mask)
  finally show ?thesis
    using bit_imp_le_length [of "left_bits (idx2bit i)" j] by (auto simp: bit_simps)
qed

lemma marked_bit:
  fixes m :: binmap
  assumes "i < 32"
  shows "m AND idx2bit i \<noteq> 0 \<longleftrightarrow> bit m (unat i)"
proof -
  have "m AND idx2bit i \<noteq> 0 \<longleftrightarrow> (\<exists>n. bit (m AND idx2bit i) n)"
    using bit_eqI [of "m AND idx2bit i" 0] by auto
  then show ?thesis using assms by (auto simp: bit_and_iff bit_idx2bit word_less_nat_alt)
qed

text \<open>
  The search of the allocator for a larger bin, \<open>least_bit (left_bits (idx2bit i) & map)\<close> turned
  into an index, finds the first marked bin above \<open>i\<close>.
\<close>

lemma next_marked_bin:
  assumes "i < 32" "left_bits (idx2bit i) AND m \<noteq> 0"
  shows "let j = compute_bit2idx (least_bit (left_bits (idx2bit i) AND m))
    in i < j \<and> j < 32 \<and> m AND idx2bit j \<noteq> 0 \<and> (\<forall>k. i < k \<and> k < j \<longrightarrow> m AND idx2bit k = 0)"
proof -
  let ?x = "left_bits (idx2bit i) AND m"
  define j where "j = compute_bit2idx ?x"
  note l = compute_bit2idx_least [OF assms(2), folded j_def]
  have b: "bit ?x n \<longleftrightarrow> unat i < n \<and> n < 32 \<and> bit m n" for n
    using bit_left_bits [OF assms(1)] by (auto simp: bit_simps)
  note marked = marked_bit [of _ m]
  have "unat i < unat j" "bit m (unat j)" "j < 32" using l b by auto
  moreover have "m AND idx2bit k = 0" if "i < k" "k < j" for k
  proof -
    have "k < 32" using that(2) \<open>j < 32\<close> by simp
    moreover have "\<not> bit m (unat k)"
      using l b [of "unat k"] that \<open>k < 32\<close> by (auto simp: word_less_nat_alt)
    ultimately show ?thesis using marked by blast
  qed
  ultimately show ?thesis
    using l marked [of j] by (auto simp: Let_def word_less_nat_alt)
qed

end
