(* ===== verification/Dl_State.thy ===== *)
theory Dl_State
  imports Dl_Bits
begin

unbundle bit_operations_syntax

text \<open>
  The state of the allocator (\<open>src/src/dlmalloc.c\<close>): \<open>malloc_state\<close>, \<open>malloc_params\<close> and the
  memory that holds chunks and segment records.

  \<^item> Memory is a map from addresses to 64-bit words; every field of a chunk or of a segment
    record lies at a multiple of 8, and a 32-bit field is the low half of its word.
  \<^item> A pointer to a chunk is its address. \<open>head s p\<close> is \<open>p->head\<close>, \<open>set_head p v s\<close> is the state
    after \<open>p->head = v\<close>, and so on for the other fields.
  \<^item> Those fields of \<open>malloc_state\<close> whose address the code takes, the bins and the first segment
    record, lie in the memory at their offsets in the struct; the others are fields of the record.
  \<^item> \<open>mmap\<close>, \<open>munmap\<close> and \<open>mremap\<close> are a parameter: functions of the number of the call, its
    arguments and the memory, which return the result and the memory afterwards.
  \<^item> \<open>Trap\<close> is \<open>abort ()\<close>, the error action of the allocator; \<open>Spin\<close> is a loop that does not
    end, as on a corrupted list.
\<close>

section \<open>Results\<close>

datatype 'a dl_result = Ret 'a | Trap | Spin

primrec dbind :: "'a dl_result \<Rightarrow> ('a \<Rightarrow> 'b dl_result) \<Rightarrow> 'b dl_result" where
  "dbind (Ret a) k = k a"
| "dbind Trap k = Trap"
| "dbind Spin k = Spin"

primrec walk :: "'a option \<Rightarrow> ('a \<Rightarrow> 'b dl_result) \<Rightarrow> 'b dl_result" where
  "walk (Some a) k = k a"
| "walk None k = Spin"

lemma dbind_assoc [simp]: "dbind (dbind r f) g = dbind r (\<lambda>x. dbind (f x) g)"
  by (cases r) auto

lemma dbind_Ret [simp]: "dbind r Ret = r"
  by (cases r) auto

lemma dbind_eq_Ret: "dbind r f = Ret y \<longleftrightarrow> (\<exists>x. r = Ret x \<and> f x = Ret y)"
  by (cases r) auto

lemma walk_eq_Ret: "walk w f = Ret y \<longleftrightarrow> (\<exists>x. w = Some x \<and> f x = Ret y)"
  by (cases w) auto

section \<open>The structs\<close>

record malloc_params =
  mp_magic :: size_t
  page_size :: size_t
  granularity :: size_t
  mmap_threshold :: size_t
  trim_threshold :: size_t
  default_mflags :: "32 word"

type_synonym store = "addr \<Rightarrow> 64 word"

record malloc_state =
  heap :: store
  mst :: addr
  smallmap :: binmap
  treemap :: binmap
  dvsize :: size_t
  topsize :: size_t
  least_addr :: addr
  dv :: addr
  mtop :: addr
  trim_check :: size_t
  release_checks :: size_t
  magic :: size_t
  footprint :: size_t
  max_footprint :: size_t
  footprint_limit :: size_t
  mflags :: "32 word"
  extp :: addr
  exts :: size_t
  mparams :: malloc_params
  syscalls :: nat

text \<open>The system below: \<open>mmap\<close>, \<open>munmap\<close>, \<open>mremap\<close>, the page size and the time.\<close>

record system =
  sys_mmap :: "nat \<Rightarrow> size_t \<Rightarrow> store \<Rightarrow> addr \<times> store"
  sys_munmap :: "nat \<Rightarrow> addr \<Rightarrow> size_t \<Rightarrow> store \<Rightarrow> int \<times> store"
  sys_mremap :: "nat \<Rightarrow> addr \<Rightarrow> size_t \<Rightarrow> size_t \<Rightarrow> int \<Rightarrow> store \<Rightarrow> addr \<times> store"
  getpagesize :: size_t
  sys_time :: "64 word"

definition CMFAIL :: addr where "CMFAIL = MAX_SIZE_T"
definition USE_MMAP_BIT :: "32 word" where "USE_MMAP_BIT = 1"
definition USE_LOCK_BIT :: "32 word" where "USE_LOCK_BIT = 0"
definition USE_NONCONTIGUOUS_BIT :: "32 word" where "USE_NONCONTIGUOUS_BIT = 4"
definition EXTERN_BIT :: "32 word" where "EXTERN_BIT = 8"
definition DEFAULT_GRANULARITY :: size_t where "DEFAULT_GRANULARITY = 64 * 1024"
definition DEFAULT_TRIM_THRESHOLD :: size_t where "DEFAULT_TRIM_THRESHOLD = 2 * 1024 * 1024"
definition DEFAULT_MMAP_THRESHOLD :: size_t where "DEFAULT_MMAP_THRESHOLD = 256 * 1024"
definition MAX_RELEASE_CHECK_RATE :: size_t where "MAX_RELEASE_CHECK_RATE = 4095"

definition CALL_MMAP :: "system \<Rightarrow> size_t \<Rightarrow> malloc_state \<Rightarrow> addr \<times> malloc_state" where
  "CALL_MMAP os n s =
     (let (a, h) = sys_mmap os (syscalls s) n (heap s)
      in (a, s\<lparr>heap := h, syscalls := Suc (syscalls s)\<rparr>))"

definition CALL_MUNMAP :: "system \<Rightarrow> addr \<Rightarrow> size_t \<Rightarrow> malloc_state \<Rightarrow> int \<times> malloc_state" where
  "CALL_MUNMAP os a n s =
     (let (r, h) = sys_munmap os (syscalls s) a n (heap s)
      in (r, s\<lparr>heap := h, syscalls := Suc (syscalls s)\<rparr>))"

definition CALL_MREMAP ::
  "system \<Rightarrow> addr \<Rightarrow> size_t \<Rightarrow> size_t \<Rightarrow> int \<Rightarrow> malloc_state \<Rightarrow> addr \<times> malloc_state" where
  "CALL_MREMAP os a osz nsz mv s =
     (let (r, h) = sys_mremap os (syscalls s) a osz nsz mv (heap s)
      in (r, s\<lparr>heap := h, syscalls := Suc (syscalls s)\<rparr>))"

section \<open>Fields in memory\<close>

definition wr :: "addr \<Rightarrow> 64 word \<Rightarrow> malloc_state \<Rightarrow> malloc_state" where
  "wr a v s = s\<lparr>heap := (heap s)(a := v)\<rparr>"

definition rd32 :: "malloc_state \<Rightarrow> addr \<Rightarrow> 32 word" where
  "rd32 s a = ucast (heap s a)"

definition wr32 :: "addr \<Rightarrow> 32 word \<Rightarrow> malloc_state \<Rightarrow> malloc_state" where
  "wr32 a v s = wr a ((heap s a AND NOT 0xFFFFFFFF) OR ucast v) s"

text \<open>\<open>struct malloc_chunk\<close> and \<open>struct malloc_tree_chunk\<close>\<close>

definition prev_foot :: "malloc_state \<Rightarrow> addr \<Rightarrow> size_t" where "prev_foot s p = heap s p"
definition head :: "malloc_state \<Rightarrow> addr \<Rightarrow> size_t" where "head s p = heap s (p + 8)"
definition fd :: "malloc_state \<Rightarrow> addr \<Rightarrow> addr" where "fd s p = heap s (p + 16)"
definition bk :: "malloc_state \<Rightarrow> addr \<Rightarrow> addr" where "bk s p = heap s (p + 24)"
definition child_at :: "addr \<Rightarrow> size_t \<Rightarrow> addr" where "child_at t i = t + 32 + 8 * i"
definition child :: "malloc_state \<Rightarrow> addr \<Rightarrow> size_t \<Rightarrow> addr" where "child s t i = heap s (child_at t i)"
definition parent :: "malloc_state \<Rightarrow> addr \<Rightarrow> addr" where "parent s t = heap s (t + 48)"
definition index :: "malloc_state \<Rightarrow> addr \<Rightarrow> bindex" where "index s t = rd32 s (t + 56)"

definition set_prev_foot :: "addr \<Rightarrow> size_t \<Rightarrow> malloc_state \<Rightarrow> malloc_state" where
  "set_prev_foot p v = wr p v"
definition set_head :: "addr \<Rightarrow> size_t \<Rightarrow> malloc_state \<Rightarrow> malloc_state" where
  "set_head p v = wr (p + 8) v"
definition set_fd :: "addr \<Rightarrow> addr \<Rightarrow> malloc_state \<Rightarrow> malloc_state" where
  "set_fd p v = wr (p + 16) v"
definition set_bk :: "addr \<Rightarrow> addr \<Rightarrow> malloc_state \<Rightarrow> malloc_state" where
  "set_bk p v = wr (p + 24) v"
definition set_child :: "addr \<Rightarrow> size_t \<Rightarrow> addr \<Rightarrow> malloc_state \<Rightarrow> malloc_state" where
  "set_child t i v = wr (child_at t i) v"
definition set_parent :: "addr \<Rightarrow> addr \<Rightarrow> malloc_state \<Rightarrow> malloc_state" where
  "set_parent t v = wr (t + 48) v"
definition set_index :: "addr \<Rightarrow> bindex \<Rightarrow> malloc_state \<Rightarrow> malloc_state" where
  "set_index t v = wr32 (t + 56) v"

definition leftmost_child :: "malloc_state \<Rightarrow> addr \<Rightarrow> addr" where
  "leftmost_child s t = (if child s t 0 \<noteq> 0 then child s t 0 else child s t 1)"

text \<open>\<open>struct malloc_segment\<close>\<close>

definition seg_base :: "malloc_state \<Rightarrow> addr \<Rightarrow> addr" where "seg_base s sp = heap s sp"
definition seg_size :: "malloc_state \<Rightarrow> addr \<Rightarrow> size_t" where "seg_size s sp = heap s (sp + 8)"
definition seg_next :: "malloc_state \<Rightarrow> addr \<Rightarrow> addr" where "seg_next s sp = heap s (sp + 16)"
definition sflags :: "malloc_state \<Rightarrow> addr \<Rightarrow> 32 word" where "sflags s sp = rd32 s (sp + 24)"

definition set_seg_base :: "addr \<Rightarrow> addr \<Rightarrow> malloc_state \<Rightarrow> malloc_state" where
  "set_seg_base sp v = wr sp v"
definition set_seg_size :: "addr \<Rightarrow> size_t \<Rightarrow> malloc_state \<Rightarrow> malloc_state" where
  "set_seg_size sp v = wr (sp + 8) v"
definition set_seg_next :: "addr \<Rightarrow> addr \<Rightarrow> malloc_state \<Rightarrow> malloc_state" where
  "set_seg_next sp v = wr (sp + 16) v"
definition set_sflags :: "addr \<Rightarrow> 32 word \<Rightarrow> malloc_state \<Rightarrow> malloc_state" where
  "set_sflags sp v = wr32 (sp + 24) v"

definition sizeof_malloc_segment :: size_t where "sizeof_malloc_segment = 32"

definition is_mmapped_segment :: "malloc_state \<Rightarrow> addr \<Rightarrow> bool" where
  "is_mmapped_segment s sp \<longleftrightarrow> sflags s sp AND USE_MMAP_BIT \<noteq> 0"

definition is_extern_segment :: "malloc_state \<Rightarrow> addr \<Rightarrow> bool" where
  "is_extern_segment s sp \<longleftrightarrow> sflags s sp AND EXTERN_BIT \<noteq> 0"

text \<open>\<open>struct malloc_state\<close>: the offsets of \<open>smallbins\<close>, \<open>treebins\<close> and \<open>seg\<close>, and its size\<close>

definition smallbins_offset :: size_t where "smallbins_offset = 72"
definition treebins_offset :: size_t where "treebins_offset = smallbins_offset + (32 + 1) * 2 * 8"
definition seg_offset :: size_t where "seg_offset = treebins_offset + 32 * 8 + 32"
definition sizeof_malloc_state :: size_t where
  "sizeof_malloc_state = seg_offset + sizeof_malloc_segment + 16"

definition smallbin_at :: "malloc_state \<Rightarrow> bindex \<Rightarrow> addr" where
  "smallbin_at s i = mst s + smallbins_offset + 8 * ucast (push_bit 1 i)"

definition treebin_at :: "malloc_state \<Rightarrow> bindex \<Rightarrow> addr" where
  "treebin_at s i = mst s + treebins_offset + 8 * ucast i"

definition treebin :: "malloc_state \<Rightarrow> bindex \<Rightarrow> addr" where
  "treebin s i = heap s (treebin_at s i)"

definition first_seg :: "malloc_state \<Rightarrow> addr" where
  "first_seg s = mst s + seg_offset"

section \<open>Head and foot of a chunk\<close>

definition cinuse :: "malloc_state \<Rightarrow> addr \<Rightarrow> bool" where "cinuse s p \<longleftrightarrow> head s p AND CINUSE_BIT \<noteq> 0"
definition pinuse :: "malloc_state \<Rightarrow> addr \<Rightarrow> bool" where "pinuse s p \<longleftrightarrow> head s p AND PINUSE_BIT \<noteq> 0"
definition is_inuse :: "malloc_state \<Rightarrow> addr \<Rightarrow> bool" where
  "is_inuse s p \<longleftrightarrow> head s p AND INUSE_BITS \<noteq> PINUSE_BIT"
definition is_mmapped :: "malloc_state \<Rightarrow> addr \<Rightarrow> bool" where
  "is_mmapped s p \<longleftrightarrow> head s p AND INUSE_BITS = 0"
definition chunksize :: "malloc_state \<Rightarrow> addr \<Rightarrow> size_t" where
  "chunksize s p = head s p AND NOT FLAG_BITS"
definition next_chunk :: "malloc_state \<Rightarrow> addr \<Rightarrow> addr" where
  "next_chunk s p = p + (head s p AND NOT FLAG_BITS)"
definition prev_chunk :: "malloc_state \<Rightarrow> addr \<Rightarrow> addr" where
  "prev_chunk s p = p - prev_foot s p"
definition next_pinuse :: "malloc_state \<Rightarrow> addr \<Rightarrow> bool" where
  "next_pinuse s p \<longleftrightarrow> pinuse s (next_chunk s p)"
definition overhead_for :: "malloc_state \<Rightarrow> addr \<Rightarrow> size_t" where
  "overhead_for s p = (if is_mmapped s p then MMAP_CHUNK_OVERHEAD else CHUNK_OVERHEAD)"
definition calloc_must_clear :: "malloc_state \<Rightarrow> addr \<Rightarrow> bool" where
  "calloc_must_clear s p \<longleftrightarrow> \<not> is_mmapped s p"

definition clear_pinuse :: "addr \<Rightarrow> malloc_state \<Rightarrow> malloc_state" where
  "clear_pinuse p s = set_head p (head s p AND NOT PINUSE_BIT) s"

definition set_foot :: "addr \<Rightarrow> size_t \<Rightarrow> malloc_state \<Rightarrow> malloc_state" where
  "set_foot p n = set_prev_foot (p + n) n"

definition set_size_and_pinuse_of_free_chunk :: "addr \<Rightarrow> size_t \<Rightarrow> malloc_state \<Rightarrow> malloc_state" where
  "set_size_and_pinuse_of_free_chunk p n s = set_foot p n (set_head p (n OR PINUSE_BIT) s)"

definition set_free_with_pinuse :: "addr \<Rightarrow> size_t \<Rightarrow> addr \<Rightarrow> malloc_state \<Rightarrow> malloc_state" where
  "set_free_with_pinuse p n q s = set_size_and_pinuse_of_free_chunk p n (clear_pinuse q s)"

definition mark_next_pinuse :: "addr \<Rightarrow> malloc_state \<Rightarrow> malloc_state" where
  "mark_next_pinuse q s = set_head q (head s q OR PINUSE_BIT) s"

definition set_inuse :: "addr \<Rightarrow> size_t \<Rightarrow> malloc_state \<Rightarrow> malloc_state" where
  "set_inuse p n s =
     mark_next_pinuse (p + n) (set_head p ((head s p AND PINUSE_BIT) OR n OR CINUSE_BIT) s)"

definition set_inuse_and_pinuse :: "addr \<Rightarrow> size_t \<Rightarrow> malloc_state \<Rightarrow> malloc_state" where
  "set_inuse_and_pinuse p n s =
     mark_next_pinuse (p + n) (set_head p (n OR PINUSE_BIT OR CINUSE_BIT) s)"

definition set_size_and_pinuse_of_inuse_chunk :: "addr \<Rightarrow> size_t \<Rightarrow> malloc_state \<Rightarrow> malloc_state" where
  "set_size_and_pinuse_of_inuse_chunk p n s = set_head p (n OR PINUSE_BIT OR CINUSE_BIT) s"

section \<open>Flags, alignment to pages, checks\<close>

definition is_initialized :: "malloc_state \<Rightarrow> bool" where "is_initialized s \<longleftrightarrow> mtop s \<noteq> 0"
definition use_mmap :: "malloc_state \<Rightarrow> bool" where "use_mmap s \<longleftrightarrow> mflags s AND USE_MMAP_BIT \<noteq> 0"
definition enable_mmap :: "malloc_state \<Rightarrow> malloc_state" where
  "enable_mmap s = s\<lparr>mflags := mflags s OR USE_MMAP_BIT\<rparr>"
definition disable_mmap :: "malloc_state \<Rightarrow> malloc_state" where
  "disable_mmap s = s\<lparr>mflags := mflags s AND NOT USE_MMAP_BIT\<rparr>"
definition disable_contiguous :: "malloc_state \<Rightarrow> malloc_state" where
  "disable_contiguous s = s\<lparr>mflags := mflags s OR USE_NONCONTIGUOUS_BIT\<rparr>"
definition set_lock :: "bool \<Rightarrow> malloc_state \<Rightarrow> malloc_state" where
  "set_lock l s =
     s\<lparr>mflags := (if l then mflags s OR USE_LOCK_BIT else mflags s AND NOT USE_LOCK_BIT)\<rparr>"

definition page_align :: "malloc_state \<Rightarrow> size_t \<Rightarrow> size_t" where
  "page_align s n =
     (n + (page_size (mparams s) - 1)) AND NOT (page_size (mparams s) - 1)"
definition granularity_align :: "malloc_state \<Rightarrow> size_t \<Rightarrow> size_t" where
  "granularity_align s n =
     (n + (granularity (mparams s) - 1)) AND NOT (granularity (mparams s) - 1)"
definition mmap_align :: "malloc_state \<Rightarrow> size_t \<Rightarrow> size_t" where
  "mmap_align s n = page_align s n"

definition TOP_FOOT_SIZE :: size_t where
  "TOP_FOOT_SIZE =
     align_offset (chunk2mem 0) + pad_request sizeof_malloc_segment + MIN_CHUNK_SIZE"
definition SYS_ALLOC_PADDING :: size_t where
  "SYS_ALLOC_PADDING = TOP_FOOT_SIZE + MALLOC_ALIGNMENT"

definition segment_holds :: "malloc_state \<Rightarrow> addr \<Rightarrow> addr \<Rightarrow> bool" where
  "segment_holds s sp A \<longleftrightarrow> A \<ge> seg_base s sp \<and> A < seg_base s sp + seg_size s sp"

definition should_trim :: "malloc_state \<Rightarrow> size_t \<Rightarrow> bool" where
  "should_trim s n \<longleftrightarrow> n > trim_check s"
definition ok_address :: "malloc_state \<Rightarrow> addr \<Rightarrow> bool" where "ok_address s a \<longleftrightarrow> a \<ge> least_addr s"
definition ok_next :: "addr \<Rightarrow> addr \<Rightarrow> bool" where "ok_next p n \<longleftrightarrow> p < n"
definition ok_inuse :: "malloc_state \<Rightarrow> addr \<Rightarrow> bool" where "ok_inuse s p \<longleftrightarrow> is_inuse s p"
definition ok_pinuse :: "malloc_state \<Rightarrow> addr \<Rightarrow> bool" where "ok_pinuse s p \<longleftrightarrow> pinuse s p"

text \<open>Bit maps of a state\<close>

definition mark_smallmap :: "bindex \<Rightarrow> malloc_state \<Rightarrow> malloc_state" where
  "mark_smallmap i s = s\<lparr>smallmap := smallmap s OR idx2bit i\<rparr>"
definition clear_smallmap :: "bindex \<Rightarrow> malloc_state \<Rightarrow> malloc_state" where
  "clear_smallmap i s = s\<lparr>smallmap := smallmap s AND NOT (idx2bit i)\<rparr>"
definition smallmap_is_marked :: "malloc_state \<Rightarrow> bindex \<Rightarrow> bool" where
  "smallmap_is_marked s i \<longleftrightarrow> smallmap s AND idx2bit i \<noteq> 0"
definition mark_treemap :: "bindex \<Rightarrow> malloc_state \<Rightarrow> malloc_state" where
  "mark_treemap i s = s\<lparr>treemap := treemap s OR idx2bit i\<rparr>"
definition clear_treemap :: "bindex \<Rightarrow> malloc_state \<Rightarrow> malloc_state" where
  "clear_treemap i s = s\<lparr>treemap := treemap s AND NOT (idx2bit i)\<rparr>"
definition treemap_is_marked :: "malloc_state \<Rightarrow> bindex \<Rightarrow> bool" where
  "treemap_is_marked s i \<longleftrightarrow> treemap s AND idx2bit i \<noteq> 0"

section \<open>Segments\<close>

partial_function (option) segment_holding_from :: "malloc_state \<Rightarrow> addr \<Rightarrow> addr \<Rightarrow> addr option" where
  "segment_holding_from s A sp =
     (if A \<ge> seg_base s sp \<and> A < seg_base s sp + seg_size s sp then Some sp
      else if seg_next s sp = 0 then Some 0
      else segment_holding_from s A (seg_next s sp))"

declare segment_holding_from.simps [code]

definition segment_holding :: "malloc_state \<Rightarrow> addr \<Rightarrow> addr option" where
  "segment_holding s A = segment_holding_from s A (first_seg s)"

partial_function (option) has_segment_link_from :: "malloc_state \<Rightarrow> addr \<Rightarrow> addr \<Rightarrow> bool option" where
  "has_segment_link_from s ss sp =
     (if sp \<ge> seg_base s ss \<and> sp < seg_base s ss + seg_size s ss then Some True
      else if seg_next s sp = 0 then Some False
      else has_segment_link_from s ss (seg_next s sp))"

declare has_segment_link_from.simps [code]

definition has_segment_link :: "malloc_state \<Rightarrow> addr \<Rightarrow> bool option" where
  "has_segment_link s ss = has_segment_link_from s ss (first_seg s)"

section \<open>Parameters\<close>

definition pow2 :: "size_t \<Rightarrow> bool" where
  "pow2 n \<longleftrightarrow> n AND (n - 1) = 0"

definition init_mparams :: "system \<Rightarrow> malloc_state \<Rightarrow> malloc_state dl_result" where
  "init_mparams os s =
     (if mp_magic (mparams s) = 0 then
        let psize = getpagesize os;
            gsize = (if DEFAULT_GRANULARITY \<noteq> 0 then DEFAULT_GRANULARITY else psize)
        in if MAX_SIZE_T < MIN_CHUNK_SIZE \<or> MALLOC_ALIGNMENT < 8 \<or> \<not> pow2 MALLOC_ALIGNMENT
              \<or> \<not> pow2 MCHUNK_SIZE \<or> \<not> pow2 gsize \<or> \<not> pow2 psize
           then Trap
           else Ret (s\<lparr>mparams := mparams s\<lparr>
                  granularity := gsize,
                  page_size := psize,
                  mmap_threshold := DEFAULT_MMAP_THRESHOLD,
                  trim_threshold := DEFAULT_TRIM_THRESHOLD,
                  default_mflags := USE_LOCK_BIT OR USE_MMAP_BIT OR USE_NONCONTIGUOUS_BIT,
                  mp_magic := ((sys_time os XOR 0x55555555) OR 8) AND NOT 7\<rparr>\<rparr>)
      else Ret s)"

definition ensure_initialization :: "system \<Rightarrow> malloc_state \<Rightarrow> malloc_state dl_result" where
  "ensure_initialization os s = (if mp_magic (mparams s) \<noteq> 0 then Ret s else init_mparams os s)"

datatype mallopt = M_TRIM_THRESHOLD | M_GRANULARITY | M_MMAP_THRESHOLD | M_OTHER

definition change_mparam ::
  "system \<Rightarrow> mallopt \<Rightarrow> int \<Rightarrow> malloc_state \<Rightarrow> (bool \<times> malloc_state) dl_result" where
  "change_mparam os param value s =
     dbind (ensure_initialization os s) (\<lambda>s.
     let val = (if value = -1 then MAX_SIZE_T else word_of_int value)
     in case param of
          M_TRIM_THRESHOLD \<Rightarrow> Ret (True, s\<lparr>mparams := mparams s\<lparr>trim_threshold := val\<rparr>\<rparr>)
        | M_GRANULARITY \<Rightarrow>
            if val \<ge> page_size (mparams s) \<and> pow2 val
            then Ret (True, s\<lparr>mparams := mparams s\<lparr>granularity := val\<rparr>\<rparr>)
            else Ret (False, s)
        | M_MMAP_THRESHOLD \<Rightarrow> Ret (True, s\<lparr>mparams := mparams s\<lparr>mmap_threshold := val\<rparr>\<rparr>)
        | M_OTHER \<Rightarrow> Ret (False, s))"

section \<open>Example\<close>

text \<open>Storage of zeros in which \<open>m\<close> is the address of the state, and a system that refuses all calls\<close>

definition zero_state :: "addr \<Rightarrow> malloc_state" where
  "zero_state m =
     \<lparr>heap = (\<lambda>_. 0), mst = m, smallmap = 0, treemap = 0, dvsize = 0, topsize = 0, least_addr = 0,
      dv = 0, mtop = 0, trim_check = 0, release_checks = 0, magic = 0, footprint = 0,
      max_footprint = 0, footprint_limit = 0, mflags = 0, extp = 0, exts = 0,
      mparams = \<lparr>mp_magic = 0, page_size = 0, granularity = 0, mmap_threshold = 0,
        trim_threshold = 0, default_mflags = 0\<rparr>,
      syscalls = 0\<rparr>"

definition refusing_system :: system where
  "refusing_system =
     \<lparr>sys_mmap = (\<lambda>_ _ h. (CMFAIL, h)), sys_munmap = (\<lambda>_ _ _ h. (-1, h)),
      sys_mremap = (\<lambda>_ _ _ _ _ h. (CMFAIL, h)), getpagesize = 4096, sys_time = 1\<rparr>"

section \<open>Collections and values\<close>

named_theorems dl_fields \<open>reads and writes of single fields\<close>
named_theorems dl_heads \<open>macros on head and foot\<close>

lemma dl_state_values [dl_consts]:
  "CMFAIL = 0xFFFFFFFFFFFFFFFF" "USE_MMAP_BIT = 1" "USE_LOCK_BIT = 0" "USE_NONCONTIGUOUS_BIT = 4"
  "EXTERN_BIT = 8" "DEFAULT_GRANULARITY = 65536" "DEFAULT_TRIM_THRESHOLD = 2097152"
  "DEFAULT_MMAP_THRESHOLD = 262144" "MAX_RELEASE_CHECK_RATE = 4095" "sizeof_malloc_segment = 32"
  "smallbins_offset = 72" "treebins_offset = 600" "seg_offset = 888" "sizeof_malloc_state = 936"
  "TOP_FOOT_SIZE = 80" "SYS_ALLOC_PADDING = 96"
  by code_simp+

declare prev_foot_def [dl_fields] head_def [dl_fields] fd_def [dl_fields] bk_def [dl_fields]
  child_at_def [dl_fields] child_def [dl_fields] parent_def [dl_fields] index_def [dl_fields]
  set_prev_foot_def [dl_fields] set_head_def [dl_fields] set_fd_def [dl_fields] set_bk_def [dl_fields]
  set_child_def [dl_fields] set_parent_def [dl_fields] set_index_def [dl_fields]
  wr_def [dl_fields] wr32_def [dl_fields] rd32_def [dl_fields]

declare cinuse_def [dl_heads] pinuse_def [dl_heads] is_inuse_def [dl_heads] is_mmapped_def [dl_heads]
  chunksize_def [dl_heads] next_chunk_def [dl_heads] prev_chunk_def [dl_heads] next_pinuse_def [dl_heads]
  clear_pinuse_def [dl_heads] set_foot_def [dl_heads] set_size_and_pinuse_of_free_chunk_def [dl_heads]
  set_free_with_pinuse_def [dl_heads] mark_next_pinuse_def [dl_heads] set_inuse_def [dl_heads]
  set_inuse_and_pinuse_def [dl_heads] set_size_and_pinuse_of_inuse_chunk_def [dl_heads]

end
