(* ===== verification/Dl_Bins.thy ===== *)
theory Dl_Bins
  imports Dl_State
begin

unbundle bit_operations_syntax

text \<open>
  The bins of the allocator (\<open>src/src/dlmalloc.c\<close>, lines 3555-3790): the circular lists of small
  chunks, the tries of large chunks, and the relays between them. Each macro is a function of the
  state; a check that fails is \<open>Trap\<close>. The loops over a trie only read it: \<open>tree_place\<close> is where
  \<open>insert_large_chunk\<close> leaves its loop, \<open>rightmost_leaf\<close> the loop of \<open>unlink_large_chunk\<close>.
\<close>

section \<open>Small bins\<close>

definition link_small :: "addr \<Rightarrow> addr \<Rightarrow> addr \<Rightarrow> malloc_state \<Rightarrow> malloc_state" where
  "link_small B F P s = set_bk P B (set_fd P F (set_bk F P (set_fd B P s)))"

definition insert_small_chunk :: "addr \<Rightarrow> size_t \<Rightarrow> malloc_state \<Rightarrow> malloc_state dl_result" where
  "insert_small_chunk P S s =
     (let I = small_index S; B = smallbin_at s I
      in if \<not> smallmap_is_marked s I then Ret (link_small B B P (mark_smallmap I s))
         else if ok_address s (fd s B) then Ret (link_small B (fd s B) P s)
         else Trap)"

definition unlink_small_chunk :: "addr \<Rightarrow> size_t \<Rightarrow> malloc_state \<Rightarrow> malloc_state dl_result" where
  "unlink_small_chunk P S s =
     (let F = fd s P; B = bk s P; I = small_index S
      in if F = smallbin_at s I \<or> (ok_address s F \<and> bk s F = P) then
           if B = F then Ret (clear_smallmap I s)
           else if B = smallbin_at s I \<or> (ok_address s B \<and> fd s B = P)
           then Ret (set_fd B F (set_bk F B s))
           else Trap
         else Trap)"

definition unlink_first_small_chunk ::
  "addr \<Rightarrow> addr \<Rightarrow> bindex \<Rightarrow> malloc_state \<Rightarrow> malloc_state dl_result" where
  "unlink_first_small_chunk B P I s =
     (let F = fd s P
      in if B = F then Ret (clear_smallmap I s)
         else if ok_address s F \<and> bk s F = P then Ret (set_fd B F (set_bk F B s))
         else Trap)"

definition replace_dv :: "addr \<Rightarrow> size_t \<Rightarrow> malloc_state \<Rightarrow> malloc_state dl_result" where
  "replace_dv P S s =
     (let DVS = dvsize s
      in dbind (if DVS \<noteq> 0 then insert_small_chunk (dv s) DVS s else Ret s) (\<lambda>s.
         Ret (s\<lparr>dvsize := S, dv := P\<rparr>)))"

section \<open>Trees\<close>

datatype tree_place = Free_slot addr addr | Same_size addr

definition top_bit :: "size_t \<Rightarrow> size_t" where
  "top_bit K = drop_bit 63 K AND 1"

partial_function (option) tree_place_from ::
  "malloc_state \<Rightarrow> size_t \<Rightarrow> addr \<Rightarrow> size_t \<Rightarrow> tree_place option" where
  "tree_place_from s S T K =
     (if chunksize s T \<noteq> S then
        if child s T (top_bit K) \<noteq> 0
        then tree_place_from s S (child s T (top_bit K)) (push_bit 1 K)
        else Some (Free_slot T (child_at T (top_bit K)))
      else Some (Same_size T))"

declare tree_place_from.simps [code]

definition insert_large_chunk :: "addr \<Rightarrow> size_t \<Rightarrow> malloc_state \<Rightarrow> malloc_state dl_result" where
  "insert_large_chunk X S s =
     (let I = compute_tree_index S;
          H = treebin_at s I;
          s = set_child X 0 0 (set_child X 1 0 (set_index X I s))
      in if \<not> treemap_is_marked s I then
           Ret (set_fd X X (set_bk X X (set_parent X H (wr H X (mark_treemap I s)))))
         else
           walk (tree_place_from s S (heap s H) (push_bit (leftshift_for_tree_index I) S)) (\<lambda>place.
           case place of
             Free_slot T C \<Rightarrow>
               if ok_address s C
               then Ret (set_fd X X (set_bk X X (set_parent X T (wr C X s))))
               else Trap
           | Same_size T \<Rightarrow>
               let F = fd s T
               in if ok_address s T \<and> ok_address s F
                  then Ret (set_parent X 0 (set_bk X T (set_fd X F (set_fd T X (set_bk F X s)))))
                  else Trap))"

partial_function (option) rightmost_leaf ::
  "malloc_state \<Rightarrow> addr \<Rightarrow> addr \<Rightarrow> (addr \<times> addr) option" where
  "rightmost_leaf s RP R =
     (if child s R 1 \<noteq> 0 then rightmost_leaf s (child_at R 1) (child s R 1)
      else if child s R 0 \<noteq> 0 then rightmost_leaf s (child_at R 0) (child s R 0)
      else Some (RP, R))"

declare rightmost_leaf.simps [code]

text \<open>The chunk \<open>R\<close> that takes the place of \<open>X\<close>, unlinked from its own place\<close>

definition take_leaf :: "addr \<Rightarrow> addr \<Rightarrow> malloc_state \<Rightarrow> (addr \<times> malloc_state) dl_result" where
  "take_leaf RP R s =
     walk (rightmost_leaf s RP R) (\<lambda>(RP, R).
     if ok_address s RP then Ret (R, wr RP 0 s) else Trap)"

definition tree_replacement :: "addr \<Rightarrow> malloc_state \<Rightarrow> (addr \<times> malloc_state) dl_result" where
  "tree_replacement X s =
     (if bk s X \<noteq> X then
        let F = fd s X; R = bk s X
        in if ok_address s F \<and> bk s F = X \<and> fd s R = X
           then Ret (R, set_fd R F (set_bk F R s))
           else Trap
      else if child s X 1 \<noteq> 0 then take_leaf (child_at X 1) (child s X 1) s
      else if child s X 0 \<noteq> 0 then take_leaf (child_at X 0) (child s X 0) s
      else Ret (0, s))"

definition relink_child :: "addr \<Rightarrow> addr \<Rightarrow> size_t \<Rightarrow> malloc_state \<Rightarrow> malloc_state dl_result" where
  "relink_child X R i s =
     (let C = child s X i
      in if C \<noteq> 0 then
           if ok_address s C then Ret (set_parent C R (set_child R i C s)) else Trap
         else Ret s)"

definition relink_parent :: "addr \<Rightarrow> addr \<Rightarrow> addr \<Rightarrow> malloc_state \<Rightarrow> malloc_state dl_result" where
  "relink_parent X XP R s =
     (let H = treebin_at s (index s X)
      in if X = heap s H then
           let s' = wr H R s in Ret (if R = 0 then clear_treemap (index s' X) s' else s')
         else if ok_address s XP then
           if child s XP 0 = X then Ret (set_child XP 0 R s) else Ret (set_child XP 1 R s)
         else Trap)"

definition unlink_large_chunk :: "addr \<Rightarrow> malloc_state \<Rightarrow> malloc_state dl_result" where
  "unlink_large_chunk X s =
     (let XP = parent s X
      in dbind (tree_replacement X s) (\<lambda>(R, s).
         if XP \<noteq> 0 then
           dbind (relink_parent X XP R s) (\<lambda>s.
           if R \<noteq> 0 then
             if ok_address s R
             then dbind (relink_child X R 0 (set_parent R XP s)) (relink_child X R 1)
             else Trap
           else Ret s)
         else Ret s))"

section \<open>Relays\<close>

definition insert_chunk :: "addr \<Rightarrow> size_t \<Rightarrow> malloc_state \<Rightarrow> malloc_state dl_result" where
  "insert_chunk P S s = (if is_small S then insert_small_chunk P S s else insert_large_chunk P S s)"

definition unlink_chunk :: "addr \<Rightarrow> size_t \<Rightarrow> malloc_state \<Rightarrow> malloc_state dl_result" where
  "unlink_chunk P S s = (if is_small S then unlink_small_chunk P S s else unlink_large_chunk P s)"

end
