(* ===== verification/Dl_System.thy ===== *)
theory Dl_System
  imports Dl_Bins
begin

unbundle bit_operations_syntax

text \<open>
  Memory from and to the system (\<open>src/src/dlmalloc.c\<close>, lines 3800-4424): chunks that are mapped
  alone, the top chunk, segments, \<open>sys_alloc\<close>, \<open>sys_trim\<close>, and \<open>dispose_chunk\<close>. The build has no
  \<open>MORECORE\<close>, so \<open>sys_alloc\<close> asks \<open>mmap\<close> only. A null segment pointer that the code would
  dereference is \<open>Trap\<close>; \<open>errno\<close> is not modelled. \<open>release_segment\<close> is one turn of the loop of
  \<open>release_unused_segments\<close>; \<open>merge_backward\<close> and \<open>merge_forward\<close> are the two steps that
  \<open>dispose_chunk\<close> and \<open>mspace_free\<close> share.
\<close>

section \<open>Chunks mapped alone\<close>

definition add_footprint :: "size_t \<Rightarrow> malloc_state \<Rightarrow> malloc_state" where
  "add_footprint n s =
     (let f = footprint s + n
      in s\<lparr>footprint := f, max_footprint := (if f > max_footprint s then f else max_footprint s)\<rparr>)"

definition over_limit :: "malloc_state \<Rightarrow> size_t \<Rightarrow> bool" where
  "over_limit s n \<longleftrightarrow>
     footprint_limit s \<noteq> 0
       \<and> (footprint s + n \<le> footprint s \<or> footprint s + n > footprint_limit s)"

definition mmap_alloc :: "system \<Rightarrow> size_t \<Rightarrow> malloc_state \<Rightarrow> addr \<times> malloc_state" where
  "mmap_alloc os nb s =
     (let mmsize = mmap_align s (nb + SIX_SIZE_T_SIZES + CHUNK_ALIGN_MASK)
      in if over_limit s mmsize then (0, s)
         else if mmsize > nb then
           let (mm, s) = CALL_MMAP os mmsize s
           in if mm \<noteq> CMFAIL then
                let offset = align_offset (chunk2mem mm);
                    psize = mmsize - offset - MMAP_FOOT_PAD;
                    p = mm + offset;
                    s = set_prev_foot p offset s;
                    s = set_head p psize s;
                    s = set_head (p + psize) FENCEPOST_HEAD s;
                    s = set_head (p + (psize + SIZE_T_SIZE)) 0 s;
                    s = (if least_addr s = 0 \<or> mm < least_addr s then s\<lparr>least_addr := mm\<rparr> else s)
                in (chunk2mem p, add_footprint mmsize s)
              else (0, s)
         else (0, s))"

definition mmap_resize :: "system \<Rightarrow> addr \<Rightarrow> size_t \<Rightarrow> int \<Rightarrow> malloc_state \<Rightarrow> addr \<times> malloc_state" where
  "mmap_resize os oldp nb flags s =
     (let oldsize = chunksize s oldp
      in if is_small nb then (0, s)
         else if oldsize \<ge> nb + SIZE_T_SIZE \<and> oldsize - nb \<le> push_bit 1 (granularity (mparams s))
         then (oldp, s)
         else
           let offset = prev_foot s oldp;
               oldmmsize = oldsize + offset + MMAP_FOOT_PAD;
               newmmsize = mmap_align s (nb + SIX_SIZE_T_SIZES + CHUNK_ALIGN_MASK);
               (cp, s) = CALL_MREMAP os (oldp - offset) oldmmsize newmmsize flags s
           in if cp \<noteq> CMFAIL then
                let newp = cp + offset;
                    psize = newmmsize - offset - MMAP_FOOT_PAD;
                    s = set_head newp psize s;
                    s = set_head (newp + psize) FENCEPOST_HEAD s;
                    s = set_head (newp + (psize + SIZE_T_SIZE)) 0 s;
                    s = (if cp < least_addr s then s\<lparr>least_addr := cp\<rparr> else s)
                in (newp, add_footprint (newmmsize - oldmmsize) s)
              else (0, s))"

section \<open>Top and the empty bins\<close>

definition init_top :: "addr \<Rightarrow> size_t \<Rightarrow> malloc_state \<Rightarrow> malloc_state" where
  "init_top p psize s =
     (let offset = align_offset (chunk2mem p);
          p = p + offset;
          psize = psize - offset;
          s = s\<lparr>mtop := p, topsize := psize\<rparr>;
          s = set_head p (psize OR PINUSE_BIT) s;
          s = set_head (p + psize) TOP_FOOT_SIZE s
      in s\<lparr>trim_check := trim_threshold (mparams s)\<rparr>)"

definition init_bin :: "bindex \<Rightarrow> malloc_state \<Rightarrow> malloc_state" where
  "init_bin i s = (let bin = smallbin_at s i in set_fd bin bin (set_bk bin bin s))"

definition init_bins :: "malloc_state \<Rightarrow> malloc_state" where
  "init_bins s = fold init_bin (map of_nat [0..<unat NSMALLBINS]) s"

text \<open>The first \<open>nb\<close> bytes of \<open>top\<close> become a chunk in use.\<close>

definition split_top :: "size_t \<Rightarrow> malloc_state \<Rightarrow> addr \<times> malloc_state" where
  "split_top nb s =
     (let rsize = topsize s - nb;
          p = mtop s;
          r = p + nb;
          s = s\<lparr>topsize := rsize, mtop := r\<rparr>;
          s = set_head r (rsize OR PINUSE_BIT) s
      in (chunk2mem p, set_size_and_pinuse_of_inuse_chunk p nb s))"

section \<open>Segments\<close>

definition prepend_alloc ::
  "addr \<Rightarrow> addr \<Rightarrow> size_t \<Rightarrow> malloc_state \<Rightarrow> (addr \<times> malloc_state) dl_result" where
  "prepend_alloc newbase oldbase nb s =
     (let p = align_as_chunk newbase;
          oldfirst = align_as_chunk oldbase;
          psize = oldfirst - p;
          q = p + nb;
          qsize = psize - nb;
          s = set_size_and_pinuse_of_inuse_chunk p nb s
      in dbind
          (if oldfirst = mtop s then
             let tsize = topsize s + qsize
             in Ret (set_head q (tsize OR PINUSE_BIT) (s\<lparr>topsize := tsize, mtop := q\<rparr>))
           else if oldfirst = dv s then
             let dsize = dvsize s + qsize
             in Ret (set_size_and_pinuse_of_free_chunk q dsize (s\<lparr>dvsize := dsize, dv := q\<rparr>))
           else
             dbind
               (if \<not> is_inuse s oldfirst then
                  let nsize = chunksize s oldfirst
                  in dbind (unlink_chunk oldfirst nsize s) (\<lambda>s. Ret (oldfirst + nsize, qsize + nsize, s))
                else Ret (oldfirst, qsize, s))
               (\<lambda>(oldfirst, qsize, s).
               insert_chunk q qsize (set_free_with_pinuse q qsize oldfirst s)))
          (\<lambda>s. Ret (chunk2mem p, s)))"

partial_function (option) fenceposts :: "addr \<Rightarrow> addr \<Rightarrow> malloc_state \<Rightarrow> malloc_state option" where
  "fenceposts p old_end s =
     (if p + SIZE_T_SIZE + 8 < old_end
      then fenceposts (p + SIZE_T_SIZE) old_end (set_head p FENCEPOST_HEAD s)
      else Some (set_head p FENCEPOST_HEAD s))"

declare fenceposts.simps [code]

text \<open>\<open>*ss = m->seg\<close>: the four words of the record\<close>

definition copy_segment :: "addr \<Rightarrow> addr \<Rightarrow> malloc_state \<Rightarrow> malloc_state" where
  "copy_segment ss src s =
     wr (ss + 24) (heap s (src + 24)) (wr (ss + 16) (heap s (src + 16))
       (wr (ss + 8) (heap s (src + 8)) (wr ss (heap s src) s)))"

definition add_segment ::
  "addr \<Rightarrow> size_t \<Rightarrow> 32 word \<Rightarrow> malloc_state \<Rightarrow> malloc_state dl_result" where
  "add_segment tbase tsize mmapped s =
     (let old_top = mtop s
      in walk (segment_holding s old_top) (\<lambda>oldsp.
         if oldsp = 0 then Trap
         else
           let old_end = seg_base s oldsp + seg_size s oldsp;
               ssize = pad_request sizeof_malloc_segment;
               rawsp = old_end - (ssize + FOUR_SIZE_T_SIZES + CHUNK_ALIGN_MASK);
               offset = align_offset (chunk2mem rawsp);
               asp = rawsp + offset;
               csp = (if asp < old_top + MIN_CHUNK_SIZE then old_top else asp);
               sp = csp;
               ss = chunk2mem sp;
               tnext = sp + ssize;
               s = init_top tbase (tsize - TOP_FOOT_SIZE) s;
               s = set_size_and_pinuse_of_inuse_chunk sp ssize s;
               s = copy_segment ss (first_seg s) s;
               s = set_seg_base (first_seg s) tbase s;
               s = set_seg_size (first_seg s) tsize s;
               s = set_sflags (first_seg s) mmapped s;
               s = set_seg_next (first_seg s) ss s
           in walk (fenceposts tnext old_end s) (\<lambda>s.
              if csp \<noteq> old_top then
                let q = old_top;
                    psize = csp - old_top;
                    tn = q + psize
                in insert_chunk q psize (set_free_with_pinuse q psize tn s)
              else Ret s)))"

section \<open>System allocation\<close>

partial_function (option) segment_ending :: "malloc_state \<Rightarrow> addr \<Rightarrow> addr \<Rightarrow> addr option" where
  "segment_ending s tbase sp =
     (if sp \<noteq> 0 \<and> tbase \<noteq> seg_base s sp + seg_size s sp
      then segment_ending s tbase (seg_next s sp)
      else Some sp)"

declare segment_ending.simps [code]

partial_function (option) segment_starting :: "malloc_state \<Rightarrow> addr \<Rightarrow> addr \<Rightarrow> addr option" where
  "segment_starting s tend sp =
     (if sp \<noteq> 0 \<and> seg_base s sp \<noteq> tend
      then segment_starting s tend (seg_next s sp)
      else Some sp)"

declare segment_starting.simps [code]

definition first_init :: "addr \<Rightarrow> size_t \<Rightarrow> 32 word \<Rightarrow> malloc_state \<Rightarrow> malloc_state" where
  "first_init tbase tsize mmap_flag s =
     (let s = (if least_addr s = 0 \<or> tbase < least_addr s then s\<lparr>least_addr := tbase\<rparr> else s);
          s = set_seg_base (first_seg s) tbase s;
          s = set_seg_size (first_seg s) tsize s;
          s = set_sflags (first_seg s) mmap_flag s;
          s = s\<lparr>magic := mp_magic (mparams s), release_checks := MAX_RELEASE_CHECK_RATE\<rparr>;
          s = init_bins s;
          mn = next_chunk s (mem2chunk (mst s))
      in init_top mn ((tbase + tsize) - mn - TOP_FOOT_SIZE) s)"

definition allocate_from_top :: "size_t \<Rightarrow> malloc_state \<Rightarrow> (addr \<times> malloc_state) dl_result" where
  "allocate_from_top nb s = Ret (if nb < topsize s then split_top nb s else (0, s))"

definition use_region ::
  "addr \<Rightarrow> size_t \<Rightarrow> 32 word \<Rightarrow> size_t \<Rightarrow> malloc_state \<Rightarrow> (addr \<times> malloc_state) dl_result" where
  "use_region tbase tsize mmap_flag nb s =
     (let s = add_footprint tsize s
      in if \<not> is_initialized s then allocate_from_top nb (first_init tbase tsize mmap_flag s)
         else walk (segment_ending s tbase (first_seg s)) (\<lambda>sp.
           if sp \<noteq> 0 \<and> \<not> is_extern_segment s sp \<and> sflags s sp AND USE_MMAP_BIT = mmap_flag
              \<and> segment_holds s sp (mtop s)
           then
             let s = set_seg_size sp (seg_size s sp + tsize) s
             in allocate_from_top nb (init_top (mtop s) (topsize s + tsize) s)
           else
             let s = (if tbase < least_addr s then s\<lparr>least_addr := tbase\<rparr> else s)
             in walk (segment_starting s (tbase + tsize) (first_seg s)) (\<lambda>sp.
                if sp \<noteq> 0 \<and> \<not> is_extern_segment s sp \<and> sflags s sp AND USE_MMAP_BIT = mmap_flag
                then
                  let oldbase = seg_base s sp;
                      s = set_seg_base sp tbase s;
                      s = set_seg_size sp (seg_size s sp + tsize) s
                  in prepend_alloc tbase oldbase nb s
                else dbind (add_segment tbase tsize mmap_flag s) (allocate_from_top nb))))"

definition sys_alloc :: "system \<Rightarrow> size_t \<Rightarrow> malloc_state \<Rightarrow> (addr \<times> malloc_state) dl_result" where
  "sys_alloc os nb s =
     dbind (ensure_initialization os s) (\<lambda>s.
     let (mem, s) = (if use_mmap s \<and> nb \<ge> mmap_threshold (mparams s) \<and> topsize s \<noteq> 0
                     then mmap_alloc os nb s else (0, s))
     in if mem \<noteq> 0 then Ret (mem, s)
        else
          let asize = granularity_align s (nb + SYS_ALLOC_PADDING)
          in if asize \<le> nb then Ret (0, s)
             else if over_limit s asize then Ret (0, s)
             else
               let (mp, s) = CALL_MMAP os asize s
               in if mp \<noteq> CMFAIL then use_region mp asize USE_MMAP_BIT nb s else Ret (0, s))"

section \<open>System deallocation\<close>

text \<open>One turn of the loop: the bytes released and the next value of \<open>pred\<close>.\<close>

definition release_segment ::
  "system \<Rightarrow> addr \<Rightarrow> addr \<Rightarrow> malloc_state \<Rightarrow> (size_t \<times> addr \<times> malloc_state) dl_result" where
  "release_segment os pred sp s =
     (let base = seg_base s sp;
          size = seg_size s sp;
          next = seg_next s sp;
          p = align_as_chunk base;
          psize = chunksize s p
      in if is_mmapped_segment s sp \<and> \<not> is_extern_segment s sp
            \<and> \<not> is_inuse s p \<and> p + psize \<ge> base + size - TOP_FOOT_SIZE
         then
           dbind (if p = dv s then Ret (s\<lparr>dv := 0, dvsize := 0\<rparr>) else unlink_large_chunk p s) (\<lambda>s.
           let (r, s) = CALL_MUNMAP os base size s
           in if r = 0
              then Ret (size, pred, set_seg_next pred next (s\<lparr>footprint := footprint s - size\<rparr>))
              else dbind (insert_large_chunk p psize s) (\<lambda>s. Ret (0, sp, s)))
         else Ret (0, sp, s))"

partial_function (option) release_from ::
  "system \<Rightarrow> addr \<Rightarrow> addr \<Rightarrow> size_t \<Rightarrow> size_t \<Rightarrow> malloc_state
     \<Rightarrow> (size_t \<times> size_t \<times> malloc_state) dl_result option" where
  "release_from os pred sp released nsegs s =
     (if sp = 0 then Some (Ret (released, nsegs, s))
      else (case release_segment os pred sp s of
              Trap \<Rightarrow> Some Trap
            | Spin \<Rightarrow> Some Spin
            | Ret (n, pred', s') \<Rightarrow>
                release_from os pred' (seg_next s sp) (released + n) (nsegs + 1) s'))"

declare release_from.simps [code]

definition release_unused_segments :: "system \<Rightarrow> malloc_state \<Rightarrow> (size_t \<times> malloc_state) dl_result" where
  "release_unused_segments os s =
     walk (release_from os (first_seg s) (seg_next s (first_seg s)) 0 0 s) (\<lambda>result.
     dbind result (\<lambda>(released, nsegs, s).
     Ret (released, s\<lparr>release_checks :=
       (if nsegs > MAX_RELEASE_CHECK_RATE then nsegs else MAX_RELEASE_CHECK_RATE)\<rparr>)))"

definition trim_extra :: "malloc_state \<Rightarrow> size_t \<Rightarrow> size_t" where
  "trim_extra s pad =
     (let unit = granularity (mparams s)
      in ((topsize s - pad + (unit - 1)) div unit - 1) * unit)"

definition shrink_top :: "system \<Rightarrow> size_t \<Rightarrow> malloc_state \<Rightarrow> (size_t \<times> malloc_state) dl_result" where
  "shrink_top os pad s =
     (let extra = trim_extra s pad
      in walk (segment_holding s (mtop s)) (\<lambda>sp.
         if sp = 0 then Trap
         else
           dbind
             (if \<not> is_extern_segment s sp \<and> is_mmapped_segment s sp \<and> seg_size s sp \<ge> extra then
                walk (has_segment_link s sp) (\<lambda>pinned.
                if pinned then Ret (0, s)
                else
                  let newsize = seg_size s sp - extra;
                      (r, s) = CALL_MREMAP os (seg_base s sp) (seg_size s sp) newsize 0 s
                  in if r \<noteq> CMFAIL then Ret (extra, s)
                     else
                       let (u, s) = CALL_MUNMAP os (seg_base s sp + newsize) extra s
                       in Ret (if u = 0 then extra else 0, s))
              else Ret (0, s))
             (\<lambda>(released, s).
             if released \<noteq> 0 then
               let s = set_seg_size sp (seg_size s sp - released) s;
                   s = s\<lparr>footprint := footprint s - released\<rparr>
               in Ret (released, init_top (mtop s) (topsize s - released) s)
             else Ret (released, s))))"

definition sys_trim :: "system \<Rightarrow> size_t \<Rightarrow> malloc_state \<Rightarrow> (bool \<times> malloc_state) dl_result" where
  "sys_trim os pad s =
     dbind (ensure_initialization os s) (\<lambda>s.
     if pad < MAX_REQUEST \<and> is_initialized s then
       let pad = pad + TOP_FOOT_SIZE
       in dbind (if topsize s > pad then shrink_top os pad s else Ret (0, s)) (\<lambda>(released, s).
          dbind (release_unused_segments os s) (\<lambda>(n, s).
          let released = released + n;
              s = (if released = 0 \<and> topsize s > trim_check s then s\<lparr>trim_check := MAX_SIZE_T\<rparr> else s)
          in Ret (released \<noteq> 0, s)))
     else Ret (False, s))"

section \<open>Consolidation\<close>

text \<open>\<open>Inl\<close>: the chunk is gone or part of \<open>dv\<close>; \<open>Inr\<close>: its start and size so far.\<close>

definition merge_backward ::
  "system \<Rightarrow> addr \<Rightarrow> size_t \<Rightarrow> addr \<Rightarrow> malloc_state
     \<Rightarrow> (malloc_state + addr \<times> size_t \<times> malloc_state) dl_result" where
  "merge_backward os p psize next s =
     (if \<not> pinuse s p then
        let prevsize = prev_foot s p
        in if is_mmapped s p then
             let psize = psize + (prevsize + MMAP_FOOT_PAD);
                 (r, s) = CALL_MUNMAP os (p - prevsize) psize s
             in Ret (Inl (if r = 0 then s\<lparr>footprint := footprint s - psize\<rparr> else s))
           else
             let prev = p - prevsize;
                 psize = psize + prevsize
             in if ok_address s prev then
                  if prev \<noteq> dv s then
                    dbind (unlink_chunk prev prevsize s) (\<lambda>s. Ret (Inr (prev, psize, s)))
                  else if head s next AND INUSE_BITS = INUSE_BITS then
                    Ret (Inl (set_free_with_pinuse prev psize next (s\<lparr>dvsize := psize\<rparr>)))
                  else Ret (Inr (prev, psize, s))
                else Trap
      else Ret (Inr (p, psize, s)))"

datatype merged = Into_top size_t | Into_dv | To_bin size_t

definition merge_forward ::
  "addr \<Rightarrow> size_t \<Rightarrow> addr \<Rightarrow> malloc_state \<Rightarrow> (merged \<times> malloc_state) dl_result" where
  "merge_forward p psize next s =
     (if \<not> cinuse s next then
        if next = mtop s then
          let tsize = topsize s + psize;
              s = s\<lparr>topsize := tsize, mtop := p\<rparr>;
              s = set_head p (tsize OR PINUSE_BIT) s
          in Ret (Into_top tsize, if p = dv s then s\<lparr>dv := 0, dvsize := 0\<rparr> else s)
        else if next = dv s then
          let dsize = dvsize s + psize;
              s = s\<lparr>dvsize := dsize, dv := p\<rparr>
          in Ret (Into_dv, set_size_and_pinuse_of_free_chunk p dsize s)
        else
          let nsize = chunksize s next;
              psize = psize + nsize
          in dbind (unlink_chunk next nsize s) (\<lambda>s.
             let s = set_size_and_pinuse_of_free_chunk p psize s
             in if p = dv s then Ret (Into_dv, s\<lparr>dvsize := psize\<rparr>)
                else Ret (To_bin psize, s))
      else Ret (To_bin psize, set_free_with_pinuse p psize next s))"

definition dispose_chunk :: "system \<Rightarrow> addr \<Rightarrow> size_t \<Rightarrow> malloc_state \<Rightarrow> malloc_state dl_result" where
  "dispose_chunk os p psize s =
     (let next = p + psize
      in dbind (merge_backward os p psize next s) (\<lambda>r.
         case r of
           Inl s \<Rightarrow> Ret s
         | Inr (p, psize, s) \<Rightarrow>
             if ok_address s next then
               dbind (merge_forward p psize next s) (\<lambda>(f, s).
               case f of To_bin n \<Rightarrow> insert_chunk p n s | _ \<Rightarrow> Ret s)
             else Trap))"

end
