(* ===== verification/Dl_Mspace.thy ===== *)
theory Dl_Mspace
  imports Dl_System
begin

unbundle bit_operations_syntax

text \<open>
  Allocation and deallocation in an mspace (\<open>src/src/dlmalloc.c\<close>, lines 4429-4960 and 5392-5967):
  \<open>mspace_malloc\<close>, \<open>mspace_free\<close>, \<open>mspace_realloc\<close>, \<open>mspace_memalign\<close>, \<open>mspace_calloc\<close>, the
  constructors, and the queries. Without footers \<open>ok_magic\<close> is always true; without locks
  \<open>PREACTION\<close> is 0.
\<close>

section \<open>Large and small requests from the trees\<close>

text \<open>The traversal for a best fit: \<open>(v, rsize, t)\<close> as the loop leaves them.\<close>

partial_function (option) tree_search ::
  "malloc_state \<Rightarrow> size_t \<Rightarrow> addr \<Rightarrow> size_t \<Rightarrow> addr \<Rightarrow> addr \<Rightarrow> size_t \<Rightarrow> (addr \<times> size_t \<times> addr) option" where
  "tree_search s nb t sizebits rst v rsize =
     (if chunksize s t - nb < rsize \<and> chunksize s t - nb = 0 then Some (t, 0, t)
      else
        let v' = (if chunksize s t - nb < rsize then t else v);
            rsize' = (if chunksize s t - nb < rsize then chunksize s t - nb else rsize);
            rt = child s t 1;
            t' = child s t (top_bit sizebits);
            rst' = (if rt \<noteq> 0 \<and> rt \<noteq> t' then rt else rst)
        in if t' = 0 then Some (v', rsize', rst')
           else tree_search s nb t' (push_bit 1 sizebits) rst' v' rsize')"

declare tree_search.simps [code]

partial_function (option) least_in_tree ::
  "malloc_state \<Rightarrow> size_t \<Rightarrow> addr \<Rightarrow> addr \<Rightarrow> size_t \<Rightarrow> (addr \<times> size_t) option" where
  "least_in_tree s nb t v rsize =
     (if t \<noteq> 0 then
        if chunksize s t - nb < rsize
        then least_in_tree s nb (leftmost_child s t) t (chunksize s t - nb)
        else least_in_tree s nb (leftmost_child s t) v rsize
      else Some (v, rsize))"

declare least_in_tree.simps [code]

definition next_tree :: "malloc_state \<Rightarrow> bindex \<Rightarrow> addr" where
  "next_tree s idx =
     (let leftbits = left_bits (idx2bit idx) AND treemap s
      in if leftbits \<noteq> 0 then treebin s (compute_bit2idx (least_bit leftbits)) else 0)"

text \<open>The chunk \<open>v\<close> leaves its tree and is split when it exceeds \<open>nb\<close> by a chunk.\<close>

definition take_large ::
  "size_t \<Rightarrow> addr \<Rightarrow> size_t \<Rightarrow> (addr \<Rightarrow> size_t \<Rightarrow> malloc_state \<Rightarrow> malloc_state dl_result) \<Rightarrow>
   malloc_state \<Rightarrow> (addr \<times> malloc_state) dl_result" where
  "take_large nb v rsize keep s =
     (if ok_address s v \<and> ok_next v (v + nb) then
        let r = v + nb
        in dbind (unlink_large_chunk v s) (\<lambda>s.
           if rsize < MIN_CHUNK_SIZE
           then Ret (chunk2mem v, set_inuse_and_pinuse v (rsize + nb) s)
           else
             let s = set_size_and_pinuse_of_inuse_chunk v nb s;
                 s = set_size_and_pinuse_of_free_chunk r rsize s
             in dbind (keep r rsize s) (\<lambda>s. Ret (chunk2mem v, s)))
      else Trap)"

definition tmalloc_large :: "size_t \<Rightarrow> malloc_state \<Rightarrow> (addr \<times> malloc_state) dl_result" where
  "tmalloc_large nb s =
     (let idx = compute_tree_index nb; t = treebin s idx
      in walk (if t \<noteq> 0
               then tree_search s nb t (push_bit (leftshift_for_tree_index idx) nb) 0 0 (- nb)
               else Some (0, - nb, 0)) (\<lambda>(v, rsize, t).
         let t = (if t = 0 \<and> v = 0 then next_tree s idx else t)
         in walk (least_in_tree s nb t v rsize) (\<lambda>(v, rsize).
            if v \<noteq> 0 \<and> rsize < dvsize s - nb then take_large nb v rsize insert_chunk s
            else Ret (0, s))))"

definition tmalloc_small :: "size_t \<Rightarrow> malloc_state \<Rightarrow> (addr \<times> malloc_state) dl_result" where
  "tmalloc_small nb s =
     (let t = treebin s (compute_bit2idx (least_bit (treemap s)))
      in walk (least_in_tree s nb (leftmost_child s t) t (chunksize s t - nb)) (\<lambda>(v, rsize).
         take_large nb v rsize replace_dv s))"

section \<open>malloc\<close>

definition malloc_exact :: "bindex \<Rightarrow> malloc_state \<Rightarrow> (addr \<times> malloc_state) dl_result" where
  "malloc_exact idx s =
     (let b = smallbin_at s idx; p = fd s b
      in dbind (unlink_first_small_chunk b p idx s) (\<lambda>s.
         Ret (chunk2mem p, set_inuse_and_pinuse p (small_index2size idx) s)))"

definition malloc_next_bin :: "size_t \<Rightarrow> bindex \<Rightarrow> malloc_state \<Rightarrow> (addr \<times> malloc_state) dl_result" where
  "malloc_next_bin nb i s =
     (let b = smallbin_at s i; p = fd s b
      in dbind (unlink_first_small_chunk b p i s) (\<lambda>s.
         let rsize = small_index2size i - nb
         in if SIZE_T_SIZE \<noteq> 4 \<and> rsize < MIN_CHUNK_SIZE
            then Ret (chunk2mem p, set_inuse_and_pinuse p (small_index2size i) s)
            else
              let s = set_size_and_pinuse_of_inuse_chunk p nb s;
                  r = p + nb;
                  s = set_size_and_pinuse_of_free_chunk r rsize s
              in dbind (replace_dv r rsize s) (\<lambda>s. Ret (chunk2mem p, s))))"

definition split_dv :: "size_t \<Rightarrow> malloc_state \<Rightarrow> addr \<times> malloc_state" where
  "split_dv nb s =
     (let rsize = dvsize s - nb; p = dv s
      in if rsize \<ge> MIN_CHUNK_SIZE then
           let r = p + nb;
               s = s\<lparr>dv := r, dvsize := rsize\<rparr>;
               s = set_size_and_pinuse_of_free_chunk r rsize s
           in (chunk2mem p, set_size_and_pinuse_of_inuse_chunk p nb s)
         else
           let dvs = dvsize s;
               s = s\<lparr>dvsize := 0, dv := 0\<rparr>
           in (chunk2mem p, set_inuse_and_pinuse p dvs s))"

definition malloc_dv_or_top ::
  "system \<Rightarrow> size_t \<Rightarrow> malloc_state \<Rightarrow> (addr \<times> malloc_state) dl_result" where
  "malloc_dv_or_top os nb s =
     (if nb \<le> dvsize s then Ret (split_dv nb s)
      else if nb < topsize s then Ret (split_top nb s)
      else sys_alloc os nb s)"

definition or_else ::
  "(addr \<times> malloc_state) dl_result \<Rightarrow> (malloc_state \<Rightarrow> (addr \<times> malloc_state) dl_result)
     \<Rightarrow> (addr \<times> malloc_state) dl_result" where
  "or_else r k = dbind r (\<lambda>(mem, s). if mem \<noteq> 0 then Ret (mem, s) else k s)"

definition mspace_malloc :: "system \<Rightarrow> size_t \<Rightarrow> malloc_state \<Rightarrow> (addr \<times> malloc_state) dl_result" where
  "mspace_malloc os bytes s =
     (if bytes \<le> MAX_SMALL_REQUEST then
        let nb = (if bytes < MIN_REQUEST then MIN_CHUNK_SIZE else pad_request bytes);
            idx = small_index nb;
            smallbits = drop_bit (unat idx) (smallmap s)
        in if smallbits AND 3 \<noteq> 0 then malloc_exact (idx + (NOT smallbits AND 1)) s
           else if nb > dvsize s then
             if smallbits \<noteq> 0 then
               let leftbits = push_bit (unat idx) smallbits AND left_bits (idx2bit idx)
               in malloc_next_bin nb (compute_bit2idx (least_bit leftbits)) s
             else if treemap s \<noteq> 0 then or_else (tmalloc_small nb s) (malloc_dv_or_top os nb)
             else malloc_dv_or_top os nb s
           else malloc_dv_or_top os nb s
      else if bytes \<ge> MAX_REQUEST then malloc_dv_or_top os MAX_SIZE_T s
      else
        let nb = pad_request bytes
        in if treemap s \<noteq> 0 then or_else (tmalloc_large nb s) (malloc_dv_or_top os nb)
           else malloc_dv_or_top os nb s)"

section \<open>free\<close>

definition bin_freed :: "system \<Rightarrow> addr \<Rightarrow> size_t \<Rightarrow> malloc_state \<Rightarrow> malloc_state dl_result" where
  "bin_freed os p psize s =
     (if is_small psize then insert_small_chunk p psize s
      else dbind (insert_large_chunk p psize s) (\<lambda>s.
           let s = s\<lparr>release_checks := release_checks s - 1\<rparr>
           in if release_checks s = 0
              then dbind (release_unused_segments os s) (\<lambda>(n, s). Ret s)
              else Ret s))"

definition mspace_free :: "system \<Rightarrow> addr \<Rightarrow> malloc_state \<Rightarrow> malloc_state dl_result" where
  "mspace_free os mem s =
     (if mem \<noteq> 0 then
        let p = mem2chunk mem
        in if ok_address s p \<and> ok_inuse s p then
             let psize = chunksize s p; next = p + psize
             in dbind (merge_backward os p psize next s) (\<lambda>r.
                case r of
                  Inl s \<Rightarrow> Ret s
                | Inr (p, psize, s) \<Rightarrow>
                    if ok_next p next \<and> ok_pinuse s next then
                      dbind (merge_forward p psize next s) (\<lambda>(f, s).
                      case f of
                        Into_top tsize \<Rightarrow>
                          if should_trim s tsize
                          then dbind (sys_trim os 0 s) (\<lambda>(b, s). Ret s) else Ret s
                      | Into_dv \<Rightarrow> Ret s
                      | To_bin n \<Rightarrow> bin_freed os p n s)
                    else Trap)
           else Trap
      else Ret s)"

section \<open>calloc, realloc, memalign\<close>

text \<open>\<open>memset\<close> to 0 and \<open>memcpy\<close> of bytes at 8-byte aligned addresses: the last word in part.\<close>

definition memset0 :: "addr \<Rightarrow> size_t \<Rightarrow> malloc_state \<Rightarrow> malloc_state" where
  "memset0 a n s =
     s\<lparr>heap := (\<lambda>x. if x - a < n
                   then if n - (x - a) \<ge> 8 then 0
                        else heap s x AND NOT (mask (8 * unat (n - (x - a))))
                   else heap s x)\<rparr>"

definition memcpy :: "addr \<Rightarrow> addr \<Rightarrow> size_t \<Rightarrow> malloc_state \<Rightarrow> malloc_state" where
  "memcpy dst src n s =
     s\<lparr>heap := (\<lambda>x. if x - dst < n
                   then let v = heap s (src + (x - dst)); k = n - (x - dst)
                        in if k \<ge> 8 then v
                           else (heap s x AND NOT (mask (8 * unat k))) OR (v AND mask (8 * unat k))
                   else heap s x)\<rparr>"

definition mspace_calloc ::
  "system \<Rightarrow> size_t \<Rightarrow> size_t \<Rightarrow> malloc_state \<Rightarrow> (addr \<times> malloc_state) dl_result" where
  "mspace_calloc os n_elements elem_size s =
     (let req = (if n_elements \<noteq> 0 then
                   let req = n_elements * elem_size
                   in if (n_elements OR elem_size) AND NOT 0xFFFF \<noteq> 0 \<and> req div n_elements \<noteq> elem_size
                      then MAX_SIZE_T else req
                 else 0)
      in dbind (mspace_malloc os req s) (\<lambda>(mem, s).
         if mem \<noteq> 0 \<and> calloc_must_clear s (mem2chunk mem)
         then Ret (mem, memset0 mem req s) else Ret (mem, s)))"

definition give_back :: "system \<Rightarrow> addr \<Rightarrow> size_t \<Rightarrow> size_t \<Rightarrow> malloc_state \<Rightarrow> malloc_state dl_result" where
  "give_back os p nb rsize s =
     (let r = p + nb;
          s = set_inuse p nb s;
          s = set_inuse r rsize s
      in dispose_chunk os r rsize s)"

definition try_realloc_chunk ::
  "system \<Rightarrow> addr \<Rightarrow> size_t \<Rightarrow> int \<Rightarrow> malloc_state \<Rightarrow> (addr \<times> malloc_state) dl_result" where
  "try_realloc_chunk os p nb can_move s =
     (let oldsize = chunksize s p; next = p + oldsize
      in if ok_address s p \<and> ok_inuse s p \<and> ok_next p next \<and> ok_pinuse s next then
           if is_mmapped s p then Ret (mmap_resize os p nb can_move s)
           else if oldsize \<ge> nb then
             let rsize = oldsize - nb
             in dbind (if rsize \<ge> MIN_CHUNK_SIZE then give_back os p nb rsize s else Ret s) (\<lambda>s.
                Ret (p, s))
           else if next = mtop s then
             if oldsize + topsize s > nb then
               let newtopsize = oldsize + topsize s - nb;
                   newtop = p + nb;
                   s = set_inuse p nb s;
                   s = set_head newtop (newtopsize OR PINUSE_BIT) s
               in Ret (p, s\<lparr>mtop := newtop, topsize := newtopsize\<rparr>)
             else Ret (0, s)
           else if next = dv s then
             let dvs = dvsize s
             in if oldsize + dvs \<ge> nb then
                  let dsize = oldsize + dvs - nb
                  in if dsize \<ge> MIN_CHUNK_SIZE then
                       let r = p + nb;
                           n = r + dsize;
                           s = set_inuse p nb s;
                           s = set_size_and_pinuse_of_free_chunk r dsize s;
                           s = clear_pinuse n s
                       in Ret (p, s\<lparr>dvsize := dsize, dv := r\<rparr>)
                     else
                       let s = set_inuse p (oldsize + dvs) s
                       in Ret (p, s\<lparr>dvsize := 0, dv := 0\<rparr>)
                else Ret (0, s)
           else if \<not> cinuse s next then
             let nextsize = chunksize s next
             in if oldsize + nextsize \<ge> nb then
                  let rsize = oldsize + nextsize - nb
                  in dbind (unlink_chunk next nextsize s) (\<lambda>s.
                     dbind (if rsize < MIN_CHUNK_SIZE then Ret (set_inuse p (oldsize + nextsize) s)
                            else give_back os p nb rsize s) (\<lambda>s.
                     Ret (p, s)))
                else Ret (0, s)
           else Ret (0, s)
         else Trap)"

definition mspace_realloc ::
  "system \<Rightarrow> addr \<Rightarrow> size_t \<Rightarrow> malloc_state \<Rightarrow> (addr \<times> malloc_state) dl_result" where
  "mspace_realloc os oldmem bytes s =
     (if oldmem = 0 then mspace_malloc os bytes s
      else if bytes \<ge> MAX_REQUEST then Ret (0, s)
      else
        let nb = request2size bytes; oldp = mem2chunk oldmem
        in dbind (try_realloc_chunk os oldp nb 1 s) (\<lambda>(newp, s).
           if newp \<noteq> 0 then Ret (chunk2mem newp, s)
           else
             dbind (mspace_malloc os bytes s) (\<lambda>(mem, s).
             if mem \<noteq> 0 then
               let oc = chunksize s oldp - overhead_for s oldp;
                   s = memcpy mem oldmem (if oc < bytes then oc else bytes) s
               in dbind (mspace_free os oldmem s) (\<lambda>s. Ret (mem, s))
             else Ret (0, s))))"

definition mspace_realloc_in_place ::
  "system \<Rightarrow> addr \<Rightarrow> size_t \<Rightarrow> malloc_state \<Rightarrow> (addr \<times> malloc_state) dl_result" where
  "mspace_realloc_in_place os oldmem bytes s =
     (if oldmem \<noteq> 0 then
        if bytes \<ge> MAX_REQUEST then Ret (0, s)
        else
          let nb = request2size bytes; oldp = mem2chunk oldmem
          in dbind (try_realloc_chunk os oldp nb 0 s) (\<lambda>(newp, s).
             Ret (if newp = oldp then oldmem else 0, s))
      else Ret (0, s))"

partial_function (option) pow2_from :: "size_t \<Rightarrow> size_t \<Rightarrow> size_t option" where
  "pow2_from a alignment =
     (if a < alignment then pow2_from (push_bit 1 a) alignment else Some a)"

declare pow2_from.simps [code]

definition memalign_alignment :: "size_t \<Rightarrow> size_t option" where
  "memalign_alignment alignment =
     (let alignment = (if alignment < MIN_CHUNK_SIZE then MIN_CHUNK_SIZE else alignment)
      in if alignment AND (alignment - 1) \<noteq> 0 then pow2_from (push_bit 1 MALLOC_ALIGNMENT) alignment
         else Some alignment)"

text \<open>The aligned chunk inside the chunk \<open>p\<close> of \<open>mem\<close>\<close>

definition aligned_spot :: "size_t \<Rightarrow> addr \<Rightarrow> addr" where
  "aligned_spot alignment mem =
     (let p = mem2chunk mem;
          br = mem2chunk ((mem + alignment - 1) AND - alignment)
      in if br - p \<ge> MIN_CHUNK_SIZE then br else br + alignment)"

definition memalign_lead ::
  "system \<Rightarrow> size_t \<Rightarrow> addr \<Rightarrow> malloc_state \<Rightarrow> (addr \<times> malloc_state) dl_result" where
  "memalign_lead os alignment mem s =
     (let p = mem2chunk mem
      in if mem AND (alignment - 1) \<noteq> 0 then
           let newp = aligned_spot alignment mem;
               leadsize = newp - p;
               newsize = chunksize s p - leadsize
           in if is_mmapped s p
              then Ret (newp, set_head newp newsize (set_prev_foot newp (prev_foot s p + leadsize) s))
              else dbind (dispose_chunk os p leadsize (set_inuse p leadsize (set_inuse newp newsize s)))
                     (\<lambda>s. Ret (newp, s))
         else Ret (p, s))"

definition internal_memalign ::
  "system \<Rightarrow> size_t \<Rightarrow> size_t \<Rightarrow> malloc_state \<Rightarrow> (addr \<times> malloc_state) dl_result" where
  "internal_memalign os alignment bytes s =
     walk (memalign_alignment alignment) (\<lambda>alignment.
     if bytes \<ge> MAX_REQUEST - alignment then Ret (0, s)
     else
       let nb = request2size bytes;
           req = nb + alignment + MIN_CHUNK_SIZE - CHUNK_OVERHEAD
       in dbind (mspace_malloc os req s) (\<lambda>(mem, s).
          if mem \<noteq> 0 then
            dbind (memalign_lead os alignment mem s) (\<lambda>(p, s).
            dbind
              (if \<not> is_mmapped s p then
                 let size = chunksize s p
                 in if size > nb + MIN_CHUNK_SIZE then give_back os p nb (size - nb) s else Ret s
               else Ret s)
              (\<lambda>s. Ret (chunk2mem p, s)))
          else Ret (0, s)))"

definition mspace_memalign ::
  "system \<Rightarrow> size_t \<Rightarrow> size_t \<Rightarrow> malloc_state \<Rightarrow> (addr \<times> malloc_state) dl_result" where
  "mspace_memalign os alignment bytes s =
     (if alignment \<le> MALLOC_ALIGNMENT then mspace_malloc os bytes s
      else internal_memalign os alignment bytes s)"

section \<open>Constructors\<close>

definition zero_words :: "addr \<Rightarrow> size_t \<Rightarrow> store \<Rightarrow> store" where
  "zero_words a n h = (\<lambda>x. if x - a < n then 0 else h x)"

definition init_user_mstate :: "addr \<Rightarrow> size_t \<Rightarrow> malloc_state \<Rightarrow> malloc_state" where
  "init_user_mstate tbase tsize s =
     (let msize = pad_request sizeof_malloc_state;
          msp = align_as_chunk tbase;
          m = chunk2mem msp;
          s = \<lparr>heap = zero_words m msize (heap s), mst = m, smallmap = 0, treemap = 0, dvsize = 0,
               topsize = 0, least_addr = 0, dv = 0, mtop = 0, trim_check = 0, release_checks = 0,
               magic = 0, footprint = 0, max_footprint = 0, footprint_limit = 0, mflags = 0,
               extp = 0, exts = 0, mparams = mparams s, syscalls = syscalls s\<rparr>;
          s = set_head msp (msize OR INUSE_BITS) s;
          s = set_seg_base (first_seg s) tbase (s\<lparr>least_addr := tbase\<rparr>);
          s = set_seg_size (first_seg s) tsize (s\<lparr>footprint := tsize, max_footprint := tsize\<rparr>);
          s = s\<lparr>magic := mp_magic (mparams s), release_checks := MAX_RELEASE_CHECK_RATE,
                mflags := default_mflags (mparams s), extp := 0, exts := 0\<rparr>;
          s = disable_contiguous s;
          s = init_bins s;
          mn = next_chunk s (mem2chunk m)
      in init_top mn ((tbase + tsize) - mn - TOP_FOOT_SIZE) s)"

definition capacity_limit :: "malloc_state \<Rightarrow> size_t" where
  "capacity_limit s = - (pad_request sizeof_malloc_state + TOP_FOOT_SIZE + page_size (mparams s))"

definition create_mspace ::
  "system \<Rightarrow> size_t \<Rightarrow> bool \<Rightarrow> malloc_state \<Rightarrow> (addr \<times> malloc_state) dl_result" where
  "create_mspace os capacity locked s =
     dbind (ensure_initialization os s) (\<lambda>s.
     let msize = pad_request sizeof_malloc_state
     in if capacity < capacity_limit s then
          let rs = (if capacity = 0 then granularity (mparams s) else capacity + TOP_FOOT_SIZE + msize);
              tsize = granularity_align s rs;
              (tbase, s) = CALL_MMAP os tsize s
          in if tbase \<noteq> CMFAIL then
               let s = init_user_mstate tbase tsize s;
                   s = set_sflags (first_seg s) USE_MMAP_BIT s
               in Ret (mst s, set_lock locked s)
             else Ret (0, s)
        else Ret (0, s))"

definition create_mspace_with_base ::
  "system \<Rightarrow> addr \<Rightarrow> size_t \<Rightarrow> bool \<Rightarrow> malloc_state \<Rightarrow> (addr \<times> malloc_state) dl_result" where
  "create_mspace_with_base os base capacity locked s =
     dbind (ensure_initialization os s) (\<lambda>s.
     let msize = pad_request sizeof_malloc_state
     in if capacity > msize + TOP_FOOT_SIZE \<and> capacity < capacity_limit s then
          let s = init_user_mstate base capacity s;
              s = set_sflags (first_seg s) EXTERN_BIT s
          in Ret (mst s, set_lock locked s)
        else Ret (0, s))"

definition mspace_track_large_chunks :: "bool \<Rightarrow> malloc_state \<Rightarrow> bool \<times> malloc_state" where
  "mspace_track_large_chunks enable s =
     (\<not> use_mmap s, if \<not> enable then enable_mmap s else disable_mmap s)"

partial_function (option) destroy_from ::
  "system \<Rightarrow> addr \<Rightarrow> size_t \<Rightarrow> malloc_state \<Rightarrow> (size_t \<times> malloc_state) option" where
  "destroy_from os sp freed s =
     (if sp = 0 then Some (freed, s)
      else if sflags s sp AND USE_MMAP_BIT \<noteq> 0 \<and> sflags s sp AND EXTERN_BIT = 0 then
        destroy_from os (seg_next s sp)
          (if fst (CALL_MUNMAP os (seg_base s sp) (seg_size s sp) s) = 0
           then freed + seg_size s sp else freed)
          (snd (CALL_MUNMAP os (seg_base s sp) (seg_size s sp) s))
      else destroy_from os (seg_next s sp) freed s)"

declare destroy_from.simps [code]

definition destroy_mspace :: "system \<Rightarrow> malloc_state \<Rightarrow> (size_t \<times> malloc_state) dl_result" where
  "destroy_mspace os s = walk (destroy_from os (first_seg s) 0 s) Ret"

section \<open>Trimming and queries\<close>

definition mspace_trim :: "system \<Rightarrow> size_t \<Rightarrow> malloc_state \<Rightarrow> (bool \<times> malloc_state) dl_result" where
  "mspace_trim os pad s = sys_trim os pad s"

definition mspace_footprint :: "malloc_state \<Rightarrow> size_t" where
  "mspace_footprint s = footprint s"

definition mspace_max_footprint :: "malloc_state \<Rightarrow> size_t" where
  "mspace_max_footprint s = max_footprint s"

definition mspace_footprint_limit :: "malloc_state \<Rightarrow> size_t" where
  "mspace_footprint_limit s = (let maf = footprint_limit s in if maf = 0 then MAX_SIZE_T else maf)"

definition mspace_set_footprint_limit :: "size_t \<Rightarrow> malloc_state \<Rightarrow> size_t \<times> malloc_state" where
  "mspace_set_footprint_limit bytes s =
     (let result = (if bytes = 0 then granularity_align s 1 else 0);
          result = (if bytes = MAX_SIZE_T then 0 else granularity_align s bytes)
      in (result, s\<lparr>footprint_limit := result\<rparr>))"

definition mspace_usable_size :: "addr \<Rightarrow> malloc_state \<Rightarrow> size_t" where
  "mspace_usable_size mem s =
     (if mem \<noteq> 0 then
        let p = mem2chunk mem
        in if is_inuse s p then chunksize s p - overhead_for s p else 0
      else 0)"

definition mspace_mallopt ::
  "system \<Rightarrow> mallopt \<Rightarrow> int \<Rightarrow> malloc_state \<Rightarrow> (bool \<times> malloc_state) dl_result" where
  "mspace_mallopt os param value s = change_mparam os param value s"

end
