(* ===== verification/Dl_Tree.thy ===== *)
theory Dl_Tree
  imports Dl_Index Dl_Mspace "HOL-Library.Tree"
begin

unbundle bit_operations_syntax

text \<open>
  The trees of large chunks as tries of their sizes, and what the searches of \<open>tmalloc_large\<close> and
  \<open>tmalloc_small\<close> find in them: the best fit of all trees. A tree of the allocator is represented by
  a binary tree of the addresses of its nodes; chunks of the same size hang on one node.
\<close>

section \<open>Tries in memory\<close>

primrec tree_at :: "malloc_state \<Rightarrow> addr \<Rightarrow> addr tree \<Rightarrow> bool" where
  "tree_at s t Leaf \<longleftrightarrow> t = 0"
| "tree_at s t (Node l a r) \<longleftrightarrow>
     t = a \<and> a \<noteq> 0 \<and> tree_at s (child s a 0) l \<and> tree_at s (child s a 1) r"

text \<open>With \<open>k\<close> bits left, the subtrees are told apart by bit \<open>k - 1\<close> of the size.\<close>

primrec trie_ok :: "(addr \<Rightarrow> size_t) \<Rightarrow> nat \<Rightarrow> addr tree \<Rightarrow> bool" where
  "trie_ok sz k Leaf \<longleftrightarrow> True"
| "trie_ok sz k (Node l a r) \<longleftrightarrow>
     (if k = 0 then l = Leaf \<and> r = Leaf
      else (\<forall>x\<in>set_tree l. \<not> bit (sz x) (k - 1)) \<and> (\<forall>x\<in>set_tree r. bit (sz x) (k - 1))
        \<and> trie_ok sz (k - 1) l \<and> trie_ok sz (k - 1) r)"

definition same_above :: "(addr \<Rightarrow> size_t) \<Rightarrow> nat \<Rightarrow> size_t \<Rightarrow> addr tree \<Rightarrow> bool" where
  "same_above sz k c T \<longleftrightarrow> (\<forall>x\<in>set_tree T. drop_bit k (sz x) = drop_bit k c)"

lemma tree_at_Leaf [simp]: "tree_at s 0 T \<longleftrightarrow> T = Leaf"
  by (cases T) auto

lemma tree_at_zero: "tree_at s t T \<Longrightarrow> t = 0 \<longleftrightarrow> T = Leaf"
  by (cases T) auto

lemma tree_at_root: "tree_at s t T \<Longrightarrow> t \<noteq> 0 \<Longrightarrow> t \<in> set_tree T"
  by (cases T) auto

lemma same_above_sub:
  "same_above sz k c T \<Longrightarrow> set_tree T' \<subseteq> set_tree T \<Longrightarrow> same_above sz k c T'"
  by (auto simp: same_above_def)

lemma drop_bit_step:
  fixes x y :: size_t
  assumes "drop_bit (Suc k) x = drop_bit (Suc k) y"
  shows "drop_bit k x = drop_bit k y \<longleftrightarrow> (bit x k \<longleftrightarrow> bit y k)"
proof
  assume "drop_bit k x = drop_bit k y"
  then have "bit (drop_bit k x) 0 \<longleftrightarrow> bit (drop_bit k y) 0" by simp
  then show "bit x k \<longleftrightarrow> bit y k" by (simp add: bit_drop_bit_eq)
next
  assume b: "bit x k \<longleftrightarrow> bit y k"
  show "drop_bit k x = drop_bit k y"
  proof (rule bit_word_eqI)
    fix n
    have "bit (drop_bit (Suc k) x) m \<longleftrightarrow> bit (drop_bit (Suc k) y) m" for m using assms by simp
    then show "bit (drop_bit k x) n \<longleftrightarrow> bit (drop_bit k y) n"
      using b by (cases n) (auto simp: bit_drop_bit_eq)
  qed
qed

lemma less_by_bit:
  fixes x y :: size_t
  assumes "drop_bit (Suc k) x = drop_bit (Suc k) y" "\<not> bit x k" "bit y k"
  shows "x < y"
proof -
  have e: "unat x div 2 ^ Suc k = unat y div 2 ^ Suc k"
    using arg_cong [OF assms(1), of unat] by (simp only: unat_drop_bit_eq) (simp only: drop_bit_eq_div)
  have b: "even (unat x div 2 ^ k)" "odd (unat y div 2 ^ k)"
    using assms(2,3) bit_unsigned_iff [of x k, where 'a = nat] bit_unsigned_iff [of y k, where 'a = nat]
    by (simp_all add: bit_iff_odd [of "unat _"])
  have d: "unat z div 2 ^ Suc k = unat z div 2 ^ k div 2" for z :: size_t
    by (simp add: mult.commute flip: div_mult2_eq)
  have even_odd: "m < n" if "m div 2 = n div 2" "even m" "odd n" for m n :: nat
    using that by presburger
  have "unat x div 2 ^ k < unat y div 2 ^ k"
    using even_odd e b unfolding d by blast
  then have "unat x < unat y" by (metis div_le_mono leD leI)
  then show ?thesis by (simp add: word_less_nat_alt)
qed

lemma trie_left_less_right:
  assumes "trie_ok sz k (Node l a r)" "same_above sz k c (Node l a r)" "x \<in> set_tree l" "y \<in> set_tree r"
  shows "sz x < sz y"
proof (cases k)
  case (Suc j)
  then have "drop_bit (Suc j) (sz x) = drop_bit (Suc j) (sz y)" "\<not> bit (sz x) j" "bit (sz y) j"
    using assms by (auto simp: same_above_def)
  then show ?thesis by (rule less_by_bit)
qed (use assms in auto)

lemma trie_sub:
  assumes "trie_ok sz k (Node l a r)" "same_above sz k c (Node l a r)"
  shows "\<exists>d. same_above sz (k - 1) d l" "\<exists>d. same_above sz (k - 1) d r" "trie_ok sz (k - 1) l" "trie_ok sz (k - 1) r"
proof -
  have sub: "\<exists>d. same_above sz (k - 1) d T"
    if "\<forall>x\<in>set_tree T. (bit (sz x) (k - 1) \<longleftrightarrow> b)" "set_tree T \<subseteq> set_tree (Node l a r)" "0 < k" for T b
  proof (cases T)
    case (Node l' x r')
    have "drop_bit (k - 1) (sz y) = drop_bit (k - 1) (sz x)" if "y \<in> set_tree T" for y
    proof -
      have "drop_bit (Suc (k - 1)) (sz y) = drop_bit (Suc (k - 1)) (sz x)"
        using assms(2) \<open>set_tree T \<subseteq> _\<close> \<open>0 < k\<close> that Node by (auto simp: same_above_def)
      then show ?thesis using drop_bit_step \<open>\<forall>x\<in>set_tree T. _\<close> that Node by (metis tree.set_intros(2))
    qed
    then show ?thesis by (auto simp: same_above_def)
  qed (simp add: same_above_def)
  show "\<exists>d. same_above sz (k - 1) d l"
    using sub [of l False] assms(1) by (cases "k = 0") (auto simp: same_above_def)
  show "\<exists>d. same_above sz (k - 1) d r"
    using sub [of r True] assms(1) by (cases "k = 0") (auto simp: same_above_def)
qed (use assms in \<open>auto split: if_splits\<close>)

section \<open>The least chunk of a trie\<close>

lemma least_in_tree_min:
  assumes "tree_at s t T" "trie_ok (chunksize s) k T" "same_above (chunksize s) k c T"
    "\<forall>x\<in>set_tree T. nb \<le> chunksize s x"
  shows "\<exists>v' r'. least_in_tree s nb t v rsize = Some (v', r') \<and> r' \<le> rsize
    \<and> (\<forall>x\<in>set_tree T. r' \<le> chunksize s x - nb)
    \<and> (v' = v \<and> r' = rsize \<or> v' \<in> set_tree T \<and> r' = chunksize s v' - nb \<and> r' < rsize)"
  using assms
proof (induction T arbitrary: t k c v rsize)
  case Leaf
  then show ?case by (subst least_in_tree.simps) simp
next
  case (Node l a r)
  let ?f = "\<lambda>x. chunksize s x"
  define u where "u = (if ?f a - nb < rsize then (a, ?f a - nb) else (v, rsize))"
  have at: "t = a" "a \<noteq> 0" "tree_at s (child s a 0) l" "tree_at s (child s a 1) r"
    using Node.prems(1) by auto
  have step: "least_in_tree s nb t v rsize = least_in_tree s nb (leftmost_child s a) (fst u) (snd u)"
    using at by (subst least_in_tree.simps) (simp add: u_def)
  note sub = trie_sub [OF Node.prems(2,3)]
  define T where "T = (if l = Leaf then r else l)"
  have T: "tree_at s (leftmost_child s a) T"
    using at tree_at_zero [OF at(3)] by (auto simp: T_def leftmost_child_def)
  have "\<exists>v' r'. least_in_tree s nb (leftmost_child s a) (fst u) (snd u) = Some (v', r') \<and> r' \<le> snd u
    \<and> (\<forall>x\<in>set_tree T. r' \<le> ?f x - nb)
    \<and> (v' = fst u \<and> r' = snd u \<or> v' \<in> set_tree T \<and> r' = ?f v' - nb \<and> r' < snd u)"
    using Node.IH(1) [of "leftmost_child s a" "k - 1"] Node.IH(2) [of "leftmost_child s a" "k - 1"] T sub Node.prems(4)
    by (cases "l = Leaf") (auto simp: T_def)
  then obtain v' r' where res: "least_in_tree s nb t v rsize = Some (v', r')" "r' \<le> snd u"
    "\<forall>x\<in>set_tree T. r' \<le> ?f x - nb"
    "v' = fst u \<and> r' = snd u \<or> v' \<in> set_tree T \<and> r' = ?f v' - nb \<and> r' < snd u"
    unfolding step by blast
  have "r' \<le> ?f x - nb" if "x \<in> set_tree r" for x
  proof (cases l)
    case Leaf
    then show ?thesis using res(3) that by (simp add: T_def)
  next
    case (Node l1 y l2)
    then have y: "y \<in> set_tree l" "r' \<le> ?f y - nb" using res(3) by (auto simp: T_def)
    have "?f y < ?f x" by (rule trie_left_less_right [OF Node.prems(2,3) y(1) that])
    moreover have "nb \<le> ?f y" using Node.prems(4) y(1) by simp
    ultimately show ?thesis using y(2) by (simp add: word_le_nat_alt word_less_nat_alt unat_sub)
  qed
  moreover have "r' \<le> ?f x - nb" if "x \<in> set_tree l" for x
    using res(3) that by (cases "l = Leaf") (auto simp: T_def)
  moreover have "r' \<le> ?f a - nb" "snd u \<le> rsize" using res(2) by (auto simp: u_def split: if_splits)
  moreover have "set_tree T \<subseteq> set_tree (Node l a r)" by (auto simp: T_def)
  ultimately show ?case
    using res by (intro exI [of _ v'] exI [of _ r']) (auto simp: u_def split: if_splits)
qed

lemma least_in_tree_exact:
  assumes "tree_at s t T"
  shows "least_in_tree s nb t v 0 = Some (v, 0)"
  using assms
proof (induction T arbitrary: t)
  case Leaf
  then show ?case by (subst least_in_tree.simps) simp
next
  case (Node l a r)
  have "least_in_tree s nb t v 0 = least_in_tree s nb (leftmost_child s a) v 0"
    using Node.prems by (subst least_in_tree.simps) simp
  then show ?case
    using Node by (auto simp: leftmost_child_def)
qed

section \<open>The search for a fit\<close>

text \<open>
  What the search leaves: the best node on its path in \<open>(v', r')\<close>, and in \<open>rst'\<close> either the old value
  or a subtree that holds a chunk at most as large as every fitting chunk off the path.
\<close>

definition search_result ::
  "malloc_state \<Rightarrow> size_t \<Rightarrow> addr tree \<Rightarrow> addr \<Rightarrow> addr \<Rightarrow> size_t \<Rightarrow> addr \<times> size_t \<times> addr \<Rightarrow> bool" where
  "search_result s nb T rst v rsize res \<longleftrightarrow>
     (case res of (v', r', rst') \<Rightarrow>
        r' \<le> rsize
        \<and> (v' = v \<and> r' = rsize \<or> v' \<in> set_tree T \<and> nb \<le> chunksize s v' \<and> r' = chunksize s v' - nb)
        \<and> (r' = 0 \<and> (\<exists>R. tree_at s rst' R)
           \<or> rst' = rst \<and> (\<forall>x\<in>set_tree T. nb \<le> chunksize s x \<longrightarrow> r' \<le> chunksize s x - nb)
           \<or> (\<exists>R j c. R \<noteq> Leaf \<and> tree_at s rst' R \<and> trie_ok (chunksize s) j R \<and> same_above (chunksize s) j c R
                \<and> set_tree R \<subseteq> set_tree T \<and> (\<forall>x\<in>set_tree R. nb < chunksize s x)
                \<and> (\<forall>x\<in>set_tree T. nb \<le> chunksize s x \<longrightarrow>
                     r' \<le> chunksize s x - nb \<or> (\<exists>y\<in>set_tree R. chunksize s y \<le> chunksize s x)))))"

lemma search_resultI:
  assumes "r' \<le> rsize"
    "v' = v \<and> r' = rsize \<or> v' \<in> set_tree T \<and> nb \<le> chunksize s v' \<and> r' = chunksize s v' - nb"
  shows search_exact: "r' = 0 \<Longrightarrow> tree_at s rst' R \<Longrightarrow> search_result s nb T rst v rsize (v', r', rst')"
    and search_old: "rst' = rst \<Longrightarrow> (\<And>x. x \<in> set_tree T \<Longrightarrow> nb \<le> chunksize s x \<Longrightarrow> r' \<le> chunksize s x - nb)
      \<Longrightarrow> search_result s nb T rst v rsize (v', r', rst')"
    and search_new: "R \<noteq> Leaf \<Longrightarrow> tree_at s rst' R \<Longrightarrow> trie_ok (chunksize s) j R \<Longrightarrow> same_above (chunksize s) j c R
      \<Longrightarrow> set_tree R \<subseteq> set_tree T \<Longrightarrow> (\<And>x. x \<in> set_tree R \<Longrightarrow> nb < chunksize s x)
      \<Longrightarrow> (\<And>x. x \<in> set_tree T \<Longrightarrow> nb \<le> chunksize s x \<Longrightarrow>
             r' \<le> chunksize s x - nb \<or> (\<exists>y\<in>set_tree R. chunksize s y \<le> chunksize s x))
      \<Longrightarrow> search_result s nb T rst v rsize (v', r', rst')"
proof -
  show "r' = 0 \<Longrightarrow> tree_at s rst' R \<Longrightarrow> search_result s nb T rst v rsize (v', r', rst')"
    using assms unfolding search_result_def by blast
  show "rst' = rst \<Longrightarrow> (\<And>x. x \<in> set_tree T \<Longrightarrow> nb \<le> chunksize s x \<Longrightarrow> r' \<le> chunksize s x - nb)
      \<Longrightarrow> search_result s nb T rst v rsize (v', r', rst')"
    using assms unfolding search_result_def by blast
  assume "R \<noteq> Leaf" "tree_at s rst' R" "trie_ok (chunksize s) j R" "same_above (chunksize s) j c R"
    "set_tree R \<subseteq> set_tree T" "\<And>x. x \<in> set_tree R \<Longrightarrow> nb < chunksize s x"
    "\<And>x. x \<in> set_tree T \<Longrightarrow> nb \<le> chunksize s x \<Longrightarrow>
       r' \<le> chunksize s x - nb \<or> (\<exists>y\<in>set_tree R. chunksize s y \<le> chunksize s x)"
  then have "\<exists>R j c. R \<noteq> Leaf \<and> tree_at s rst' R \<and> trie_ok (chunksize s) j R \<and> same_above (chunksize s) j c R
      \<and> set_tree R \<subseteq> set_tree T \<and> (\<forall>x\<in>set_tree R. nb < chunksize s x)
      \<and> (\<forall>x\<in>set_tree T. nb \<le> chunksize s x \<longrightarrow>
           r' \<le> chunksize s x - nb \<or> (\<exists>y\<in>set_tree R. chunksize s y \<le> chunksize s x))"
    by (intro exI [of _ R] exI [of _ j] exI [of _ c]) blast
  then show "search_result s nb T rst v rsize (v', r', rst')"
    using assms unfolding search_result_def prod.case by simp
qed

lemma fits_iff:
  fixes f nb r :: size_t
  assumes "r \<le> - nb" "0 < nb"
  shows "f - nb < r \<Longrightarrow> nb \<le> f"
proof (rule ccontr)
  assume "f - nb < r" "\<not> nb \<le> f"
  from \<open>\<not> nb \<le> f\<close> have "unat f < unat nb" by (simp only: not_le word_less_nat_alt)
  then have "unat (f - nb) = unat f + 2 ^ 64 - unat nb"
    using unsigned_less [of nb] by (simp add: unat_sub_if_size word_size)
  moreover have "unat (- nb) = 2 ^ 64 - unat nb"
    using assms(2) unat_sub_if_size [of 0 nb] by (simp add: word_size word_le_nat_alt word_less_nat_alt)
  ultimately show False
    using \<open>f - nb < r\<close> assms(1) by (simp add: word_less_nat_alt word_le_nat_alt)
qed

lemma top_bit_push: "k \<le> 64 \<Longrightarrow> top_bit (push_bit (64 - k) nb) = (if 0 < k \<and> bit nb (k - 1) then 1 else 0)"
proof (cases k)
  case 0
  then show ?thesis by (simp add: top_bit_def)
next
  case (Suc j)
  assume "k \<le> 64"
  show ?thesis
  proof (rule bit_word_eqI)
    fix n
    show "bit (top_bit (push_bit (64 - k) nb)) n
        \<longleftrightarrow> bit (if 0 < k \<and> bit nb (k - 1) then 1 else 0 :: size_t) n"
      using Suc \<open>k \<le> 64\<close> by (cases n) (auto simp: top_bit_def bit_simps)
  qed
qed

lemma tree_search_spec:
  assumes "tree_at s t T" "T \<noteq> Leaf" "trie_ok (chunksize s) k T" "same_above (chunksize s) k nb T" "k \<le> 64"
    "rsize \<le> - nb" "0 < nb"
  shows "\<exists>res. tree_search s nb t (push_bit (64 - k) nb) rst v rsize = Some res
    \<and> search_result s nb T rst v rsize res"
  using assms
proof (induction T arbitrary: t k rst v rsize)
  case (Node l a r)
  let ?f = "\<lambda>x. chunksize s x"
  have at: "t = a" "a \<noteq> 0" "tree_at s (child s a 0) l" "tree_at s (child s a 1) r"
    using Node.prems(1) by auto
  note fits = fits_iff [OF Node.prems(6,7)]
  show ?case
  proof (cases "?f a - nb < rsize \<and> ?f a - nb = 0")
    case True
    then have "?f a = nb" "0 < rsize" by auto
    then have "tree_search s nb t (push_bit (64 - k) nb) rst v rsize = Some (a, 0, a)"
      using at(1) by (subst tree_search.simps) simp
    moreover have "search_result s nb (Node l a r) rst v rsize (a, 0, a)"
      using True fits [of "?f a"] Node.prems(1) at(1)
      by (auto simp: search_result_def simp del: tree_at.simps)
    ultimately show ?thesis by blast
  next
    case False
    define v1 where "v1 = (if ?f a - nb < rsize then a else v)"
    define r1 where "r1 = (if ?f a - nb < rsize then ?f a - nb else rsize)"
    define b where "b \<longleftrightarrow> 0 < k \<and> bit nb (k - 1)"
    define T' where "T' = (if b then r else l)"
    define t' where "t' = child s a (if b then 1 else 0)"
    define rst1 where "rst1 = (if child s a 1 \<noteq> 0 \<and> child s a 1 \<noteq> t' then child s a 1 else rst)"
    have T': "tree_at s t' T'" using at by (simp add: t'_def T'_def)
    have r1: "r1 \<le> rsize" "r1 \<le> - nb" "nb \<le> ?f a \<Longrightarrow> r1 \<le> ?f a - nb" using Node.prems(6) by (auto simp: r1_def)
    have v1: "v1 = v \<and> r1 = rsize \<or> v1 = a \<and> nb \<le> ?f a \<and> r1 = ?f a - nb"
      using fits [of "?f a"] by (auto simp: v1_def r1_def)
    have step: "tree_search s nb t (push_bit (64 - k) nb) rst v rsize =
        (if t' = 0 then Some (v1, r1, rst1)
         else tree_search s nb t' (push_bit (64 - (k - 1)) nb) rst1 v1 r1)"
    proof -
      have "push_bit 1 (push_bit (64 - k) nb) = push_bit (64 - (k - 1)) nb" if "0 < k"
      proof -
        have "1 + (64 - k) = 64 - (k - 1)" using that Node.prems(5) by arith
        then show ?thesis by (simp only: push_bit_push_bit)
      qed
      moreover have "t' = 0" if "k = 0"
        using that T' Node.prems(3) tree_at_zero [OF T'] by (auto simp: T'_def b_def)
      moreover have "child s a (top_bit (push_bit (64 - k) nb)) = t'"
        using top_bit_push [OF Node.prems(5), of nb] by (simp add: t'_def b_def)
      moreover have "tree_search s nb t (push_bit (64 - k) nb) rst v rsize =
          (let t' = child s a (top_bit (push_bit (64 - k) nb));
               rst' = (if child s a 1 \<noteq> 0 \<and> child s a 1 \<noteq> t' then child s a 1 else rst)
           in if t' = 0 then Some (v1, r1, rst')
              else tree_search s nb t' (push_bit 1 (push_bit (64 - k) nb)) rst' v1 r1)"
        unfolding at(1) v1_def r1_def by (subst tree_search.simps) (simp only: False if_False Let_def)
      ultimately show ?thesis unfolding Let_def rst1_def by (cases "k = 0") simp_all
    qed
    have low: "\<not> nb \<le> ?f x" if "b" "x \<in> set_tree l" for x
    proof -
      have "drop_bit (Suc (k - 1)) (?f x) = drop_bit (Suc (k - 1)) nb" "\<not> bit (?f x) (k - 1)" "bit nb (k - 1)"
        using that Node.prems(3,4) by (auto simp: b_def same_above_def)
      then show ?thesis using less_by_bit by (simp add: not_le)
    qed
    have high: "nb < ?f x" if "\<not> b" "x \<in> set_tree r" for x
    proof -
      have "0 < k" using that Node.prems(3) by (cases "k = 0") auto
      then have "drop_bit (Suc (k - 1)) nb = drop_bit (Suc (k - 1)) (?f x)" "\<not> bit nb (k - 1)" "bit (?f x) (k - 1)"
        using that Node.prems(3,4) by (auto simp: b_def same_above_def)
      then show ?thesis by (rule less_by_bit)
    qed
    note sub = trie_sub [OF Node.prems(3,4)]
    have rst1: "rst1 = (if \<not> b \<and> r \<noteq> Leaf then child s a 1 else rst)"
    proof -
      have "child s a 0 \<noteq> child s a 1" if "r \<noteq> Leaf"
      proof
        assume eq: "child s a 0 = child s a 1"
        have "child s a 1 \<noteq> 0" using that tree_at_zero [OF at(4)] by simp
        then have "child s a 1 \<in> set_tree l" "child s a 1 \<in> set_tree r"
          using tree_at_root [OF at(3)] tree_at_root [OF at(4)] eq by auto
        then show False using trie_left_less_right [OF Node.prems(3,4)] by blast
      qed
      then show ?thesis using tree_at_zero [OF at(4)] by (auto simp: rst1_def t'_def)
    qed
    show ?thesis
    proof (cases "T' = Leaf")
      case True
      then have "t' = 0" using tree_at_zero [OF T'] by simp
      moreover have "search_result s nb (Node l a r) rst v rsize (v1, r1, rst1)"
      proof (cases "\<not> b \<and> r \<noteq> Leaf")
        case rr: True
        then have "l = Leaf" using True by (simp add: T'_def)
        then show ?thesis
          using rr r1 v1 sub high at(4) unfolding search_result_def rst1 by auto
      next
        case rr: False
        then show ?thesis
          using True r1 v1 low unfolding search_result_def rst1 by (auto simp: T'_def split: if_splits)
      qed
      ultimately show ?thesis using step by auto
    next
      case nl: False
      then have t0: "t' \<noteq> 0" using tree_at_zero [OF T'] by simp
      then have k: "0 < k" using nl Node.prems(3) by (cases "k = 0") (auto simp: T'_def split: if_splits)
      have ab: "same_above ?f (k - 1) nb T'"
        unfolding same_above_def
      proof
        fix x assume x: "x \<in> set_tree T'"
        then have "drop_bit (Suc (k - 1)) (?f x) = drop_bit (Suc (k - 1)) nb" "bit (?f x) (k - 1) \<longleftrightarrow> bit nb (k - 1)"
          using k Node.prems(3,4) by (auto simp: T'_def b_def same_above_def split: if_splits)
        then show "drop_bit (k - 1) (?f x) = drop_bit (k - 1) nb" using drop_bit_step by blast
      qed
      have "trie_ok ?f (k - 1) T'" using sub by (simp add: T'_def)
      then have "\<exists>res. tree_search s nb t' (push_bit (64 - (k - 1)) nb) rst1 v1 r1 = Some res
          \<and> search_result s nb T' rst1 v1 r1 res"
        using Node.IH [of t' "k - 1" r1 rst1 v1] T' nl ab Node.prems(5,7) r1(2)
        by (cases b) (auto simp: T'_def)
      then obtain res where res: "tree_search s nb t (push_bit (64 - k) nb) rst v rsize = Some res"
        "search_result s nb T' rst1 v1 r1 res"
        using step t0 by auto
      have other: "r1 \<le> ?f a - nb" if "nb \<le> ?f a" using r1(3) that .
      obtain v' r' rst' where e: "res = (v', r', rst')" by (cases res)
      have sr: "r' \<le> r1" "v' = v1 \<and> r' = r1 \<or> v' \<in> set_tree T' \<and> nb \<le> ?f v' \<and> r' = ?f v' - nb"
        using res(2) by (auto simp: search_result_def e)
      have in_T: "set_tree T' \<subseteq> set_tree (Node l a r)" by (auto simp: T'_def)
      have split: "x = a \<or> x \<in> set_tree T' \<or> x \<in> set_tree (if b then l else r)" if "x \<in> set_tree (Node l a r)" for x
        using that by (auto simp: T'_def)
      note hd = order_trans [OF sr(1) r1(1)]
      have hd2: "v' = v \<and> r' = rsize \<or> v' \<in> set_tree (Node l a r) \<and> nb \<le> ?f v' \<and> r' = ?f v' - nb"
        using sr(2) v1 in_T by auto
      have off: "r' \<le> ?f x - nb" if "x \<in> set_tree (Node l a r)" "nb \<le> ?f x" "b \<or> x \<notin> set_tree r"
        "\<forall>x\<in>set_tree T'. nb \<le> ?f x \<longrightarrow> r' \<le> ?f x - nb" for x
        using split [OF that(1)] low [of x] other that sr(1) by (auto split: if_splits)
      consider (exact) R where "r' = 0" "tree_at s rst' R"
        | (old) "rst' = rst1" "\<forall>x\<in>set_tree T'. nb \<le> ?f x \<longrightarrow> r' \<le> ?f x - nb"
        | (new) R j c where "R \<noteq> Leaf" "tree_at s rst' R" "trie_ok ?f j R" "same_above ?f j c R"
            "set_tree R \<subseteq> set_tree T'" "\<forall>x\<in>set_tree R. nb < ?f x"
            "\<forall>x\<in>set_tree T'. nb \<le> ?f x \<longrightarrow> r' \<le> ?f x - nb \<or> (\<exists>y\<in>set_tree R. ?f y \<le> ?f x)"
        using res(2) unfolding search_result_def e prod.case by blast
      then have "search_result s nb (Node l a r) rst v rsize res"
      proof cases
        case exact
        then show ?thesis unfolding e by (intro search_exact [OF hd hd2])
      next
        case old
        show ?thesis
        proof (cases "\<not> b \<and> r \<noteq> Leaf")
          case True
          then have at': "tree_at s rst' r" using old(1) at(4) by (simp add: rst1)
          obtain d where d: "same_above ?f (k - 1) d r" using sub(2) by blast
          show ?thesis
            unfolding e
          proof (rule search_new [OF hd hd2 _ at' sub(4) d])
            fix x assume x: "x \<in> set_tree (Node l a r)" "nb \<le> ?f x"
            show "r' \<le> ?f x - nb \<or> (\<exists>y\<in>set_tree r. ?f y \<le> ?f x)"
              using off [OF x _ old(2)] by (cases "x \<in> set_tree r") auto
          qed (use True high in auto)
        next
          case False
          then have "rst' = rst" using old(1) rst1 by argo
          then show ?thesis
            unfolding e by (rule search_old [OF hd hd2]) (use off old(2) False in auto)
        qed
      next
        case new
        have "r' \<le> ?f x - nb \<or> (\<exists>y\<in>set_tree R. ?f y \<le> ?f x)"
          if x: "x \<in> set_tree (Node l a r)" "nb \<le> ?f x" for x
        proof -
          have "\<exists>y\<in>set_tree R. ?f y \<le> ?f x" if "\<not> b" "x \<in> set_tree r"
          proof -
            obtain y where y: "y \<in> set_tree R" using new(1) by (cases R) auto
            moreover have "?f y < ?f x"
              using trie_left_less_right [OF Node.prems(3,4), of y x] y new(5) that by (auto simp: T'_def)
            ultimately show ?thesis by (blast intro: less_imp_le)
          qed
          then show ?thesis using split [OF x(1)] x(2) low [of x] new(7) sr(1) other by (auto split: if_splits)
        qed
        then show ?thesis
          unfolding e by (intro search_new [OF hd hd2 new(1-4)]) (use new(5,6) in_T in auto)
      qed
      then show ?thesis using res(1) by blast
    qed
  qed
qed simp

section \<open>All trees\<close>

text \<open>The bits that the sizes in a bin do not share\<close>

definition bin_bits :: "bindex \<Rightarrow> nat" where
  "bin_bits i = 64 - leftshift_for_tree_index i"

definition tree_bin :: "malloc_state \<Rightarrow> bindex \<Rightarrow> addr tree \<Rightarrow> bool" where
  "tree_bin s i T \<longleftrightarrow>
     tree_at s (treebin s i) T \<and> trie_ok (chunksize s) (bin_bits i) T
       \<and> (\<forall>x\<in>set_tree T. compute_tree_index (chunksize s x) = i
             \<and> MIN_LARGE_SIZE \<le> chunksize s x \<and> chunksize s x < 2 ^ 40)"

definition tree_bins :: "malloc_state \<Rightarrow> (bindex \<Rightarrow> addr tree) \<Rightarrow> bool" where
  "tree_bins s X \<longleftrightarrow>
     (\<forall>i < NTREEBINS. tree_bin s i (X i) \<and> (treemap_is_marked s i \<longleftrightarrow> X i \<noteq> Leaf))"

definition large_chunks :: "(bindex \<Rightarrow> addr tree) \<Rightarrow> addr set" where
  "large_chunks X = (\<Union>i\<in>{i. i < NTREEBINS}. set_tree (X i))"

lemma bin_bits_table:
  "list_all (\<lambda>i. bin_bits i = unat i div 2 + 7 \<and> leftshift_for_tree_index i = 64 - bin_bits i)
     (map of_nat [0..<31])"
  "bin_bits 31 = 64" "leftshift_for_tree_index 31 = 0"
  by code_simp+

lemma bin_bits_at:
  assumes "n < 31"
  shows "bin_bits (of_nat n) = n div 2 + 7" "leftshift_for_tree_index (of_nat n) = 64 - bin_bits (of_nat n)"
proof -
  have "bin_bits (of_nat n) = unat (of_nat n :: bindex) div 2 + 7
      \<and> leftshift_for_tree_index (of_nat n) = 64 - bin_bits (of_nat n)"
    using bin_bits_table(1) assms by (simp only: list_all_iff set_map set_upt) auto
  moreover have "unat (of_nat n :: bindex) = n" using assms by (simp add: unsigned_of_nat take_bit_nat_eq_self)
  ultimately show "bin_bits (of_nat n) = n div 2 + 7" "leftshift_for_tree_index (of_nat n) = 64 - bin_bits (of_nat n)"
    by simp_all
qed

lemma bin_shares_top:
  assumes "MIN_LARGE_SIZE \<le> S" "S < 2 ^ 40" "n < 31" "compute_tree_index S = of_nat n"
  shows "unat S div 2 ^ (n div 2 + 7) = 2 + n mod 2"
proof -
  note b = tree_index_in_bin [OF assms(1,2)]
  have ne: "(of_nat n :: bindex) \<noteq> 31"
  proof
    assume "(of_nat n :: bindex) = 31"
    then have "unat (of_nat n :: bindex) = unat (31 :: bindex)" by (rule arg_cong)
    then show False using assms(3) by (simp add: unsigned_of_nat take_bit_nat_eq_self)
  qed
  have lo: "2 ^ (n div 2 + 8) + (n mod 2) * 2 ^ (n div 2 + 7) \<le> unat S"
  proof -
    have "minsize_for_tree_index (of_nat n) \<le> S" using b unfolding assms(4) by blast
    then have "unat (minsize_for_tree_index (of_nat n)) \<le> unat S" by (simp only: word_le_nat_alt)
    then show ?thesis using minsize_at [of n] assms(3) by simp
  qed
  have hi: "unat S < 2 ^ (Suc n div 2 + 8) + (Suc n mod 2) * 2 ^ (Suc n div 2 + 7)"
  proof -
    have "S < minsize_for_tree_index (of_nat (Suc n))"
    proof -
      have "(of_nat n :: bindex) = NTREEBINS - 1 \<or> S < minsize_for_tree_index (of_nat n + 1)"
        using b unfolding assms(4) by blast
      then show ?thesis using ne by (auto simp: NTREEBINS_def add.commute)
    qed
    then have "unat S < unat (minsize_for_tree_index (of_nat (Suc n)))" by (simp only: word_less_nat_alt)
    then show ?thesis using minsize_at [of "Suc n"] assms(3) by simp
  qed
  define P where "P = (2 :: nat) ^ (n div 2 + 7)"
  have "unat S < (3 + n mod 2) * P \<and> (2 + n mod 2) * P \<le> unat S"
  proof (cases "even n")
    case True
    then have "Suc n div 2 = n div 2" "Suc n mod 2 = 1" "n mod 2 = 0" by presburger+
    then show ?thesis using lo hi by (simp add: P_def power_add)
  next
    case False
    then have "Suc n div 2 = Suc (n div 2)" "Suc n mod 2 = 0" "n mod 2 = 1" by presburger+
    then show ?thesis using lo hi by (simp add: P_def power_add)
  qed
  then show ?thesis
    unfolding P_def [symmetric] by (intro div_nat_eqI) (simp_all add: algebra_simps)
qed

lemma index_below_32: "i < NTREEBINS \<Longrightarrow> \<exists>n < 32. i = of_nat n"
  by (rule exI [of _ "unat i"]) (simp add: NTREEBINS_def word_less_nat_alt)

lemma unat_index: "n < 32 \<Longrightarrow> unat (of_nat n :: bindex) = n"
  by (simp add: unsigned_of_nat take_bit_nat_eq_self)

lemma bin_same_above:
  assumes "MIN_LARGE_SIZE \<le> S" "S < 2 ^ 40" "MIN_LARGE_SIZE \<le> S'" "S' < 2 ^ 40"
    "compute_tree_index S = compute_tree_index S'"
  shows "drop_bit (bin_bits (compute_tree_index S)) S = drop_bit (bin_bits (compute_tree_index S)) S'"
proof -
  obtain n where n: "n < 32" "compute_tree_index S = of_nat n"
    using tree_index_in_bin [OF assms(1,2)] index_below_32 by blast
  show ?thesis
  proof (cases "n = 31")
    case True
    have "drop_bit 64 x = 0" for x :: size_t
      using bit_imp_le_length [of x] by (intro bit_word_eqI) (auto simp: bit_drop_bit_eq)
    then show ?thesis using True n(2) bin_bits_table(2) by simp
  next
    case False
    then have "unat S div 2 ^ (n div 2 + 7) = unat S' div 2 ^ (n div 2 + 7)"
      using bin_shares_top [OF assms(1,2), of n] bin_shares_top [OF assms(3,4), of n] n assms(5) by simp
    then have "unat (drop_bit (n div 2 + 7) S) = unat (drop_bit (n div 2 + 7) S')"
      by (simp only: unat_drop_bit_eq) (simp only: drop_bit_eq_div)
    then have "drop_bit (n div 2 + 7) S = drop_bit (n div 2 + 7) S'" by (simp only: word_unat_eq_iff)
    then show ?thesis using False n bin_bits_at(1) [of n] by simp
  qed
qed

lemma minsize_mono:
  assumes "m < n" "n < 32"
  shows "minsize_for_tree_index (of_nat m + 1) \<le> minsize_for_tree_index (of_nat n)"
proof -
  have step: "minsize_for_tree_index (of_nat j) \<le> minsize_for_tree_index (of_nat (Suc j))" if "Suc j < 32" for j
  proof -
    have "2 ^ (j div 2 + 8) + (j mod 2) * 2 ^ (j div 2 + 7)
        \<le> 2 ^ (Suc j div 2 + 8) + (Suc j mod 2) * (2 :: nat) ^ (Suc j div 2 + 7)"
    proof (cases "even j")
      case True
      then have "Suc j div 2 = j div 2" "j mod 2 = 0" by presburger+
      then show ?thesis by simp
    next
      case False
      then have "Suc j div 2 = Suc (j div 2)" "j mod 2 = 1" by presburger+
      then show ?thesis by (simp add: power_add)
    qed
    then show ?thesis using minsize_at [of j] minsize_at [of "Suc j"] that by (simp only: word_le_nat_alt)
  qed
  have "minsize_for_tree_index (of_nat (Suc m)) \<le> minsize_for_tree_index (of_nat n)"
    using assms
  proof (induction n)
    case (Suc n)
    show ?case
    proof (cases "m = n")
      case False
      then have "minsize_for_tree_index (of_nat (Suc m)) \<le> minsize_for_tree_index (of_nat n)" using Suc by simp
      also have "\<dots> \<le> minsize_for_tree_index (of_nat (Suc n))" using step Suc.prems by blast
      finally show ?thesis .
    qed simp
  qed simp
  then show ?thesis by (simp add: add.commute)
qed

lemma bins_ordered:
  assumes "MIN_LARGE_SIZE \<le> S" "S < 2 ^ 40" "MIN_LARGE_SIZE \<le> S'" "S' < 2 ^ 40"
    "compute_tree_index S < compute_tree_index S'"
  shows "S < S'"
proof -
  note b = tree_index_in_bin [OF assms(1,2)] tree_index_in_bin [OF assms(3,4)]
  obtain m n where mn: "m < 32" "compute_tree_index S = of_nat m" "n < 32" "compute_tree_index S' = of_nat n"
    using b index_below_32 by metis
  then have lt: "m < n" using assms(5) by (simp add: word_less_nat_alt unat_index)
  then have "(of_nat m :: bindex) \<noteq> NTREEBINS - 1"
    using mn(3) unat_index [OF mn(1)] by (auto simp: NTREEBINS_def)
  then have "S < minsize_for_tree_index (of_nat m + 1)" using b(1) mn(2) by auto
  also have "\<dots> \<le> minsize_for_tree_index (of_nat n)" by (rule minsize_mono [OF lt mn(3)])
  also have "\<dots> \<le> S'" using b(2) mn(4) by auto
  finally show ?thesis .
qed

section \<open>The best fit\<close>

lemma tree_binD:
  assumes "tree_bin s i T"
  shows "tree_at s (treebin s i) T" "trie_ok (chunksize s) (bin_bits i) T" "\<exists>c. same_above (chunksize s) (bin_bits i) c T"
    "\<And>x. x \<in> set_tree T \<Longrightarrow> compute_tree_index (chunksize s x) = i"
    "\<And>x. x \<in> set_tree T \<Longrightarrow> MIN_LARGE_SIZE \<le> chunksize s x"
    "\<And>x. x \<in> set_tree T \<Longrightarrow> chunksize s x < 2 ^ 40"
proof -
  show t: "tree_at s (treebin s i) T" "trie_ok (chunksize s) (bin_bits i) T"
    "\<And>x. x \<in> set_tree T \<Longrightarrow> compute_tree_index (chunksize s x) = i"
    "\<And>x. x \<in> set_tree T \<Longrightarrow> MIN_LARGE_SIZE \<le> chunksize s x"
    "\<And>x. x \<in> set_tree T \<Longrightarrow> chunksize s x < 2 ^ 40"
    using assms by (simp_all add: tree_bin_def)
  show "\<exists>c. same_above (chunksize s) (bin_bits i) c T"
  proof (cases T)
    case (Node l a r)
    then have "a \<in> set_tree T" by simp
    then have "same_above (chunksize s) (bin_bits i) (chunksize s a) T"
      using t(3-5) bin_same_above unfolding same_above_def by metis
    then show ?thesis ..
  qed (simp add: same_above_def)
qed

lemma bin_bits_le: "i < NTREEBINS \<Longrightarrow> bin_bits i \<le> 64 \<and> leftshift_for_tree_index i = 64 - bin_bits i"
proof -
  assume "i < NTREEBINS"
  then obtain n where n: "n < 32" "i = of_nat n" using index_below_32 by blast
  show ?thesis
  proof (cases "n = 31")
    case True
    then show ?thesis using n(2) bin_bits_table(2,3) by simp
  next
    case False
    then show ?thesis using n bin_bits_at [of n] by simp
  qed
qed

text \<open>\<open>best s nb X v\<close>: \<open>v\<close> is a smallest of the large chunks that hold \<open>nb\<close>.\<close>

definition best :: "malloc_state \<Rightarrow> size_t \<Rightarrow> (bindex \<Rightarrow> addr tree) \<Rightarrow> addr \<Rightarrow> bool" where
  "best s nb X v \<longleftrightarrow>
     v \<in> large_chunks X \<and> nb \<le> chunksize s v
       \<and> (\<forall>x\<in>large_chunks X. nb \<le> chunksize s x \<longrightarrow> chunksize s v \<le> chunksize s x)"

lemma sub_le: "nb \<le> a \<Longrightarrow> nb \<le> b \<Longrightarrow> a - nb \<le> b - nb \<longleftrightarrow> a \<le> b" for a b nb :: size_t
  by (simp add: word_le_nat_alt unat_sub) linarith

lemma sub_below: "nb \<le> a \<Longrightarrow> 0 < nb \<Longrightarrow> a - nb < - nb" for a nb :: size_t
proof -
  assume a: "nb \<le> a" "0 < nb"
  have "unat (- nb) = 2 ^ 64 - unat nb"
    using a(2) unat_sub_if_size [of 0 nb] by (simp add: word_size word_le_nat_alt word_less_nat_alt)
  then show ?thesis
    using a unsigned_less [of a, where ?'a = nat] by (simp add: word_less_nat_alt word_le_nat_alt unat_sub)
qed

lemma large_pos: "MIN_LARGE_SIZE \<le> nb \<Longrightarrow> 0 < nb"
  by (auto simp: dl_consts word_le_nat_alt word_less_nat_alt)

lemma large_chunk_nonzero: "tree_at s t T \<Longrightarrow> x \<in> set_tree T \<Longrightarrow> x \<noteq> 0"
  by (induction T arbitrary: t) auto

lemma large_chunksE:
  assumes "x \<in> large_chunks X"
  obtains i where "i < NTREEBINS" "x \<in> set_tree (X i)"
  using assms by (auto simp: large_chunks_def)

lemma other_bins:
  assumes "tree_bins s X" "MIN_LARGE_SIZE \<le> nb" "nb < 2 ^ 40" "i < NTREEBINS" "x \<in> set_tree (X i)"
  shows "i < compute_tree_index nb \<Longrightarrow> chunksize s x < nb" "compute_tree_index nb < i \<Longrightarrow> nb < chunksize s x"
proof -
  have "tree_bin s i (X i)" using assms(1,4) by (simp add: tree_bins_def)
  note b = tree_binD(4-6) [OF this assms(5)]
  show "i < compute_tree_index nb \<Longrightarrow> chunksize s x < nb" "compute_tree_index nb < i \<Longrightarrow> nb < chunksize s x"
    using bins_ordered b assms(2,3) by blast+
qed

lemma best_in_bin:
  assumes "tree_bins s X" "MIN_LARGE_SIZE \<le> nb" "nb < 2 ^ 40" "v \<in> set_tree (X (compute_tree_index nb))"
    "nb \<le> chunksize s v"
    "\<And>x. x \<in> set_tree (X (compute_tree_index nb)) \<Longrightarrow> nb \<le> chunksize s x \<Longrightarrow> chunksize s v \<le> chunksize s x"
  shows "best s nb X v"
proof -
  have idx: "compute_tree_index nb < NTREEBINS" using tree_index_in_bin [OF assms(2,3)] by blast
  then have bin: "tree_bin s (compute_tree_index nb) (X (compute_tree_index nb))" using assms(1) by (simp add: tree_bins_def)
  have "chunksize s v \<le> chunksize s x" if x: "i < NTREEBINS" "x \<in> set_tree (X i)" "nb \<le> chunksize s x" for i x
  proof -
    consider "i < compute_tree_index nb" | "i = compute_tree_index nb" | "compute_tree_index nb < i" by fastforce
    then show ?thesis
    proof cases
      case 1
      then show ?thesis using other_bins(1) [OF assms(1-3) x(1,2)] x(3) by simp
    next
      case 3
      have "tree_bin s i (X i)" using assms(1) x(1) by (simp add: tree_bins_def)
      note b = tree_binD(4-6) [OF this x(2)] and c = tree_binD(4-6) [OF bin assms(4)]
      have "chunksize s v < chunksize s x" using bins_ordered [OF c(2,3) b(2,3)] b(1) c(1) 3 by simp
      then show ?thesis by simp
    qed (use assms(6) x in blast)
  qed
  then show ?thesis
    using assms(4,5) idx by (auto simp: best_def large_chunks_def)
qed

lemma next_tree_best:
  assumes "tree_bins s X" "MIN_LARGE_SIZE \<le> nb" "nb < 2 ^ 40"
    "\<And>x. x \<in> set_tree (X (compute_tree_index nb)) \<Longrightarrow> chunksize s x < nb"
  shows "\<exists>v r. least_in_tree s nb (next_tree s (compute_tree_index nb)) 0 (- nb) = Some (v, r)
    \<and> (v \<noteq> 0 \<and> best s nb X v \<and> r = chunksize s v - nb \<or> v = 0 \<and> (\<forall>x\<in>large_chunks X. chunksize s x < nb))"
proof -
  define idx where "idx = compute_tree_index nb"
  have idx: "idx < 32" using tree_index_in_bin [OF assms(2,3)] unfolding idx_def NTREEBINS_def by blast
  have pos: "0 < nb" using assms(2) by (rule large_pos)
  have marked: "treemap s AND idx2bit i \<noteq> 0 \<longleftrightarrow> X i \<noteq> Leaf" if "i < 32" for i
    using assms(1) that by (simp add: tree_bins_def treemap_is_marked_def NTREEBINS_def)
  have fits: "idx < i" if "i < 32" "x \<in> set_tree (X i)" "nb \<le> chunksize s x" for i x
  proof -
    have "i \<noteq> idx" using assms(4) [of x] that(2,3) leD unfolding idx_def by blast
    moreover have "\<not> i < idx" using other_bins(1) [OF assms(1-3), of i x] that by (auto simp: NTREEBINS_def idx_def)
    ultimately show ?thesis by simp
  qed
  show ?thesis
  proof (cases "left_bits (idx2bit idx) AND treemap s = 0")
    case True
    have "X i = Leaf" if "i < 32" "idx < i" for i
    proof (rule ccontr)
      assume "X i \<noteq> Leaf"
      then have "bit (treemap s) (unat i)"
        using marked [OF that(1)] marked_bit [OF that(1)] by blast
      moreover have "bit (left_bits (idx2bit idx)) (unat i)"
        using bit_left_bits [OF idx] that by (simp add: word_less_nat_alt)
      ultimately have "bit (left_bits (idx2bit idx) AND treemap s) (unat i)" by (simp add: bit_and_iff)
      then show False using True by simp
    qed
    then have "\<forall>x\<in>large_chunks X. chunksize s x < nb"
      using fits by (force simp: large_chunks_def NTREEBINS_def not_le [symmetric])
    moreover have "least_in_tree s nb 0 0 (- nb) = Some (0, - nb)" by (subst least_in_tree.simps) simp
    ultimately show ?thesis using True by (simp add: next_tree_def idx_def)
  next
    case False
    define j where "j = compute_bit2idx (least_bit (left_bits (idx2bit idx) AND treemap s))"
    have j: "idx < j" "j < 32" "treemap s AND idx2bit j \<noteq> 0" "\<And>k. idx < k \<Longrightarrow> k < j \<Longrightarrow> treemap s AND idx2bit k = 0"
      using next_marked_bin [OF idx False] by (auto simp: j_def Let_def)
    have nt: "next_tree s idx = treebin s j" using False by (simp add: next_tree_def j_def)
    have bin: "tree_bin s j (X j)" using assms(1) j(2) by (simp add: tree_bins_def NTREEBINS_def)
    note b = tree_binD [OF bin]
    have big: "nb < chunksize s x" if "x \<in> set_tree (X j)" for x
      using other_bins(2) [OF assms(1-3), of j x] that j(1,2) by (simp add: NTREEBINS_def idx_def)
    obtain c where "same_above (chunksize s) (bin_bits j) c (X j)" using b(3) by blast
    then obtain v r where l: "least_in_tree s nb (treebin s j) 0 (- nb) = Some (v, r)"
      "\<forall>x\<in>set_tree (X j). r \<le> chunksize s x - nb"
      "v = 0 \<and> r = - nb \<or> v \<in> set_tree (X j) \<and> r = chunksize s v - nb \<and> r < - nb"
      using least_in_tree_min [OF b(1,2), of c nb 0 "- nb"] big by fastforce
    obtain y where y: "y \<in> set_tree (X j)" using marked [OF j(2)] j(3) by (cases "X j") auto
    have v: "v \<in> set_tree (X j)" "r = chunksize s v - nb"
      using l(2,3) y sub_below [OF less_imp_le [OF big [OF y]] pos] by fastforce+
    have least: "chunksize s v \<le> chunksize s x" if x: "i < 32" "x \<in> set_tree (X i)" "nb \<le> chunksize s x" for i x
    proof -
      have "\<not> i < j" using fits [OF x] j(4) marked [OF x(1)] x(2) by (cases "X i") auto
      then consider "i = j" | "j < i" by fastforce
      then show ?thesis
      proof cases
        case 1
        then show ?thesis using l(2) v x sub_le [of nb "chunksize s v" "chunksize s x"] big [OF v(1)] by auto
      next
        case 2
        have "tree_bin s i (X i)" using assms(1) x(1) by (simp add: tree_bins_def NTREEBINS_def)
        note d = tree_binD(4-6) [OF this x(2)]
        have "chunksize s v < chunksize s x"
          using bins_ordered [OF b(5) [OF v(1)] b(6) [OF v(1)] d(2,3)] b(4) [OF v(1)] d(1) 2 by simp
        then show ?thesis by simp
      qed
    qed
    have "best s nb X v"
      using v(1) big least j(2) by (auto simp: best_def large_chunks_def NTREEBINS_def intro: less_imp_le)
    then show ?thesis
      using l(1) v large_chunk_nonzero [OF b(1) v(1)] nt by (auto simp: idx_def)
  qed
qed

text \<open>What the searches of \<open>tmalloc_large\<close> leave, the loop over the tree of the index first\<close>

lemma large_search_best:
  assumes "tree_bins s X" "MIN_LARGE_SIZE \<le> nb" "nb < 2 ^ 40" "idx = compute_tree_index nb"
    "P = (if treebin s idx \<noteq> 0
      then tree_search s nb (treebin s idx) (push_bit (leftshift_for_tree_index idx) nb) 0 0 (- nb)
      else Some (0, - nb, 0))"
  shows "\<exists>v r t v' r'. P = Some (v, r, t)
    \<and> least_in_tree s nb (if t = 0 \<and> v = 0 then next_tree s idx else t) v r = Some (v', r')
    \<and> (v' \<noteq> 0 \<and> best s nb X v' \<and> r' = chunksize s v' - nb \<or> v' = 0 \<and> (\<forall>x\<in>large_chunks X. chunksize s x < nb))"
proof -
  have pos: "0 < nb" using assms(2) by (rule large_pos)
  have outcome: ?thesis
    if "P = Some (v, r, t)" "least_in_tree s nb (if t = 0 \<and> v = 0 then next_tree s idx else t) v r = Some (v', r')"
      "v' \<noteq> 0 \<and> best s nb X v' \<and> r' = chunksize s v' - nb \<or> v' = 0 \<and> (\<forall>x\<in>large_chunks X. chunksize s x < nb)"
    for v r t v' r'
    using that by blast
  have none: ?thesis if none0: "P = Some (0, - nb, 0)" and low: "\<And>x. x \<in> set_tree (X idx) \<Longrightarrow> chunksize s x < nb"
  proof -
    obtain v' r' where "least_in_tree s nb (next_tree s idx) 0 (- nb) = Some (v', r')"
      "v' \<noteq> 0 \<and> best s nb X v' \<and> r' = chunksize s v' - nb \<or> v' = 0 \<and> (\<forall>x\<in>large_chunks X. chunksize s x < nb)"
      using next_tree_best [OF assms(1-3)] low unfolding assms(4) by blast
    then show ?thesis by (intro outcome [OF none0, of v' r']) simp_all
  qed
  have i: "idx < NTREEBINS" using tree_index_in_bin [OF assms(2,3)] unfolding assms(4) by blast
  then have bin: "tree_bin s idx (X idx)" using assms(1) by (simp add: tree_bins_def)
  note b = tree_binD [OF bin]
  have least0: "least_in_tree s nb 0 v r = Some (v, r)" for v r by (subst least_in_tree.simps) simp
  show ?thesis
  proof (cases "X idx = Leaf")
    case True
    then show ?thesis using tree_at_zero [OF b(1)] by (intro none) (simp_all add: assms(5))
  next
    case False
    have ab: "same_above (chunksize s) (bin_bits idx) nb (X idx)"
      using bin_same_above b(4-6) assms(2,3) unfolding same_above_def assms(4) by metis
    obtain v r t where P: "P = Some (v, r, t)" "search_result s nb (X idx) 0 0 (- nb) (v, r, t)"
    proof -
      have "P = tree_search s nb (treebin s idx) (push_bit (64 - bin_bits idx) nb) 0 0 (- nb)"
        using False tree_at_zero [OF b(1)] bin_bits_le [OF i] by (simp add: assms(5))
      then show thesis
        using that tree_search_spec [OF b(1) False b(2) ab _ _ pos, of "- nb" 0 0] bin_bits_le [OF i] by auto
    qed
    have v: "v = 0 \<and> r = - nb \<or> v \<noteq> 0 \<and> v \<in> set_tree (X idx) \<and> nb \<le> chunksize s v \<and> r = chunksize s v - nb"
      using P(2) large_chunk_nonzero [OF b(1)] by (auto simp: search_result_def)
    have nfit: "\<not> nb \<le> chunksize s x" if "- nb \<le> chunksize s x - nb" for x
      using sub_below [OF _ pos, of "chunksize s x"] that leD by blast
    note inbin = best_in_bin [OF assms(1-3), folded assms(4)]
    consider (exact) R where "r = 0" "tree_at s t R"
      | (old) "t = 0" "\<forall>x\<in>set_tree (X idx). nb \<le> chunksize s x \<longrightarrow> r \<le> chunksize s x - nb"
      | (new) R j c where "R \<noteq> Leaf" "tree_at s t R" "trie_ok (chunksize s) j R" "same_above (chunksize s) j c R"
          "set_tree R \<subseteq> set_tree (X idx)" "\<forall>x\<in>set_tree R. nb < chunksize s x"
          "\<forall>x\<in>set_tree (X idx). nb \<le> chunksize s x \<longrightarrow>
             r \<le> chunksize s x - nb \<or> (\<exists>y\<in>set_tree R. chunksize s y \<le> chunksize s x)"
      using P(2) unfolding search_result_def prod.case by blast
    then show ?thesis
    proof cases
      case exact
      then have v': "v \<noteq> 0" "v \<in> set_tree (X idx)" "chunksize s v = nb" using v pos by auto
      then have "best s nb X v" using inbin by simp
      then show ?thesis
        using least_in_tree_exact [OF exact(2)] v' exact(1) by (intro outcome [OF P(1), of v 0]) simp_all
    next
      case old
      show ?thesis
      proof (cases "v = 0")
        case True
        then show ?thesis
          using P(1) old v nfit by (intro none) (auto simp: not_le [symmetric])
      next
        case nz: False
        then have "best s nb X v" using v old(2) inbin sub_le by auto
        then show ?thesis using least0 nz v old(1) by (intro outcome [OF P(1), of v r]) simp_all
      qed
    next
      case new
      have t: "t \<noteq> 0" using new(1) tree_at_zero [OF new(2)] by simp
      obtain v' r' where l: "least_in_tree s nb t v r = Some (v', r')" "r' \<le> r"
        "\<forall>x\<in>set_tree R. r' \<le> chunksize s x - nb"
        "v' = v \<and> r' = r \<or> v' \<in> set_tree R \<and> r' = chunksize s v' - nb \<and> r' < r"
        using least_in_tree_min [OF new(2-4), of nb v r] new(6) by (auto intro: less_imp_le)
      obtain y where y: "y \<in> set_tree R" using new(1) by (cases R) auto
      have v': "v' \<noteq> 0" "v' \<in> set_tree (X idx)" "nb \<le> chunksize s v'" "r' = chunksize s v' - nb"
        using l(3,4) v y new(5,6) sub_below [OF less_imp_le pos, of "chunksize s y"] large_chunk_nonzero [OF b(1)]
        by fastforce+
      have "chunksize s v' \<le> chunksize s x" if x: "x \<in> set_tree (X idx)" "nb \<le> chunksize s x" for x
      proof -
        have "r' \<le> chunksize s x - nb"
        proof (cases "r \<le> chunksize s x - nb")
          case False
          then obtain z where z: "z \<in> set_tree R" "chunksize s z \<le> chunksize s x" using new(7) x by blast
          then have "r' \<le> chunksize s z - nb" "nb \<le> chunksize s z" using l(3) new(6) by (auto intro: less_imp_le)
          then show ?thesis using sub_le [of nb "chunksize s z" "chunksize s x"] z(2) x(2) by simp
        qed (use l(2) in simp)
        then show ?thesis using v' x(2) sub_le by simp
      qed
      then have "best s nb X v'" using v' inbin by blast
      then show ?thesis using l(1) t v' by (intro outcome [OF P(1), of v' r']) simp_all
    qed
  qed
qed

text \<open>
  A large request is served from the best fit: among the chunks of all trees that hold it,
  \<open>tmalloc_large\<close> takes one of the smallest, unless the designated victim fits better; when none holds
  it, it returns 0. The searches end and change nothing.
\<close>

lemma tmalloc_large_best_fit:
  assumes "tree_bins s X" "MIN_LARGE_SIZE \<le> nb" "nb < 2 ^ 40"
  shows "(\<exists>v. best s nb X v \<and> tmalloc_large nb s =
        (if chunksize s v - nb < dvsize s - nb then take_large nb v (chunksize s v - nb) insert_chunk s
         else Ret (0, s)))
    \<or> (\<forall>x\<in>large_chunks X. chunksize s x < nb) \<and> tmalloc_large nb s = Ret (0, s)"
proof -
  obtain v r t v' r' where l: "least_in_tree s nb (if t = 0 \<and> v = 0 then next_tree s (compute_tree_index nb) else t) v r
      = Some (v', r')"
    "v' \<noteq> 0 \<and> best s nb X v' \<and> r' = chunksize s v' - nb \<or> v' = 0 \<and> (\<forall>x\<in>large_chunks X. chunksize s x < nb)"
    and e: "tmalloc_large nb s =
      (if v' \<noteq> 0 \<and> r' < dvsize s - nb then take_large nb v' r' insert_chunk s else Ret (0, s))"
    using large_search_best [OF assms refl refl] unfolding tmalloc_large_def Let_def by fastforce
  from l(2) show ?thesis
  proof
    assume "v' \<noteq> 0 \<and> best s nb X v' \<and> r' = chunksize s v' - nb"
    then show ?thesis using e by (intro disjI1 exI [of _ v']) simp
  qed (simp add: e)
qed

text \<open>
  A small request that reaches the trees is served from the smallest chunk of all trees; what is
  left of it becomes the designated victim.
\<close>

lemma tmalloc_small_best_fit:
  assumes "tree_bins s X" "treemap s \<noteq> 0" "0 < nb" "nb \<le> MIN_LARGE_SIZE"
  shows "\<exists>v. best s nb X v \<and> (\<forall>x\<in>large_chunks X. chunksize s v \<le> chunksize s x)
    \<and> tmalloc_small nb s = take_large nb v (chunksize s v - nb) replace_dv s"
proof -
  define j where "j = compute_bit2idx (least_bit (treemap s))"
  note bits = compute_bit2idx_least [OF assms(2)]
  have j: "j < NTREEBINS" "bit (treemap s) (unat j)" "\<And>i. bit (treemap s) i \<Longrightarrow> unat j \<le> i"
  proof -
    have j: "j = compute_bit2idx (treemap s)" using conjunct2 [OF conjunct2 [OF conjunct2 [OF conjunct2 [OF bits]]]]
      unfolding j_def .
    show "j < NTREEBINS" using bits unfolding j NTREEBINS_def by (elim conjE)
    show "bit (treemap s) (unat j)" using bits unfolding j by (elim conjE)
    show "bit (treemap s) i \<Longrightarrow> unat j \<le> i" for i using conjunct1 [OF conjunct2 [OF bits]] unfolding j by blast
  qed
  have marked: "bit (treemap s) (unat i) \<longleftrightarrow> X i \<noteq> Leaf" if "i < NTREEBINS" for i
  proof -
    have "treemap s AND idx2bit i \<noteq> 0 \<longleftrightarrow> bit (treemap s) (unat i)"
      using marked_bit that by (simp add: NTREEBINS_def)
    then show ?thesis using assms(1) that by (simp add: tree_bins_def treemap_is_marked_def)
  qed
  have bin: "tree_bin s j (X j)" using assms(1) j(1) by (simp add: tree_bins_def)
  note b = tree_binD [OF bin]
  have fit: "nb \<le> chunksize s x" if "x \<in> set_tree (X j)" for x using b(5) [OF that] assms(4) by simp
  obtain c where "same_above (chunksize s) (bin_bits j) c (X j)" using b(3) by blast
  then obtain v r where l: "least_in_tree s nb (treebin s j) 0 (- nb) = Some (v, r)"
    "\<forall>x\<in>set_tree (X j). r \<le> chunksize s x - nb"
    "v = 0 \<and> r = - nb \<or> v \<in> set_tree (X j) \<and> r = chunksize s v - nb \<and> r < - nb"
    using least_in_tree_min [OF b(1,2), of c nb 0 "- nb"] fit by fastforce
  obtain y where y: "y \<in> set_tree (X j)" "y = treebin s j"
    using marked [OF j(1)] j(2) b(1) by (cases "X j") auto
  have v: "v \<in> set_tree (X j)" "r = chunksize s v - nb"
    using l(2,3) y(1) sub_below [OF fit [OF y(1)] assms(3)] by fastforce+
  have least: "chunksize s v \<le> chunksize s x" if x: "i < NTREEBINS" "x \<in> set_tree (X i)" for i x
  proof (cases "i = j")
    case True
    then show ?thesis using l(2) v x sub_le [of nb "chunksize s v" "chunksize s x"] fit by auto
  next
    case False
    have "unat j \<le> unat i" using j(3) marked [OF x(1)] x(2) by (cases "X i") auto
    then have "j < i" using False by (simp add: word_less_nat_alt word_unat_eq_iff)
    have "tree_bin s i (X i)" using assms(1) x(1) by (simp add: tree_bins_def)
    note d = tree_binD(4-6) [OF this x(2)]
    have "chunksize s v < chunksize s x"
      using bins_ordered [OF b(5) [OF v(1)] b(6) [OF v(1)] d(2,3)] b(4) [OF v(1)] d(1) \<open>j < i\<close> by simp
    then show ?thesis by simp
  qed
  have "least_in_tree s nb (leftmost_child s (treebin s j)) (treebin s j) (chunksize s (treebin s j) - nb) = Some (v, r)"
    using l(1) large_chunk_nonzero [OF b(1) y(1)] sub_below [OF fit [OF y(1)] assms(3)] unfolding y(2)
    by (subst (asm) least_in_tree.simps) simp
  then have "tmalloc_small nb s = take_large nb v (chunksize s v - nb) replace_dv s"
    by (simp add: tmalloc_small_def Let_def j_def [symmetric] v(2))
  then show ?thesis
    using v(1) fit least j(1) by (intro exI [of _ v]) (auto simp: best_def large_chunks_def)
qed

end
