(* ===== verification/Dl_Lists.thy ===== *)
theory Dl_Lists
  imports Dl_Bins Dl_Index
begin

unbundle bit_operations_syntax

text \<open>
  The small bins refine a family of lists, one for each index: \<open>insert_small_chunk\<close> puts a chunk at
  the front, \<open>unlink_small_chunk\<close> and \<open>unlink_first_small_chunk\<close> take one out, every check
  passes, and the other bins stay as they are. The link of an empty bin is not maintained, only
  its bit in \<open>smallmap\<close>.
\<close>

section \<open>Circular lists in memory\<close>

fun linked :: "malloc_state \<Rightarrow> addr list \<Rightarrow> bool" where
  "linked s (a # b # r) \<longleftrightarrow> fd s a = b \<and> bk s b = a \<and> linked s (b # r)"
| "linked s _ \<longleftrightarrow> True"

text \<open>No node's \<open>fd\<close> is another's \<open>bk\<close>.\<close>

definition links_apart :: "addr set \<Rightarrow> bool" where
  "links_apart ns \<longleftrightarrow> (\<forall>x\<in>ns. \<forall>y\<in>ns. x \<noteq> y + 8)"

lemma links_apart_neq:
  "links_apart ns \<Longrightarrow> x \<in> ns \<Longrightarrow> y \<in> ns \<Longrightarrow> x + 16 \<noteq> y + 24 \<and> y + 24 \<noteq> x + 16"
proof -
  assume a: "links_apart ns" "x \<in> ns" "y \<in> ns"
  have "x + 16 = y + 24 \<longleftrightarrow> x = y + 8"
  proof -
    have "y + 24 = (y + 8) + 16" by simp
    then show ?thesis by (simp only: add_right_cancel)
  qed
  then show ?thesis using a by (auto simp: links_apart_def)
qed

lemma fd_simps [simp]:
  "fd (set_fd p v s) q = (if q = p then v else fd s q)"
  "bk (set_bk p v s) q = (if q = p then v else bk s q)"
  by (auto simp: dl_fields)

lemma fd_bk_apart:
  assumes "links_apart ns" "p \<in> ns" "q \<in> ns"
  shows "fd (set_bk p v s) q = fd s q" "bk (set_fd p v s) q = bk s q"
  using links_apart_neq [OF assms(1)] assms(2,3) by (auto simp: dl_fields)

lemma linked_append:
  "linked s (xs @ b # ys) \<longleftrightarrow> linked s (xs @ [b]) \<and> linked s (b # ys)"
proof (induction xs)
  case (Cons a xs)
  then show ?case by (cases xs) auto
qed simp

lemma linked_cong:
  assumes "\<And>x. x \<in> set (butlast xs) \<Longrightarrow> fd s' x = fd s x" "\<And>x. x \<in> set (tl xs) \<Longrightarrow> bk s' x = bk s x"
  shows "linked s' xs \<longleftrightarrow> linked s xs"
  using assms
proof (induction s xs rule: linked.induct)
  case (1 s a b r)
  have "linked s' (b # r) \<longleftrightarrow> linked s (b # r)"
  proof (rule "1.IH")
    show "fd s' x = fd s x" if "x \<in> set (butlast (b # r))" for x using 1(2) that by simp
    show "bk s' x = bk s x" if "x \<in> set (tl (b # r))" for x using 1(3) that by simp
  qed
  with 1 show ?case by auto
qed auto


section \<open>One bin\<close>

definition small_bin :: "malloc_state \<Rightarrow> bindex \<Rightarrow> addr list \<Rightarrow> bool" where
  "small_bin s i xs \<longleftrightarrow>
     (let B = smallbin_at s i
      in (xs \<noteq> [] \<longrightarrow> linked s (B # xs @ [B])) \<and> distinct (B # xs) \<and> links_apart (set (B # xs))
           \<and> (smallmap_is_marked s i \<longleftrightarrow> xs \<noteq> []) \<and> (\<forall>x\<in>set xs. ok_address s x))"

lemma linked_insert:
  assumes "linked s (B # F # r)" "distinct (P # B # butlast (F # r))" "last (F # r) = B"
    "links_apart N" "set (P # B # F # r) \<subseteq> N"
  shows "linked (link_small B F P s) (B # P # F # r)"
proof -
  let ?t = "link_small B F P s"
  have whole: "F # r = butlast (F # r) @ [B]"
    using assms(3) by (metis append_butlast_last_id list.distinct(1))
  then have "set (F # r) = insert B (set (butlast (F # r)))"
    by (metis Un_insert_right list.simps(15) set_append sup_bot_right empty_set)
  then have "P \<notin> set (F # r)" using assms(2) by auto
  then have "P \<noteq> B" "P \<noteq> F" using assms(2) by auto
  have N: "P \<in> N" "B \<in> N" "F \<in> N" using assms(5) by auto
  note apart = fd_bk_apart [OF assms(4)]
  have fd: "fd ?t x = (if x = P then F else if x = B then P else fd s x)" if "x \<in> N" for x
    using that N \<open>P \<noteq> B\<close> by (simp add: link_small_def apart)
  have bk: "bk ?t x = (if x = P then B else if x = F then P else bk s x)" if "x \<in> N" for x
    using that N \<open>P \<noteq> F\<close> by (simp add: link_small_def apart)
  have "linked ?t (F # r) \<longleftrightarrow> linked s (F # r)"
  proof (rule linked_cong)
    fix x
    assume x: "x \<in> set (butlast (F # r))"
    then have "x \<noteq> P" "x \<noteq> B" using assms(2) by (auto simp del: butlast.simps)
    moreover have "x \<in> N" using in_set_butlastD [OF x] assms(5) by auto
    ultimately show "fd ?t x = fd s x" using fd by auto
  next
    fix x
    assume x: "x \<in> set (tl (F # r))"
    have "distinct (butlast (F # r) @ [B])"
      using assms(2) by (simp del: butlast.simps)
    then have "distinct (F # r)" using whole by metis
    then have "x \<noteq> F" "x \<noteq> P" "x \<in> N" using x \<open>P \<notin> set (F # r)\<close> assms(5) by auto
    then show "bk ?t x = bk s x" using bk by auto
  qed
  then show ?thesis
    using assms(1) fd bk N \<open>P \<noteq> B\<close> \<open>P \<noteq> F\<close> by auto
qed

lemma marked_mark:
  assumes "i < 32" "j < 32"
  shows "smallmap_is_marked (mark_smallmap i s) j \<longleftrightarrow> j = i \<or> smallmap_is_marked s j"
    "smallmap_is_marked (clear_smallmap i s) j \<longleftrightarrow> j \<noteq> i \<and> smallmap_is_marked s j"
proof -
  have m: "m AND idx2bit k \<noteq> 0 \<longleftrightarrow> bit m (unat k)" if "k < 32" for k and m :: binmap
  proof -
    have "m AND idx2bit k \<noteq> 0 \<longleftrightarrow> (\<exists>n. bit (m AND idx2bit k) n)"
      using bit_eq_iff [of "m AND idx2bit k" 0] by (metis bit_imp_le_length bit_0_eq bot_apply bot_bool_def)
    then show ?thesis
      using that by (auto simp: bit_simps bit_idx2bit word_less_nat_alt)
  qed
  show "smallmap_is_marked (mark_smallmap i s) j \<longleftrightarrow> j = i \<or> smallmap_is_marked s j"
    using assms word_unat_eq_iff [of i j]
    by (auto simp: smallmap_is_marked_def mark_smallmap_def m bit_simps bit_idx2bit word_less_nat_alt)
  show "smallmap_is_marked (clear_smallmap i s) j \<longleftrightarrow> j \<noteq> i \<and> smallmap_is_marked s j"
    using assms word_unat_eq_iff [of i j]
    by (auto simp: smallmap_is_marked_def clear_smallmap_def m bit_simps bit_idx2bit word_less_nat_alt)
qed

definition unlink_between :: "addr \<Rightarrow> addr \<Rightarrow> malloc_state \<Rightarrow> malloc_state" where
  "unlink_between B F s = set_fd B F (set_bk F B s)"

lemma linked_mem:
  "linked s (xs @ a # b # ys) \<Longrightarrow> fd s a = b \<and> bk s b = a"
  by (induction xs rule: induct_list012) auto

lemma linked_remove:
  assumes "linked s (xs @ A # P # C # ys)" "distinct (butlast (xs @ A # P # C # ys))"
    "distinct (tl (xs @ A # P # C # ys))"
    "links_apart N" "set (xs @ A # P # C # ys) \<subseteq> N"
  shows "linked (unlink_between A C s) (xs @ A # C # ys)"
proof -
  let ?t = "unlink_between A C s"
  have N: "A \<in> N" "C \<in> N" using assms(5) by auto
  note apart = fd_bk_apart [OF assms(4)]
  have fd: "fd ?t x = (if x = A then C else fd s x)" if "x \<in> N" for x
    using that N by (simp add: unlink_between_def apart)
  have bk: "bk ?t x = (if x = C then A else bk s x)" if "x \<in> N" for x
    using that N by (simp add: unlink_between_def apart)
  have "linked s ((xs @ [A, P]) @ C # ys)" using assms(1) by simp
  then have s: "linked s (xs @ [A])" "linked s (C # ys)"
    using assms(1) linked_append [of s xs A "P # C # ys"] linked_append [of s "xs @ [A, P]" C ys] by blast+
  have 1: "linked ?t (xs @ [A]) \<longleftrightarrow> linked s (xs @ [A])"
  proof (rule linked_cong)
    fix x
    assume "x \<in> set (butlast (xs @ [A]))"
    then have "x \<in> set xs" by simp
    then have "x \<noteq> A" "x \<in> N" using assms(2,5) by (auto simp: butlast_append)
    then show "fd ?t x = fd s x" using fd by auto
  next
    fix x
    assume x: "x \<in> set (tl (xs @ [A]))"
    then have "x \<noteq> C" using assms(3) by (cases xs) auto
    moreover have "x \<in> N" using x assms(5) by (cases xs) auto
    ultimately show "bk ?t x = bk s x" using bk by auto
  qed
  have 2: "linked ?t (C # ys) \<longleftrightarrow> linked s (C # ys)"
  proof (rule linked_cong)
    fix x
    assume x: "x \<in> set (butlast (C # ys))"
    then have "x \<noteq> A" using assms(2) by (auto simp: butlast_append split: if_splits)
    moreover have "x \<in> N" using in_set_butlastD [OF x] assms(5) by auto
    ultimately show "fd ?t x = fd s x" using fd by auto
  next
    fix x
    assume x: "x \<in> set (tl (C # ys))"
    then have "x \<noteq> C" using assms(3) by (cases xs) auto
    moreover have "x \<in> N" using x assms(5) by auto
    ultimately show "bk ?t x = bk s x" using bk by auto
  qed
  show ?thesis
    unfolding linked_append [of ?t xs A "C # ys"]
    using 1 2 s fd [OF N(1)] bk [OF N(2)] by simp
qed

section \<open>All bins\<close>

text \<open>The address of a chunk lies in no other bin; the nodes of all bins are apart.\<close>

definition bin_nodes :: "malloc_state \<Rightarrow> (bindex \<Rightarrow> addr list) \<Rightarrow> addr set" where
  "bin_nodes s X = (\<Union>i\<in>{i. i < NSMALLBINS}. insert (smallbin_at s i) (set (X i)))"

definition small_bins :: "malloc_state \<Rightarrow> (bindex \<Rightarrow> addr list) \<Rightarrow> bool" where
  "small_bins s X \<longleftrightarrow>
     (\<forall>i < NSMALLBINS. small_bin s i (X i))
       \<and> (\<forall>i < NSMALLBINS. \<forall>j < NSMALLBINS. i \<noteq> j \<longrightarrow>
            set (smallbin_at s i # X i) \<inter> set (smallbin_at s j # X j) = {})
       \<and> links_apart (bin_nodes s X)"

lemma linked_other:
  assumes "linked s xs" "set xs \<subseteq> N" "links_apart N"
    "\<And>x. x \<in> N \<Longrightarrow> x \<in> set xs \<Longrightarrow> fd s' x = fd s x \<and> bk s' x = bk s x"
  shows "linked s' xs"
proof -
  have "linked s' xs \<longleftrightarrow> linked s xs"
  proof (rule linked_cong)
    show "fd s' x = fd s x" if "x \<in> set (butlast xs)" for x
      using assms(2,4) in_set_butlastD [OF that] by blast
    show "bk s' x = bk s x" if "x \<in> set (tl xs)" for x
      using assms(2,4) list.set_sel(2) [of xs x] that by (cases xs) auto
  qed
  with assms(1) show ?thesis by simp
qed

lemma smallbin_at_heap [simp]:
  "smallbin_at (link_small B F P s) i = smallbin_at s i"
  "smallbin_at (unlink_between A C s) i = smallbin_at s i"
  "smallbin_at (mark_smallmap k s) i = smallbin_at s i"
  "smallbin_at (clear_smallmap k s) i = smallbin_at s i"
  by (simp_all add: smallbin_at_def link_small_def unlink_between_def dl_fields mark_smallmap_def clear_smallmap_def)

lemma fd_map [simp]:
  "fd (mark_smallmap k s) x = fd s x" "bk (mark_smallmap k s) x = bk s x"
  "fd (clear_smallmap k s) x = fd s x" "bk (clear_smallmap k s) x = bk s x"
  "ok_address (mark_smallmap k s) = ok_address s" "ok_address (clear_smallmap k s) = ok_address s"
  "ok_address (link_small B F P s) = ok_address s" "ok_address (unlink_between A C s) = ok_address s"
  "smallmap_is_marked (link_small B F P s) = smallmap_is_marked s"
  "smallmap_is_marked (unlink_between A C s) = smallmap_is_marked s"
  by (simp_all add: fun_eq_iff smallmap_is_marked_def ok_address_def link_small_def unlink_between_def dl_fields mark_smallmap_def clear_smallmap_def)

lemma linked_map [simp]:
  "linked (mark_smallmap k s) xs = linked s xs" "linked (clear_smallmap k s) xs = linked s xs"
  by (rule linked_cong; simp)+

lemma link_small_other:
  assumes "links_apart N" "B \<in> N" "F \<in> N" "P \<in> N" "x \<in> N" "x \<notin> {B, F, P}"
  shows "fd (link_small B F P s) x = fd s x" "bk (link_small B F P s) x = bk s x"
  using fd_bk_apart [OF assms(1)] assms(2-) by (auto simp: link_small_def)

lemma unlink_between_other:
  assumes "links_apart N" "A \<in> N" "C \<in> N" "x \<in> N" "x \<notin> {A, C}"
  shows "fd (unlink_between A C s) x = fd s x" "bk (unlink_between A C s) x = bk s x"
  using fd_bk_apart [OF assms(1)] assms(2-) by (auto simp: unlink_between_def)

lemma links_apart_mono: "links_apart N \<Longrightarrow> M \<subseteq> N \<Longrightarrow> links_apart M"
  by (auto simp: links_apart_def)

lemma small_index_less: "is_small S \<Longrightarrow> small_index S < NSMALLBINS"
proof -
  assume "is_small S"
  then have "unat (drop_bit SMALLBIN_SHIFT S) < 32"
    by (simp add: is_small_def NSMALLBINS_def word_less_nat_alt)
  then show ?thesis
    by (simp add: small_index_def NSMALLBINS_def word_less_nat_alt unsigned_ucast_eq take_bit_nat_eq_self)
qed

lemma mark_idem: "i < 32 \<Longrightarrow> smallmap_is_marked s i \<Longrightarrow> mark_smallmap i s = s"
proof -
  assume i: "i < 32" and m: "smallmap_is_marked s i"
  then obtain n where "bit (smallmap s AND idx2bit i) n"
    using bit_eq_iff [of "smallmap s AND idx2bit i" 0] by (auto simp: smallmap_is_marked_def)
  then have b: "bit (smallmap s) (unat i)" by (auto simp: bit_simps bit_idx2bit)
  have "smallmap s OR idx2bit i = smallmap s"
    by (rule bit_word_eqI) (use b in \<open>auto simp: bit_simps bit_idx2bit\<close>)
  then show ?thesis by (simp add: mark_smallmap_def)
qed

lemma small_bins_disjoint:
  assumes "small_bins s X" "j < NSMALLBINS" "k < NSMALLBINS" "j \<noteq> k"
  shows "set (smallbin_at s j # X j) \<inter> set (smallbin_at s k # X k) = {}"
  using assms unfolding small_bins_def by blast

lemma small_bins_step:
  assumes "small_bins s X" "i < NSMALLBINS" "small_bin s' i xs" "smallbin_at s' = smallbin_at s"
    "set xs \<subseteq> insert P (set (X i))" "P \<notin> bin_nodes s X \<or> P \<in> set (X i)"
    "links_apart (insert P (bin_nodes s X))"
    "\<And>j. j < NSMALLBINS \<Longrightarrow> j \<noteq> i \<Longrightarrow> small_bin s' j (X j)"
  shows "small_bins s' (X(i := xs))"
proof -
  have sub: "set (smallbin_at s j # X j) \<subseteq> bin_nodes s X" if "j < NSMALLBINS" for j
    using that by (auto simp: bin_nodes_def)
  have disj: "set (smallbin_at s j # X j) \<inter> set (smallbin_at s k # X k) = {}"
    if "j < NSMALLBINS" "k < NSMALLBINS" "j \<noteq> k" for j k
    by (rule small_bins_disjoint [OF assms(1) that])
  have "P \<notin> set (smallbin_at s j # X j)" if "j < NSMALLBINS" "j \<noteq> i" for j
    using assms(6) sub [OF that(1)] disj [OF that(1) assms(2) that(2)] by auto
  then have "set (smallbin_at s j # X j) \<inter> set (smallbin_at s i # xs) = {}" if "j < NSMALLBINS" "j \<noteq> i" for j
    using disj [OF that(1) assms(2) that(2)] assms(5) that by auto
  then have "set (smallbin_at s' j # (X(i := xs)) j) \<inter> set (smallbin_at s' k # (X(i := xs)) k) = {}"
    if "j < NSMALLBINS" "k < NSMALLBINS" "j \<noteq> k" for j k
    using disj [OF that] that assms(4) by (simp add: fun_upd_def) blast
  moreover have "bin_nodes s' (X(i := xs)) \<subseteq> insert P (bin_nodes s X)"
    using assms(2,4,5) by (auto simp: bin_nodes_def split: if_splits)
  then have "links_apart (bin_nodes s' (X(i := xs)))"
    by (rule links_apart_mono [OF assms(7)])
  moreover have "small_bin s' j ((X(i := xs)) j)" if "j < NSMALLBINS" for j
    using assms(3,8) that by simp
  ultimately show ?thesis unfolding small_bins_def by blast
qed

lemma small_bin_other:
  assumes "small_bins s X" "j < NSMALLBINS" "links_apart N" "bin_nodes s X \<subseteq> N"
    "smallbin_at s' = smallbin_at s" "smallmap_is_marked s' j = smallmap_is_marked s j"
    "ok_address s' = ok_address s"
    "\<And>x. x \<in> N \<Longrightarrow> x \<in> set (smallbin_at s j # X j) \<Longrightarrow> fd s' x = fd s x \<and> bk s' x = bk s x"
  shows "small_bin s' j (X j)"
proof -
  have b: "small_bin s j (X j)" and sub: "set (smallbin_at s j # X j) \<subseteq> N"
    using assms(1,2,4) by (auto simp: small_bins_def bin_nodes_def)
  have "linked s' (smallbin_at s j # X j @ [smallbin_at s j])"
    if "linked s (smallbin_at s j # X j @ [smallbin_at s j])"
    by (rule linked_other [OF that _ assms(3)]) (use sub assms(8) in auto)
  then show ?thesis
    using b assms(5,6,7) by (auto simp: small_bin_def Let_def)
qed

lemma insert_small_chunk_refines:
  assumes "small_bins s X" "is_small S" "i = small_index S"
    "P \<notin> bin_nodes s X" "links_apart (insert P (bin_nodes s X))" "ok_address s P"
  shows "\<exists>s'. insert_small_chunk P S s = Ret s' \<and> small_bins s' (X(i := P # X i))"
proof -
  have i: "i < NSMALLBINS" using small_index_less assms(2,3) by simp
  then have i32: "i < 32" by (simp add: NSMALLBINS_def)
  let ?B = "smallbin_at s i"
  let ?N = "insert P (bin_nodes s X)"
  define F where "F = hd (X i @ [?B])"
  define r where "r = tl (X i @ [?B])"
  define s1 where "s1 = link_small ?B F P (mark_smallmap i s)"
  have bin: "small_bin s i (X i)"
    using assms(1) i by (simp add: small_bins_def)
  have sub: "set (?B # X i) \<subseteq> bin_nodes s X"
    using i by (auto simp: bin_nodes_def)
  have Fr: "F # r = X i @ [?B]" by (simp add: F_def r_def)
  then have "set (F # r) \<subseteq> ?N" using sub by auto
  then have N: "?B \<in> ?N" "F \<in> ?N" "P \<in> ?N" "set (P # ?B # F # r) \<subseteq> ?N" using sub by auto
  have PB: "P \<noteq> ?B" using assms(4) sub by auto
  have ins: "insert_small_chunk P S s = Ret s1"
  proof (cases "X i")
    case Nil
    then show ?thesis
      using bin by (simp add: insert_small_chunk_def Let_def small_bin_def s1_def F_def flip: assms(3))
  next
    case (Cons x xs)
    then have "fd s ?B = x" "ok_address s x" "smallmap_is_marked s i"
      using bin by (auto simp: small_bin_def Let_def)
    then show ?thesis
      using Cons by (simp add: insert_small_chunk_def Let_def s1_def F_def mark_idem [OF i32] flip: assms(3))
  qed
  have l: "linked s1 (?B # P # F # r)"
  proof (cases "X i")
    case Nil
    then have "F = ?B" "r = []" by (simp_all add: F_def r_def)
    then show ?thesis
      using fd_bk_apart [OF assms(5)] N PB by (simp add: s1_def link_small_def)
  next
    case (Cons x xs)
    have "linked s (?B # F # r)"
      using bin Cons Fr by (simp add: small_bin_def Let_def)
    moreover have "distinct (P # ?B # butlast (F # r))"
      unfolding Fr using bin assms(4) sub by (auto simp: small_bin_def Let_def)
    moreover have "last (F # r) = ?B" unfolding Fr by simp
    ultimately show ?thesis
      unfolding s1_def using assms(5) N(4) by (intro linked_insert) auto
  qed
  have "small_bin s1 i (P # X i)"
    unfolding small_bin_def Let_def
    using l bin assms(4,6) sub PB N links_apart_mono [OF assms(5), of "set (?B # P # X i)"] i32
    by (auto simp: s1_def Fr marked_mark small_bin_def Let_def)
  moreover have "small_bin s1 j (X j)" if "j < NSMALLBINS" "j \<noteq> i" for j
  proof (rule small_bin_other [OF assms(1) that(1) assms(5)])
    fix x
    assume "x \<in> set (smallbin_at s j # X j)" "x \<in> ?N"
    moreover have "set (smallbin_at s j # X j) \<inter> set (?B # X i) = {}"
      by (rule small_bins_disjoint [OF assms(1) that(1) i that(2)])
    moreover have "F \<in> set (?B # X i)" by (cases "X i") (auto simp: F_def)
    moreover have "P \<notin> set (smallbin_at s j # X j)"
      using assms(4) that by (auto simp: bin_nodes_def)
    ultimately have "x \<notin> {?B, F, P}" "x \<in> ?N" by auto
    then show "fd s1 x = fd s x \<and> bk s1 x = bk s x"
      using link_small_other [OF assms(5) N(1,2,3), of x "mark_smallmap i s"]
      by (simp add: s1_def)
  qed (use that i32 in \<open>auto simp: s1_def marked_mark NSMALLBINS_def fun_eq_iff\<close>)
  ultimately have "small_bins s1 (X(i := P # X i))"
    by (intro small_bins_step [OF assms(1) i, where P = P]) (use assms in \<open>auto simp: s1_def fun_eq_iff\<close>)
  with ins show ?thesis by blast
qed

text \<open>The state after either form of unlinking: the bit goes with the last chunk.\<close>

definition without :: "bindex \<Rightarrow> addr list \<Rightarrow> addr list \<Rightarrow> malloc_state \<Rightarrow> malloc_state" where
  "without i xs ys s =
     (if xs @ ys = [] then clear_smallmap i s
      else unlink_between (last (smallbin_at s i # xs)) (hd (ys @ [smallbin_at s i])) s)"

lemma without_small_bins:
  assumes "small_bins s X" "i < NSMALLBINS" "X i = xs @ P # ys"
  shows "small_bins (without i xs ys s) (X(i := xs @ ys))"
proof -
  have i32: "i < 32" using assms(2) by (simp add: NSMALLBINS_def)
  let ?B = "smallbin_at s i"
  let ?N = "bin_nodes s X"
  define A where "A = last (?B # xs)"
  define C where "C = hd (ys @ [?B])"
  let ?t = "without i xs ys s"
  have bin: "small_bin s i (xs @ P # ys)"
    using assms(1,2) assms(3) [symmetric] by (simp add: small_bins_def)
  have N: "links_apart ?N" "set (?B # xs @ P # ys) \<subseteq> ?N"
    using assms by (auto simp: small_bins_def bin_nodes_def)
  have pre: "butlast (?B # xs) @ [A] = ?B # xs" by (simp add: A_def)
  have post: "C # tl (ys @ [?B]) = ys @ [?B]" by (simp add: C_def)
  have whole: "butlast (?B # xs) @ A # P # C # tl (ys @ [?B]) = ?B # xs @ P # ys @ [?B]"
    using pre post by (metis append.assoc append_Cons append_Nil)
  have AC: "A \<in> set (?B # xs)" "C \<in> set (ys @ [?B])"
    by (simp_all add: A_def C_def) (metis hd_append hd_in_set list.sel(1))
  have l: "linked ?t (?B # xs @ ys @ [?B])" if "xs @ ys \<noteq> []"
  proof -
    have "linked (unlink_between A C s) (butlast (?B # xs) @ A # C # tl (ys @ [?B]))"
    proof (rule linked_remove)
      show "linked s (butlast (?B # xs) @ A # P # C # tl (ys @ [?B]))"
        unfolding whole using bin by (simp add: small_bin_def Let_def)
      show "distinct (butlast (butlast (?B # xs) @ A # P # C # tl (ys @ [?B])))"
        "distinct (tl (butlast (?B # xs) @ A # P # C # tl (ys @ [?B])))"
        unfolding whole using bin by (auto simp: small_bin_def Let_def butlast_append)
      show "links_apart ?N" by (rule N)
      show "set (butlast (?B # xs) @ A # P # C # tl (ys @ [?B])) \<subseteq> ?N"
        unfolding whole using N(2) by auto
    qed
    moreover have eq: "butlast (?B # xs) @ A # C # tl (ys @ [?B]) = ?B # xs @ ys @ [?B]"
      using pre post by (metis append.assoc append_Cons append_Nil)
    ultimately have "linked (unlink_between A C s) (?B # xs @ ys @ [?B])"
      unfolding eq by blast
    then show ?thesis using that unfolding without_def A_def C_def by (simp only: if_False)
  qed
  have "small_bin ?t i (xs @ ys)"
    unfolding small_bin_def Let_def
    using l bin links_apart_mono [OF N(1), of "set (?B # xs @ ys)"] N(2) i32
    by (auto simp: without_def marked_mark small_bin_def Let_def)
  moreover have "small_bin ?t j (X j)" if "j < NSMALLBINS" "j \<noteq> i" for j
  proof (rule small_bin_other [OF assms(1) that(1) N(1)])
    fix x
    assume "x \<in> set (smallbin_at s j # X j)" "x \<in> ?N"
    moreover have "set (smallbin_at s j # X j) \<inter> set (?B # xs @ P # ys) = {}"
      using small_bins_disjoint [OF assms(1) that(1) assms(2) that(2)] assms(3) by simp
    moreover have "{A, C} \<subseteq> set (?B # xs @ P # ys)" using AC by auto
    ultimately have "x \<notin> {A, C}" "A \<in> ?N" "C \<in> ?N" "x \<in> ?N" using N(2) by blast+
    then show "fd ?t x = fd s x \<and> bk ?t x = bk s x"
      using unlink_between_other [OF N(1), of A C x s]
      unfolding without_def A_def [symmetric] C_def [symmetric] by (cases "xs @ ys = []") simp_all
  qed (use that i32 in \<open>auto simp: without_def marked_mark NSMALLBINS_def fun_eq_iff\<close>)
  moreover have "smallbin_at ?t = smallbin_at s" by (simp add: without_def fun_eq_iff)
  moreover have "set (xs @ ys) \<subseteq> insert P (set (X i))" "P \<in> set (X i)" using assms(3) by auto
  moreover have "insert P ?N = ?N" using N(2) by auto
  ultimately show ?thesis
    using N(1) by (intro small_bins_step [OF assms(1,2), where P = P]) simp_all
qed

lemma bin_neighbours:
  assumes "small_bins s X" "i < NSMALLBINS" "X i = xs @ P # ys"
  shows "bk s P = last (smallbin_at s i # xs)" "fd s P = hd (ys @ [smallbin_at s i])"
    "fd s (last (smallbin_at s i # xs)) = P" "bk s (hd (ys @ [smallbin_at s i])) = P"
proof -
  let ?B = "smallbin_at s i"
  have "linked s (?B # (xs @ P # ys) @ [?B])"
    using assms by (auto simp: small_bins_def small_bin_def Let_def)
  then have "linked s (butlast (?B # xs) @ last (?B # xs) # P # (ys @ [?B]))"
    and "linked s ((?B # xs) @ P # hd (ys @ [?B]) # tl (ys @ [?B]))"
    by (metis append_Cons append_assoc append_butlast_last_id list.distinct(1) append_Nil,
        metis append_Cons append_assoc append_is_Nil_conv hd_Cons_tl list.distinct(1))
  then show "bk s P = last (?B # xs)" "fd s P = hd (ys @ [?B])"
    "fd s (last (?B # xs)) = P" "bk s (hd (ys @ [?B])) = P"
    by (blast dest: linked_mem)+
qed

lemma unlink_small_chunk_refines:
  assumes "small_bins s X" "is_small S" "i = small_index S" "X i = xs @ P # ys"
  shows "\<exists>s'. unlink_small_chunk P S s = Ret s' \<and> small_bins s' (X(i := xs @ ys))"
proof -
  have i: "i < NSMALLBINS" using small_index_less assms(2,3) by simp
  note nb = bin_neighbours [OF assms(1) i assms(4)]
  have ok: "\<forall>x\<in>set (xs @ P # ys). ok_address s x" and d: "distinct (smallbin_at s i # xs @ P # ys)"
    using assms(1) i unfolding small_bins_def small_bin_def Let_def assms(4) [symmetric] by blast+
  have A: "last (smallbin_at s i # xs) = smallbin_at s i \<and> xs = [] \<or> ok_address s (last (smallbin_at s i # xs)) \<and> xs \<noteq> []"
    using ok by (cases "xs = []") auto
  have C: "hd (ys @ [smallbin_at s i]) = smallbin_at s i \<and> ys = [] \<or> ok_address s (hd (ys @ [smallbin_at s i])) \<and> ys \<noteq> []"
    using ok by (cases ys) auto
  have eq: "last (smallbin_at s i # xs) = hd (ys @ [smallbin_at s i]) \<longleftrightarrow> xs @ ys = []"
    using d by (cases "xs = []"; cases ys) (auto dest: last_in_set)
  have "unlink_small_chunk P S s = Ret (without i xs ys s)"
    using A C eq nb
    by (simp add: unlink_small_chunk_def Let_def without_def unlink_between_def flip: assms(3) del: last.simps)
      (metis)
  then show ?thesis using without_small_bins [OF assms(1) i assms(4)] by blast
qed

lemma unlink_first_small_chunk_refines:
  assumes "small_bins s X" "i < NSMALLBINS" "X i = P # ys"
  shows "\<exists>s'. unlink_first_small_chunk (smallbin_at s i) P i s = Ret s' \<and> small_bins s' (X(i := ys))"
proof -
  have e: "X i = [] @ P # ys" using assms(3) by simp
  note nb = bin_neighbours [OF assms(1,2) e]
  have b: "small_bin s i (X i)" using assms(1,2) by (simp add: small_bins_def)
  have "\<forall>x\<in>set (P # ys). ok_address s x" "distinct (smallbin_at s i # P # ys)"
    using b unfolding small_bin_def Let_def assms(3) by blast+
  then have "unlink_first_small_chunk (smallbin_at s i) P i s = Ret (without i [] ys s)"
    using nb by (cases ys) (auto simp: unlink_first_small_chunk_def Let_def without_def unlink_between_def)
  then show ?thesis using without_small_bins [OF assms(1,2) e] by simp
qed

section \<open>Where bin headers and chunks lie\<close>

lemma header_nat:
  assumes "i < NSMALLBINS" "unat (mst s) + 936 \<le> 2 ^ 64"
  shows "unat (smallbin_at s i) = unat (mst s) + 72 + 16 * unat i"
proof -
  have i: "unat i < 32" using assms(1) by (simp add: NSMALLBINS_def word_less_nat_alt)
  have "unat (push_bit 1 i) = 2 * unat i"
    using i by (simp only: unsigned_push_bit_eq) (simp add: push_bit_eq_mult take_bit_nat_eq_self)
  then have "unat (8 * ucast (push_bit 1 i) :: addr) = 16 * unat i"
    using i by (simp add: unat_word_ariths unsigned_ucast_eq take_bit_nat_eq_self)
  then show ?thesis
    using assms(2) i by (simp add: smallbin_at_def dl_consts unat_word_ariths)
qed

lemma nodes_apart:
  assumes "is_aligned (mst s)" "unat (mst s) + 936 \<le> 2 ^ 64"
    "\<And>p. p \<in> C \<Longrightarrow> is_aligned p \<and> unat (mst s) + 928 \<le> unat p"
  shows "links_apart (smallbin_at s ` {i. i < NSMALLBINS} \<union> C)"
    "smallbin_at s ` {i. i < NSMALLBINS} \<inter> C = {}"
proof -
  have m: "unat (mst s) mod 16 = 0" using assms(1) by (simp add: is_aligned_iff dvd_eq_mod_eq_0)
  have h: "\<exists>k < 32. unat x = unat (mst s) + 72 + 16 * k" if "x \<in> smallbin_at s ` {i. i < NSMALLBINS}" for x
    using that header_nat [OF _ assms(2)] by (auto simp: NSMALLBINS_def word_less_nat_alt)
  have c: "unat p mod 16 = 0 \<and> unat (mst s) + 928 \<le> unat p" if "p \<in> C" for p
    using assms(3) [OF that] by (simp add: is_aligned_iff dvd_eq_mod_eq_0)
  have p8: "unat (y + 8) = unat y + 8" if "unat y mod 16 = 0 \<or> unat y mod 16 = 8 \<and> unat y < 2 ^ 64 - 16" for y :: addr
  proof -
    have "unat y < 2 ^ 64" using unsigned_less [of y] by simp
    then have "unat y + 8 < 18446744073709551616"
      using that div_mult_mod_eq [of "unat y" 16] by auto
    then show ?thesis by (simp add: unat_word_ariths)
  qed
  show "links_apart (smallbin_at s ` {i. i < NSMALLBINS} \<union> C)"
    unfolding links_apart_def
  proof (intro ballI notI)
    fix x y
    assume x: "x \<in> smallbin_at s ` {i. i < NSMALLBINS} \<union> C" and y: "y \<in> smallbin_at s ` {i. i < NSMALLBINS} \<union> C"
      and eq: "x = y + 8"
    have "unat x = unat y + 8"
      unfolding eq using y
    proof
      assume "y \<in> smallbin_at s ` {i. i < NSMALLBINS}"
      then obtain k where k: "k < 32" "unat y = unat (mst s) + 72 + 16 * k" using h by blast
      have "unat y mod 16 = 8" unfolding k(2) using m by presburger
      moreover have "unat y < 2 ^ 64 - 16" unfolding k(2) using assms(2) k(1) by simp
      ultimately show "unat (y + 8) = unat y + 8" by (intro p8) simp
    qed (use c in \<open>auto intro!: p8\<close>)
    moreover have "unat z mod 16 = 8 \<and> unat z < unat (mst s) + 584
        \<or> unat z mod 16 = 0 \<and> unat (mst s) + 928 \<le> unat z"
      if z: "z \<in> smallbin_at s ` {i. i < NSMALLBINS} \<union> C" for z
      using z
    proof
      assume "z \<in> smallbin_at s ` {i. i < NSMALLBINS}"
      then obtain k where k: "k < 32" "unat z = unat (mst s) + 72 + 16 * k" using h by blast
      have "unat z mod 16 = 8" unfolding k(2) using m by presburger
      then show ?thesis using k by simp
    qed (use c in blast)
    note this [OF x] this [OF y]
    ultimately show False by (elim disjE conjE) (linarith | presburger)+
  qed
  show "smallbin_at s ` {i. i < NSMALLBINS} \<inter> C = {}"
  proof -
    have False if "x \<in> smallbin_at s ` {i. i < NSMALLBINS}" "x \<in> C" for x
      using h [OF that(1)] c [OF that(2)] by auto
    then show ?thesis by auto
  qed
qed

section \<open>The interface of the bins\<close>

text \<open>
  \<open>ins\<close> adds an element, \<open>del\<close> removes one, \<open>take\<close> removes and returns the first; \<open>fresh\<close> holds of
  elements that may be added.
\<close>

locale free_lists =
  fixes rep :: "'s \<Rightarrow> ('i \<Rightarrow> 'a list) \<Rightarrow> bool"
    and fresh :: "'s \<Rightarrow> ('i \<Rightarrow> 'a list) \<Rightarrow> 'a list \<Rightarrow> bool"
    and valid :: "'k \<Rightarrow> bool"
    and slot :: "'k \<Rightarrow> 'i"
    and ins :: "'a \<Rightarrow> 'k \<Rightarrow> 's \<Rightarrow> 's dl_result"
    and del :: "'a \<Rightarrow> 'k \<Rightarrow> 's \<Rightarrow> 's dl_result"
    and take :: "'k \<Rightarrow> 's \<Rightarrow> ('a \<times> 's) dl_result"
  assumes ins_rep: "rep s X \<Longrightarrow> valid k \<Longrightarrow> fresh s X (p # ps)
      \<Longrightarrow> \<exists>s'. ins p k s = Ret s' \<and> rep s' (X(slot k := p # X (slot k)))
            \<and> fresh s' (X(slot k := p # X (slot k))) ps"
    and del_rep: "rep s X \<Longrightarrow> valid k \<Longrightarrow> X (slot k) = xs @ p # ys
      \<Longrightarrow> \<exists>s'. del p k s = Ret s' \<and> rep s' (X(slot k := xs @ ys))"
    and take_rep: "rep s X \<Longrightarrow> valid k \<Longrightarrow> X (slot k) = p # ys
      \<Longrightarrow> \<exists>s'. take k s = Ret (p, s') \<and> rep s' (X(slot k := ys))"
begin

primrec ins_all :: "'a list \<Rightarrow> 'k \<Rightarrow> 's \<Rightarrow> 's dl_result" where
  "ins_all [] k s = Ret s"
| "ins_all (p # ps) k s = dbind (ins p k s) (ins_all ps k)"

primrec take_n :: "nat \<Rightarrow> 'k \<Rightarrow> 's \<Rightarrow> ('a list \<times> 's) dl_result" where
  "take_n 0 k s = Ret ([], s)"
| "take_n (Suc n) k s =
     dbind (take k s) (\<lambda>(p, s). dbind (take_n n k s) (\<lambda>(ps, s). Ret (p # ps, s)))"

lemma ins_all_rep:
  assumes "rep s X" "valid k" "fresh s X ps"
  shows "\<exists>s'. ins_all ps k s = Ret s' \<and> rep s' (X(slot k := rev ps @ X (slot k)))"
  using assms
proof (induction ps arbitrary: s X)
  case (Cons p ps)
  from ins_rep [OF Cons.prems] obtain s' where
    "ins p k s = Ret s'" "rep s' (X(slot k := p # X (slot k)))" "fresh s' (X(slot k := p # X (slot k))) ps"
    by blast
  with Cons.IH [of s' "X(slot k := p # X (slot k))"] Cons.prems(2) show ?case
    by (auto simp: fun_upd_same simp del: fun_upd_apply)
qed simp

lemma take_n_rep:
  assumes "rep s X" "valid k" "X (slot k) = ps @ ys"
  shows "\<exists>s'. take_n (length ps) k s = Ret (ps, s') \<and> rep s' (X(slot k := ys))"
  using assms
proof (induction ps arbitrary: s X)
  case Nil
  then have "X(slot k := ys) = X" by (metis append_Nil fun_upd_triv)
  with Nil show ?case by simp
next
  case (Cons p ps)
  from take_rep [OF Cons.prems(1,2)] Cons.prems(3) obtain s' where
    "take k s = Ret (p, s')" "rep s' (X(slot k := ps @ ys))" by auto
  with Cons.IH [of s' "X(slot k := ps @ ys)"] Cons.prems(2) show ?case
    by (fastforce simp: fun_upd_same simp del: fun_upd_apply)
qed

lemma last_in_first_out:
  assumes "rep s X" "valid k" "fresh s X ps"
  shows "\<exists>s1 s2. ins_all ps k s = Ret s1 \<and> take_n (length ps) k s1 = Ret (rev ps, s2) \<and> rep s2 X"
proof -
  obtain s1 where s1: "ins_all ps k s = Ret s1" "rep s1 (X(slot k := rev ps @ X (slot k)))"
    using ins_all_rep [OF assms] by blast
  then show ?thesis
    using take_n_rep [OF s1(2) assms(2), of "rev ps" "X (slot k)"] by auto
qed

lemma del_inserted:
  assumes "rep s X" "valid k" "fresh s X [p]"
  shows "\<exists>s1 s2. ins p k s = Ret s1 \<and> del p k s1 = Ret s2 \<and> rep s2 X"
proof -
  obtain s1 where s1: "ins p k s = Ret s1" "rep s1 (X(slot k := p # X (slot k)))"
    using ins_rep [OF assms] by blast
  then show ?thesis
    using del_rep [OF s1(2) assms(2), of "[]" p "X (slot k)"] by auto
qed

end

text \<open>The first chunk of a bin, as \<open>mspace_malloc\<close> takes it for an exact fit\<close>

definition take_small_chunk :: "size_t \<Rightarrow> malloc_state \<Rightarrow> (addr \<times> malloc_state) dl_result" where
  "take_small_chunk S s =
     (let b = smallbin_at s (small_index S); p = fd s b
      in dbind (unlink_first_small_chunk b p (small_index S) s) (\<lambda>s. Ret (p, s)))"

definition fresh_chunks :: "malloc_state \<Rightarrow> (bindex \<Rightarrow> addr list) \<Rightarrow> addr list \<Rightarrow> bool" where
  "fresh_chunks s X ps \<longleftrightarrow>
     distinct ps \<and> set ps \<inter> bin_nodes s X = {} \<and> links_apart (set ps \<union> bin_nodes s X)
       \<and> (\<forall>p\<in>set ps. ok_address s p)"

lemma insert_small_chunk_keeps:
  assumes "insert_small_chunk P S s = Ret s'"
  shows "smallbin_at s' = smallbin_at s" "ok_address s' = ok_address s"
  using assms by (auto simp: insert_small_chunk_def Let_def fun_eq_iff split: if_splits)

interpretation small_lists: free_lists small_bins fresh_chunks is_small small_index
  insert_small_chunk unlink_small_chunk take_small_chunk
proof
  fix s X and k :: size_t and p ps
  assume a: "small_bins s X" "is_small k" "fresh_chunks s X (p # ps)"
  let ?X = "X(small_index k := p # X (small_index k))"
  have i: "small_index k < NSMALLBINS" by (rule small_index_less [OF a(2)])
  have apart: "links_apart (insert p (bin_nodes s X))"
    using a(3) by (auto simp: fresh_chunks_def elim!: links_apart_mono)
  obtain s' where s': "insert_small_chunk p k s = Ret s'" "small_bins s' ?X"
    using insert_small_chunk_refines [OF a(1,2) refl _ apart] a(3) by (auto simp: fresh_chunks_def)
  have nodes: "bin_nodes s' ?X = insert p (bin_nodes s X)"
    using i insert_small_chunk_keeps [OF s'(1)] by (auto simp: bin_nodes_def split: if_splits)
  have "fresh_chunks s' ?X ps"
    using a(3) insert_small_chunk_keeps [OF s'(1)]
    unfolding fresh_chunks_def nodes by (auto elim!: links_apart_mono)
  with s' show "\<exists>s'. insert_small_chunk p k s = Ret s' \<and> small_bins s' ?X \<and> fresh_chunks s' ?X ps"
    by blast
next
  fix s X and k :: size_t and xs p ys
  assume "small_bins s X" "is_small k" "X (small_index k) = xs @ p # ys"
  then show "\<exists>s'. unlink_small_chunk p k s = Ret s' \<and> small_bins s' (X(small_index k := xs @ ys))"
    by (intro unlink_small_chunk_refines) auto
next
  fix s X and k :: size_t and p ys
  assume a: "small_bins s X" "is_small k" "X (small_index k) = p # ys"
  have i: "small_index k < NSMALLBINS" by (rule small_index_less [OF a(2)])
  have "fd s (smallbin_at s (small_index k)) = p"
    using bin_neighbours(3) [OF a(1) i, of "[]" p ys] a(3) by simp
  then show "\<exists>s'. take_small_chunk k s = Ret (p, s') \<and> small_bins s' (X(small_index k := ys))"
    using unlink_first_small_chunk_refines [OF a(1) i a(3)]
    by (auto simp: take_small_chunk_def Let_def)
qed

primrec free_small_chunks :: "addr list \<Rightarrow> size_t \<Rightarrow> malloc_state \<Rightarrow> malloc_state dl_result" where
  "free_small_chunks [] S s = Ret s"
| "free_small_chunks (p # ps) S s = dbind (insert_small_chunk p S s) (free_small_chunks ps S)"

primrec take_small_chunks :: "nat \<Rightarrow> size_t \<Rightarrow> malloc_state \<Rightarrow> (addr list \<times> malloc_state) dl_result" where
  "take_small_chunks 0 S s = Ret ([], s)"
| "take_small_chunks (Suc n) S s =
     dbind (take_small_chunk S s) (\<lambda>(p, s).
     dbind (take_small_chunks n S s) (\<lambda>(ps, s). Ret (p # ps, s)))"

lemma small_lists_all:
  "small_lists.ins_all = free_small_chunks" "small_lists.take_n = take_small_chunks"
proof -
  show "small_lists.ins_all = free_small_chunks"
  proof (intro ext)
    show "small_lists.ins_all ps k s = free_small_chunks ps k s" for ps k s
      by (induction ps arbitrary: s) (auto intro!: arg_cong2 [where f = dbind])
  qed
  show "small_lists.take_n = take_small_chunks"
  proof (intro ext)
    show "small_lists.take_n n k s = take_small_chunks n k s" for n k s
      by (induction n arbitrary: s) (auto intro!: arg_cong2 [where f = dbind])
  qed
qed

text \<open>
  C32: The small bins refine lists: whatever chunks they hold, chunks of one size that are
  inserted and then taken again come back last in first out, no check of the allocator fails, and
  all 32 bins hold what they held before.
\<close>

theorem small_bins_last_in_first_out:
  assumes "small_bins s X" "is_small S" "fresh_chunks s X ps"
  shows "\<exists>s1 s2. free_small_chunks ps S s = Ret s1 \<and> small_bins s1 (X(small_index S := rev ps @ X (small_index S)))
    \<and> take_small_chunks (length ps) S s1 = Ret (rev ps, s2) \<and> small_bins s2 X"
  using small_lists.ins_all_rep [OF assms] small_lists.last_in_first_out [OF assms]
  unfolding small_lists_all by auto

lemma no_chunks:
  assumes "is_aligned (mst s)" "unat (mst s) + 936 \<le> 2 ^ 64" "smallmap s = 0"
  shows "small_bins s (\<lambda>_. [])"
proof -
  have nodes: "bin_nodes s (\<lambda>_. []) = smallbin_at s ` {i. i < NSMALLBINS} \<union> {}"
    by (auto simp: bin_nodes_def)
  have apart: "links_apart (bin_nodes s (\<lambda>_. []))"
    unfolding nodes by (rule nodes_apart(1) [OF assms(1,2)]) simp
  have "smallbin_at s i \<noteq> smallbin_at s j" if "i < NSMALLBINS" "j < NSMALLBINS" "i \<noteq> j" for i j
    using header_nat [OF that(1) assms(2)] header_nat [OF that(2) assms(2)] that(3)
    by (auto simp: word_unat_eq_iff)
  moreover have "small_bin s i []" if "i < NSMALLBINS" for i
    using assms(3) that links_apart_mono [OF apart, of "{smallbin_at s i}"]
    by (auto simp: small_bin_def Let_def smallmap_is_marked_def bin_nodes_def)
  ultimately show ?thesis using apart by (auto simp: small_bins_def)
qed

lemma fresh_outside:
  assumes "is_aligned (mst s)" "unat (mst s) + 936 \<le> 2 ^ 64" "distinct ps"
    "\<And>p. p \<in> set ps \<Longrightarrow> is_aligned p \<and> unat (mst s) + 928 \<le> unat p \<and> ok_address s p"
  shows "fresh_chunks s (\<lambda>_. []) ps"
proof -
  have nodes: "bin_nodes s (\<lambda>_. []) = smallbin_at s ` {i. i < NSMALLBINS}"
    by (auto simp: bin_nodes_def)
  have "links_apart (smallbin_at s ` {i. i < NSMALLBINS} \<union> set ps)"
    "smallbin_at s ` {i. i < NSMALLBINS} \<inter> set ps = {}"
    using nodes_apart [OF assms(1,2), of "set ps"] assms(4) by blast+
  then show ?thesis
    unfolding fresh_chunks_def nodes using assms(3,4) by (auto simp: Un_commute)
qed

lemma example_bins:
  "small_bins (zero_state 0x10010) (\<lambda>_. [])"
  "fresh_chunks (zero_state 0x10010) (\<lambda>_. []) [0x10400, 0x10500, 0x10600]"
proof -
  have m: "is_aligned (mst (zero_state 0x10010))" "unat (mst (zero_state 0x10010)) + 936 \<le> 2 ^ 64"
    by (simp_all add: zero_state_def is_aligned_iff)
  show "small_bins (zero_state 0x10010) (\<lambda>_. [])"
    by (rule no_chunks [OF m]) (simp add: zero_state_def)
  show "fresh_chunks (zero_state 0x10010) (\<lambda>_. []) [0x10400, 0x10500, 0x10600]"
    by (rule fresh_outside [OF m]) (auto simp: zero_state_def is_aligned_iff ok_address_def)
qed

theorem small_bins_last_in_first_out_witness:
  "\<exists>s1 s2. free_small_chunks [0x10400, 0x10500, 0x10600] 48 (zero_state 0x10010) = Ret s1
     \<and> take_small_chunks 3 48 s1 = Ret ([0x10600, 0x10500, 0x10400], s2)"
proof -
  have "is_small 48" by code_simp
  from small_bins_last_in_first_out [OF example_bins(1) this example_bins(2)] show ?thesis
    by (auto simp: numeral_3_eq_3)
qed

end
