(* ===== verification/Dl_Large.thy ===== *)
theory Dl_Large
  imports Dl_Tree Dl_Lists
begin

unbundle bit_operations_syntax

text \<open>
  The large bins as a set of chunks: the trees of \<open>Dl_Tree\<close> together with the rings of chunks of one
  size that hang on their nodes, the parent links and the indices. \<open>insert_large_chunk\<close> adds its chunk
  and keeps this representation.
\<close>

section \<open>Reads and writes of separate chunks\<close>

definition node_offsets :: "size_t set" where
  "node_offsets = {8, 16, 24, 32, 40, 48, 56}"

definition node_fields :: "addr \<Rightarrow> addr set" where
  "node_fields x = (\<lambda>i. x + i) ` node_offsets"

definition nodes_apart :: "addr set \<Rightarrow> bool" where
  "nodes_apart N \<longleftrightarrow> (\<forall>x\<in>N. \<forall>y\<in>N. x \<noteq> y \<longrightarrow> node_fields x \<inter> node_fields y = {})"

text \<open>The fields of a node lie above it in the address space and outside the tree bins.\<close>

definition bins_apart :: "malloc_state \<Rightarrow> addr set \<Rightarrow> bool" where
  "bins_apart s N \<longleftrightarrow> (\<forall>i < NTREEBINS. \<forall>x\<in>N. treebin_at s i \<notin> node_fields x)"

lemma nodes_apart_mono: "nodes_apart N \<Longrightarrow> M \<subseteq> N \<Longrightarrow> nodes_apart M"
  unfolding nodes_apart_def by blast

lemma bins_apart_mono: "bins_apart s N \<Longrightarrow> M \<subseteq> N \<Longrightarrow> bins_apart s M"
  unfolding bins_apart_def by blast

lemma apart_eq:
  assumes "nodes_apart N" "x \<in> N" "y \<in> N" "i \<in> node_offsets" "j \<in> node_offsets"
  shows "x + i = y + j \<longleftrightarrow> x = y \<and> i = j"
proof (cases "x = y")
  case False
  then have "node_fields x \<inter> node_fields y = {}" using assms(1-3) by (simp add: nodes_apart_def)
  moreover have "x + i \<in> node_fields x" "y + j \<in> node_fields y" using assms(4,5) by (simp_all add: node_fields_def)
  ultimately show ?thesis using False by auto
qed simp

lemma apart_links: "nodes_apart N \<Longrightarrow> links_apart N"
proof -
  assume a: "nodes_apart N"
  have "x \<noteq> y + 8" if "x \<in> N" "y \<in> N" for x y
  proof
    assume "x = y + 8"
    then have "x + 16 = y + 24" by simp
    then show False using apart_eq [OF a that, of 16 24] by (simp add: node_offsets_def)
  qed
  then show ?thesis by (simp add: links_apart_def)
qed

named_theorems node_simps \<open>fields of separate chunks\<close>

lemma offsets:
  "8 \<in> node_offsets" "16 \<in> node_offsets" "24 \<in> node_offsets" "32 \<in> node_offsets" "40 \<in> node_offsets"
  "48 \<in> node_offsets" "56 \<in> node_offsets"
  by (simp_all add: node_offsets_def)

lemma child_offsets: "child_at p 0 = p + 32" "child_at p 1 = p + 40"
  by (simp_all add: child_at_def)

lemma heap_wr:
  assumes "nodes_apart N" "p \<in> N" "q \<in> N" "i \<in> node_offsets" "j \<in> node_offsets"
  shows "malloc_state.heap (wr (p + i) v s) (q + j) =
    (if q = p \<and> j = i then v else malloc_state.heap s (q + j))"
  using apart_eq [OF assms(1,3,2,5,4)] by (simp add: wr_def)

lemmas field_defs = head_def fd_def bk_def child_def parent_def index_def set_head_def set_fd_def set_bk_def
  set_child_def set_parent_def set_index_def wr32_def rd32_def child_offsets

lemma set_fd_reads [node_simps]:
  assumes "nodes_apart N" "p \<in> N" "q \<in> N"
  shows "head (set_fd p v s) q = head s q" "fd (set_fd p v s) q = (if q = p then v else fd s q)"
    "bk (set_fd p v s) q = bk s q" "child (set_fd p v s) q 0 = child s q 0"
    "child (set_fd p v s) q 1 = child s q 1" "parent (set_fd p v s) q = parent s q"
    "index (set_fd p v s) q = index s q"
  unfolding field_defs by (simp_all only: heap_wr [OF assms] offsets) simp_all

lemma set_bk_reads [node_simps]:
  assumes "nodes_apart N" "p \<in> N" "q \<in> N"
  shows "head (set_bk p v s) q = head s q" "fd (set_bk p v s) q = fd s q"
    "bk (set_bk p v s) q = (if q = p then v else bk s q)" "child (set_bk p v s) q 0 = child s q 0"
    "child (set_bk p v s) q 1 = child s q 1" "parent (set_bk p v s) q = parent s q"
    "index (set_bk p v s) q = index s q"
  unfolding field_defs by (simp_all only: heap_wr [OF assms] offsets) simp_all

lemma set_child_reads [node_simps]:
  assumes "nodes_apart N" "p \<in> N" "q \<in> N"
  shows "head (set_child p 0 v s) q = head s q" "fd (set_child p 0 v s) q = fd s q"
    "bk (set_child p 0 v s) q = bk s q" "child (set_child p 0 v s) q 0 = (if q = p then v else child s q 0)"
    "child (set_child p 0 v s) q 1 = child s q 1" "parent (set_child p 0 v s) q = parent s q"
    "index (set_child p 0 v s) q = index s q"
    "head (set_child p 1 v s) q = head s q" "fd (set_child p 1 v s) q = fd s q"
    "bk (set_child p 1 v s) q = bk s q" "child (set_child p 1 v s) q 0 = child s q 0"
    "child (set_child p 1 v s) q 1 = (if q = p then v else child s q 1)" "parent (set_child p 1 v s) q = parent s q"
    "index (set_child p 1 v s) q = index s q"
  unfolding field_defs by (simp_all only: heap_wr [OF assms] offsets) simp_all

lemma set_parent_reads [node_simps]:
  assumes "nodes_apart N" "p \<in> N" "q \<in> N"
  shows "head (set_parent p v s) q = head s q" "fd (set_parent p v s) q = fd s q"
    "bk (set_parent p v s) q = bk s q" "child (set_parent p v s) q 0 = child s q 0"
    "child (set_parent p v s) q 1 = child s q 1" "parent (set_parent p v s) q = (if q = p then v else parent s q)"
    "index (set_parent p v s) q = index s q"
  unfolding field_defs by (simp_all only: heap_wr [OF assms] offsets) simp_all

lemma low_half: "ucast ((h AND NOT 0xFFFFFFFF) OR ucast (v :: 32 word) :: 64 word) = v"
proof -
  have "0xFFFFFFFF = (mask 32 :: 64 word)" by (simp add: mask_eq_exp_minus_1)
  then show ?thesis unfolding \<open>0xFFFFFFFF = _\<close> by (intro bit_word_eqI) (auto simp: bit_simps)
qed

lemma set_index_reads [node_simps]:
  assumes "nodes_apart N" "p \<in> N" "q \<in> N"
  shows "head (set_index p v s) q = head s q" "fd (set_index p v s) q = fd s q"
    "bk (set_index p v s) q = bk s q" "child (set_index p v s) q 0 = child s q 0"
    "child (set_index p v s) q 1 = child s q 1" "parent (set_index p v s) q = parent s q"
    "index (set_index p v s) q = (if q = p then v else index s q)"
  unfolding field_defs
  by (simp_all only: heap_wr [OF assms] offsets if_distrib [where f = "ucast :: 64 word \<Rightarrow> 32 word"] low_half) simp_all

text \<open>The tree bins and the nodes do not overlap.\<close>

lemma treebin_at_eq: "i < NTREEBINS \<Longrightarrow> j < NTREEBINS \<Longrightarrow> treebin_at s i = treebin_at s j \<longleftrightarrow> i = j"
proof -
  assume a: "i < NTREEBINS" "j < NTREEBINS"
  have e: "unat (8 * ucast k :: addr) = 8 * unat k" if "k < NTREEBINS" for k :: bindex
    using that by (simp add: NTREEBINS_def word_less_nat_alt unat_mult_lem [THEN iffD1] unsigned_ucast_eq take_bit_nat_eq_self)
  have "(8 * ucast i :: addr) = 8 * ucast j \<longleftrightarrow> i = j"
    using e [OF a(1)] e [OF a(2)] by (metis mult_left_cancel word_unat_eq_iff zero_neq_numeral)
  then show ?thesis by (simp add: treebin_at_def)
qed

lemma treebin_reads:
  assumes "bins_apart s N" "q \<in> N" "i < NTREEBINS"
  shows "head (wr (treebin_at s i) v s') q = head s' q" "fd (wr (treebin_at s i) v s') q = fd s' q"
    "bk (wr (treebin_at s i) v s') q = bk s' q" "child (wr (treebin_at s i) v s') q 0 = child s' q 0"
    "child (wr (treebin_at s i) v s') q 1 = child s' q 1" "parent (wr (treebin_at s i) v s') q = parent s' q"
    "index (wr (treebin_at s i) v s') q = index s' q"
proof -
  have "q + j \<noteq> treebin_at s i" if "j \<in> node_offsets" for j
  proof -
    have "treebin_at s i \<notin> node_fields q" "q + j \<in> node_fields q"
      using assms that unfolding bins_apart_def node_fields_def by blast+
    then show ?thesis by metis
  qed
  then show "head (wr (treebin_at s i) v s') q = head s' q" "fd (wr (treebin_at s i) v s') q = fd s' q"
    "bk (wr (treebin_at s i) v s') q = bk s' q" "child (wr (treebin_at s i) v s') q 0 = child s' q 0"
    "child (wr (treebin_at s i) v s') q 1 = child s' q 1" "parent (wr (treebin_at s i) v s') q = parent s' q"
    "index (wr (treebin_at s i) v s') q = index s' q"
    unfolding field_defs using offsets by (simp_all add: wr_def)
qed

section \<open>Insertion into a trie\<close>

fun trie_insert :: "(addr \<Rightarrow> size_t) \<Rightarrow> nat \<Rightarrow> addr \<Rightarrow> addr tree \<Rightarrow> addr tree" where
  "trie_insert sz k P Leaf = Node Leaf P Leaf"
| "trie_insert sz k P (Node l a r) =
     (if sz a = sz P then Node l a r
      else if bit (sz P) (k - 1) then Node l a (trie_insert sz (k - 1) P r)
      else Node (trie_insert sz (k - 1) P l) a r)"

text \<open>The links from the nodes to their parents; the root's is the address of its bin.\<close>

primrec parents_at :: "malloc_state \<Rightarrow> addr \<Rightarrow> addr tree \<Rightarrow> bool" where
  "parents_at s H Leaf \<longleftrightarrow> True"
| "parents_at s H (Node l a r) \<longleftrightarrow> parent s a = H \<and> parents_at s a l \<and> parents_at s a r"

lemma same_above_child:
  assumes "trie_ok sz k (Node l a r)" "same_above sz k c (Node l a r)" "0 < k"
  shows "bit c (k - 1) \<Longrightarrow> same_above sz (k - 1) c r" "\<not> bit c (k - 1) \<Longrightarrow> same_above sz (k - 1) c l"
proof -
  have d: "drop_bit (k - 1) (sz x) = drop_bit (k - 1) c \<longleftrightarrow> (bit (sz x) (k - 1) \<longleftrightarrow> bit c (k - 1))"
    if "x \<in> set_tree (Node l a r)" for x
    using assms(2,3) that by (intro drop_bit_step) (auto simp: same_above_def)
  show "bit c (k - 1) \<Longrightarrow> same_above sz (k - 1) c r" "\<not> bit c (k - 1) \<Longrightarrow> same_above sz (k - 1) c l"
    using d assms(1,3) by (auto simp: same_above_def)
qed

lemma other_side:
  assumes "trie_ok sz k (Node l a r)" "0 < k"
  shows "bit c (k - 1) \<Longrightarrow> x \<in> set_tree l \<Longrightarrow> sz x \<noteq> c" "\<not> bit c (k - 1) \<Longrightarrow> x \<in> set_tree r \<Longrightarrow> sz x \<noteq> c"
  using assms by auto

lemma trie_at_end: "same_above sz 0 c (Node l a r) \<Longrightarrow> sz a = c"
  by (simp add: same_above_def)

lemma set_trie_insert:
  assumes "trie_ok sz k T" "same_above sz k (sz P) T"
  shows "set_tree (trie_insert sz k P T) =
      (if sz P \<in> sz ` set_tree T then set_tree T else insert P (set_tree T))"
  using assms
proof (induction T arbitrary: k)
  case (Node l a r)
  show ?case
  proof (cases "sz a = sz P")
    case False
    then have k: "0 < k" using Node.prems(2) trie_at_end by (cases k) auto
    note side = other_side [OF Node.prems(1) k, of "sz P"] same_above_child [OF Node.prems k]
    have ok: "trie_ok sz (k - 1) l" "trie_ok sz (k - 1) r" using Node.prems(1) k by auto
    show ?thesis
    proof (cases "bit (sz P) (k - 1)")
      case True
      then have "sz P \<notin> sz ` set_tree l" using side(1) by fastforce
      then show ?thesis using Node.IH(2) [OF ok(2) side(3)] True False by auto
    next
      case f: False
      then have "sz P \<notin> sz ` set_tree r" using side(2) by fastforce
      then show ?thesis using Node.IH(1) [OF ok(1) side(4)] f False by auto
    qed
  qed simp
qed simp

lemma trie_insert_ok:
  assumes "trie_ok sz k T" "same_above sz k (sz P) T"
  shows "trie_ok sz k (trie_insert sz k P T)"
  using assms
proof (induction T arbitrary: k)
  case (Node l a r)
  show ?case
  proof (cases "sz a = sz P")
    case True
    then show ?thesis using Node.prems by simp
  next
    case False
    then have k: "0 < k" using Node.prems(2) trie_at_end by (cases k) auto
    have ok: "trie_ok sz (k - 1) l" "trie_ok sz (k - 1) r" using Node.prems(1) k by auto
    note side = same_above_child [OF Node.prems k]
    show ?thesis
      using Node.prems(1) k False Node.IH side ok
      by (auto simp: set_trie_insert [OF ok(1) side(2)] set_trie_insert [OF ok(2) side(1)] simp del: One_nat_def
          split: if_splits)
  qed
qed simp

text \<open>A node occurs once in its tree.\<close>

lemma tree_at_unique: "tree_at s t T \<Longrightarrow> tree_at s t T' \<Longrightarrow> T = T'"
proof (induction T arbitrary: t T')
  case (Node l a r)
  then show ?case by (cases T') auto
qed simp

lemma tree_at_subtree: "tree_at s t T \<Longrightarrow> x \<in> set_tree T \<Longrightarrow> \<exists>T'. tree_at s x T' \<and> size T' \<le> size T"
proof (induction T arbitrary: t)
  case (Node l a r)
  have "tree_at s (child s a 0) l" "tree_at s (child s a 1) r" using Node.prems(1) by auto
  then consider "x = a" | "\<exists>T'. tree_at s x T' \<and> size T' \<le> size l" | "\<exists>T'. tree_at s x T' \<and> size T' \<le> size r"
    using Node.IH Node.prems(2) by auto
  then show ?case
  proof cases
    case 1
    then show ?thesis using Node.prems(1) by (intro exI [of _ "Node l a r"]) simp
  next
    case 2
    then obtain T' where "tree_at s x T'" "size T' \<le> size l" by blast
    then show ?thesis by (intro exI [of _ T']) simp
  next
    case 3
    then obtain T' where "tree_at s x T'" "size T' \<le> size r" by blast
    then show ?thesis by (intro exI [of _ T']) simp
  qed
qed simp

lemma tree_at_distinct:
  assumes "tree_at s t (Node l a r)"
  shows "a \<notin> set_tree l" "a \<notin> set_tree r"
proof -
  have "a \<notin> set_tree T" if T: "tree_at s u T" "size T < size (Node l a r)" for u T
  proof
    assume "a \<in> set_tree T"
    then obtain T' where "tree_at s a T'" "size T' \<le> size T" using tree_at_subtree [OF T(1)] by blast
    then show False using tree_at_unique [of s a T' "Node l a r"] assms T(2) by auto
  qed
  then show "a \<notin> set_tree l" "a \<notin> set_tree r" using assms by auto
qed

lemma trie_sides_disjoint: "trie_ok sz k (Node l a r) \<Longrightarrow> set_tree l \<inter> set_tree r = {}"
  by (auto split: if_splits)

lemma tree_at_cong:
  assumes "\<And>x. x \<in> set_tree T \<Longrightarrow> child s' x 0 = child s x 0 \<and> child s' x 1 = child s x 1"
  shows "tree_at s' t T \<longleftrightarrow> tree_at s t T"
  using assms by (induction T arbitrary: t) auto

lemma parents_at_cong:
  assumes "\<And>x. x \<in> set_tree T \<Longrightarrow> parent s' x = parent s x"
  shows "parents_at s' H T \<longleftrightarrow> parents_at s H T"
  using assms by (induction T arbitrary: H) auto

lemma trie_ok_cong:
  assumes "\<And>x. x \<in> set_tree T \<Longrightarrow> sz' x = sz x"
  shows "trie_ok sz' k T \<longleftrightarrow> trie_ok sz k T"
  using assms by (induction T arbitrary: k) auto

text \<open>\<open>slot_of s T P a b T'\<close>: writing \<open>P\<close> into child \<open>b\<close> of \<open>a\<close> turns the tree \<open>T\<close> into \<open>T'\<close>.\<close>

definition slot_of :: "malloc_state \<Rightarrow> addr tree \<Rightarrow> addr \<Rightarrow> addr \<Rightarrow> size_t \<Rightarrow> addr tree \<Rightarrow> bool" where
  "slot_of s T P a b T' \<longleftrightarrow>
     (\<forall>s' t. tree_at s t T
        \<longrightarrow> (\<forall>x\<in>insert P (set_tree T). \<forall>c\<in>{0, 1}.
               child s' x c = (if x = P then 0 else if x = a \<and> c = b then P else child s x c))
        \<longrightarrow> tree_at s' t T')
     \<and> (\<forall>s' H. parents_at s H T \<longrightarrow> (\<forall>x\<in>set_tree T. parent s' x = parent s x) \<longrightarrow> parent s' P = a
        \<longrightarrow> parents_at s' H T')"

lemma slot_here:
  assumes "P \<noteq> 0" "P \<notin> set_tree (Node l a r)" "a \<notin> set_tree l" "a \<notin> set_tree r"
  shows "l = Leaf \<Longrightarrow> slot_of s (Node l a r) P a 0 (Node (Node Leaf P Leaf) a r)"
    "r = Leaf \<Longrightarrow> slot_of s (Node l a r) P a 1 (Node l a (Node Leaf P Leaf))"
proof -
  show "slot_of s (Node l a r) P a 0 (Node (Node Leaf P Leaf) a r)" if "l = Leaf"
    unfolding slot_of_def
  proof (intro conjI allI impI)
    fix s' t
    assume u: "tree_at s t (Node l a r)" "\<forall>x\<in>insert P (set_tree (Node l a r)). \<forall>c\<in>{0, 1}.
               child s' x c = (if x = P then 0 else if x = a \<and> c = 0 then P else child s x c)"
    have "tree_at s' (child s a 1) r \<longleftrightarrow> tree_at s (child s a 1) r"
      by (rule tree_at_cong) (use u(2) assms in auto)
    then show "tree_at s' t (Node (Node Leaf P Leaf) a r)" using u assms by auto
  next
    fix s' H
    assume u: "parents_at s H (Node l a r)" "\<forall>x\<in>set_tree (Node l a r). parent s' x = parent s x" "parent s' P = a"
    have "parents_at s' a r \<longleftrightarrow> parents_at s a r" by (rule parents_at_cong) (use u(2) in auto)
    then show "parents_at s' H (Node (Node Leaf P Leaf) a r)" using u by auto
  qed
  show "slot_of s (Node l a r) P a 1 (Node l a (Node Leaf P Leaf))" if "r = Leaf"
    unfolding slot_of_def
  proof (intro conjI allI impI)
    fix s' t
    assume u: "tree_at s t (Node l a r)" "\<forall>x\<in>insert P (set_tree (Node l a r)). \<forall>c\<in>{0, 1}.
               child s' x c = (if x = P then 0 else if x = a \<and> c = 1 then P else child s x c)"
    have "tree_at s' (child s a 0) l \<longleftrightarrow> tree_at s (child s a 0) l"
      by (rule tree_at_cong) (use u(2) assms in auto)
    then show "tree_at s' t (Node l a (Node Leaf P Leaf))" using u assms by auto
  next
    fix s' H
    assume u: "parents_at s H (Node l a r)" "\<forall>x\<in>set_tree (Node l a r). parent s' x = parent s x" "parent s' P = a"
    have "parents_at s' a l \<longleftrightarrow> parents_at s a l" by (rule parents_at_cong) (use u(2) in auto)
    then show "parents_at s' H (Node l a (Node Leaf P Leaf))" using u by auto
  qed
qed

lemma slot_below:
  assumes "d \<notin> set_tree l" "d \<notin> set_tree r" "set_tree l \<inter> set_tree r = {}" "P \<notin> set_tree (Node l d r)"
  shows "slot_of s l P a b T' \<Longrightarrow> a \<in> set_tree l \<Longrightarrow> slot_of s (Node l d r) P a b (Node T' d r)"
    "slot_of s r P a b T' \<Longrightarrow> a \<in> set_tree r \<Longrightarrow> slot_of s (Node l d r) P a b (Node l d T')"
proof -
  show "slot_of s (Node l d r) P a b (Node T' d r)" if sl: "slot_of s l P a b T'" and a: "a \<in> set_tree l"
    unfolding slot_of_def
  proof (intro conjI allI impI)
    fix s' t
    assume u: "tree_at s t (Node l d r)" "\<forall>x\<in>insert P (set_tree (Node l d r)). \<forall>c\<in>{0, 1}.
               child s' x c = (if x = P then 0 else if x = a \<and> c = b then P else child s x c)"
    have "tree_at s' (child s d 1) r \<longleftrightarrow> tree_at s (child s d 1) r"
      by (rule tree_at_cong) (use u(2) assms a in auto)
    moreover have "tree_at s' (child s d 0) T'"
      using sl u unfolding slot_of_def by (auto simp del: insert_iff)
    ultimately show "tree_at s' t (Node T' d r)" using u assms a by auto
  next
    fix s' H
    assume u: "parents_at s H (Node l d r)" "\<forall>x\<in>set_tree (Node l d r). parent s' x = parent s x" "parent s' P = a"
    have "parents_at s' d r \<longleftrightarrow> parents_at s d r" by (rule parents_at_cong) (use u(2) in auto)
    then show "parents_at s' H (Node T' d r)" using u sl unfolding slot_of_def by auto
  qed
  show "slot_of s (Node l d r) P a b (Node l d T')" if sl: "slot_of s r P a b T'" and a: "a \<in> set_tree r"
    unfolding slot_of_def
  proof (intro conjI allI impI)
    fix s' t
    assume u: "tree_at s t (Node l d r)" "\<forall>x\<in>insert P (set_tree (Node l d r)). \<forall>c\<in>{0, 1}.
               child s' x c = (if x = P then 0 else if x = a \<and> c = b then P else child s x c)"
    have "tree_at s' (child s d 0) l \<longleftrightarrow> tree_at s (child s d 0) l"
      by (rule tree_at_cong) (use u(2) assms a in auto)
    moreover have "tree_at s' (child s d 1) T'"
      using sl u unfolding slot_of_def by (auto simp del: insert_iff)
    ultimately show "tree_at s' t (Node l d T')" using u assms a by auto
  next
    fix s' H
    assume u: "parents_at s H (Node l d r)" "\<forall>x\<in>set_tree (Node l d r). parent s' x = parent s x" "parent s' P = a"
    have "parents_at s' d l \<longleftrightarrow> parents_at s d l" by (rule parents_at_cong) (use u(2) in auto)
    then show "parents_at s' H (Node l d T')" using u sl unfolding slot_of_def by auto
  qed
qed

text \<open>Where the loop of \<open>insert_large_chunk\<close> ends\<close>

definition place_ok :: "malloc_state \<Rightarrow> nat \<Rightarrow> addr tree \<Rightarrow> addr \<Rightarrow> tree_place \<Rightarrow> bool" where
  "place_ok s k T P place \<longleftrightarrow>
     (case place of
        Same_size a \<Rightarrow> a \<in> set_tree T \<and> chunksize s a = chunksize s P
      | Free_slot a c \<Rightarrow>
          a \<in> set_tree T \<and> chunksize s P \<notin> chunksize s ` set_tree T
            \<and> (\<exists>b\<in>{0, 1}. c = child_at a b \<and> slot_of s T P a b (trie_insert (chunksize s) k P T)))"

lemma place_in_trie:
  assumes "tree_at s t T" "T \<noteq> Leaf" "trie_ok (chunksize s) k T" "same_above (chunksize s) k (chunksize s P) T"
    "k \<le> 64" "P \<noteq> 0" "P \<notin> set_tree T"
  shows "\<exists>place. tree_place_from s (chunksize s P) t (push_bit (64 - k) (chunksize s P)) = Some place
    \<and> place_ok s k T P place"
  using assms
proof (induction T arbitrary: t k)
  case (Node l a r)
  let ?sz = "chunksize s" and ?S = "chunksize s P"
  have at: "t = a" "tree_at s (child s a 0) l" "tree_at s (child s a 1) r" using Node.prems(1) by auto
  note apart = tree_at_distinct [OF Node.prems(1)] trie_sides_disjoint [OF Node.prems(3)]
  show ?case
  proof (cases "?sz a = ?S")
    case True
    then show ?thesis using at by (subst tree_place_from.simps) (simp add: place_ok_def)
  next
    case False
    then have k: "0 < k" using Node.prems(4) trie_at_end by (cases k) auto
    define b :: size_t where "b = (if bit ?S (k - 1) then 1 else 0)"
    define T where "T = (if bit ?S (k - 1) then r else l)"
    define U where "U = (if bit ?S (k - 1) then l else r)"
    have b: "b \<in> {0, 1}" "top_bit (push_bit (64 - k) ?S) = b"
      using k top_bit_push [OF Node.prems(5), of ?S] by (auto simp: b_def)
    have T: "tree_at s (child s a b) T" "trie_ok ?sz (k - 1) T" "same_above ?sz (k - 1) ?S T" "P \<notin> set_tree T"
      using at Node.prems(3,7) k same_above_child [OF Node.prems(3,4) k] by (auto simp: T_def b_def)
    have U: "?S \<notin> ?sz ` set_tree U" 
    proof
      assume "?S \<in> ?sz ` set_tree U"
      then obtain x where "x \<in> set_tree U" "?sz x = ?S" by auto
      then show False using other_side [OF Node.prems(3) k] by (auto simp: U_def split: if_splits)
    qed
    have shift: "push_bit 1 (push_bit (64 - k) ?S) = push_bit (64 - (k - 1)) ?S"
    proof -
      have "1 + (64 - k) = 64 - (k - 1)" using k Node.prems(5) by arith
      then show ?thesis by (simp only: push_bit_push_bit)
    qed
    have step: "tree_place_from s ?S t (push_bit (64 - k) ?S) =
        (if child s a b \<noteq> 0 then tree_place_from s ?S (child s a b) (push_bit (64 - (k - 1)) ?S)
         else Some (Free_slot a (child_at a b)))"
      using False at(1) by (subst tree_place_from.simps) (simp only: b(2) shift if_False if_True not_False_eq_True)
    have ins: "trie_insert ?sz k P (Node l a r) =
        (if bit ?S (k - 1) then Node l a (trie_insert ?sz (k - 1) P r) else Node (trie_insert ?sz (k - 1) P l) a r)"
      using False by simp
    show ?thesis
    proof (cases "T = Leaf")
      case True
      then have "child s a b = 0" using T(1) by simp
      moreover have "slot_of s (Node l a r) P a b (trie_insert ?sz k P (Node l a r))"
        unfolding ins b_def using slot_here [OF Node.prems(6,7) apart(1,2), of s] True by (auto simp: T_def)
      moreover have "?S \<notin> ?sz ` set_tree (Node l a r)" using True U False by (auto simp: T_def U_def split: if_splits)
      ultimately show ?thesis
        unfolding step using b(1) by (auto simp: place_ok_def simp del: trie_insert.simps)
    next
      case nonempty: False
      then have "child s a b \<noteq> 0" using T(1) by (cases T) auto
      have le: "k - 1 \<le> 64" using Node.prems(5) by simp
      obtain place where p: "tree_place_from s ?S (child s a b) (push_bit (64 - (k - 1)) ?S) = Some place"
        "place_ok s (k - 1) T P place"
        using Node.IH(1) [of "child s a b" "k - 1"] Node.IH(2) [of "child s a b" "k - 1"]
          T nonempty Node.prems(6) le by (auto simp: T_def simp del: One_nat_def split: if_splits)
      have "place_ok s k (Node l a r) P place"
      proof (cases place)
        case (Same_size x)
        then show ?thesis using p(2) by (auto simp: place_ok_def T_def split: if_splits)
      next
        case (Free_slot x c)
        then obtain b' where s: "x \<in> set_tree T" "?S \<notin> ?sz ` set_tree T" "b' \<in> {0, 1}" "c = child_at x b'"
          "slot_of s T P x b' (trie_insert ?sz (k - 1) P T)"
          using p(2) by (auto simp: place_ok_def)
        have "slot_of s (Node l a r) P x b' (trie_insert ?sz k P (Node l a r))"
          unfolding ins using slot_below [OF apart Node.prems(7), of s x b'] s(1,5) by (auto simp: T_def split: if_splits)
        moreover have "?S \<notin> ?sz ` set_tree (Node l a r)" using s(2) U False by (auto simp: T_def U_def split: if_splits)
        moreover have "x \<in> set_tree (Node l a r)" using s(1) by (auto simp: T_def split: if_splits)
        ultimately show ?thesis
          using s(3,4) Free_slot unfolding place_ok_def by (auto simp del: trie_insert.simps)
      qed
      then show ?thesis using p(1) \<open>child s a b \<noteq> 0\<close> unfolding step by auto
    qed
  qed
qed simp

section \<open>The large bins as a set of chunks\<close>

lemma state_writes [simp]:
  "mst (set_fd p v s) = mst s" "mst (set_bk p v s) = mst s" "mst (set_child p c v s) = mst s"
  "mst (set_parent p v s) = mst s" "mst (set_index p j s) = mst s" "mst (wr a v s) = mst s"
  "mst (mark_treemap i s) = mst s" "mst (clear_treemap i s) = mst s"
  "treemap (set_fd p v s) = treemap s" "treemap (set_bk p v s) = treemap s"
  "treemap (set_child p c v s) = treemap s" "treemap (set_parent p v s) = treemap s"
  "treemap (set_index p j s) = treemap s" "treemap (wr a v s) = treemap s"
  "least_addr (set_fd p v s) = least_addr s" "least_addr (set_bk p v s) = least_addr s"
  "least_addr (set_child p c v s) = least_addr s" "least_addr (set_parent p v s) = least_addr s"
  "least_addr (set_index p j s) = least_addr s" "least_addr (wr a v s) = least_addr s"
  "least_addr (mark_treemap i s) = least_addr s" "least_addr (clear_treemap i s) = least_addr s"
  "malloc_state.heap (mark_treemap i s) = malloc_state.heap s"
  "malloc_state.heap (clear_treemap i s) = malloc_state.heap s"
  by (simp_all add: dl_fields mark_treemap_def clear_treemap_def)

lemma map_reads [simp]:
  "head (mark_treemap i s) = head s" "fd (mark_treemap i s) = fd s" "bk (mark_treemap i s) = bk s"
  "child (mark_treemap i s) = child s" "parent (mark_treemap i s) = parent s" "index (mark_treemap i s) = index s"
  "head (clear_treemap i s) = head s" "fd (clear_treemap i s) = fd s" "bk (clear_treemap i s) = bk s"
  "child (clear_treemap i s) = child s" "parent (clear_treemap i s) = parent s" "index (clear_treemap i s) = index s"
  "treebin (mark_treemap i s) = treebin s" "treebin (clear_treemap i s) = treebin s"
  by (simp_all add: fun_eq_iff dl_fields mark_treemap_def clear_treemap_def treebin_def treebin_at_def)

lemma treebin_at_mst: "mst s' = mst s \<Longrightarrow> treebin_at s' = treebin_at s"
  by (simp add: fun_eq_iff treebin_at_def)

lemma treebin_at_writes [simp]:
  "treebin_at (set_fd p v s) = treebin_at s" "treebin_at (set_bk p v s) = treebin_at s"
  "treebin_at (set_child p c v s) = treebin_at s" "treebin_at (set_parent p v s) = treebin_at s"
  "treebin_at (set_index p j s) = treebin_at s" "treebin_at (wr a v s) = treebin_at s"
  "treebin_at (mark_treemap i s) = treebin_at s" "treebin_at (clear_treemap i s) = treebin_at s"
  by (rule treebin_at_mst; simp)+

lemma treebin_writes:
  assumes "bins_apart s N" "p \<in> N" "j < NTREEBINS" "mst s' = mst s"
  shows "treebin (set_fd p v s') j = treebin s' j" "treebin (set_bk p v s') j = treebin s' j"
    "treebin (set_child p 0 v s') j = treebin s' j" "treebin (set_child p 1 v s') j = treebin s' j"
    "treebin (set_parent p v s') j = treebin s' j" "treebin (set_index p x s') j = treebin s' j"
proof -
  have "malloc_state.heap (wr (p + i) v s') (treebin_at s j) = malloc_state.heap s' (treebin_at s j)"
    if "i \<in> node_offsets" for i v
  proof -
    have "treebin_at s j \<notin> node_fields p" "p + i \<in> node_fields p"
      using assms(1-3) that unfolding bins_apart_def node_fields_def by blast+
    then have "treebin_at s j \<noteq> p + i" by metis
    then show ?thesis by (simp add: wr_def)
  qed
  then show "treebin (set_fd p v s') j = treebin s' j" "treebin (set_bk p v s') j = treebin s' j"
    "treebin (set_child p 0 v s') j = treebin s' j" "treebin (set_child p 1 v s') j = treebin s' j"
    "treebin (set_parent p v s') j = treebin s' j" "treebin (set_index p x s') j = treebin s' j"
    unfolding treebin_def field_defs by (simp_all add: offsets treebin_at_mst [OF assms(4)])
qed

lemma treebin_write_bin:
  "i < NTREEBINS \<Longrightarrow> j < NTREEBINS \<Longrightarrow> mst s' = mst s \<Longrightarrow>
     treebin (wr (treebin_at s i) v s') j = (if j = i then v else treebin s' j)"
  using treebin_at_eq [of j i s] treebin_at_mst [of s' s] by (simp add: treebin_def) (simp add: wr_def)

definition layout :: "malloc_state \<Rightarrow> addr set \<Rightarrow> bool" where
  "layout s N \<longleftrightarrow>
     nodes_apart N \<and> bins_apart s N \<and> (\<forall>i < NTREEBINS. treebin_at s i \<noteq> 0)
       \<and> (\<forall>x\<in>N. x \<noteq> 0 \<and> ok_address s x \<and> unat x + 64 \<le> 2 ^ 64)"

text \<open>The chunks \<open>xs\<close> hang on the node \<open>t\<close>: they have its size, no parent and no children.\<close>

definition ring :: "malloc_state \<Rightarrow> addr \<Rightarrow> addr list \<Rightarrow> bool" where
  "ring s t xs \<longleftrightarrow>
     linked s (t # xs @ [t]) \<and> distinct (t # xs)
       \<and> (\<forall>x\<in>set xs. chunksize s x = chunksize s t \<and> parent s x = 0 \<and> child s x 0 = 0 \<and> child s x 1 = 0)"

definition large_all :: "(bindex \<Rightarrow> addr tree) \<Rightarrow> (addr \<Rightarrow> addr list) \<Rightarrow> addr set" where
  "large_all X C = (\<Union>t\<in>large_chunks X. insert t (set (C t)))"

definition large_bins :: "malloc_state \<Rightarrow> (bindex \<Rightarrow> addr tree) \<Rightarrow> (addr \<Rightarrow> addr list) \<Rightarrow> bool" where
  "large_bins s X C \<longleftrightarrow>
     tree_bins s X \<and> layout s (large_all X C)
       \<and> (\<forall>i < NTREEBINS. parents_at s (treebin_at s i) (X i))
       \<and> inj_on (chunksize s) (large_chunks X)
       \<and> (\<forall>t\<in>large_chunks X. ring s t (C t))
       \<and> (\<forall>x\<in>large_all X C. index s x = compute_tree_index (chunksize s x))"

lemma chunks_in_all: "t \<in> large_chunks X \<Longrightarrow> insert t (set (C t)) \<subseteq> large_all X C"
  by (auto simp: large_all_def)

lemma bin_in_chunks: "i < NTREEBINS \<Longrightarrow> set_tree (X i) \<subseteq> large_chunks X"
  by (auto simp: large_chunks_def)

lemma marked_tree:
  assumes "i < NTREEBINS" "j < NTREEBINS"
  shows "treemap_is_marked (mark_treemap i s) j \<longleftrightarrow> j = i \<or> treemap_is_marked s j"
    "treemap_is_marked (clear_treemap i s) j \<longleftrightarrow> j \<noteq> i \<and> treemap_is_marked s j"
proof -
  have ij: "i < 32" "j < 32" using assms by (simp_all add: NTREEBINS_def)
  then show "treemap_is_marked (mark_treemap i s) j \<longleftrightarrow> j = i \<or> treemap_is_marked s j"
    using word_unat_eq_iff [of i j]
    by (auto simp: treemap_is_marked_def mark_treemap_def marked_bit bit_simps bit_idx2bit word_less_nat_alt)
  show "treemap_is_marked (clear_treemap i s) j \<longleftrightarrow> j \<noteq> i \<and> treemap_is_marked s j"
    using ij word_unat_eq_iff [of i j]
    by (auto simp: treemap_is_marked_def clear_treemap_def marked_bit bit_simps bit_idx2bit word_less_nat_alt)
qed

lemma trie_insert_same: "trie_ok sz k T \<Longrightarrow> same_above sz k (sz P) T \<Longrightarrow> sz P \<in> sz ` set_tree T \<Longrightarrow> trie_insert sz k P T = T"
proof (induction T arbitrary: k)
  case (Node l a r)
  show ?case
  proof (cases "sz a = sz P")
    case False
    then have k: "0 < k" using Node.prems(2) trie_at_end by (cases k) auto
    note side = other_side [OF Node.prems(1) k] same_above_child [OF Node.prems(1,2) k]
    have "trie_ok sz (k - 1) l" "trie_ok sz (k - 1) r" using Node.prems(1) k by auto
    moreover obtain x where x': "x \<in> set_tree (Node l a r)" "sz x = sz P"
      using Node.prems(3) by (metis imageE)
    then have x: "x \<in> set_tree l \<or> x \<in> set_tree r" "sz x = sz P" using False by auto
    then have "sz P \<in> sz ` set_tree (if bit (sz P) (k - 1) then r else l)"
      using side(1) [of "sz P" x] side(2) [of "sz P" x] by (auto simp del: One_nat_def intro: rev_image_eqI)
    ultimately show ?thesis using False Node.IH side(3,4) by (auto simp del: One_nat_def)
  qed simp
qed simp

lemma layout_cong: "mst s' = mst s \<Longrightarrow> least_addr s' = least_addr s \<Longrightarrow> layout s' N = layout s N"
  using treebin_at_mst [of s' s] by (simp add: layout_def bins_apart_def ok_address_def)

lemma ring_cong:
  assumes "ring s t xs" "\<And>x. x \<in> insert t (set xs) \<Longrightarrow>
      head s' x = head s x \<and> fd s' x = fd s x \<and> bk s' x = bk s x"
    "\<And>x. x \<in> set xs \<Longrightarrow> parent s' x = parent s x \<and> child s' x 0 = child s x 0 \<and> child s' x 1 = child s x 1"
  shows "ring s' t xs"
proof -
  have "linked s' (t # xs @ [t]) \<longleftrightarrow> linked s (t # xs @ [t])"
    by (rule linked_cong) (use assms(2) in \<open>auto dest: in_set_butlastD\<close>)
  then show ?thesis using assms by (auto simp: ring_def chunksize_def)
qed

lemma ring_sizes: "ring s t xs \<Longrightarrow> x \<in> insert t (set xs) \<Longrightarrow> chunksize s x = chunksize s t"
  by (auto simp: ring_def)

lemma large_binsD:
  assumes "large_bins s X C"
  shows "tree_bins s X" "layout s (large_all X C)" "\<And>i. i < NTREEBINS \<Longrightarrow> parents_at s (treebin_at s i) (X i)"
    "inj_on (chunksize s) (large_chunks X)" "\<And>t. t \<in> large_chunks X \<Longrightarrow> ring s t (C t)"
    "\<And>x. x \<in> large_all X C \<Longrightarrow> index s x = compute_tree_index (chunksize s x)"
    "\<And>i. i < NTREEBINS \<Longrightarrow> tree_bin s i (X i)" "\<And>i. i < NTREEBINS \<Longrightarrow> treemap_is_marked s i \<longleftrightarrow> X i \<noteq> Leaf"
  using assms by (simp_all add: large_bins_def tree_bins_def)

section \<open>What the operations on the large bins may change\<close>

definition large_frame :: "malloc_state \<Rightarrow> addr set \<Rightarrow> malloc_state \<Rightarrow> bool" where
  "large_frame s N s' \<longleftrightarrow>
     s' = s\<lparr>malloc_state.heap := malloc_state.heap s', treemap := treemap s'\<rparr>
       \<and> (\<forall>q\<in>N. head s' q = head s q)
       \<and> (\<forall>b. b \<notin> (\<Union>x\<in>N. node_fields x) \<longrightarrow> (\<forall>i < NTREEBINS. b \<noteq> treebin_at s i)
            \<longrightarrow> malloc_state.heap s' b = malloc_state.heap s b)"

lemma large_frame_refl: "large_frame s N s"
  by (simp add: large_frame_def)

lemma large_frame_trans: "large_frame s N s' \<Longrightarrow> large_frame s' N s'' \<Longrightarrow> large_frame s N s''"
proof -
  assume a: "large_frame s N s'" "large_frame s' N s''"
  then have r: "s' = s\<lparr>malloc_state.heap := malloc_state.heap s', treemap := treemap s'\<rparr>"
    "s'' = s'\<lparr>malloc_state.heap := malloc_state.heap s'', treemap := treemap s''\<rparr>"
    unfolding large_frame_def by blast+
  have "mst s' = mst s" by (subst r(1)) simp
  moreover have "s'' = s\<lparr>malloc_state.heap := malloc_state.heap s'', treemap := treemap s''\<rparr>"
    by (subst r(2), subst r(1)) simp
  ultimately show ?thesis using a by (simp add: large_frame_def treebin_at_mst [of s' s])
qed

lemma large_frame_keeps:
  assumes "large_frame s N s'"
  shows "mst s' = mst s" "least_addr s' = least_addr s" "q \<in> N \<Longrightarrow> chunksize s' q = chunksize s q"
proof -
  have r: "s' = s\<lparr>malloc_state.heap := malloc_state.heap s', treemap := treemap s'\<rparr>"
    using assms unfolding large_frame_def by blast
  show "mst s' = mst s" "least_addr s' = least_addr s" by (subst r, simp)+
  show "q \<in> N \<Longrightarrow> chunksize s' q = chunksize s q" using assms by (simp add: large_frame_def chunksize_def)
qed

lemma large_frame_wr:
  assumes "nodes_apart N" "p \<in> N" "i \<in> node_offsets" "i \<noteq> 8"
  shows "large_frame s N (wr (p + i) v s)"
proof -
  have "head (wr (p + i) v s) q = head s q" if "q \<in> N" for q
    unfolding head_def using heap_wr [OF assms(1,2) that assms(3), of 8] assms(4) by (simp add: offsets)
  moreover have "p + i \<in> (\<Union>x\<in>N. node_fields x)" using assms(2,3) by (auto simp: node_fields_def)
  ultimately show ?thesis by (auto simp: large_frame_def wr_def)
qed

lemma large_frame_writes:
  assumes "nodes_apart N" "p \<in> N"
  shows "large_frame s N (set_fd p v s)" "large_frame s N (set_bk p v s)" "large_frame s N (set_child p 0 v s)"
    "large_frame s N (set_child p 1 v s)" "large_frame s N (set_parent p v s)" "large_frame s N (set_index p x s)"
  unfolding field_defs by (rule large_frame_wr [OF assms]; simp add: offsets)+

lemma large_frame_bin:
  assumes "bins_apart s N" "i < NTREEBINS"
  shows "large_frame s N (wr (treebin_at s i) v s)"
proof -
  have "head (wr (treebin_at s i) v s) q = head s q" if "q \<in> N" for q
    using treebin_reads(1) [OF assms(1) that assms(2)] .
  then show ?thesis using assms(2) by (auto simp: large_frame_def wr_def)
qed

lemma large_frame_map: "large_frame s N (mark_treemap i s)" "large_frame s N (clear_treemap i s)"
  by (auto simp: large_frame_def mark_treemap_def clear_treemap_def head_def)

lemma large_frame_steps:
  assumes "nodes_apart N" "p \<in> N" "large_frame s N s'"
  shows "large_frame s N (set_fd p v s')" "large_frame s N (set_bk p v s')" "large_frame s N (set_child p 0 v s')"
    "large_frame s N (set_child p 1 v s')" "large_frame s N (set_parent p v s')" "large_frame s N (set_index p x s')"
  by (rule large_frame_trans [OF assms(3)], rule large_frame_writes [OF assms(1,2)])+

lemma large_frame_bin_steps:
  assumes "large_frame s N s'"
  shows "bins_apart s N \<Longrightarrow> i < NTREEBINS \<Longrightarrow> large_frame s N (wr (treebin_at s i) v s')"
    "large_frame s N (mark_treemap i s')" "large_frame s N (clear_treemap i s')"
proof -
  have t: "treebin_at s' = treebin_at s" by (rule treebin_at_mst [OF large_frame_keeps(1) [OF assms]])
  show "large_frame s N (wr (treebin_at s i) v s')" if "bins_apart s N" "i < NTREEBINS"
  proof -
    have "large_frame s' N (wr (treebin_at s' i) v s')"
      by (rule large_frame_bin) (use that t in \<open>simp_all add: bins_apart_def\<close>)
    then show ?thesis using large_frame_trans [OF assms] unfolding t by blast
  qed
qed (rule large_frame_trans [OF assms large_frame_map(1)] large_frame_trans [OF assms large_frame_map(2)])+

section \<open>Changing one bin\<close>

lemma large_bins_change:
  assumes inv: "large_bins s X C" and i: "i < NTREEBINS"
    and frame: "large_frame s N s'" "large_all X C \<subseteq> N"
    and tree: "tree_at s' (treebin s' i) T" "parents_at s' (treebin_at s i) T" "trie_ok (chunksize s) (bin_bits i) T"
      "inj_on (chunksize s) (set_tree T)"
    and nodes: "\<And>x. x \<in> set_tree T \<Longrightarrow> x \<in> N \<and> compute_tree_index (chunksize s x) = i
        \<and> MIN_LARGE_SIZE \<le> chunksize s x \<and> chunksize s x < 2 ^ 40 \<and> ring s' x (C' x)"
    and marks: "\<And>j. j < NTREEBINS \<Longrightarrow> treemap_is_marked s' j \<longleftrightarrow> (if j = i then T \<noteq> Leaf else treemap_is_marked s j)"
    and others: "\<And>j. j < NTREEBINS \<Longrightarrow> j \<noteq> i \<Longrightarrow> treebin s' j = treebin s j"
      "\<And>x. x \<in> large_all X C \<Longrightarrow> compute_tree_index (chunksize s x) \<noteq> i \<Longrightarrow> C' x = C x
         \<and> child s' x 0 = child s x 0 \<and> child s' x 1 = child s x 1 \<and> parent s' x = parent s x
         \<and> fd s' x = fd s x \<and> bk s' x = bk s x"
    and all: "layout s (large_all (X(i := T)) C')" "large_all (X(i := T)) C' \<subseteq> N"
      "\<And>x. x \<in> large_all (X(i := T)) C' \<Longrightarrow> index s' x = compute_tree_index (chunksize s x)"
  shows "large_bins s' (X(i := T)) C'"
  unfolding large_bins_def tree_bins_def
proof (intro conjI allI impI ballI)
  note D = large_binsD [OF inv]
  note B = tree_binD [OF D(7)]
  note keep = large_frame_keeps [OF frame(1)]
  have sz: "chunksize s' x = chunksize s x" if "x \<in> N" for x using keep(3) that .
  have mem: "x \<in> large_all X C" "compute_tree_index (chunksize s x) = j" if "x \<in> set_tree (X j)" "j < NTREEBINS" for x j
    using bin_in_chunks [of j X] chunks_in_all [of x X C] B(4) [OF that(2,1)] that by auto
  fix j :: bindex
  assume j: "j < NTREEBINS"
  show "treemap_is_marked s' j \<longleftrightarrow> (X(i := T)) j \<noteq> Leaf" using marks [OF j] D(8) [OF j] by simp
  show "tree_bin s' j ((X(i := T)) j)"
  proof (cases "j = i")
    case True
    have "trie_ok (chunksize s') (bin_bits i) T \<longleftrightarrow> trie_ok (chunksize s) (bin_bits i) T"
      by (rule trie_ok_cong) (use sz nodes in blast)
    then show ?thesis using True tree nodes sz by (simp add: tree_bin_def)
  next
    case False
    have "tree_at s' (treebin s j) (X j) \<longleftrightarrow> tree_at s (treebin s j) (X j)"
      by (rule tree_at_cong) (use others(2) mem j False in blast)
    moreover have sj: "chunksize s' x = chunksize s x" if "x \<in> set_tree (X j)" for x
      using sz mem(1) [OF that j] frame(2) by blast
    moreover have "trie_ok (chunksize s') (bin_bits j) (X j) \<longleftrightarrow> trie_ok (chunksize s) (bin_bits j) (X j)"
      by (rule trie_ok_cong) (rule sj)
    ultimately show ?thesis using False D(7) [OF j] others(1) [OF j False] by (simp add: tree_bin_def)
  qed
  show "parents_at s' (treebin_at s' j) ((X(i := T)) j)"
  proof (cases "j = i")
    case False
    have "parents_at s' (treebin_at s j) (X j) \<longleftrightarrow> parents_at s (treebin_at s j) (X j)"
      by (rule parents_at_cong) (use others(2) mem j False in blast)
    then show ?thesis using False D(3) [OF j] by (simp add: treebin_at_mst [OF keep(1)])
  qed (use tree(2) in \<open>simp add: treebin_at_mst [OF keep(1)]\<close>)
next
  note D = large_binsD [OF inv]
  note B = tree_binD [OF D(7)]
  note keep = large_frame_keeps [OF frame(1)]
  have sz: "chunksize s' x = chunksize s x" if "x \<in> N" for x using keep(3) that .
  have chunk: "(x \<in> set_tree T \<and> compute_tree_index (chunksize s x) = i)
      \<or> (x \<in> large_chunks X \<and> compute_tree_index (chunksize s x) \<noteq> i)" if x: "x \<in> large_chunks (X(i := T))" for x
  proof -
    obtain j where j: "j < NTREEBINS" "x \<in> set_tree ((X(i := T)) j)"
      using x unfolding large_chunks_def by blast
    show ?thesis
    proof (cases "j = i")
      case True
      then show ?thesis using j(2) nodes by simp
    next
      case False
      then show ?thesis using j B(4) [OF j(1), of x] bin_in_chunks [OF j(1), of X] by auto
    qed
  qed
  have in_N: "x \<in> N" if "x \<in> large_chunks (X(i := T))" for x
    using chunk [OF that] nodes chunks_in_all [of x X C] frame(2) by blast
  show "layout s' (large_all (X(i := T)) C')" using all(1) layout_cong [OF keep(1,2)] by simp
  show "index s' x = compute_tree_index (chunksize s' x)" if "x \<in> large_all (X(i := T)) C'" for x
    using all(2,3) that sz by (metis subsetD)
  show "inj_on (chunksize s') (large_chunks (X(i := T)))"
  proof (rule inj_onI)
    fix x y
    assume xy: "x \<in> large_chunks (X(i := T))" "y \<in> large_chunks (X(i := T))" "chunksize s' x = chunksize s' y"
    then have e: "chunksize s x = chunksize s y" using sz in_N by simp
    show "x = y" using chunk [OF xy(1)] chunk [OF xy(2)] e inj_onD [OF tree(4) e] inj_onD [OF D(4) e] by auto
  qed
  fix t
  assume t: "t \<in> large_chunks (X(i := T))"
  show "ring s' t (C' t)"
    using chunk [OF t]
  proof (elim disjE conjE)
    assume o: "t \<in> large_chunks X" "compute_tree_index (chunksize s t) \<noteq> i"
    have "ring s t (C t)" by (rule D(5) [OF o(1)])
    then have same: "compute_tree_index (chunksize s x) \<noteq> i" if "x \<in> insert t (set (C t))" for x
      using that o(2) by (auto simp: ring_def)
    have "ring s' t (C t)"
    proof (rule ring_cong [OF \<open>ring s t (C t)\<close>])
      fix x
      assume x: "x \<in> insert t (set (C t))"
      then have "x \<in> large_all X C" using chunks_in_all [OF o(1)] by blast
      then show "head s' x = head s x \<and> fd s' x = fd s x \<and> bk s' x = bk s x"
        using others(2) [OF _ same [OF x]] frame by (auto simp: large_frame_def)
    next
      fix x
      assume x: "x \<in> set (C t)"
      then have "x \<in> large_all X C" using chunks_in_all [OF o(1)] by blast
      then show "parent s' x = parent s x \<and> child s' x 0 = child s x 0 \<and> child s' x 1 = child s x 1"
        using others(2) [OF _ same] x by blast
    qed
    moreover have "C' t = C t" using others(2) [OF _ o(2)] chunks_in_all [OF o(1), of C] by blast
    ultimately show ?thesis by simp
  qed (use nodes in blast)
qed

lemma new_node:
  assumes inv: "large_bins s X C"
    and i: "i < NTREEBINS" "compute_tree_index (chunksize s P) = i"
    and size: "MIN_LARGE_SIZE \<le> chunksize s P" "chunksize s P < 2 ^ 40"
    and fresh: "P \<notin> large_all X C" "layout s (insert P (large_all X C))"
    and new: "chunksize s P \<notin> chunksize s ` set_tree (X i)"
    and tree: "tree_at s' (treebin s' i) T" "parents_at s' (treebin_at s i) T"
      "T = trie_insert (chunksize s) (bin_bits i) P (X i)"
    and frame: "large_frame s (insert P (large_all X C)) s'"
    and reads: "\<And>q. q \<in> insert P (large_all X C) \<Longrightarrow> fd s' q = (if q = P then P else fd s q)
        \<and> bk s' q = (if q = P then P else bk s q) \<and> index s' q = (if q = P then i else index s q)"
      "\<And>q. q \<in> large_all X C \<Longrightarrow> parent s' q = parent s q"
      "\<And>q. q \<in> large_all X C \<Longrightarrow> q \<notin> set_tree (X i) \<Longrightarrow> child s' q 0 = child s q 0 \<and> child s' q 1 = child s q 1"
    and rest: "\<And>j. j < NTREEBINS \<Longrightarrow> j \<noteq> i \<Longrightarrow> treebin s' j = treebin s j"
      "\<And>j. j < NTREEBINS \<Longrightarrow> treemap_is_marked s' j \<longleftrightarrow> j = i \<or> treemap_is_marked s j"
  shows "large_bins s' (X(i := T)) (C(P := [])) \<and> large_all (X(i := T)) (C(P := [])) = insert P (large_all X C)"
proof -
  let ?X = "X(i := T)" and ?C = "C(P := [])"
  note D = large_binsD [OF inv]
  note B = tree_binD [OF D(7)]
  have above: "same_above (chunksize s) (bin_bits i) (chunksize s P) (X i)"
    using bin_same_above [OF _ _ size] B(4-6) [OF i(1)] i(2) by (auto simp: same_above_def)
  have T: "set_tree T = insert P (set_tree (X i))" "trie_ok (chunksize s) (bin_bits i) T"
    using set_trie_insert [OF B(2) [OF i(1)] above] trie_insert_ok [OF B(2) [OF i(1)] above] new tree(3) by auto
  then have "T \<noteq> Leaf" by auto
  have chunks: "large_chunks ?X = insert P (large_chunks X)"
    using T(1) i(1) by (auto simp: large_chunks_def split: if_splits)
  have P: "P \<notin> large_chunks X" using fresh(1) chunks_in_all by blast
  have "(\<Union>t\<in>large_chunks X. insert t (set (?C t))) = large_all X C"
    unfolding large_all_def by (rule SUP_cong) (use P in auto)
  then have all: "large_all ?X ?C = insert P (large_all X C)" unfolding large_all_def chunks by simp
  have mem: "x \<in> large_chunks X" "x \<in> large_all X C" "x \<noteq> P" if "x \<in> set_tree (X j)" "j < NTREEBINS" for x j
    using bin_in_chunks [of j X] chunks_in_all [of x X C] P that by auto
  have "large_bins s' ?X ?C"
  proof (rule large_bins_change [OF inv i(1) frame _ tree(1,2) T(2)])
    have "inj_on (chunksize s) (set_tree (X i))" using D(4) bin_in_chunks [OF i(1)] inj_on_subset by blast
    then show "inj_on (chunksize s) (set_tree T)" using new T(1) by (auto simp: inj_on_insert)
    fix x
    assume "x \<in> set_tree T"
    then consider "x = P" | "x \<in> set_tree (X i)" using T(1) by auto
    then show "x \<in> insert P (large_all X C) \<and> compute_tree_index (chunksize s x) = i
        \<and> MIN_LARGE_SIZE \<le> chunksize s x \<and> chunksize s x < 2 ^ 40 \<and> ring s' x (?C x)"
    proof cases
      case 1
      then show ?thesis using i size reads(1) [of P] by (simp add: ring_def)
    next
      case 2
      have "ring s' x (C x)"
      proof (rule ring_cong [OF D(5) [OF mem(1) [OF 2 i(1)]]])
        fix y
        assume y: "y \<in> insert x (set (C x))"
        then have "y \<in> large_all X C" "y \<noteq> P" using chunks_in_all [OF mem(1) [OF 2 i(1)]] fresh(1) by blast+
        then show "head s' y = head s y \<and> fd s' y = fd s y \<and> bk s' y = bk s y"
          using reads(1) [of y] frame by (simp add: large_frame_def)
      next
        fix y
        assume y: "y \<in> set (C x)"
        then have yA: "y \<in> large_all X C" using chunks_in_all [OF mem(1) [OF 2 i(1)]] by blast
        have r: "ring s x (C x)" by (rule D(5) [OF mem(1) [OF 2 i(1)]])
        have "y \<notin> set_tree (X i)"
        proof
          assume "y \<in> set_tree (X i)"
          then have "y = x" using r y D(4) mem(1) [OF _ i(1)] 2 by (auto simp: ring_def inj_on_def)
          then show False using r y by (simp add: ring_def)
        qed
        then show "parent s' y = parent s y \<and> child s' y 0 = child s y 0 \<and> child s' y 1 = child s y 1"
          using reads(2,3) yA by blast
      qed
      then show ?thesis using B(4-6) [OF i(1) 2] mem [OF 2 i(1)] by simp
    qed
  next
    fix x
    assume x: "x \<in> large_all X C" "compute_tree_index (chunksize s x) \<noteq> i"
    then have "x \<notin> set_tree (X i)" "x \<noteq> P" using B(4) [OF i(1)] i(2) by auto
    then show "?C x = C x \<and> child s' x 0 = child s x 0 \<and> child s' x 1 = child s x 1 \<and> parent s' x = parent s x
         \<and> fd s' x = fd s x \<and> bk s' x = bk s x"
      using reads x(1) by simp
  next
    fix x
    assume "x \<in> large_all ?X ?C"
    then show "index s' x = compute_tree_index (chunksize s x)" unfolding all using reads(1) [of x] D(6) [of x] i(2) by auto
  qed (use rest all fresh(2) \<open>T \<noteq> Leaf\<close> in auto)
  with all show ?thesis by blast
qed

lemma ring_insert:
  assumes "ring s a xs" "nodes_apart N" "set (P # a # xs) \<subseteq> N" "P \<notin> set (a # xs)" "chunksize s' P = chunksize s' a"
    and reads: "\<And>q. q \<in> N \<Longrightarrow> fd s' q = (if q = P then fd s a else if q = a then P else fd s q)"
      "\<And>q. q \<in> N \<Longrightarrow> bk s' q = (if q = P then a else if q = fd s a then P else bk s q)"
      "\<And>q. q \<in> set xs \<Longrightarrow> parent s' q = parent s q \<and> child s' q 0 = child s q 0 \<and> child s' q 1 = child s q 1"
      "\<And>q. q \<in> insert a (set xs) \<Longrightarrow> head s' q = head s q"
      "parent s' P = 0 \<and> child s' P 0 = 0 \<and> child s' P 1 = 0"
  shows "ring s' a (P # xs)"
proof -
  note apart = apart_links [OF assms(2)]
  obtain F r where F: "xs @ [a] = F # r" by (cases xs) auto
  have r: "linked s (a # F # r)" "distinct (a # xs)" using assms(1) by (simp_all add: ring_def F)
  then have fd: "fd s a = F" by simp
  have N: "set (P # a # F # r) \<subseteq> N" using assms(3) arg_cong [OF F, of set] by auto
  have "distinct (P # a # butlast (F # r))" "last (F # r) = a"
    using r(2) assms(4) F by (metis butlast_snoc distinct.simps(2) list.set_intros(1) list.set_intros(2) set_ConsD, metis last_snoc)
  then have "linked (link_small a F P s) (a # P # F # r)" using linked_insert r(1) apart N by blast
  moreover have "linked s' (a # P # F # r) \<longleftrightarrow> linked (link_small a F P s) (a # P # F # r)"
  proof (rule linked_cong)
    have in_N: "a \<in> N" "P \<in> N" "F \<in> N" using N by auto
    have "fd (link_small a F P s) x = (if x = P then F else if x = a then P else fd s x)
      \<and> bk (link_small a F P s) x = (if x = P then a else if x = F then P else bk s x)" if "x \<in> N" for x
      using fd_bk_apart [OF apart] in_N that by (simp add: link_small_def)
    then have e: "fd s' x = fd (link_small a F P s) x \<and> bk s' x = bk (link_small a F P s) x" if "x \<in> N" for x
      using reads(1,2) that by (simp add: fd)
    show "fd s' x = fd (link_small a F P s) x" if "x \<in> set (butlast (a # P # F # r))" for x
      using e N in_set_butlastD [OF that] by auto
    show "bk s' x = bk (link_small a F P s) x" if "x \<in> set (tl (a # P # F # r))" for x
      using e N that by auto
  qed
  ultimately have "linked s' (a # (P # xs) @ [a])" by (simp add: F)
  moreover have "chunksize s' x = chunksize s x" if "x \<in> insert a (set xs)" for x
    using reads(4) [OF that] by (simp add: chunksize_def)
  moreover have "distinct (a # P # xs)" using r(2) assms(4) by auto
  moreover have "chunksize s' x = chunksize s' a \<and> parent s' x = 0 \<and> child s' x 0 = 0 \<and> child s' x 1 = 0"
    if "x \<in> set (P # xs)" for x
  proof (cases "x \<in> set xs")
    case True
    then have "chunksize s x = chunksize s a \<and> parent s x = 0 \<and> child s x 0 = 0 \<and> child s x 1 = 0"
      using assms(1) unfolding ring_def by blast
    then show ?thesis using True reads(3) \<open>\<And>x. x \<in> insert a (set xs) \<Longrightarrow> chunksize s' x = chunksize s x\<close> by simp
  next
    case False
    then show ?thesis using that assms(5) reads(5) by auto
  qed
  ultimately show ?thesis unfolding ring_def by blast
qed

lemma new_member:
  assumes inv: "large_bins s X C" and i: "i < NTREEBINS" and a: "a \<in> set_tree (X i)" "chunksize s P = chunksize s a"
    and fresh: "P \<notin> large_all X C" "layout s (insert P (large_all X C))"
    and frame: "large_frame s (insert P (large_all X C)) s'"
    and reads: "\<And>q. q \<in> insert P (large_all X C) \<Longrightarrow>
        fd s' q = (if q = P then fd s a else if q = a then P else fd s q)
        \<and> bk s' q = (if q = P then a else if q = fd s a then P else bk s q)
        \<and> parent s' q = (if q = P then 0 else parent s q)
        \<and> index s' q = (if q = P then i else index s q)
        \<and> child s' q 0 = (if q = P then 0 else child s q 0) \<and> child s' q 1 = (if q = P then 0 else child s q 1)"
    and rest: "\<And>j. j < NTREEBINS \<Longrightarrow> treebin s' j = treebin s j" "treemap s' = treemap s"
  shows "large_bins s' X (C(a := P # C a)) \<and> large_all X (C(a := P # C a)) = insert P (large_all X C)"
proof -
  let ?C = "C(a := P # C a)" and ?N = "insert P (large_all X C)"
  note D = large_binsD [OF inv]
  note B = tree_binD [OF D(7)]
  have mem: "x \<in> large_chunks X" "insert x (set (C x)) \<subseteq> large_all X C - {P}" if "x \<in> set_tree (X j)" "j < NTREEBINS" for x j
    using bin_in_chunks [of j X] chunks_in_all [of x X C] fresh(1) that by auto
  note aX = mem [OF a(1) i]
  have "(\<Union>t\<in>large_chunks X. insert t (set (?C t))) = (\<Union>t\<in>large_chunks X. insert t (set (C t))) \<union> {P}"
    using aX(1) by (auto split: if_splits)
  then have all: "large_all X ?C = ?N" by (simp add: large_all_def)
  have fd_ring: "fd s a \<in> insert a (set (C a))"
    using D(5) [OF aX(1)] by (cases "C a") (auto simp: ring_def)
  have "large_bins s' (X(i := X i)) ?C"
  proof (rule large_bins_change [OF inv i frame])
    have "tree_at s' (treebin s i) (X i) \<longleftrightarrow> tree_at s (treebin s i) (X i)"
      by (rule tree_at_cong) (use reads mem i in auto)
    then show "tree_at s' (treebin s' i) (X i)" using B(1) [OF i] rest(1) [OF i] by simp
    have "parents_at s' (treebin_at s i) (X i) \<longleftrightarrow> parents_at s (treebin_at s i) (X i)"
      by (rule parents_at_cong) (use reads mem i in auto)
    then show "parents_at s' (treebin_at s i) (X i)" using D(3) [OF i] by simp
    show "inj_on (chunksize s) (set_tree (X i))" using D(4) bin_in_chunks [OF i] inj_on_subset by blast
    fix x
    assume x: "x \<in> set_tree (X i)"
    have "ring s' x (?C x)"
    proof (cases "x = a")
      case True
      have "ring s' a (P # C a)"
      proof (rule ring_insert [OF D(5) [OF aX(1)], where N = ?N])
        show "chunksize s' P = chunksize s' a" using large_frame_keeps(3) [OF frame] a(2) aX(2) by simp
        show "nodes_apart ?N" using fresh(2) by (simp add: layout_def)
        show "parent s' q = parent s q \<and> child s' q 0 = child s q 0 \<and> child s' q 1 = child s q 1"
          if "q \<in> set (C a)" for q
        proof -
          have "q \<in> large_all X C" "q \<noteq> P" using aX(2) that by auto
          then show ?thesis using reads [of q] by simp
        qed
        show "head s' q = head s q" if "q \<in> insert a (set (C a))" for q
          using frame aX(2) that by (auto simp: large_frame_def)
      qed (use reads aX(2) in auto)
      then show ?thesis using True by simp
    next
      case False
      have r: "ring s x (C x)" "ring s a (C a)" using D(5) mem(1) [OF _ i] x a(1) by auto
      have "chunksize s x \<noteq> chunksize s a" using D(4) mem(1) [OF _ i] x a(1) False by (auto simp: inj_on_def)
      moreover have "chunksize s y = chunksize s x" if "y \<in> insert x (set (C x))" for y
        using ring_sizes [OF r(1) that] .
      moreover have "chunksize s a = chunksize s a \<and> chunksize s (fd s a) = chunksize s a"
        using ring_sizes [OF r(2) fd_ring] by simp
      ultimately have apart: "y \<noteq> a \<and> y \<noteq> fd s a" if "y \<in> insert x (set (C x))" for y
        using that by metis
      have in_N: "y \<in> large_all X C \<and> y \<noteq> P" if "y \<in> insert x (set (C x))" for y using mem(2) [OF x i] that by blast
      have "ring s' x (C x)"
      proof (rule ring_cong [OF r(1)])
        fix y
        assume y: "y \<in> insert x (set (C x))"
        then show "head s' y = head s y \<and> fd s' y = fd s y \<and> bk s' y = bk s y"
          using apart [OF y] reads [of y] in_N [OF y] frame by (simp add: large_frame_def)
      next
        fix y
        assume "y \<in> set (C x)"
        then show "parent s' y = parent s y \<and> child s' y 0 = child s y 0 \<and> child s' y 1 = child s y 1"
          using reads [of y] in_N [of y] by simp
      qed
      then show ?thesis using False by simp
    qed
    then show "x \<in> ?N \<and> compute_tree_index (chunksize s x) = i
        \<and> MIN_LARGE_SIZE \<le> chunksize s x \<and> chunksize s x < 2 ^ 40 \<and> ring s' x (?C x)"
      using B(4-6) [OF i x] mem(2) [OF x i] by blast
  next
    fix x
    assume x: "x \<in> large_all X C" "compute_tree_index (chunksize s x) \<noteq> i"
    have "chunksize s (fd s a) = chunksize s a" by (rule ring_sizes [OF D(5) [OF aX(1)] fd_ring])
    then have "x \<noteq> P" "x \<noteq> a" "x \<noteq> fd s a" using x(2) B(4) [OF i a(1)] a(2) by auto
    then show "?C x = C x \<and> child s' x 0 = child s x 0 \<and> child s' x 1 = child s x 1 \<and> parent s' x = parent s x
         \<and> fd s' x = fd s x \<and> bk s' x = bk s x"
      using reads x(1) by simp
  next
    fix x
    assume "x \<in> large_all (X(i := X i)) ?C"
    then show "index s' x = compute_tree_index (chunksize s x)"
      using all reads [of x] D(6) [of x] B(4) [OF i a(1)] a(2) by auto
  next
    show "treemap_is_marked s' j \<longleftrightarrow> (if j = i then X i \<noteq> Leaf else treemap_is_marked s j)" if "j < NTREEBINS" for j
      using rest(2) D(8) [OF that] by (auto simp: treemap_is_marked_def)
  qed (use rest(1) all fresh(2) B(2) [OF i] in auto)
  with all show ?thesis by simp
qed

section \<open>\<open>insert_large_chunk\<close>\<close>

lemma trie_insert_cong:
  "(\<And>x. x \<in> insert P (set_tree T) \<Longrightarrow> sz' x = sz x) \<Longrightarrow> trie_insert sz' k P T = trie_insert sz k P T"
  by (induction T arbitrary: k) auto

lemma ok_child_at:
  assumes "ok_address s x" "unat x + 64 \<le> 2 ^ 64" "b \<in> {0, 1}"
  shows "ok_address s (child_at x b)"
proof -
  have "x \<le> x + 32" "x \<le> x + 40"
    using assms(2) by (simp_all add: word_le_nat_alt unat_add_lem [THEN iffD1])
  then show ?thesis using assms(1,3) by (auto simp: ok_address_def child_offsets)
qed

lemma cleared_node:
  assumes "large_bins s X C" "P \<notin> large_all X C" "layout s (insert P (large_all X C))"
    and s0: "s0 = set_child P 0 0 (set_child P 1 0 (set_index P I s))"
  shows "\<And>q. q \<in> insert P (large_all X C) \<Longrightarrow> head s0 q = head s q \<and> fd s0 q = fd s q \<and> bk s0 q = bk s q
      \<and> child s0 q 0 = (if q = P then 0 else child s q 0) \<and> child s0 q 1 = (if q = P then 0 else child s q 1)
      \<and> parent s0 q = parent s q \<and> index s0 q = (if q = P then I else index s q)"
    "\<And>j. j < NTREEBINS \<Longrightarrow> treebin s0 j = treebin s j"
    "large_frame s (insert P (large_all X C)) s0" "treemap s0 = treemap s"
    "\<And>i. i < NTREEBINS \<Longrightarrow> tree_bin s0 i (X i)" "\<And>i. i < NTREEBINS \<Longrightarrow> parents_at s0 (treebin_at s i) (X i)"
proof -
  define N where "N = insert P (large_all X C)"
  have apart: "nodes_apart N" "bins_apart s N" using assms(3) by (simp_all add: layout_def N_def)
  have P: "P \<in> N" by (simp add: N_def)
  have r: "\<And>q. q \<in> N \<Longrightarrow> head s0 q = head s q \<and> fd s0 q = fd s q \<and> bk s0 q = bk s q
      \<and> child s0 q 0 = (if q = P then 0 else child s q 0) \<and> child s0 q 1 = (if q = P then 0 else child s q 1)
      \<and> parent s0 q = parent s q \<and> index s0 q = (if q = P then I else index s q)"
    unfolding s0 by (simp add: node_simps [OF apart(1) P])
  then show "\<And>q. q \<in> insert P (large_all X C) \<Longrightarrow> head s0 q = head s q \<and> fd s0 q = fd s q \<and> bk s0 q = bk s q
      \<and> child s0 q 0 = (if q = P then 0 else child s q 0) \<and> child s0 q 1 = (if q = P then 0 else child s q 1)
      \<and> parent s0 q = parent s q \<and> index s0 q = (if q = P then I else index s q)"
    unfolding N_def .
  show bin: "treebin s0 j = treebin s j" if "j < NTREEBINS" for j
    unfolding s0 by (simp add: treebin_writes [OF apart(2) P that])
  show "large_frame s (insert P (large_all X C)) s0"
    unfolding s0 N_def [symmetric] by (intro large_frame_steps [OF apart(1) P] large_frame_refl)
  show "treemap s0 = treemap s" unfolding s0 by simp
  note D = large_binsD [OF assms(1)]
  have mem: "x \<in> N \<and> x \<noteq> P" if "x \<in> set_tree (X j)" "j < NTREEBINS" for x j
    using bin_in_chunks [of j X] chunks_in_all [of x X C] assms(2) that unfolding N_def by blast
  fix i :: bindex
  assume i: "i < NTREEBINS"
  have "tree_at s0 (treebin s i) (X i) \<longleftrightarrow> tree_at s (treebin s i) (X i)"
    by (rule tree_at_cong) (use r mem i in simp)
  moreover have sz: "chunksize s0 x = chunksize s x" if "x \<in> set_tree (X i)" for x
    using r mem [OF that i] by (simp add: chunksize_def)
  then have "trie_ok (chunksize s0) (bin_bits i) (X i) \<longleftrightarrow> trie_ok (chunksize s) (bin_bits i) (X i)"
    by (rule trie_ok_cong)
  ultimately show "tree_bin s0 i (X i)" using D(7) [OF i] bin [OF i] sz by (simp add: tree_bin_def)
  have "parents_at s0 (treebin_at s i) (X i) \<longleftrightarrow> parents_at s (treebin_at s i) (X i)"
    by (rule parents_at_cong) (use r mem i in simp)
  then show "parents_at s0 (treebin_at s i) (X i)" using D(3) [OF i] by simp
qed

lemma insert_large_chunk_adds:
  assumes inv: "large_bins s X C" and fresh: "P \<notin> large_all X C" "layout s (insert P (large_all X C))"
    and size: "MIN_LARGE_SIZE \<le> chunksize s P" "chunksize s P < 2 ^ 40"
  shows "\<exists>s' X' C'. insert_large_chunk P (chunksize s P) s = Ret s' \<and> large_bins s' X' C'
    \<and> large_all X' C' = insert P (large_all X C) \<and> large_frame s (insert P (large_all X C)) s'"
proof -
  let ?S = "chunksize s P"
  define N where "N = insert P (large_all X C)"
  define I where "I = compute_tree_index ?S"
  define s0 where "s0 = set_child P 0 0 (set_child P 1 0 (set_index P I s))"
  have I: "I < NTREEBINS" using tree_index_in_bin [OF size] unfolding I_def by blast
  have apart: "nodes_apart N" "bins_apart s N" "P \<noteq> 0" using fresh(2) by (simp_all add: layout_def N_def)
  have P: "P \<in> N" "\<And>q. q \<in> large_all X C \<Longrightarrow> q \<in> N \<and> q \<noteq> P" using fresh(1) by (auto simp: N_def)
  note D = large_binsD [OF inv]
  note r = cleared_node [OF inv fresh s0_def, folded N_def]
  have sz: "chunksize s0 q = chunksize s q" if "q \<in> N" for q using r(1) [OF that] by (simp add: chunksize_def)
  have mem: "x \<in> large_all X C \<and> x \<noteq> P" if "x \<in> set_tree (X j)" "j < NTREEBINS" for x j
    using bin_in_chunks [of j X] chunks_in_all [of x X C] fresh(1) that by blast
  have m: "mst s0 = mst s" "least_addr s0 = least_addr s" using large_frame_keeps [OF r(3)] by auto
  show ?thesis
  proof (cases "treemap_is_marked s0 I")
    case False
    then have leaf: "X I = Leaf" using D(8) [OF I] r(4) by (simp add: treemap_is_marked_def)
    define s' where "s' = set_fd P P (set_bk P P (set_parent P (treebin_at s I) (wr (treebin_at s I) P (mark_treemap I s0))))"
    have e: "insert_large_chunk P ?S s = Ret s'"
      unfolding insert_large_chunk_def Let_def s'_def s0_def [symmetric] I_def [symmetric]
      using False by simp
    note rd = node_simps [OF apart(1) P(1)] treebin_reads [OF apart(2) _ I] treebin_writes [OF apart(2) P(1)]
      treebin_write_bin [OF I]
    have nodes: "q \<in> N \<Longrightarrow> head s' q = head s q \<and> fd s' q = (if q = P then P else fd s q)
        \<and> bk s' q = (if q = P then P else bk s q) \<and> index s' q = (if q = P then I else index s q)
        \<and> parent s' q = (if q = P then treebin_at s I else parent s q)
        \<and> child s' q 0 = child s0 q 0 \<and> child s' q 1 = child s0 q 1" for q
      unfolding s'_def using r(1) [of q] by (simp add: rd)
    have bins: "treebin s' j = (if j = I then P else treebin s j)" if "j < NTREEBINS" for j
      unfolding s'_def using that r(2) m by (simp add: rd)
    have frame: "large_frame s N s'"
      unfolding s'_def by (intro large_frame_steps [OF apart(1) P(1)] large_frame_bin_steps r(3) apart(2) I)
    have "large_bins s' (X(I := Node Leaf P Leaf)) (C(P := [])) \<and> large_all (X(I := Node Leaf P Leaf)) (C(P := [])) = N"
      unfolding N_def
    proof (rule new_node [OF inv I I_def [symmetric] size fresh, of s' "Node Leaf P Leaf"])
      show "tree_at s' (treebin s' I) (Node Leaf P Leaf)"
        using bins [OF I] nodes [OF P(1)] r(1) [OF P(1)] apart(3) by simp
      show "parents_at s' (treebin_at s I) (Node Leaf P Leaf)" using nodes [OF P(1)] by simp
      show "treemap_is_marked s' j \<longleftrightarrow> j = I \<or> treemap_is_marked s j" if "j < NTREEBINS" for j
        using marked_tree(1) [OF I that, of s0] r(4) by (simp add: s'_def treemap_is_marked_def)
    qed (use frame nodes leaf bins r(1) P in \<open>auto simp flip: N_def\<close>)
    then show ?thesis using e frame unfolding N_def by blast
  next
    case True
    let ?k = "bin_bits I"
    have nonempty: "X I \<noteq> Leaf" using True D(8) [OF I] r(4) by (simp add: treemap_is_marked_def)
    note B = tree_binD [OF r(5) [OF I]]
    have S: "chunksize s0 P = ?S" using sz P(1) by blast
    have above: "same_above (chunksize s0) ?k (chunksize s0 P) (X I)"
      using bin_same_above [of _ ?S] B(4-6) size S I_def unfolding same_above_def by metis
    have P': "P \<notin> set_tree (X I)" using mem I by blast
    have k: "?k \<le> 64" "leftshift_for_tree_index I = 64 - ?k" using bin_bits_le [OF I] by auto
    obtain place where place: "tree_place_from s0 ?S (treebin s0 I) (push_bit (64 - ?k) ?S) = Some place"
      "place_ok s0 ?k (X I) P place"
      using place_in_trie [OF B(1) nonempty B(2) above k(1) apart(3) P'] unfolding S by blast
    have bin: "malloc_state.heap s0 (treebin_at s I) = treebin s0 I"
      using treebin_at_mst [OF m(1)] by (simp add: treebin_def)
    have e: "insert_large_chunk P ?S s = (case place of
        Free_slot a c \<Rightarrow> if ok_address s0 c then Ret (set_fd P P (set_bk P P (set_parent P a (wr c P s0)))) else Trap
      | Same_size a \<Rightarrow> if ok_address s0 a \<and> ok_address s0 (fd s0 a)
          then Ret (set_parent P 0 (set_bk P a (set_fd P (fd s0 a) (set_fd a P (set_bk (fd s0 a) P s0))))) else Trap)"
      unfolding insert_large_chunk_def Let_def s0_def [symmetric] I_def [symmetric] k(2)
      using True place(1) by (simp add: bin)
    have ok: "ok_address s0 x" "unat x + 64 \<le> 2 ^ 64" if "x \<in> N" for x
      using fresh(2) that m(2) by (auto simp: layout_def N_def ok_address_def)
    show ?thesis
    proof (cases place)
      case (Free_slot a c)
      then obtain b where a: "a \<in> set_tree (X I)" "?S \<notin> chunksize s0 ` set_tree (X I)" "b = 0 \<or> b = 1"
        "c = child_at a b" "slot_of s0 (X I) P a b (trie_insert (chunksize s0) ?k P (X I))"
        using place(2) by (auto simp: place_ok_def S)
      have aN: "a \<in> N" "a \<noteq> P" using mem [OF a(1) I] P(2) by auto
      define s1 where "s1 = set_child a b P s0"
      define s' where "s' = set_fd P P (set_bk P P (set_parent P a s1))"
      have e': "insert_large_chunk P ?S s = Ret s'"
        unfolding e Free_slot s'_def s1_def a(4)
        using ok_child_at [OF ok [OF aN(1)]] a(3) by (auto simp: set_child_def)
      note rd = node_simps [OF apart(1) P(1)] treebin_writes [OF apart(2) P(1)]
      have one: "q \<in> N \<Longrightarrow> head s1 q = head s0 q \<and> fd s1 q = fd s0 q \<and> bk s1 q = bk s0 q \<and> index s1 q = index s0 q
          \<and> parent s1 q = parent s0 q \<and> child s1 q 0 = (if q = a \<and> b = 0 then P else child s0 q 0)
          \<and> child s1 q 1 = (if q = a \<and> b = 1 then P else child s0 q 1)" for q
        unfolding s1_def using a(3) by (auto simp: node_simps [OF apart(1) aN(1)])
      have bins1: "treebin s1 j = treebin s j" if "j < NTREEBINS" for j
        unfolding s1_def using a(3) that r(2) m(1) by (auto simp: treebin_writes [OF apart(2) aN(1)])
      have frame1: "large_frame s N s1"
        unfolding s1_def using a(3) r(3) by (auto intro: large_frame_steps [OF apart(1) aN(1)])
      have nodes: "q \<in> N \<Longrightarrow> head s' q = head s q \<and> fd s' q = (if q = P then P else fd s q)
          \<and> bk s' q = (if q = P then P else bk s q) \<and> index s' q = (if q = P then I else index s q)
          \<and> parent s' q = (if q = P then a else parent s q)
          \<and> child s' q 0 = child s1 q 0 \<and> child s' q 1 = child s1 q 1" for q
        unfolding s'_def using r(1) [of q] one [of q] by (simp add: rd)
      have bins: "treebin s' j = treebin s j" if "j < NTREEBINS" for j
        unfolding s'_def using bins1 [OF that] large_frame_keeps(1) [OF frame1] that by (simp add: rd)
      have frame: "large_frame s N s'"
        unfolding s'_def by (intro large_frame_steps [OF apart(1) P(1)] frame1)
      define T where "T = trie_insert (chunksize s) ?k P (X I)"
      have T: "trie_insert (chunksize s0) ?k P (X I) = T"
        unfolding T_def by (rule trie_insert_cong) (use sz P mem I in auto)
      have "large_bins s' (X(I := T)) (C(P := [])) \<and> large_all (X(I := T)) (C(P := [])) = N"
        unfolding N_def
      proof (rule new_node [OF inv I I_def [symmetric] size fresh, of s' T])
        have slot: "slot_of s0 (X I) P a b T" using a(5) T by simp
        have "\<forall>x\<in>insert P (set_tree (X I)). \<forall>d\<in>{0, 1}.
            child s' x d = (if x = P then 0 else if x = a \<and> d = b then P else child s0 x d)"
        proof (intro ballI)
          fix x and d :: size_t
          assume x: "x \<in> insert P (set_tree (X I))" and d: "d \<in> {0, 1}"
          have "x \<in> N" using x P mem [OF _ I] by auto
          then show "child s' x d = (if x = P then 0 else if x = a \<and> d = b then P else child s0 x d)"
            using nodes [of x] one [of x] r(1) [of x] aN d by auto
        qed
        then show "tree_at s' (treebin s' I) T"
          using slot B(1) bins [OF I] r(2) [OF I] unfolding slot_of_def by metis
        have "parent s' x = parent s0 x" if "x \<in> set_tree (X I)" for x
          using nodes [of x] r(1) [of x] mem [OF that I] P(2) by auto
        then show "parents_at s' (treebin_at s I) T"
          using slot r(6) [OF I] nodes [OF P(1)] unfolding slot_of_def by auto
        have "chunksize s0 ` set_tree (X I) = chunksize s ` set_tree (X I)"
          by (rule image_cong [OF refl]) (use sz P(2) mem I in blast)
        then show "?S \<notin> chunksize s ` set_tree (X I)" using a(2) by simp
        show "T = trie_insert (chunksize s) ?k P (X I)" by (rule T_def)
        show "treemap_is_marked s' j \<longleftrightarrow> j = I \<or> treemap_is_marked s j" if "j < NTREEBINS" for j
          using True r(4) a(3) by (auto simp: treemap_is_marked_def s'_def s1_def)
      qed (use frame nodes one bins r(1) P a(1) in \<open>auto simp flip: N_def\<close>)
      then show ?thesis using e' frame unfolding N_def by blast
    next
      case (Same_size a)
      then have a: "a \<in> set_tree (X I)" "chunksize s0 a = ?S" using place(2) by (auto simp: place_ok_def S)
      have aN: "a \<in> N" "a \<noteq> P" "a \<in> large_chunks X" using mem [OF a(1) I] P(2) bin_in_chunks [OF I, of X] a(1) by auto
      define F where "F = fd s a"
      have "F \<in> insert a (set (C a))"
        using D(5) [OF aN(3)] by (cases "C a") (auto simp: ring_def F_def)
      then have F: "F \<in> N" "F \<noteq> P" using chunks_in_all [OF aN(3), of C] P(2) by auto
      have fd: "fd s0 a = F" using r(1) [OF aN(1)] by (simp add: F_def)
      define s' where "s' = set_parent P 0 (set_bk P a (set_fd P F (set_fd a P (set_bk F P s0))))"
      have e': "insert_large_chunk P ?S s = Ret s'"
        unfolding e Same_size s'_def using ok(1) [OF aN(1)] ok(1) [OF F(1)] by (simp add: fd)
      note rd = node_simps [OF apart(1)] treebin_writes [OF apart(2)]
      have nodes: "q \<in> N \<Longrightarrow> head s' q = head s q \<and> fd s' q = (if q = P then F else if q = a then P else fd s q)
          \<and> bk s' q = (if q = P then a else if q = F then P else bk s q) \<and> index s' q = (if q = P then I else index s q)
          \<and> parent s' q = (if q = P then 0 else parent s q)
          \<and> child s' q 0 = child s0 q 0 \<and> child s' q 1 = child s0 q 1" for q
        unfolding s'_def using r(1) [of q] by (auto simp: rd P(1) aN(1) F(1))
      have bins: "treebin s' j = treebin s j" if "j < NTREEBINS" for j
        unfolding s'_def using that r(2) m(1) by (simp add: rd P(1) aN(1) F(1))
      have frame: "large_frame s N s'"
        unfolding s'_def by (intro large_frame_steps [OF apart(1)] P(1) aN(1) F(1) r(3))
      have "large_bins s' X (C(a := P # C a)) \<and> large_all X (C(a := P # C a)) = N"
        unfolding N_def
      proof (rule new_member [OF inv I a(1) _ fresh, of s'])
        show "?S = chunksize s a" using a(2) sz [OF aN(1)] by simp
        show "treemap s' = treemap s" using r(4) by (simp add: s'_def)
      qed (use frame nodes bins r(1) P in \<open>auto simp: F_def simp flip: N_def\<close>)
      then show ?thesis using e' frame unfolding N_def by blast
    qed
  qed
qed

end
