(* ===== verification/Dl_Unlink.thy ===== *)
theory Dl_Unlink
  imports Dl_Large
begin

unbundle bit_operations_syntax

text \<open>
  \<open>unlink_large_chunk\<close> takes its chunk out of the large bins and keeps their representation: a chunk on
  a ring leaves the ring, a node with a ring is replaced by a chunk of the ring, and a node without
  one by the rightmost leaf below it.
\<close>

section \<open>Trees with one node replaced\<close>

primrec at_node :: "'a \<Rightarrow> ('a tree \<Rightarrow> 'a tree) \<Rightarrow> 'a tree \<Rightarrow> 'a tree" where
  "at_node q f Leaf = Leaf"
| "at_node q f (Node l a r) =
     (if a = q then f (Node l a r) else Node (at_node q f l) a (at_node q f r))"

primrec split_leaf :: "addr tree \<Rightarrow> addr \<times> addr tree" where
  "split_leaf Leaf = (0, Leaf)"
| "split_leaf (Node l a r) =
     (if r \<noteq> Leaf then let (x, r') = split_leaf r in (x, Node l a r')
      else if l \<noteq> Leaf then let (x, l') = split_leaf l in (x, Node l' a r)
      else (a, Leaf))"

primrec drop_root :: "addr tree \<Rightarrow> addr tree" where
  "drop_root Leaf = Leaf"
| "drop_root (Node l a r) =
     (if r \<noteq> Leaf then let (x, r') = split_leaf r in Node l x r'
      else if l \<noteq> Leaf then let (x, l') = split_leaf l in Node l' x r
      else Leaf)"

primrec new_root :: "'a \<Rightarrow> 'a tree \<Rightarrow> 'a tree" where
  "new_root x Leaf = Leaf"
| "new_root x (Node l a r) = Node l x r"

lemma at_node_idle: "q \<notin> set_tree T \<Longrightarrow> at_node q f T = T"
  by (induction T) auto

lemma split_leaf_set: "T \<noteq> Leaf \<Longrightarrow> split_leaf T = (x, T') \<Longrightarrow> x \<in> set_tree T \<and> set_tree T' \<subseteq> set_tree T"
  by (induction T arbitrary: T') (fastforce split: if_splits prod.splits)+

text \<open>The trees of one bin: what \<open>tree_at\<close> and \<open>trie_ok\<close> say of a node and its subtrees\<close>

lemma tree_at_NodeD:
  assumes "tree_at s t (Node l a r)" "trie_ok sz k (Node l a r)"
  shows "t = a" "a \<noteq> 0" "tree_at s (child s a 0) l" "tree_at s (child s a 1) r"
    "a \<notin> set_tree l" "a \<notin> set_tree r" "set_tree l \<inter> set_tree r = {}"
    "trie_ok sz (k - 1) l" "trie_ok sz (k - 1) r"
  using assms tree_at_distinct [OF assms(1)] trie_sides_disjoint [OF assms(2)] by (auto split: if_splits)

lemma split_leaf_exact:
  assumes "tree_at s t T" "trie_ok sz k T" "T \<noteq> Leaf" "split_leaf T = (x, T')"
  shows "x \<in> set_tree T \<and> set_tree T' = set_tree T - {x} \<and> trie_ok sz k T'"
  using assms
proof (induction T arbitrary: t k T')
  case (Node l a r)
  note N = tree_at_NodeD [OF Node.prems(1,2)]
  consider "r \<noteq> Leaf" | "r = Leaf" "l \<noteq> Leaf" | "r = Leaf" "l = Leaf" by blast
  then show ?case
  proof cases
    case 1
    obtain r' where r: "split_leaf r = (x, r')" "T' = Node l a r'"
      using Node.prems(4) 1 by (auto split: prod.splits)
    from Node.IH(2) [OF N(4,9) 1 r(1)] show ?thesis using N Node.prems(2) r(2) by (auto split: if_splits)
  next
    case 2
    obtain l' where l: "split_leaf l = (x, l')" "T' = Node l' a r"
      using Node.prems(4) 2 by (auto split: prod.splits)
    from Node.IH(1) [OF N(3,8) 2(2) l(1)] show ?thesis using N Node.prems(2) l(2) by (auto split: if_splits)
  qed (use Node.prems in auto)
qed simp

lemma drop_root_exact:
  assumes "tree_at s t (Node l a r)" "trie_ok sz k (Node l a r)"
  shows "set_tree (drop_root (Node l a r)) = set_tree l \<union> set_tree r \<and> trie_ok sz k (drop_root (Node l a r))"
proof -
  note N = tree_at_NodeD [OF assms]
  consider "r \<noteq> Leaf" | "r = Leaf" "l \<noteq> Leaf" | "r = Leaf" "l = Leaf" by blast
  then show ?thesis
  proof cases
    case 1
    obtain x r' where r: "split_leaf r = (x, r')" by fastforce
    from split_leaf_exact [OF N(4,9) 1 r] show ?thesis using N assms(2) r 1 by (auto split: if_splits)
  next
    case 2
    obtain x l' where l: "split_leaf l = (x, l')" by fastforce
    from split_leaf_exact [OF N(3,8) 2(2) l] show ?thesis using N assms(2) l 2 by (auto split: if_splits)
  qed simp
qed

lemma at_node_exact:
  assumes "tree_at s t T" "trie_ok sz k T" "q \<in> set_tree T"
    and f: "\<And>t k l r. tree_at s t (Node l q r) \<Longrightarrow> trie_ok sz k (Node l q r) \<Longrightarrow>
        set_tree (f (Node l q r)) = A \<union> set_tree l \<union> set_tree r \<and> trie_ok sz k (f (Node l q r))"
    and A: "sz ` A \<subseteq> {sz q}"
  shows "set_tree (at_node q f T) = A \<union> (set_tree T - {q}) \<and> trie_ok sz k (at_node q f T)"
  using assms(1-3)
proof (induction T arbitrary: t k)
  case (Node l a r)
  note N = tree_at_NodeD [OF Node.prems(1,2)]
  consider "a = q" | "a \<noteq> q" "q \<in> set_tree l" "q \<notin> set_tree r" | "a \<noteq> q" "q \<in> set_tree r" "q \<notin> set_tree l"
    using Node.prems(3) N(7) by auto
  then show ?case
  proof cases
    case 1
    then show ?thesis using f Node.prems(1,2) N(5,6) by auto
  next
    case 2
    have q: "sz x = sz q" if "x \<in> A" for x using A that by auto
    have k: "k \<noteq> 0" using Node.prems(2) 2(2) by (auto split: if_splits)
    then have bits: "\<forall>x\<in>set_tree l. \<not> bit (sz x) (k - 1)" using Node.prems(2) by simp
    note IH = Node.IH(1) [OF N(3,8) 2(2)]
    have "\<not> bit (sz x) (k - 1)" if "x \<in> set_tree (at_node q f l)" for x
      using conjunct1 [OF IH] that bits q [of x] 2(2) by (metis DiffD1 Un_iff)
    then show ?thesis
      using k 2(1) IH Node.prems(2) at_node_idle [OF 2(3), of f] 2(2,3) by (simp add: insert_Diff_if) blast
  next
    case 3
    have q: "sz x = sz q" if "x \<in> A" for x using A that by auto
    have k: "k \<noteq> 0" using Node.prems(2) 3(2) by (auto split: if_splits)
    then have bits: "\<forall>x\<in>set_tree r. bit (sz x) (k - 1)" using Node.prems(2) by simp
    note IH = Node.IH(2) [OF N(4,9) 3(2)]
    have "bit (sz x) (k - 1)" if "x \<in> set_tree (at_node q f r)" for x
      using conjunct1 [OF IH] that bits q [of x] 3(2) by (metis DiffD1 Un_iff)
    then show ?thesis
      using k 3(1) IH Node.prems(2) at_node_idle [OF 3(3), of f] 3(2,3) by (simp add: insert_Diff_if) blast
  qed
qed simp

lemma at_node_drop:
  assumes "tree_at s t T" "trie_ok sz k T" "q \<in> set_tree T"
  shows "set_tree (at_node q drop_root T) = set_tree T - {q} \<and> trie_ok sz k (at_node q drop_root T)"
proof -
  have "set_tree (at_node q drop_root T) = {} \<union> (set_tree T - {q}) \<and> trie_ok sz k (at_node q drop_root T)"
  proof (rule at_node_exact [OF assms])
    show "set_tree (drop_root (Node l q r)) = {} \<union> set_tree l \<union> set_tree r \<and> trie_ok sz k (drop_root (Node l q r))"
      if "tree_at s t (Node l q r)" "trie_ok sz k (Node l q r)" for t k l r
      using drop_root_exact [OF that] by simp
  qed simp
  then show ?thesis by simp
qed

lemma at_node_new_root:
  assumes "tree_at s t T" "trie_ok sz k T" "q \<in> set_tree T" "sz R = sz q"
  shows "set_tree (at_node q (new_root R) T) = {R} \<union> (set_tree T - {q}) \<and> trie_ok sz k (at_node q (new_root R) T)"
  by (rule at_node_exact [OF assms(1-3)]) (use assms(4) in auto)

section \<open>Replacing a subtree in memory\<close>

text \<open>\<open>hangs s T q U p b\<close>: in the tree \<open>T\<close> the subtree \<open>U\<close> with root \<open>q\<close> is child \<open>b\<close> of \<open>p\<close>.\<close>

definition hangs :: "malloc_state \<Rightarrow> addr tree \<Rightarrow> addr \<Rightarrow> addr tree \<Rightarrow> addr \<Rightarrow> size_t \<Rightarrow> bool" where
  "hangs s T q U p b \<longleftrightarrow>
     p \<in> set_tree T \<and> p \<notin> set_tree U \<and> child s p b = q \<and> (b = 0 \<or> b = 1 \<and> child s p 0 \<noteq> q) \<and> parent s q = p
     \<and> tree_at s q U \<and> q \<noteq> 0 \<and> set_tree U \<subseteq> set_tree T \<and> parents_at s p U
     \<and> (\<forall>s' t f R. tree_at s t T
          \<longrightarrow> (\<forall>x\<in>set_tree T - set_tree U. \<forall>d\<in>{0, 1}. child s' x d = (if x = p \<and> d = b then R else child s x d))
          \<longrightarrow> tree_at s' R (f U) \<longrightarrow> tree_at s' t (at_node q f T))
     \<and> (\<forall>s' H f. parents_at s H T \<longrightarrow> (\<forall>x\<in>set_tree T - set_tree U. parent s' x = parent s x)
          \<longrightarrow> parents_at s' p (f U) \<longrightarrow> parents_at s' H (at_node q f T))"

lemma hangs_replace:
  assumes "hangs s T q U p b"
  shows "tree_at s t T \<Longrightarrow> (\<And>x d. x \<in> set_tree T - set_tree U \<Longrightarrow> d \<in> {0, 1} \<Longrightarrow>
      child s' x d = (if x = p \<and> d = b then R else child s x d)) \<Longrightarrow> tree_at s' R (f U) \<Longrightarrow> tree_at s' t (at_node q f T)"
    "parents_at s H T \<Longrightarrow> (\<And>x. x \<in> set_tree T - set_tree U \<Longrightarrow> parent s' x = parent s x) \<Longrightarrow>
      parents_at s' p (f U) \<Longrightarrow> parents_at s' H (at_node q f T)"
  using assms unfolding hangs_def by blast+

lemma hangs_child:
  assumes "tree_at s t (Node l a r)" "trie_ok sz k (Node l a r)" "parents_at s H (Node l a r)"
  shows "l \<noteq> Leaf \<Longrightarrow> hangs s (Node l a r) (child s a 0) l a 0" "r \<noteq> Leaf \<Longrightarrow> hangs s (Node l a r) (child s a 1) r a 1"
proof -
  note N = tree_at_NodeD [OF assms(1,2)]
  have root: "q \<in> set_tree T \<and> q \<noteq> 0 \<and> parent s q = p" if "tree_at s q T" "T \<noteq> Leaf" "parents_at s p T" for q p T
    using that by (cases T) auto
  show "hangs s (Node l a r) (child s a 0) l a 0" if l: "l \<noteq> Leaf"
    unfolding hangs_def
  proof (intro conjI allI impI)
    note q = root [OF N(3) l, of a]
    show "parent s (child s a 0) = a" "child s a 0 \<noteq> 0" using q assms(3) by auto
    fix s' t' and f :: "addr tree \<Rightarrow> addr tree" and R
    assume u: "\<forall>x\<in>set_tree (Node l a r) - set_tree l. \<forall>d\<in>{0, 1}.
        child s' x d = (if x = a \<and> d = 0 then R else child s x d)" "tree_at s' R (f l)" "tree_at s t' (Node l a r)"
    have "tree_at s' (child s a 1) r \<longleftrightarrow> tree_at s (child s a 1) r"
    proof (rule tree_at_cong)
      fix x
      assume "x \<in> set_tree r"
      then have "x \<in> set_tree (Node l a r) - set_tree l" "x \<noteq> a" using N(5-7) by auto
      then show "child s' x 0 = child s x 0 \<and> child s' x 1 = child s x 1" using bspec [OF u(1), of x] by auto
    qed
    then show "tree_at s' t' (at_node (child s a 0) f (Node l a r))"
      using u N q assms(3) at_node_idle [of "child s a 0" r f] by (cases l) auto
  next
    note q = root [OF N(3) l, of a]
    fix s' H' and f :: "addr tree \<Rightarrow> addr tree"
    assume u: "parents_at s H' (Node l a r)" "\<forall>x\<in>set_tree (Node l a r) - set_tree l. parent s' x = parent s x"
      "parents_at s' a (f l)"
    have "parents_at s' a r \<longleftrightarrow> parents_at s a r" by (rule parents_at_cong) (use u(2) N(5-7) in auto)
    then show "parents_at s' H' (at_node (child s a 0) f (Node l a r))"
      using u N q at_node_idle [of "child s a 0" r f] by (cases l) auto
  qed (use N assms(3) in auto)
  show "hangs s (Node l a r) (child s a 1) r a 1" if r: "r \<noteq> Leaf"
    unfolding hangs_def
  proof (intro conjI allI impI)
    note q = root [OF N(4) r, of a]
    show "parent s (child s a 1) = a" "child s a 1 \<noteq> 0" using q assms(3) by auto
    have "child s a 0 \<noteq> child s a 1"
      using root [OF N(3)] q assms(3) N(7) N(3) by (cases l) auto
    then show "(1 :: size_t) = 0 \<or> (1 :: size_t) = 1 \<and> child s a 0 \<noteq> child s a 1" by simp
    fix s' t' and f :: "addr tree \<Rightarrow> addr tree" and R
    assume u: "\<forall>x\<in>set_tree (Node l a r) - set_tree r. \<forall>d\<in>{0, 1}.
        child s' x d = (if x = a \<and> d = 1 then R else child s x d)" "tree_at s' R (f r)" "tree_at s t' (Node l a r)"
    have "tree_at s' (child s a 0) l \<longleftrightarrow> tree_at s (child s a 0) l"
    proof (rule tree_at_cong)
      fix x
      assume "x \<in> set_tree l"
      then have "x \<in> set_tree (Node l a r) - set_tree r" "x \<noteq> a" using N(5-7) by auto
      then show "child s' x 0 = child s x 0 \<and> child s' x 1 = child s x 1" using bspec [OF u(1), of x] by auto
    qed
    then show "tree_at s' t' (at_node (child s a 1) f (Node l a r))"
      using u N q assms(3) at_node_idle [of "child s a 1" l f] by (cases r) auto
  next
    note q = root [OF N(4) r, of a]
    fix s' H' and f :: "addr tree \<Rightarrow> addr tree"
    assume u: "parents_at s H' (Node l a r)" "\<forall>x\<in>set_tree (Node l a r) - set_tree r. parent s' x = parent s x"
      "parents_at s' a (f r)"
    have "parents_at s' a l \<longleftrightarrow> parents_at s a l" by (rule parents_at_cong) (use u(2) N(5-7) in auto)
    then show "parents_at s' H' (at_node (child s a 1) f (Node l a r))"
      using u N q at_node_idle [of "child s a 1" l f] by (cases r) auto
  qed (use N assms(3) in auto)
qed

lemma hangs_below:
  assumes "tree_at s t (Node l a r)" "trie_ok sz k (Node l a r)" "parents_at s H (Node l a r)"
  shows "hangs s l q U p b \<Longrightarrow> hangs s (Node l a r) q U p b" "hangs s r q U p b \<Longrightarrow> hangs s (Node l a r) q U p b"
proof -
  note N = tree_at_NodeD [OF assms(1,2)]
  have sub: "q \<in> set_tree U" if "hangs s T q U p b" for T
    using that tree_at_root by (auto simp: hangs_def)
  show "hangs s (Node l a r) q U p b" if h: "hangs s l q U p b"
  proof -
    have m: "p \<in> set_tree l" "set_tree U \<subseteq> set_tree l" "q \<in> set_tree l" using h sub [OF h] by (auto simp: hangs_def)
    have idle: "at_node q f r = r" "a \<noteq> q" for f
      using at_node_idle [of q r f] m(3) N(5,7) by auto
    show ?thesis
      unfolding hangs_def
    proof (intro conjI allI impI)
      fix s' t' and f :: "addr tree \<Rightarrow> addr tree" and R
      assume u: "\<forall>x\<in>set_tree (Node l a r) - set_tree U. \<forall>d\<in>{0, 1}.
          child s' x d = (if x = p \<and> d = b then R else child s x d)" "tree_at s' R (f U)" "tree_at s t' (Node l a r)"
      have "tree_at s' (child s a 1) r \<longleftrightarrow> tree_at s (child s a 1) r"
      proof (rule tree_at_cong)
        fix x
        assume "x \<in> set_tree r"
        then have "x \<in> set_tree (Node l a r) - set_tree U" "x \<noteq> p" using m N(7) by auto
        then show "child s' x 0 = child s x 0 \<and> child s' x 1 = child s x 1" using bspec [OF u(1), of x] by auto
      qed
      moreover have "tree_at s' (child s a 0) (at_node q f l)" using h N(3) u unfolding hangs_def by auto
      moreover have "a \<notin> set_tree U" "a \<noteq> p" using m N(5) by auto
      then have "child s' a 0 = child s a 0 \<and> child s' a 1 = child s a 1" using bspec [OF u(1), of a] by auto
      ultimately show "tree_at s' t' (at_node q f (Node l a r))" using N u(3) by (simp add: idle)
    next
      fix s' H' and f :: "addr tree \<Rightarrow> addr tree"
      assume u: "parents_at s H' (Node l a r)" "\<forall>x\<in>set_tree (Node l a r) - set_tree U. parent s' x = parent s x"
        "parents_at s' p (f U)"
      have "parents_at s' a r \<longleftrightarrow> parents_at s a r" by (rule parents_at_cong) (use u(2) m N(7) in auto)
      moreover have "parents_at s' a (at_node q f l)" using h u unfolding hangs_def by auto
      moreover have "parent s' a = parent s a" using u(2) m N(5) by auto
      ultimately show "parents_at s' H' (at_node q f (Node l a r))" using u(1) by (simp add: idle)
    qed (use h in \<open>auto simp: hangs_def\<close>)
  qed
  show "hangs s (Node l a r) q U p b" if h: "hangs s r q U p b"
  proof -
    have m: "p \<in> set_tree r" "set_tree U \<subseteq> set_tree r" "q \<in> set_tree r" using h sub [OF h] by (auto simp: hangs_def)
    have idle: "at_node q f l = l" "a \<noteq> q" for f
      using at_node_idle [of q l f] m(3) N(6,7) by auto
    show ?thesis
      unfolding hangs_def
    proof (intro conjI allI impI)
      fix s' t' and f :: "addr tree \<Rightarrow> addr tree" and R
      assume u: "\<forall>x\<in>set_tree (Node l a r) - set_tree U. \<forall>d\<in>{0, 1}.
          child s' x d = (if x = p \<and> d = b then R else child s x d)" "tree_at s' R (f U)" "tree_at s t' (Node l a r)"
      have "tree_at s' (child s a 0) l \<longleftrightarrow> tree_at s (child s a 0) l"
      proof (rule tree_at_cong)
        fix x
        assume "x \<in> set_tree l"
        then have "x \<in> set_tree (Node l a r) - set_tree U" "x \<noteq> p" using m N(7) by auto
        then show "child s' x 0 = child s x 0 \<and> child s' x 1 = child s x 1" using bspec [OF u(1), of x] by auto
      qed
      moreover have "tree_at s' (child s a 1) (at_node q f r)" using h N(4) u unfolding hangs_def by auto
      moreover have "a \<notin> set_tree U" "a \<noteq> p" using m N(6) by auto
      then have "child s' a 0 = child s a 0 \<and> child s' a 1 = child s a 1" using bspec [OF u(1), of a] by auto
      ultimately show "tree_at s' t' (at_node q f (Node l a r))" using N u(3) by (simp add: idle)
    next
      fix s' H' and f :: "addr tree \<Rightarrow> addr tree"
      assume u: "parents_at s H' (Node l a r)" "\<forall>x\<in>set_tree (Node l a r) - set_tree U. parent s' x = parent s x"
        "parents_at s' p (f U)"
      have "parents_at s' a l \<longleftrightarrow> parents_at s a l" by (rule parents_at_cong) (use u(2) m N(7) in auto)
      moreover have "parents_at s' a (at_node q f r)" using h u unfolding hangs_def by auto
      moreover have "parent s' a = parent s a" using u(2) m N(6) by auto
      ultimately show "parents_at s' H' (at_node q f (Node l a r))" using u(1) by (simp add: idle)
    qed (use h in \<open>auto simp: hangs_def\<close>)
  qed
qed

lemma hangs_exists:
  assumes "tree_at s t T" "trie_ok sz k T" "parents_at s H T" "q \<in> set_tree T" "q \<noteq> t"
  shows "\<exists>U b k'. hangs s T q U (parent s q) b \<and> trie_ok sz k' U"
  using assms
proof (induction T arbitrary: t k H)
  case (Node l a r)
  note N = tree_at_NodeD [OF Node.prems(1,2)]
  have P: "parents_at s a l" "parents_at s a r" using Node.prems(3) by auto
  have "q \<in> set_tree l \<or> q \<in> set_tree r" using Node.prems(4,5) N(1) by auto
  then consider "q \<in> set_tree l" "q = child s a 0" | "q \<in> set_tree l" "q \<noteq> child s a 0"
    | "q \<in> set_tree r" "q = child s a 1" | "q \<in> set_tree r" "q \<noteq> child s a 1"
    by blast
  then show ?case
  proof cases
    case 1
    then have "hangs s (Node l a r) q l a 0" using hangs_child(1) [OF Node.prems(1-3)] by (cases l) auto
    moreover from this have "parent s q = a" by (simp add: hangs_def)
    ultimately show ?thesis using N(8) by blast
  next
    case 2
    from Node.IH(1) [OF N(3,8) P(1) 2] show ?thesis using hangs_below(1) [OF Node.prems(1-3)] by blast
  next
    case 3
    then have "hangs s (Node l a r) q r a 1" using hangs_child(2) [OF Node.prems(1-3)] by (cases r) auto
    moreover from this have "parent s q = a" by (simp add: hangs_def)
    ultimately show ?thesis using N(9) by blast
  next
    case 4
    from Node.IH(2) [OF N(4,9) P(2) 4] show ?thesis using hangs_below(2) [OF Node.prems(1-3)] by blast
  qed
qed simp

section \<open>The rightmost leaf\<close>

text \<open>\<open>cuts s T T' R p b v\<close>: clearing child \<open>b\<close> of \<open>p\<close> takes the leaf \<open>R\<close> out of \<open>T\<close>; the rest is at \<open>v\<close>.\<close>

definition cuts :: "malloc_state \<Rightarrow> addr tree \<Rightarrow> addr tree \<Rightarrow> addr \<Rightarrow> addr \<Rightarrow> size_t \<Rightarrow> addr \<Rightarrow> bool" where
  "cuts s T T' R p b v \<longleftrightarrow>
     (\<forall>s'. (\<forall>x\<in>set_tree T - {R}. \<forall>d\<in>{0, 1}. child s' x d = (if x = p \<and> d = b then 0 else child s x d))
        \<longrightarrow> tree_at s' v T')"

lemma split_leaf_parents: "parents_at s H T \<Longrightarrow> split_leaf T = (x, T') \<Longrightarrow> parents_at s H T'"
proof (induction T arbitrary: H T')
  case (Node l a r)
  have P: "parent s a = H" "parents_at s a l" "parents_at s a r" using Node.prems(1) by auto
  obtain y r' where r: "split_leaf r = (y, r')" by fastforce
  obtain z l' where l: "split_leaf l = (z, l')" by fastforce
  show ?case
  proof (cases "r = Leaf")
    case False
    then show ?thesis using Node.IH(2) [of a r'] Node.prems(2) P r by auto
  next
    case True
    then show ?thesis using Node.IH(1) [of a l'] Node.prems(2) P l by (cases "l = Leaf") auto
  qed
qed simp

lemma cut_keeps_other:
  assumes "tree_at s v T" "set_tree T \<subseteq> V" "p \<notin> set_tree T"
    "\<And>x d. x \<in> V \<Longrightarrow> d \<in> {0, 1} \<Longrightarrow> child s' x d = (if x = p \<and> d = b then 0 else child s x d)"
  shows "tree_at s' v T"
proof -
  have "tree_at s' v T \<longleftrightarrow> tree_at s v T"
  proof (rule tree_at_cong)
    fix x
    assume "x \<in> set_tree T"
    then have "x \<in> V" "x \<noteq> p" using assms(2,3) by auto
    then show "child s' x 0 = child s x 0 \<and> child s' x 1 = child s x 1" using assms(4) [of x] by auto
  qed
  then show ?thesis using assms(1) by simp
qed

lemma rightmost_leaf_spec:
  assumes "tree_at s t T" "trie_ok sz k T" "T \<noteq> Leaf" "split_leaf T = (R, T')" "c \<in> {0, 1}" "u \<notin> set_tree T"
  shows "\<exists>p b. rightmost_leaf s (child_at u c) t = Some (child_at p b, R) \<and> b \<in> {0, 1}
    \<and> (p = u \<and> b = c \<or> p \<in> set_tree T - {R}) \<and> child s R 0 = 0 \<and> child s R 1 = 0
    \<and> cuts s T T' R p b (if p = u then 0 else t)"
  using assms
proof (induction T arbitrary: t k u c T')
  case (Node l a r)
  note N = tree_at_NodeD [OF Node.prems(1,2)]
  have zero: "child s a 0 = 0 \<longleftrightarrow> l = Leaf" "child s a 1 = 0 \<longleftrightarrow> r = Leaf"
    using tree_at_zero N(3,4) by blast+
  consider "r \<noteq> Leaf" | "r = Leaf" "l \<noteq> Leaf" | "r = Leaf" "l = Leaf" by blast
  then show ?case
  proof cases
    case 1
    obtain r' where r: "split_leaf r = (R, r')" "T' = Node l a r'"
      using Node.prems(4) 1 by (auto split: prod.splits)
    obtain p b where p: "rightmost_leaf s (child_at a 1) (child s a 1) = Some (child_at p b, R)" "b \<in> {0, 1}"
      "p = a \<and> b = 1 \<or> p \<in> set_tree r - {R}" "child s R 0 = 0" "child s R 1 = 0"
      "cuts s r r' R p b (if p = a then 0 else child s a 1)"
      using Node.IH(2) [OF N(4,9) 1 r(1), of 1 a] N(6) by auto
    have R: "R \<in> set_tree r" using split_leaf_exact [OF N(4,9) 1 r(1)] by simp
    then have ne: "a \<noteq> R" using N(6) by auto
    have step: "rightmost_leaf s (child_at u c) t = rightmost_leaf s (child_at a 1) (child s a 1)"
      using N(1) zero 1 by (subst rightmost_leaf.simps) simp
    have "tree_at s' t (Node l a r')"
      if u: "\<forall>x\<in>set_tree (Node l a r) - {R}. \<forall>d\<in>{0, 1}. child s' x d = (if x = p \<and> d = b then 0 else child s x d)" for s'
    proof -
      have "set_tree l \<subseteq> set_tree (Node l a r) - {R}" "p \<notin> set_tree l" using R N(5,7) p(3) by auto
      then have "tree_at s' (child s a 0) l" using cut_keeps_other [OF N(3)] u by blast
      moreover have "tree_at s' (if p = a then 0 else child s a 1) r'"
        using p(6) u R N(6) unfolding cuts_def by auto
      moreover have "child s' a 0 = child s a 0 \<and> child s' a 1 = (if p = a then 0 else child s a 1)"
        using bspec [OF u, of a] ne p(3) N(5,6) by auto
      ultimately show ?thesis using N(1,2) by simp
    qed
    then have "cuts s (Node l a r) T' R p b t" by (simp add: cuts_def r(2))
    moreover have "p \<in> set_tree (Node l a r) - {R}" "p \<noteq> u" using p(3) R N(6) Node.prems(6) by auto
    ultimately show ?thesis using p(1,2,4,5) step by (intro exI [of _ p] exI [of _ b]) simp
  next
    case 2
    obtain l' where l: "split_leaf l = (R, l')" "T' = Node l' a r"
      using Node.prems(4) 2 by (auto split: prod.splits)
    obtain p b where p: "rightmost_leaf s (child_at a 0) (child s a 0) = Some (child_at p b, R)" "b \<in> {0, 1}"
      "p = a \<and> b = 0 \<or> p \<in> set_tree l - {R}" "child s R 0 = 0" "child s R 1 = 0"
      "cuts s l l' R p b (if p = a then 0 else child s a 0)"
      using Node.IH(1) [OF N(3,8) 2(2) l(1), of 0 a] N(5) by auto
    have R: "R \<in> set_tree l" using split_leaf_exact [OF N(3,8) 2(2) l(1)] by simp
    then have ne: "a \<noteq> R" using N(5) by auto
    have step: "rightmost_leaf s (child_at u c) t = rightmost_leaf s (child_at a 0) (child s a 0)"
      using N(1) zero 2 by (subst rightmost_leaf.simps) simp
    have "tree_at s' t (Node l' a r)"
      if u: "\<forall>x\<in>set_tree (Node l a r) - {R}. \<forall>d\<in>{0, 1}. child s' x d = (if x = p \<and> d = b then 0 else child s x d)" for s'
    proof -
      have "tree_at s' (if p = a then 0 else child s a 0) l'"
        using p(6) u R N(5) unfolding cuts_def by auto
      moreover have "child s' a 1 = child s a 1 \<and> child s' a 0 = (if p = a then 0 else child s a 0)"
        using bspec [OF u, of a] ne p(3) N(5,6) by auto
      ultimately show ?thesis using N(1,2) zero 2 by simp
    qed
    then have "cuts s (Node l a r) T' R p b t" by (simp add: cuts_def l(2))
    moreover have "p \<in> set_tree (Node l a r) - {R}" "p \<noteq> u" using p(3) R N(5) Node.prems(6) by auto
    ultimately show ?thesis using p(1,2,4,5) step by (intro exI [of _ p] exI [of _ b]) simp
  next
    case 3
    then have "R = a" "T' = Leaf" using Node.prems(4) by auto
    moreover have "rightmost_leaf s (child_at u c) t = Some (child_at u c, a)"
      using N(1) zero 3 by (subst rightmost_leaf.simps) simp
    ultimately show ?thesis using zero 3 Node.prems(5) by (intro exI [of _ u] exI [of _ c]) (simp add: cuts_def)
  qed
qed simp

section \<open>Linking the replacement\<close>

definition node_reads_same :: "malloc_state \<Rightarrow> addr set \<Rightarrow> malloc_state \<Rightarrow> bool" where
  "node_reads_same s N s' \<longleftrightarrow>
     (\<forall>x\<in>N. fd s' x = fd s x \<and> bk s' x = bk s x \<and> index s' x = index s x)"

lemma relink_child_effect:
  assumes "layout s N" "nodes_apart N" "bins_apart s N" "mst s' = mst s" "least_addr s' = least_addr s"
    and "R \<in> N" "q \<in> N" "c \<in> {0, 1}" "child s' q c \<in> insert 0 N"
  shows "\<exists>s''. relink_child q R c s' = Ret s'' \<and> large_frame s' N s'' \<and> treemap s'' = treemap s'
    \<and> node_reads_same s' N s''
    \<and> (\<forall>x\<in>N. \<forall>d\<in>{0, 1}. child s'' x d = (if x = R \<and> d = c \<and> child s' q c \<noteq> 0 then child s' q c else child s' x d))
    \<and> (\<forall>x\<in>N. parent s'' x = (if x = child s' q c then R else parent s' x))
    \<and> (\<forall>j < NTREEBINS. treebin s'' j = treebin s' j)"
proof (cases "child s' q c = 0")
  case True
  have "x \<noteq> 0" if "x \<in> N" for x using assms(1) that by (auto simp: layout_def)
  then show ?thesis using True by (auto simp: relink_child_def large_frame_refl node_reads_same_def)
next
  case False
  define v where "v = child s' q c"
  have v: "v \<in> N" "v \<noteq> 0" using assms(9) False by (auto simp: v_def)
  have ok: "ok_address s' v" using assms(1,5) v(1) by (simp add: layout_def ok_address_def)
  define s'' where "s'' = set_parent v R (set_child R c v s')"
  have e: "relink_child q R c s' = Ret s''"
    using v(2) ok by (simp add: relink_child_def Let_def s''_def v_def)
  have frame: "large_frame s' N s''"
    unfolding s''_def using assms(8)
    by (auto intro!: large_frame_steps [OF assms(2)] large_frame_refl assms(6) v(1))
  have "node_reads_same s' N s''"
    unfolding s''_def node_reads_same_def using assms(6,8) v(1) by (auto simp: node_simps [OF assms(2)])
  moreover have "\<forall>x\<in>N. \<forall>d\<in>{0, 1}. child s'' x d = (if x = R \<and> d = c \<and> v \<noteq> 0 then v else child s' x d)"
    unfolding s''_def using assms(6,8) v by (auto simp: node_simps [OF assms(2)])
  moreover have "\<forall>x\<in>N. parent s'' x = (if x = v then R else parent s' x)"
    unfolding s''_def using assms(6,8) v(1) by (auto simp: node_simps [OF assms(2)])
  moreover have "\<forall>j < NTREEBINS. treebin s'' j = treebin s' j"
    unfolding s''_def using assms(4,6,8) v(1) by (auto simp: treebin_writes [OF assms(3)])
  moreover have "treemap s'' = treemap s'" by (simp add: s''_def)
  ultimately show ?thesis using e frame unfolding v_def by blast
qed

text \<open>Where \<open>q\<close> is linked: at the bin, or as child \<open>b\<close> of \<open>XP\<close>\<close>

definition linked_at :: "malloc_state \<Rightarrow> bindex \<Rightarrow> addr set \<Rightarrow> addr \<Rightarrow> addr \<Rightarrow> size_t \<Rightarrow> bool" where
  "linked_at s i N q XP b \<longleftrightarrow>
     (if q = treebin s i then XP = treebin_at s i
      else XP \<in> N \<and> child s XP b = q \<and> (b = 0 \<or> b = 1 \<and> child s XP 0 \<noteq> q))"

lemma relink_parent_effect:
  assumes "layout s N" "nodes_apart N" "bins_apart s N" "mst s' = mst s" "least_addr s' = least_addr s"
    and "q \<in> N" "i < NTREEBINS" "index s' q = i" "linked_at s' i N q XP b"
  shows "\<exists>s''. relink_parent q XP R s' = Ret s'' \<and> large_frame s' N s''
    \<and> treemap s'' = (if R = 0 \<and> q = treebin s' i then treemap s' AND NOT (idx2bit i) else treemap s')
    \<and> node_reads_same s' N s''
    \<and> (\<forall>x\<in>N. \<forall>d\<in>{0, 1}. child s'' x d = (if q \<noteq> treebin s' i \<and> x = XP \<and> d = b then R else child s' x d))
    \<and> (\<forall>x\<in>N. parent s'' x = parent s' x)
    \<and> (\<forall>j < NTREEBINS. treebin s'' j = (if q = treebin s' i \<and> j = i then R else treebin s' j))"
proof (cases "q = treebin s' i")
  case True
  have t: "treebin_at s' = treebin_at s" by (rule treebin_at_mst [OF assms(4)])
  have bins: "bins_apart s' N" using assms(3) by (simp add: bins_apart_def t)
  define s1 where "s1 = wr (treebin_at s' i) R s'"
  have idx: "index s1 q = i" unfolding s1_def using treebin_reads(7) [OF bins assms(6,7)] assms(8) by simp
  have "malloc_state.heap s' (treebin_at s' i) = q" using True by (simp add: treebin_def)
  then have "relink_parent q XP R s' = Ret (if R = 0 then clear_treemap i s1 else s1)"
    unfolding relink_parent_def Let_def assms(8) s1_def [symmetric] idx by simp
  moreover have "large_frame s' N s1" "large_frame s' N (clear_treemap i s1)"
    unfolding s1_def by (intro large_frame_bin_steps large_frame_refl bins assms(7))+
  moreover have "node_reads_same s' N s1" "node_reads_same s' N (clear_treemap i s1)"
    using treebin_reads [OF bins _ assms(7)] by (simp_all add: node_reads_same_def s1_def)
  moreover have "\<forall>x\<in>N. \<forall>d\<in>{0, 1}. child s1 x d = child s' x d"
    using treebin_reads [OF bins _ assms(7)] by (simp add: s1_def)
  moreover have "\<forall>x\<in>N. parent s1 x = parent s' x"
    using treebin_reads [OF bins _ assms(7)] by (simp add: s1_def)
  moreover have "\<forall>j < NTREEBINS. treebin s1 j = (if j = i then R else treebin s' j)"
    using treebin_write_bin [OF assms(7)] by (simp add: s1_def)
  moreover have "treemap s1 = treemap s'" "treemap (clear_treemap i s1) = treemap s' AND NOT (idx2bit i)"
    by (simp_all add: s1_def clear_treemap_def)
  ultimately show ?thesis using True by (cases "R = 0") auto
next
  case False
  then have l: "XP \<in> N" "child s' XP b = q" "b = 0 \<or> b = 1 \<and> child s' XP 0 \<noteq> q" using assms(9) by (auto simp: linked_at_def)
  have ok: "ok_address s' XP" using assms(1,5) l(1) by (simp add: layout_def ok_address_def)
  have "relink_parent q XP R s' = Ret (set_child XP b R s')"
    using False ok l(2,3) by (auto simp: relink_parent_def Let_def assms(8) treebin_def)
  moreover have "large_frame s' N (set_child XP b R s')"
    using l(3) by (auto intro!: large_frame_steps [OF assms(2) l(1)] large_frame_refl)
  moreover have "node_reads_same s' N (set_child XP b R s')"
    unfolding node_reads_same_def using l(3) by (auto simp: node_simps [OF assms(2) l(1)])
  moreover have "\<forall>x\<in>N. \<forall>d\<in>{0, 1}. child (set_child XP b R s') x d = (if x = XP \<and> d = b then R else child s' x d)"
    using l(3) by (auto simp: node_simps [OF assms(2) l(1)])
  moreover have "\<forall>x\<in>N. parent (set_child XP b R s') x = parent s' x"
    using l(3) by (auto simp: node_simps [OF assms(2) l(1)])
  moreover have "\<forall>j < NTREEBINS. treebin (set_child XP b R s') j = treebin s' j"
    using l(3) assms(4) by (auto simp: treebin_writes [OF assms(3) l(1)])
  ultimately show ?thesis using False by auto
qed

lemma node_reads_same_trans: "node_reads_same s N s' \<Longrightarrow> node_reads_same s' N s'' \<Longrightarrow> node_reads_same s N s''"
  by (simp add: node_reads_same_def)

definition relink :: "addr \<Rightarrow> addr \<Rightarrow> addr \<Rightarrow> malloc_state \<Rightarrow> malloc_state dl_result" where
  "relink q XP R s =
     dbind (relink_parent q XP R s) (\<lambda>s.
     if R \<noteq> 0 then
       if ok_address s R
       then dbind (relink_child q R 0 (set_parent R XP s)) (relink_child q R 1)
       else Trap
     else Ret s)"

lemma relink_effect:
  assumes lay: "layout s N" and m: "mst s' = mst s" "least_addr s' = least_addr s"
    and R: "R \<in> N" "R \<noteq> q" "q = treebin s' i \<or> R \<noteq> XP" and q: "q \<in> N" "q = treebin s' i \<or> q \<noteq> XP"
    and i: "i < NTREEBINS" "index s' q = i" "linked_at s' i N q XP b"
    and c: "child s' q 0 \<in> insert 0 N - {R}" "child s' q 1 \<in> insert 0 N - {R}" "child s' R 0 = 0" "child s' R 1 = 0"
  shows "\<exists>s''. relink q XP R s' = Ret s'' \<and> large_frame s' N s'' \<and> treemap s'' = treemap s' \<and> node_reads_same s' N s''
    \<and> (\<forall>x\<in>N. \<forall>d\<in>{0, 1}. child s'' x d = (if x = R then child s' q d
          else if q \<noteq> treebin s' i \<and> x = XP \<and> d = b then R else child s' x d))
    \<and> (\<forall>x\<in>N. parent s'' x = (if x = child s' q 0 \<or> x = child s' q 1 then R else if x = R then XP else parent s' x))
    \<and> (\<forall>j < NTREEBINS. treebin s'' j = (if q = treebin s' i \<and> j = i then R else treebin s' j))"
proof -
  have a: "nodes_apart N" "bins_apart s N" "R \<noteq> 0" using lay R(1) by (auto simp: layout_def)
  obtain s1 where s1: "relink_parent q XP R s' = Ret s1" "large_frame s' N s1" "treemap s1 = treemap s'"
    "node_reads_same s' N s1"
    "\<forall>x\<in>N. \<forall>d\<in>{0, 1}. child s1 x d = (if q \<noteq> treebin s' i \<and> x = XP \<and> d = b then R else child s' x d)"
    "\<forall>x\<in>N. parent s1 x = parent s' x"
    "\<forall>j < NTREEBINS. treebin s1 j = (if q = treebin s' i \<and> j = i then R else treebin s' j)"
    using relink_parent_effect [OF lay a(1,2) m q(1) i, of R] a(3) by auto
  define s2 where "s2 = set_parent R XP s1"
  have k1: "mst s1 = mst s" "least_addr s1 = least_addr s" using large_frame_keeps [OF s1(2)] m by auto
  have s2: "large_frame s' N s2" "treemap s2 = treemap s'" "node_reads_same s1 N s2"
    "\<forall>x\<in>N. \<forall>d\<in>{0, 1}. child s2 x d = child s1 x d"
    "\<forall>x\<in>N. parent s2 x = (if x = R then XP else parent s1 x)"
    "\<forall>j < NTREEBINS. treebin s2 j = treebin s1 j"
    unfolding s2_def
    using large_frame_steps(5) [OF a(1) R(1) s1(2)] s1(3) k1
    by (simp_all add: node_reads_same_def node_simps [OF a(1) R(1)] treebin_writes [OF a(2) R(1)])
  have k2: "mst s2 = mst s" "least_addr s2 = least_addr s" using large_frame_keeps [OF s2(1)] m by auto
  have q2: "child s2 q d = child s' q d" if "d \<in> {0, 1}" for d
    using s1(5) s2(4) q that by auto
  obtain s3 where s3: "relink_child q R 0 s2 = Ret s3" "large_frame s2 N s3" "treemap s3 = treemap s2"
    "node_reads_same s2 N s3"
    "\<forall>x\<in>N. \<forall>d\<in>{0, 1}. child s3 x d = (if x = R \<and> d = 0 \<and> child s2 q 0 \<noteq> 0 then child s2 q 0 else child s2 x d)"
    "\<forall>x\<in>N. parent s3 x = (if x = child s2 q 0 then R else parent s2 x)"
    "\<forall>j < NTREEBINS. treebin s3 j = treebin s2 j"
    using relink_child_effect [OF lay a(1,2) k2 R(1) q(1), of 0] q2 c(1) by auto
  have k3: "mst s3 = mst s" "least_addr s3 = least_addr s" using large_frame_keeps [OF s3(2)] k2 by auto
  have q3: "child s3 q d = child s' q d" if "d \<in> {0, 1}" for d
    using s3(5) q2 q R that by auto
  obtain s4 where s4: "relink_child q R 1 s3 = Ret s4" "large_frame s3 N s4" "treemap s4 = treemap s3"
    "node_reads_same s3 N s4"
    "\<forall>x\<in>N. \<forall>d\<in>{0, 1}. child s4 x d = (if x = R \<and> d = 1 \<and> child s3 q 1 \<noteq> 0 then child s3 q 1 else child s3 x d)"
    "\<forall>x\<in>N. parent s4 x = (if x = child s3 q 1 then R else parent s3 x)"
    "\<forall>j < NTREEBINS. treebin s4 j = treebin s3 j"
    using relink_child_effect [OF lay a(1,2) k3 R(1) q(1), of 1] q3 c(2) by auto
  have "ok_address s1 R" using lay R(1) k1(2) by (simp add: layout_def ok_address_def)
  then have "relink q XP R s' = Ret s4"
    using s1(1) s3(1) s4(1) a(3) by (simp add: relink_def s2_def)
  moreover have "large_frame s' N s4"
    by (rule large_frame_trans [OF large_frame_trans [OF s2(1) s3(2)] s4(2)])
  moreover have "treemap s4 = treemap s'" using s2(2) s3(3) s4(3) by simp
  moreover have "node_reads_same s' N s4"
    by (rule node_reads_same_trans [OF node_reads_same_trans [OF node_reads_same_trans [OF s1(4) s2(3)] s3(4)] s4(4)])
  moreover have "\<forall>x\<in>N. \<forall>d\<in>{0, 1}. child s4 x d = (if x = R then child s' q d
          else if q \<noteq> treebin s' i \<and> x = XP \<and> d = b then R else child s' x d)"
  proof (intro ballI)
    fix x and d :: size_t
    assume x: "x \<in> N" and d: "d \<in> {0, 1}"
    have "child s1 x d = (if q \<noteq> treebin s' i \<and> x = XP \<and> d = b then R else child s' x d)" using s1(5) x d by blast
    moreover have "child s2 x d = child s1 x d" using s2(4) x d by blast
    moreover have "child s3 x d = (if x = R \<and> d = 0 \<and> child s2 q 0 \<noteq> 0 then child s2 q 0 else child s2 x d)"
      using s3(5) x d by blast
    moreover have "child s4 x d = (if x = R \<and> d = 1 \<and> child s3 q 1 \<noteq> 0 then child s3 q 1 else child s3 x d)"
      using s4(5) x d by blast
    ultimately show "child s4 x d = (if x = R then child s' q d
          else if q \<noteq> treebin s' i \<and> x = XP \<and> d = b then R else child s' x d)"
      using q2 [of 0] q3 [of 1] c(3,4) R(3) d by (cases "x = R") auto
  qed
  moreover have "\<forall>x\<in>N. parent s4 x = (if x = child s' q 0 \<or> x = child s' q 1 then R else if x = R then XP else parent s' x)"
  proof
    fix x
    assume x: "x \<in> N"
    show "parent s4 x = (if x = child s' q 0 \<or> x = child s' q 1 then R else if x = R then XP else parent s' x)"
      using bspec [OF s1(6) x] bspec [OF s2(5) x] bspec [OF s3(6) x] bspec [OF s4(6) x] q2 [of 0] q3 [of 1]
      by (cases "x = child s' q 0") auto
  qed
  moreover have "\<forall>j < NTREEBINS. treebin s4 j = (if q = treebin s' i \<and> j = i then R else treebin s' j)"
    using s1(7) s2(6) s3(7) s4(7) by simp
  ultimately show ?thesis by blast
qed

lemma unlink_large_chunk_steps:
  "unlink_large_chunk q s =
     dbind (tree_replacement q s) (\<lambda>(R, s1). if parent s q \<noteq> 0 then relink q (parent s q) R s1 else Ret s1)"
  unfolding unlink_large_chunk_def relink_def Let_def ..

lemma parents_at_reroot:
  assumes "parents_at s q T" "tree_at s1 v T" "\<And>x. x \<in> set_tree T \<Longrightarrow> x \<noteq> v \<Longrightarrow> parent s' x = parent s x"
    "v \<noteq> 0 \<Longrightarrow> parent s' v = R"
  shows "parents_at s' R T"
proof (cases T)
  case (Node l a r)
  have v: "v = a" "a \<noteq> 0" "a \<notin> set_tree l" "a \<notin> set_tree r" using assms(2) tree_at_distinct [of s1 v l a r] Node by auto
  have "parents_at s' a l \<longleftrightarrow> parents_at s a l"
    by (rule parents_at_cong) (use assms(3) Node v in auto)
  moreover have "parents_at s' a r \<longleftrightarrow> parents_at s a r"
    by (rule parents_at_cong) (use assms(3) Node v in auto)
  ultimately show ?thesis using assms(1,4) Node v by auto
qed simp

lemma replace_node:
  assumes inv: "large_bins s X C" and i: "i < NTREEBINS" and qi: "q \<in> set_tree (X i)"
    and N: "N = large_all X C"
    and s1: "large_frame s N s1" "treemap s1 = treemap s"
      "\<And>x. x \<in> N \<Longrightarrow> parent s1 x = parent s x \<and> index s1 x = index s x"
      "\<And>j. j < NTREEBINS \<Longrightarrow> treebin s1 j = treebin s j"
      "\<And>x d. x \<in> N - set_tree U \<Longrightarrow> d \<in> {0, 1} \<Longrightarrow> child s1 x d = child s x d"
    and U: "U = Node l q r" "f U = Node l' R r'"
    and place: "q = treebin s i \<and> U = X i \<or> q \<noteq> treebin s i \<and> hangs s (X i) q U (parent s q) b"
    and R: "R \<in> N" "R \<noteq> q" "R \<notin> set_tree (X i) - set_tree U" "child s1 R 0 = 0" "child s1 R 1 = 0"
    and sides: "\<And>s'. (\<And>x d. x \<in> set_tree l \<union> set_tree r - {R} \<Longrightarrow> d \<in> {0, 1} \<Longrightarrow> child s' x d = child s1 x d)
        \<Longrightarrow> tree_at s' (child s1 q 0) l' \<and> tree_at s' (child s1 q 1) r'"
      "set_tree l' \<union> set_tree r' \<subseteq> set_tree l \<union> set_tree r - {R}" "set_tree l' \<inter> set_tree r' = {}"
      "parents_at s q l'" "parents_at s q r'"
  shows "\<exists>s'. relink q (parent s q) R s1 = Ret s' \<and> large_frame s N s' \<and> treemap s' = treemap s \<and> node_reads_same s1 N s'
    \<and> tree_at s' (treebin s' i) (at_node q f (X i)) \<and> parents_at s' (treebin_at s i) (at_node q f (X i))
    \<and> (\<forall>j < NTREEBINS. j \<noteq> i \<longrightarrow> treebin s' j = treebin s j)
    \<and> (\<forall>x\<in>N - set_tree (X i) - {R}. child s' x 0 = child s x 0 \<and> child s' x 1 = child s x 1 \<and> parent s' x = parent s x)"
proof -
  define XP where "XP = parent s q"
  note D = large_binsD [OF inv]
  note B = tree_binD [OF D(7) [OF i]]
  have lay: "layout s N" using D(2) N by simp
  have sub: "set_tree (X i) \<subseteq> N" using bin_in_chunks [OF i, of X] chunks_in_all [of _ X C] N by blast
  have U_sub: "set_tree U \<subseteq> set_tree (X i)" using place by (auto simp: hangs_def)
  have pos: "x \<noteq> 0" if "x \<in> N" for x using lay that by (auto simp: layout_def)
  define v0 where "v0 = child s1 q 0"
  define v1 where "v1 = child s1 q 1"
  have at1: "tree_at s1 v0 l'" "tree_at s1 v1 r'" using sides(1) [of s1] by (simp_all add: v0_def v1_def)
  have v: "v0 = 0 \<or> v0 \<in> set_tree l'" "v1 = 0 \<or> v1 \<in> set_tree r'"
    using tree_at_root [OF at1(1)] tree_at_root [OF at1(2)] by auto
  have below: "set_tree l' \<union> set_tree r' \<subseteq> set_tree U - {R}" using sides(2) U(1) by auto
  have v_N: "v0 \<in> insert 0 N - {R}" "v1 \<in> insert 0 N - {R}"
    using v below U_sub sub pos [OF R(1)] by auto
  have XP: "q = treebin s i \<and> XP = treebin_at s i \<or> q \<noteq> treebin s i \<and> XP \<in> set_tree (X i) - set_tree U"
    using place
  proof (elim disjE conjE)
    assume "q = treebin s i" "U = X i"
    then have "parents_at s (treebin_at s i) (Node l q r)" using D(3) [OF i] U(1) by metis
    then have "parent s q = treebin_at s i" by simp
    then show ?thesis using \<open>q = _\<close> by (simp add: XP_def)
  qed (auto simp: hangs_def XP_def)
  have qU: "q \<in> set_tree U" using U(1) by simp
  have qN: "q \<in> N" using qi sub by blast
  have link: "linked_at s1 i N q XP b"
  proof (cases "q = treebin s i")
    case False
    then have h: "hangs s (X i) q U XP b" using place by (simp add: XP_def)
    have m: "XP \<in> N - set_tree U" using False XP sub by blast
    then have "child s1 XP d = child s XP d" if "d \<in> {0, 1}" for d using s1(5) that by blast
    then show ?thesis using h m False s1(4) [OF i] by (auto simp: linked_at_def hangs_def)
  qed (use XP s1(4) [OF i] treebin_at_mst [OF large_frame_keeps(1) [OF s1(1)]] in \<open>simp add: linked_at_def\<close>)
  have idx: "index s1 q = i" using s1(3) [OF qN] D(6) [of q] B(4) [OF qi] qN N by simp
  have apart: "q = treebin s1 i \<or> R \<noteq> XP" "q = treebin s1 i \<or> q \<noteq> XP" using XP R(3) qU s1(4) [OF i] by auto
  obtain s' where s': "relink q XP R s1 = Ret s'" "large_frame s1 N s'" "treemap s' = treemap s1" "node_reads_same s1 N s'"
    "\<forall>x\<in>N. \<forall>d\<in>{0, 1}. child s' x d = (if x = R then child s1 q d
          else if q \<noteq> treebin s1 i \<and> x = XP \<and> d = b then R else child s1 x d)"
    "\<forall>x\<in>N. parent s' x = (if x = v0 \<or> x = v1 then R else if x = R then XP else parent s1 x)"
    "\<forall>j < NTREEBINS. treebin s' j = (if q = treebin s1 i \<and> j = i then R else treebin s1 j)"
    using relink_effect [OF lay large_frame_keeps(1,2) [OF s1(1)] R(1,2) apart(1) qN apart(2) i idx link
        v_N [unfolded v0_def v1_def] R(4,5)] unfolding v0_def v1_def by blast
  have root: "q = treebin s1 i \<longleftrightarrow> q = treebin s i" using s1(4) [OF i] by simp
  have ch: "child s' x d = (if x = R then child s1 q d else if q \<noteq> treebin s i \<and> x = XP \<and> d = b then R else child s1 x d)"
    if "x \<in> N" "d \<in> {0, 1}" for x d
    using s'(5) that unfolding root by blast
  have pa: "parent s' x = (if x = v0 \<or> x = v1 then R else if x = R then XP else parent s x)" if "x \<in> N" for x
    using s'(6) s1(3) [OF that] that by simp
  have vR: "v0 \<noteq> R" "v1 \<noteq> R" using v_N by auto
  have new: "tree_at s' R (f U)" "parents_at s' XP (f U)"
  proof -
    have "tree_at s' v0 l' \<and> tree_at s' v1 r'"
      unfolding v0_def v1_def
    proof (rule sides(1))
      fix x and d :: size_t
      assume x: "x \<in> set_tree l \<union> set_tree r - {R}" and d: "d \<in> {0, 1}"
      then have "x \<in> N" "x \<in> set_tree U" using U(1) U_sub sub by auto
      then show "child s' x d = child s1 x d" using ch [OF _ d] x XP by auto
    qed
    then show "tree_at s' R (f U)" using ch [OF R(1)] pos [OF R(1)] by (simp add: U(2) v0_def v1_def)
    have same: "parent s' x = parent s x" if "x \<in> set_tree l' \<union> set_tree r'" "x \<noteq> v0" "x \<noteq> v1" for x
    proof -
      have "x \<in> N" "x \<noteq> R" using that(1) below U_sub sub by auto
      then show ?thesis using pa [of x] that by simp
    qed
    have zero: "0 \<notin> set_tree l' \<union> set_tree r'" using below U_sub sub pos by blast
    have "parents_at s' R l'"
    proof (rule parents_at_reroot [OF sides(4) at1(1)])
      show "parent s' x = parent s x" if "x \<in> set_tree l'" "x \<noteq> v0" for x
      proof (cases "x = v1")
        case True
        then show ?thesis using v(2) that(1) sides(3) zero by auto
      qed (use same that in blast)
      show "parent s' v0 = R" if "v0 \<noteq> 0" using pa [of v0] v_N(1) that by auto
    qed
    moreover have "parents_at s' R r'"
    proof (rule parents_at_reroot [OF sides(5) at1(2)])
      show "parent s' x = parent s x" if "x \<in> set_tree r'" "x \<noteq> v1" for x
      proof (cases "x = v0")
        case True
        then show ?thesis using v(1) that(1) sides(3) zero by auto
      qed (use same that in blast)
      show "parent s' v1 = R" if "v1 \<noteq> 0" using pa [of v1] v_N(2) that by auto
    qed
    ultimately show "parents_at s' XP (f U)" using pa [OF R(1)] vR by (simp add: U(2))
  qed
  have outside: "child s' x d = (if q \<noteq> treebin s i \<and> x = XP \<and> d = b then R else child s x d) \<and> parent s' x = parent s x"
    if "x \<in> N - set_tree U" "x \<noteq> R" "d \<in> {0, 1}" for x d
  proof -
    have "x \<noteq> v0" "x \<noteq> v1" using v that(1) below pos by auto
    then show ?thesis using ch [of x d] pa [of x] s1(5) that by simp
  qed
  have tree: "tree_at s' (treebin s' i) (at_node q f (X i)) \<and> parents_at s' (treebin_at s i) (at_node q f (X i))"
    using place
  proof (elim disjE conjE)
    assume r: "q = treebin s i" "U = X i"
    then have "at_node q f (X i) = f U" using U(1) by (metis at_node.simps(2))
    then show ?thesis using new r(1) s'(7) i XP root by auto
  next
    assume r: "q \<noteq> treebin s i" and h: "hangs s (X i) q U (parent s q) b"
    have e: "child s' x d = (if x = XP \<and> d = b then R else child s x d) \<and> parent s' x = parent s x"
      if "x \<in> set_tree (X i) - set_tree U" "d \<in> {0, 1}" for x d
    proof -
      have "x \<in> N - set_tree U" "x \<noteq> R" using that(1) sub R(3) by auto
      then show ?thesis using outside [of x d] that(2) r by auto
    qed
    have "tree_at s' (treebin s i) (at_node q f (X i))"
      by (rule hangs_replace(1) [OF h B(1), where R = R]) (use e new(1) in \<open>simp_all add: XP_def\<close>)
    moreover have "parents_at s' (treebin_at s i) (at_node q f (X i))"
      by (rule hangs_replace(2) [OF h D(3) [OF i]]) (use e new(2) in \<open>auto simp: XP_def\<close>)
    ultimately show ?thesis using s'(7) i r root s1(4) [OF i] by simp
  qed
  have "child s' x 0 = child s x 0 \<and> child s' x 1 = child s x 1 \<and> parent s' x = parent s x"
    if "x \<in> N - set_tree (X i) - {R}" for x
  proof -
    have "x \<in> N - set_tree U" "x \<noteq> R" "q \<noteq> treebin s i \<longrightarrow> x \<noteq> XP" using that XP U_sub by auto
    then show ?thesis using outside [of x 0] outside [of x 1] by auto
  qed
  then show ?thesis
    using s'(1-4,7) s1(2,4) root large_frame_trans [OF s1(1) s'(2)] tree unfolding XP_def [symmetric] by auto
qed

section \<open>Leaving a ring\<close>

lemma unlink_between_reads:
  assumes "nodes_apart N" "A \<in> N" "F \<in> N"
  shows "large_frame s N (unlink_between A F s)" "treemap (unlink_between A F s) = treemap s"
    "x \<in> N \<Longrightarrow> child (unlink_between A F s) x 0 = child s x 0 \<and> child (unlink_between A F s) x 1 = child s x 1
      \<and> parent (unlink_between A F s) x = parent s x \<and> index (unlink_between A F s) x = index s x
      \<and> fd (unlink_between A F s) x = (if x = A then F else fd s x)
      \<and> bk (unlink_between A F s) x = (if x = F then A else bk s x)"
    "bins_apart s N \<Longrightarrow> j < NTREEBINS \<Longrightarrow> treebin (unlink_between A F s) j = treebin s j"
proof -
  show "large_frame s N (unlink_between A F s)"
    unfolding unlink_between_def by (intro large_frame_steps [OF assms(1)] assms(2,3) large_frame_refl)
  show "treemap (unlink_between A F s) = treemap s" by (simp add: unlink_between_def)
  show "x \<in> N \<Longrightarrow> child (unlink_between A F s) x 0 = child s x 0 \<and> child (unlink_between A F s) x 1 = child s x 1
      \<and> parent (unlink_between A F s) x = parent s x \<and> index (unlink_between A F s) x = index s x
      \<and> fd (unlink_between A F s) x = (if x = A then F else fd s x)
      \<and> bk (unlink_between A F s) x = (if x = F then A else bk s x)"
    unfolding unlink_between_def using assms(2,3) by (simp add: node_simps [OF assms(1)])
  show "bins_apart s N \<Longrightarrow> j < NTREEBINS \<Longrightarrow> treebin (unlink_between A F s) j = treebin s j"
    unfolding unlink_between_def using assms(2,3) by (simp add: treebin_writes)
qed

lemma ring_drop_member:
  assumes "ring s t (ys @ x # zs)" "nodes_apart N" "insert t (set (ys @ x # zs)) \<subseteq> N"
  shows "bk s x \<in> insert t (set (ys @ zs))" "fd s x \<in> insert t (set (ys @ zs))" "fd s (bk s x) = x" "bk s (fd s x) = x"
    "linked (unlink_between (bk s x) (fd s x) s) (t # (ys @ zs) @ [t])"
proof -
  have l: "linked s ((t # ys) @ x # zs @ [t])" "distinct (t # ys @ x # zs)" using assms(1) by (simp_all add: ring_def)
  obtain Y A where Y: "t # ys = Y @ [A]" by (metis list.distinct(1) rev_exhaust)
  obtain F Z where Z: "zs @ [t] = F # Z" by (cases zs) auto
  have l2: "linked s (Y @ A # x # F # Z)" "linked s ((Y @ [A]) @ x # F # Z)" using l(1) unfolding Y Z by simp_all
  have n: "fd s A = x" "bk s x = A" "fd s x = F" "bk s F = x" using linked_mem [OF l2(1)] linked_mem [OF l2(2)] by auto
  have "A \<in> set (t # ys)" "F \<in> set (zs @ [t])" unfolding Y Z by auto
  then show "bk s x \<in> insert t (set (ys @ zs))" "fd s x \<in> insert t (set (ys @ zs))" using n by auto
  show "fd s (bk s x) = x" "bk s (fd s x) = x" using n by auto
  have whole: "Y @ A # x # F # Z = t # ys @ x # zs @ [t]" using Y Z by (metis append.assoc append_Cons append_Nil)
  have "linked (unlink_between A F s) (Y @ A # F # Z)"
  proof (rule linked_remove [OF l2(1) _ _ apart_links [OF assms(2)]])
    show "distinct (butlast (Y @ A # x # F # Z))" "distinct (tl (Y @ A # x # F # Z))" "set (Y @ A # x # F # Z) \<subseteq> N"
      unfolding whole using l(2) assms(3) by (auto simp: butlast_append)
  qed
  moreover have "Y @ A # F # Z = t # (ys @ zs) @ [t]" using Y Z by (metis append.assoc append_Cons append_Nil)
  ultimately show "linked (unlink_between (bk s x) (fd s x) s) (t # (ys @ zs) @ [t])" using n by simp
qed

lemma ring_drop_node:
  assumes "ring s t (xs @ [R])" "nodes_apart N" "insert t (set (xs @ [R])) \<subseteq> N"
  shows "bk s t = R" "fd s R = t" "bk s (fd s t) = t" "fd s t \<in> set (xs @ [R])"
    "linked (unlink_between R (fd s t) s) (R # xs @ [R])"
proof -
  have l: "linked s ((t # xs) @ R # [t])" "distinct (t # xs @ [R])" using assms(1) by (simp_all add: ring_def)
  obtain F Z where Z: "xs @ [R] = F # Z" by (cases xs) auto
  have t: "linked s (t # F # Z)" using l(1) linked_append [of s "t # xs" R "[t]"] Z by simp
  show n: "bk s t = R" "fd s R = t" using linked_mem [OF l(1)] by auto
  have f: "fd s t = F" "bk s F = t" using t by auto
  then show "bk s (fd s t) = t" "fd s t \<in> set (xs @ [R])" unfolding Z by auto
  have r: "linked s ([] @ R # t # F # Z)" using n t by simp
  have "linked (unlink_between R F s) ([] @ R # F # Z)"
  proof (rule linked_remove [OF r _ _ apart_links [OF assms(2)]])
    show "distinct (butlast ([] @ R # t # F # Z))" "distinct (tl ([] @ R # t # F # Z))" "set ([] @ R # t # F # Z) \<subseteq> N"
      unfolding Z [symmetric] using l(2) assms(3) by (auto simp: butlast_append)
  qed
  then show "linked (unlink_between R (fd s t) s) (R # xs @ [R])" using f Z by simp
qed

section \<open>The three ways out\<close>

lemma rings_apart:
  assumes "large_bins s X C" "t \<in> large_chunks X" "u \<in> large_chunks X" "x \<in> insert t (set (C t))" "x \<in> insert u (set (C u))"
  shows "t = u"
proof -
  note D = large_binsD [OF assms(1)]
  have "chunksize s t = chunksize s u"
    using ring_sizes [OF D(5) [OF assms(2)] assms(4)] ring_sizes [OF D(5) [OF assms(3)] assms(5)] by simp
  then show ?thesis using inj_onD [OF D(4)] assms(2,3) by blast
qed

lemma large_all_change:
  assumes inv: "large_bins s X C" and t: "t \<in> large_chunks X" "x \<in> insert t (set (C t))"
    and C': "\<And>u. u \<in> large_chunks X \<Longrightarrow> u \<noteq> t \<Longrightarrow> C' u = C u"
    and new: "large_chunks X' = A \<union> (large_chunks X - {t})" "(\<Union>u\<in>A. insert u (set (C' u))) = insert t (set (C t)) - {x}"
  shows "large_all X' C' = large_all X C - {x}"
proof -
  define rest where "rest = (\<Union>u\<in>large_chunks X - {t}. insert u (set (C u)))"
  have "(\<Union>u\<in>large_chunks X - {t}. insert u (set (C' u))) = rest"
    unfolding rest_def by (rule SUP_cong) (use C' in auto)
  then have "large_all X' C' = (insert t (set (C t)) - {x}) \<union> rest"
    unfolding large_all_def new(1) UN_Un new(2) by simp
  moreover have "large_all X C = insert t (set (C t)) \<union> rest"
    using t(1) unfolding large_all_def rest_def by blast
  moreover have "x \<notin> rest" using rings_apart [OF inv t(1) _ t(2)] unfolding rest_def by blast
  ultimately show ?thesis by blast
qed

lemma in_one_bin:
  assumes "large_bins s X C" "t \<in> large_chunks X"
  shows "\<exists>i. i < NTREEBINS \<and> t \<in> set_tree (X i)"
  using assms(2) by (auto simp: large_chunks_def)

lemma ring_members_bin:
  assumes "large_bins s X C" "i < NTREEBINS" "t \<in> set_tree (X i)" "x \<in> insert t (set (C t))"
  shows "compute_tree_index (chunksize s x) = i" "x \<in> large_all X C"
proof -
  note D = large_binsD [OF assms(1)]
  have t: "t \<in> large_chunks X" using assms(2,3) bin_in_chunks by blast
  show "compute_tree_index (chunksize s x) = i"
    using ring_sizes [OF D(5) [OF t] assms(4)] tree_binD(4) [OF D(7) [OF assms(2)] assms(3)] by simp
  show "x \<in> large_all X C" using chunks_in_all [OF t] assms(4) by blast
qed

lemma unlink_member:
  assumes inv: "large_bins s X C" and t: "t \<in> large_chunks X" and C: "C t = ys @ x # zs"
  shows "\<exists>s' X' C'. unlink_large_chunk x s = Ret s' \<and> large_bins s' X' C'
    \<and> large_all X' C' = large_all X C - {x} \<and> large_frame s (large_all X C) s'"
proof -
  define N where "N = large_all X C"
  note D = large_binsD [OF inv]
  obtain i where i: "i < NTREEBINS" "t \<in> set_tree (X i)" using in_one_bin [OF inv t] by blast
  have apart: "nodes_apart N" "bins_apart s N" using D(2) by (simp_all add: layout_def N_def)
  have ring: "ring s t (ys @ x # zs)" using D(5) [OF t] C by simp
  have sub: "insert t (set (ys @ x # zs)) \<subseteq> N" using chunks_in_all [OF t, of C] by (simp add: C N_def)
  note r = ring_drop_member [OF ring apart(1) sub]
  define A where "A = bk s x"
  define F where "F = fd s x"
  have dist: "distinct (t # ys @ x # zs)" using ring unfolding ring_def by blast
  have "insert t (set (ys @ zs)) \<subseteq> N - {x}" using sub dist by auto
  then have AF: "A \<in> N" "F \<in> N" "A \<noteq> x" using r(1,2) unfolding A_def F_def by blast+
  define s' where "s' = unlink_between A F s"
  note u = unlink_between_reads [OF apart(1) AF(1,2), where s = s, folded s'_def]
  have ok: "ok_address s F" using D(2) AF(2) by (simp add: layout_def N_def)
  have e: "unlink_large_chunk x s = Ret s'"
  proof -
    have "tree_replacement x s = Ret (A, s')"
      unfolding tree_replacement_def Let_def A_def [symmetric] F_def [symmetric] s'_def unlink_between_def
      using AF(3) r(3,4) ok by (simp add: A_def F_def)
    moreover have "parent s x = 0" using ring unfolding ring_def by simp
    ultimately show ?thesis by (simp add: unlink_large_chunk_steps)
  qed
  let ?C = "C(t := ys @ zs)"
  have x: "x \<in> insert t (set (C t))" by (simp add: C)
  have all: "large_all X ?C = N - {x}"
    unfolding N_def
  proof (rule large_all_change [OF inv t x])
    show "large_chunks X = {t} \<union> (large_chunks X - {t})" using t by auto
    show "(\<Union>u\<in>{t}. insert u (set (?C u))) = insert t (set (C t)) - {x}" using dist by (auto simp: C)
  qed simp
  have "large_bins s' (X(i := X i)) ?C"
  proof (rule large_bins_change [OF inv i(1) u(1)])
    note B = tree_binD [OF D(7) [OF i(1)]]
    have mem: "y \<in> N" if "y \<in> set_tree (X i)" for y using ring_members_bin(2) [OF inv i(1) that] by (simp add: N_def)
    have "tree_at s' (treebin s i) (X i) \<longleftrightarrow> tree_at s (treebin s i) (X i)"
      by (rule tree_at_cong) (use u(3) mem in blast)
    then show "tree_at s' (treebin s' i) (X i)" using B(1) u(4) [OF apart(2) i(1)] by simp
    have "parents_at s' (treebin_at s i) (X i) \<longleftrightarrow> parents_at s (treebin_at s i) (X i)"
      by (rule parents_at_cong) (use u(3) mem in blast)
    then show "parents_at s' (treebin_at s i) (X i)" using D(3) [OF i(1)] by simp
    show "trie_ok (chunksize s) (bin_bits i) (X i)" by (rule B(2))
    show "inj_on (chunksize s) (set_tree (X i))" using D(4) bin_in_chunks [OF i(1)] inj_on_subset by blast
    fix y
    assume y: "y \<in> set_tree (X i)"
    have yX: "y \<in> large_chunks X" using y bin_in_chunks [OF i(1)] by blast
    have heads: "head s' z = head s z" if "z \<in> N" for z using u(1) that by (simp add: large_frame_def)
    have "ring s' y (?C y)"
    proof (cases "y = t")
      case True
      have "chunksize s' z = chunksize s z" if "z \<in> N" for z using heads [OF that] by (simp add: chunksize_def)
      moreover have "z \<in> N" if "z \<in> insert t (set (ys @ zs))" for z using sub that by auto
      ultimately have "ring s' t (ys @ zs)"
        using r(5) ring u(3) dist unfolding ring_def s'_def A_def F_def by simp
      then show ?thesis using True by simp
    next
      case False
      have "z \<noteq> A \<and> z \<noteq> F" if "z \<in> insert y (set (C y))" for z
        using rings_apart [OF inv yX t that] False r(1,2) by (auto simp: C A_def F_def)
      then have "ring s' y (C y)"
        by (intro ring_cong [OF D(5) [OF yX]]) (use u(3) heads chunks_in_all [OF yX, of C] in \<open>auto simp: N_def\<close>)
      then show ?thesis using False by simp
    qed
    then show "y \<in> N \<and> compute_tree_index (chunksize s y) = i
        \<and> MIN_LARGE_SIZE \<le> chunksize s y \<and> chunksize s y < 2 ^ 40 \<and> ring s' y (?C y)"
      using mem [OF y] B(4-6) [OF y] by blast
  next
    fix y
    assume y: "y \<in> large_all X C" "compute_tree_index (chunksize s y) \<noteq> i"
    have "A \<in> insert t (set (C t))" "F \<in> insert t (set (C t))" using r(1,2) by (auto simp: A_def F_def C)
    then have "y \<noteq> A" "y \<noteq> F" "y \<noteq> t" using ring_members_bin(1) [OF inv i] y(2) by auto
    then show "?C y = C y \<and> child s' y 0 = child s y 0 \<and> child s' y 1 = child s y 1 \<and> parent s' y = parent s y
         \<and> fd s' y = fd s y \<and> bk s' y = bk s y"
      using u(3) y(1) by (simp add: N_def)
  next
    show "treemap_is_marked s' j \<longleftrightarrow> (if j = i then X i \<noteq> Leaf else treemap_is_marked s j)" if "j < NTREEBINS" for j
      using u(2) D(8) [OF that] by (auto simp: treemap_is_marked_def)
    have "layout s (N - {x})" using D(2) nodes_apart_mono [of N "N - {x}"] bins_apart_mono [of s N "N - {x}"]
      by (auto simp: layout_def N_def)
    then show "layout s (large_all (X(i := X i)) ?C)" by (simp add: all)
  next
    fix y
    assume "y \<in> large_all (X(i := X i)) ?C"
    then have "y \<in> N" using all by simp
    then show "index s' y = compute_tree_index (chunksize s y)" using u(3) D(6) by (simp add: N_def)
  qed (use all u(4) [OF apart(2)] in \<open>auto simp: N_def\<close>)
  then show ?thesis using e all u(1) by (intro exI [of _ s'] exI [of _ X] exI [of _ ?C]) (simp add: N_def)
qed

lemma place_exists:
  assumes inv: "large_bins s X C" and i: "i < NTREEBINS" "q \<in> set_tree (X i)"
  shows "\<exists>l r b k. tree_at s q (Node l q r) \<and> trie_ok (chunksize s) k (Node l q r)
    \<and> set_tree (Node l q r) \<subseteq> set_tree (X i) \<and> parents_at s (parent s q) (Node l q r) \<and> parent s q \<noteq> 0
    \<and> (q = treebin s i \<and> Node l q r = X i \<or> q \<noteq> treebin s i \<and> hangs s (X i) q (Node l q r) (parent s q) b)"
proof -
  note D = large_binsD [OF inv]
  note B = tree_binD [OF D(7) [OF i(1)]]
  have pos: "x \<noteq> 0" if "x \<in> set_tree (X i)" for x
    using ring_members_bin(2) [OF inv i(1) that, of x] D(2) by (auto simp: layout_def)
  show ?thesis
  proof (cases "q = treebin s i")
    case True
    then obtain l r where X: "X i = Node l q r" using B(1) i(2) by (cases "X i") auto
    have "parent s q = treebin_at s i" using D(3) [OF i(1)] X by simp
    moreover have "treebin_at s i \<noteq> 0" using D(2) i(1) by (simp add: layout_def)
    ultimately show ?thesis
      using X True B(1,2) D(3) [OF i(1)] by (intro exI [of _ l] exI [of _ r] exI [of _ 0] exI [of _ "bin_bits i"]) simp
  next
    case False
    obtain U b k where U: "hangs s (X i) q U (parent s q) b" "trie_ok (chunksize s) k U"
      using hangs_exists [OF B(1,2) D(3) [OF i(1)] i(2) False] by blast
    then obtain l r where n: "U = Node l q r" by (cases U) (auto simp: hangs_def)
    have "parent s q \<noteq> 0" using U(1) pos by (auto simp: hangs_def)
    then show ?thesis using U n False unfolding hangs_def by blast
  qed
qed

lemma layout_without: "layout s N \<Longrightarrow> layout s (N - M)"
  using nodes_apart_mono [of N "N - M"] bins_apart_mono [of s N "N - M"] by (auto simp: layout_def)

text \<open>A node that heads no ring has left its tree.\<close>

lemma lone_gone:
  assumes inv: "large_bins s X C" and i: "i < NTREEBINS" "q \<in> set_tree (X i)" and lone: "C q = []"
    and N: "N = large_all X C" and T: "T = at_node q drop_root (X i)"
    and frame: "large_frame s N s'" and same: "node_reads_same s N s'"
    and tree: "tree_at s' (treebin s' i) T" "parents_at s' (treebin_at s i) T"
    and rest: "\<And>j. j < NTREEBINS \<Longrightarrow> j \<noteq> i \<Longrightarrow> treebin s' j = treebin s j"
      "\<And>j. j < NTREEBINS \<Longrightarrow> treemap_is_marked s' j \<longleftrightarrow> (if j = i then T \<noteq> Leaf else treemap_is_marked s j)"
      "\<And>x. x \<in> N - set_tree (X i) \<Longrightarrow> child s' x 0 = child s x 0 \<and> child s' x 1 = child s x 1 \<and> parent s' x = parent s x"
  shows "large_bins s' (X(i := T)) C \<and> large_all (X(i := T)) C = N - {q}"
proof -
  note D = large_binsD [OF inv]
  note B = tree_binD [OF D(7) [OF i(1)]]
  have T': "set_tree T = set_tree (X i) - {q} \<and> trie_ok (chunksize s) (bin_bits i) T"
    unfolding T by (rule at_node_drop [OF B(1,2) i(2)])
  have qX: "q \<in> large_chunks X" using i bin_in_chunks by blast
  have other: "q \<notin> set_tree (X j)" if "j < NTREEBINS" "j \<noteq> i" for j
    using tree_binD(4) [OF D(7) [OF that(1)], of q] B(4) [OF i(2)] that(2) by blast
  have chunks: "large_chunks (X(i := T)) = {} \<union> (large_chunks X - {q})"
    using T' i(1) other unfolding large_chunks_def by (auto split: if_splits)
  have all: "large_all (X(i := T)) C = N - {q}"
    unfolding N by (rule large_all_change [OF inv qX _ _ chunks]) (simp_all add: lone)
  have mem: "y \<in> large_chunks X" "insert y (set (C y)) \<subseteq> N" if "y \<in> set_tree (X i)" for y
    using bin_in_chunks [OF i(1), of X] chunks_in_all [of y X C] N that by auto
  have member: "z \<notin> set_tree (X i)" if "y \<in> set_tree (X i)" "z \<in> set (C y)" for y z
  proof
    assume z: "z \<in> set_tree (X i)"
    have "y = z" using rings_apart [OF inv mem(1) [OF that(1)] mem(1) [OF z], of z] that(2) by blast
    then show False using D(5) [OF mem(1) [OF that(1)]] that(2) by (simp add: ring_def)
  qed
  have "large_bins s' (X(i := T)) C"
  proof (rule large_bins_change [OF inv i(1) frame _ tree])
    show "trie_ok (chunksize s) (bin_bits i) T" using T' by blast
    show "inj_on (chunksize s) (set_tree T)" using T' D(4) bin_in_chunks [OF i(1), of X] by (auto intro: inj_on_subset)
    fix y
    assume "y \<in> set_tree T"
    then have y: "y \<in> set_tree (X i)" using T' by blast
    have "ring s' y (C y)"
    proof (rule ring_cong [OF D(5) [OF mem(1) [OF y]]])
      show "head s' z = head s z \<and> fd s' z = fd s z \<and> bk s' z = bk s z" if "z \<in> insert y (set (C y))" for z
      proof -
        have "z \<in> N" using mem(2) [OF y] that by blast
        then show ?thesis using frame same by (simp add: large_frame_def node_reads_same_def)
      qed
      show "parent s' z = parent s z \<and> child s' z 0 = child s z 0 \<and> child s' z 1 = child s z 1" if "z \<in> set (C y)" for z
      proof -
        have "z \<in> N - set_tree (X i)" using mem(2) [OF y] member [OF y that] that by blast
        then show ?thesis using rest(3) by blast
      qed
    qed
    then show "y \<in> N \<and> compute_tree_index (chunksize s y) = i
        \<and> MIN_LARGE_SIZE \<le> chunksize s y \<and> chunksize s y < 2 ^ 40 \<and> ring s' y (C y)"
      using mem(2) [OF y] B(4-6) [OF y] by blast
  next
    fix y
    assume y: "y \<in> large_all X C" "compute_tree_index (chunksize s y) \<noteq> i"
    then have "y \<in> N - set_tree (X i)" using B(4) N by blast
    then show "C y = C y \<and> child s' y 0 = child s y 0 \<and> child s' y 1 = child s y 1 \<and> parent s' y = parent s y
         \<and> fd s' y = fd s y \<and> bk s' y = bk s y"
      using rest(3) same by (simp add: node_reads_same_def)
  next
    show "layout s (large_all (X(i := T)) C)" using layout_without [OF D(2)] by (simp add: all N)
  next
    fix y
    assume "y \<in> large_all (X(i := T)) C"
    then have "y \<in> N" using all by simp
    then show "index s' y = compute_tree_index (chunksize s y)" using same D(6) by (simp add: N node_reads_same_def)
  qed (use rest(1,2) all N in auto)
  with all show ?thesis by blast
qed

lemma lone_ring: "ring s q [] \<Longrightarrow> bk s q = q"
  by (simp add: ring_def)

lemma unlink_leaf_node:
  assumes inv: "large_bins s X C" and i: "i < NTREEBINS" "q \<in> set_tree (X i)" and lone: "C q = []"
    and leaf: "child s q 0 = 0" "child s q 1 = 0"
  shows "\<exists>s' X' C'. unlink_large_chunk q s = Ret s' \<and> large_bins s' X' C'
    \<and> large_all X' C' = large_all X C - {q} \<and> large_frame s (large_all X C) s'"
proof -
  define N where "N = large_all X C"
  define XP where "XP = parent s q"
  note D = large_binsD [OF inv]
  note B = tree_binD [OF D(7) [OF i(1)]]
  have lay: "layout s N" "nodes_apart N" "bins_apart s N" using D(2) by (simp_all add: layout_def N_def)
  have sub: "set_tree (X i) \<subseteq> N" using ring_members_bin(2) [OF inv i(1)] by (auto simp: N_def)
  have qN: "q \<in> N" using sub i(2) by blast
  have qX: "q \<in> large_chunks X" using i bin_in_chunks by blast
  obtain l r b k where p: "tree_at s q (Node l q r)" "trie_ok (chunksize s) k (Node l q r)" "XP \<noteq> 0"
    "parents_at s XP (Node l q r)" "set_tree (Node l q r) \<subseteq> set_tree (X i)"
    "q = treebin s i \<and> Node l q r = X i \<or> q \<noteq> treebin s i \<and> hangs s (X i) q (Node l q r) XP b"
    using place_exists [OF inv i] unfolding XP_def by blast
  have "l = Leaf" "r = Leaf" using p(1) leaf by simp_all
  note p = p [unfolded this]
  have link: "linked_at s i N q XP b"
  proof (cases "q = treebin s i")
    case True
    then have "parents_at s (treebin_at s i) (Node Leaf q Leaf)" using p(6) D(3) [OF i(1)] by auto
    then show ?thesis using True by (simp add: linked_at_def XP_def)
  next
    case False
    then have "hangs s (X i) q (Node Leaf q Leaf) XP b" using p(6) by blast
    then have "XP \<in> set_tree (X i)" "child s XP b = q" "b = 0 \<or> b = 1 \<and> child s XP 0 \<noteq> q"
      unfolding hangs_def by blast+
    then show ?thesis using False sub unfolding linked_at_def by auto
  qed
  have idx: "index s q = i" using D(6) [of q] qN B(4) [OF i(2)] by (simp add: N_def)
  obtain s' where s': "relink_parent q XP 0 s = Ret s'" "large_frame s N s'"
    "treemap s' = (if q = treebin s i then treemap s AND NOT (idx2bit i) else treemap s)" "node_reads_same s N s'"
    "\<forall>x\<in>N. \<forall>d\<in>{0, 1}. child s' x d = (if q \<noteq> treebin s i \<and> x = XP \<and> d = b then 0 else child s x d)"
    "\<forall>x\<in>N. parent s' x = parent s x"
    "\<forall>j < NTREEBINS. treebin s' j = (if q = treebin s i \<and> j = i then 0 else treebin s j)"
    using relink_parent_effect [OF lay refl refl qN i(1) idx link, of 0] by auto
  define T where "T = at_node q drop_root (X i)"
  have "tree_replacement q s = Ret (0, s)"
    using lone_ring [of s q] D(5) [OF qX] lone leaf by (simp add: tree_replacement_def)
  then have e: "unlink_large_chunk q s = Ret s'"
    using s'(1) p(3) by (simp add: unlink_large_chunk_steps relink_def XP_def)
  have tree: "tree_at s' (treebin s' i) T \<and> parents_at s' (treebin_at s i) T \<and> (q = treebin s i \<longleftrightarrow> T = Leaf)"
    using p(6)
  proof (elim disjE conjE)
    assume r: "q = treebin s i" "Node Leaf q Leaf = X i"
    then have "T = Leaf" unfolding T_def r(2) [symmetric] by simp
    then show ?thesis using r(1) s'(7) i(1) by simp
  next
    assume r: "q \<noteq> treebin s i" and h: "hangs s (X i) q (Node Leaf q Leaf) XP b"
    have at: "tree_at s' (treebin s i) T"
      unfolding T_def
      by (rule hangs_replace(1) [OF h B(1), where R = 0]) (use s'(5) r sub in auto)
    moreover have "treebin s i \<noteq> 0" using B(1) i(2) by (cases "X i") auto
    then have "T \<noteq> Leaf" using at by auto
    moreover have "parents_at s' (treebin_at s i) T"
      unfolding T_def by (rule hangs_replace(2) [OF h D(3) [OF i(1)]]) (use s'(6) sub in auto)
    ultimately show ?thesis using r s'(7) i(1) by simp
  qed
  have "large_bins s' (X(i := T)) C \<and> large_all (X(i := T)) C = N - {q}"
  proof (rule lone_gone [OF inv i lone N_def T_def s'(2,4)])
    show "tree_at s' (treebin s' i) T" "parents_at s' (treebin_at s i) T" using tree by blast+
    show "treemap_is_marked s' j \<longleftrightarrow> (if j = i then T \<noteq> Leaf else treemap_is_marked s j)" if "j < NTREEBINS" for j
    proof -
      have "X i \<noteq> Leaf" using i(2) by auto
      moreover have "treemap_is_marked s' j = (if q = treebin s i then treemap_is_marked (clear_treemap i s) j
          else treemap_is_marked s j)"
        using s'(3) by (simp add: treemap_is_marked_def clear_treemap_def)
      ultimately show ?thesis using marked_tree(2) [OF i(1) that, of s] D(8) [OF i(1)] tree by auto
    qed
    show "child s' x 0 = child s x 0 \<and> child s' x 1 = child s x 1 \<and> parent s' x = parent s x"
      if "x \<in> N - set_tree (X i)" for x
    proof -
      have "q \<noteq> treebin s i \<longrightarrow> x \<noteq> XP" using p(6) that by (auto simp: hangs_def)
      then show ?thesis using s'(5,6) that by auto
    qed
  qed (use s'(7) in simp)
  then show ?thesis using e s'(2) unfolding N_def by blast
qed

text \<open>The leaf \<open>R\<close> that replaces a node \<open>q\<close> with children, and the two subtrees it gets\<close>

lemma take_leaf_effect:
  assumes q: "tree_at s q (Node l q r)" "trie_ok sz k (Node l q r)" "parents_at s XP (Node l q r)"
    and children: "l \<noteq> Leaf \<or> r \<noteq> Leaf"
    and N: "nodes_apart N" "set_tree (Node l q r) \<subseteq> N" "\<And>x. x \<in> N \<Longrightarrow> ok_address s x \<and> unat x + 64 \<le> 2 ^ 64"
    and lone: "bk s q = q"
  shows "\<exists>p b R l' r'. tree_replacement q s = Ret (R, set_child p b 0 s) \<and> p \<in> set_tree (Node l q r) \<and> b \<in> {0, 1}
    \<and> p \<noteq> R \<and> R \<in> set_tree l \<union> set_tree r \<and> child s R 0 = 0 \<and> child s R 1 = 0
    \<and> drop_root (Node l q r) = Node l' R r'
    \<and> set_tree l' \<union> set_tree r' \<subseteq> set_tree l \<union> set_tree r - {R} \<and> set_tree l' \<inter> set_tree r' = {}
    \<and> parents_at s q l' \<and> parents_at s q r'
    \<and> (\<forall>s'. (\<forall>x\<in>set_tree l \<union> set_tree r - {R}. \<forall>d\<in>{0, 1}. child s' x d = (if x = p \<and> d = b then 0 else child s x d))
         \<longrightarrow> tree_at s' (if p = q \<and> b = 0 then 0 else child s q 0) l'
           \<and> tree_at s' (if p = q \<and> b = 1 then 0 else child s q 1) r')"
proof -
  note T = tree_at_NodeD [OF q(1,2)]
  have zero: "child s q 0 = 0 \<longleftrightarrow> l = Leaf" "child s q 1 = 0 \<longleftrightarrow> r = Leaf" using tree_at_zero T(3,4) by blast+
  have P: "parents_at s q l" "parents_at s q r" using q(3) by auto
  have ok: "ok_address s (child_at x b)" if "x \<in> set_tree (Node l q r)" "b \<in> {0, 1}" for x b
  proof -
    have "x \<in> N" using N(2) that(1) by blast
    then show ?thesis using N(3) ok_child_at that(2) by blast
  qed
  show ?thesis
  proof (cases "r = Leaf")
    case False
    obtain R r' where sp: "split_leaf r = (R, r')" by fastforce
    note ex = split_leaf_exact [OF T(4,9) False sp]
    obtain p b where p: "rightmost_leaf s (child_at q 1) (child s q 1) = Some (child_at p b, R)" "b \<in> {0, 1}"
      "p = q \<and> b = 1 \<or> p \<in> set_tree r - {R}" "child s R 0 = 0" "child s R 1 = 0"
      "cuts s r r' R p b (if p = q then 0 else child s q 1)"
      using rightmost_leaf_spec [OF T(4,9) False sp, of 1 q] T(6) by auto
    have pU: "p \<in> set_tree (Node l q r)" "p \<notin> set_tree l" "p \<noteq> R" using p(3) T(5-7) ex by auto
    have repl: "tree_replacement q s = Ret (R, set_child p b 0 s)"
      using lone zero(2) False p(1) ok [OF pU(1) p(2)] by (simp add: tree_replacement_def take_leaf_def set_child_def)
    have both: "tree_at s' (if p = q \<and> b = 0 then 0 else child s q 0) l
           \<and> tree_at s' (if p = q \<and> b = 1 then 0 else child s q 1) r'"
      if u: "\<forall>x\<in>set_tree l \<union> set_tree r - {R}. \<forall>d\<in>{0, 1}. child s' x d = (if x = p \<and> d = b then 0 else child s x d)" for s'
    proof -
      have "set_tree l \<subseteq> set_tree l \<union> set_tree r - {R}" using T(7) ex by auto
      then have "tree_at s' (child s q 0) l" using cut_keeps_other [OF T(3) _ pU(2)] u by blast
      moreover have "tree_at s' (if p = q then 0 else child s q 1) r'" using p(6) u unfolding cuts_def by blast
      moreover have "p = q \<longleftrightarrow> p = q \<and> b = 1" using p(3) T(6) by auto
      ultimately show ?thesis by auto
    qed
    have par: "parents_at s q r'" by (rule split_leaf_parents [OF P(2) sp])
    have drop: "drop_root (Node l q r) = Node l R r'" using sp False by simp
    have sets: "set_tree l \<union> set_tree r' \<subseteq> set_tree l \<union> set_tree r - {R}" "set_tree l \<inter> set_tree r' = {}"
      "R \<in> set_tree l \<union> set_tree r" using ex T(7) by blast+
    show ?thesis
      by (rule exI [of _ p], rule exI [of _ b], rule exI [of _ R], rule exI [of _ l], rule exI [of _ "r'"],
          intro conjI allI impI) (use p(2,4,5) pU P repl drop sets par both in blast)+
  next
    case True
    then have l: "l \<noteq> Leaf" using children by simp
    obtain R l' where sp: "split_leaf l = (R, l')" by fastforce
    note ex = split_leaf_exact [OF T(3,8) l sp]
    obtain p b where p: "rightmost_leaf s (child_at q 0) (child s q 0) = Some (child_at p b, R)" "b \<in> {0, 1}"
      "p = q \<and> b = 0 \<or> p \<in> set_tree l - {R}" "child s R 0 = 0" "child s R 1 = 0"
      "cuts s l l' R p b (if p = q then 0 else child s q 0)"
      using rightmost_leaf_spec [OF T(3,8) l sp, of 0 q] T(5) by auto
    have pU: "p \<in> set_tree (Node l q r)" "p \<noteq> R" using p(3) T(5-7) ex by auto
    have repl: "tree_replacement q s = Ret (R, set_child p b 0 s)"
      using lone zero l True p(1) ok [OF pU(1) p(2)] by (simp add: tree_replacement_def take_leaf_def set_child_def)
    have both: "tree_at s' (if p = q \<and> b = 0 then 0 else child s q 0) l'
           \<and> tree_at s' (if p = q \<and> b = 1 then 0 else child s q 1) Leaf"
      if u: "\<forall>x\<in>set_tree l \<union> set_tree r - {R}. \<forall>d\<in>{0, 1}. child s' x d = (if x = p \<and> d = b then 0 else child s x d)" for s'
    proof -
      have "tree_at s' (if p = q then 0 else child s q 0) l'" using p(6) u unfolding cuts_def by blast
      moreover have "p = q \<longleftrightarrow> p = q \<and> b = 0" using p(3) T(5) by auto
      ultimately show ?thesis using zero(2) True by auto
    qed
    have par: "parents_at s q l'" by (rule split_leaf_parents [OF P(1) sp])
    have drop: "drop_root (Node l q r) = Node l' R Leaf" using sp True l by simp
    have sets: "set_tree l' \<union> set_tree Leaf \<subseteq> set_tree l \<union> set_tree r - {R}" "set_tree l' \<inter> set_tree Leaf = {}"
      "R \<in> set_tree l \<union> set_tree r" "parents_at s q Leaf" using ex by auto
    show ?thesis
      by (rule exI [of _ p], rule exI [of _ b], rule exI [of _ R], rule exI [of _ "l'"], rule exI [of _ "Leaf"],
          intro conjI allI impI) (use p(2,4,5) pU P repl drop sets par both in blast)+
  qed
qed

lemma unlink_inner_node:
  assumes inv: "large_bins s X C" and i: "i < NTREEBINS" "q \<in> set_tree (X i)" and lone: "C q = []"
    and inner: "child s q 0 \<noteq> 0 \<or> child s q 1 \<noteq> 0"
  shows "\<exists>s' X' C'. unlink_large_chunk q s = Ret s' \<and> large_bins s' X' C'
    \<and> large_all X' C' = large_all X C - {q} \<and> large_frame s (large_all X C) s'"
proof -
  define N where "N = large_all X C"
  define XP where "XP = parent s q"
  note D = large_binsD [OF inv]
  have lay: "layout s N" "nodes_apart N" "bins_apart s N" using D(2) by (simp_all add: layout_def N_def)
  have sub: "set_tree (X i) \<subseteq> N" using ring_members_bin(2) [OF inv i(1)] by (auto simp: N_def)
  have qX: "q \<in> large_chunks X" using i bin_in_chunks by blast
  obtain l r b0 k where U: "tree_at s q (Node l q r)" "trie_ok (chunksize s) k (Node l q r)" "XP \<noteq> 0"
    "parents_at s XP (Node l q r)" "set_tree (Node l q r) \<subseteq> set_tree (X i)"
    "q = treebin s i \<and> Node l q r = X i \<or> q \<noteq> treebin s i \<and> hangs s (X i) q (Node l q r) XP b0"
    using place_exists [OF inv i] unfolding XP_def by blast
  note T = tree_at_NodeD [OF U(1,2)]
  have children: "l \<noteq> Leaf \<or> r \<noteq> Leaf" using inner T(3,4) by auto
  have UN: "set_tree (Node l q r) \<subseteq> N" using U(5) sub by blast
  have ok: "ok_address s x \<and> unat x + 64 \<le> 2 ^ 64" if "x \<in> N" for x using lay(1) that by (simp add: layout_def)
  have bk: "bk s q = q" using lone_ring [of s q] D(5) [OF qX] lone by simp
  obtain p b R l' r' where e: "tree_replacement q s = Ret (R, set_child p b 0 s)" "p \<in> set_tree (Node l q r)" "b \<in> {0, 1}"
    "p \<noteq> R" "R \<in> set_tree l \<union> set_tree r" "child s R 0 = 0" "child s R 1 = 0" "drop_root (Node l q r) = Node l' R r'"
    "set_tree l' \<union> set_tree r' \<subseteq> set_tree l \<union> set_tree r - {R}" "set_tree l' \<inter> set_tree r' = {}"
    "parents_at s q l'" "parents_at s q r'"
    and sides: "\<forall>s'. (\<forall>x\<in>set_tree l \<union> set_tree r - {R}. \<forall>d\<in>{0, 1}. child s' x d = (if x = p \<and> d = b then 0 else child s x d))
         \<longrightarrow> tree_at s' (if p = q \<and> b = 0 then 0 else child s q 0) l'
           \<and> tree_at s' (if p = q \<and> b = 1 then 0 else child s q 1) r'"
    using take_leaf_effect [OF U(1,2,4) children lay(2) UN ok bk] by blast
  define s1 where "s1 = set_child p b 0 s"
  have pN: "p \<in> N" "R \<in> N" "q \<in> N" "R \<noteq> q" using e(2,5) UN T(5,6) by auto
  have frame1: "large_frame s N s1" "treemap s1 = treemap s" "node_reads_same s N s1"
    unfolding s1_def using e(3) by (auto intro: large_frame_writes [OF lay(2) pN(1)]
        simp: node_reads_same_def node_simps [OF lay(2) pN(1)])
  have ch1: "child s1 x d = (if x = p \<and> d = b then 0 else child s x d)" if "x \<in> N" "d \<in> {0, 1}" for x d
    unfolding s1_def using e(3) that by (auto simp: node_simps [OF lay(2) pN(1)])
  have pa1: "parent s1 x = parent s x" if "x \<in> N" for x
    unfolding s1_def using e(3) that by (auto simp: node_simps [OF lay(2) pN(1)])
  have bin1: "treebin s1 j = treebin s j" if "j < NTREEBINS" for j
    unfolding s1_def using e(3) that by (auto simp: treebin_writes [OF lay(3) pN(1)])
  obtain s' where s': "relink q XP R s1 = Ret s'" "large_frame s N s'" "treemap s' = treemap s" "node_reads_same s1 N s'"
    "tree_at s' (treebin s' i) (at_node q drop_root (X i))" "parents_at s' (treebin_at s i) (at_node q drop_root (X i))"
    "\<forall>j < NTREEBINS. j \<noteq> i \<longrightarrow> treebin s' j = treebin s j"
    "\<forall>x\<in>N - set_tree (X i) - {R}. child s' x 0 = child s x 0 \<and> child s' x 1 = child s x 1 \<and> parent s' x = parent s x"
  proof -
    have "\<exists>s'. relink q (parent s q) R s1 = Ret s' \<and> large_frame s N s' \<and> treemap s' = treemap s \<and> node_reads_same s1 N s'
    \<and> tree_at s' (treebin s' i) (at_node q drop_root (X i)) \<and> parents_at s' (treebin_at s i) (at_node q drop_root (X i))
    \<and> (\<forall>j < NTREEBINS. j \<noteq> i \<longrightarrow> treebin s' j = treebin s j)
    \<and> (\<forall>x\<in>N - set_tree (X i) - {R}. child s' x 0 = child s x 0 \<and> child s' x 1 = child s x 1 \<and> parent s' x = parent s x)"
    proof (rule replace_node [where U = "Node l q r" and f = drop_root and b = b0,
          OF inv i N_def frame1(1,2) _ bin1 _ refl e(8) U(6) [unfolded XP_def]])
      show "parent s1 x = parent s x \<and> index s1 x = index s x" if "x \<in> N" for x
        using pa1 [OF that] frame1(3) that by (simp add: node_reads_same_def)
      show "child s1 x d = child s x d" if "x \<in> N - set_tree (Node l q r)" "d \<in> {0, 1}" for x d
        using ch1 [of x d] that e(2) by auto
      show "R \<in> N" "R \<noteq> q" by (rule pN)+
      show "R \<notin> set_tree (X i) - set_tree (Node l q r)" using e(5) by auto
      show "child s1 R 0 = 0" "child s1 R 1 = 0" using ch1 [OF pN(2)] e(6,7) by simp_all
      show "tree_at s'' (child s1 q 0) l' \<and> tree_at s'' (child s1 q 1) r'"
        if u: "\<And>x d. x \<in> set_tree l \<union> set_tree r - {R} \<Longrightarrow> d \<in> {0, 1} \<Longrightarrow> child s'' x d = child s1 x d" for s''
      proof -
        have "child s'' x d = (if x = p \<and> d = b then 0 else child s x d)"
          if "x \<in> set_tree l \<union> set_tree r - {R}" "d \<in> {0, 1}" for x d
        proof -
          have "x \<in> N" using that(1) UN by auto
          then show ?thesis using u [OF that] ch1 that(2) by simp
        qed
        then have "tree_at s'' (if p = q \<and> b = 0 then 0 else child s q 0) l'
           \<and> tree_at s'' (if p = q \<and> b = 1 then 0 else child s q 1) r'" using sides by blast
        moreover have "child s1 q 0 = (if p = q \<and> b = 0 then 0 else child s q 0)"
          "child s1 q 1 = (if p = q \<and> b = 1 then 0 else child s q 1)" using ch1 [OF pN(3)] by auto
        ultimately show ?thesis by simp
      qed
    qed (use e in auto)
    then show thesis using that unfolding XP_def by blast
  qed
  have RX: "R \<in> set_tree (X i)" using e(5) U(5) by auto
  have "large_bins s' (X(i := at_node q drop_root (X i))) C \<and> large_all (X(i := at_node q drop_root (X i))) C = N - {q}"
  proof (rule lone_gone [OF inv i lone N_def refl s'(2) node_reads_same_trans [OF frame1(3) s'(4)] s'(5,6)])
    show "treemap_is_marked s' j \<longleftrightarrow> (if j = i then at_node q drop_root (X i) \<noteq> Leaf else treemap_is_marked s j)"
      if "j < NTREEBINS" for j
    proof -
      note B = tree_binD [OF D(7) [OF i(1)]]
      have "set_tree (at_node q drop_root (X i)) = set_tree (X i) - {q}"
        using at_node_drop [OF B(1,2) i(2)] by blast
      then have "R \<in> set_tree (at_node q drop_root (X i))" using RX pN(4) by auto
      then have "at_node q drop_root (X i) \<noteq> Leaf" "X i \<noteq> Leaf" using RX by auto
      then show ?thesis using s'(3) D(8) [OF i(1)] by (auto simp: treemap_is_marked_def)
    qed
  qed (use s'(7,8) RX in auto)
  moreover have "unlink_large_chunk q s = Ret s'"
    using e(1) s'(1) U(3) by (simp add: unlink_large_chunk_steps s1_def XP_def)
  ultimately show ?thesis using s'(2) unfolding N_def by blast
qed

lemma unlink_ringed_node:
  assumes inv: "large_bins s X C" and i: "i < NTREEBINS" "q \<in> set_tree (X i)" and C: "C q = xs @ [R]"
  shows "\<exists>s' X' C'. unlink_large_chunk q s = Ret s' \<and> large_bins s' X' C'
    \<and> large_all X' C' = large_all X C - {q} \<and> large_frame s (large_all X C) s'"
proof -
  define N where "N = large_all X C"
  define XP where "XP = parent s q"
  define F where "F = fd s q"
  note D = large_binsD [OF inv]
  note B = tree_binD [OF D(7) [OF i(1)]]
  have lay: "layout s N" "nodes_apart N" "bins_apart s N" using D(2) by (simp_all add: layout_def N_def)
  have sub: "set_tree (X i) \<subseteq> N" using ring_members_bin(2) [OF inv i(1)] by (auto simp: N_def)
  have qX: "q \<in> large_chunks X" using i bin_in_chunks by blast
  have ring: "ring s q (xs @ [R])" using D(5) [OF qX] C by simp
  have qN: "insert q (set (xs @ [R])) \<subseteq> N" using chunks_in_all [OF qX, of C] by (simp add: C N_def)
  note r = ring_drop_node [OF ring lay(2) qN, folded F_def]
  have dist: "distinct (q # xs @ [R])" using ring unfolding ring_def by blast
  have RN: "R \<in> N" "F \<in> N" "R \<noteq> q" "F \<noteq> q" using qN r(4) dist by auto
  have Rring: "chunksize s R = chunksize s q" "child s R 0 = 0" "child s R 1 = 0" using ring unfolding ring_def by auto
  have member: "z \<notin> set_tree (X j)" if "t \<in> large_chunks X" "z \<in> set (C t)" "j < NTREEBINS" for t z j
  proof
    assume z: "z \<in> set_tree (X j)"
    have "t = z" using rings_apart [OF inv that(1), of z z] z that(2,3) bin_in_chunks [OF that(3), of X] by blast
    then show False using D(5) [OF that(1)] that(2) by (simp add: ring_def)
  qed
  have RX: "R \<notin> set_tree (X i)" using member [OF qX _ i(1)] C by simp
  define s1 where "s1 = unlink_between R F s"
  note u = unlink_between_reads [OF lay(2) RN(1,2), where s = s, folded s1_def]
  have "ok_address s F" using lay(1) RN(2) by (simp add: layout_def)
  then have repl: "tree_replacement q s = Ret (R, s1)"
    unfolding tree_replacement_def Let_def s1_def unlink_between_def using r(1-3) RN(3) by (simp add: F_def)
  obtain l rr b k where U: "tree_at s q (Node l q rr)" "trie_ok (chunksize s) k (Node l q rr)" "XP \<noteq> 0"
    "parents_at s XP (Node l q rr)" "set_tree (Node l q rr) \<subseteq> set_tree (X i)"
    "q = treebin s i \<and> Node l q rr = X i \<or> q \<noteq> treebin s i \<and> hangs s (X i) q (Node l q rr) XP b"
    using place_exists [OF inv i] unfolding XP_def by blast
  note T = tree_at_NodeD [OF U(1,2)]
  define Y where "Y = at_node q (new_root R) (X i)"
  obtain s' where s': "relink q XP R s1 = Ret s'" "large_frame s N s'" "treemap s' = treemap s" "node_reads_same s1 N s'"
    "tree_at s' (treebin s' i) Y" "parents_at s' (treebin_at s i) Y"
    "\<forall>j < NTREEBINS. j \<noteq> i \<longrightarrow> treebin s' j = treebin s j"
    "\<forall>x\<in>N - set_tree (X i) - {R}. child s' x 0 = child s x 0 \<and> child s' x 1 = child s x 1 \<and> parent s' x = parent s x"
  proof -
    have "\<exists>s'. relink q (parent s q) R s1 = Ret s' \<and> large_frame s N s' \<and> treemap s' = treemap s \<and> node_reads_same s1 N s'
    \<and> tree_at s' (treebin s' i) Y \<and> parents_at s' (treebin_at s i) Y
    \<and> (\<forall>j < NTREEBINS. j \<noteq> i \<longrightarrow> treebin s' j = treebin s j)
    \<and> (\<forall>x\<in>N - set_tree (X i) - {R}. child s' x 0 = child s x 0 \<and> child s' x 1 = child s x 1 \<and> parent s' x = parent s x)"
      unfolding Y_def
    proof (rule replace_node [where U = "Node l q rr" and f = "new_root R" and b = b,
          OF inv i N_def u(1,2) _ u(4) [OF lay(3)] _ refl _ U(6) [unfolded XP_def] RN(1,3)])
      have LN: "set_tree l \<union> set_tree rr \<subseteq> N - {R}" using U(5) sub RX by auto
      show "parent s1 x = parent s x \<and> index s1 x = index s x" if "x \<in> N" for x using u(3) [OF that] by blast
      show "child s1 x d = child s x d" if "x \<in> N - set_tree (Node l q rr)" "d \<in> {0, 1}" for x d
        using u(3) [of x] that by auto
      show "R \<notin> set_tree (X i) - set_tree (Node l q rr)" using RX by blast
      show "child s1 R 0 = 0" "child s1 R 1 = 0" using u(3) [OF RN(1)] Rring by simp_all
      show "new_root R (Node l q rr) = Node l R rr" by simp
      show "tree_at s'' (child s1 q 0) l \<and> tree_at s'' (child s1 q 1) rr"
        if v: "\<And>x d. x \<in> set_tree l \<union> set_tree rr - {R} \<Longrightarrow> d \<in> {0, 1} \<Longrightarrow> child s'' x d = child s1 x d" for s''
      proof -
        have same: "child s'' x 0 = child s x 0 \<and> child s'' x 1 = child s x 1" if "x \<in> set_tree l \<union> set_tree rr" for x
        proof -
          have "x \<in> N" "x \<noteq> R" using that LN by auto
          then show ?thesis using v [of x 0] v [of x 1] u(3) [of x] that by auto
        qed
        have "tree_at s'' (child s q 0) l \<longleftrightarrow> tree_at s (child s q 0) l" by (rule tree_at_cong) (use same in blast)
        moreover have "tree_at s'' (child s q 1) rr \<longleftrightarrow> tree_at s (child s q 1) rr" by (rule tree_at_cong) (use same in blast)
        ultimately show ?thesis using T(3,4) u(3) [of q] qN by auto
      qed
      show "set_tree l \<union> set_tree rr \<subseteq> set_tree l \<union> set_tree rr - {R}" using LN by blast
    qed (use T(7) U(4) in auto)
    then show thesis using that unfolding XP_def by blast
  qed
  have e: "unlink_large_chunk q s = Ret s'"
    using repl s'(1) U(3) by (simp add: unlink_large_chunk_steps XP_def)
  have Y: "set_tree Y = {R} \<union> (set_tree (X i) - {q})" "trie_ok (chunksize s) (bin_bits i) Y"
    using at_node_new_root [OF B(1,2) i(2) Rring(1)] by (simp_all add: Y_def)
  let ?C = "C(R := xs)"
  have qR: "R \<noteq> y" if "y \<in> large_chunks X" for y
    using that in_one_bin [OF inv that] member [OF qX] C by fastforce
  have other: "q \<notin> set_tree (X j)" if "j < NTREEBINS" "j \<noteq> i" for j
    using tree_binD(4) [OF D(7) [OF that(1)], of q] B(4) [OF i(2)] that(2) by blast
  have chunks: "large_chunks (X(i := Y)) = {R} \<union> (large_chunks X - {q})"
    using Y(1) i(1) other unfolding large_chunks_def by (auto split: if_splits)
  have all: "large_all (X(i := Y)) ?C = N - {q}"
    unfolding N_def
  proof (rule large_all_change [OF inv qX _ _ chunks])
    show "(\<Union>u\<in>{R}. insert u (set (?C u))) = insert q (set (C q)) - {q}" using dist by (auto simp: C)
    show "?C u = C u" if "u \<in> large_chunks X" "u \<noteq> q" for u using qR [OF that(1)] by simp
  qed simp
  have reads: "head s' z = head s z" "index s' z = index s z" "fd s' z = fd s1 z" "bk s' z = bk s1 z" if "z \<in> N" for z
    using s'(2,4) u(3) [OF that] that by (simp_all add: large_frame_def node_reads_same_def)
  have new: "ring s' R xs"
  proof -
    have "linked s' (R # xs @ [R]) \<longleftrightarrow> linked s1 (R # xs @ [R])"
    proof (rule linked_cong)
      show "fd s' z = fd s1 z" if "z \<in> set (butlast (R # xs @ [R]))" for z
        using reads(3) in_set_butlastD [OF that] qN by auto
      show "bk s' z = bk s1 z" if "z \<in> set (tl (R # xs @ [R]))" for z using reads(4) that qN by auto
    qed
    moreover have "chunksize s' z = chunksize s z" if "z \<in> N" for z using reads(1) [OF that] by (simp add: chunksize_def)
    moreover have "chunksize s' z = chunksize s' R \<and> parent s' z = 0 \<and> child s' z 0 = 0 \<and> child s' z 1 = 0" if z: "z \<in> set xs" for z
    proof -
      have zN: "z \<in> N" "z \<noteq> R" using z qN dist by auto
      have "z \<notin> set_tree (X i)" using member [OF qX _ i(1)] z C by simp
      then have "child s' z 0 = child s z 0 \<and> child s' z 1 = child s z 1 \<and> parent s' z = parent s z" using s'(8) zN by blast
      moreover have "chunksize s z = chunksize s q \<and> parent s z = 0 \<and> child s z 0 = 0 \<and> child s z 1 = 0"
        using ring z unfolding ring_def by simp
      ultimately show ?thesis using reads(1) zN RN(1) Rring(1) by (simp add: chunksize_def)
    qed
    ultimately show ?thesis using r(5) dist unfolding ring_def s1_def by simp
  qed
  have far: "z \<noteq> R \<and> z \<noteq> F" if "y \<in> large_chunks X" "y \<noteq> q" "z \<in> insert y (set (C y))" for y z
    using rings_apart [OF inv that(1) qX that(3)] that(2) r(4) by (auto simp: C)
  have "large_bins s' (X(i := Y)) ?C"
  proof (rule large_bins_change [OF inv i(1) s'(2) _ s'(5,6) Y(2)])
    have "inj_on (chunksize s) (set_tree (X i))" using D(4) bin_in_chunks [OF i(1)] inj_on_subset by blast
    then show "inj_on (chunksize s) (set_tree Y)"
      using Rring(1) i(2) unfolding Y(1) by (auto simp: inj_on_def)
    fix y
    assume "y \<in> set_tree Y"
    then consider "y = R" | "y \<in> set_tree (X i)" "y \<noteq> q" using Y(1) by auto
    then show "y \<in> N \<and> compute_tree_index (chunksize s y) = i
        \<and> MIN_LARGE_SIZE \<le> chunksize s y \<and> chunksize s y < 2 ^ 40 \<and> ring s' y (?C y)"
    proof cases
      case 1
      then show ?thesis using new B(4-6) [OF i(2)] Rring(1) RN(1) by simp
    next
      case 2
      have yX: "y \<in> large_chunks X" using 2(1) bin_in_chunks [OF i(1)] by blast
      have "ring s' y (C y)"
      proof (rule ring_cong [OF D(5) [OF yX]])
        show "head s' z = head s z \<and> fd s' z = fd s z \<and> bk s' z = bk s z" if "z \<in> insert y (set (C y))" for z
        proof -
          have "z \<in> N" using chunks_in_all [OF yX] that unfolding N_def by blast
          then show ?thesis using reads u(3) [of z] far [OF yX 2(2) that] by simp
        qed
        show "parent s' z = parent s z \<and> child s' z 0 = child s z 0 \<and> child s' z 1 = child s z 1" if "z \<in> set (C y)" for z
        proof -
          have "z \<in> N - set_tree (X i) - {R}"
            using chunks_in_all [OF yX] that member [OF yX that i(1)] far [OF yX 2(2), of z] unfolding N_def by blast
          then show ?thesis using s'(8) by blast
        qed
      qed
      then show ?thesis using B(4-6) [OF 2(1)] sub 2(1) qR [OF yX] by auto
    qed
  next
    fix y
    assume y: "y \<in> large_all X C" "compute_tree_index (chunksize s y) \<noteq> i"
    have "R \<in> insert q (set (C q))" "F \<in> insert q (set (C q))" using r(4) by (auto simp: C)
    then have ne: "y \<noteq> R" "y \<noteq> F" using ring_members_bin(1) [OF inv i] y(2) by auto
    then have "y \<in> N - set_tree (X i) - {R}" using B(4) y by (auto simp: N_def)
    then show "?C y = C y \<and> child s' y 0 = child s y 0 \<and> child s' y 1 = child s y 1 \<and> parent s' y = parent s y
         \<and> fd s' y = fd s y \<and> bk s' y = bk s y"
      using s'(8) ne reads u(3) [of y] by simp
  next
    show "treemap_is_marked s' j \<longleftrightarrow> (if j = i then Y \<noteq> Leaf else treemap_is_marked s j)" if "j < NTREEBINS" for j
    proof -
      have "Y \<noteq> Leaf" "X i \<noteq> Leaf" using Y(1) i(2) by auto
      then show ?thesis using s'(3) D(8) [OF i(1)] by (auto simp: treemap_is_marked_def)
    qed
    show "layout s (large_all (X(i := Y)) ?C)" using layout_without [OF D(2)] by (simp add: all N_def)
  next
    fix y
    assume "y \<in> large_all (X(i := Y)) ?C"
    then have "y \<in> N" using all by simp
    then show "index s' y = compute_tree_index (chunksize s y)" using reads(2) D(6) by (simp add: N_def)
  qed (use s'(7) all in \<open>auto simp: N_def\<close>)
  then show ?thesis using e all s'(2) unfolding N_def by blast
qed

lemma unlink_large_chunk_removes:
  assumes inv: "large_bins s X C" and q: "q \<in> large_all X C"
  shows "\<exists>s' X' C'. unlink_large_chunk q s = Ret s' \<and> large_bins s' X' C'
    \<and> large_all X' C' = large_all X C - {q} \<and> large_frame s (large_all X C) s'"
proof -
  obtain t where t: "t \<in> large_chunks X" "q \<in> insert t (set (C t))" using q by (auto simp: large_all_def)
  show ?thesis
  proof (cases "q = t")
    case False
    then obtain ys zs where "C t = ys @ q # zs" using t(2) by (auto simp: in_set_conv_decomp)
    then show ?thesis using unlink_member [OF inv t(1)] by blast
  next
    case True
    obtain i where i: "i < NTREEBINS" "q \<in> set_tree (X i)" using in_one_bin [OF inv t(1)] True by blast
    show ?thesis
    proof (cases "C q" rule: rev_cases)
      case Nil
      then show ?thesis using unlink_leaf_node [OF inv i] unlink_inner_node [OF inv i] by blast
    next
      case (snoc xs R)
      then show ?thesis by (rule unlink_ringed_node [OF inv i])
    qed
  qed
qed

end
