(* ===== verification/Dl_Store.thy ===== *)
theory Dl_Store
  imports Dl_Unlink
begin

unbundle bit_operations_syntax

text \<open>
  The large bins refine a set of free chunks whose blocks of memory do not overlap:
  \<open>insert_large_chunk\<close> adds a chunk to the set, \<open>unlink_large_chunk\<close> takes one out, no check of the
  allocator fails, and the searches find the best fit of the set after any history.
\<close>

section \<open>Blocks of memory\<close>

definition block :: "malloc_state \<Rightarrow> addr \<Rightarrow> nat set" where
  "block s x = {unat x ..< unat x + unat (chunksize s x)}"

text \<open>
  The allocator's state up to its last word: \<open>exts\<close> lies where the first chunk behind the state has its
  \<open>prev_foot\<close>, which no operation on that chunk writes, as the chunk of the state is in use.
\<close>

definition state_area :: "malloc_state \<Rightarrow> nat set" where
  "state_area s = {unat (mst s) ..< unat (mst s) + unat sizeof_malloc_state - 8}"

definition free_blocks :: "malloc_state \<Rightarrow> addr set \<Rightarrow> bool" where
  "free_blocks s A \<longleftrightarrow>
     mst s \<noteq> 0 \<and> unat (mst s) + unat sizeof_malloc_state \<le> 2 ^ 64
       \<and> (\<forall>x\<in>A. x \<noteq> 0 \<and> ok_address s x \<and> 64 \<le> unat (chunksize s x)
             \<and> unat x + unat (chunksize s x) \<le> 2 ^ 64 \<and> block s x \<inter> state_area s = {}
             \<and> (\<forall>y\<in>A. x \<noteq> y \<longrightarrow> block s x \<inter> block s y = {}))"

lemma free_blocks_mono: "free_blocks s A \<Longrightarrow> B \<subseteq> A \<Longrightarrow> free_blocks s B"
  unfolding free_blocks_def by blast

lemma fields_in_block:
  assumes "64 \<le> unat (chunksize s x)" "unat x + unat (chunksize s x) \<le> 2 ^ 64" "b \<in> node_fields x"
  shows "unat b \<in> block s x"
proof -
  obtain i where i: "i \<in> node_offsets" "b = x + i" using assms(3) by (auto simp: node_fields_def)
  then have "unat i \<le> 56" by (auto simp: node_offsets_def)
  moreover from this have "unat (x + i) = unat x + unat i" using assms(1,2) by (simp add: unat_add_lem [THEN iffD1])
  ultimately show ?thesis using assms(1) i(2) by (simp add: block_def)
qed

lemma treebin_in_area:
  assumes "unat (mst s) + unat sizeof_malloc_state \<le> 2 ^ 64" "i < NTREEBINS"
  shows "unat (treebin_at s i) = unat (mst s) + 600 + 8 * unat i" "unat (treebin_at s i) \<in> state_area s"
proof -
  have i: "unat i < 32" using assms(2) by (simp add: NTREEBINS_def word_less_nat_alt)
  have m: "unat (mst s) + 936 \<le> 2 ^ 64" using assms(1) by (simp add: dl_consts)
  have e: "unat (8 * ucast i :: addr) = 8 * unat i"
    using i by (simp add: unat_mult_lem [THEN iffD1] unsigned_ucast_eq take_bit_nat_eq_self)
  have "unat (mst s + 600) = unat (mst s) + 600" using m by (simp add: unat_add_lem [THEN iffD1])
  then show u: "unat (treebin_at s i) = unat (mst s) + 600 + 8 * unat i"
    using m i e by (simp add: treebin_at_def dl_consts unat_add_lem [THEN iffD1])
  show "unat (treebin_at s i) \<in> state_area s" using i by (simp add: state_area_def u dl_consts)
qed

lemma free_blocks_layout: "free_blocks s A \<Longrightarrow> layout s A"
proof -
  assume f: "free_blocks s A"
  have inb: "unat b \<in> block s x" if "x \<in> A" "b \<in> node_fields x" for x b
    using fields_in_block [of s x b] f that by (simp add: free_blocks_def)
  have "node_fields x \<inter> node_fields y = {}" if "x \<in> A" "y \<in> A" "x \<noteq> y" for x y
    using inb [OF that(1)] inb [OF that(2)] f that unfolding free_blocks_def by blast
  moreover have "treebin_at s i \<notin> node_fields x" if "i < NTREEBINS" "x \<in> A" for i x
    using inb [OF that(2)] treebin_in_area(2) [of s i] f that unfolding free_blocks_def by blast
  moreover have "treebin_at s i \<noteq> 0" if "i < NTREEBINS" for i
  proof
    assume "treebin_at s i = 0"
    then have "unat (treebin_at s i) = 0" by simp
    then show False using treebin_in_area(1) [of s i] f that by (simp add: free_blocks_def)
  qed
  moreover have "x \<noteq> 0 \<and> ok_address s x \<and> unat x + 64 \<le> 2 ^ 64" if "x \<in> A" for x
  proof -
    have "x \<noteq> 0 \<and> ok_address s x \<and> 64 \<le> unat (chunksize s x) \<and> unat x + unat (chunksize s x) \<le> 2 ^ 64"
      using f that unfolding free_blocks_def by blast
    then show ?thesis by (elim conjE) (intro conjI; linarith)
  qed
  ultimately show ?thesis unfolding layout_def nodes_apart_def bins_apart_def by blast
qed

text \<open>An operation on the chunks \<open>N\<close> keeps the blocks of all chunks.\<close>

lemma large_frame_wide:
  assumes "large_frame s N s'" "N \<subseteq> W" "layout s W"
  shows "large_frame s W s'"
proof -
  have "head s' q = head s q" if q: "q \<in> W" for q
  proof (cases "q \<in> N")
    case False
    have f: "q + 8 \<in> node_fields q" by (auto simp: node_fields_def offsets)
    have "q + 8 \<notin> node_fields x" if "x \<in> N" for x
    proof -
      have "x \<in> W" "x \<noteq> q" using assms(2) that False by auto
      then have "node_fields q \<inter> node_fields x = {}"
        using assms(3) q unfolding layout_def nodes_apart_def by blast
      then show ?thesis using f by blast
    qed
    moreover have "q + 8 \<noteq> treebin_at s i" if "i < NTREEBINS" for i
      using f assms(3) q that unfolding layout_def bins_apart_def by metis
    ultimately show ?thesis using assms(1) unfolding large_frame_def head_def by blast
  qed (use assms(1) in \<open>simp add: large_frame_def\<close>)
  then show ?thesis using assms(1,2) unfolding large_frame_def by blast
qed

lemma large_frame_dvsize: "large_frame s N s' \<Longrightarrow> dvsize s' = dvsize s"
proof -
  assume "large_frame s N s'"
  then have "s' = s\<lparr>malloc_state.heap := malloc_state.heap s', treemap := treemap s'\<rparr>"
    unfolding large_frame_def by (elim conjE)
  from arg_cong [where f = dvsize, OF this] show ?thesis by simp
qed

lemma free_blocks_frame:
  assumes "large_frame s W s'" "free_blocks s W"
  shows "free_blocks s' W"
proof -
  note k = large_frame_keeps [OF assms(1)]
  have "block s' x = block s x" if "x \<in> W" for x using k(3) [OF that] by (simp add: block_def)
  moreover have "state_area s' = state_area s" by (simp add: state_area_def k(1))
  ultimately show ?thesis using assms(2) k by (auto simp: free_blocks_def ok_address_def)
qed

section \<open>The set of large chunks\<close>

definition large_store :: "malloc_state \<Rightarrow> addr set \<Rightarrow> bool" where
  "large_store s A \<longleftrightarrow> free_blocks s A \<and> (\<exists>X C. large_bins s X C \<and> large_all X C = A)"

lemma large_store_sizes:
  assumes "large_store s A" "x \<in> A"
  shows "MIN_LARGE_SIZE \<le> chunksize s x" "chunksize s x < 2 ^ 40"
proof -
  obtain X C where X: "large_bins s X C" "large_all X C = A" using assms(1) by (auto simp: large_store_def)
  then obtain t where t: "t \<in> large_chunks X" "x \<in> insert t (set (C t))" using assms(2) by (auto simp: large_all_def)
  note D = large_binsD [OF X(1)]
  obtain i where i: "i < NTREEBINS" "t \<in> set_tree (X i)" using in_one_bin [OF X(1) t(1)] by blast
  have "chunksize s x = chunksize s t" by (rule ring_sizes [OF D(5) [OF t(1)] t(2)])
  then show "MIN_LARGE_SIZE \<le> chunksize s x" "chunksize s x < 2 ^ 40"
    using tree_binD(5,6) [OF D(7) [OF i(1)] i(2)] by simp_all
qed

lemma insert_large_chunk_effect:
  assumes "large_store s A" "P \<notin> A" "free_blocks s (insert P A)"
    and "MIN_LARGE_SIZE \<le> chunksize s P" "chunksize s P < 2 ^ 40"
  shows "\<exists>s'. insert_large_chunk P (chunksize s P) s = Ret s' \<and> large_store s' (insert P A)
    \<and> large_frame s (insert P A) s'"
proof -
  obtain X C where X: "large_bins s X C" "large_all X C = A" using assms(1) by (auto simp: large_store_def)
  from insert_large_chunk_adds [OF X(1), unfolded X(2), OF assms(2) free_blocks_layout [OF assms(3)] assms(4,5)]
  obtain s' X' C' where
    "insert_large_chunk P (chunksize s P) s = Ret s'" "large_bins s' X' C'" "large_all X' C' = insert P A"
    "large_frame s (insert P A) s'"
    by blast
  then show ?thesis using free_blocks_frame [OF _ assms(3)] unfolding large_store_def by blast
qed

lemma unlink_large_chunk_effect:
  assumes "large_store s A" "P \<in> A"
  shows "\<exists>s'. unlink_large_chunk P s = Ret s' \<and> large_store s' (A - {P}) \<and> large_frame s A s'"
proof -
  obtain X C where X: "large_bins s X C" "large_all X C = A" using assms(1) by (auto simp: large_store_def)
  from unlink_large_chunk_removes [OF X(1), unfolded X(2), OF assms(2)] obtain s' X' C' where
    u: "unlink_large_chunk P s = Ret s'" "large_bins s' X' C'" "large_all X' C' = A - {P}" "large_frame s A s'"
    by blast
  have "free_blocks s' A" using free_blocks_frame [OF u(4)] assms(1) by (simp add: large_store_def)
  then have "free_blocks s' (A - {P})" by (rule free_blocks_mono) blast
  then show ?thesis using u unfolding large_store_def by blast
qed

section \<open>The interface of a set that is changed in place\<close>

datatype 'a change = Insert 'a | Remove 'a

primrec perform :: "('a \<Rightarrow> 's \<Rightarrow> 's dl_result) \<Rightarrow> ('a \<Rightarrow> 's \<Rightarrow> 's dl_result) \<Rightarrow> 'a change list \<Rightarrow> 's \<Rightarrow> 's dl_result"
  where
  "perform ins del [] s = Ret s"
| "perform ins del (c # cs) s =
     dbind (case c of Insert x \<Rightarrow> ins x s | Remove x \<Rightarrow> del x s) (perform ins del cs)"

primrec set_after :: "'a change list \<Rightarrow> 'a set \<Rightarrow> 'a set" where
  "set_after [] A = A"
| "set_after (c # cs) A = set_after cs (case c of Insert x \<Rightarrow> insert x A | Remove x \<Rightarrow> A - {x})"

text \<open>Nothing is inserted twice, and only what is there is removed.\<close>

primrec admissible :: "'a set \<Rightarrow> 'a change list \<Rightarrow> 'a set \<Rightarrow> bool" where
  "admissible W [] A \<longleftrightarrow> True"
| "admissible W (c # cs) A \<longleftrightarrow>
     (case c of Insert x \<Rightarrow> x \<in> W \<and> x \<notin> A \<and> admissible W cs (insert x A)
        | Remove x \<Rightarrow> x \<in> A \<and> admissible W cs (A - {x}))"

locale chunk_set =
  fixes rep :: "'s \<Rightarrow> 'a set \<Rightarrow> bool"
    and ins :: "'a \<Rightarrow> 's \<Rightarrow> 's dl_result"
    and del :: "'a \<Rightarrow> 's \<Rightarrow> 's dl_result"
    and W :: "'a set"
  assumes ins_rep: "rep s A \<Longrightarrow> x \<in> W \<Longrightarrow> x \<notin> A \<Longrightarrow> \<exists>s'. ins x s = Ret s' \<and> rep s' (insert x A)"
    and del_rep: "rep s A \<Longrightarrow> x \<in> A \<Longrightarrow> \<exists>s'. del x s = Ret s' \<and> rep s' (A - {x})"
begin

lemma perform_rep:
  "rep s A \<Longrightarrow> admissible W cs A \<Longrightarrow> \<exists>s'. perform ins del cs s = Ret s' \<and> rep s' (set_after cs A)"
proof (induction cs arbitrary: s A)
  case (Cons c cs)
  show ?case
  proof (cases c)
    case (Insert x)
    then obtain s' where "ins x s = Ret s'" "rep s' (insert x A)" using ins_rep [OF Cons.prems(1), of x] Cons.prems(2) by auto
    with Insert Cons.IH [of s' "insert x A"] Cons.prems(2) show ?thesis by auto
  next
    case (Remove x)
    then obtain s' where "del x s = Ret s'" "rep s' (A - {x})" using del_rep [OF Cons.prems(1), of x] Cons.prems(2) by auto
    with Remove Cons.IH [of s' "A - {x}"] Cons.prems(2) show ?thesis by auto
  qed
qed simp

end

text \<open>
  The large bins as such a set: the state holds the chunks \<open>A\<close> among the blocks \<open>W\<close>, and has changed since
  the state \<open>s0\<close> at most in their links.
\<close>

definition large_since :: "malloc_state \<Rightarrow> addr set \<Rightarrow> malloc_state \<Rightarrow> addr set \<Rightarrow> bool" where
  "large_since s0 W s A \<longleftrightarrow>
     large_store s A \<and> A \<subseteq> W \<and> free_blocks s W \<and> large_frame s0 W s
       \<and> (\<forall>x\<in>W. MIN_LARGE_SIZE \<le> chunksize s x \<and> chunksize s x < 2 ^ 40)"

lemma large_since_step:
  assumes "large_since s0 W s A" "large_store s' B" "B \<subseteq> W" "N \<subseteq> W" "large_frame s N s'"
  shows "large_since s0 W s' B"
proof -
  have w: "free_blocks s W" "large_frame s0 W s" using assms(1) by (simp_all add: large_since_def)
  have f: "large_frame s W s'" by (rule large_frame_wide [OF assms(5,4) free_blocks_layout [OF w(1)]])
  have "chunksize s' x = chunksize s x" if "x \<in> W" for x using large_frame_keeps(3) [OF f that] .
  then show ?thesis
    using assms(1-3) free_blocks_frame [OF f w(1)] large_frame_trans [OF w(2) f] by (simp add: large_since_def)
qed

interpretation large_set: chunk_set "large_since s0 W" "\<lambda>p s. insert_large_chunk p (chunksize s p) s"
  unlink_large_chunk W
  for s0 W
proof
  fix s A x
  assume r: "large_since s0 W s A" and x: "x \<in> W" "x \<notin> A"
  then have *: "large_store s A" "free_blocks s W" "insert x A \<subseteq> W" "MIN_LARGE_SIZE \<le> chunksize s x"
    "chunksize s x < 2 ^ 40"
    by (auto simp: large_since_def)
  from insert_large_chunk_effect [OF *(1) x(2) free_blocks_mono [OF *(2,3)] *(4,5)] obtain s' where
    "insert_large_chunk x (chunksize s x) s = Ret s'" "large_store s' (insert x A)" "large_frame s (insert x A) s'"
    by blast
  with large_since_step [OF r _ *(3) *(3)]
  show "\<exists>s'. insert_large_chunk x (chunksize s x) s = Ret s' \<and> large_since s0 W s' (insert x A)" by blast
next
  fix s A x
  assume r: "large_since s0 W s A" and x: "x \<in> A"
  then have *: "large_store s A" "A \<subseteq> W" "A - {x} \<subseteq> W" by (auto simp: large_since_def)
  from unlink_large_chunk_effect [OF *(1) x] obtain s' where
    "unlink_large_chunk x s = Ret s'" "large_store s' (A - {x})" "large_frame s A s'"
    by blast
  with large_since_step [OF r _ *(3,2)]
  show "\<exists>s'. unlink_large_chunk x s = Ret s' \<and> large_since s0 W s' (A - {x})" by blast
qed

lemma empty_bins:
  assumes "treemap s = 0" "\<forall>i < NTREEBINS. treebin s i = 0" "free_blocks s W"
  shows "large_store s {}"
proof -
  have "large_all (\<lambda>_. Leaf) (\<lambda>_. []) = {}" by (simp add: large_all_def large_chunks_def)
  moreover have "tree_bins s (\<lambda>_. Leaf)"
    using assms(1,2) by (simp add: tree_bins_def tree_bin_def treemap_is_marked_def)
  moreover have "large_chunks (\<lambda>_. Leaf) = {}" by (simp add: large_chunks_def)
  ultimately have "large_bins s (\<lambda>_. Leaf) (\<lambda>_. [])"
    using free_blocks_layout [OF free_blocks_mono [OF assms(3), of "{}"]]
    by (simp add: large_bins_def)
  then show ?thesis
    using \<open>large_all (\<lambda>_. Leaf) (\<lambda>_. []) = {}\<close> free_blocks_mono [OF assms(3), of "{}"]
    unfolding large_store_def by blast
qed

section \<open>The searches find the best fit of the set\<close>

definition best_fit :: "malloc_state \<Rightarrow> addr set \<Rightarrow> size_t \<Rightarrow> addr \<Rightarrow> bool" where
  "best_fit s A nb v \<longleftrightarrow>
     v \<in> A \<and> nb \<le> chunksize s v \<and> (\<forall>x\<in>A. nb \<le> chunksize s x \<longrightarrow> chunksize s v \<le> chunksize s x)"

lemma no_marks: "(\<And>i. i < NTREEBINS \<Longrightarrow> \<not> treemap_is_marked s i) \<Longrightarrow> treemap s = 0"
proof (rule bit_word_eqI)
  fix n assume a: "\<And>i. i < NTREEBINS \<Longrightarrow> \<not> treemap_is_marked s i" and n: "n < LENGTH(32)"
  then have "(of_nat n :: bindex) < NTREEBINS" "unat (of_nat n :: bindex) = n"
    by (simp_all add: NTREEBINS_def word_less_nat_alt unat_of_nat take_bit_nat_eq_self)
  with a [of "of_nat n"] show "bit (treemap s) n \<longleftrightarrow> bit 0 n" by (simp add: treemap_is_marked_def marked_bit NTREEBINS_def)
qed

lemma stored_shape:
  assumes "large_store s A"
  obtains X where "tree_bins s X" "large_chunks X \<subseteq> A"
    "\<And>x. x \<in> A \<Longrightarrow> \<exists>t\<in>large_chunks X. chunksize s x = chunksize s t"
    "treemap s = 0 \<longleftrightarrow> A = {}"
proof -
  obtain X C where X: "large_bins s X C" "large_all X C = A" using assms by (auto simp: large_store_def)
  note D = large_binsD [OF X(1)]
  have sizes: "\<exists>t\<in>large_chunks X. chunksize s x = chunksize s t" if "x \<in> A" for x
  proof -
    obtain t where t: "t \<in> large_chunks X" "x \<in> insert t (set (C t))" using X(2) \<open>x \<in> A\<close> by (auto simp: large_all_def)
    show ?thesis using ring_sizes [OF D(5) [OF t(1)] t(2)] t(1) by blast
  qed
  have "treemap s \<noteq> 0" if "A \<noteq> {}"
  proof -
    obtain x where x: "x \<in> A" using \<open>A \<noteq> {}\<close> by blast
    then obtain t where "t \<in> large_chunks X" using sizes by blast
    then obtain i where i: "i < NTREEBINS" "t \<in> set_tree (X i)" using in_one_bin [OF X(1)] by blast
    then have "treemap_is_marked s i" using D(8) [OF i(1)] by auto
    then show ?thesis by (auto simp: treemap_is_marked_def)
  qed
  moreover have "treemap s = 0" if "A = {}"
  proof -
    have "X i = Leaf" if "i < NTREEBINS" for i
      using bin_in_chunks [OF that, of X] X(2) \<open>A = {}\<close> by (auto simp: large_all_def)
    then have "\<not> treemap_is_marked s i" if "i < NTREEBINS" for i using D(8) [OF that] that by simp
    then show ?thesis using no_marks by blast
  qed
  moreover have "large_chunks X \<subseteq> A" using X(2) by (auto simp: large_all_def)
  ultimately show thesis using that D(1) sizes by blast
qed

lemma best_is_best_fit:
  assumes "best s nb X v" "large_chunks X \<subseteq> A" "\<And>x. x \<in> A \<Longrightarrow> \<exists>t\<in>large_chunks X. chunksize s x = chunksize s t"
  shows "best_fit s A nb v"
  using assms unfolding best_def best_fit_def by (metis subsetD)

text \<open>
  From empty large bins, after any admissible history of insertions and removals, every call has returned
  and the state holds the set the history leaves.
\<close>

lemma large_history:
  assumes "treemap s = 0" "\<forall>i < NTREEBINS. treebin s i = 0" "free_blocks s W"
    "\<forall>x\<in>W. MIN_LARGE_SIZE \<le> chunksize s x \<and> chunksize s x < 2 ^ 40" "admissible W cs {}"
  shows "\<exists>s'. perform (\<lambda>p s. insert_large_chunk p (chunksize s p) s) unlink_large_chunk cs s = Ret s'
    \<and> large_since s W s' (set_after cs {})"
  using large_set.perform_rep [of s W s "{}" cs] assms empty_bins [OF assms(1-3)]
  by (simp add: large_since_def large_frame_refl)

lemma tmalloc_large_fit:
  assumes "large_store s A" "MIN_LARGE_SIZE \<le> nb" "nb < 2 ^ 40"
  shows "(\<exists>v. best_fit s A nb v \<and> tmalloc_large nb s =
        (if chunksize s v - nb < dvsize s - nb then take_large nb v (chunksize s v - nb) insert_chunk s
         else Ret (0, s)))
    \<or> (\<forall>x\<in>A. chunksize s x < nb) \<and> tmalloc_large nb s = Ret (0, s)"
proof -
  obtain X where X: "tree_bins s X" "large_chunks X \<subseteq> A"
    "\<And>x. x \<in> A \<Longrightarrow> \<exists>t\<in>large_chunks X. chunksize s x = chunksize s t"
    by (rule stored_shape [OF assms(1)]) blast
  from tmalloc_large_best_fit [OF X(1) assms(2,3)] show ?thesis
  proof (elim disjE exE conjE)
    fix v assume "best s nb X v"
    then have "best_fit s A nb v" by (rule best_is_best_fit [OF _ X(2,3)])
    then show ?thesis
      if "tmalloc_large nb s = (if chunksize s v - nb < dvsize s - nb
        then take_large nb v (chunksize s v - nb) insert_chunk s else Ret (0, s))"
      using that by blast
  next
    assume "\<forall>x\<in>large_chunks X. chunksize s x < nb"
    then have "\<forall>x\<in>A. chunksize s x < nb" using X(3) by fastforce
    then show ?thesis if "tmalloc_large nb s = Ret (0, s)" using that by blast
  qed
qed

lemma tmalloc_small_fit:
  assumes "large_store s A" "A \<noteq> {}" "0 < nb" "nb \<le> MIN_LARGE_SIZE"
  shows "\<exists>v. best_fit s A nb v \<and> (\<forall>x\<in>A. chunksize s v \<le> chunksize s x)
    \<and> tmalloc_small nb s = take_large nb v (chunksize s v - nb) replace_dv s"
proof -
  obtain X where X: "tree_bins s X" "large_chunks X \<subseteq> A"
    "\<And>x. x \<in> A \<Longrightarrow> \<exists>t\<in>large_chunks X. chunksize s x = chunksize s t" "treemap s = 0 \<longleftrightarrow> A = {}"
    by (rule stored_shape [OF assms(1)]) blast
  obtain v where v: "best s nb X v" "\<forall>x\<in>large_chunks X. chunksize s v \<le> chunksize s x"
    "tmalloc_small nb s = take_large nb v (chunksize s v - nb) replace_dv s"
    using tmalloc_small_best_fit [OF X(1) _ assms(3,4)] X(4) assms(2) by blast
  have "best_fit s A nb v" by (rule best_is_best_fit [OF v(1) X(2,3)])
  moreover have "\<forall>x\<in>A. chunksize s v \<le> chunksize s x" using v(2) X(3) by metis
  ultimately show ?thesis using v(3) by blast
qed

section \<open>Properties\<close>

text \<open>
  C31: The large bins find the best fit after any history. From empty bins and any blocks of memory that do
  not overlap, every sequence of \<open>insert_large_chunk\<close> and \<open>unlink_large_chunk\<close> returns with no check
  failing; \<open>tmalloc_large\<close> then takes the smallest chunk of what the history leaves that is large enough,
  unless the designated victim fits better or no chunk is large enough, and \<open>tmalloc_small\<close> takes a
  smallest chunk.
\<close>

theorem best_fit_after_any_history:
  assumes "treemap s = 0" "\<forall>i < NTREEBINS. treebin s i = 0" "free_blocks s W"
    "\<forall>x\<in>W. MIN_LARGE_SIZE \<le> chunksize s x \<and> chunksize s x < 2 ^ 40" "admissible W cs {}"
    and "MIN_LARGE_SIZE \<le> nb" "nb < 2 ^ 40" "0 < mb" "mb \<le> MIN_LARGE_SIZE"
  shows "\<exists>s' A. perform (\<lambda>p s. insert_large_chunk p (chunksize s p) s) unlink_large_chunk cs s = Ret s'
    \<and> A = set_after cs {} \<and> large_store s' A
    \<and> ((\<exists>v. best_fit s A nb v \<and> tmalloc_large nb s' =
          (if chunksize s v - nb < dvsize s - nb then take_large nb v (chunksize s v - nb) insert_chunk s'
           else Ret (0, s')))
       \<or> (\<forall>x\<in>A. chunksize s x < nb) \<and> tmalloc_large nb s' = Ret (0, s'))
    \<and> (A \<noteq> {} \<longrightarrow> (\<exists>v. best_fit s A mb v \<and> (\<forall>x\<in>A. chunksize s v \<le> chunksize s x)
          \<and> tmalloc_small mb s' = take_large mb v (chunksize s v - mb) replace_dv s'))"
proof -
  define A where "A = set_after cs {}"
  obtain s' where s': "perform (\<lambda>p s. insert_large_chunk p (chunksize s p) s) unlink_large_chunk cs s = Ret s'"
    "large_store s' A" "A \<subseteq> W" "large_frame s W s'"
    using large_history [OF assms(1-5)] unfolding A_def large_since_def by blast
  have size: "\<And>x. x \<in> A \<Longrightarrow> chunksize s' x = chunksize s x" and dv: "dvsize s' = dvsize s"
    using large_frame_keeps(3) [OF s'(4)] large_frame_dvsize [OF s'(4)] s'(3) by auto
  then have fit: "best_fit s' A n v \<longleftrightarrow> best_fit s A n v" for n v by (auto simp: best_fit_def)
  have sz: "chunksize s' v = chunksize s v" if "best_fit s A n v" for n v using size that by (simp add: best_fit_def)
  note large = tmalloc_large_fit [OF s'(2) assms(6,7), unfolded fit dv]
  note small = tmalloc_small_fit [OF s'(2) _ assms(8,9), unfolded fit]
  show ?thesis
    using s'(1,2) large small by (auto simp: A_def [symmetric] size sz [of nb] sz [of mb] cong: conj_cong)
qed

definition example_blocks :: malloc_state where
  "example_blocks =
     set_head 0x2000 0x201 (set_head 0x3000 0x2C1 (set_head 0x4000 0x241 (set_head 0x5000 0x201 (zero_state 0x1000))))"

lemma example_blocks_sizes:
  "chunksize example_blocks 0x2000 = 0x200" "chunksize example_blocks 0x3000 = 0x2C0"
  "chunksize example_blocks 0x4000 = 0x240" "chunksize example_blocks 0x5000 = 0x200"
  "mst example_blocks = 0x1000" "treemap example_blocks = 0" "dvsize example_blocks = 0"
  by code_simp+

lemma example_blocks_empty: "\<forall>i < NTREEBINS. treebin example_blocks i = 0"
proof -
  have "let s = example_blocks in list_all (\<lambda>n. treebin s (of_nat n) = 0) [0..<32]" by code_simp
  then have "treebin example_blocks (of_nat n) = 0" if "n < 32" for n
    using that by (simp only: Let_def list_all_iff set_upt) auto
  then show ?thesis using index_below_32 by blast
qed

lemma example_blocks_apart: "free_blocks example_blocks {0x2000, 0x3000, 0x4000, 0x5000}"
proof -
  have "list_all (ok_address example_blocks) [0x2000, 0x3000, 0x4000, 0x5000]" by code_simp
  then show ?thesis
    by (simp add: free_blocks_def block_def state_area_def example_blocks_sizes dl_consts)
qed

theorem best_fit_after_any_history_witness:
  "\<exists>s. perform (\<lambda>p s. insert_large_chunk p (chunksize s p) s) unlink_large_chunk
         [Insert 0x2000, Insert 0x3000, Insert 0x4000, Insert 0x5000, Remove 0x2000] example_blocks = Ret s
     \<and> tmalloc_large 0x210 s = take_large 0x210 0x4000 0x30 insert_chunk s
     \<and> tmalloc_small 0x40 s = take_large 0x40 0x5000 0x1C0 replace_dv s"
proof -
  let ?cs = "[Insert 0x2000, Insert 0x3000, Insert 0x4000, Insert 0x5000, Remove 0x2000] :: addr change list"
  have after: "set_after ?cs {} = {0x3000, 0x4000, 0x5000}" by auto
  have "admissible {0x2000, 0x3000, 0x4000, 0x5000} ?cs {}" by simp
  from best_fit_after_any_history [OF _ example_blocks_empty example_blocks_apart _ this, of "0x210" "0x40"]
  show ?thesis unfolding after
    by (auto simp: example_blocks_sizes dl_consts best_fit_def simp del: perform.simps)
qed

end
