(* ===== verification/Dl_Free_Bins.thy ===== *)
theory Dl_Free_Bins
  imports Dl_Store
begin

unbundle bit_operations_syntax

text \<open>
  All bins together as one set of free chunks: \<open>insert_chunk\<close> and \<open>unlink_chunk\<close> act on the small bins or on
  the tree bins, and leave the other kind as it is, because the chunks lie apart from each other and behind
  the state of the allocator.
\<close>

section \<open>Where the bins are in memory\<close>

text \<open>The words of a chunk between its head and its end, and those of the bin headers\<close>

definition inner :: "malloc_state \<Rightarrow> addr \<Rightarrow> addr set" where
  "inner s x = {a. unat x + 16 \<le> unat a \<and> unat a < unat x + unat (chunksize s x)}"

definition bin_area :: "malloc_state \<Rightarrow> addr set" where
  "bin_area s = {a. unat (mst s) + 72 \<le> unat a \<and> unat a < unat (mst s) + 856}"

definition bin_words :: "malloc_state \<Rightarrow> addr set \<Rightarrow> addr set" where
  "bin_words s A = bin_area s \<union> (\<Union>x\<in>A. inner s x)"

definition chunk_placed :: "malloc_state \<Rightarrow> addr \<Rightarrow> bool" where
  "chunk_placed s x \<longleftrightarrow>
     unat (mst s) + 928 \<le> unat x \<and> is_aligned x \<and> is_aligned (chunksize s x) \<and> 32 \<le> unat (chunksize s x)
       \<and> chunksize s x < 2 ^ 40 \<and> unat x + unat (chunksize s x) \<le> 2 ^ 64 \<and> ok_address s x"

definition placed :: "malloc_state \<Rightarrow> addr set \<Rightarrow> bool" where
  "placed s A \<longleftrightarrow>
     is_aligned (mst s) \<and> mst s \<noteq> 0 \<and> unat (mst s) + 936 \<le> 2 ^ 64
       \<and> (\<forall>x\<in>A. chunk_placed s x \<and> (\<forall>y\<in>A. x \<noteq> y \<longrightarrow> block s x \<inter> block s y = {}))"

lemma placedD:
  assumes "placed s A"
  shows "is_aligned (mst s)" "mst s \<noteq> 0" "unat (mst s) + 936 \<le> 2 ^ 64" "\<And>x. x \<in> A \<Longrightarrow> chunk_placed s x"
    "\<And>x y. x \<in> A \<Longrightarrow> y \<in> A \<Longrightarrow> x \<noteq> y \<Longrightarrow> block s x \<inter> block s y = {}"
  using assms unfolding placed_def by blast+

lemma placed_mono: "placed s A \<Longrightarrow> B \<subseteq> A \<Longrightarrow> placed s B"
  unfolding placed_def by blast

lemma unat_field: "unat x + unat i < 2 ^ 64 \<Longrightarrow> unat (x + i) = unat x + unat i" for x i :: addr
  by (simp add: unat_add_lem [THEN iffD1])

lemma placed_offset:
  "chunk_placed s x \<Longrightarrow> unat i < unat (chunksize s x) \<Longrightarrow> unat (x + i) = unat x + unat i"
  by (rule unat_field) (simp add: chunk_placed_def)

lemma inner_field:
  "chunk_placed s x \<Longrightarrow> 16 \<le> unat i \<Longrightarrow> unat i < unat (chunksize s x) \<Longrightarrow> x + i \<in> inner s x"
  by (simp add: inner_def placed_offset)

text \<open>The head of a chunk is no word of the bins.\<close>

lemma two_blocks:
  assumes "placed s A" "x \<in> A" "y \<in> A" "x \<noteq> y"
  shows "unat x + unat (chunksize s x) \<le> unat y \<or> unat y + unat (chunksize s y) \<le> unat x"
proof -
  have d: "block s x \<inter> block s y = {}" using placedD(5) [OF assms] .
  have "32 \<le> unat (chunksize s x)" "32 \<le> unat (chunksize s y)"
    using placedD(4) [OF assms(1)] assms(2,3) by (simp_all add: chunk_placed_def)
  then have "unat x \<in> block s x" "unat y \<in> block s y" by (simp_all add: block_def)
  then have "unat x \<notin> block s y" "unat y \<notin> block s x" using d by blast+
  then show ?thesis by (auto simp: block_def)
qed

lemma heads_outside:
  assumes "placed s A" "x \<in> A"
  shows "x + 8 \<notin> bin_words s A"
proof -
  have x: "chunk_placed s x" by (rule placedD(4) [OF assms])
  then have u: "unat (x + 8) = unat x + 8" using placed_offset [of s x 8] by (simp add: chunk_placed_def)
  have "x + 8 \<notin> inner s y" if y: "y \<in> A" for y
  proof (cases "x = y")
    case False
    have "unat y + unat (chunksize s y) \<le> unat x \<or> unat x + 32 \<le> unat y"
      using two_blocks [OF assms(1,2) y False] x by (auto simp: chunk_placed_def)
    then show ?thesis by (auto simp: inner_def u)
  next
    case True
    then show ?thesis using u by (simp add: inner_def)
  qed
  moreover have "x + 8 \<notin> bin_area s" using x by (simp add: bin_area_def u chunk_placed_def)
  ultimately show ?thesis by (simp add: bin_words_def)
qed

section \<open>What an operation on the bins may change\<close>

definition bins_step :: "malloc_state \<Rightarrow> addr set \<Rightarrow> malloc_state \<Rightarrow> bool" where
  "bins_step s A s' \<longleftrightarrow>
     s' = s\<lparr>malloc_state.heap := malloc_state.heap s', smallmap := smallmap s', treemap := treemap s'\<rparr>
       \<and> (\<forall>a. a \<notin> bin_words s A \<longrightarrow> malloc_state.heap s' a = malloc_state.heap s a)"

lemma bins_step_keeps:
  assumes "bins_step s A s'"
  shows "mst s' = mst s" "least_addr s' = least_addr s" "dv s' = dv s" "dvsize s' = dvsize s" "mtop s' = mtop s"
    "topsize s' = topsize s" "mparams s' = mparams s" "trim_check s' = trim_check s" "mflags s' = mflags s"
    "footprint s' = footprint s" "footprint_limit s' = footprint_limit s" "release_checks s' = release_checks s"
    "a \<notin> bin_words s A \<Longrightarrow> malloc_state.heap s' a = malloc_state.heap s a"
proof -
  have r: "s' = s\<lparr>malloc_state.heap := malloc_state.heap s', smallmap := smallmap s', treemap := treemap s'\<rparr>"
    using assms unfolding bins_step_def by (elim conjE)
  show "mst s' = mst s" "least_addr s' = least_addr s" "dv s' = dv s" "dvsize s' = dvsize s" "mtop s' = mtop s"
    "topsize s' = topsize s" "mparams s' = mparams s" "trim_check s' = trim_check s" "mflags s' = mflags s"
    "footprint s' = footprint s" "footprint_limit s' = footprint_limit s" "release_checks s' = release_checks s"
    by (subst r, simp)+
  show "a \<notin> bin_words s A \<Longrightarrow> malloc_state.heap s' a = malloc_state.heap s a"
    using assms unfolding bins_step_def by blast
qed

lemma bins_step_heads:
  assumes "bins_step s A s'" "placed s A" "x \<in> A"
  shows "head s' x = head s x" "chunksize s' x = chunksize s x"
  using bins_step_keeps(13) [OF assms(1) heads_outside [OF assms(2,3)]] by (simp_all add: head_def chunksize_def)

lemma chunk_placed_cong:
  "mst s' = mst s \<Longrightarrow> least_addr s' = least_addr s \<Longrightarrow> chunksize s' x = chunksize s x \<Longrightarrow> chunk_placed s' x = chunk_placed s x"
  by (simp add: chunk_placed_def ok_address_def)

lemma placed_cong:
  assumes "mst s' = mst s" "least_addr s' = least_addr s" "\<And>x. x \<in> A \<Longrightarrow> chunksize s' x = chunksize s x"
  shows "placed s' A = placed s A"
proof -
  have "chunk_placed s' x = chunk_placed s x" "block s' x = block s x" if "x \<in> A" for x
    using chunk_placed_cong [OF assms(1,2) assms(3) [OF that]] assms(3) [OF that] by (simp_all add: block_def)
  then show ?thesis by (auto simp: placed_def assms(1))
qed

lemma bins_step_placed: "bins_step s A s' \<Longrightarrow> placed s A \<Longrightarrow> placed s' A"
  using placed_cong [OF bins_step_keeps(1,2)] bins_step_heads(2) by blast

lemma state_change:
  "s' = s\<lparr>malloc_state.heap := h, smallmap := m\<rparr>
     \<Longrightarrow> s' = s\<lparr>malloc_state.heap := malloc_state.heap s', smallmap := smallmap s', treemap := treemap s'\<rparr>"
  "s' = s\<lparr>malloc_state.heap := h, treemap := m\<rparr>
     \<Longrightarrow> s' = s\<lparr>malloc_state.heap := malloc_state.heap s', smallmap := smallmap s', treemap := treemap s'\<rparr>"
  by (cases s; simp)+

lemma bins_step_mono: "bins_step s A s' \<Longrightarrow> A \<subseteq> B \<Longrightarrow> bins_step s B s'"
  by (auto simp: bins_step_def bin_words_def)

section \<open>Both kinds of bins\<close>

definition small_all :: "(bindex \<Rightarrow> addr list) \<Rightarrow> addr set" where
  "small_all X = (\<Union>i\<in>{i. i < NSMALLBINS}. set (X i))"

definition sorted_small :: "malloc_state \<Rightarrow> (bindex \<Rightarrow> addr list) \<Rightarrow> bool" where
  "sorted_small s X \<longleftrightarrow>
     (\<forall>i < NSMALLBINS. \<forall>x\<in>set (X i). is_small (chunksize s x) \<and> small_index (chunksize s x) = i)"

definition bins :: "malloc_state \<Rightarrow> addr set \<Rightarrow> bool" where
  "bins s A \<longleftrightarrow>
     placed s A \<and> (\<exists>X B. small_bins s X \<and> sorted_small s X \<and> large_store s B \<and> A = small_all X \<union> B)"

lemma small_iff: "is_small n \<longleftrightarrow> \<not> MIN_LARGE_SIZE \<le> n"
proof -
  have "unat n < 2 ^ 64" using unsigned_less [of n] by simp
  then have "unat (drop_bit 3 n) = unat n div 8"
    by (simp only: unsigned_drop_bit_eq) (simp add: drop_bit_eq_div take_bit_nat_eq_self)
  then show ?thesis by (simp add: is_small_def SMALLBIN_SHIFT_def NSMALLBINS_def dl_consts word_less_nat_alt word_le_nat_alt) linarith
qed

lemma placed_free_blocks:
  assumes "placed s A" "\<And>x. x \<in> A \<Longrightarrow> MIN_LARGE_SIZE \<le> chunksize s x"
  shows "free_blocks s A"
  unfolding free_blocks_def
proof (intro conjI ballI impI)
  note P = placedD [OF assms(1)]
  show "mst s \<noteq> 0" "unat (mst s) + unat sizeof_malloc_state \<le> 2 ^ 64" using P(2,3) by (simp_all add: dl_consts)
  fix x assume x: "x \<in> A"
  have c: "chunk_placed s x" by (rule P(4) [OF x])
  then show "x \<noteq> 0" "ok_address s x" "unat x + unat (chunksize s x) \<le> 2 ^ 64" by (auto simp: chunk_placed_def)
  show "64 \<le> unat (chunksize s x)" using assms(2) [OF x] by (simp add: dl_consts word_le_nat_alt)
  show "block s x \<inter> state_area s = {}" using c by (auto simp: block_def state_area_def chunk_placed_def dl_consts)
  show "block s x \<inter> block s y = {}" if "y \<in> A" "x \<noteq> y" for y by (rule P(5) [OF x that])
qed

lemma bins_small_large:
  assumes "sorted_small s X" "large_store s B"
  shows "small_all X \<inter> B = {}"
  using assms(1) large_store_sizes(1) [OF assms(2)] by (auto simp: small_all_def sorted_small_def small_iff)

lemma small_nodes:
  assumes "placed s A" "small_all X \<subseteq> A"
  shows "links_apart (bin_nodes s X)" "small_all X \<inter> smallbin_at s ` {i. i < NSMALLBINS} = {}"
    "bin_nodes s X = smallbin_at s ` {i. i < NSMALLBINS} \<union> small_all X"
proof -
  note P = placedD [OF assms(1)]
  have p: "is_aligned p \<and> unat (mst s) + 928 \<le> unat p" if "p \<in> small_all X" for p
    using P(4) [of p] that assms(2) by (auto simp: chunk_placed_def)
  show e: "bin_nodes s X = smallbin_at s ` {i. i < NSMALLBINS} \<union> small_all X"
    by (auto simp: bin_nodes_def small_all_def)
  show "links_apart (bin_nodes s X)" unfolding e by (rule nodes_apart(1) [OF P(1,3) p])
  show "small_all X \<inter> smallbin_at s ` {i. i < NSMALLBINS} = {}"
    using nodes_apart(2) [OF P(1,3), of "small_all X"] p by blast
qed

section \<open>What the bins depend on\<close>

lemma large_bins_cong:
  assumes "large_bins s X C" "mst s' = mst s" "least_addr s' = least_addr s" "treemap s' = treemap s"
    and bin: "\<And>i. i < NTREEBINS \<Longrightarrow> treebin s' i = treebin s i"
    and word: "\<And>x i. x \<in> large_all X C \<Longrightarrow> i \<in> node_offsets \<Longrightarrow> malloc_state.heap s' (x + i) = malloc_state.heap s (x + i)"
  shows "large_bins s' X C"
proof -
  note D = large_binsD [OF assms(1)]
  have f: "head s' x = head s x \<and> fd s' x = fd s x \<and> bk s' x = bk s x \<and> child s' x 0 = child s x 0
      \<and> child s' x 1 = child s x 1 \<and> parent s' x = parent s x \<and> index s' x = index s x"
    if "x \<in> large_all X C" for x
    using word [OF that] by (simp add: head_def fd_def bk_def child_def parent_def index_def rd32_def child_offsets offsets)
  have sz: "chunksize s' x = chunksize s x" if "x \<in> large_all X C" for x
    using f [OF that] by (simp add: chunksize_def)
  have chunk: "x \<in> large_all X C" if "x \<in> large_chunks X" for x using chunks_in_all [OF that, of C] by simp
  have tree: "x \<in> large_all X C" if "x \<in> set_tree (X i)" "i < NTREEBINS" for x i
    using bin_in_chunks [OF that(2)] that(1) chunk by blast
  have t: "treebin_at s' = treebin_at s" by (rule treebin_at_mst [OF assms(2)])
  have "tree_bin s' i (X i)" if i: "i < NTREEBINS" for i
    using D(7) [OF i] tree_at_cong [of "X i" s' s "treebin s i"] trie_ok_cong [of "X i" "chunksize s'" "chunksize s" "bin_bits i"]
      f [OF tree [OF _ i]] sz [OF tree [OF _ i]] bin [OF i]
    by (simp add: tree_bin_def)
  moreover have "parents_at s' (treebin_at s' i) (X i)" if i: "i < NTREEBINS" for i
    using D(3) [OF i] parents_at_cong [of "X i" s' s "treebin_at s i"] f [OF tree [OF _ i]] by (simp add: t)
  moreover have "ring s' x (C x)" if x: "x \<in> large_chunks X" for x
    by (rule ring_cong [OF D(5) [OF x]]) (use f chunks_in_all [OF x, of C] in auto)
  moreover have "inj_on (chunksize s') (large_chunks X)"
    using D(4) sz chunk by (auto simp: inj_on_def)
  moreover have "layout s' (large_all X C)" using D(2) layout_cong [OF assms(2,3)] by simp
  moreover have "index s' x = compute_tree_index (chunksize s' x)" if "x \<in> large_all X C" for x
    using D(6) [OF that] f [OF that] sz [OF that] by simp
  ultimately show ?thesis
    using D(8) assms(4) unfolding large_bins_def tree_bins_def by (simp add: treemap_is_marked_def)
qed

lemma large_store_cong:
  assumes "large_store s B" "mst s' = mst s" "least_addr s' = least_addr s" "treemap s' = treemap s"
    and "\<And>i. i < NTREEBINS \<Longrightarrow> treebin s' i = treebin s i"
    and word: "\<And>x i. x \<in> B \<Longrightarrow> i \<in> node_offsets \<Longrightarrow> malloc_state.heap s' (x + i) = malloc_state.heap s (x + i)"
  shows "large_store s' B"
proof -
  obtain X C where X: "large_bins s X C" "large_all X C = B" and b: "free_blocks s B"
    using assms(1) by (auto simp: large_store_def)
  have sz: "chunksize s' x = chunksize s x" if "x \<in> B" for x
    using word [OF that, of 8] by (simp add: chunksize_def head_def offsets)
  then have "block s' x = block s x" if "x \<in> B" for x using that by (simp add: block_def)
  moreover have "state_area s' = state_area s" by (simp add: state_area_def assms(2))
  ultimately have "free_blocks s' B" using b sz assms(2,3) by (auto simp: free_blocks_def ok_address_def)
  then show ?thesis using large_bins_cong [OF X(1) assms(2-5)] word X(2) unfolding large_store_def by blast
qed

lemma small_bins_cong:
  assumes "small_bins s X" "mst s' = mst s" "least_addr s' = least_addr s" "smallmap s' = smallmap s"
    and "\<And>x. x \<in> bin_nodes s X \<Longrightarrow> fd s' x = fd s x \<and> bk s' x = bk s x"
  shows "small_bins s' X"
proof -
  have at: "smallbin_at s' = smallbin_at s" by (simp add: smallbin_at_def assms(2) fun_eq_iff)
  have nodes: "links_apart (bin_nodes s X)" using assms(1) by (simp add: small_bins_def)
  have "small_bin s' j (X j)" if "j < NSMALLBINS" for j
    by (rule small_bin_other [OF assms(1) that nodes subset_refl at])
      (use assms(3-5) in \<open>auto simp: smallmap_is_marked_def ok_address_def fun_eq_iff\<close>)
  moreover have "bin_nodes s' X = bin_nodes s X" by (simp add: bin_nodes_def at)
  ultimately show ?thesis using assms(1) unfolding small_bins_def at by simp
qed

lemma header_words:
  assumes "unat (mst s) + 936 \<le> 2 ^ 64" "i < NSMALLBINS"
  shows "unat (smallbin_at s i + 16) = unat (mst s) + 88 + 16 * unat i"
    "unat (smallbin_at s i + 24) = unat (mst s) + 96 + 16 * unat i" "unat i < 32"
proof -
  show i: "unat i < 32" using assms(2) by (simp add: NSMALLBINS_def word_less_nat_alt)
  note h = header_nat [OF assms(2,1)]
  show "unat (smallbin_at s i + 16) = unat (mst s) + 88 + 16 * unat i"
    using unat_field [of "smallbin_at s i" 16] h i assms(1) by simp
  show "unat (smallbin_at s i + 24) = unat (mst s) + 96 + 16 * unat i"
    using unat_field [of "smallbin_at s i" 24] h i assms(1) by simp
qed

lemma treebin_word:
  assumes "unat (mst s) + 936 \<le> 2 ^ 64" "i < NTREEBINS"
  shows "unat (mst s) + 600 \<le> unat (treebin_at s i)" "unat (treebin_at s i) < unat (mst s) + 856"
    "treebin_at s i \<in> bin_area s"
proof -
  have "unat i < 32" using assms(2) by (simp add: NTREEBINS_def word_less_nat_alt)
  moreover have "unat (treebin_at s i) = unat (mst s) + 600 + 8 * unat i"
    using treebin_in_area(1) [OF _ assms(2), of s] assms(1) by (simp add: dl_consts)
  ultimately show "unat (mst s) + 600 \<le> unat (treebin_at s i)" "unat (treebin_at s i) < unat (mst s) + 856"
    "treebin_at s i \<in> bin_area s"
    by (simp_all add: bin_area_def)
qed

text \<open>The links of small nodes, and the fields of tree nodes, are words of the bins.\<close>

definition head_area :: "malloc_state \<Rightarrow> addr set" where
  "head_area s = {a. unat (mst s) + 88 \<le> unat a \<and> unat a < unat (mst s) + 600}"

lemma small_link_words:
  assumes "placed s A" "small_all X \<subseteq> A" "P \<in> A" "x \<in> insert P (bin_nodes s X)"
  shows "x + 16 \<in> head_area s \<union> (\<Union>y\<in>insert P (small_all X). inner s y)"
    "x + 24 \<in> head_area s \<union> (\<Union>y\<in>insert P (small_all X). inner s y)"
proof -
  note P = placedD [OF assms(1)]
  have "x + 16 \<in> head_area s \<union> (\<Union>y\<in>insert P (small_all X). inner s y)
      \<and> x + 24 \<in> head_area s \<union> (\<Union>y\<in>insert P (small_all X). inner s y)"
  proof (cases "x \<in> insert P (small_all X)")
    case True
    then have "chunk_placed s x" using P(4) assms(2,3) by blast
    then have "x + 16 \<in> inner s x" "x + 24 \<in> inner s x"
      using inner_field [of s x 16] inner_field [of s x 24] by (simp_all add: chunk_placed_def)
    then show ?thesis using True by blast
  next
    case False
    then obtain i where "i < NSMALLBINS" "x = smallbin_at s i"
      using assms(4) small_nodes(3) [OF assms(1,2)] by auto
    then show ?thesis using header_words [OF P(3), of i] by (simp add: head_area_def)
  qed
  then show "x + 16 \<in> head_area s \<union> (\<Union>y\<in>insert P (small_all X). inner s y)"
    "x + 24 \<in> head_area s \<union> (\<Union>y\<in>insert P (small_all X). inner s y)" by blast+
qed

lemma inner_disjoint:
  assumes "placed s A" "x \<in> A" "y \<in> A" "x \<noteq> y" "a \<in> inner s x"
  shows "a \<notin> inner s y"
  using two_blocks [OF assms(1-4)] assms(5) by (auto simp: inner_def)

lemma inner_above:
  assumes "placed s A" "x \<in> A" "a \<in> inner s x"
  shows "unat (mst s) + 928 \<le> unat a"
  using placedD(4) [OF assms(1,2)] assms(3) by (simp add: inner_def chunk_placed_def)

lemma head_area_bin_area: "head_area s \<subseteq> bin_area s"
  by (auto simp: head_area_def bin_area_def)

lemma large_field_words:
  assumes "placed s A" "x \<in> A" "MIN_LARGE_SIZE \<le> chunksize s x" "i \<in> node_offsets"
  shows "i = 8 \<or> x + i \<in> inner s x" "unat (mst s) + 928 \<le> unat (x + i)" "unat (x + i) = unat x + unat i"
    "unat i < 64"
proof -
  have c: "chunk_placed s x" "256 \<le> unat (chunksize s x)"
    using placedD(4) [OF assms(1,2)] assms(3) by (simp_all add: dl_consts word_le_nat_alt)
  have i: "i = 8 \<or> 16 \<le> unat i" "unat i < 64" using assms(4) by (auto simp: node_offsets_def)
  have "unat i < unat (chunksize s x)" using i(2) c(2) by linarith
  then show "i = 8 \<or> x + i \<in> inner s x" "unat (x + i) = unat x + unat i" "unat i < 64"
    using inner_field [OF c(1)] placed_offset [OF c(1)] i by auto
  then show "unat (mst s) + 928 \<le> unat (x + i)" using c(1) by (simp add: chunk_placed_def)
qed

lemma bins_cong:
  assumes "bins s A" "mst s' = mst s" "least_addr s' = least_addr s" "smallmap s' = smallmap s"
    "treemap s' = treemap s" and heads: "\<And>x. x \<in> A \<Longrightarrow> head s' x = head s x"
    and words: "\<And>a. a \<in> bin_words s A \<Longrightarrow> malloc_state.heap s' a = malloc_state.heap s a"
  shows "bins s' A"
proof -
  obtain X B where p: "placed s A" and X: "small_bins s X" "sorted_small s X" "large_store s B" "A = small_all X \<union> B"
    using assms(1) by (auto simp: bins_def)
  note P = placedD [OF p]
  have sub: "small_all X \<subseteq> A" "B \<subseteq> A" using X(4) by auto
  have sz: "chunksize s' x = chunksize s x" if "x \<in> A" for x using heads [OF that] by (simp add: chunksize_def)
  have "small_bins s' X"
  proof (rule small_bins_cong [OF X(1) assms(2-4)])
    fix x assume x: "x \<in> bin_nodes s X"
    have "a \<in> bin_words s A" if "a = x + 16 \<or> a = x + 24" for a
    proof (cases "x \<in> small_all X")
      case True
      then have "chunk_placed s x" using P(4) sub by blast
      then have "a \<in> inner s x" using inner_field [of s x 16] inner_field [of s x 24] that by (auto simp: chunk_placed_def)
      then show ?thesis using True sub by (auto simp: bin_words_def)
    next
      case False
      then obtain i where "i < NSMALLBINS" "x = smallbin_at s i"
        using x small_nodes(3) [OF p sub(1)] by auto
      then show ?thesis using header_words [OF P(3), of i] that by (auto simp: bin_words_def bin_area_def)
    qed
    then show "fd s' x = fd s x \<and> bk s' x = bk s x" using words by (simp add: fd_def bk_def)
  qed
  moreover have "sorted_small s' X"
    using X(2) sz sub(1) unfolding sorted_small_def small_all_def by fastforce
  moreover have "large_store s' B"
  proof (rule large_store_cong [OF X(3) assms(2,3,5)])
    show "treebin s' i = treebin s i" if "i < NTREEBINS" for i
      using treebin_word(3) [OF P(3) that] words treebin_at_mst [OF assms(2)] by (simp add: treebin_def bin_words_def)
    show "malloc_state.heap s' (x + i) = malloc_state.heap s (x + i)" if "x \<in> B" "i \<in> node_offsets" for x i
      using large_field_words(1) [OF p _ large_store_sizes(1) [OF X(3) that(1)] that(2)] sub(2) that(1)
        heads [of x] words [of "x + i"]
      by (auto simp: head_def bin_words_def)
  qed
  moreover have "placed s' A" using p placed_cong [OF assms(2,3) sz] by blast
  ultimately show ?thesis using X(4) unfolding bins_def by blast
qed

section \<open>Frames of the small bins\<close>

definition small_step :: "malloc_state \<Rightarrow> addr set \<Rightarrow> malloc_state \<Rightarrow> bool" where
  "small_step s N s' \<longleftrightarrow>
     s' = s\<lparr>malloc_state.heap := malloc_state.heap s', smallmap := smallmap s'\<rparr>
       \<and> (\<forall>a. a \<notin> (\<lambda>x. x + 16) ` N \<union> (\<lambda>x. x + 24) ` N \<longrightarrow> malloc_state.heap s' a = malloc_state.heap s a)"

lemma small_step_links:
  assumes "B \<in> N" "F \<in> N" "P \<in> N"
  shows "small_step s N (link_small B F P s)" "small_step s N (link_small B F P (mark_smallmap i s))"
    "small_step s N (clear_smallmap i s)" "small_step s N (set_fd B F (set_bk F B s))"
  using assms by (auto simp: small_step_def link_small_def mark_smallmap_def clear_smallmap_def set_fd_def set_bk_def wr_def)

lemma in_bin_nodes: "i < NSMALLBINS \<Longrightarrow> smallbin_at s i \<in> bin_nodes s X \<and> set (X i) \<subseteq> bin_nodes s X"
  by (auto simp: bin_nodes_def)

lemma insert_small_frame:
  assumes "small_bins s X" "is_small S" "insert_small_chunk P S s = Ret s'"
  shows "small_step s (insert P (bin_nodes s X)) s'"
proof -
  define i where "i = small_index S"
  have i: "i < NSMALLBINS" using small_index_less [OF assms(2)] by (simp add: i_def)
  note n = in_bin_nodes [OF i, of s X]
  show ?thesis
  proof (cases "X i")
    case Nil
    then have "\<not> smallmap_is_marked s i" using assms(1) i by (auto simp: small_bins_def small_bin_def Let_def)
    then have "s' = link_small (smallbin_at s i) (smallbin_at s i) P (mark_smallmap i s)"
      using assms(3) by (simp add: insert_small_chunk_def Let_def flip: i_def)
    then show ?thesis using small_step_links(2) n by simp
  next
    case (Cons x xs)
    then have "fd s (smallbin_at s i) = x" "smallmap_is_marked s i"
      using bin_neighbours(3) [OF assms(1) i, of "[]" x xs] assms(1) i by (auto simp: small_bins_def small_bin_def Let_def)
    then have "s' = link_small (smallbin_at s i) x P s"
      using assms(3) by (simp add: insert_small_chunk_def Let_def split: if_splits flip: i_def)
    then show ?thesis using small_step_links(1) n Cons by simp
  qed
qed

lemma unlink_small_frame:
  assumes "small_bins s X" "i < NSMALLBINS" "X i = xs @ P # ys"
    "s' = clear_smallmap i s \<or> s' = set_fd (bk s P) (fd s P) (set_bk (fd s P) (bk s P) s)"
  shows "small_step s (bin_nodes s X) s'"
proof -
  note n = in_bin_nodes [OF assms(2), of s X]
  note nb = bin_neighbours [OF assms(1-3)]
  have b: "bk s P \<in> bin_nodes s X" using nb(1) n assms(3) by (cases xs rule: rev_cases) auto
  have f: "fd s P \<in> bin_nodes s X" using nb(2) n assms(3) by (cases ys) auto
  from assms(4) show ?thesis
    by (elim disjE) (simp_all only: small_step_links(3,4) [OF b f b])
qed

lemma unlink_small_shape:
  "unlink_small_chunk P S s = Ret s' \<Longrightarrow>
     s' = clear_smallmap (small_index S) s \<or> s' = set_fd (bk s P) (fd s P) (set_bk (fd s P) (bk s P) s)"
  by (auto simp: unlink_small_chunk_def Let_def split: if_splits)

lemma unlink_first_shape:
  "unlink_first_small_chunk (bk s P) P i s = Ret s' \<Longrightarrow>
     s' = clear_smallmap i s \<or> s' = set_fd (bk s P) (fd s P) (set_bk (fd s P) (bk s P) s)"
  by (auto simp: unlink_first_small_chunk_def Let_def split: if_splits)

text \<open>A step on the small bins leaves the tree bins as they are, and the other way around.\<close>

lemma small_step_words:
  assumes "placed s A" "N \<subseteq> A" "small_step s (smallbin_at s ` {i. i < NSMALLBINS} \<union> N) s'"
    "a \<notin> head_area s" "\<And>x. x \<in> N \<Longrightarrow> a \<notin> inner s x"
  shows "malloc_state.heap s' a = malloc_state.heap s a"
proof -
  note P = placedD [OF assms(1)]
  have "a \<noteq> x + 16 \<and> a \<noteq> x + 24" if x: "x \<in> smallbin_at s ` {i. i < NSMALLBINS} \<union> N" for x
    using x
  proof
    assume "x \<in> smallbin_at s ` {i. i < NSMALLBINS}"
    then obtain i where "i < NSMALLBINS" "x = smallbin_at s i" by auto
    then have "x + 16 \<in> head_area s" "x + 24 \<in> head_area s"
      using header_words [OF P(3), of i] by (simp_all add: head_area_def)
    then show ?thesis using assms(4) by auto
  next
    assume x: "x \<in> N"
    then have "chunk_placed s x" using P(4) assms(2) by blast
    then have "x + 16 \<in> inner s x" "x + 24 \<in> inner s x"
      using inner_field [of s x 16] inner_field [of s x 24] by (simp_all add: chunk_placed_def)
    then show ?thesis using assms(5) [OF x] by auto
  qed
  then show ?thesis using assms(3) unfolding small_step_def by blast
qed

lemma small_step_keeps:
  assumes "small_step s N s'"
  shows "mst s' = mst s" "least_addr s' = least_addr s" "treemap s' = treemap s"
proof -
  have r: "s' = s\<lparr>malloc_state.heap := malloc_state.heap s', smallmap := smallmap s'\<rparr>"
    using assms unfolding small_step_def by (elim conjE)
  show "mst s' = mst s" "least_addr s' = least_addr s" "treemap s' = treemap s" by (subst r, simp)+
qed

lemma small_step_effect:
  assumes "placed s A" "N \<subseteq> A" "small_step s (smallbin_at s ` {i. i < NSMALLBINS} \<union> N) s'"
  shows "bins_step s A s'"
    "large_store s B \<Longrightarrow> B \<subseteq> A \<Longrightarrow> B \<inter> N = {} \<Longrightarrow> large_store s' B"
proof -
  have r: "s' = s\<lparr>malloc_state.heap := malloc_state.heap s', smallmap := smallmap s'\<rparr>"
    using assms(3) unfolding small_step_def by (elim conjE)
  note w = small_step_words [OF assms]
  have "malloc_state.heap s' a = malloc_state.heap s a" if "a \<notin> bin_words s A" for a
    by (rule w) (use that assms(2) head_area_bin_area [of s] in \<open>auto simp: bin_words_def\<close>)
  moreover have "s' = s\<lparr>malloc_state.heap := malloc_state.heap s', smallmap := smallmap s', treemap := treemap s'\<rparr>"
    by (rule state_change(1) [OF r])
  ultimately show "bins_step s A s'" unfolding bins_step_def by blast
  assume B: "large_store s B" "B \<subseteq> A" "B \<inter> N = {}"
  note P = placedD [OF assms(1)]
  show "large_store s' B"
  proof (rule large_store_cong [OF B(1) small_step_keeps [OF assms(3)]])
    fix i :: bindex assume i: "i < NTREEBINS"
    have "malloc_state.heap s' (treebin_at s i) = malloc_state.heap s (treebin_at s i)"
    proof (rule w)
      show "treebin_at s i \<notin> head_area s" using treebin_word(1) [OF P(3) i] by (simp add: head_area_def)
      show "treebin_at s i \<notin> inner s x" if "x \<in> N" for x
        using inner_above [OF assms(1), of x "treebin_at s i"] treebin_word(2) [OF P(3) i] that assms(2) by auto
    qed
    then show "treebin s' i = treebin s i"
      using treebin_at_mst [OF small_step_keeps(1) [OF assms(3)]] by (simp add: treebin_def)
  next
    fix x i assume x: "x \<in> B" and i: "i \<in> node_offsets"
    then have xA: "x \<in> A" using B(2) by blast
    note f = large_field_words [OF assms(1) xA large_store_sizes(1) [OF B(1) x] i]
    show "malloc_state.heap s' (x + i) = malloc_state.heap s (x + i)"
    proof (rule w)
      show "x + i \<notin> head_area s" using f(2) by (simp add: head_area_def)
      show "x + i \<notin> inner s y" if y: "y \<in> N" for y
      proof (cases "i = 8")
        case True
        then show ?thesis using heads_outside [OF assms(1) xA] y assms(2) by (auto simp: bin_words_def)
      next
        case False
        then have "x + i \<in> inner s x" using f(1) by blast
        then show ?thesis using inner_disjoint [OF assms(1) xA] y assms(2) B(3) x by blast
      qed
    qed
  qed
qed

lemma large_frame_step:
  assumes "placed s A" "N \<subseteq> A" "large_frame s N s'" "\<forall>x\<in>N. MIN_LARGE_SIZE \<le> chunksize s x"
  shows "bins_step s A s'" "small_bins s X \<Longrightarrow> small_all X \<subseteq> A \<Longrightarrow> small_all X \<inter> N = {} \<Longrightarrow> small_bins s' X"
proof -
  note P = placedD [OF assms(1)]
  have r: "s' = s\<lparr>malloc_state.heap := malloc_state.heap s', treemap := treemap s'\<rparr>"
    and hd: "\<And>x. x \<in> N \<Longrightarrow> head s' x = head s x"
    and out: "\<And>b. b \<notin> (\<Union>x\<in>N. node_fields x) \<Longrightarrow> (\<And>i. i < NTREEBINS \<Longrightarrow> b \<noteq> treebin_at s i) \<Longrightarrow>
      malloc_state.heap s' b = malloc_state.heap s b"
    using assms(3) unfolding large_frame_def by blast+
  have keep: "mst s' = mst s" "least_addr s' = least_addr s" "smallmap s' = smallmap s" by (subst r, simp)+
  have w: "malloc_state.heap s' a = malloc_state.heap s a"
    if "\<And>i. i < NTREEBINS \<Longrightarrow> a \<noteq> treebin_at s i" "\<And>x. x \<in> N \<Longrightarrow> a \<notin> inner s x" for a
  proof (cases "\<exists>x\<in>N. a = x + 8")
    case True
    then show ?thesis using hd by (auto simp: head_def)
  next
    case False
    have "a \<notin> node_fields x" if x: "x \<in> N" for x
    proof
      assume "a \<in> node_fields x"
      then obtain i where i: "i \<in> node_offsets" "a = x + i" by (auto simp: node_fields_def)
      then have "a \<in> inner s x"
        using large_field_words(1) [OF assms(1) subsetD [OF assms(2) x] bspec [OF assms(4) x] i(1)] False x by auto
      then show False using \<open>\<And>x. x \<in> N \<Longrightarrow> a \<notin> inner s x\<close> x by blast
    qed
    then show ?thesis using out that(1) by blast
  qed
  have "malloc_state.heap s' a = malloc_state.heap s a" if "a \<notin> bin_words s A" for a
    by (rule w) (use that assms(2) treebin_word(3) [OF P(3)] in \<open>auto simp: bin_words_def\<close>)
  moreover have "s' = s\<lparr>malloc_state.heap := malloc_state.heap s', smallmap := smallmap s', treemap := treemap s'\<rparr>"
    by (rule state_change(2) [OF r])
  ultimately show "bins_step s A s'" unfolding bins_step_def by blast
  assume X: "small_bins s X" "small_all X \<subseteq> A" "small_all X \<inter> N = {}"
  show "small_bins s' X"
  proof (rule small_bins_cong [OF X(1) keep])
    fix x assume x: "x \<in> bin_nodes s X"
    have "malloc_state.heap s' a = malloc_state.heap s a" if a: "a = x + 16 \<or> a = x + 24" for a
    proof (cases "x \<in> small_all X")
      case True
      then have xA: "x \<in> A" "chunk_placed s x" using P(4) X(2) by blast+
      then have "a \<in> inner s x" using inner_field [of s x 16] inner_field [of s x 24] a by (auto simp: chunk_placed_def)
      then show ?thesis
        using inner_disjoint [OF assms(1) xA(1)] inner_above [OF assms(1) xA(1)] treebin_word(2) [OF P(3)]
          assms(2) X(3) True by (intro w) fastforce+
    next
      case False
      then obtain i where "i < NSMALLBINS" "x = smallbin_at s i"
        using x small_nodes(3) [OF assms(1) X(2)] by auto
      then have "unat a < unat (mst s) + 600"
        using header_words [OF P(3), of i] a by auto
      then show ?thesis
        using treebin_word(1) [OF P(3)] inner_above [OF assms(1)] assms(2) by (intro w) fastforce+
    qed
    then show "fd s' x = fd s x \<and> bk s' x = bk s x" by (simp add: fd_def bk_def)
  qed
qed

section \<open>Operations on all bins\<close>

abbreviation headers :: "malloc_state \<Rightarrow> addr set" where
  "headers s \<equiv> smallbin_at s ` {i. i < NSMALLBINS}"

lemma chunk_nodes:
  assumes "placed s A" "C \<subseteq> A"
  shows "links_apart (headers s \<union> C)" "headers s \<inter> C = {}"
proof -
  note P = placedD [OF assms(1)]
  have "is_aligned p \<and> unat (mst s) + 928 \<le> unat p" if "p \<in> C" for p
    using P(4) [of p] that assms(2) by (auto simp: chunk_placed_def)
  then show "links_apart (headers s \<union> C)" "headers s \<inter> C = {}"
    using nodes_apart [OF P(1,3), of C] by blast+
qed

lemma sorted_small_step:
  assumes "sorted_small s X" "\<And>x. x \<in> small_all X' \<Longrightarrow> chunksize s' x = chunksize s x"
    "\<And>j x. j < NSMALLBINS \<Longrightarrow> x \<in> set (X' j) \<Longrightarrow> x \<in> set (X j) \<or> is_small (chunksize s x) \<and> small_index (chunksize s x) = j"
  shows "sorted_small s' X'"
  using assms unfolding sorted_small_def small_all_def by fastforce

lemma insert_small_effect:
  assumes "bins s A" "P \<notin> A" "placed s (insert P A)" "is_small (chunksize s P)"
  shows "\<exists>s'. insert_small_chunk P (chunksize s P) s = Ret s' \<and> bins s' (insert P A) \<and> bins_step s (insert P A) s'"
proof -
  obtain X B where X: "small_bins s X" "sorted_small s X" "large_store s B" "A = small_all X \<union> B"
    using assms(1) by (auto simp: bins_def)
  define i where "i = small_index (chunksize s P)"
  define X' where "X' = X(i := P # X i)"
  have i: "i < NSMALLBINS" using small_index_less [OF assms(4)] by (simp add: i_def)
  have nodes: "bin_nodes s X = headers s \<union> small_all X" by (auto simp: bin_nodes_def small_all_def)
  have sub: "insert P (small_all X) \<subseteq> insert P A" using X(4) by auto
  note c = chunk_nodes [OF assms(3) sub]
  have "P \<notin> bin_nodes s X" using c(2) assms(2) X(4) by (auto simp: nodes)
  moreover have "links_apart (insert P (bin_nodes s X))" using c(1) by (simp add: nodes)
  moreover have "ok_address s P" using placedD(4) [OF assms(3), of P] by (simp add: chunk_placed_def)
  ultimately obtain s' where s': "insert_small_chunk P (chunksize s P) s = Ret s'" "small_bins s' X'"
    using insert_small_chunk_refines [OF X(1) assms(4) i_def] unfolding X'_def by blast
  have all: "small_all X' = insert P (small_all X)" using i by (auto simp: small_all_def X'_def split: if_splits)
  have "small_step s (headers s \<union> insert P (small_all X)) s'"
    using insert_small_frame [OF X(1) assms(4) s'(1)] by (simp add: nodes)
  note e = small_step_effect [OF assms(3) sub this]
  have "B \<inter> insert P (small_all X) = {}" using bins_small_large [OF X(2,3)] assms(2) X(4) by auto
  then have "large_store s' B" using e(2) X(3,4) by blast
  moreover have "sorted_small s' X'"
  proof (rule sorted_small_step [OF X(2)])
    show "chunksize s' x = chunksize s x" if "x \<in> small_all X'" for x
      using bins_step_heads(2) [OF e(1) assms(3)] that sub unfolding all by blast
    show "x \<in> set (X j) \<or> is_small (chunksize s x) \<and> small_index (chunksize s x) = j" if "x \<in> set (X' j)" for j x
      using that assms(4) by (auto simp: X'_def i_def split: if_splits)
  qed
  moreover have "placed s' (insert P A)" by (rule bins_step_placed [OF e(1) assms(3)])
  moreover have "insert P A = small_all X' \<union> B" using X(4) all by auto
  ultimately have "bins s' (insert P A)" using s'(2) unfolding bins_def by blast
  with s'(1) e(1) show ?thesis by blast
qed

lemma insert_large_effect:
  assumes "bins s A" "P \<notin> A" "placed s (insert P A)" "\<not> is_small (chunksize s P)"
  shows "\<exists>s'. insert_large_chunk P (chunksize s P) s = Ret s' \<and> bins s' (insert P A) \<and> bins_step s (insert P A) s'"
proof -
  obtain X B where X: "small_bins s X" "sorted_small s X" "large_store s B" "A = small_all X \<union> B"
    using assms(1) by (auto simp: bins_def)
  have size: "\<forall>x\<in>insert P B. MIN_LARGE_SIZE \<le> chunksize s x"
    using assms(4) large_store_sizes(1) [OF X(3)] by (auto simp: small_iff)
  have sub: "insert P B \<subseteq> insert P A" "P \<notin> B" using X(4) assms(2) by auto
  have "free_blocks s (insert P B)" by (rule placed_free_blocks [OF placed_mono [OF assms(3) sub(1)] bspec [OF size]])
  moreover have "chunksize s P < 2 ^ 40" using placedD(4) [OF assms(3), of P] by (simp add: chunk_placed_def)
  ultimately obtain s' where s': "insert_large_chunk P (chunksize s P) s = Ret s'" "large_store s' (insert P B)"
    "large_frame s (insert P B) s'"
    using insert_large_chunk_effect [OF X(3) sub(2) _ bspec [OF size insertI1]] by blast
  note e = large_frame_step [OF assms(3) sub(1) s'(3) size]
  have "small_all X \<inter> insert P B = {}" using bins_small_large [OF X(2,3)] assms(2) X(4) by auto
  then have "small_bins s' X" using e(2) [OF X(1)] X(4) by blast
  moreover have "sorted_small s' X"
    by (rule sorted_small_step [OF X(2)]) (use bins_step_heads(2) [OF e(1) assms(3)] X(4) in auto)
  moreover have "placed s' (insert P A)" by (rule bins_step_placed [OF e(1) assms(3)])
  moreover have "insert P A = small_all X \<union> insert P B" using X(4) by auto
  ultimately have "bins s' (insert P A)" using s'(2) unfolding bins_def by blast
  with s'(1) e(1) show ?thesis by blast
qed

lemma insert_chunk_effect:
  assumes "bins s A" "P \<notin> A" "placed s (insert P A)"
  shows "\<exists>s'. insert_chunk P (chunksize s P) s = Ret s' \<and> bins s' (insert P A) \<and> bins_step s (insert P A) s'"
  using insert_small_effect [OF assms] insert_large_effect [OF assms] by (simp add: insert_chunk_def)

text \<open>Taking a chunk out of its small bin, in either way\<close>

lemma small_all_remove:
  assumes "small_bins s X" "sorted_small s X" "i < NSMALLBINS" "X i = xs @ P # ys"
  shows "small_all (X(i := xs @ ys)) = small_all X - {P}" "P \<in> small_all X"
proof -
  have "small_bin s i (X i)" using assms(1,3) unfolding small_bins_def by blast
  then have "distinct (X i)" by (simp add: small_bin_def Let_def)
  then have d: "P \<notin> set (xs @ ys)" using assms(4) by simp
  have idx: "small_index (chunksize s P) = k" if "k < NSMALLBINS" "P \<in> set (X k)" for k
    using assms(2) that unfolding sorted_small_def by blast
  have other: "P \<notin> set (X j)" if "j < NSMALLBINS" "j \<noteq> i" for j
    using idx [OF that(1)] idx [OF assms(3)] assms(4) that(2) by auto
  show "P \<in> small_all X" using assms(3,4) unfolding small_all_def by force
  show "small_all (X(i := xs @ ys)) = small_all X - {P}"
  proof (intro set_eqI iffI)
    fix x assume "x \<in> small_all (X(i := xs @ ys))"
    then obtain j where j: "j < NSMALLBINS" "x \<in> set ((X(i := xs @ ys)) j)" by (auto simp: small_all_def)
    then have "x \<in> set (X j)" "x \<noteq> P" using assms(4) d other [of j] by (auto split: if_splits)
    then show "x \<in> small_all X - {P}" using j(1) by (auto simp: small_all_def)
  next
    fix x assume "x \<in> small_all X - {P}"
    then obtain j where j: "j < NSMALLBINS" "x \<in> set (X j)" "x \<noteq> P" by (auto simp: small_all_def)
    then have "x \<in> set ((X(i := xs @ ys)) j)" using assms(4) by auto
    then show "x \<in> small_all (X(i := xs @ ys))" using j(1) by (auto simp: small_all_def)
  qed
qed

lemma without_effect:
  assumes "placed s A" "small_bins s X" "sorted_small s X" "large_store s B" "A = small_all X \<union> B"
    and "i < NSMALLBINS" "X i = xs @ P # ys" "small_bins s' (X(i := xs @ ys))" "small_step s (bin_nodes s X) s'"
  shows "bins s' (A - {P})" "bins_step s A s'"
proof -
  have nodes: "bin_nodes s X = headers s \<union> small_all X" by (auto simp: bin_nodes_def small_all_def)
  have sub: "small_all X \<subseteq> A" using assms(5) by auto
  note e = small_step_effect [OF assms(1) sub assms(9) [unfolded nodes]]
  show "bins_step s A s'" by (rule e(1))
  note r = small_all_remove [OF assms(2,3,6,7)]
  have d: "B \<inter> small_all X = {}" using bins_small_large [OF assms(3,4)] by auto
  then have "large_store s' B" using e(2) assms(4,5) by blast
  moreover have "sorted_small s' (X(i := xs @ ys))"
    by (rule sorted_small_step [OF assms(3)])
      (use bins_step_heads(2) [OF e(1) assms(1)] sub r(1) assms(7) in \<open>auto split: if_splits\<close>)
  moreover have "placed s' (A - {P})"
    using placed_mono [OF bins_step_placed [OF e(1) assms(1)]] by blast
  moreover have "A - {P} = small_all (X(i := xs @ ys)) \<union> B" using assms(5) r d by auto
  ultimately show "bins s' (A - {P})" using assms(8) unfolding bins_def by blast
qed

lemma unlink_chunk_effect:
  assumes "bins s A" "P \<in> A"
  shows "\<exists>s'. unlink_chunk P (chunksize s P) s = Ret s' \<and> bins s' (A - {P}) \<and> bins_step s A s'"
proof -
  obtain X B where p: "placed s A" and X: "small_bins s X" "sorted_small s X" "large_store s B" "A = small_all X \<union> B"
    using assms(1) by (auto simp: bins_def)
  show ?thesis
  proof (cases "is_small (chunksize s P)")
    case True
    have "P \<notin> B" using large_store_sizes(1) [OF X(3), of P] True by (auto simp: small_iff)
    then obtain i where i: "i < NSMALLBINS" "P \<in> set (X i)" using assms(2) X(4) by (auto simp: small_all_def)
    have idx: "i = small_index (chunksize s P)" using X(2) i by (auto simp: sorted_small_def)
    obtain xs ys where e: "X i = xs @ P # ys" using i(2) by (auto simp: in_set_conv_decomp)
    obtain s' where s': "unlink_small_chunk P (chunksize s P) s = Ret s'" "small_bins s' (X(i := xs @ ys))"
      using unlink_small_chunk_refines [OF X(1) True idx e] by blast
    have "small_step s (bin_nodes s X) s'"
      by (rule unlink_small_frame [OF X(1) i(1) e]) (use unlink_small_shape [OF s'(1)] idx in simp)
    from without_effect [OF p X i(1) e s'(2) this] show ?thesis using s'(1) True by (auto simp: unlink_chunk_def)
  next
    case False
    have d: "small_all X \<inter> B = {}" by (rule bins_small_large [OF X(2,3)])
    have "P \<notin> small_all X" using X(2) False by (auto simp: small_all_def sorted_small_def)
    then have P: "P \<in> B" using assms(2) X(4) by blast
    obtain s' where s': "unlink_large_chunk P s = Ret s'" "large_store s' (B - {P})" "large_frame s B s'"
      using unlink_large_chunk_effect [OF X(3) P] by blast
    have sub: "B \<subseteq> A" using X(4) by blast
    have "\<forall>x\<in>B. MIN_LARGE_SIZE \<le> chunksize s x" using large_store_sizes(1) [OF X(3)] by blast
    note e = large_frame_step [OF p sub s'(3) this]
    have "small_bins s' X" using e(2) [OF X(1)] X(4) d by blast
    moreover have "sorted_small s' X"
      by (rule sorted_small_step [OF X(2)]) (use bins_step_heads(2) [OF e(1) p] X(4) in auto)
    moreover have "placed s' (A - {P})" using placed_mono [OF bins_step_placed [OF e(1) p]] by blast
    moreover have "A - {P} = small_all X \<union> (B - {P})" using X(4) \<open>P \<notin> small_all X\<close> by auto
    ultimately have "bins s' (A - {P})" using s'(2) unfolding bins_def by blast
    with s'(1) e(1) False show ?thesis by (auto simp: unlink_chunk_def)
  qed
qed

lemma unlink_first_effect:
  assumes "bins s A" "i < NSMALLBINS" "smallmap_is_marked s i"
  defines "p \<equiv> fd s (smallbin_at s i)"
  shows "p \<in> A \<and> is_small (chunksize s p) \<and> small_index (chunksize s p) = i
    \<and> (\<exists>s'. unlink_first_small_chunk (smallbin_at s i) p i s = Ret s' \<and> bins s' (A - {p}) \<and> bins_step s A s')"
proof -
  obtain X B where P: "placed s A" and X: "small_bins s X" "sorted_small s X" "large_store s B" "A = small_all X \<union> B"
    using assms(1) by (auto simp: bins_def)
  have "X i \<noteq> []" using X(1) assms(2,3) by (auto simp: small_bins_def small_bin_def Let_def)
  then obtain q ys where q: "X i = q # ys" by (cases "X i") auto
  then have e: "X i = [] @ q # ys" by simp
  note nb = bin_neighbours [OF X(1) assms(2) e]
  have pq: "p = q" using nb(3) by (simp add: p_def)
  have bk: "bk s q = smallbin_at s i" using nb(1) by simp
  obtain s' where s': "unlink_first_small_chunk (smallbin_at s i) q i s = Ret s'" "small_bins s' (X(i := ys))"
    using unlink_first_small_chunk_refines [OF X(1) assms(2) q] by blast
  have "small_step s (bin_nodes s X) s'"
    by (rule unlink_small_frame [OF X(1) assms(2) e]) (rule unlink_first_shape, use s'(1) bk in simp)
  note w = without_effect [OF P X assms(2) e _ this]
  have "q \<in> A" "is_small (chunksize s q)" "small_index (chunksize s q) = i"
    using X(2,4) q assms(2) by (auto simp: sorted_small_def small_all_def)
  then show ?thesis using w s' unfolding pq by auto
qed

lemma marked_bins:
  assumes "bins s A" "smallmap_is_marked s i" "i < NSMALLBINS"
  shows "\<exists>x\<in>A. is_small (chunksize s x)"
  using unlink_first_effect [OF assms(1,3,2)] by blast

lemma tmalloc_small_bins:
  assumes "bins s A" "treemap s \<noteq> 0" "0 < nb" "nb \<le> MIN_LARGE_SIZE"
  shows "\<exists>v\<in>A. nb \<le> chunksize s v \<and> \<not> is_small (chunksize s v)
    \<and> tmalloc_small nb s = take_large nb v (chunksize s v - nb) replace_dv s"
proof -
  obtain X B where X: "large_store s B" "A = small_all X \<union> B" using assms(1) by (auto simp: bins_def)
  have "B \<noteq> {}" using stored_shape [OF X(1)] assms(2) by metis
  from tmalloc_small_fit [OF X(1) this assms(3,4)] show ?thesis
    using X(2) large_store_sizes(1) [OF X(1)] by (auto simp: best_fit_def small_iff)
qed

lemma tmalloc_large_bins:
  assumes "bins s A" "MIN_LARGE_SIZE \<le> nb" "nb < 2 ^ 40"
  shows "tmalloc_large nb s = Ret (0, s) \<or> (\<exists>v\<in>A. nb \<le> chunksize s v \<and> \<not> is_small (chunksize s v)
    \<and> tmalloc_large nb s = take_large nb v (chunksize s v - nb) insert_chunk s)"
proof -
  obtain X B where X: "large_store s B" "A = small_all X \<union> B" using assms(1) by (auto simp: bins_def)
  from tmalloc_large_fit [OF X(1) assms(2,3)] show ?thesis
  proof (elim disjE exE conjE)
    fix v assume v: "best_fit s B nb v"
    then have "v \<in> A" "nb \<le> chunksize s v" "\<not> is_small (chunksize s v)"
      using X(2) large_store_sizes(1) [OF X(1)] by (auto simp: best_fit_def small_iff)
    then show ?thesis
      if "tmalloc_large nb s = (if chunksize s v - nb < dvsize s - nb
        then take_large nb v (chunksize s v - nb) insert_chunk s else Ret (0, s))"
      using that by (cases "chunksize s v - nb < dvsize s - nb") auto
  qed simp
qed

lemma small_index_size:
  assumes "is_small n" "is_aligned n"
  shows "small_index2size (small_index n) = n"
proof -
  have n: "unat n < 256" using assms(1) by (simp add: small_iff dl_consts word_le_nat_alt not_le)
  have d: "unat n mod 8 = 0" using assms(2) by (auto simp: is_aligned_iff elim!: dvdE)
  define k where "k = unat n div 8"
  have k: "k < 32" "unat n = 8 * k" using n d by (auto simp: k_def)
  have "n = of_nat (unat n)" by simp
  then have "n = of_nat (8 * k)" unfolding k(2) .
  moreover
  have "list_all (\<lambda>k. small_index2size (small_index (of_nat (8 * k))) = of_nat (8 * k)) [0..<32]"
    by code_simp
  then have "small_index2size (small_index (of_nat (8 * k))) = of_nat (8 * k)"
    using k(1) by (simp only: list_all_iff set_upt) auto
  ultimately show ?thesis by simp
qed

end
