(* ===== verification/Dl_Top.thy ===== *)
theory Dl_Top
  imports Dl_Mspace Dl_Lists
begin

unbundle bit_operations_syntax

text \<open>
  Allocation while the heap has no free chunk but \<open>top\<close>: requests are served from \<open>top\<close> one after
  the other, and a chunk that borders \<open>top\<close> is merged into it when it is freed.
\<close>

section \<open>States with nothing free but top\<close>

definition top_only :: "malloc_state \<Rightarrow> bool" where
  "top_only s \<longleftrightarrow>
     smallmap s = 0 \<and> treemap s = 0 \<and> dvsize s = 0 \<and> dv s = 0
       \<and> is_aligned (mtop s) \<and> is_aligned (topsize s) \<and> 0 < topsize s
       \<and> least_addr s \<le> mtop s \<and> 0 < mtop s
       \<and> unat (mtop s) + unat (topsize s) + unat TOP_FOOT_SIZE \<le> 2 ^ 64
       \<and> head s (mtop s) = topsize s OR PINUSE_BIT"

lemma request2size_pos: "request2size b \<noteq> 0 \<and> 0 < request2size b" if "b < MAX_REQUEST"
  using request2size_fits [OF that] by (auto simp: dl_consts word_le_nat_alt word_less_nat_alt)

lemma malloc_top_only:
  assumes "top_only s" "b < MAX_REQUEST"
  shows "mspace_malloc os b s = malloc_dv_or_top os (request2size b) s"
proof -
  have z: "smallmap s = 0" "treemap s = 0" "dvsize s = 0" using assms(1) by (auto simp: top_only_def)
  show ?thesis
  proof (cases "b \<le> MAX_SMALL_REQUEST")
    case True
    have "(if b < MIN_REQUEST then MIN_CHUNK_SIZE else pad_request b) = request2size b"
      by (simp add: request2size_def)
    then show ?thesis
      unfolding mspace_malloc_def Let_def
      using True z request2size_pos [OF assms(2)] by simp
  next
    case False
    then have "pad_request b = request2size b"
      by (auto simp: request2size_def dl_consts word_le_nat_alt word_less_nat_alt)
    then show ?thesis
      using False assms(2) z leD [of MAX_REQUEST b] by (auto simp: mspace_malloc_def Let_def)
  qed
qed

lemma malloc_splits_top:
  assumes "top_only s" "b < MAX_REQUEST" "request2size b < topsize s"
  shows "mspace_malloc os b s = Ret (split_top (request2size b) s)"
  using assms(1,3) request2size_pos [OF assms(2)]
  by (simp add: malloc_top_only [OF assms(1,2)] malloc_dv_or_top_def top_only_def)

lemma split_top_simps:
  "fst (split_top nb s) = chunk2mem (mtop s)"
  "mtop (snd (split_top nb s)) = mtop s + nb"
  "topsize (snd (split_top nb s)) = topsize s - nb"
  "heap (snd (split_top nb s)) =
     (heap s)(mtop s + nb + 8 := (topsize s - nb) OR PINUSE_BIT, mtop s + 8 := nb OR PINUSE_BIT OR CINUSE_BIT)"
  "smallmap (snd (split_top nb s)) = smallmap s" "treemap (snd (split_top nb s)) = treemap s"
  "dvsize (snd (split_top nb s)) = dvsize s" "dv (snd (split_top nb s)) = dv s"
  "least_addr (snd (split_top nb s)) = least_addr s" "mst (snd (split_top nb s)) = mst s"
  "mparams (snd (split_top nb s)) = mparams s" "trim_check (snd (split_top nb s)) = trim_check s"
  "footprint (snd (split_top nb s)) = footprint s" "footprint_limit (snd (split_top nb s)) = footprint_limit s"
  "max_footprint (snd (split_top nb s)) = max_footprint s"
  by (simp_all add: split_top_def Let_def dl_fields dl_heads)

lemma top_only_split:
  assumes "top_only s" "is_aligned nb" "0 < nb" "nb < topsize s"
  shows "top_only (snd (split_top nb s))"
    "unat (mtop s + nb) = unat (mtop s) + unat nb" "unat (topsize s - nb) = unat (topsize s) - unat nb"
proof -
  have nb: "unat nb < unat (topsize s)" "0 < unat nb"
    using assms(3,4) by (simp_all add: word_less_nat_alt)
  have sum: "unat (mtop s) + unat (topsize s) + 80 \<le> 2 ^ 64"
    using assms(1) by (simp add: top_only_def dl_consts)
  show m: "unat (mtop s + nb) = unat (mtop s) + unat nb"
    using nb sum by (simp add: unat_word_ariths)
  show t: "unat (topsize s - nb) = unat (topsize s) - unat nb"
    using nb by (simp add: unat_sub word_le_nat_alt)
  have al: "is_aligned (mtop s + nb)" "is_aligned (topsize s - nb)"
    using assms(1,2) m t by (auto simp: is_aligned_iff top_only_def)
  show "top_only (snd (split_top nb s))"
    using assms(1,3) al m t nb sum
    unfolding top_only_def split_top_simps head_def
    by (auto simp: word_le_nat_alt word_less_nat_alt dl_consts)
qed


section \<open>A sequence of requests\<close>

primrec mallocs :: "system \<Rightarrow> size_t list \<Rightarrow> malloc_state \<Rightarrow> (addr list \<times> malloc_state) dl_result" where
  "mallocs os [] s = Ret ([], s)"
| "mallocs os (b # bs) s =
     dbind (mspace_malloc os b s) (\<lambda>(mem, s).
     dbind (mallocs os bs s) (\<lambda>(mems, s). Ret (mem # mems, s)))"

text \<open>The offsets that a sequence of requests gets, counted from the first chunk\<close>

primrec offsets :: "size_t \<Rightarrow> size_t list \<Rightarrow> size_t list" where
  "offsets a [] = []"
| "offsets a (b # bs) = chunk2mem a # offsets (a + request2size b) bs"

definition total :: "size_t list \<Rightarrow> nat" where
  "total bs = sum_list (map (\<lambda>b. unat (request2size b)) bs)"

lemma total_simps [simp]:
  "total [] = 0" "total (b # bs) = unat (request2size b) + total bs"
  by (simp_all add: total_def)

lemma offsets_add: "map ((+) d) (offsets a bs) = offsets (d + a) bs"
  by (induction bs arbitrary: a) (simp_all add: chunk2mem_def ac_simps)

lemma mallocs_from_top:
  assumes "top_only s" "\<forall>b\<in>set bs. b < MAX_REQUEST" "total bs < unat (topsize s)"
  shows "\<exists>s'. mallocs os bs s = Ret (offsets (mtop s) bs, s') \<and> top_only s'
    \<and> unat (mtop s') = unat (mtop s) + total bs \<and> unat (topsize s') = unat (topsize s) - total bs"
  using assms
proof (induction bs arbitrary: s)
  case (Cons b bs)
  let ?n = "request2size b"
  let ?s = "snd (split_top ?n s)"
  have b: "b < MAX_REQUEST" using Cons.prems(2) by simp
  have n: "is_aligned ?n" "0 < ?n" "?n < topsize s"
    using request2size_fits [OF b] request2size_pos [OF b] Cons.prems(3) by (auto simp: word_less_nat_alt)
  note step = malloc_splits_top [OF Cons.prems(1) b n(3), of os]
    top_only_split [OF Cons.prems(1) n]
  have "total bs < unat (topsize ?s)"
    using Cons.prems(3) step(4) by (simp add: split_top_simps)
  then obtain s' where "mallocs os bs ?s = Ret (offsets (mtop ?s) bs, s')" "top_only s'"
    "unat (mtop s') = unat (mtop ?s) + total bs" "unat (topsize s') = unat (topsize ?s) - total bs"
    using Cons.IH [OF step(2)] Cons.prems(2) by auto
  then show ?case
    using step by (auto simp: split_top_simps case_prod_unfold)
qed simp

lemma offsets_bounds:
  assumes "unat a + total bs + 16 < 2 ^ 64" "\<forall>b\<in>set bs. b < MAX_REQUEST" "is_aligned a"
  shows "length (offsets a bs) = length bs"
    "i < length bs \<Longrightarrow> is_aligned (offsets a bs ! i) \<and> unat a + 16 \<le> unat (offsets a bs ! i)
       \<and> unat (offsets a bs ! i) + unat (bs ! i) \<le> unat a + total bs + 8"
    "i < j \<Longrightarrow> j < length bs \<Longrightarrow> unat (offsets a bs ! i) + unat (bs ! i) + 8 \<le> unat (offsets a bs ! j)"
proof -
  have "length (offsets a bs) = length bs \<and>
    (\<forall>i < length bs. is_aligned (offsets a bs ! i) \<and> unat a + 16 \<le> unat (offsets a bs ! i)
       \<and> unat (offsets a bs ! i) + unat (bs ! i) \<le> unat a + total bs + 8) \<and>
    (\<forall>j < length bs. \<forall>i < j. unat (offsets a bs ! i) + unat (bs ! i) + 8 \<le> unat (offsets a bs ! j))"
    using assms
  proof (induction bs arbitrary: a)
    case (Cons b bs)
    let ?n = "request2size b"
    have b: "b < MAX_REQUEST" using Cons.prems by simp
    have n: "16 dvd unat ?n" "unat b + 8 \<le> unat ?n"
      using request2size_fits [OF b] by (auto simp: is_aligned_iff dl_consts)
    have sum: "unat (a + ?n) = unat a + unat ?n" "unat (chunk2mem a) = unat a + 16"
      using Cons.prems(1) by (simp_all add: unat_word_ariths chunk2mem_def dl_consts)
    have al: "is_aligned (a + ?n)" "is_aligned (chunk2mem a)"
      using Cons.prems(3) n by (auto simp: is_aligned_iff sum)
    note IH = Cons.IH [of "a + ?n", unfolded sum]
    have IH': "length (offsets (a + ?n) bs) = length bs"
      "\<And>i. i < length bs \<Longrightarrow> is_aligned (offsets (a + ?n) bs ! i) \<and> unat a + unat ?n + 16 \<le> unat (offsets (a + ?n) bs ! i)
       \<and> unat (offsets (a + ?n) bs ! i) + unat (bs ! i) \<le> unat a + unat ?n + total bs + 8"
      "\<And>i j. j < length bs \<Longrightarrow> i < j \<Longrightarrow> unat (offsets (a + ?n) bs ! i) + unat (bs ! i) + 8 \<le> unat (offsets (a + ?n) bs ! j)"
      using IH Cons.prems al by auto
    show ?case
    proof (intro conjI allI impI)
      show "length (offsets a (b # bs)) = length (b # bs)" using IH'(1) by simp
    next
      fix i
      assume "i < length (b # bs)"
      then show "is_aligned (offsets a (b # bs) ! i)" "unat a + 16 \<le> unat (offsets a (b # bs) ! i)"
        "unat (offsets a (b # bs) ! i) + unat ((b # bs) ! i) \<le> unat a + total (b # bs) + 8"
        using IH'(2) [of "i - 1"] al n sum by (cases i; simp)+
    next
      fix i j
      assume "j < length (b # bs)" "i < j"
      then show "unat (offsets a (b # bs) ! i) + unat ((b # bs) ! i) + 8 \<le> unat (offsets a (b # bs) ! j)"
        using IH'(2) [of "j - 1"] IH'(3) [of "j - 1" "i - 1"] n sum by (cases j; cases i; simp)
    qed
  qed simp
  then show "length (offsets a bs) = length bs"
    "i < length bs \<Longrightarrow> is_aligned (offsets a bs ! i) \<and> unat a + 16 \<le> unat (offsets a bs ! i)
       \<and> unat (offsets a bs ! i) + unat (bs ! i) \<le> unat a + total bs + 8"
    "i < j \<Longrightarrow> j < length bs \<Longrightarrow> unat (offsets a bs ! i) + unat (bs ! i) + 8 \<le> unat (offsets a bs ! j)"
    by blast+
qed


section \<open>A new mspace\<close>

lemma init_bins_spec:
  assumes "unat (mst s) + 936 \<le> 2 ^ 64"
  shows "\<exists>h. init_bins s = s\<lparr>heap := h\<rparr> \<and>
    (\<forall>a. (unat a < unat (mst s) + 72 \<or> unat (mst s) + 600 \<le> unat a) \<longrightarrow> h a = heap s a)"
proof -
  have "\<exists>h. fold init_bin is s = s\<lparr>heap := h\<rparr> \<and>
    (\<forall>a. (unat a < unat (mst s) + 72 \<or> unat (mst s) + 600 \<le> unat a) \<longrightarrow> h a = heap s a)"
    if "\<forall>i\<in>set is. i < NSMALLBINS" for "is"
    using that assms
  proof (induction "is" arbitrary: s)
    case Nil
    show ?case by (rule exI [of _ "heap s"]) simp
  next
    case (Cons i "is")
    have i: "i < NSMALLBINS" using Cons.prems(1) by simp
    then have "unat i < 32" by (simp add: NSMALLBINS_def word_less_nat_alt)
    then have B: "unat (smallbin_at s i + 16) = unat (mst s) + 88 + 16 * unat i"
      "unat (smallbin_at s i + 24) = unat (mst s) + 96 + 16 * unat i"
      using header_nat [OF i Cons.prems(2)] Cons.prems(2) by (simp_all add: unat_word_ariths)
    define h where "h = (heap s)(smallbin_at s i + 24 := smallbin_at s i, smallbin_at s i + 16 := smallbin_at s i)"
    have s1: "init_bin i s = s\<lparr>heap := h\<rparr>"
      by (simp add: init_bin_def Let_def dl_fields h_def)
    have out: "h a = heap s a" if "unat a < unat (mst s) + 72 \<or> unat (mst s) + 600 \<le> unat a" for a
      using that B \<open>unat i < 32\<close> by (auto simp: h_def)
    obtain h' where "fold init_bin is (s\<lparr>heap := h\<rparr>) = s\<lparr>heap := h'\<rparr>"
      "\<forall>a. (unat a < unat (mst s) + 72 \<or> unat (mst s) + 600 \<le> unat a) \<longrightarrow> h' a = h a"
      using Cons.IH [of "s\<lparr>heap := h\<rparr>"] Cons.prems by auto
    then show ?case using s1 out by auto
  qed
  moreover have "\<forall>i\<in>set (map of_nat [0..<unat NSMALLBINS]). i < NSMALLBINS"
    by (auto simp: NSMALLBINS_def word_less_nat_alt unsigned_of_nat take_bit_nat_eq_self)
  ultimately show ?thesis unfolding init_bins_def by blast
qed

lemma align_as_chunk_aligned [simp]: "is_aligned a \<Longrightarrow> align_as_chunk a = a"
proof -
  assume a: "is_aligned a"
  then have "unat (a + 16) mod 16 = 0"
    by (simp add: is_aligned_iff unat_word_ariths dvd_eq_mod_eq_0 mod_mod_cancel)
  then have "(a + 16) AND 15 = 0"
    using unat_and15 [of "a + 16"] by (simp add: unat_eq_0)
  then show ?thesis
    by (simp add: align_as_chunk_def align_offset_def chunk2mem_def dl_consts)
qed

definition sole_segment :: "malloc_state \<Rightarrow> bool" where
  "sole_segment s \<longleftrightarrow>
     first_seg s \<noteq> 0 \<and> seg_next s (first_seg s) = 0 \<and> is_extern_segment s (first_seg s)
       \<and> mp_magic (mparams s) \<noteq> 0 \<and> unat (first_seg s) + 32 \<le> unat (mtop s)
       \<and> seg_base s (first_seg s) \<le> mtop s
       \<and> unat (seg_base s (first_seg s)) + unat (seg_size s (first_seg s))
           = unat (mtop s) + unat (topsize s) + unat TOP_FOOT_SIZE
       \<and> unat (mtop s) + unat (topsize s) + unat TOP_FOOT_SIZE < 2 ^ 64"

text \<open>The state of \<open>init_user_mstate\<close> before and after the bins are initialised\<close>

definition blank_mstate :: "addr \<Rightarrow> size_t \<Rightarrow> malloc_state \<Rightarrow> malloc_state" where
  "blank_mstate base cap s =
     \<lparr>heap = (zero_words (base + 16) 944 (heap s))(base + 8 := 947, base + 904 := base, base + 912 := cap),
      mst = base + 16, smallmap = 0, treemap = 0, dvsize = 0, topsize = 0, least_addr = base, dv = 0,
      mtop = 0, trim_check = 0, release_checks = MAX_RELEASE_CHECK_RATE, magic = mp_magic (mparams s),
      footprint = cap, max_footprint = cap, footprint_limit = 0,
      mflags = default_mflags (mparams s) OR USE_NONCONTIGUOUS_BIT, extp = 0, exts = 0,
      mparams = mparams s, syscalls = syscalls s\<rparr>"

lemma msize: "pad_request sizeof_malloc_state = 944" "pad_request 936 = 944"
  by code_simp+

lemma init_user_mstate_eq:
  assumes "is_aligned base"
  shows "init_user_mstate base cap s =
    (let s = init_bins (blank_mstate base cap s); mn = next_chunk s base
     in init_top mn ((base + cap) - mn - TOP_FOOT_SIZE) s)"
  using assms
  by (simp add: init_user_mstate_def Let_def msize blank_mstate_def chunk2mem_def mem2chunk_def
      set_head_def set_seg_base_def set_seg_size_def wr_def first_seg_def disable_contiguous_def dl_consts add.commute [of _ base])

lemma init_user_mstate_spec:
  assumes "is_aligned base" "unat base + unat cap \<le> 2 ^ 64" "1024 < cap"
  obtains h where
    "init_user_mstate base cap s = (blank_mstate base cap s)\<lparr>heap := h, mtop := base + 944,
       topsize := cap - 1024, trim_check := trim_threshold (mparams s)\<rparr>"
    "h (base + 952) = (cap - 1024) OR 1" "h (base + 904) = base" "h (base + 912) = cap"
    "h (base + 920) = 0" "h (base + 8) = 947" "h (base + 944 + (cap - 1024) + 8) = 80"
    "\<forall>a. unat base + 616 \<le> unat a \<and> unat a < unat base + 904 \<longrightarrow> h a = 0"
proof -
  let ?b = "blank_mstate base cap s"
  have cap: "1024 < unat cap" using assms(3) by (simp add: word_less_nat_alt)
  then have m: "unat (mst ?b) = unat base + 16"
    using assms(2) by (simp add: blank_mstate_def unat_word_ariths)
  obtain hb where hb: "init_bins ?b = ?b\<lparr>heap := hb\<rparr>"
    and keep: "unat a < unat base + 88 \<or> unat base + 616 \<le> unat a \<Longrightarrow> hb a = heap ?b a" for a
  proof -
    have "unat (mst ?b) + 936 \<le> 2 ^ 64" using m cap assms(2) by simp
    from init_bins_spec [OF this] obtain h where h: "init_bins ?b = ?b\<lparr>heap := h\<rparr>"
      "\<forall>a. unat a < unat base + 16 + 72 \<or> unat base + 16 + 600 \<le> unat a \<longrightarrow> h a = heap ?b a"
      unfolding m by blast
    show thesis by (rule that [OF h(1)]) (use h(2) in \<open>auto simp: add.commute [of _ "unat base"]\<close>)
  qed
  have at: "unat (base + n) = unat base + unat n" if "unat n \<le> 1024" for n
    using that cap assms(2) by (simp add: unat_word_ariths)
  have hb_at: "hb (base + 8) = 947" "hb (base + 904) = base" "hb (base + 912) = cap"
    "hb (base + 920) = 0"
    using keep [of "base + 8"] keep [of "base + 904"] keep [of "base + 912"] keep [of "base + 920"]
    by (simp_all add: at blank_mstate_def zero_words_def)
  have mn: "next_chunk (init_bins ?b) base = base + 944"
    using hb_at(1) by (simp add: hb next_chunk_def head_def dl_consts)
  have al: "align_offset (chunk2mem (base + 944)) = 0"
  proof -
    have "is_aligned (base + 944)" using assms(1) at [of 944] by (simp add: is_aligned_iff)
    then have "is_aligned (chunk2mem (base + 944))"
      using assms(1) at [of 960] by (simp add: is_aligned_iff chunk2mem_def dl_consts add.commute [of _ base])
    then show ?thesis by (simp add: align_offset_def is_aligned_def)
  qed
  have size: "(base + cap) - (base + 944) - TOP_FOOT_SIZE = cap - 1024"
    by (simp add: dl_consts)
  define h where "h = hb(base + 952 := (cap - 1024) OR 1, base + 944 + (cap - 1024) + 8 := 80)"
  have c72: "unat (cap - 72) = unat cap - 72" using cap by (simp add: unat_sub word_le_nat_alt)
  have ne: "base + 944 + (cap - 1024) + 8 \<noteq> base + n" if "unat n \<le> 952" for n
  proof -
    have "unat (base + 944 + (cap - 1024) + 8) = unat base + unat cap - 72"
    proof -
      have "unat (base + (cap - 72)) = unat base + unat cap - 72"
        using cap assms(2) c72 by (simp add: unat_word_ariths)
      moreover have "base + 944 + (cap - 1024) + 8 = base + (cap - 72)" by simp
      ultimately show ?thesis by (simp only:)
    qed
    note U = this
    show ?thesis
    proof
      assume "base + 944 + (cap - 1024) + 8 = base + n"
      then have "unat (base + 944 + (cap - 1024) + 8) = unat (base + n)" by (rule arg_cong)
      then show False unfolding U at [OF order_trans [OF that, of 1024, simplified]] using that cap by simp
    qed
  qed
  show thesis
  proof
    show "init_user_mstate base cap s = ?b\<lparr>heap := h, mtop := base + 944,
       topsize := cap - 1024, trim_check := trim_threshold (mparams s)\<rparr>"
      unfolding init_user_mstate_eq [OF assms(1)] Let_def mn size
      unfolding hb
      by (simp add: init_top_def Let_def al h_def set_head_def wr_def blank_mstate_def dl_consts
          add.commute [of _ base])
    show "h (base + 952) = (cap - 1024) OR 1" "h (base + 904) = base" "h (base + 912) = cap"
      "h (base + 920) = 0" "h (base + 8) = 947"
      using ne [of 952] ne [of 904] ne [of 912] ne [of 920] ne [of 8] hb_at by (simp_all add: h_def)
    show "h (base + 944 + (cap - 1024) + 8) = 80" by (simp only: h_def fun_upd_same)
    show "\<forall>a. unat base + 616 \<le> unat a \<and> unat a < unat base + 904 \<longrightarrow> h a = 0"
    proof (intro allI impI)
      fix a :: addr
      assume a: "unat base + 616 \<le> unat a \<and> unat a < unat base + 904"
      then have "unat (a - (base + 16)) = unat a - (unat base + 16)"
        using at [of 16] by (simp add: unat_sub word_le_nat_alt)
      then have zero: "a - (base + 16) < 944" unfolding word_less_nat_alt using a by (simp, arith)
      have d: "a \<noteq> base + n" if "unat n < 616 \<or> 904 \<le> unat n" "unat n \<le> 1024" for n
        using at [OF that(2)] that(1) a by auto
      have u: "unat (base + (cap - 72)) = unat base + unat cap - 72"
        using cap assms(2) by (simp add: unat_word_ariths unat_sub word_le_nat_alt)
      have e: "base + 944 + (cap - 1024) + 8 = base + (cap - 72)" by simp
      have top: "a \<noteq> base + 944 + (cap - 1024) + 8"
      proof
        assume "a = base + 944 + (cap - 1024) + 8"
        then have "unat a = unat (base + (cap - 72))" unfolding e by (rule arg_cong)
        then show False using u a cap by linarith
      qed
      have "hb a = 0"
        using keep [of a] a zero d [of 8] d [of 904] d [of 912] by (simp add: blank_mstate_def zero_words_def)
      then show "h a = 0" using d [of 952] top by (simp only: h_def fun_upd_apply) simp
    qed
  qed
qed

lemma ucast_wr32: "ucast ((x AND NOT 0xFFFFFFFF) OR ucast v :: 64 word) = (v :: 32 word)"
proof -
  have m: "(0xFFFFFFFF :: 64 word) = mask 32" by (simp add: mask_eq_exp_minus_1)
  show ?thesis
    unfolding m by (rule bit_word_eqI) (simp add: bit_simps)
qed

lemma initialized_magic:
  assumes "ensure_initialization os s = Ret s0"
  shows "mp_magic (mparams s0) \<noteq> 0"
proof (cases "mp_magic (mparams s) = 0")
  case True
  have "bit (((sys_time os XOR 0x55555555) OR 8) AND NOT 7) 3"
    by (simp add: bit_simps)
  then have "((sys_time os XOR 0x55555555) OR 8) AND NOT 7 \<noteq> 0"
    by (metis bit_0_eq bot_apply bot_bool_def)
  then show ?thesis
    using assms True
    by (auto simp: ensure_initialization_def init_mparams_def Let_def split: if_splits)
qed (use assms in \<open>auto simp: ensure_initialization_def\<close>)

lemma create_top_only:
  assumes "ensure_initialization os s = Ret s0" "is_aligned base" "0 < base" "is_aligned cap"
    "unat base + unat cap < 2 ^ 64" "1024 < cap" "cap < capacity_limit s0"
  obtains s1 where "create_mspace_with_base os base cap l s = Ret (base + 16, s1)" "top_only s1"
    "sole_segment s1" "mtop s1 = base + 944" "topsize s1 = cap - 1024" "mst s1 = base + 16"
    "least_addr s1 = base" "mparams s1 = mparams s0" "footprint_limit s1 = 0"
    "mflags s1 = default_mflags (mparams s0) OR USE_NONCONTIGUOUS_BIT"
    "head s1 base = 947" "head s1 (mtop s1 + topsize s1) = 80" "footprint s1 = cap" "max_footprint s1 = cap"
    "seg_base s1 (first_seg s1) = base"
    "\<And>a. unat base + 616 \<le> unat a \<Longrightarrow> unat a < unat base + 904 \<Longrightarrow> heap s1 a = 0"
proof -
  obtain h where i: "init_user_mstate base cap s0 = (blank_mstate base cap s0)\<lparr>heap := h, mtop := base + 944,
       topsize := cap - 1024, trim_check := trim_threshold (mparams s0)\<rparr>"
    and h: "h (base + 952) = (cap - 1024) OR 1" "h (base + 904) = base" "h (base + 912) = cap"
    "h (base + 920) = 0" "h (base + 8) = 947" "h (base + 944 + (cap - 1024) + 8) = 80"
    "\<forall>a. unat base + 616 \<le> unat a \<and> unat a < unat base + 904 \<longrightarrow> h a = 0"
    using init_user_mstate_spec [OF assms(2) less_imp_le [OF assms(5)] assms(6)] by blast
  define s1 where "s1 = set_lock l (set_sflags (first_seg (init_user_mstate base cap s0)) EXTERN_BIT (init_user_mstate base cap s0))"
  have cap: "1024 < unat cap" using assms(6) by (simp add: word_less_nat_alt)
  have at: "unat (base + n) = unat base + unat n" if "unat n \<le> 1024" for n
    using that cap assms(5) by (simp add: unat_word_ariths)
  have fields: "mst s1 = base + 16" "mtop s1 = base + 944" "topsize s1 = cap - 1024" "smallmap s1 = 0"
    "treemap s1 = 0" "dvsize s1 = 0" "dv s1 = 0" "least_addr s1 = base" "mparams s1 = mparams s0"
    "footprint_limit s1 = 0" "mflags s1 = default_mflags (mparams s0) OR USE_NONCONTIGUOUS_BIT"
    "footprint s1 = cap" "max_footprint s1 = cap"
    by (simp_all add: USE_LOCK_BIT_def s1_def i set_lock_def set_sflags_def wr32_def wr_def blank_mstate_def)
  have heap: "heap s1 a = h a" if "a \<noteq> base + 928" for a
    using that by (simp add: s1_def i set_lock_def set_sflags_def wr32_def wr_def blank_mstate_def
        first_seg_def dl_consts add.commute [of _ base])
  have flags: "sflags s1 (base + 904) = EXTERN_BIT"
    by (simp add: s1_def i set_lock_def set_sflags_def sflags_def rd32_def wr32_def wr_def blank_mstate_def
        first_seg_def dl_consts add.commute [of _ base] ucast_wr32 [where v = 8, simplified])
  have seg: "first_seg s1 = base + 904"
    using fields(1) by (simp add: first_seg_def dl_consts add.commute)
  have heap_at: "heap s1 (base + 952) = (cap - 1024) OR 1" "heap s1 (base + 904) = base"
    "heap s1 (base + 912) = cap" "heap s1 (base + 920) = 0"
    using h by (simp_all add: heap)
  have size: "unat (cap - 1024) = unat cap - 1024"
    using cap by (simp add: unat_sub word_le_nat_alt)
  have head: "head s1 (base + 944) = (cap - 1024) OR 1"
    using heap_at(1) by (simp add: head_def add.commute [of _ base])
  have top: "top_only s1"
    using assms(2,3,4,5) cap at [of 944] size fields head
    by (auto simp: top_only_def is_aligned_iff word_le_nat_alt word_less_nat_alt dl_consts)
  have segs: "seg_base s1 (base + 904) = base" "seg_size s1 (base + 904) = cap" "seg_next s1 (base + 904) = 0"
    using heap_at by (simp_all add: seg_base_def seg_size_def seg_next_def add.commute [of _ base])
  have foot: "head s1 (mtop s1 + topsize s1) = 80" "head s1 base = 947"
  proof -
    have e: "unat (cap - 72) = unat cap - 72" using cap by (simp add: unat_sub word_le_nat_alt)
    have "unat (base + (cap - 72)) = unat base + unat cap - 72"
      using cap assms(5) e by (simp add: unat_word_ariths)
    then have "base + (cap - 72) \<noteq> base + 928" using cap at [of 928] by auto
    moreover have "base + 944 + (cap - 1024) + 8 = base + (cap - 72)" by simp
    ultimately show "head s1 (mtop s1 + topsize s1) = 80"
      using h(6) heap [of "base + 944 + (cap - 1024) + 8"] by (simp only: head_def fields) simp
    show "head s1 base = 947" using h(5) heap [of "base + 8"] by (simp add: head_def)
  qed
  have fz: "base + 904 \<noteq> 0"
    using at [of 904] by (auto dest: arg_cong [where f = unat])
  have sole: "sole_segment s1"
    using segs fz fields(2,3,9) initialized_magic [OF assms(1)] flags size at [of 904] at [of 944] cap assms(5)
    by (auto simp: sole_segment_def seg is_extern_segment_def segment_holds_def word_le_nat_alt word_less_nat_alt unat_word_ariths dl_consts)
  have "create_mspace_with_base os base cap l s = Ret (base + 16, s1)"
    using assms(1,6,7) cap fields(1)
    by (simp add: create_mspace_with_base_def Let_def msize i s1_def blank_mstate_def word_less_nat_alt
        set_sflags_def wr32_def wr_def dl_consts)
  moreover have "heap s1 a = 0" if "unat base + 616 \<le> unat a" "unat a < unat base + 904" for a
  proof -
    have "a \<noteq> base + 928" using at [of 928] that by auto
    then show ?thesis using h(7) heap that by simp
  qed
  ultimately show thesis using that top sole fields foot segs(1) seg by simp
qed

section \<open>Freeing what borders top\<close>

lemma trim_fails:
  assumes "sole_segment s" "0 < mtop s" "0 < topsize s" "topsize s > trim_check s"
  shows "sys_trim os 0 s = Ret (False, s\<lparr>release_checks := MAX_RELEASE_CHECK_RATE, trim_check := MAX_SIZE_T\<rparr>)"
proof -
  let ?f = "first_seg s"
  have f: "unat ?f + 32 \<le> unat (mtop s)" "seg_next s ?f = 0" "is_extern_segment s ?f"
    using assms(1) by (auto simp: sole_segment_def)
  have fz: "?f \<noteq> 0" using assms(1) by (simp add: sole_segment_def)
  have holds: "segment_holds s ?f (mtop s)"
    using assms(1,3)
    by (auto simp: sole_segment_def segment_holds_def word_less_nat_alt word_le_nat_alt unat_word_ariths)
  have "segment_holding s (mtop s) = Some ?f"
    using holds unfolding segment_holding_def segment_holds_def
    by (subst segment_holding_from.simps) simp
  then have "shrink_top os pad s = Ret (0, s)" for pad
    using f(3) fz by (simp add: shrink_top_def Let_def)
  moreover have "release_unused_segments os s = Ret (0, s\<lparr>release_checks := MAX_RELEASE_CHECK_RATE\<rparr>)"
    unfolding release_unused_segments_def f(2)
    by (subst release_from.simps) (simp add: dl_consts)
  moreover have "ensure_initialization os s = Ret s"
    using assms(1) by (simp add: ensure_initialization_def sole_segment_def)
  ultimately show ?thesis
    using assms(2,4) by (auto simp: sys_trim_def Let_def is_initialized_def dl_consts)
qed

lemma aligned_or_bits:
  fixes n :: size_t
  assumes "is_aligned n"
  shows "(n OR 1) AND 2 = 0" "(n OR 1) AND 1 = 1" "(n OR 3) AND 3 = 3" "(n OR 3) AND 1 = 1"
    "(n OR 3) AND NOT 7 = n" "(n OR 1) AND NOT 3 = n"
proof -
  have low: "n AND m = 0" if "15 AND m = m" for m
  proof -
    have "n AND m = (n AND 15) AND m" using that by (simp add: and.assoc)
    then show ?thesis using assms by (simp add: is_aligned_def dl_consts)
  qed
  have high: "n AND NOT m = n" if "15 AND m = m" for m
  proof -
    have "(n AND NOT m) OR (n AND m) = n AND (NOT m OR m)"
      by (rule bit.conj_disj_distrib [symmetric])
    also have "\<dots> = n" by (simp only: bit.disj_cancel_left bit.conj_one_right)
    finally show ?thesis using low [OF that] by simp
  qed
  have d: "(n OR k) AND m = (n AND m) OR (k AND m)" for k m :: size_t
    by (rule bit.conj_disj_distrib2)
  show "(n OR 1) AND 2 = 0" "(n OR 1) AND 1 = 1" "(n OR 3) AND 3 = 3" "(n OR 3) AND 1 = 1"
    unfolding d using low [of 2] low [of 1] low [of 3] by simp_all
  show "(n OR 3) AND NOT 7 = n" "(n OR 1) AND NOT 3 = n"
    unfolding d using high [of 7] high [of 3] by simp_all
qed

lemma free_into_top:
  assumes "top_only s" "sole_segment s" "is_aligned nb" "0 < nb" "p + nb = mtop s" "p < mtop s"
    "least_addr s \<le> p" "0 < p" "is_aligned p" "head s p = nb OR 3" "unat (first_seg s) + 32 \<le> unat p"
    "seg_base s (first_seg s) \<le> p"
  obtains t where "mspace_free os (chunk2mem p) s = Ret t" "top_only t" "sole_segment t" "mtop t = p"
    "topsize t = topsize s + nb" "unat (topsize s + nb) = unat (topsize s) + unat nb" "heap t = (heap s)(p + 8 := (topsize s + nb) OR 1)"
    "least_addr t = least_addr s" "mst t = mst s" "footprint t = footprint s" "max_footprint t = max_footprint s"
proof -
  have z: "smallmap s = 0" "treemap s = 0" "dvsize s = 0" "dv s = 0" "is_aligned (mtop s)" "is_aligned (topsize s)"
    "0 < topsize s" "least_addr s \<le> mtop s" "head s (mtop s) = topsize s OR 1"
    using assms(1) by (simp_all add: top_only_def dl_consts)
  define t0 where "t0 = s\<lparr>heap := (heap s)(p + 8 := (topsize s + nb) OR 1), mtop := p, topsize := topsize s + nb\<rparr>"
  define t where "t = (if topsize t0 > trim_check t0
    then t0\<lparr>release_checks := MAX_RELEASE_CHECK_RATE, trim_check := MAX_SIZE_T\<rparr> else t0)"
  have u: "unat (topsize s + nb) = unat (topsize s) + unat nb" "unat p + unat nb = unat (mtop s)"
  proof -
    show p: "unat p + unat nb = unat (mtop s)"
      using assms(5,6) unat_plus_simple [of p nb] by (metis word_le_nat_alt less_imp_le le_less word_less_nat_alt)
    then have "unat (topsize s) + unat nb < 2 ^ 64"
      using assms(1) by (auto simp: top_only_def dl_consts)
    then show "unat (topsize s + nb) = unat (topsize s) + unat nb" by (simp add: unat_word_ariths)
  qed
  have mem: "chunk2mem p \<noteq> 0"
  proof -
    have "unat p < 2 ^ 64 - 16"
      using u(2) assms(1) by (auto simp: top_only_def dl_consts)
    then have "unat (chunk2mem p) = unat p + 16"
      by (simp add: chunk2mem_def unat_word_ariths dl_consts)
    then show ?thesis by auto
  qed
  have mp: "mem2chunk (chunk2mem p) = p" by (simp add: mem2chunk_def chunk2mem_def)
  have sz: "chunksize s p = nb" "is_inuse s p" "pinuse s p"
    using aligned_or_bits [OF assms(3)] assms(10)
    by (simp_all add: chunksize_def is_inuse_def pinuse_def dl_consts)
  have nx: "pinuse s (mtop s)" "\<not> cinuse s (mtop s)"
    using aligned_or_bits [OF z(6)] z(9) by (simp_all add: pinuse_def cinuse_def dl_consts)
  have bwd: "merge_backward os p nb (mtop s) s = Ret (Inr (p, nb, s))"
    using sz(3) by (simp add: merge_backward_def)
  have fwd: "merge_forward p nb (mtop s) s = Ret (Into_top (topsize s + nb), t0)"
    using nx(2) z(4) assms(8)
    by (simp add: merge_forward_def Let_def set_head_def wr_def t0_def dl_consts)
  have hp: "head t0 p = topsize t0 OR 1" by (simp add: t0_def head_def)
  have al: "is_aligned (topsize s + nb)" using z(6) assms(3) u(1) by (simp add: is_aligned_iff)
  have top0: "top_only t0"
    using assms(1,4,7,8,9) u al hp
    by (auto simp: top_only_def t0_def dl_consts word_less_nat_alt)
  have seg: "heap t0 (first_seg s + n) = heap s (first_seg s + n)" if "unat n \<le> 24" for n
  proof -
    have "unat (first_seg s + n) = unat (first_seg s) + unat n" "unat (p + 8) = unat p + 8"
      using that assms(11) u(2) assms(1) by (auto simp: unat_word_ariths top_only_def dl_consts)
    then have "first_seg s + n \<noteq> p + 8" using that assms(11) by (auto dest: arg_cong [where f = unat])
    then show ?thesis by (simp add: t0_def)
  qed
  have fs: "first_seg t0 = first_seg s" by (simp add: t0_def first_seg_def)
  have sole0: "sole_segment t0"
    using assms(2,11,12) seg [of 0] seg [of 8] seg [of 16] seg [of 24] u
    unfolding sole_segment_def fs
    by (simp add: seg_base_def seg_size_def seg_next_def is_extern_segment_def sflags_def rd32_def
        dl_consts) (simp add: t0_def)
  have free: "mspace_free os (chunk2mem p) s =
      (if should_trim t0 (topsize t0) then dbind (sys_trim os 0 t0) (\<lambda>(b, s). Ret s) else Ret t0)"
    using mem mp sz nx(1) bwd fwd assms(5,6,7)
    by (simp add: mspace_free_def Let_def ok_address_def ok_inuse_def ok_next_def ok_pinuse_def)
      (simp add: t0_def)
  have "mspace_free os (chunk2mem p) s = Ret t"
    using free trim_fails [OF sole0] assms(8) top0
    by (auto simp: should_trim_def t_def top_only_def)
  moreover have "top_only t" using top0 by (auto simp: t_def top_only_def head_def)
  moreover have "sole_segment t"
    using sole0 by (auto simp: t_def sole_segment_def first_seg_def seg_base_def seg_size_def seg_next_def
        is_extern_segment_def sflags_def rd32_def)
  ultimately show thesis
    by (rule that) (use u in \<open>simp_all add: t_def t0_def\<close>)
qed

lemma sole_segment_split:
  assumes "top_only s" "sole_segment s" "is_aligned nb" "0 < nb" "nb < topsize s"
  shows "sole_segment (snd (split_top nb s))"
proof -
  let ?s = "snd (split_top nb s)"
  note u = top_only_split [OF assms(1,3,4,5)]
  have sum: "unat (mtop s) + unat (topsize s) + 80 < 2 ^ 64" "unat (first_seg s) + 32 \<le> unat (mtop s)"
    using assms(2) by (simp_all add: sole_segment_def dl_consts)
  have nb: "unat nb < unat (topsize s)" using assms(5) by (simp add: word_less_nat_alt)
  have seg: "heap ?s (first_seg s + n) = heap s (first_seg s + n)" if "unat n \<le> 24" for n
  proof -
    have "unat (first_seg s + n) = unat (first_seg s) + unat n" "unat (mtop s + 8) = unat (mtop s) + 8"
      "unat (mtop s + nb + 8) = unat (mtop s) + unat nb + 8"
      using that sum nb u(2) by (simp_all add: unat_word_ariths)
    then have "first_seg s + n \<noteq> mtop s + 8" "first_seg s + n \<noteq> mtop s + nb + 8"
      using that sum by (auto dest!: arg_cong [where f = unat])
    then show ?thesis by (simp add: split_top_simps)
  qed
  have fs: "first_seg ?s = first_seg s" by (simp add: first_seg_def split_top_simps)
  show ?thesis
    using assms(2) seg [of 0] seg [of 8] seg [of 16] seg [of 24] u nb sum
    unfolding sole_segment_def fs
    by (auto simp: seg_base_def seg_size_def seg_next_def is_extern_segment_def sflags_def rd32_def
        split_top_simps dl_consts word_le_nat_alt)
qed

section \<open>A new heap\<close>

lemma refusing_system_initialises:
  obtains s0 where "ensure_initialization refusing_system (zero_state 0) = Ret s0"
    "page_size (mparams s0) = 4096"
proof -
  have "\<exists>s0. ensure_initialization refusing_system (zero_state 0) = Ret s0 \<and> page_size (mparams s0) = 4096"
    by (simp add: ensure_initialization_def init_mparams_def Let_def pow2_def refusing_system_def
        zero_state_def dl_consts)
  then show thesis using that by blast
qed

text \<open>
  C33: On a heap just created, whatever the base address, a sequence of requests that fits gets the
  same offsets from the base on every PE; the blocks are aligned, lie inside the heap behind the
  allocator's own state, hold the requested bytes and do not overlap.
\<close>

theorem fresh_heap_is_symmetric:
  assumes "ensure_initialization os s = Ret s0" "is_aligned base" "0 < base" "is_aligned cap"
    "unat base + unat cap < 2 ^ 64" "1024 < cap" "cap < capacity_limit s0"
    "\<forall>b\<in>set bs. b < MAX_REQUEST" "total bs < unat cap - 1024"
  shows "\<exists>m s1 s2. create_mspace_with_base os base cap l s = Ret (m, s1) \<and> m \<noteq> 0
    \<and> mallocs os bs s1 = Ret (map ((+) base) (offsets 944 bs), s2)
    \<and> length (offsets 944 bs) = length bs
    \<and> (\<forall>i < length bs. is_aligned (base + offsets 944 bs ! i) \<and> 960 \<le> unat (offsets 944 bs ! i)
          \<and> unat (offsets 944 bs ! i) + unat (bs ! i) < unat cap)
    \<and> (\<forall>j < length bs. \<forall>i < j. unat (offsets 944 bs ! i) + unat (bs ! i) < unat (offsets 944 bs ! j))"
proof -
  have cap: "1024 < unat cap" using assms(6) by (simp add: word_less_nat_alt)
  obtain s1 where s1: "create_mspace_with_base os base cap l s = Ret (base + 16, s1)" "top_only s1"
    "mtop s1 = base + 944" "topsize s1 = cap - 1024"
    using create_top_only [OF assms(1-7)] by metis
  have "total bs < unat (topsize s1)"
    using assms(9) cap s1(4) by (simp add: unat_sub word_le_nat_alt)
  then obtain s2 where s2: "mallocs os bs s1 = Ret (offsets (mtop s1) bs, s2)"
    using mallocs_from_top [OF s1(2) assms(8)] by blast
  have eq: "offsets (mtop s1) bs = map ((+) base) (offsets 944 bs)"
    by (simp add: offsets_add s1(3))
  have a: "unat (944 :: size_t) + total bs + 16 < 2 ^ 64" "is_aligned 944"
    using assms(5,9) by (simp_all add: is_aligned_iff)
  note off = offsets_bounds [OF a(1) assms(8) a(2)]
  have "is_aligned (base + offsets 944 bs ! i) \<and> 960 \<le> unat (offsets 944 bs ! i)
      \<and> unat (offsets 944 bs ! i) + unat (bs ! i) < unat cap" if "i < length bs" for i
  proof -
    have "unat (base + offsets 944 bs ! i) = unat base + unat (offsets 944 bs ! i)"
    proof -
      have "unat (offsets 944 bs ! i) \<le> 952 + total bs" using off(2) [OF that] by simp
      then have "unat (offsets 944 bs ! i) < unat cap" using assms(9) cap by linarith
      then have "unat base + unat (offsets 944 bs ! i) < 2 ^ 64" using assms(5) by simp
      then show ?thesis by (simp add: unat_word_ariths)
    qed
    then show ?thesis
      using off(2) [OF that] assms(2,9) by (auto simp: is_aligned_iff)
  qed
  moreover have "unat (offsets 944 bs ! i) + unat (bs ! i) < unat (offsets 944 bs ! j)"
    if "j < length bs" "i < j" for i j
    using off(3) [OF that(2,1)] by simp
  moreover have "base + 16 \<noteq> 0"
    using cap assms(5) by (auto dest!: arg_cong [where f = unat] simp: unat_word_ariths)
  ultimately show ?thesis
    using s1(1) s2 eq off(1) by auto
qed

theorem fresh_heap_is_symmetric_witness:
  "\<exists>m s1 s2. create_mspace_with_base refusing_system 0x10000 0x10000 False (zero_state 0) = Ret (m, s1)
     \<and> mallocs refusing_system [100, 0, 4000] s1 = Ret ([0x103C0, 0x10430, 0x10450], s2)"
proof -
  obtain s0 where s0: "ensure_initialization refusing_system (zero_state 0) = Ret s0"
    "page_size (mparams s0) = 4096" by (rule refusing_system_initialises)
  have off: "offsets 944 [100, 0, 4000] = [960, 1072, 1104]" by code_simp
  have tot: "total [100, 0, 4000] = 4160" by code_simp
  have eq: "map ((+) 0x10000) (offsets 944 [100, 0, 4000]) = [0x103C0, 0x10430, 0x10450]"
    unfolding off by simp
  have h: "is_aligned 0x10000" "0 < (0x10000 :: addr)" "unat (0x10000 :: addr) + unat (0x10000 :: addr) < 2 ^ 64"
    "1024 < (0x10000 :: addr)" "\<forall>b\<in>set [100, 0, 4000]. b < MAX_REQUEST"
    "total [100, 0, 4000] < unat (0x10000 :: addr) - 1024" "(0x10000 :: addr) < capacity_limit s0"
    unfolding tot using s0(2) by (simp_all add: is_aligned_iff capacity_limit_def msize dl_consts)
  show ?thesis
    using fresh_heap_is_symmetric [OF s0(1) h(1,2,1,3,4,7,5,6), of False] unfolding eq by blast
qed

lemma example_heap:
  obtains s1 where "create_mspace_with_base refusing_system 0x10000 0x10000 False (zero_state 0) = Ret (0x10010, s1)"
    "top_only s1" "sole_segment s1" "mtop s1 = 0x103B0" "topsize s1 = 0xFC00"
proof -
  obtain s0 where s0: "ensure_initialization refusing_system (zero_state 0) = Ret s0"
    "page_size (mparams s0) = 4096" by (rule refusing_system_initialises)
  show thesis
    using create_top_only [OF s0(1), of "0x10000" "0x10000" False] that s0(2)
    by (simp add: is_aligned_iff capacity_limit_def msize dl_consts) blast
qed

end
