(* ===== verification/Dl_Heap.thy ===== *)
theory Dl_Heap
  imports Dl_Free_Bins Dl_Top
begin

unbundle bit_operations_syntax

text \<open>
  The heap of an mspace with one segment as a row of cells from its first chunk to \<open>top\<close>: each cell is a
  chunk in use or a free chunk. No two free chunks lie next to each other and none borders \<open>top\<close>; the free
  chunks are those of the bins and the designated victim.
\<close>

section \<open>Rows of cells\<close>

type_synonym cell = "size_t \<times> bool"

fun width :: "cell list \<Rightarrow> nat" where
  "width [] = 0"
| "width ((n, v) # cs) = unat n + width cs"

fun cell_end :: "addr \<Rightarrow> cell list \<Rightarrow> addr" where
  "cell_end p [] = p"
| "cell_end p ((n, v) # cs) = cell_end (p + n) cs"

fun last_used :: "bool \<Rightarrow> cell list \<Rightarrow> bool" where
  "last_used u [] = u"
| "last_used u ((n, v) # cs) = last_used v cs"

fun free_cells :: "addr \<Rightarrow> cell list \<Rightarrow> addr set" where
  "free_cells p [] = {}"
| "free_cells p ((n, v) # cs) = (if v then {} else {p}) \<union> free_cells (p + n) cs"

fun used_cells :: "addr \<Rightarrow> cell list \<Rightarrow> (addr \<times> size_t) set" where
  "used_cells p [] = {}"
| "used_cells p ((n, v) # cs) = (if v then {(p, n)} else {}) \<union> used_cells (p + n) cs"

text \<open>The head of a chunk whose predecessor is in use (\<open>u\<close>) and that is itself in use (\<open>v\<close>)\<close>

definition cell_head :: "size_t \<Rightarrow> bool \<Rightarrow> bool \<Rightarrow> size_t" where
  "cell_head n u v = n OR (if u then 1 else 0) OR (if v then 2 else 0)"

lemma low_bits: "bit (1 :: size_t) i \<longleftrightarrow> i = 0" "bit (2 :: size_t) i \<longleftrightarrow> i = 1" "bit (3 :: size_t) i \<longleftrightarrow> i < 2"
  "bit (7 :: size_t) i \<longleftrightarrow> i < 3"
proof -
  have m: "bit (mask k :: size_t) i \<longleftrightarrow> i < k" if "k < 64" for k using that by (auto simp: bit_mask_iff)
  show "bit (1 :: size_t) i \<longleftrightarrow> i = 0" by (simp add: bit_1_iff)
  have "(2 :: size_t) = push_bit 1 1" by simp
  then show "bit (2 :: size_t) i \<longleftrightarrow> i = 1" by (simp only: bit_push_bit_iff bit_1_iff) auto
  have "(3 :: size_t) = mask 2" by (simp add: mask_eq_exp_minus_1)
  then show "bit (3 :: size_t) i \<longleftrightarrow> i < 2" by (simp only: m)
  have "(7 :: size_t) = mask 3" by (simp add: mask_eq_exp_minus_1)
  then show "bit (7 :: size_t) i \<longleftrightarrow> i < 3" by (simp only: m)
qed

lemma aligned_high:
  assumes "is_aligned n" "bit n i"
  shows "4 \<le> i"
proof (rule ccontr)
  assume "\<not> 4 \<le> i"
  then have "bit (mask 4 :: size_t) i" by (simp add: bit_mask_iff)
  moreover have "(15 :: size_t) = mask 4" by (simp add: mask_eq_exp_minus_1)
  ultimately have "bit (n AND 15) i" using assms(2) by (simp only: bit_and_iff)
  then show False using assms(1) by (simp add: is_aligned_def dl_consts)
qed

lemma cell_bits:
  assumes "is_aligned n"
  shows "cell_head n u v AND 1 = (if u then 1 else 0)" "cell_head n u v AND 2 = (if v then 2 else 0)"
    "cell_head n u v AND NOT 7 = n" "cell_head n u v AND 3 = (if u then 1 else 0) OR (if v then 2 else 0)"
    "cell_head n u v OR 1 = cell_head n True v" "cell_head n u v AND NOT 1 = cell_head n False v"
    "n OR 1 = cell_head n True False" "n OR 3 = cell_head n True True"
proof -
  note [dest] = aligned_high [OF assms]
  note [simp] = low_bits
  show "cell_head n u v AND 1 = (if u then 1 else 0)" "cell_head n u v AND 2 = (if v then 2 else 0)"
    "cell_head n u v AND NOT 7 = n" "cell_head n u v AND 3 = (if u then 1 else 0) OR (if v then 2 else 0)"
    "cell_head n u v OR 1 = cell_head n True v" "cell_head n u v AND NOT 1 = cell_head n False v"
    "n OR 1 = cell_head n True False" "n OR 3 = cell_head n True True"
    by (rule bit_word_eqI; cases u; cases v;
        simp only: cell_head_def bit_or_iff bit_and_iff bit_not_iff low_bits if_True if_False; auto)+
qed

lemma cell_size: "head s p = cell_head n u v \<Longrightarrow> is_aligned n \<Longrightarrow> chunksize s p = n"
  by (simp only: chunksize_def dl_consts cell_bits(3))

lemma set_inuse_head: "is_aligned n \<Longrightarrow> (cell_head n u v AND 1) OR m OR 2 = cell_head m u True"
  by (simp only: cell_bits(1)) (simp add: cell_head_def or.commute or.left_commute)

fun cells :: "malloc_state \<Rightarrow> addr \<Rightarrow> bool \<Rightarrow> cell list \<Rightarrow> bool" where
  "cells s p u [] \<longleftrightarrow> True"
| "cells s p u ((n, v) # cs) \<longleftrightarrow>
     head s p = cell_head n u v \<and> is_aligned n \<and> 32 \<le> unat n
       \<and> (\<not> v \<longrightarrow> u \<and> prev_foot s (p + n) = n) \<and> cells s (p + n) v cs"

text \<open>The words of the heap that the row is made of\<close>

fun cell_words :: "addr \<Rightarrow> cell list \<Rightarrow> addr set" where
  "cell_words p [] = {}"
| "cell_words p ((n, v) # cs) = insert (p + 8) ((if v then {} else {p + n}) \<union> cell_words (p + n) cs)"

lemma row_append [simp]:
  "width (xs @ ys) = width xs + width ys"
  "cell_end p (xs @ ys) = cell_end (cell_end p xs) ys"
  "last_used u (xs @ ys) = last_used (last_used u xs) ys"
  "free_cells p (xs @ ys) = free_cells p xs \<union> free_cells (cell_end p xs) ys"
  "used_cells p (xs @ ys) = used_cells p xs \<union> used_cells (cell_end p xs) ys"
  "cells s p u (xs @ ys) \<longleftrightarrow> cells s p u xs \<and> cells s (cell_end p xs) (last_used u xs) ys"
  "cell_words p (xs @ ys) = cell_words p xs \<union> cell_words (cell_end p xs) ys"
  by (induction xs arbitrary: p u rule: width.induct) auto

lemma cells_cong:
  "(\<And>a. a \<in> cell_words p cs \<Longrightarrow> malloc_state.heap s' a = malloc_state.heap s a) \<Longrightarrow> cells s' p u cs = cells s p u cs"
  by (induction s p u cs rule: cells.induct) (simp_all add: head_def prev_foot_def)

lemma frees_split: "x \<in> free_cells p cs \<Longrightarrow> \<exists>xs n ys. cs = xs @ (n, False) # ys \<and> x = cell_end p xs"
proof (induction p cs rule: free_cells.induct)
  case (2 p n v cs)
  then consider "\<not> v" "x = p" | "x \<in> free_cells (p + n) cs" by (auto split: if_splits)
  then show ?case
  proof cases
    case 1
    then show ?thesis by (intro exI [of _ "[]"]) auto
  next
    case 2
    then obtain xs m ys where "cs = xs @ (m, False) # ys" "x = cell_end (p + n) xs" using "2.IH" by blast
    then show ?thesis by (intro exI [of _ "(n, v) # xs"]) auto
  qed
qed simp

lemma used_split: "(x, n) \<in> used_cells p cs \<Longrightarrow> \<exists>xs ys. cs = xs @ (n, True) # ys \<and> x = cell_end p xs"
proof (induction p cs rule: used_cells.induct)
  case (2 p m v cs)
  then consider "v" "x = p" "n = m" | "(x, n) \<in> used_cells (p + m) cs" by (auto split: if_splits)
  then show ?case
  proof cases
    case 1
    then have "(m, v) # cs = [] @ (n, True) # cs \<and> x = cell_end p []" by simp
    then show ?thesis by blast
  next
    case 2
    then obtain xs ys where "cs = xs @ (n, True) # ys" "x = cell_end (p + m) xs" using "2.IH" by blast
    then have "(m, v) # cs = ((m, v) # xs) @ (n, True) # ys \<and> x = cell_end p ((m, v) # xs)" by simp
    then show ?thesis by blast
  qed
qed simp

section \<open>Where the cells lie\<close>

lemma addr_below: "unat (x :: addr) < 2 ^ 64"
  using unsigned_less [of x] by simp

lemma unat_step: "unat p + width ((n, v) # cs) < 2 ^ 64 \<Longrightarrow> unat (p + n) = unat p + unat n"
  by (rule unat_field) simp

lemma unat_cell_end: "unat p + width cs < 2 ^ 64 \<Longrightarrow> unat (cell_end p cs) = unat p + width cs"
proof (induction p cs rule: cell_end.induct)
  case (2 p n v cs)
  then show ?case using unat_step [OF "2.prems"] by simp
qed simp

lemma cell_words_range:
  assumes "cells s p u cs" "unat p + width cs + 8 < 2 ^ 64" "a \<in> cell_words p cs"
  shows "unat p + 8 \<le> unat a \<and> unat a \<le> unat p + width cs"
  using assms
proof (induction s p u cs rule: cells.induct)
  case (2 s p u n v cs)
  have n: "unat (p + n) = unat p + unat n" "unat (p + 8) = unat p + 8" "32 \<le> unat n"
    using unat_step [of p n v cs] unat_field [of p 8] "2.prems"(1,2) by simp_all
  consider "a = p + 8" | "a = p + n" | "a \<in> cell_words (p + n) cs" using "2.prems"(3) by (auto split: if_splits)
  then show ?case
  proof cases
    case 3
    then show ?thesis using "2.IH" "2.prems"(1,2) n by simp
  qed (use n in simp_all)
qed simp

lemma frees_range:
  assumes "cells s p u cs" "unat p + width cs + 8 < 2 ^ 64" "x \<in> free_cells p cs"
  shows "unat p \<le> unat x" "unat x + unat (chunksize s x) \<le> unat p + width cs" "32 \<le> unat (chunksize s x)"
    "is_aligned (chunksize s x)" "is_aligned p \<Longrightarrow> is_aligned x"
proof -
  obtain xs n ys where cs: "cs = xs @ (n, False) # ys" "x = cell_end p xs" using frees_split [OF assms(3)] by blast
  have c: "cells s p u xs" "head s x = cell_head n (last_used u xs) False" "is_aligned n" "32 \<le> unat n" "last_used u xs"
    using assms(1) cs by simp_all
  have n: "chunksize s x = n" by (rule cell_size [OF c(2,3)])
  have x: "unat x = unat p + width xs" using unat_cell_end [of p xs] assms(2) cs by simp
  show "unat p \<le> unat x" "unat x + unat (chunksize s x) \<le> unat p + width cs" "32 \<le> unat (chunksize s x)"
    "is_aligned (chunksize s x)"
    using x n c cs(1) by simp_all
  have "16 dvd width xs" using c(1) by (induction s p u xs rule: cells.induct) (auto simp: is_aligned_iff)
  then show "is_aligned p \<Longrightarrow> is_aligned x" using x by (simp add: is_aligned_iff)
qed

lemma frees_blocks_apart:
  assumes "cells s p u cs" "unat p + width cs + 8 < 2 ^ 64" "x \<in> free_cells p cs" "y \<in> free_cells p cs" "x \<noteq> y"
  shows "block s x \<inter> block s y = {}"
  using assms
proof (induction s p u cs rule: cells.induct)
  case (2 s p u n v cs)
  have n: "unat (p + n) = unat p + unat n" using unat_step [of p n v cs] "2.prems"(2) by simp
  have tail: "cells s (p + n) v cs" "unat (p + n) + width cs + 8 < 2 ^ 64" using "2.prems"(1,2) n by simp_all
  have sz: "chunksize s p = n" using "2.prems"(1) cell_size by auto
  have first: "block s p \<inter> block s z = {}" if "z \<in> free_cells (p + n) cs" for z
    using frees_range(1) [OF tail that] n sz by (auto simp: block_def)
  show ?case
    using "2.IH" [OF tail] "2.prems"(3-5) first [of x] first [of y] by (auto split: if_splits)
qed simp

lemma cells_placed:
  assumes "cells s b u cs" "unat b + width cs + 8 < 2 ^ 64" "width cs < 2 ^ 40" "is_aligned b" "is_aligned (mst s)"
    "mst s \<noteq> 0" "unat (mst s) + 928 \<le> unat b" "least_addr s \<le> b"
  shows "placed s (free_cells b cs)"
  unfolding placed_def
proof (intro conjI ballI impI)
  show "is_aligned (mst s)" "mst s \<noteq> 0" by (fact assms)+
  show "unat (mst s) + 936 \<le> 2 ^ 64" using assms(2,7) by linarith
  fix x assume x: "x \<in> free_cells b cs"
  note r = frees_range [OF assms(1,2) x]
  have "chunksize s x < 2 ^ 40" using r(1,2) assms(3) by (simp add: word_less_nat_alt)
  moreover have "ok_address s x" using r(1) assms(8) by (simp add: ok_address_def word_le_nat_alt)
  ultimately show "chunk_placed s x" using r assms(2,4,7) by (simp add: chunk_placed_def)
  show "block s x \<inter> block s y = {}" if "y \<in> free_cells b cs" "x \<noteq> y" for y
    by (rule frees_blocks_apart [OF assms(1,2) x that])
qed

text \<open>The words of a free chunk that the bins use are no words of the row.\<close>

lemma inner_not_cell:
  assumes "cells s p u cs" "unat p + width cs + 8 < 2 ^ 64" "x \<in> free_cells p cs" "a \<in> inner s x"
  shows "a \<notin> cell_words p cs" "unat a < unat p + width cs" "unat p + 8 < unat a"
proof -
  obtain xs n ys where cs: "cs = xs @ (n, False) # ys" "x = cell_end p xs" using frees_split [OF assms(3)] by blast
  have c: "cells s p u xs" "head s x = cell_head n (last_used u xs) False" "is_aligned n" "32 \<le> unat n"
    "cells s (x + n) False ys"
    using assms(1) cs by simp_all
  have n: "chunksize s x = n" by (rule cell_size [OF c(2,3)])
  have x: "unat x = unat p + width xs" using unat_cell_end [of p xs] assms(2) cs by simp
  have e: "unat (x + n) = unat x + unat n" "unat (x + 8) = unat x + 8"
    using unat_field [of x n] unat_field [of x 8] assms(2) c(4) cs(1) x by simp_all
  have a: "unat x + 16 \<le> unat a" "unat a < unat x + unat n" using assms(4) n by (simp_all add: inner_def)
  show "unat a < unat p + width cs" "unat p + 8 < unat a" using a x cs(1) by simp_all
  have "a \<notin> cell_words p xs" using cell_words_range [OF c(1), of a] assms(2) cs(1) a x by auto
  moreover have "a \<notin> cell_words (x + n) ys"
    using cell_words_range [OF c(5), of a] assms(2) cs(1) a e x by auto
  ultimately show "a \<notin> cell_words p cs" using cs a e by auto
qed

section \<open>What belongs to the client\<close>

definition payload :: "addr \<Rightarrow> size_t \<Rightarrow> addr set" where
  "payload p n = {a. unat p + 16 \<le> unat a \<and> unat a < unat p + unat n + 8}"

definition client_words :: "addr \<Rightarrow> cell list \<Rightarrow> addr set" where
  "client_words b cs = (\<Union>(p, n)\<in>used_cells b cs. payload p n)"

lemma client_words_simps [simp]:
  "client_words p [] = {}"
  "client_words p ((n, v) # cs) = (if v then payload p n else {}) \<union> client_words (p + n) cs"
  "client_words p (xs @ ys) = client_words p xs \<union> client_words (cell_end p xs) ys"
  by (auto simp: client_words_def)

lemma client_words_range:
  assumes "cells s p u cs" "unat p + width cs + 8 < 2 ^ 64" "a \<in> client_words p cs"
  shows "unat p + 16 \<le> unat a \<and> unat a < unat p + width cs + 8"
  using assms
proof (induction s p u cs rule: cells.induct)
  case (2 s p u n v cs)
  have n: "unat (p + n) = unat p + unat n" using unat_step [of p n v cs] "2.prems"(2) by simp
  show ?case using "2.IH" "2.prems" n by (auto simp: payload_def split: if_splits)
qed simp

lemma client_not_cell:
  assumes "cells s p u cs" "unat p + width cs + 8 < 2 ^ 64" "a \<in> client_words p cs"
  shows "a \<notin> cell_words p cs"
  using assms
proof (induction s p u cs rule: cells.induct)
  case (2 s p u n v cs)
  have n: "unat (p + n) = unat p + unat n" "unat (p + 8) = unat p + 8"
    using unat_step [of p n v cs] unat_field [of p 8] "2.prems"(1,2) by simp_all
  have tail: "cells s (p + n) v cs" "unat (p + n) + width cs + 8 < 2 ^ 64" "32 \<le> unat n" using "2.prems"(1,2) n by simp_all
  consider "v" "a \<in> payload p n" | "a \<in> client_words (p + n) cs" using "2.prems"(3) by (auto split: if_splits)
  then show ?case
  proof cases
    case 1
    then show ?thesis using cell_words_range [OF tail(1,2), of a] n by (auto simp: payload_def)
  next
    case 2
    then show ?thesis using "2.IH" [OF tail(1,2)] client_words_range [OF tail(1,2) 2] n tail(3) by auto
  qed
qed simp

lemma client_not_inner:
  assumes "cells s p u cs" "unat p + width cs + 8 < 2 ^ 64" "a \<in> client_words p cs" "x \<in> free_cells p cs"
  shows "a \<notin> inner s x"
  using assms
proof (induction s p u cs rule: cells.induct)
  case (2 s p u n v cs)
  have n: "unat (p + n) = unat p + unat n" using unat_step [of p n v cs] "2.prems"(2) by simp
  have tail: "cells s (p + n) v cs" "unat (p + n) + width cs + 8 < 2 ^ 64" using "2.prems"(1,2) n by simp_all
  have sz: "chunksize s p = n" using "2.prems"(1) cell_size by auto
  show ?case
    using "2.IH" [OF tail] "2.prems"(3,4) client_words_range [OF tail, of a] frees_range(1) [OF tail, of x] n sz
    by (auto simp: payload_def inner_def split: if_splits)
qed simp

section \<open>The heap\<close>

definition heap_shape :: "addr \<Rightarrow> malloc_state \<Rightarrow> cell list \<Rightarrow> bool" where
  "heap_shape b s cs \<longleftrightarrow>
     cells s b True cs \<and> last_used True cs \<and> cell_end b cs = mtop s
       \<and> head s (mtop s) = cell_head (topsize s) True False \<and> is_aligned (topsize s) \<and> 0 < topsize s
       \<and> width cs + unat (topsize s) < 2 ^ 40 \<and> unat b + width cs + unat (topsize s) + 80 < 2 ^ 64
       \<and> is_aligned b \<and> is_aligned (mst s) \<and> mst s \<noteq> 0 \<and> unat (mst s) + 928 \<le> unat b \<and> least_addr s \<le> b
       \<and> sole_segment s \<and> seg_base s (first_seg s) \<le> b"

lemma heap_shapeD:
  assumes "heap_shape b s cs"
  shows "cells s b True cs" "last_used True cs" "cell_end b cs = mtop s"
    "head s (mtop s) = cell_head (topsize s) True False" "is_aligned (topsize s)" "0 < topsize s"
    "width cs + unat (topsize s) < 2 ^ 40" "unat b + width cs + unat (topsize s) + 80 < 2 ^ 64"
    "is_aligned b" "is_aligned (mst s)" "mst s \<noteq> 0" "unat (mst s) + 928 \<le> unat b" "least_addr s \<le> b"
    "sole_segment s" "unat b + width cs + 8 < 2 ^ 64" "width cs < 2 ^ 40" "unat (mtop s) = unat b + width cs"
    "unat (mtop s + 8) = unat b + width cs + 8" "seg_base s (first_seg s) \<le> b"
proof -
  show c: "cells s b True cs" "last_used True cs" "cell_end b cs = mtop s"
    "head s (mtop s) = cell_head (topsize s) True False" "is_aligned (topsize s)" "0 < topsize s"
    "width cs + unat (topsize s) < 2 ^ 40" "unat b + width cs + unat (topsize s) + 80 < 2 ^ 64"
    "is_aligned b" "is_aligned (mst s)" "mst s \<noteq> 0" "unat (mst s) + 928 \<le> unat b" "least_addr s \<le> b"
    "sole_segment s" "seg_base s (first_seg s) \<le> b"
    using assms unfolding heap_shape_def by blast+
  then show n: "unat b + width cs + 8 < 2 ^ 64" "width cs < 2 ^ 40" by linarith+
  then show t: "unat (mtop s) = unat b + width cs" using unat_cell_end [of b cs] c(3) by simp
  show "unat (mtop s + 8) = unat b + width cs + 8" using unat_field [of "mtop s" 8] t n(1) by simp
qed

lemma heap_placed:
  assumes "heap_shape b s cs"
  shows "placed s (free_cells b cs)"
proof -
  note H = heap_shapeD [OF assms]
  show ?thesis by (rule cells_placed [OF H(1,15,16,9-13)])
qed

text \<open>The words the shape depends on\<close>

definition seg_words :: "malloc_state \<Rightarrow> addr set" where
  "seg_words s = {a. unat (mst s) + 888 \<le> unat a \<and> unat a < unat (mst s) + 920}"

lemma seg_same:
  assumes "mst s' = mst s" "unat (mst s) + 936 < 2 ^ 64"
    and words: "\<And>a. a \<in> seg_words s \<Longrightarrow> malloc_state.heap s' a = malloc_state.heap s a"
  shows "seg_base s' (first_seg s') = seg_base s (first_seg s)" "seg_size s' (first_seg s') = seg_size s (first_seg s)"
    "seg_next s' (first_seg s') = seg_next s (first_seg s)" "sflags s' (first_seg s') = sflags s (first_seg s)"
proof -
  have f: "first_seg s' = first_seg s" by (simp add: first_seg_def assms(1))
  have u: "unat (first_seg s) = unat (mst s) + 888"
    using unat_field [of "mst s" 888] assms(2) by (simp add: first_seg_def dl_consts)
  have "unat (first_seg s + 8) = unat (mst s) + 896" "unat (first_seg s + 16) = unat (mst s) + 904"
    "unat (first_seg s + 24) = unat (mst s) + 912"
    using unat_field [of "first_seg s"] u assms(2) by simp_all
  with u have "malloc_state.heap s' (first_seg s) = malloc_state.heap s (first_seg s)"
    "malloc_state.heap s' (first_seg s + 8) = malloc_state.heap s (first_seg s + 8)"
    "malloc_state.heap s' (first_seg s + 16) = malloc_state.heap s (first_seg s + 16)"
    "malloc_state.heap s' (first_seg s + 24) = malloc_state.heap s (first_seg s + 24)"
    using words by (simp_all add: seg_words_def)
  then show "seg_base s' (first_seg s') = seg_base s (first_seg s)" "seg_size s' (first_seg s') = seg_size s (first_seg s)"
    "seg_next s' (first_seg s') = seg_next s (first_seg s)" "sflags s' (first_seg s') = sflags s (first_seg s)"
    unfolding f by (simp_all add: seg_base_def seg_size_def seg_next_def sflags_def rd32_def)
qed

lemma sole_segment_cong:
  assumes "sole_segment s" "mst s' = mst s" "mp_magic (mparams s') \<noteq> 0" "unat (mst s) + 928 \<le> unat (mtop s')"
    "unat (mtop s') + unat (topsize s') = unat (mtop s) + unat (topsize s)" "seg_base s (first_seg s) \<le> mtop s'"
    and words: "\<And>a. a \<in> seg_words s \<Longrightarrow> malloc_state.heap s' a = malloc_state.heap s a"
  shows "sole_segment s'" "seg_base s' (first_seg s') = seg_base s (first_seg s)"
proof -
  have m: "unat (mst s) + 936 < 2 ^ 64"
    using assms(1,4,5) by (simp add: sole_segment_def dl_consts)
  then have "unat (first_seg s) = unat (mst s) + 888"
    using unat_field [of "mst s" 888] by (simp add: first_seg_def dl_consts)
  moreover have "first_seg s' = first_seg s" by (simp add: first_seg_def assms(2))
  moreover note seg_same [OF assms(2) m words]
  ultimately show "sole_segment s'" "seg_base s' (first_seg s') = seg_base s (first_seg s)"
    using assms(1,3-6) by (auto simp: sole_segment_def is_extern_segment_def)
qed

text \<open>Everything that the shape and the bins read outside memory\<close>

definition same_globals :: "malloc_state \<Rightarrow> malloc_state \<Rightarrow> bool" where
  "same_globals s s' \<longleftrightarrow>
     mst s' = mst s \<and> least_addr s' = least_addr s \<and> mparams s' = mparams s \<and> smallmap s' = smallmap s
       \<and> treemap s' = treemap s"

text \<open>A stretch of the row is replaced; \<open>top\<close> stays or takes over the rest of the row.\<close>

lemma heap_shape_change:
  assumes "heap_shape b s cs" "mst s' = mst s" "least_addr s' = least_addr s" "mparams s' = mparams s"
    "cells s' b True cs'" "last_used True cs'" "cell_end b cs' = mtop s'"
    "head s' (mtop s') = cell_head (topsize s') True False" "is_aligned (topsize s')" "0 < topsize s'"
    "width cs' + unat (topsize s') = width cs + unat (topsize s)"
    and words: "\<And>a. a \<in> seg_words s \<Longrightarrow> malloc_state.heap s' a = malloc_state.heap s a"
  shows "heap_shape b s' cs'"
proof -
  note H = heap_shapeD [OF assms(1)]
  have m: "unat (mtop s') = unat b + width cs'"
    using unat_cell_end [of b cs'] assms(7,11) H(8) by simp
  have magic: "mp_magic (mparams s') \<noteq> 0" using H(14) by (simp add: sole_segment_def assms(4))
  have "unat (mtop s') + unat (topsize s') = unat (mtop s) + unat (topsize s)" using m H(17) assms(11) by simp
  moreover have "seg_base s (first_seg s) \<le> mtop s'" using H(19) m by (simp add: word_le_nat_alt)
  moreover have "unat (mst s) + 928 \<le> unat (mtop s')" using H(12) m by simp
  ultimately have "sole_segment s'" "seg_base s' (first_seg s') = seg_base s (first_seg s)"
    using sole_segment_cong [OF H(14) assms(2) magic _ _ _ words] by blast+
  then show ?thesis using H assms(5-11) unfolding heap_shape_def by (simp add: assms(2-4))
qed

lemma heap_shape_cong:
  assumes "heap_shape b s cs" "mst s' = mst s" "least_addr s' = least_addr s" "mparams s' = mparams s"
    "mtop s' = mtop s" "topsize s' = topsize s"
    and words: "\<And>a. a \<in> cell_words b cs \<union> {mtop s + 8} \<union> seg_words s \<Longrightarrow>
      malloc_state.heap s' a = malloc_state.heap s a"
  shows "heap_shape b s' cs"
proof -
  note H = heap_shapeD [OF assms(1)]
  have "cells s' b True cs" using H(1) cells_cong [of b cs s' s True] words by simp
  moreover have "head s' (mtop s') = head s (mtop s)" using words by (simp add: head_def assms(5))
  ultimately show ?thesis
    using H(2-6) words by (intro heap_shape_change [OF assms(1-4)]) (simp_all add: assms(5,6))
qed

lemma bins_step_shape:
  assumes "heap_shape b s cs" "bins_step s A s'" "A \<subseteq> free_cells b cs"
  shows "heap_shape b s' cs"
proof (rule heap_shape_cong [OF assms(1)])
  note H = heap_shapeD [OF assms(1)]
  note K = bins_step_keeps [OF assms(2)]
  show "mst s' = mst s" "least_addr s' = least_addr s" "mparams s' = mparams s" "mtop s' = mtop s"
    "topsize s' = topsize s" by (fact K)+
  fix a assume a: "a \<in> cell_words b cs \<union> {mtop s + 8} \<union> seg_words s"
  show "malloc_state.heap s' a = malloc_state.heap s a"
  proof (rule K(13))
    have "a \<notin> inner s x" if "x \<in> A" for x
    proof
      assume i: "a \<in> inner s x"
      note r = inner_not_cell [OF H(1,15) subsetD [OF assms(3) that] i]
      from a show False using r H(12,18) by (auto simp: seg_words_def)
    qed
    moreover have "a \<notin> bin_area s"
      using a cell_words_range [OF H(1,15), of a] H(12,18) by (auto simp: bin_area_def seg_words_def)
    ultimately show "a \<notin> bin_words s A" by (simp add: bin_words_def)
  qed
qed

definition victim_ok :: "addr \<Rightarrow> malloc_state \<Rightarrow> cell list \<Rightarrow> bool" where
  "victim_ok b s cs \<longleftrightarrow>
     (if dvsize s = 0 then dv s = 0 else dv s \<in> free_cells b cs \<and> chunksize s (dv s) = dvsize s)"

definition heap_ok :: "addr \<Rightarrow> malloc_state \<Rightarrow> cell list \<Rightarrow> bool" where
  "heap_ok b s cs \<longleftrightarrow> heap_shape b s cs \<and> victim_ok b s cs \<and> bins s (free_cells b cs - {dv s})"

lemma free_nonzero: "heap_shape b s cs \<Longrightarrow> x \<in> free_cells b cs \<Longrightarrow> x \<noteq> 0 \<and> chunksize s x \<noteq> 0"
  using placedD(4) [OF heap_placed] by (fastforce simp: chunk_placed_def)

section \<open>Changing a stretch of the row\<close>

lemma row_change:
  assumes "heap_shape b s (xs @ mid @ ys)" and p: "p = cell_end b xs"
    and same: "mst s' = mst s" "least_addr s' = least_addr s" "mparams s' = mparams s" "mtop s' = mtop s" "topsize s' = topsize s"
    and new: "width mid' = width mid" "cells s' p (last_used True xs) mid'"
      "cells s' (cell_end p mid) (last_used (last_used True xs) mid') ys" "last_used True (xs @ mid' @ ys)"
    and out: "\<And>a. unat a < unat p + 8 \<Longrightarrow> malloc_state.heap s' a = malloc_state.heap s a"
      "malloc_state.heap s' (mtop s + 8) = malloc_state.heap s (mtop s + 8)"
  shows "heap_shape b s' (xs @ mid' @ ys)"
proof (rule heap_shape_change [OF assms(1) same(1-3)])
  note H = heap_shapeD [OF assms(1)]
  have w: "unat b + width xs + width mid + width ys + 8 < 2 ^ 64" using H(15) by simp
  have u: "unat p = unat b + width xs" using unat_cell_end [of b xs] w p by simp
  have "unat (cell_end p mid') = unat (cell_end p mid)"
    using unat_cell_end [of p mid] unat_cell_end [of p mid'] u w new(1) by simp
  then have e: "cell_end p mid' = cell_end p mid" by (simp add: word_unat_eq_iff)
  have "cells s b True xs" using H(1) by simp
  moreover have "malloc_state.heap s' a = malloc_state.heap s a" if "a \<in> cell_words b xs" for a
    using cell_words_range [OF calculation _ that] w u by (intro out(1)) simp
  ultimately have "cells s' b True xs" using cells_cong [of b xs s' s] by blast
  then show "cells s' b True (xs @ mid' @ ys)" using new(2,3) p e by simp
  show "last_used True (xs @ mid' @ ys)" by (fact new)
  show "cell_end b (xs @ mid' @ ys) = mtop s'" using H(3) p e same(4) by simp
  show "head s' (mtop s') = cell_head (topsize s') True False" using H(4) out(2) by (simp add: head_def same)
  show "is_aligned (topsize s')" "0 < topsize s'" using H(5,6) same by simp_all
  show "width (xs @ mid' @ ys) + unat (topsize s') = width (xs @ mid @ ys) + unat (topsize s)"
    using new(1) same by simp
  show "malloc_state.heap s' a = malloc_state.heap s a" if "a \<in> seg_words s" for a
    using that H(12) u by (intro out(1)) (simp add: seg_words_def)
qed

lemma cells_after:
  assumes "cells s e w ((k, v) # ys)" "unat e + unat k + width ys + 8 < 2 ^ 64" "head s' e = cell_head k w' v"
    "\<not> v \<longrightarrow> w'" "\<And>a. unat e + 8 < unat a \<Longrightarrow> unat a \<le> unat e + unat k + width ys \<Longrightarrow>
      malloc_state.heap s' a = malloc_state.heap s a"
  shows "cells s' e w' ((k, v) # ys)"
proof -
  have k: "32 \<le> unat k" "unat (e + k) = unat e + unat k"
    using assms(1) unat_field [of e k] assms(2) by simp_all
  have "cells s (e + k) v ys" using assms(1) by simp
  moreover have "malloc_state.heap s' a = malloc_state.heap s a" if "a \<in> cell_words (e + k) ys" for a
    using cell_words_range [OF calculation _ that] assms(2) k by (intro assms(5)) simp_all
  ultimately have "cells s' (e + k) v ys" using cells_cong [of "e + k" ys s' s] by blast
  moreover have "prev_foot s' (e + k) = prev_foot s (e + k)"
    using assms(5) [of "e + k"] k by (simp add: prev_foot_def)
  ultimately show ?thesis using assms(1,3,4) by simp
qed

lemma free_cell:
  assumes "heap_shape b s cs" "p \<in> free_cells b cs"
  obtains xs k ys where "cs = xs @ (chunksize s p, False) # (k, True) # ys" "p = cell_end b xs" "last_used True xs"
    "is_aligned (chunksize s p)" "32 \<le> unat (chunksize s p)" "is_aligned k" "32 \<le> unat k"
    "head s p = cell_head (chunksize s p) True False" "head s (p + chunksize s p) = cell_head k False True"
    "unat p = unat b + width xs" "unat (p + chunksize s p) = unat p + unat (chunksize s p)"
    "prev_foot s (p + chunksize s p) = chunksize s p"
proof -
  note H = heap_shapeD [OF assms(1)]
  obtain xs n zs where cs: "cs = xs @ (n, False) # zs" "p = cell_end b xs" using frees_split [OF assms(2)] by blast
  have c: "head s p = cell_head n (last_used True xs) False" "is_aligned n" "32 \<le> unat n" "last_used True xs"
    "prev_foot s (p + n) = n" "cells s (p + n) False zs"
    using H(1) cs by simp_all
  have n: "chunksize s p = n" by (rule cell_size [OF c(1,2)])
  have "zs \<noteq> []" using H(2) cs(1) by auto
  then obtain k v ys where zs: "zs = (k, v) # ys" by (cases zs) auto
  then have "v" "is_aligned k" "32 \<le> unat k" "head s (p + n) = cell_head k False True" using c(6) by auto
  moreover have "unat p = unat b + width xs" using unat_cell_end [of b xs] cs H(15) by simp
  moreover from this have "unat (p + n) = unat p + unat n" using unat_field [of p n] H(15) cs(1) by simp
  ultimately show thesis using that [of xs k ys] cs c n zs by simp
qed

text \<open>The words that an operation on the bins leaves alone\<close>

lemma not_bin_words:
  assumes "heap_shape b s cs" "A \<subseteq> free_cells b cs"
    "a \<in> cell_words b cs \<or> a = mtop s + 8 \<or> a \<in> client_words b cs \<or> (\<exists>x\<in>free_cells b cs - A. a \<in> inner s x)"
  shows "a \<notin> bin_words s A"
proof -
  note H = heap_shapeD [OF assms(1)]
  have "unat b < unat a"
    using assms(3) cell_words_range [OF H(1,15), of a] client_words_range [OF H(1,15), of a] H(18)
      inner_not_cell(3) [OF H(1,15), of _ a] by fastforce
  then have "a \<notin> bin_area s" using H(12) by (simp add: bin_area_def)
  moreover have "a \<notin> inner s y" if y: "y \<in> A" for y
  proof
    assume i: "a \<in> inner s y"
    have yf: "y \<in> free_cells b cs" using y assms(2) by blast
    note r = inner_not_cell [OF H(1,15) yf i]
    from assms(3) show False
    proof (elim disjE bexE)
      show "a \<in> cell_words b cs \<Longrightarrow> False" using r(1) by blast
      show "a = mtop s + 8 \<Longrightarrow> False" using r(2) H(18) by simp
      show "a \<in> client_words b cs \<Longrightarrow> False" using client_not_inner [OF H(1,15) _ yf] i by blast
      show "x \<in> free_cells b cs - A \<Longrightarrow> a \<in> inner s x \<Longrightarrow> False" for x
        using inner_disjoint [OF heap_placed [OF assms(1)] yf, of x a] i y by blast
    qed
  qed
  ultimately show ?thesis by (simp add: bin_words_def)
qed

lemma client_outside:
  assumes "heap_shape b s cs" "a \<in> client_words b cs"
  shows "a \<notin> cell_words b cs" "a \<noteq> mtop s + 8" "A \<subseteq> free_cells b cs \<Longrightarrow> a \<notin> bin_words s A"
    "unat b + 16 \<le> unat a" "x \<in> free_cells b cs \<Longrightarrow> a \<notin> inner s x"
proof -
  note H = heap_shapeD [OF assms(1)]
  show "a \<notin> cell_words b cs" by (rule client_not_cell [OF H(1,15) assms(2)])
  show "a \<noteq> mtop s + 8" "unat b + 16 \<le> unat a" using client_words_range [OF H(1,15) assms(2)] H(18) by auto
  show "x \<in> free_cells b cs \<Longrightarrow> a \<notin> inner s x" by (rule client_not_inner [OF H(1,15) assms(2)])
  show "A \<subseteq> free_cells b cs \<Longrightarrow> a \<notin> bin_words s A" using not_bin_words [OF assms(1)] assms(2) by blast
qed

lemma cell_end_free:
  assumes "cells s b u (xs @ (n, v) # ys)" "unat b + width (xs @ (n, v) # ys) + 8 < 2 ^ 64"
  shows "cell_end b xs \<in> free_cells b (xs @ (n, v) # ys) \<longleftrightarrow> \<not> v"
proof -
  define p where "p = cell_end b xs"
  have c: "cells s b u xs" "cells s (p + n) v ys" "32 \<le> unat n" using assms(1) by (simp_all add: p_def)
  have p: "unat p = unat b + width xs" "unat (p + n) = unat p + unat n"
    using unat_cell_end [of b xs] unat_field [of p n] assms(2) by (simp_all add: p_def)
  have "p \<notin> free_cells b xs"
    using frees_range(2,3) [OF c(1), of p] assms(2) p(1) by fastforce
  moreover have "p \<notin> free_cells (p + n) ys"
    using frees_range(1) [OF c(2), of p] assms(2) p c(3) by fastforce
  ultimately show ?thesis by (simp add: p_def)
qed

lemma free_not_used:
  assumes "cells s p u cs" "unat p + width cs + 8 < 2 ^ 64" "x \<in> free_cells p cs"
  shows "(x, n) \<notin> used_cells p cs"
proof
  assume "(x, n) \<in> used_cells p cs"
  then obtain xs ys where cs: "cs = xs @ (n, True) # ys" "x = cell_end p xs" using used_split by blast
  show False using cell_end_free [of s p u xs n True ys] assms cs by simp
qed

text \<open>A step of an operation: memory changes, and the words of the client stay.\<close>

definition keeps_client :: "addr \<Rightarrow> cell list \<Rightarrow> malloc_state \<Rightarrow> malloc_state \<Rightarrow> bool" where
  "keeps_client b cs s s' \<longleftrightarrow> (\<forall>a\<in>client_words b cs. malloc_state.heap s' a = malloc_state.heap s a)"

lemma keeps_client_trans:
  "keeps_client b cs s s' \<Longrightarrow> keeps_client b ds s' s'' \<Longrightarrow> client_words b cs \<subseteq> client_words b ds \<Longrightarrow> keeps_client b cs s s''"
  unfolding keeps_client_def by (metis subsetD)

lemma bins_step_client:
  "heap_shape b s cs \<Longrightarrow> bins_step s A s' \<Longrightarrow> A \<subseteq> free_cells b cs \<Longrightarrow> keeps_client b cs s s'"
  unfolding keeps_client_def using client_outside(3) bins_step_keeps(13) by blast

text \<open>A free chunk becomes a chunk in use.\<close>

lemma use_whole:
  assumes h: "heap_shape b s cs" and p: "p \<in> free_cells b cs" and A: "A \<subseteq> free_cells b cs - {p}" "bins s A"
  defines "s' \<equiv> set_inuse_and_pinuse p (chunksize s p) s"
  shows "\<exists>cs'. heap_shape b s' cs' \<and> free_cells b cs' = free_cells b cs - {p}
    \<and> used_cells b cs' = insert (p, chunksize s p) (used_cells b cs) \<and> bins s' A \<and> keeps_client b cs s s'
    \<and> (\<forall>x\<in>free_cells b cs'. chunksize s' x = chunksize s x)"
proof -
  note H = heap_shapeD [OF h]
  define n where "n = chunksize s p"
  obtain xs k ys where c: "cs = xs @ (n, False) # (k, True) # ys" "p = cell_end b xs" "last_used True xs"
    "is_aligned n" "32 \<le> unat n" "is_aligned k" "32 \<le> unat k" "head s p = cell_head n True False"
    "head s (p + n) = cell_head k False True" "unat p = unat b + width xs" "unat (p + n) = unat p + unat n"
    using free_cell [OF h p] unfolding n_def by metis
  define q where "q = p + n"
  define cs' where "cs' = xs @ (n, True) # (k, True) # ys"
  have w: "unat b + width xs + unat n + unat k + width ys + 8 < 2 ^ 64" using H(15) c(1) by simp
  have u: "unat (p + 8) = unat p + 8" "unat q = unat p + unat n" "unat (q + 8) = unat p + unat n + 8"
    using unat_field [of p 8] unat_field [of q 8] w c(7,10,11) by (simp_all add: q_def)
  then have pq: "p + 8 \<noteq> q + 8" using c(5) by (metis add_right_cancel less_add_same_cancel1 less_irrefl zero_less_numeral order.strict_trans2)
  have hd: "n OR 3 = cell_head n True True" "cell_head k False True OR 1 = cell_head k True True"
    using cell_bits [OF c(4)] cell_bits [OF c(6)] by simp_all
  have s': "s' = s\<lparr>malloc_state.heap := (malloc_state.heap s)(p + 8 := cell_head n True True, q + 8 := cell_head k True True)\<rparr>"
    using c(9) hd pq
    by (simp add: s'_def set_inuse_and_pinuse_def mark_next_pinuse_def set_head_def wr_def head_def dl_consts q_def flip: n_def)
  have heap: "malloc_state.heap s' a = malloc_state.heap s a" if "a \<noteq> p + 8" "a \<noteq> q + 8" for a
    using that by (simp add: s')
  have cw: "p + 8 \<in> cell_words b cs" "q + 8 \<in> cell_words b cs" using c(1,2) by (simp_all add: q_def)
  have shape: "heap_shape b s' cs'"
    unfolding cs'_def
  proof (rule row_change [where mid = "[(n, False)]" and mid' = "[(n, True)]" and ys = "(k, True) # ys", simplified])
    show "heap_shape b s (xs @ (n, False) # (k, True) # ys)" using h c(1) by simp
    show "p = cell_end b xs" by (fact c(2))
    show "head s' p = cell_head n (last_used True xs) True \<and> is_aligned n \<and> 32 \<le> unat n"
      using c(3,4,5) pq by (simp add: s' head_def)
    have "cells s (p + n) False ((k, True) # ys)" using H(1) c(1,2) by simp
    then have "cells s' (p + n) True ((k, True) # ys)"
      by (rule cells_after) (use w u pq c(10) heap in \<open>auto simp: head_def s' q_def\<close>)
    then show "head s' (p + n) = cell_head k True True \<and> is_aligned k \<and> 32 \<le> unat k \<and> cells s' (p + n + k) True ys"
      by simp
    show "last_used True ys" using H(2) c(1) by simp
    show "malloc_state.heap s' a = malloc_state.heap s a" if "unat a < unat p + 8" for a
      by (rule heap) (use that u in auto)
    have "unat (mtop s + 8) = unat p + unat n + unat k + width ys + 8" using H(18) c(1,10) by simp
    then show "malloc_state.heap s' (mtop s + 8) = malloc_state.heap s (mtop s + 8)"
      by (intro heap) (use u c(5,7) in auto)
  qed (simp_all add: s')
  note H' = heap_shapeD [OF shape]
  have "p \<notin> free_cells b cs'"
    using cell_end_free [of s' b True xs n True "(k, True) # ys"] H'(1,15) c(2) by (simp add: cs'_def)
  then have fr: "free_cells b cs' = free_cells b cs - {p}" using c(1,2) by (auto simp: cs'_def)
  have "q \<notin> free_cells b cs'"
    using cell_end_free [of s' b True "xs @ [(n, True)]" k True ys] H'(1,15) c(2) by (simp add: cs'_def q_def)
  then have keep: "head s' x = head s x" if "x \<in> free_cells b cs'" for x
  proof -
    have "x \<noteq> p" "x \<noteq> q" using that \<open>p \<notin> free_cells b cs'\<close> \<open>q \<notin> free_cells b cs'\<close> by blast+
    then show ?thesis unfolding head_def by (intro heap) simp_all
  qed
  have "bins s' A"
  proof (rule bins_cong [OF A(2)])
    show "head s' x = head s x" if "x \<in> A" for x using keep that A(1) fr by blast
    show "malloc_state.heap s' a = malloc_state.heap s a" if "a \<in> bin_words s A" for a
      by (rule heap) (use not_bin_words [OF h, of A] A(1) cw that in blast)+
  qed (simp_all add: s')
  moreover have "keeps_client b cs s s'"
    unfolding keeps_client_def using client_outside(1) [OF h] cw heap by metis
  moreover have "used_cells b cs' = insert (p, n) (used_cells b cs)" using c(1,2) by (auto simp: cs'_def)
  moreover have "\<forall>x\<in>free_cells b cs'. chunksize s' x = chunksize s x" using keep by (simp add: chunksize_def)
  ultimately show ?thesis using shape fr unfolding n_def by blast
qed

text \<open>A free chunk is split into a chunk in use and a free remainder.\<close>

lemma use_part:
  assumes h: "heap_shape b s cs" and p: "p \<in> free_cells b cs" and A: "A \<subseteq> free_cells b cs - {p}" "bins s A"
    and nb: "is_aligned nb" "32 \<le> unat nb" "unat nb + 32 \<le> unat (chunksize s p)"
    and same: "same_globals s s'" "mtop s' = mtop s" "topsize s' = topsize s"
    and writes: "malloc_state.heap s' = (malloc_state.heap s)(p + 8 := nb OR 3,
      p + nb + 8 := (chunksize s p - nb) OR 1, p + chunksize s p := chunksize s p - nb)"
  shows "\<exists>cs'. heap_shape b s' cs' \<and> free_cells b cs' = insert (p + nb) (free_cells b cs - {p})
    \<and> used_cells b cs' = insert (p, nb) (used_cells b cs) \<and> bins s' A \<and> keeps_client b cs s s'
    \<and> (\<forall>x\<in>free_cells b cs - {p}. chunksize s' x = chunksize s x) \<and> chunksize s' (p + nb) = chunksize s p - nb
    \<and> p + nb \<notin> free_cells b cs"
proof -
  note H = heap_shapeD [OF h]
  define n where "n = chunksize s p"
  obtain xs k ys where c: "cs = xs @ (n, False) # (k, True) # ys" "p = cell_end b xs" "last_used True xs"
    "is_aligned n" "32 \<le> unat n" "is_aligned k" "32 \<le> unat k" "head s p = cell_head n True False"
    "head s (p + n) = cell_head k False True" "unat p = unat b + width xs" "unat (p + n) = unat p + unat n"
    using free_cell [OF h p] unfolding n_def by metis
  define r where "r = p + nb"
  define m where "m = n - nb"
  define cs' where "cs' = xs @ [(nb, True), (m, False)] @ (k, True) # ys"
  have w: "unat b + width xs + unat n + unat k + width ys + 8 < 2 ^ 64" using H(15) c(1) by simp
  have nbn: "unat nb + 32 \<le> unat n" using nb(3) by (simp add: n_def)
  then have um: "unat m = unat n - unat nb" by (simp add: m_def unat_sub word_le_nat_alt)
  have m: "32 \<le> unat m" "is_aligned m" using nbn um c(4) nb(1) by (auto simp: is_aligned_iff)
  have u: "unat (p + 8) = unat p + 8" "unat r = unat p + unat nb" "unat (r + 8) = unat p + unat nb + 8"
    using unat_field [of p 8] unat_field [of p nb] unat_field [of r 8] w nbn c(10) by (simp_all add: r_def)
  have rm: "r + m = p + n" by (simp add: r_def m_def)
  have hd: "nb OR 3 = cell_head nb True True" "m OR 1 = cell_head m True False"
    using cell_bits [OF nb(1)] cell_bits [OF m(2)] by simp_all
  have apart: "p + 8 \<noteq> r + 8" "p + 8 \<noteq> p + n" "r + 8 \<noteq> p + n"
    using u c(11) nbn nb(2) by (auto dest!: arg_cong [where f = unat])
  have s': "malloc_state.heap s' = (malloc_state.heap s)(p + 8 := cell_head nb True True, r + 8 := cell_head m True False, p + n := m)"
    unfolding writes r_def using hd by (simp add: n_def m_def)
  have heap: "malloc_state.heap s' a = malloc_state.heap s a" if "a \<noteq> p + 8" "a \<noteq> r + 8" "a \<noteq> p + n" for a
    using that by (simp add: s')
  have G: "mst s' = mst s" "least_addr s' = least_addr s" "mparams s' = mparams s" "smallmap s' = smallmap s"
    "treemap s' = treemap s"
    using same(1) by (simp_all add: same_globals_def)
  have cw: "p + 8 \<in> cell_words b cs" "p + n \<in> cell_words b cs" using c(1,2) by simp_all
  have ri: "r + 8 \<in> inner s p" using u nbn nb(2) by (simp add: inner_def flip: n_def)
  have shape: "heap_shape b s' cs'"
    unfolding cs'_def
  proof (rule row_change [where mid = "[(n, False)]" and p = p])
    show "heap_shape b s (xs @ [(n, False)] @ (k, True) # ys)" using h c(1) by simp
    show "p = cell_end b xs" by (fact c(2))
    show "mst s' = mst s" "least_addr s' = least_addr s" "mparams s' = mparams s" "mtop s' = mtop s"
      "topsize s' = topsize s" by (fact G same)+
    show "width [(nb, True), (m, False)] = width [(n, False)]" using um nbn by simp
    show "cells s' p (last_used True xs) [(nb, True), (m, False)]"
      using c(3) nb(1,2) m apart rm by (simp add: s' head_def prev_foot_def flip: r_def)
    have "cells s (p + n) False ((k, True) # ys)" using H(1) c(1,2) by simp
    then have "cells s' (p + n) False ((k, True) # ys)"
    proof (rule cells_after)
      show "unat (p + n) + unat k + width ys + 8 < 2 ^ 64" using w c(10,11) by simp
      have "p + n + 8 \<noteq> p + n" by simp
      moreover have "p + n + 8 \<noteq> p + 8" "p + n + 8 \<noteq> r + 8"
      proof -
        have "unat (p + n) \<noteq> unat p" "unat (p + n) \<noteq> unat r" using c(5,11) u(2) nbn by simp_all
        then show "p + n + 8 \<noteq> p + 8" "p + n + 8 \<noteq> r + 8" by auto
      qed
      ultimately show "head s' (p + n) = cell_head k False True" using c(9) heap by (simp add: head_def)
      show "malloc_state.heap s' a = malloc_state.heap s a" if "unat (p + n) + 8 < unat a" for a
        by (rule heap) (use that u c(5,11) nbn in auto)
    qed simp
    then show "cells s' (cell_end p [(n, False)]) (last_used (last_used True xs) [(nb, True), (m, False)]) ((k, True) # ys)"
      by simp
    show "last_used True (xs @ [(nb, True), (m, False)] @ (k, True) # ys)" using H(2) c(1) by simp
    show "malloc_state.heap s' a = malloc_state.heap s a" if "unat a < unat p + 8" for a
      by (rule heap) (use that u c(5,11) in auto)
    have "unat (mtop s + 8) = unat p + unat n + unat k + width ys + 8" using H(18) c(1,10) by simp
    then show "malloc_state.heap s' (mtop s + 8) = malloc_state.heap s (mtop s + 8)"
      by (intro heap) (use u c(5,7,11) nbn in auto)
  qed
  note H' = heap_shapeD [OF shape]
  have pf: "p \<notin> free_cells b cs'"
    using cell_end_free [of s' b True xs nb True "(m, False) # (k, True) # ys"] H'(1,15) c(2) by (simp add: cs'_def)
  have rf: "r \<notin> free_cells b cs"
  proof
    assume "r \<in> free_cells b cs"
    moreover have "p \<noteq> r"
    proof
      assume "p = r"
      then have "unat p = unat r" by simp
      then show False using u(2) nb(2) by linarith
    qed
    ultimately have "unat p + unat n \<le> unat r \<or> unat r + unat (chunksize s r) \<le> unat p"
      using two_blocks [OF heap_placed [OF h] p, of r] u(2) nb(2) by (auto simp flip: n_def)
    then show False using u(2) nbn nb(2) by linarith
  qed
  have fr: "free_cells b cs' = insert r (free_cells b cs - {p})"
    using pf c(1,2) rm by (auto simp: cs'_def r_def add.assoc)
  have keep: "head s' x = head s x" if x: "x \<in> free_cells b cs - {p}" for x
  proof -
    have "x + 8 \<noteq> p + n"
    proof
      assume e: "x + 8 = p + n"
      have "unat p + unat n \<le> unat x \<or> unat x + 32 \<le> unat p"
        using two_blocks [OF heap_placed [OF h] p, of x] x frees_range(3) [OF H(1,15), of x] by (auto simp flip: n_def)
      moreover have "unat (x + 8) = unat x + 8"
        using placed_offset [OF placedD(4) [OF heap_placed [OF h]], of x 8] x frees_range(3) [OF H(1,15), of x] by simp
      ultimately show False using arg_cong [OF e, of unat] c(5,11) by linarith
    qed
    moreover have "x \<noteq> p" "x \<noteq> r" using x rf by blast+
    ultimately show ?thesis unfolding head_def by (intro heap) simp_all
  qed
  have "bins s' A"
  proof (rule bins_cong [OF A(2) G(1,2,4,5)])
    show "head s' x = head s x" if "x \<in> A" for x using keep that A(1) by blast
    show "malloc_state.heap s' a = malloc_state.heap s a" if "a \<in> bin_words s A" for a
    proof -
      have "p \<in> free_cells b cs - A" using A(1) p by blast
      then show ?thesis using not_bin_words [OF h, of A] A(1) cw ri that by (intro heap) blast+
    qed
  qed
  moreover have "keeps_client b cs s s'"
    unfolding keeps_client_def using client_outside(1,5) [OF h] p cw ri heap by metis
  moreover have "used_cells b cs' = insert (p, nb) (used_cells b cs)"
    using c(1,2) rm by (auto simp: cs'_def r_def add.assoc)
  moreover have "chunksize s' r = m"
    by (rule cell_size [OF _ m(2), where u = True and v = False]) (use apart in \<open>simp add: head_def s'\<close>)
  moreover have "\<forall>x\<in>free_cells b cs - {p}. chunksize s' x = chunksize s x" using keep by (simp add: chunksize_def)
  ultimately show ?thesis using shape fr rf unfolding r_def m_def n_def by blast
qed

end
