(* ===== verification/Dl_Heap_Malloc.thy ===== *)
theory Dl_Heap_Malloc
  imports Dl_Heap
begin

unbundle bit_operations_syntax

text \<open>
  \<open>mspace_malloc\<close> on any heap: whichever way a request is served, from a bin, from the designated victim or
  from \<open>top\<close>, the heap is in order afterwards, one chunk more is in use, large enough for the request, and
  the words of all chunks that were in use are as before.
\<close>

section \<open>A chunk from top\<close>

lemma use_top:
  assumes h: "heap_shape b s cs" and A: "A \<subseteq> free_cells b cs" "bins s A"
    and nb: "is_aligned nb" "32 \<le> unat nb" "nb < topsize s"
  defines "s' \<equiv> snd (split_top nb s)"
  shows "\<exists>cs'. heap_shape b s' cs' \<and> free_cells b cs' = free_cells b cs
    \<and> used_cells b cs' = insert (mtop s, nb) (used_cells b cs) \<and> (mtop s, nb) \<notin> used_cells b cs
    \<and> bins s' A \<and> keeps_client b cs s s' \<and> (\<forall>x\<in>free_cells b cs. chunksize s' x = chunksize s x)
    \<and> unat (mtop s') + unat (topsize s') = unat (mtop s) + unat (topsize s)"
proof -
  note H = heap_shapeD [OF h]
  note S = split_top_simps [of nb s, folded s'_def]
  define p where "p = mtop s"
  define r where "r = p + nb"
  define m where "m = topsize s - nb"
  define cs' where "cs' = cs @ [(nb, True)]"
  have t: "unat nb < unat (topsize s)" using nb(3) by (simp add: word_less_nat_alt)
  have um: "unat m = unat (topsize s) - unat nb" using t by (simp add: m_def unat_sub word_le_nat_alt)
  have u: "unat p = unat b + width cs" "unat (p + 8) = unat p + 8" "unat r = unat p + unat nb" "unat (r + 8) = unat r + 8"
    using H(8,17,18) t unat_field [of p nb] unat_field [of r 8] by (simp_all add: p_def r_def)
  have m: "is_aligned m" "0 < m" using um t H(5) nb(1) by (auto simp: is_aligned_iff word_less_nat_alt)
  have hd: "nb OR 3 = cell_head nb True True" "m OR 1 = cell_head m True False"
    using cell_bits [OF nb(1)] cell_bits [OF m(1)] by simp_all
  have "p + 8 \<noteq> r + 8"
  proof
    assume "p + 8 = r + 8"
    then have "unat (p + 8) = unat (r + 8)" by simp
    then show False using u nb(2) by linarith
  qed
  then have s': "malloc_state.heap s' = (malloc_state.heap s)(r + 8 := cell_head m True False, p + 8 := cell_head nb True True)"
    using S(4) hd by (simp add: dl_consts r_def p_def m_def or.assoc)
  have heap: "malloc_state.heap s' a = malloc_state.heap s a" if "unat a < unat p + 8" for a
    using that u by (auto simp: s')
  have below: "malloc_state.heap s' a = malloc_state.heap s a" if "a \<in> cell_words b cs" for a
    using cell_words_range [OF H(1,15) that] u(1) by (intro heap) simp
  have heads: "head s' x = head s x" if x: "x \<in> free_cells b cs" for x
  proof -
    have "unat (x + 8) = unat x + 8"
      using placed_offset [OF placedD(4) [OF heap_placed [OF h] x], of 8] frees_range(3) [OF H(1,15) x] by simp
    then show ?thesis unfolding head_def using frees_range(2,3) [OF H(1,15) x] u(1) by (intro heap) simp
  qed
  have shape: "heap_shape b s' cs'"
  proof (rule heap_shape_change [OF h])
    have "cells s' b True cs" using H(1) cells_cong [of b cs s' s] below by blast
    then show "cells s' b True cs'"
      using H(2,3) nb(1,2) \<open>p + 8 \<noteq> r + 8\<close> by (simp add: cs'_def s' head_def p_def)
    show "last_used True cs'" by (simp add: cs'_def)
    show "cell_end b cs' = mtop s'" using H(3) S(2) by (simp add: cs'_def)
    show "head s' (mtop s') = cell_head (topsize s') True False"
      using S(2,3) \<open>p + 8 \<noteq> r + 8\<close> by (simp add: head_def s' r_def p_def m_def)
    show "is_aligned (topsize s')" "0 < topsize s'" using m S(3) by (simp_all add: m_def)
    show "width cs' + unat (topsize s') = width cs + unat (topsize s)"
      using um t S(3) by (simp add: cs'_def m_def)
    show "malloc_state.heap s' a = malloc_state.heap s a" if "a \<in> seg_words s" for a
      by (rule heap) (use that H(12) u(1) in \<open>simp add: seg_words_def\<close>)
  qed (simp_all add: S)
  have "bins s' A"
  proof (rule bins_cong [OF A(2)])
    show "malloc_state.heap s' a = malloc_state.heap s a" if "a \<in> bin_words s A" for a
    proof (rule heap)
      from that consider "a \<in> bin_area s" | x where "x \<in> A" "a \<in> inner s x" by (auto simp: bin_words_def)
      then show "unat a < unat p + 8"
        using inner_not_cell(2) [OF H(1,15)] A(1) H(12) u(1) by cases (fastforce simp: bin_area_def)+
    qed
  qed (use heads A(1) in \<open>auto simp: S\<close>)
  moreover have "keeps_client b cs s s'"
    unfolding keeps_client_def
  proof
    fix a assume "a \<in> client_words b cs"
    from client_words_range [OF H(1,15) this] u(1) show "malloc_state.heap s' a = malloc_state.heap s a"
      by (intro heap) simp
  qed
  moreover have "(mtop s, nb) \<notin> used_cells b cs"
  proof
    assume "(mtop s, nb) \<in> used_cells b cs"
    then obtain xs ys where x: "cs = xs @ (nb, True) # ys" "mtop s = cell_end b xs" using used_split by blast
    then have "unat (mtop s) = unat b + width xs" using unat_cell_end [of b xs] H(15) by simp
    then show False using H(17) x(1) nb(2) by simp
  qed
  moreover have "unat (mtop s') + unat (topsize s') = unat (mtop s) + unat (topsize s)"
    using S(2,3) u(3) um t by (simp add: p_def r_def m_def)
  moreover have "used_cells b cs' = insert (mtop s, nb) (used_cells b cs)" "free_cells b cs' = free_cells b cs"
    using H(3) by (auto simp: cs'_def)
  moreover have "\<forall>x\<in>free_cells b cs. chunksize s' x = chunksize s x" using heads by (simp add: chunksize_def)
  ultimately show ?thesis using shape by blast
qed

section \<open>After an operation on the bins\<close>

definition room :: "malloc_state \<Rightarrow> nat" where
  "room s = unat (mtop s) + unat (topsize s)"

definition allocates :: "addr \<Rightarrow> malloc_state \<Rightarrow> cell list \<Rightarrow> size_t \<Rightarrow> addr \<times> malloc_state \<Rightarrow> bool" where
  "allocates b s cs nb r \<longleftrightarrow>
     (\<exists>cs' p n. fst r = chunk2mem p \<and> nb \<le> n \<and> heap_ok b (snd r) cs' \<and> (p, n) \<notin> used_cells b cs
        \<and> used_cells b cs' = insert (p, n) (used_cells b cs) \<and> keeps_client b cs s (snd r) \<and> room (snd r) = room s)"

lemma free_head_word: "x \<in> free_cells p cs \<Longrightarrow> x + 8 \<in> cell_words p cs"
  by (induction p cs rule: free_cells.induct) (auto split: if_splits)

lemma heap_okD:
  assumes "heap_ok b s cs"
  shows "heap_shape b s cs" "victim_ok b s cs" "bins s (free_cells b cs - {dv s})"
    "dvsize s \<noteq> 0 \<Longrightarrow> dv s \<in> free_cells b cs \<and> chunksize s (dv s) = dvsize s" "dvsize s = 0 \<Longrightarrow> dv s = 0"
    "0 \<notin> free_cells b cs"
  using assms free_nonzero [of b s cs] unfolding heap_ok_def victim_ok_def by auto

lemma bins_step_free:
  assumes "heap_shape b s cs" "bins_step s A s1" "A \<subseteq> free_cells b cs"
  shows "heap_shape b s1 cs" "x \<in> free_cells b cs \<Longrightarrow> chunksize s1 x = chunksize s x" "keeps_client b cs s s1"
    "room s1 = room s"
proof -
  show "heap_shape b s1 cs" by (rule bins_step_shape [OF assms])
  show "keeps_client b cs s s1" by (rule bins_step_client [OF assms])
  show "room s1 = room s" using bins_step_keeps [OF assms(2)] by (simp add: room_def)
  show "chunksize s1 x = chunksize s x" if "x \<in> free_cells b cs"
  proof -
    have "x + 8 \<notin> bin_words s A" using not_bin_words [OF assms(1,3)] free_head_word [OF that] by blast
    then show ?thesis using bins_step_keeps(13) [OF assms(2)] by (simp add: chunksize_def head_def)
  qed
qed

text \<open>The chunk \<open>p\<close> has left the bins and is used as a whole.\<close>

lemma allocates_whole:
  assumes ok: "heap_ok b s cs" and p: "p \<in> free_cells b cs - {dv s}" and nb: "nb \<le> chunksize s p"
    and s1: "bins s1 (free_cells b cs - {dv s} - {p})" "bins_step s (free_cells b cs - {dv s}) s1"
  shows "allocates b s cs nb (chunk2mem p, set_inuse_and_pinuse p (chunksize s p) s1)"
proof -
  note O = heap_okD [OF ok]
  note F = bins_step_free [OF O(1) s1(2) Diff_subset]
  note K = bins_step_keeps [OF s1(2)]
  define s2 where "s2 = set_inuse_and_pinuse p (chunksize s p) s1"
  have sz: "chunksize s1 p = chunksize s p" using F(2) p by blast
  obtain cs' where c: "heap_shape b s2 cs'" "free_cells b cs' = free_cells b cs - {p}"
    "used_cells b cs' = insert (p, chunksize s p) (used_cells b cs)" "bins s2 (free_cells b cs - {dv s} - {p})"
    "keeps_client b cs s1 s2" "\<forall>x\<in>free_cells b cs'. chunksize s2 x = chunksize s1 x"
    using use_whole [OF F(1) _ _ s1(1), of p] p unfolding sz s2_def by blast
  have g: "dv s2 = dv s" "dvsize s2 = dvsize s" "room s2 = room s1"
    using K by (simp_all add: s2_def dl_heads set_head_def wr_def room_def)
  have "free_cells b cs - {dv s} - {p} = free_cells b cs' - {dv s2}" using c(2) g(1) by auto
  moreover have "victim_ok b s2 cs'"
    using O(4,5) c(2,6) F(2) p unfolding victim_ok_def g by auto
  ultimately have "heap_ok b s2 cs'" using c(1,4) unfolding heap_ok_def by simp
  moreover have "(p, n) \<notin> used_cells b cs" for n
    using free_not_used [OF heap_shapeD(1,15) [OF O(1)]] p by blast
  moreover have "keeps_client b cs s s2" by (rule keeps_client_trans [OF F(3) c(5)]) simp
  ultimately show ?thesis
    unfolding allocates_def s2_def [symmetric] using c(3) nb g(3) F(4) by auto
qed

text \<open>The chunk \<open>p\<close> has left the bins and is split; the remainder goes to a bin or becomes the victim.\<close>

abbreviation carve :: "addr \<Rightarrow> size_t \<Rightarrow> size_t \<Rightarrow> malloc_state \<Rightarrow> malloc_state" where
  "carve p nb rsize s \<equiv>
     set_size_and_pinuse_of_free_chunk (p + nb) rsize (set_size_and_pinuse_of_inuse_chunk p nb s)"

lemma carve_simps:
  "malloc_state.heap (carve p nb (n - nb) s) =
     (malloc_state.heap s)(p + 8 := nb OR 3, p + nb + 8 := (n - nb) OR 1, p + n := n - nb)"
  "mst (carve p nb k s) = mst s" "least_addr (carve p nb k s) = least_addr s" "mparams (carve p nb k s) = mparams s"
  "smallmap (carve p nb k s) = smallmap s" "treemap (carve p nb k s) = treemap s" "mtop (carve p nb k s) = mtop s"
  "topsize (carve p nb k s) = topsize s" "dv (carve p nb k s) = dv s" "dvsize (carve p nb k s) = dvsize s"
  "same_globals s (carve p nb k s)"
  by (simp_all add: dl_heads set_head_def set_prev_foot_def wr_def dl_consts same_globals_def)

lemma carved:
  assumes ok: "heap_ok b s cs" and p: "p \<in> free_cells b cs - {dv s}"
    and nb: "is_aligned nb" "32 \<le> unat nb" "unat nb + 32 \<le> unat (chunksize s p)"
    and s1: "bins s1 (free_cells b cs - {dv s} - {p})" "bins_step s (free_cells b cs - {dv s}) s1"
  defines "s2 \<equiv> carve p nb (chunksize s p - nb) s1"
  shows "\<exists>cs'. heap_shape b s2 cs' \<and> free_cells b cs' = insert (p + nb) (free_cells b cs - {p})
    \<and> used_cells b cs' = insert (p, nb) (used_cells b cs) \<and> (p, nb) \<notin> used_cells b cs
    \<and> bins s2 (free_cells b cs' - {dv s2} - {p + nb}) \<and> keeps_client b cs s s2 \<and> victim_ok b s2 cs'
    \<and> chunksize s2 (p + nb) = chunksize s p - nb \<and> p + nb \<noteq> dv s2 \<and> dvsize s2 = dvsize s \<and> room s2 = room s"
proof -
  note O = heap_okD [OF ok]
  note F = bins_step_free [OF O(1) s1(2) Diff_subset]
  note K = bins_step_keeps [OF s1(2)]
  have sz: "chunksize s1 p = chunksize s p" using F(2) p by blast
  obtain cs' where c: "heap_shape b s2 cs'" "free_cells b cs' = insert (p + nb) (free_cells b cs - {p})"
    "used_cells b cs' = insert (p, nb) (used_cells b cs)" "bins s2 (free_cells b cs - {dv s} - {p})"
    "keeps_client b cs s1 s2" "\<forall>x\<in>free_cells b cs - {p}. chunksize s2 x = chunksize s1 x"
    "chunksize s2 (p + nb) = chunksize s1 p - nb" "p + nb \<notin> free_cells b cs"
    using use_part [where p = p, OF F(1) _ _ s1(1) nb(1,2) _ carve_simps(11) carve_simps(7,8) carve_simps(1)] p nb(3)
    unfolding sz s2_def by blast
  have g: "dv s2 = dv s" "dvsize s2 = dvsize s" "room s2 = room s1"
    using K by (simp_all add: s2_def carve_simps room_def)
  have nz: "p + nb \<noteq> 0" using heap_shapeD(1) [OF c(1)] free_nonzero [OF c(1), of "p + nb"] c(2) by simp
  have r: "p + nb \<noteq> dv s" using c(8) O(4,5) nz by metis
  have "free_cells b cs' - {dv s2} - {p + nb} = free_cells b cs - {dv s} - {p}" using c(2,8) g(1) by auto
  moreover have "victim_ok b s2 cs'"
    using O(4,5) c(2,6) F(2) p unfolding victim_ok_def g by auto
  moreover have "(p, nb) \<notin> used_cells b cs" using free_not_used [OF heap_shapeD(1,15) [OF O(1)]] p by blast
  moreover have "keeps_client b cs s s2" by (rule keeps_client_trans [OF F(3) c(5)]) simp
  ultimately show ?thesis using c(1-4,7) g F(4) r sz by auto
qed

text \<open>The remainder is put into a bin.\<close>

lemma inserted:
  assumes "heap_shape b s cs" "victim_ok b s cs" "r \<in> free_cells b cs" "r \<noteq> dv s"
    "bins s' (insert r (free_cells b cs - {dv s} - {r}))" "bins_step s (insert r (free_cells b cs - {dv s} - {r})) s'"
  shows "heap_ok b s' cs" "keeps_client b cs s s'" "room s' = room s"
proof -
  have sub: "insert r (free_cells b cs - {dv s} - {r}) = free_cells b cs - {dv s}" using assms(3,4) by auto
  note F = bins_step_free [OF assms(1) assms(6) [unfolded sub] Diff_subset]
  note K = bins_step_keeps [OF assms(6)]
  show "keeps_client b cs s s'" "room s' = room s" by (fact F)+
  have "victim_ok b s' cs" using assms(2) F(2) unfolding victim_ok_def K(3,4) by simp
  then show "heap_ok b s' cs" using F(1) assms(5) unfolding heap_ok_def K(3) sub by blast
qed

lemma finish_insert:
  assumes "heap_shape b s cs" "victim_ok b s cs" "r \<in> free_cells b cs" "r \<noteq> dv s"
    "bins s (free_cells b cs - {dv s} - {r})"
  shows "\<exists>s'. insert_chunk r (chunksize s r) s = Ret s' \<and> heap_ok b s' cs \<and> keeps_client b cs s s' \<and> room s' = room s"
proof -
  have "placed s (insert r (free_cells b cs - {dv s} - {r}))"
    by (rule placed_mono [OF heap_placed [OF assms(1)]]) (use assms(3) in auto)
  then obtain s' where s': "insert_chunk r (chunksize s r) s = Ret s'"
    "bins s' (insert r (free_cells b cs - {dv s} - {r}))" "bins_step s (insert r (free_cells b cs - {dv s} - {r})) s'"
    using insert_chunk_effect [OF assms(5)] by blast
  from inserted [OF assms(1-4) s'(2,3)] s'(1) show ?thesis by blast
qed

text \<open>The remainder becomes the designated victim, and the old one goes to a small bin.\<close>

lemma bins_dv: "bins (s\<lparr>dvsize := k, dv := r\<rparr>) A = bins s A"
  by (rule iffI; erule bins_cong) (simp_all add: head_def)

lemma shape_dv: "heap_shape b (s\<lparr>dvsize := k, dv := r\<rparr>) cs = heap_shape b s cs"
  by (rule iffI; erule heap_shape_cong) (simp_all add: head_def)

lemma finish_dv:
  assumes "heap_shape b s cs" "victim_ok b s cs" "r \<in> free_cells b cs" "r \<noteq> dv s"
    "bins s (free_cells b cs - {dv s} - {r})" "is_small (dvsize s)"
  shows "\<exists>s'. replace_dv r (chunksize s r) s = Ret s' \<and> heap_ok b s' cs \<and> keeps_client b cs s s' \<and> room s' = room s"
proof -
  have z: "0 \<notin> free_cells b cs" "chunksize s r \<noteq> 0" using free_nonzero [OF assms(1)] assms(3) by blast+
  define s1 where "s1 = (if dvsize s \<noteq> 0 then insert_small_chunk (dv s) (dvsize s) s else Ret s)"
  have "\<exists>s2. s1 = Ret s2 \<and> bins s2 (free_cells b cs - {r}) \<and> heap_shape b s2 cs \<and> keeps_client b cs s s2
      \<and> room s2 = room s \<and> chunksize s2 r = chunksize s r"
  proof (cases "dvsize s = 0")
    case True
    then have "dv s = 0" using assms(2) by (simp add: victim_ok_def)
    then have "free_cells b cs - {dv s} - {r} = free_cells b cs - {r}" using z(1) by auto
    then show ?thesis using True assms(1,5) by (simp add: s1_def keeps_client_def)
  next
    case False
    then have v: "dv s \<in> free_cells b cs" "chunksize s (dv s) = dvsize s" using assms(2) by (simp_all add: victim_ok_def)
    then have e: "insert (dv s) (free_cells b cs - {dv s} - {r}) = free_cells b cs - {r}" using assms(4) by auto
    have "placed s (insert (dv s) (free_cells b cs - {dv s} - {r}))"
      by (rule placed_mono [OF heap_placed [OF assms(1)]]) (use v in auto)
    then obtain s2 where s2: "insert_small_chunk (dv s) (dvsize s) s = Ret s2" "bins s2 (free_cells b cs - {r})"
      "bins_step s (free_cells b cs - {r}) s2"
      using insert_small_effect [OF assms(5), of "dv s"] v assms(6) unfolding e by auto
    with bins_step_free [OF assms(1) s2(3) Diff_subset] assms(3) False show ?thesis by (simp add: s1_def)
  qed
  then obtain s2 where s2: "s1 = Ret s2" "bins s2 (free_cells b cs - {r})" "heap_shape b s2 cs" "keeps_client b cs s s2"
    "room s2 = room s" "chunksize s2 r = chunksize s r" by blast
  let ?s = "s2\<lparr>dvsize := chunksize s r, dv := r\<rparr>"
  have "replace_dv r (chunksize s r) s = Ret ?s" using s2(1) by (simp add: replace_dv_def Let_def s1_def)
  moreover have "heap_ok b ?s cs"
    using s2 assms(3) z(2) unfolding heap_ok_def bins_dv shape_dv
    by (simp add: victim_ok_def) (simp add: chunksize_def head_def)
  moreover have "keeps_client b cs s ?s" "room ?s = room s" using s2(4,5) by (simp_all add: keeps_client_def room_def)
  ultimately show ?thesis by blast
qed

text \<open>Both ways to use the chunk \<open>v\<close> of a tree bin\<close>

lemma take_large_allocates:
  assumes ok: "heap_ok b s cs" and v: "v \<in> free_cells b cs - {dv s}" "nb \<le> chunksize s v" "\<not> is_small (chunksize s v)"
    and nb: "is_aligned nb" "32 \<le> unat nb"
    and keep: "keep = insert_chunk \<or> keep = replace_dv \<and> is_small (dvsize s)"
  shows "\<exists>r. take_large nb v (chunksize s v - nb) keep s = Ret r \<and> allocates b s cs nb r"
proof -
  note O = heap_okD [OF ok]
  have c: "chunk_placed s v" using placedD(4) [OF heap_placed [OF O(1)]] v(1) by blast
  obtain s1 where s1: "unlink_large_chunk v s = Ret s1" "bins s1 (free_cells b cs - {dv s} - {v})"
    "bins_step s (free_cells b cs - {dv s}) s1"
    using unlink_chunk_effect [OF O(3) v(1)] v(3) by (auto simp: unlink_chunk_def)
  have n: "unat nb \<le> unat (chunksize s v)" using v(2) by (simp add: word_le_nat_alt)
  then have rs: "unat (chunksize s v - nb) = unat (chunksize s v) - unat nb" by (simp add: unat_sub word_le_nat_alt)
  have "unat v + unat nb < 2 ^ 64"
  proof (rule ccontr)
    assume "\<not> unat v + unat nb < 2 ^ 64"
    moreover obtain xs k ys where "cs = xs @ (chunksize s v, False) # (k, True) # ys" "unat v = unat b + width xs"
      using free_cell [OF O(1)] v(1) by (metis DiffD1)
    ultimately show False using n heap_shapeD(15) [OF O(1)] by simp
  qed
  then have "v < v + nb" using unat_field [of v nb] nb(2) by (simp add: word_less_nat_alt)
  moreover have "ok_address s v" using c by (simp add: chunk_placed_def)
  ultimately have t: "take_large nb v (chunksize s v - nb) keep s =
      (if chunksize s v - nb < MIN_CHUNK_SIZE
       then Ret (chunk2mem v, set_inuse_and_pinuse v (chunksize s v - nb + nb) s1)
       else dbind (keep (v + nb) (chunksize s v - nb) (carve v nb (chunksize s v - nb) s1)) (\<lambda>s. Ret (chunk2mem v, s)))"
    using s1(1) by (simp add: take_large_def ok_next_def Let_def)
  show ?thesis
  proof (cases "chunksize s v - nb < MIN_CHUNK_SIZE")
    case True
    then show ?thesis using allocates_whole [OF ok v(1,2) s1(2,3)] t by simp
  next
    case False
    then have big: "unat nb + 32 \<le> unat (chunksize s v)" using rs n by (simp add: dl_consts word_less_nat_alt)
    define s2 where "s2 = carve v nb (chunksize s v - nb) s1"
    obtain cs' where c: "heap_shape b s2 cs'" "free_cells b cs' = insert (v + nb) (free_cells b cs - {v})"
      "used_cells b cs' = insert (v, nb) (used_cells b cs)" "(v, nb) \<notin> used_cells b cs"
      "bins s2 (free_cells b cs' - {dv s2} - {v + nb})" "keeps_client b cs s s2" "victim_ok b s2 cs'"
      "chunksize s2 (v + nb) = chunksize s v - nb" "v + nb \<noteq> dv s2" "dvsize s2 = dvsize s" "room s2 = room s"
      using carved [OF ok v(1) nb big s1(2,3)] unfolding s2_def by blast
    have "\<exists>s3. keep (v + nb) (chunksize s v - nb) s2 = Ret s3 \<and> heap_ok b s3 cs' \<and> keeps_client b cs' s2 s3 \<and> room s3 = room s2"
      using keep finish_insert [OF c(1,7) _ c(9,5)] finish_dv [OF c(1,7) _ c(9,5)] c(2,8,10) by auto
    then obtain s3 where s3: "keep (v + nb) (chunksize s v - nb) s2 = Ret s3" "heap_ok b s3 cs'"
      "keeps_client b cs' s2 s3" "room s3 = room s2" by blast
    have "client_words b cs \<subseteq> client_words b cs'" using c(3) by (auto simp: client_words_def)
    then have "keeps_client b cs s s3" using keeps_client_trans [OF c(6) s3(3)] by blast
    then have "allocates b s cs nb (chunk2mem v, s3)"
      unfolding allocates_def using s3 c(3,4,11) by auto
    then show ?thesis using t False s3(1) by (simp add: s2_def)
  qed
qed

section \<open>The ways to serve a request\<close>

lemma split_dv_allocates:
  assumes ok: "heap_ok b s cs" and nb: "is_aligned nb" "32 \<le> unat nb" "nb \<le> dvsize s"
  shows "allocates b s cs nb (split_dv nb s)"
proof -
  note O = heap_okD [OF ok]
  define p where "p = dv s"
  define n where "n = dvsize s"
  have n0: "dvsize s \<noteq> 0" using nb(2,3) by (auto simp: word_le_nat_alt)
  then have p: "p \<in> free_cells b cs" "chunksize s p = n" using O(4) by (simp_all add: p_def n_def)
  have bin: "bins s (free_cells b cs - {p})" using O(3) by (simp add: p_def)
  have le: "unat nb \<le> unat n" "unat (n - nb) = unat n - unat nb"
    using nb(3) by (simp_all add: n_def word_le_nat_alt unat_sub)
  show ?thesis
  proof (cases "n - nb \<ge> MIN_CHUNK_SIZE")
    case True
    then have big: "unat nb + 32 \<le> unat (chunksize s p)" using le p(2) by (simp add: dl_consts word_le_nat_alt)
    define s' where "s' = set_size_and_pinuse_of_inuse_chunk p nb
      (set_size_and_pinuse_of_free_chunk (p + nb) (n - nb) (s\<lparr>dv := p + nb, dvsize := n - nb\<rparr>))"
    have r: "split_dv nb s = (chunk2mem p, s')"
      using True by (simp add: split_dv_def Let_def s'_def p_def n_def)
    have d: "p + nb + 8 \<noteq> p + 8" "p + n \<noteq> p + 8" using nb(2) big p(2) by auto
    have g: "same_globals s s'" "mtop s' = mtop s" "topsize s' = topsize s" "dv s' = p + nb" "dvsize s' = n - nb"
      by (simp_all add: s'_def dl_heads set_head_def set_prev_foot_def wr_def same_globals_def)
    have w: "malloc_state.heap s' = (malloc_state.heap s)(p + 8 := nb OR 3, p + nb + 8 := (chunksize s p - nb) OR 1,
        p + chunksize s p := chunksize s p - nb)"
      using d unfolding p(2)
      by (simp add: s'_def dl_heads set_head_def set_prev_foot_def wr_def dl_consts or.assoc) (auto simp: fun_eq_iff)
    obtain cs' where c: "heap_shape b s' cs'" "free_cells b cs' = insert (p + nb) (free_cells b cs - {p})"
      "used_cells b cs' = insert (p, nb) (used_cells b cs)" "bins s' (free_cells b cs - {p})" "keeps_client b cs s s'"
      "chunksize s' (p + nb) = n - nb" "p + nb \<notin> free_cells b cs"
      using use_part [OF O(1) p(1) subset_refl bin nb(1,2) big g(1-3) w] p(2) by auto
    have "n - nb \<noteq> 0" using free_nonzero [OF c(1), of "p + nb"] c(2,6) by simp
    then have "victim_ok b s' cs'" using c(2,6) g(4,5) by (simp add: victim_ok_def)
    moreover have "free_cells b cs' - {dv s'} = free_cells b cs - {p}" using c(2,7) g(4) by auto
    ultimately have "heap_ok b s' cs'" using c(1,4) unfolding heap_ok_def by simp
    moreover have "(p, nb) \<notin> used_cells b cs" using free_not_used [OF heap_shapeD(1,15) [OF O(1)] p(1)] .
    ultimately show ?thesis unfolding r allocates_def using c(3,5) g(2,3) by (auto simp: room_def)
  next
    case False
    define s1 where "s1 = s\<lparr>dvsize := 0, dv := 0\<rparr>"
    define s' where "s' = set_inuse_and_pinuse p n s1"
    have r: "split_dv nb s = (chunk2mem p, s')"
      using False by (simp add: split_dv_def Let_def s'_def s1_def p_def n_def)
    have sz: "chunksize s1 x = chunksize s x" for x by (simp add: s1_def chunksize_def head_def)
    have s1: "heap_shape b s1 cs" "bins s1 (free_cells b cs - {p})"
      using O(1) bin by (simp_all add: s1_def shape_dv bins_dv)
    obtain cs' where c: "heap_shape b s' cs'" "free_cells b cs' = free_cells b cs - {p}"
      "used_cells b cs' = insert (p, n) (used_cells b cs)" "bins s' (free_cells b cs - {p})" "keeps_client b cs s1 s'"
      using use_whole [OF s1(1) p(1) subset_refl s1(2)] unfolding sz p(2) s'_def by blast
    have g: "dv s' = 0" "dvsize s' = 0" "room s' = room s"
      by (simp_all add: s'_def s1_def dl_heads set_head_def wr_def room_def)
    have "heap_ok b s' cs'" using c(1,2,4) g O(6) unfolding heap_ok_def by (simp add: victim_ok_def)
    moreover have "(p, n) \<notin> used_cells b cs" using free_not_used [OF heap_shapeD(1,15) [OF O(1)] p(1)] .
    moreover have "keeps_client b cs s s'" using c(5) by (simp add: keeps_client_def s1_def)
    ultimately show ?thesis unfolding r allocates_def using c(3) g(3) nb(3) by (auto simp: n_def)
  qed
qed

lemma split_top_allocates:
  assumes ok: "heap_ok b s cs" and nb: "is_aligned nb" "32 \<le> unat nb" "nb < topsize s"
  shows "allocates b s cs nb (split_top nb s)"
proof -
  note O = heap_okD [OF ok]
  define s' where "s' = snd (split_top nb s)"
  note S = split_top_simps [of nb s, folded s'_def]
  obtain cs' where c: "heap_shape b s' cs'" "free_cells b cs' = free_cells b cs"
    "used_cells b cs' = insert (mtop s, nb) (used_cells b cs)" "(mtop s, nb) \<notin> used_cells b cs"
    "bins s' (free_cells b cs - {dv s})" "keeps_client b cs s s'"
    "\<forall>x\<in>free_cells b cs. chunksize s' x = chunksize s x"
    "unat (mtop s') + unat (topsize s') = unat (mtop s) + unat (topsize s)"
    using use_top [OF O(1) Diff_subset O(3) nb] unfolding s'_def by blast
  have "victim_ok b s' cs'" using O(2) c(2,7) unfolding victim_ok_def S by simp
  then have "heap_ok b s' cs'" using c(1,2,5) unfolding heap_ok_def S by simp
  then show ?thesis using c(3,4,6,8) S(1) unfolding allocates_def s'_def [symmetric] by (auto simp: room_def)
qed

lemma index_size_table: "k < 32 \<Longrightarrow> small_index2size (of_nat k) = of_nat (8 * k)"
proof -
  have "list_all (\<lambda>k. small_index2size (of_nat k) = of_nat (8 * k)) [0..<32]" by code_simp
  then show "k < 32 \<Longrightarrow> small_index2size (of_nat k) = of_nat (8 * k)" by (simp only: list_all_iff set_upt) auto
qed

lemma unat_index_size: "i < 32 \<Longrightarrow> unat (small_index2size i) = 8 * unat i"
proof -
  assume "i < 32"
  then have "unat i < 32" by (simp add: word_less_nat_alt)
  moreover have "i = of_nat (unat i)" by simp
  ultimately have "small_index2size i = of_nat (8 * unat i)" using index_size_table by metis
  then show ?thesis using \<open>unat i < 32\<close> by (simp add: unat_word_ariths unsigned_ucast_eq take_bit_nat_eq_self)
qed

text \<open>The first chunk of a marked small bin\<close>

lemma first_small:
  assumes ok: "heap_ok b s cs" and i: "i < 32" "smallmap_is_marked s i"
  obtains p s1 where "fd s (smallbin_at s i) = p" "p \<in> free_cells b cs - {dv s}" "chunksize s p = small_index2size i"
    "unlink_first_small_chunk (smallbin_at s i) p i s = Ret s1"
    "bins s1 (free_cells b cs - {dv s} - {p})" "bins_step s (free_cells b cs - {dv s}) s1"
proof -
  note O = heap_okD [OF ok]
  define p where "p = fd s (smallbin_at s i)"
  have f: "p \<in> free_cells b cs - {dv s}" "is_small (chunksize s p)" "small_index (chunksize s p) = i"
    "\<exists>s'. unlink_first_small_chunk (smallbin_at s i) p i s = Ret s' \<and> bins s' (free_cells b cs - {dv s} - {p})
        \<and> bins_step s (free_cells b cs - {dv s}) s'"
    using unlink_first_effect [OF O(3) _ i(2)] i(1) unfolding p_def NSMALLBINS_def by blast+
  have "is_aligned (chunksize s p)" using placedD(4) [OF heap_placed [OF O(1)]] f(1) by (auto simp: chunk_placed_def)
  then have "chunksize s p = small_index2size i" using small_index_size [OF f(2)] f(3) by simp
  then show thesis using that f(1,4) p_def by blast
qed

lemma malloc_exact_allocates:
  assumes ok: "heap_ok b s cs" and i: "i < 32" "smallmap_is_marked s i" "nb \<le> small_index2size i"
  shows "\<exists>r. malloc_exact i s = Ret r \<and> allocates b s cs nb r"
proof -
  obtain p s1 where p: "fd s (smallbin_at s i) = p" "p \<in> free_cells b cs - {dv s}" "chunksize s p = small_index2size i"
    "unlink_first_small_chunk (smallbin_at s i) p i s = Ret s1"
    "bins s1 (free_cells b cs - {dv s} - {p})" "bins_step s (free_cells b cs - {dv s}) s1"
    using first_small [OF ok i(1,2)] by blast
  have "allocates b s cs nb (chunk2mem p, set_inuse_and_pinuse p (small_index2size i) s1)"
    using allocates_whole [OF ok p(2) _ p(5,6), of nb] i(3) unfolding p(3) .
  then show ?thesis using p(1,4) by (simp add: malloc_exact_def Let_def)
qed

lemma malloc_next_bin_allocates:
  assumes ok: "heap_ok b s cs" and i: "i < 32" "smallmap_is_marked s i" "nb \<le> small_index2size i"
    and nb: "is_aligned nb" "32 \<le> unat nb" and dv: "is_small (dvsize s)"
  shows "\<exists>r. malloc_next_bin nb i s = Ret r \<and> allocates b s cs nb r"
proof -
  obtain p s1 where p: "fd s (smallbin_at s i) = p" "p \<in> free_cells b cs - {dv s}" "chunksize s p = small_index2size i"
    "unlink_first_small_chunk (smallbin_at s i) p i s = Ret s1"
    "bins s1 (free_cells b cs - {dv s} - {p})" "bins_step s (free_cells b cs - {dv s}) s1"
    using first_small [OF ok i(1,2)] by blast
  define n where "n = small_index2size i"
  have m: "malloc_next_bin nb i s =
      (if n - nb < MIN_CHUNK_SIZE then Ret (chunk2mem p, set_inuse_and_pinuse p n s1)
       else dbind (replace_dv (p + nb) (n - nb) (carve p nb (n - nb) s1)) (\<lambda>s. Ret (chunk2mem p, s)))"
    using p(1,4) by (simp add: malloc_next_bin_def Let_def dl_consts n_def)
  show ?thesis
  proof (cases "n - nb < MIN_CHUNK_SIZE")
    case True
    then show ?thesis using allocates_whole [OF ok p(2) _ p(5,6), of nb] i(3) m unfolding p(3) n_def by simp
  next
    case False
    have "unat (n - nb) = unat n - unat nb" using i(3) by (simp add: n_def word_le_nat_alt unat_sub)
    then have big: "unat nb + 32 \<le> unat (chunksize s p)"
      using False i(3) p(3) by (simp add: n_def dl_consts word_less_nat_alt word_le_nat_alt)
    define s2 where "s2 = carve p nb (n - nb) s1"
    obtain cs' where c: "heap_shape b s2 cs'" "free_cells b cs' = insert (p + nb) (free_cells b cs - {p})"
      "used_cells b cs' = insert (p, nb) (used_cells b cs)" "(p, nb) \<notin> used_cells b cs"
      "bins s2 (free_cells b cs' - {dv s2} - {p + nb})" "keeps_client b cs s s2" "victim_ok b s2 cs'"
      "chunksize s2 (p + nb) = n - nb" "p + nb \<noteq> dv s2" "dvsize s2 = dvsize s" "room s2 = room s"
      using carved [OF ok p(2) nb big p(5,6)] unfolding p(3) s2_def n_def by blast
    obtain s3 where s3: "replace_dv (p + nb) (n - nb) s2 = Ret s3" "heap_ok b s3 cs'"
      "keeps_client b cs' s2 s3" "room s3 = room s2"
      using finish_dv [OF c(1,7) _ c(9,5)] c(2,8,10) dv by auto
    have "client_words b cs \<subseteq> client_words b cs'" using c(3) by (auto simp: client_words_def)
    then have "keeps_client b cs s s3" using keeps_client_trans [OF c(6) s3(3)] by blast
    then have "allocates b s cs nb (chunk2mem p, s3)" unfolding allocates_def using s3 c(3,4,11) by auto
    then show ?thesis using m False s3(1) by (simp add: s2_def)
  qed
qed

section \<open>Requests beyond any chunk\<close>

lemma not_better:
  fixes c nb :: size_t
  assumes "c < nb"
  shows "\<not> c - nb < - nb"
proof
  assume "c - nb < - nb"
  moreover have "0 < nb" using assms by (auto simp: word_less_nat_alt)
  ultimately have "nb \<le> c" using fits_iff [of "- nb" nb c] by blast
  then show False using assms by simp
qed

lemma search_none:
  assumes "tree_at s t T" "T \<noteq> Leaf" "\<forall>x\<in>set_tree T. chunksize s x < nb" "set_tree T \<subseteq> Z"
    "\<exists>R. tree_at s rst R \<and> set_tree R \<subseteq> Z"
  shows "\<exists>r R. tree_search s nb t K rst 0 (- nb) = Some (0, - nb, r) \<and> tree_at s r R \<and> set_tree R \<subseteq> Z"
  using assms
proof (induction T arbitrary: t K rst)
  case (Node l a r)
  have a: "t = a" "tree_at s (child s a 0) l" "tree_at s (child s a 1) r" "\<not> chunksize s a - nb < - nb"
    using Node.prems(1,3) not_better by auto
  define rt where "rt = child s a 1"
  define t' where "t' = child s a (top_bit K)"
  define rst' where "rst' = (if rt \<noteq> 0 \<and> rt \<noteq> t' then rt else rst)"
  have step: "tree_search s nb t K rst 0 (- nb) =
      (if t' = 0 then Some (0, - nb, rst') else tree_search s nb t' (push_bit 1 K) rst' 0 (- nb))"
    using a(1,4) by (subst tree_search.simps) (simp add: Let_def rt_def t'_def rst'_def)
  have R: "\<exists>R. tree_at s rst' R \<and> set_tree R \<subseteq> Z"
    using Node.prems(4,5) a(3) by (auto simp: rst'_def rt_def)
  have "top_bit K = 0 \<or> top_bit K = 1" by (auto simp: top_bit_def and_one_eq odd_iff_mod_2_eq_one)
  then have "tree_at s t' l \<or> tree_at s t' r" using a(2,3) by (auto simp: t'_def)
  then obtain T' where T': "T' = l \<or> T' = r" "tree_at s t' T'" by blast
  show ?case
  proof (cases "t' = 0")
    case True
    then show ?thesis using step R by auto
  next
    case False
    then have "T' \<noteq> Leaf" using T'(2) tree_at_zero by blast
    then show ?thesis
      using T' Node.IH(1) [OF _ _ _ _ R, of t' "push_bit 1 K"] Node.IH(2) [OF _ _ _ _ R, of t' "push_bit 1 K"]
        Node.prems(3,4) False step by auto
  qed
qed simp

lemma least_none:
  assumes "tree_at s t T" "\<forall>x\<in>set_tree T. chunksize s x < nb"
  shows "least_in_tree s nb t 0 (- nb) = Some (0, - nb)"
  using assms
proof (induction T arbitrary: t)
  case Leaf
  then show ?case by (subst least_in_tree.simps) simp
next
  case (Node l a r)
  then have a: "t = a" "a \<noteq> 0" "tree_at s (child s a 0) l" "tree_at s (child s a 1) r" "\<not> chunksize s a - nb < - nb"
    using not_better by auto
  have "least_in_tree s nb (leftmost_child s a) 0 (- nb) = Some (0, - nb)"
    using Node.IH a(3,4) Node.prems(2) by (auto simp: leftmost_child_def)
  then show ?case using a(1,2,5) by (subst least_in_tree.simps) simp
qed

lemma tree_index_less: "compute_tree_index S < NTREEBINS"
proof -
  define X where "X = (ucast (drop_bit TREEBIN_SHIFT S) :: 32 word)"
  show ?thesis
  proof (cases "X = 0 \<or> X > 0xFFFF")
    case True
    then show ?thesis by (auto simp: compute_tree_index_def Let_def NTREEBINS_def simp flip: X_def)
  next
    case False
    then have "0 < unat X" "unat X < 2 ^ 16" by (auto simp: word_less_nat_alt unat_gt_0)
    then obtain k where k: "k < 16" "2 ^ k \<le> unat X" "unat X < 2 ^ Suc k" by (rule log16)
    define K where "K = 32 - 1 - builtin_clz X"
    have "list_all (\<lambda>k. (32 - 1 - of_nat (31 - k) :: 32 word) = of_nat k) [0..<16]" by code_simp
    then have "K = of_nat k"
      using k(1) clz_top [OF k(2,3)] unfolding K_def by (simp only: list_all_iff set_upt) auto
    moreover have "list_all (\<lambda>k. list_all (\<lambda>b. (ucast (ucast (push_bit 1 (of_nat k :: 32 word)) + b :: size_t) :: 32 word) < 32) [0, 1]) [0..<16]"
      by code_simp
    then have "(ucast (ucast (push_bit 1 (of_nat k :: 32 word)) + b :: size_t) :: 32 word) < 32" if "b = 0 \<or> b = 1" for b
      using k(1) that by (simp only: list_all_iff set_upt) auto
    moreover have "x AND 1 = 0 \<or> x AND 1 = 1" for x :: size_t by (auto simp: and_one_eq odd_iff_mod_2_eq_one)
    ultimately have "(ucast (ucast (push_bit 1 K) + (x AND 1)) :: 32 word) < 32" for x :: size_t by blast
    then show ?thesis
      using False by (simp only: compute_tree_index_def Let_def K_def X_def [symmetric]) (simp add: NTREEBINS_def)
  qed
qed

lemma tmalloc_large_none:
  assumes "large_store s B" "\<forall>x\<in>B. chunksize s x < nb" "0 < nb"
  shows "tmalloc_large nb s = Ret (0, s)"
proof -
  obtain X where X: "tree_bins s X" "large_chunks X \<subseteq> B" by (rule stored_shape [OF assms(1)]) blast
  have at: "tree_at s (treebin s i) (X i)" "set_tree (X i) \<subseteq> B" if "i < NTREEBINS" for i
    using X that bin_in_chunks [OF that, of X] by (auto simp: tree_bins_def tree_bin_def)
  define i where "i = compute_tree_index nb"
  have i: "i < NTREEBINS" unfolding i_def by (rule tree_index_less)
  have other: "\<exists>T. tree_at s (next_tree s i) T \<and> set_tree T \<subseteq> B"
  proof -
    have "compute_bit2idx (least_bit x) < NTREEBINS" if "x \<noteq> 0" for x
    proof -
      have "compute_bit2idx x < 32" "compute_bit2idx (least_bit x) = compute_bit2idx x"
        using compute_bit2idx_least [OF that] by blast+
      then show ?thesis by (simp only: NTREEBINS_def)
    qed
    note j = this
    show ?thesis
    proof (cases "left_bits (idx2bit i) AND treemap s = 0")
      case True
      then show ?thesis by (intro exI [of _ Leaf]) (simp add: next_tree_def)
    next
      case False
      then show ?thesis using at [OF j [OF False]] by (auto simp: next_tree_def)
    qed
  qed
  have "\<exists>r R. (if treebin s i \<noteq> 0
               then tree_search s nb (treebin s i) (push_bit (leftshift_for_tree_index i) nb) 0 0 (- nb)
               else Some (0, - nb, 0)) = Some (0, - nb, r) \<and> tree_at s r R \<and> set_tree R \<subseteq> B"
  proof (cases "treebin s i = 0")
    case False
    have "X i \<noteq> Leaf" using at(1) [OF i] False by auto
    moreover have "\<forall>x\<in>set_tree (X i). chunksize s x < nb" using at(2) [OF i] assms(2) by blast
    moreover have "\<exists>R. tree_at s 0 R \<and> set_tree R \<subseteq> B" by (rule exI [of _ Leaf]) simp
    ultimately show ?thesis using False search_none [OF at(1) [OF i] _ _ at(2) [OF i]] by simp
  qed (auto intro: exI [of _ Leaf])
  then obtain r R where r: "(if treebin s i \<noteq> 0
               then tree_search s nb (treebin s i) (push_bit (leftshift_for_tree_index i) nb) 0 0 (- nb)
               else Some (0, - nb, 0)) = Some (0, - nb, r)" "tree_at s r R" "set_tree R \<subseteq> B"
    by blast
  define u where "u = (if r = 0 then next_tree s i else r)"
  have "\<exists>T. tree_at s u T \<and> set_tree T \<subseteq> B" using other r(2,3) by (auto simp: u_def)
  then have "least_in_tree s nb u 0 (- nb) = Some (0, - nb)" using least_none assms(2) by (meson subsetD)
  then show ?thesis using r(1) unfolding tmalloc_large_def Let_def i_def [symmetric] by (simp add: u_def)
qed

section \<open>malloc\<close>

text \<open>A system without memory to give: \<open>mmap\<close> always fails. The request then fails as well.\<close>

definition no_memory :: "system \<Rightarrow> bool" where
  "no_memory os \<longleftrightarrow> (\<forall>k n h. sys_mmap os k n h = (CMFAIL, h))"

lemma CALL_MMAP_fails: "no_memory os \<Longrightarrow> CALL_MMAP os n s = (CMFAIL, s\<lparr>syscalls := Suc (syscalls s)\<rparr>)"
  by (simp add: CALL_MMAP_def no_memory_def)

lemma mmap_alloc_fails: "no_memory os \<Longrightarrow> \<exists>k. mmap_alloc os nb s = (0, s\<lparr>syscalls := k\<rparr>)"
  by (auto simp: mmap_alloc_def Let_def CALL_MMAP_fails intro: exI [of _ "syscalls s"])

lemma sys_alloc_fails:
  assumes "no_memory os" "mp_magic (mparams s) \<noteq> 0"
  shows "\<exists>k. sys_alloc os nb s = Ret (0, s\<lparr>syscalls := k\<rparr>)"
proof -
  obtain k where k: "mmap_alloc os nb s = (0, s\<lparr>syscalls := k\<rparr>)" using mmap_alloc_fails [OF assms(1)] by blast
  define j where "j = (if use_mmap s \<and> mmap_threshold (mparams s) \<le> nb \<and> topsize s \<noteq> 0 then k else syscalls s)"
  have "(if use_mmap s \<and> nb \<ge> mmap_threshold (mparams s) \<and> topsize s \<noteq> 0 then mmap_alloc os nb s else (0, s))
      = (0, s\<lparr>syscalls := j\<rparr>)"
    using k by (simp add: j_def)
  moreover have "ensure_initialization os s = Ret s" using assms(2) by (simp add: ensure_initialization_def)
  ultimately have "sys_alloc os nb s = Ret (0, s\<lparr>syscalls := j\<rparr>) \<or> sys_alloc os nb s = Ret (0, s\<lparr>syscalls := Suc j\<rparr>)"
    by (simp add: sys_alloc_def Let_def CALL_MMAP_fails [OF assms(1)])
  then show ?thesis by blast
qed

lemma malloc_dv_or_top_allocates:
  assumes ok: "heap_ok b s cs" and nb: "is_aligned nb" "32 \<le> unat nb"
  shows "(\<exists>r. malloc_dv_or_top os nb s = Ret r \<and> allocates b s cs nb r)
    \<or> malloc_dv_or_top os nb s = sys_alloc os nb s \<and> topsize s \<le> nb"
proof -
  consider "nb \<le> dvsize s" | "\<not> nb \<le> dvsize s" "nb < topsize s" | "\<not> nb \<le> dvsize s" "topsize s \<le> nb"
    using not_less by blast
  then show ?thesis
  proof cases
    case 1
    then have "malloc_dv_or_top os nb s = Ret (split_dv nb s)" by (simp add: malloc_dv_or_top_def)
    then show ?thesis using split_dv_allocates [OF ok nb 1] by blast
  next
    case 2
    then have "malloc_dv_or_top os nb s = Ret (split_top nb s)" by (simp add: malloc_dv_or_top_def)
    then show ?thesis using split_top_allocates [OF ok nb 2(2)] by blast
  next
    case 3
    then have "\<not> nb < topsize s" by simp
    with 3 show ?thesis by (simp add: malloc_dv_or_top_def)
  qed
qed

lemma served_nonzero: "allocates b s cs nb r \<Longrightarrow> fst r \<noteq> 0"
proof
  assume a: "allocates b s cs nb r" "fst r = 0"
  then obtain cs' p n where p: "fst r = chunk2mem p" "heap_ok b (snd r) cs'" "(p, n) \<in> used_cells b cs'"
    unfolding allocates_def by blast
  note H = heap_shapeD [OF heap_okD(1) [OF p(2)]]
  obtain xs ys where x: "cs' = xs @ (n, True) # ys" "p = cell_end b xs" using used_split [OF p(3)] by blast
  have "unat p = unat b + width xs" using unat_cell_end [of b xs] H(15) x by simp
  then have "unat (p + 16) = unat b + width xs + 16" using unat_field [of p 16] H(1,15) x by simp
  then show False using a(2) p(1) by (simp add: chunk2mem_def dl_consts)
qed

lemma nonzero_bit: "y \<noteq> 0 \<longleftrightarrow> (\<exists>i. bit y i)" for y :: "32 word"
  using bit_eqI [of y 0] by auto

lemma bit_and_three: "x AND 3 \<noteq> 0 \<longleftrightarrow> bit x 0 \<or> bit x 1" for x :: "32 word"
proof -
  have e: "(3 :: 32 word) = mask 2" by (simp add: mask_eq_exp_minus_1)
  have "bit (x AND 3) i \<longleftrightarrow> bit x i \<and> i < 2" for i by (simp only: e bit_and_iff bit_mask_iff) auto
  then have "x AND 3 \<noteq> 0 \<longleftrightarrow> (\<exists>i. bit x i \<and> i < 2)" by (simp only: nonzero_bit)
  then show ?thesis by (auto simp: less_2_cases_iff)
qed

lemma small_request:
  assumes "bytes \<le> MAX_SMALL_REQUEST"
  shows "is_small (request2size bytes)" "is_aligned (request2size bytes)" "32 \<le> unat (request2size bytes)"
    "small_index (request2size bytes) < 32" "small_index2size (small_index (request2size bytes)) = request2size bytes"
    "(if bytes < MIN_REQUEST then MIN_CHUNK_SIZE else pad_request bytes) = request2size bytes"
proof -
  have b: "unat bytes \<le> 232" using assms by (simp add: dl_consts word_le_nat_alt)
  then have "bytes < MAX_REQUEST" by (simp add: dl_consts word_less_nat_alt)
  from request2size_fits [OF this] show n: "is_aligned (request2size bytes)" "32 \<le> unat (request2size bytes)"
    by (simp_all add: dl_consts word_le_nat_alt)
  have "(unat bytes + 23) div 16 < 16" using b by (simp add: div_less_iff_less_mult)
  then have "unat (request2size bytes) < 256"
    using b unat_pad_request [of bytes] by (simp add: request2size_def dl_consts)
  then show s: "is_small (request2size bytes)" by (simp add: small_iff dl_consts word_le_nat_alt)
  then show "small_index (request2size bytes) < 32" using small_index_less by (simp add: NSMALLBINS_def)
  show "small_index2size (small_index (request2size bytes)) = request2size bytes" by (rule small_index_size [OF s n(1)])
  show "(if bytes < MIN_REQUEST then MIN_CHUNK_SIZE else pad_request bytes) = request2size bytes"
    by (simp add: request2size_def)
qed

lemma marked_iff: "i < 32 \<Longrightarrow> smallmap_is_marked s i \<longleftrightarrow> bit (smallmap s) (unat i)"
  unfolding smallmap_is_marked_def by (rule marked_bit)

lemma dv_below_small: "is_small nb \<Longrightarrow> dvsize s < nb \<Longrightarrow> is_small (dvsize s)"
  by (auto simp: small_iff)

lemma malloc_small_allocates:
  assumes ok: "heap_ok b s cs" and bytes: "bytes \<le> MAX_SMALL_REQUEST"
  defines "nb \<equiv> request2size bytes"
  shows "(\<exists>r. mspace_malloc os bytes s = Ret r \<and> allocates b s cs nb r)
    \<or> mspace_malloc os bytes s = sys_alloc os nb s \<and> topsize s \<le> nb"
proof -
  note O = heap_okD [OF ok]
  note B = small_request [OF bytes, folded nb_def]
  define idx where "idx = small_index nb"
  define m where "m = smallmap s"
  define bits where "bits = drop_bit (unat idx) m"
  have i: "idx < 32" "unat idx < 32" "unat (small_index2size idx) = 8 * unat idx" "small_index2size idx = nb"
    using B(4,5) unat_index_size [of idx] by (simp_all add: idx_def word_less_nat_alt)
  have bit: "bit bits k \<longleftrightarrow> bit m (unat idx + k)" for k by (simp add: bits_def bit_drop_bit_eq)
  have malloc: "mspace_malloc os bytes s =
      (if bits AND 3 \<noteq> 0 then malloc_exact (idx + (NOT bits AND 1)) s
       else if nb > dvsize s then
         if bits \<noteq> 0 then
           malloc_next_bin nb (compute_bit2idx (least_bit (push_bit (unat idx) bits AND left_bits (idx2bit idx)))) s
         else if treemap s \<noteq> 0 then or_else (tmalloc_small nb s) (malloc_dv_or_top os nb)
         else malloc_dv_or_top os nb s
       else malloc_dv_or_top os nb s)"
    using bytes unfolding mspace_malloc_def Let_def B(6) by (simp add: idx_def m_def bits_def flip: nb_def)
  note rest = malloc_dv_or_top_allocates [OF ok B(2,3), of os]
  show ?thesis
  proof (cases "bits AND 3 \<noteq> 0")
    case True
    define j where "j = idx + (NOT bits AND 1)"
    have "NOT bits AND 1 = (if bit bits 0 then 0 else 1)"
      by (rule bit_word_eqI) (auto simp: bit_and_iff bit_not_iff bit_1_iff)
    then have j: "j = (if bit bits 0 then idx else idx + 1)" by (simp add: j_def)
    have "unat j = (if bit bits 0 then unat idx else unat idx + 1)"
      using i(2) by (simp add: j unat_word_ariths)
    then have u: "bit m (unat j)" "unat idx \<le> unat j" using True bit [of 0] bit [of 1] by (auto simp: bit_and_three)
    then have j32: "j < 32" using bit_imp_le_length [OF u(1)] by (simp add: word_less_nat_alt)
    have "nb \<le> small_index2size j"
      using unat_index_size [OF j32] u(2) i(3) unfolding i(4) by (simp add: word_le_nat_alt)
    moreover have "smallmap_is_marked s j" using marked_iff [OF j32] u(1) by (simp add: m_def)
    ultimately show ?thesis using malloc_exact_allocates [OF ok j32] True malloc by (simp add: j_def)
  next
    case False
    show ?thesis
    proof (cases "nb > dvsize s \<and> bits \<noteq> 0")
      case True
      define left where "left = left_bits (idx2bit idx) AND m"
      have e: "push_bit (unat idx) bits AND left_bits (idx2bit idx) = left"
        by (rule bit_word_eqI) (auto simp: left_def bits_def bit_and_iff bit_push_bit_iff bit_drop_bit_eq bit_left_bits [OF i(1)])
      obtain k where k: "bit bits k" using True bit_eqI [of bits 0] by auto
      have "\<not> bit bits 0" using False bit_and_three by blast
      then have "k \<noteq> 0" using k by metis
      then have "bit left (unat idx + k)"
        using k bit bit_imp_le_length [of m "unat idx + k"] by (simp add: left_def bit_and_iff bit_left_bits [OF i(1)])
      then have "left \<noteq> 0" by auto
      define j where "j = compute_bit2idx (least_bit left)"
      have j: "idx < j" "j < 32" "smallmap_is_marked s j"
        using next_marked_bin [OF i(1), of m] \<open>left \<noteq> 0\<close>
        unfolding left_def [symmetric] Let_def j_def [symmetric] by (auto simp: smallmap_is_marked_def m_def)
      have "nb \<le> small_index2size j"
        using unat_index_size [OF j(2)] j(1) i(3) unfolding i(4) by (simp add: word_le_nat_alt word_less_nat_alt)
      from malloc_next_bin_allocates [OF ok j(2,3) this B(2,3) dv_below_small [OF B(1)]] True
      show ?thesis using False malloc e by (simp add: j_def)
    next
      case no: False
      show ?thesis
      proof (cases "nb > dvsize s \<and> treemap s \<noteq> 0")
        case True
        have "0 < nb" "nb \<le> MIN_LARGE_SIZE" using B(1,3) by (auto simp: small_iff word_less_nat_alt)
        then obtain v where v: "v \<in> free_cells b cs - {dv s}" "nb \<le> chunksize s v" "\<not> is_small (chunksize s v)"
          "tmalloc_small nb s = take_large nb v (chunksize s v - nb) replace_dv s"
          using tmalloc_small_bins [OF O(3), of nb] True by blast
        obtain r where r: "tmalloc_small nb s = Ret r" "allocates b s cs nb r"
          using take_large_allocates [OF ok v(1-3) B(2,3), of replace_dv] v(4) dv_below_small [OF B(1)] True by auto
        then show ?thesis
          using served_nonzero [OF r(2)] True no False malloc by (cases r) (auto simp: or_else_def)
      next
        case none: False
        then have "mspace_malloc os bytes s = malloc_dv_or_top os nb s" using no False malloc by auto
        then show ?thesis using rest by simp
      qed
    qed
  qed
qed

lemma malloc_large_allocates:
  assumes ok: "heap_ok b s cs" and bytes: "MAX_SMALL_REQUEST < bytes" "bytes < MAX_REQUEST"
  defines "nb \<equiv> request2size bytes"
  shows "(\<exists>r. mspace_malloc os bytes s = Ret r \<and> allocates b s cs nb r)
    \<or> mspace_malloc os bytes s = sys_alloc os nb s \<and> topsize s \<le> nb"
proof -
  note O = heap_okD [OF ok]
  have n: "is_aligned nb" "32 \<le> unat nb"
    using request2size_fits [OF bytes(2)] by (simp_all add: nb_def dl_consts word_le_nat_alt)
  have b: "232 < unat bytes" "unat bytes < 2 ^ 64 - 128"
    using bytes by (simp_all add: dl_consts word_less_nat_alt)
  have pad: "pad_request bytes = nb" using b by (simp add: nb_def request2size_def dl_consts word_less_nat_alt)
  have big: "MIN_LARGE_SIZE \<le> nb"
    using unat_pad_request [of bytes] b unfolding pad by (simp add: dl_consts word_le_nat_alt)
  have malloc: "mspace_malloc os bytes s =
      (if treemap s \<noteq> 0 then or_else (tmalloc_large nb s) (malloc_dv_or_top os nb) else malloc_dv_or_top os nb s)"
    using bytes unfolding mspace_malloc_def Let_def pad by (simp add: not_le [symmetric])
  note rest = malloc_dv_or_top_allocates [OF ok n, of os]
  show ?thesis
  proof (cases "treemap s \<noteq> 0")
    case False
    then show ?thesis using malloc rest by simp
  next
    case True
    have "tmalloc_large nb s = Ret (0, s) \<or> (\<exists>v\<in>free_cells b cs - {dv s}. nb \<le> chunksize s v
        \<and> \<not> is_small (chunksize s v) \<and> tmalloc_large nb s = take_large nb v (chunksize s v - nb) insert_chunk s)"
    proof (cases "nb < 2 ^ 40")
      case lt: True
      show ?thesis by (rule tmalloc_large_bins [OF O(3) big lt])
    next
      case False
      obtain Y B where B: "large_store s B" "free_cells b cs - {dv s} = small_all Y \<union> B" using O(3) by (auto simp: bins_def)
      have "\<forall>x\<in>B. chunksize s x < nb" using large_store_sizes(2) [OF B(1)] False by fastforce
      then show ?thesis using tmalloc_large_none [OF B(1)] n(2) by (auto simp: word_less_nat_alt)
    qed
    then show ?thesis
    proof (elim disjE bexE conjE)
      assume "tmalloc_large nb s = Ret (0, s)"
      then show ?thesis using malloc rest True by (simp add: or_else_def)
    next
      fix v assume v: "v \<in> free_cells b cs - {dv s}" "nb \<le> chunksize s v" "\<not> is_small (chunksize s v)"
        "tmalloc_large nb s = take_large nb v (chunksize s v - nb) insert_chunk s"
      obtain r where r: "tmalloc_large nb s = Ret r" "allocates b s cs nb r"
        using take_large_allocates [OF ok v(1-3) n, of insert_chunk] v(4) by auto
      then show ?thesis
        using served_nonzero [OF r(2)] True malloc by (cases r) (auto simp: or_else_def)
    qed
  qed
qed

lemma malloc_allocates:
  assumes "heap_ok b s cs" "bytes < MAX_REQUEST"
  shows "(\<exists>r. mspace_malloc os bytes s = Ret r \<and> allocates b s cs (request2size bytes) r)
    \<or> mspace_malloc os bytes s = sys_alloc os (request2size bytes) s \<and> topsize s \<le> request2size bytes"
  using malloc_small_allocates [OF assms(1)] malloc_large_allocates [OF assms(1) _ assms(2)] not_le by blast

lemma heap_ok_syscalls: "heap_ok b (s\<lparr>syscalls := k\<rparr>) cs = heap_ok b s cs"
proof -
  have "heap_shape b (s\<lparr>syscalls := k\<rparr>) cs = heap_shape b s cs"
    by (rule iffI; erule heap_shape_cong) (simp_all add: head_def)
  moreover have "bins (s\<lparr>syscalls := k\<rparr>) A = bins s A" for A by (rule iffI; erule bins_cong) (simp_all add: head_def)
  ultimately show ?thesis by (simp add: heap_ok_def victim_ok_def chunksize_def head_def)
qed

text \<open>With a system that gives no memory every request returns.\<close>

lemma malloc_returns:
  assumes ok: "heap_ok b s cs" and os: "no_memory os"
  shows "(\<exists>r. mspace_malloc os bytes s = Ret r \<and> bytes < MAX_REQUEST \<and> allocates b s cs (request2size bytes) r)
    \<or> (\<exists>k. mspace_malloc os bytes s = Ret (0, s\<lparr>syscalls := k\<rparr>))"
proof -
  note H = heap_shapeD [OF heap_okD(1) [OF ok]]
  have sys: "\<exists>k. sys_alloc os nb s = Ret (0, s\<lparr>syscalls := k\<rparr>)" for nb
    using sys_alloc_fails [OF os] H(14) by (simp add: sole_segment_def)
  show ?thesis
  proof (cases "bytes < MAX_REQUEST")
    case True
    then show ?thesis using malloc_allocates [OF ok True, of os] sys by metis
  next
    case False
    have "dvsize s < 2 ^ 40"
    proof (cases "dvsize s = 0")
      case False
      then have v: "dv s \<in> free_cells b cs" "chunksize s (dv s) = dvsize s" using heap_okD(4) [OF ok] by blast+
      have "chunk_placed s (dv s)" by (rule placedD(4) [OF heap_placed [OF heap_okD(1) [OF ok]] v(1)])
      then show ?thesis unfolding chunk_placed_def v(2) by blast
    qed simp
    moreover have "topsize s < 2 ^ 40" using H(7) by (simp add: word_less_nat_alt)
    ultimately have "malloc_dv_or_top os MAX_SIZE_T s = sys_alloc os MAX_SIZE_T s"
      by (simp add: malloc_dv_or_top_def dl_consts word_less_nat_alt word_le_nat_alt)
    moreover have "\<not> bytes \<le> MAX_SMALL_REQUEST" using False by (simp add: dl_consts word_less_nat_alt word_le_nat_alt)
    ultimately have "mspace_malloc os bytes s = sys_alloc os MAX_SIZE_T s"
      using False by (simp add: mspace_malloc_def not_less)
    then show ?thesis using sys by metis
  qed
qed

end
