(* ===== verification/Dl_Heap_Free.thy ===== *)
theory Dl_Heap_Free
  imports Dl_Heap_Malloc
begin

unbundle bit_operations_syntax

text \<open>
  \<open>mspace_free\<close> on any heap: whatever lies before and behind the chunk, it is merged with its free neighbours
  and goes to \<open>top\<close>, to the designated victim or to a bin; the heap is in order afterwards and the words of the
  other chunks in use are as before.
\<close>

section \<open>A stretch of the row becomes one free chunk\<close>

lemma width_aligned: "cells s p u cs \<Longrightarrow> 16 dvd width cs"
  by (induction s p u cs rule: cells.induct) (auto simp: is_aligned_iff)

lemma make_free:
  assumes h: "heap_shape b s (xs @ mid @ (k, True) # ys)" and q: "q = cell_end b xs" "last_used True xs"
    and mid: "mid \<noteq> []" and N: "unat N = width mid" and e: "e = q + N"
    and same: "same_globals s s'" "mtop s' = mtop s" "topsize s' = topsize s"
    and writes: "malloc_state.heap s' = (malloc_state.heap s)(e + 8 := cell_head k False True, q + 8 := N OR 1, e := N)"
    and A: "A \<subseteq> free_cells b xs \<union> free_cells e ((k, True) # ys)" "bins s A"
  defines "cs' \<equiv> xs @ (N, False) # (k, True) # ys"
  shows "heap_shape b s' cs'" "bins s' A" "keeps_client b cs' s s'" "chunksize s' q = N"
    "x \<in> free_cells b xs \<union> free_cells e ((k, True) # ys) \<Longrightarrow> chunksize s' x = chunksize s x \<and> x \<noteq> q"
    "free_cells b cs' = insert q (free_cells b xs \<union> free_cells e ((k, True) # ys))"
proof -
  note H = heap_shapeD [OF h]
  have w: "unat b + width xs + width mid + unat k + width ys + 8 < 2 ^ 64" using H(15) by simp
  have uq: "unat q = unat b + width xs" using unat_cell_end [of b xs] w q(1) by simp
  have ue: "unat e = unat q + unat N" using unat_field [of q N] uq w N e by simp
  have end_mid: "cell_end q mid = e" using unat_cell_end [of q mid] uq ue w N by (simp add: word_unat_eq_iff)
  have cm: "cells s q True mid" "cells s e (last_used True mid) ((k, True) # ys)" "cells s b True xs"
    using H(1) q end_mid by simp_all
  have k: "32 \<le> unat k" "is_aligned k" using cm(2) by simp_all
  have "16 dvd width mid" by (rule width_aligned [OF cm(1)])
  then have alN: "is_aligned N" using N by (simp add: is_aligned_iff)
  obtain n v mid' where m1: "mid = (n, v) # mid'" using mid by (cases mid) auto
  have N32: "32 \<le> unat N" using cm(1) N by (simp add: m1)
  have u8: "unat (q + 8) = unat q + 8" "unat (e + 8) = unat e + 8"
    using unat_field [of q 8] unat_field [of e 8] uq ue w N k(1) by simp_all
  have d: "q + 8 \<noteq> e + 8" "e \<noteq> q + 8" "e \<noteq> e + 8" using u8 ue N32 by (auto dest!: arg_cong [where f = unat])
  have hN: "N OR 1 = cell_head N True False" using cell_bits [OF alN] by simp
  have heap: "malloc_state.heap s' a = malloc_state.heap s a" if "a \<noteq> e + 8" "a \<noteq> q + 8" "a \<noteq> e" for a
    using that by (simp add: writes)
  have G: "mst s' = mst s" "least_addr s' = least_addr s" "mparams s' = mparams s" "smallmap s' = smallmap s"
    "treemap s' = treemap s"
    using same(1) by (simp_all add: same_globals_def)
  have shape: "heap_shape b s' (xs @ [(N, False)] @ (k, True) # ys)"
  proof (rule row_change [OF h q(1) G(1-3) same(2,3)])
    show "width [(N, False)] = width mid" using N by simp
    show "cells s' q (last_used True xs) [(N, False)]"
      using q(2) alN N32 d by (simp add: writes head_def prev_foot_def hN flip: e)
    have "cells s' e False ((k, True) # ys)"
    proof (rule cells_after [OF cm(2)])
      show "unat e + unat k + width ys + 8 < 2 ^ 64" using ue uq N w by simp
      show "head s' e = cell_head k False True" using d by (simp add: writes head_def)
      show "malloc_state.heap s' a = malloc_state.heap s a" if "unat e + 8 < unat a" for a
        by (rule heap) (use that u8 ue in auto)
    qed simp
    then show "cells s' (cell_end q mid) (last_used (last_used True xs) [(N, False)]) ((k, True) # ys)"
      by (simp only: end_mid last_used.simps)
    show "last_used True (xs @ [(N, False)] @ (k, True) # ys)" using H(2) by simp
    show "malloc_state.heap s' a = malloc_state.heap s a" if "unat a < unat q + 8" for a
    proof (rule heap)
      show "a \<noteq> e + 8" "a \<noteq> q + 8" "a \<noteq> e" using that u8 ue N32 by auto
    qed
    have "unat (mtop s + 8) = unat e + unat k + width ys + 8" using H(18) ue uq N by simp
    then show "malloc_state.heap s' (mtop s + 8) = malloc_state.heap s (mtop s + 8)"
      by (intro heap) (use u8 ue k(1) in auto)
  qed
  then show sh: "heap_shape b s' cs'" by (simp add: cs'_def)
  note H' = heap_shapeD [OF sh]
  show "free_cells b cs' = insert q (free_cells b xs \<union> free_cells e ((k, True) # ys))"
    by (simp add: cs'_def flip: q(1) e)
  have pos: "unat x + 32 \<le> unat q \<or> unat e + 32 \<le> unat x"
    if x: "x \<in> free_cells b xs \<union> free_cells e ((k, True) # ys)" for x
    using x
  proof
    assume "x \<in> free_cells b xs"
    from frees_range(2,3) [OF cm(3) _ this] show ?thesis using w uq by simp
  next
    assume "x \<in> free_cells e ((k, True) # ys)"
    then have x: "x \<in> free_cells (e + k) ys" by simp
    have "unat (e + k) = unat e + unat k" using unat_field [of e k] ue uq N w by simp
    moreover have "cells s (e + k) True ys" using cm(2) by simp
    ultimately show ?thesis using frees_range(1) [OF _ _ x, of s True] ue uq N w k(1) by simp
  qed
  have keep: "head s' x = head s x \<and> x \<noteq> q" if x: "x \<in> free_cells b xs \<union> free_cells e ((k, True) # ys)" for x
  proof -
    have "x \<noteq> q" "x \<noteq> e" using pos [OF x] ue N32 by auto
    moreover have "x + 8 \<noteq> e"
    proof
      assume "x + 8 = e"
      moreover have "unat x + 8 < 2 ^ 64"
        using pos [OF x] ue uq N w addr_below [of x] placed_offset [OF placedD(4) [OF heap_placed [OF sh]], of x 8]
          \<open>free_cells b cs' = _\<close> x placedD(4) [OF heap_placed [OF sh], of x] by (auto simp: chunk_placed_def)
      ultimately have "unat e = unat x + 8" using unat_field [of x 8] by simp
      then show False using pos [OF x] ue N32 by auto
    qed
    ultimately show ?thesis unfolding head_def by (intro conjI heap) simp_all
  qed
  then show "x \<in> free_cells b xs \<union> free_cells e ((k, True) # ys) \<Longrightarrow> chunksize s' x = chunksize s x \<and> x \<noteq> q"
    by (simp add: chunksize_def)
  show "chunksize s' q = N"
    by (rule cell_size [OF _ alN, where u = True and v = False]) (use d in \<open>simp add: writes head_def hN\<close>)
  have cw: "q + 8 \<in> cell_words b cs'" "e \<in> cell_words b cs'" "e + 8 \<in> cell_words b cs'"
    by (simp_all add: cs'_def flip: q(1) e)
  show "keeps_client b cs' s s'"
    unfolding keeps_client_def using client_outside(1) [OF sh] cw heap by metis
  have fr: "free_cells b (xs @ mid @ (k, True) # ys) = free_cells b xs \<union> (free_cells q mid \<union> free_cells e ((k, True) # ys))"
    using q(1) end_mid by simp
  have sub: "A \<subseteq> free_cells b (xs @ mid @ (k, True) # ys)" unfolding fr using A(1) by blast
  have old: "q + 8 \<in> cell_words b (xs @ mid @ (k, True) # ys)" "e + 8 \<in> cell_words b (xs @ mid @ (k, True) # ys)"
    using end_mid by (simp_all add: m1 flip: q(1))
  have foot: "e \<in> cell_words b (xs @ mid @ (k, True) # ys) \<or> e \<in> client_words b (xs @ mid @ (k, True) # ys)"
  proof -
    obtain ms n v where m: "mid = ms @ [(n, v)]" using mid by (cases mid rule: rev_cases) auto
    define c where "c = cell_end q ms"
    have c: "c + n = e" using end_mid by (simp add: m c_def)
    show ?thesis
    proof (cases v)
      case False
      then show ?thesis using c by (simp add: m c_def flip: q(1))
    next
      case True
      have "unat c = unat q + width ms" using unat_cell_end [of q ms] uq w by (simp add: m c_def)
      moreover have "32 \<le> unat n" using cm(1) by (simp add: m)
      ultimately have "e \<in> payload c n" using c unat_field [of c n] uq w by (simp add: payload_def m)
      then show ?thesis using True by (simp add: m c_def flip: q(1))
    qed
  qed
  show "bins s' A"
  proof (rule bins_cong [OF A(2) G(1,2,4,5)])
    show "head s' x = head s x" if "x \<in> A" for x using keep that A(1) by blast
    show "malloc_state.heap s' a = malloc_state.heap s a" if "a \<in> bin_words s A" for a
      by (rule heap) (use not_bin_words [OF h sub] old foot that in blast)+
  qed
qed

text \<open>The last cells of the row become part of \<open>top\<close>.\<close>

lemma make_top:
  assumes h: "heap_shape b s (xs @ mid)" and q: "q = cell_end b xs" "last_used True xs" and N: "unat N = width mid"
    and same: "same_globals s s'" "mtop s' = q" "topsize s' = topsize s + N"
    and writes: "malloc_state.heap s' = (malloc_state.heap s)(q + 8 := (topsize s + N) OR 1)"
    and A: "A \<subseteq> free_cells b xs" "bins s A"
  shows "heap_shape b s' xs" "bins s' A" "keeps_client b xs s s'" "room s' = room s"
    "x \<in> free_cells b xs \<Longrightarrow> chunksize s' x = chunksize s x"
proof -
  note H = heap_shapeD [OF h]
  have w: "unat b + width xs + width mid + unat (topsize s) + 80 < 2 ^ 64" using H(8) by simp
  have uq: "unat q = unat b + width xs" using unat_cell_end [of b xs] w q(1) by simp
  have ut: "unat (topsize s + N) = unat (topsize s) + width mid" using unat_field [of "topsize s" N] w N by simp
  have u8: "unat (q + 8) = unat q + 8" using unat_field [of q 8] uq w by simp
  have cx: "cells s b True xs" using H(1) by simp
  have "16 dvd width mid" using width_aligned [of s "cell_end b xs" _ mid] H(1) by auto
  then have al: "is_aligned (topsize s + N)" using ut H(5) by (simp add: is_aligned_iff)
  have heap: "malloc_state.heap s' a = malloc_state.heap s a" if "unat a < unat q + 8" for a
    using that u8 by (auto simp: writes)
  have G: "mst s' = mst s" "least_addr s' = least_addr s" "mparams s' = mparams s" "smallmap s' = smallmap s"
    "treemap s' = treemap s"
    using same(1) by (simp_all add: same_globals_def)
  have w8: "unat b + width xs + 8 < 2 ^ 64" using w by simp
  have below: "malloc_state.heap s' a = malloc_state.heap s a" if "a \<in> cell_words b xs" for a
    using cell_words_range [OF cx w8 that] uq by (intro heap) simp
  have heads: "head s' x = head s x" if x: "x \<in> free_cells b xs" for x
    using below [OF free_head_word [OF x]] by (simp add: head_def)
  then show "x \<in> free_cells b xs \<Longrightarrow> chunksize s' x = chunksize s x" by (simp add: chunksize_def)
  show room: "room s' = room s" using uq ut H(17) same(2,3) by (simp add: room_def)
  show sh: "heap_shape b s' xs"
  proof (rule heap_shape_change [OF h G(1-3)])
    show "cells s' b True xs" using cells_cong [of b xs s' s] below cx by blast
    show "last_used True xs" "cell_end b xs = mtop s'" using q same(2) by simp_all
    show "head s' (mtop s') = cell_head (topsize s') True False"
      using cell_bits(7) [OF al] by (simp add: head_def writes same(2,3))
    show "is_aligned (topsize s')" using al by (simp add: same(3))
    show "0 < topsize s'" using ut H(6) by (simp add: same(3) word_less_nat_alt)
    show "width xs + unat (topsize s') = width (xs @ mid) + unat (topsize s)" using ut by (simp add: same(3))
    show "malloc_state.heap s' a = malloc_state.heap s a" if "a \<in> seg_words s" for a
      by (rule heap) (use that H(12) uq in \<open>simp add: seg_words_def\<close>)
  qed
  show "bins s' A"
  proof (rule bins_cong [OF A(2) G(1,2,4,5)])
    show "head s' x = head s x" if "x \<in> A" for x using heads that A(1) by blast
    show "malloc_state.heap s' a = malloc_state.heap s a" if "a \<in> bin_words s A" for a
    proof (rule heap)
      from that consider "a \<in> bin_area s" | x where "x \<in> A" "a \<in> inner s x" by (auto simp: bin_words_def)
      then show "unat a < unat q + 8"
        using inner_not_cell(2) [OF cx w8] A(1) H(12) uq by cases (fastforce simp: bin_area_def)+
    qed
  qed
  show "keeps_client b xs s s'"
    unfolding keeps_client_def
  proof
    fix a assume "a \<in> client_words b xs"
    from client_words_range [OF cx w8 this] uq show "malloc_state.heap s' a = malloc_state.heap s a"
      by (intro heap) simp
  qed
qed

section \<open>The end of a release\<close>

definition releases :: "addr \<Rightarrow> malloc_state \<Rightarrow> cell list \<Rightarrow> addr \<times> size_t \<Rightarrow> malloc_state \<Rightarrow> bool" where
  "releases b s cs c s' \<longleftrightarrow>
     (\<exists>cs'. heap_ok b s' cs' \<and> used_cells b cs' = used_cells b cs - {c} \<and> keeps_client b cs' s s' \<and> room s' = room s)"

lemma heap_ok_counters:
  "heap_ok b (s\<lparr>release_checks := j\<rparr>) cs = heap_ok b s cs" "heap_ok b (s\<lparr>trim_check := j\<rparr>) cs = heap_ok b s cs"
  "room (s\<lparr>release_checks := j\<rparr>) = room s" "room (s\<lparr>trim_check := j\<rparr>) = room s"
proof -
  have "heap_shape b (s\<lparr>release_checks := j\<rparr>) cs = heap_shape b s cs" "heap_shape b (s\<lparr>trim_check := j\<rparr>) cs = heap_shape b s cs"
    by (rule iffI; erule heap_shape_cong; simp add: head_def)+
  moreover have "bins (s\<lparr>release_checks := j\<rparr>) A = bins s A" "bins (s\<lparr>trim_check := j\<rparr>) A = bins s A" for A
    by (rule iffI; erule bins_cong; simp add: head_def)+
  ultimately show "heap_ok b (s\<lparr>release_checks := j\<rparr>) cs = heap_ok b s cs"
    "heap_ok b (s\<lparr>trim_check := j\<rparr>) cs = heap_ok b s cs"
    by (simp_all add: heap_ok_def victim_ok_def chunksize_def head_def)
qed (simp_all add: room_def)

lemma no_unused_segments:
  assumes "sole_segment s"
  shows "release_unused_segments os s = Ret (0, s\<lparr>release_checks := MAX_RELEASE_CHECK_RATE\<rparr>)"
proof -
  have "seg_next s (first_seg s) = 0" using assms by (simp add: sole_segment_def)
  then show ?thesis
    unfolding release_unused_segments_def by (subst release_from.simps) (simp add: dl_consts)
qed

lemma sole_segment_checks: "sole_segment (s\<lparr>release_checks := j\<rparr>) = sole_segment s"
  by (simp add: sole_segment_def first_seg_def seg_next_def seg_base_def seg_size_def is_extern_segment_def sflags_def rd32_def)

lemma finish_bin:
  assumes "heap_shape b s cs" "victim_ok b s cs" "q \<in> free_cells b cs" "q \<noteq> dv s"
    "bins s (free_cells b cs - {dv s} - {q})"
  shows "\<exists>s'. bin_freed os q (chunksize s q) s = Ret s' \<and> heap_ok b s' cs \<and> keeps_client b cs s s' \<and> room s' = room s"
proof -
  let ?A = "free_cells b cs - {dv s} - {q}"
  have pl: "placed s (insert q ?A)"
    by (rule placed_mono [OF heap_placed [OF assms(1)]]) (use assms(3) in auto)
  have q: "q \<notin> ?A" by simp
  show ?thesis
  proof (cases "is_small (chunksize s q)")
    case True
    from insert_small_effect [OF assms(5) q pl True] obtain s1 where s1: "insert_small_chunk q (chunksize s q) s = Ret s1"
      "bins s1 (insert q ?A)" "bins_step s (insert q ?A) s1" by blast
    from inserted [OF assms(1-4) s1(2,3)] s1(1) True show ?thesis by (simp add: bin_freed_def)
  next
    case False
    from insert_large_effect [OF assms(5) q pl False] obtain s1 where s1: "insert_large_chunk q (chunksize s q) s = Ret s1"
      "bins s1 (insert q ?A)" "bins_step s (insert q ?A) s1" by blast
    note I = inserted [OF assms(1-4) s1(2,3)]
    define s2 where "s2 = s1\<lparr>release_checks := release_checks s1 - 1\<rparr>"
    have "sole_segment s2"
      using heap_shapeD(14) [OF heap_okD(1) [OF I(1)]] by (simp add: s2_def sole_segment_checks)
    note r = no_unused_segments [OF this, of os]
    define s3 where "s3 = (if release_checks s2 = 0 then s2\<lparr>release_checks := MAX_RELEASE_CHECK_RATE\<rparr> else s2)"
    have "bin_freed os q (chunksize s q) s =
        (if release_checks s2 = 0 then dbind (release_unused_segments os s2) (\<lambda>(n, s). Ret s) else Ret s2)"
      using False s1(1) unfolding bin_freed_def Let_def s2_def by (simp only: dbind.simps if_False)
    then have "bin_freed os q (chunksize s q) s = Ret s3" by (simp only: r s3_def) simp
    moreover have "heap_ok b s3 cs" "room s3 = room s1"
      using I(1) by (simp_all add: s3_def s2_def heap_ok_counters)
    moreover have "keeps_client b cs s s3" using I(2) by (simp add: keeps_client_def s3_def s2_def)
    ultimately show ?thesis using I(3) by auto
  qed
qed

lemma finish_victim:
  assumes "heap_shape b s cs" "q \<in> free_cells b cs" "q = dv s" "dvsize s = chunksize s q" "bins s (free_cells b cs - {q})"
  shows "heap_ok b s cs"
  using assms free_nonzero [OF assms(1,2)] by (simp add: heap_ok_def victim_ok_def)

lemma finish_trim:
  assumes "heap_ok b s cs"
  shows "\<exists>s'. (if should_trim s (topsize s) then dbind (sys_trim os 0 s) (\<lambda>(b, s). Ret s) else Ret s) = Ret s'
    \<and> heap_ok b s' cs \<and> keeps_client b cs s s' \<and> room s' = room s"
proof (cases "should_trim s (topsize s)")
  case True
  note H = heap_shapeD [OF heap_okD(1) [OF assms]]
  have m: "0 < mtop s" using H(12,17) by (simp add: word_less_nat_alt)
  have "topsize s > trim_check s" using True by (simp add: should_trim_def)
  from trim_fails [OF H(14) m H(6) this, of os] True assms show ?thesis
    by (simp add: heap_ok_counters keeps_client_def)
next
  case False
  then show ?thesis using assms by (simp add: keeps_client_def)
qed

section \<open>Merging with the neighbours\<close>

text \<open>
  The stretch \<open>mid\<close> of the row, from \<open>q\<close> to the end of the chunk \<open>(p, n)\<close>, is merged; \<open>s1\<close> is the state in
  which its free chunk has left the bins.
\<close>

definition stretch :: "addr \<Rightarrow> malloc_state \<Rightarrow> cell list \<Rightarrow> addr \<Rightarrow> size_t \<Rightarrow> cell list \<Rightarrow> cell list \<Rightarrow> addr \<Rightarrow> size_t \<Rightarrow> malloc_state \<Rightarrow> bool"
  where
  "stretch b s cs p n zs mid q N s1 \<longleftrightarrow>
     mid \<noteq> [] \<and> q = cell_end b zs \<and> last_used True zs \<and> last_used True mid \<and> unat N = width mid \<and> q + N = p + n
       \<and> free_cells q mid \<subseteq> {q} \<and> used_cells q mid = {(p, n)} \<and> bins s1 (free_cells b cs - {dv s} - {q})
       \<and> bins_step s (free_cells b cs - {dv s}) s1"

lemma bins_step_refl: "bins_step s A s"
  by (simp add: bins_step_def)

lemma used_cell:
  assumes "heap_shape b s cs" "(p, n) \<in> used_cells b cs"
  obtains xs ys where "cs = xs @ (n, True) # ys" "p = cell_end b xs" "head s p = cell_head n (last_used True xs) True"
    "is_aligned n" "32 \<le> unat n" "unat p = unat b + width xs" "unat (p + n) = unat p + unat n"
    "cells s (p + n) True ys"
proof -
  note H = heap_shapeD [OF assms(1)]
  obtain xs ys where c: "cs = xs @ (n, True) # ys" "p = cell_end b xs" using used_split [OF assms(2)] by blast
  have "unat p = unat b + width xs" using unat_cell_end [of b xs] c H(15) by simp
  moreover from this have "unat (p + n) = unat p + unat n" using unat_field [of p n] H(15) c(1) by simp
  ultimately show thesis using that [OF c] H(1) c by simp
qed

lemma backward_merges:
  assumes ok: "heap_ok b s (xs @ (n, True) # ys)" and p: "p = cell_end b xs"
  defines "cs \<equiv> xs @ (n, True) # ys"
  shows "(\<exists>zs mid q N s1. merge_backward os p n (p + n) s = Ret (Inr (q, N, s1))
        \<and> xs @ [(n, True)] = zs @ mid \<and> stretch b s cs p n zs mid q N s1
        \<and> (q = dv s \<longrightarrow> head s (p + n) AND INUSE_BITS \<noteq> INUSE_BITS))
    \<or> (\<exists>m zs. xs = zs @ [(m, False)] \<and> cell_end b zs = dv s \<and> last_used True zs \<and> head s (p + n) AND INUSE_BITS = INUSE_BITS
        \<and> unat (n + m) = unat n + unat m
        \<and> merge_backward os p n (p + n) s =
            Ret (Inl (set_free_with_pinuse (dv s) (n + m) (p + n) (s\<lparr>dvsize := n + m\<rparr>))))"
proof -
  note O = heap_okD [OF ok, folded cs_def]
  note H = heap_shapeD [OF O(1)]
  have w: "unat b + width xs + unat n + width ys + 8 < 2 ^ 64" using H(15) by (simp add: cs_def)
  have up: "unat p = unat b + width xs" using unat_cell_end [of b xs] w p by simp
  have c: "cells s b True xs" "head s p = cell_head n (last_used True xs) True" "is_aligned n" "32 \<le> unat n"
    using H(1) p by (simp_all add: cs_def)
  have pin: "pinuse s p \<longleftrightarrow> last_used True xs" using c(2) cell_bits(1) [OF c(3)] by (simp add: pinuse_def dl_consts)
  show ?thesis
  proof (cases "last_used True xs")
    case True
    have "p \<notin> free_cells b cs"
      using cell_end_free [of s b True xs n True ys] H(1,15) p by (simp add: cs_def)
    then have "free_cells b cs - {dv s} - {p} = free_cells b cs - {dv s}" by auto
    then have "stretch b s cs p n xs [(n, True)] p n s"
      using True p O(3) by (simp add: stretch_def bins_step_refl)
    moreover have "p \<noteq> dv s"
      using \<open>p \<notin> free_cells b cs\<close> O(4,5) H(12) up by (cases "dvsize s = 0") auto
    moreover have "merge_backward os p n (p + n) s = Ret (Inr (p, n, s))" using True pin by (simp add: merge_backward_def)
    ultimately show ?thesis by blast
  next
    case False
    then obtain zs m where x: "xs = zs @ [(m, False)]" by (cases xs rule: rev_cases) (auto split: if_splits)
    define q where "q = cell_end b zs"
    have m: "head s q = cell_head m (last_used True zs) False" "is_aligned m" "32 \<le> unat m" "last_used True zs"
      "prev_foot s (q + m) = m"
      using c(1) x by (simp_all add: q_def)
    have pq: "p = q + m" using p x by (simp add: q_def)
    have q: "q \<in> free_cells b cs" using x by (simp add: cs_def q_def)
    have sz: "chunksize s q = m" by (rule cell_size [OF m(1,2)])
    have foot: "prev_foot s p = m" "p - m = q" using m(5) pq by simp_all
    have umn: "unat (n + m) = unat n + unat m" using unat_field [of n m] w x by simp
    have mm: "\<not> is_mmapped s p" using c(2) cell_bits(4) [OF c(3)] False by (simp add: is_mmapped_def dl_consts)
    have oka: "ok_address s q" using placedD(4) [OF heap_placed [OF O(1)] q] by (simp add: chunk_placed_def)
    have merge: "merge_backward os p n (p + n) s =
        (if q \<noteq> dv s then dbind (unlink_chunk q m s) (\<lambda>s. Ret (Inr (q, n + m, s)))
         else if head s (p + n) AND INUSE_BITS = INUSE_BITS
         then Ret (Inl (set_free_with_pinuse q (n + m) (p + n) (s\<lparr>dvsize := n + m\<rparr>)))
         else Ret (Inr (q, n + m, s)))"
      using False pin mm foot oka by (simp add: merge_backward_def Let_def)
    have st: "stretch b s cs p n zs [(m, False), (n, True)] q (n + m) s1"
      if "bins s1 (free_cells b cs - {dv s} - {q})" "bins_step s (free_cells b cs - {dv s}) s1" for s1
      using that m(4) umn pq by (simp add: stretch_def q_def add.commute)
    consider "q \<noteq> dv s" | "q = dv s" "head s (p + n) AND INUSE_BITS = INUSE_BITS"
      | "q = dv s" "head s (p + n) AND INUSE_BITS \<noteq> INUSE_BITS" by blast
    then show ?thesis
    proof cases
      case 1
      then have "q \<in> free_cells b cs - {dv s}" using q by blast
      then obtain s1 where s1: "unlink_chunk q m s = Ret s1" "bins s1 (free_cells b cs - {dv s} - {q})"
        "bins_step s (free_cells b cs - {dv s}) s1"
        using unlink_chunk_effect [OF O(3), of q] unfolding sz by blast
      have "merge_backward os p n (p + n) s = Ret (Inr (q, n + m, s1))" using merge 1 s1(1) by simp
      moreover have "xs @ [(n, True)] = zs @ [(m, False), (n, True)]" using x by simp
      ultimately show ?thesis using st [OF s1(2,3)] 1 by blast
    next
      case 2
      then show ?thesis using merge x m(4) umn unfolding q_def by auto
    next
      case 3
      then have "merge_backward os p n (p + n) s = Ret (Inr (q, n + m, s))" using merge by simp
      moreover have "xs @ [(n, True)] = zs @ [(m, False), (n, True)]" using x by simp
      moreover have "bins s (free_cells b cs - {dv s} - {q})" using O(3) 3(1) by simp
      ultimately show ?thesis using st [OF _ bins_step_refl] 3(2) by blast
    qed
  qed
qed

section \<open>The merged chunk\<close>

lemma used_range:
  assumes "cells s p u cs" "unat p + width cs + 8 < 2 ^ 64" "(x, n) \<in> used_cells p cs"
  shows "unat p \<le> unat x" "unat x + unat n \<le> unat p + width cs" "32 \<le> unat n"
proof -
  obtain xs ys where cs: "cs = xs @ (n, True) # ys" "x = cell_end p xs" using used_split [OF assms(3)] by blast
  have "unat x = unat p + width xs" using unat_cell_end [of p xs] assms(2) cs by simp
  then show "unat p \<le> unat x" "unat x + unat n \<le> unat p + width cs" "32 \<le> unat n" using assms(1) cs by simp_all
qed

lemma rest_of_row:
  assumes h: "heap_shape b s (zs @ mid @ ys)" and q: "q = cell_end b zs" and e: "e = cell_end q mid"
    and one: "used_cells q mid = {(p, n)}"
  shows "used_cells b (zs @ mid @ ys) - {(p, n)} = used_cells b zs \<union> used_cells e ys"
    "free_cells b (zs @ mid @ ys) - insert q (free_cells q mid) = free_cells b zs \<union> free_cells e ys"
proof -
  note H = heap_shapeD [OF h]
  have w: "unat b + width zs + width mid + width ys + 8 < 2 ^ 64" using H(15) by simp
  have u: "unat q = unat b + width zs" "unat e = unat b + width zs + width mid"
    using unat_cell_end [of b zs] unat_cell_end [of q mid] w q e by simp_all
  have c: "cells s b True zs" "cells s q (last_used True zs) mid" "cells s e (last_used (last_used True zs) mid) ys"
    using H(1) q e by simp_all
  have p: "unat q \<le> unat p" "unat p + unat n \<le> unat e" "32 \<le> unat n"
    using used_range [OF c(2), of p n] one u w by simp_all
  have "(p, n) \<notin> used_cells b zs" using used_range(2,3) [OF c(1), of p n] p u w by fastforce
  moreover have "(p, n) \<notin> used_cells e ys" using used_range(1) [OF c(3), of p n] p u w by fastforce
  ultimately show "used_cells b (zs @ mid @ ys) - {(p, n)} = used_cells b zs \<union> used_cells e ys"
    using one q e by auto
  have "x \<notin> free_cells b zs \<and> x \<notin> free_cells e ys" if "x \<in> insert q (free_cells q mid)" for x
  proof -
    have "unat q \<le> unat x \<and> unat x < unat e"
      using that frees_range [OF c(2), of x] p u w by auto
    then show ?thesis using frees_range(2,3) [OF c(1), of x] frees_range(1) [OF c(3), of x] u w by auto
  qed
  then show "free_cells b (zs @ mid @ ys) - insert q (free_cells q mid) = free_cells b zs \<union> free_cells e ys"
    using q e by auto
qed

lemma keeps_client_mono: "keeps_client b cs s s' \<Longrightarrow> used_cells b ds \<subseteq> used_cells b cs \<Longrightarrow> keeps_client b ds s s'"
  unfolding keeps_client_def client_words_def by blast

text \<open>The state \<open>t\<close> in which the neighbours of the chunk have left the bins, and the state \<open>t'\<close> after the merge\<close>

definition merges :: "addr \<Rightarrow> malloc_state \<Rightarrow> cell list \<Rightarrow> cell list \<Rightarrow> cell list \<Rightarrow> addr \<Rightarrow> size_t \<Rightarrow> size_t \<Rightarrow> cell list
    \<Rightarrow> addr \<times> size_t \<Rightarrow> malloc_state \<Rightarrow> malloc_state \<Rightarrow> bool" where
  "merges b s cs zs mid q N k ys c t t' \<longleftrightarrow>
     heap_shape b t cs \<and> cs = zs @ mid @ (k, True) # ys \<and> q = cell_end b zs \<and> last_used True zs \<and> mid \<noteq> []
       \<and> unat N = width mid \<and> used_cells q mid = {c}
       \<and> keeps_client b cs s t \<and> room t = room s
       \<and> same_globals t t' \<and> mtop t' = mtop t \<and> topsize t' = topsize t
       \<and> malloc_state.heap t' = (malloc_state.heap t)(q + N + 8 := cell_head k False True, q + 8 := N OR 1, q + N := N)"

lemma merged:
  assumes m: "merges b s cs zs mid q N k ys (p, n) t t'" and A: "A \<subseteq> free_cells b cs - insert q (free_cells q mid)" "bins t A"
  defines "cs' \<equiv> zs @ (N, False) # (k, True) # ys"
  shows "heap_shape b t' cs'" "bins t' A" "keeps_client b cs' s t'" "chunksize t' q = N" "room t' = room s"
    "x \<in> free_cells b cs - insert q (free_cells q mid) \<Longrightarrow> chunksize t' x = chunksize t x" "free_cells b cs' = insert q (free_cells b cs - insert q (free_cells q mid))"
    "used_cells b cs' = used_cells b cs - {(p, n)}"
proof -
  have h0: "heap_shape b t cs" and q: "q = cell_end b zs" "last_used True zs" and mid: "mid \<noteq> []"
    and N: "unat N = width mid" and one: "used_cells q mid = {(p, n)}"
    and st: "keeps_client b cs s t" "room t = room s" and g: "same_globals t t'" "mtop t' = mtop t" "topsize t' = topsize t"
    and wr: "malloc_state.heap t' = (malloc_state.heap t)(q + N + 8 := cell_head k False True, q + 8 := N OR 1, q + N := N)"
    and cs: "cs = zs @ mid @ (k, True) # ys"
    using m unfolding merges_def by blast+
  have h: "heap_shape b t (zs @ mid @ (k, True) # ys)" using h0 unfolding cs .
  have w: "unat b + width zs + width mid < 2 ^ 64" using heap_shapeD(15) [OF h] by simp
  have u: "unat q = unat b + width zs" using unat_cell_end [of b zs] w q(1) by simp
  have e: "q + N = cell_end q mid"
    using unat_cell_end [of q mid] unat_field [of q N] u w N by (simp add: word_unat_eq_iff)
  note R = rest_of_row [OF h q(1) e one, folded cs]
  note M = make_free [OF h q mid N refl g wr A(1) [unfolded R] A(2), folded cs'_def, folded R]
  show "heap_shape b t' cs'" "bins t' A" "chunksize t' q = N" by (fact M)+
  show "x \<in> free_cells b cs - insert q (free_cells q mid) \<Longrightarrow> chunksize t' x = chunksize t x" using M(5) by blast
  show "free_cells b cs' = insert q (free_cells b cs - insert q (free_cells q mid))" by (fact M(6))
  show u: "used_cells b cs' = used_cells b cs - {(p, n)}" using q(1) unfolding R(1) by (simp add: cs'_def)
  show "room t' = room s" using st(2) g by (simp add: room_def)
  have "keeps_client b cs' s t" by (rule keeps_client_mono [OF st(1)]) (use u in blast)
  then show "keeps_client b cs' s t'" by (rule keeps_client_trans [OF _ M(3)]) simp
qed

lemma merged_victim:
  assumes m: "merges b s cs zs mid q N k ys (p, n) t t'" and A: "bins t (free_cells b cs - insert q (free_cells q mid))"
    and v: "dv t' = q" "dvsize t' = N"
  shows "releases b s cs (p, n) t'"
proof -
  note M = merged [OF m subset_refl A]
  have "heap_ok b t' (zs @ (N, False) # (k, True) # ys)"
    by (rule finish_victim [OF M(1), of q]) (use M(2,4,7) v in simp_all)
  then show ?thesis unfolding releases_def using M(3,5,8) by blast
qed

lemma merged_bin:
  assumes m: "merges b s cs zs mid q N k ys (p, n) t t'" and A: "bins t (free_cells b cs - {dv t} - insert q (free_cells q mid))"
    and v: "dv t' = dv t" "dvsize t' = dvsize t" "victim_ok b t cs" "dv t \<notin> insert q (free_cells q mid)"
  shows "\<exists>s'. bin_freed os q N t' = Ret s' \<and> releases b s cs (p, n) s'"
proof -
  have sub: "free_cells b cs - {dv t} - insert q (free_cells q mid) \<subseteq> free_cells b cs - insert q (free_cells q mid)" by blast
  note M = merged [OF m sub A]
  define cs' where "cs' = zs @ (N, False) # (k, True) # ys"
  have "free_cells b cs' - {dv t'} - {q} = free_cells b cs - {dv t} - insert q (free_cells q mid)" using M(7) v(1) by (auto simp: cs'_def)
  moreover have "victim_ok b t' cs'"
    using v M(6) [of "dv t"] M(7) by (auto simp: victim_ok_def cs'_def)
  ultimately obtain s' where "bin_freed os q (chunksize t' q) t' = Ret s'" "heap_ok b s' cs'" "keeps_client b cs' t' s'"
    "room s' = room t'"
    using finish_bin [of b t' cs' q os] M(1,2,7) v(1,4) unfolding cs'_def by auto
  then show ?thesis
    unfolding releases_def using M(3,4,5,8) keeps_client_trans [OF M(3)] unfolding cs'_def by (metis subset_refl)
qed

section \<open>The neighbour behind\<close>

lemma free_chunk_heap:
  "malloc_state.heap (set_size_and_pinuse_of_free_chunk q N t) = (malloc_state.heap t)(q + 8 := N OR 1, q + N := N)"
  "dv (set_size_and_pinuse_of_free_chunk q N t) = dv t" "dvsize (set_size_and_pinuse_of_free_chunk q N t) = dvsize t"
  "mtop (set_size_and_pinuse_of_free_chunk q N t) = mtop t" "topsize (set_size_and_pinuse_of_free_chunk q N t) = topsize t"
  "same_globals t (set_size_and_pinuse_of_free_chunk q N t)"
  by (simp_all add: dl_heads set_head_def set_prev_foot_def wr_def dl_consts same_globals_def)

lemma free_before_heap:
  assumes "head t e = cell_head k u True" "is_aligned k" "e = q + N"
  shows "malloc_state.heap (set_free_with_pinuse q N e t) =
      (malloc_state.heap t)(q + N + 8 := cell_head k False True, q + 8 := N OR 1, q + N := N)"
    "dv (set_free_with_pinuse q N e t) = dv t" "dvsize (set_free_with_pinuse q N e t) = dvsize t"
    "mtop (set_free_with_pinuse q N e t) = mtop t" "topsize (set_free_with_pinuse q N e t) = topsize t"
    "same_globals t (set_free_with_pinuse q N e t)"
proof -
  have "clear_pinuse e t = t\<lparr>malloc_state.heap := (malloc_state.heap t)(e + 8 := cell_head k False True)\<rparr>"
    using cell_bits(6) [OF assms(2)] assms(1) by (simp add: clear_pinuse_def set_head_def wr_def dl_consts)
  then show "malloc_state.heap (set_free_with_pinuse q N e t) =
      (malloc_state.heap t)(q + N + 8 := cell_head k False True, q + 8 := N OR 1, q + N := N)"
    "dv (set_free_with_pinuse q N e t) = dv t" "dvsize (set_free_with_pinuse q N e t) = dvsize t"
    "mtop (set_free_with_pinuse q N e t) = mtop t" "topsize (set_free_with_pinuse q N e t) = topsize t"
    "same_globals t (set_free_with_pinuse q N e t)"
    unfolding set_free_with_pinuse_def by (simp_all add: free_chunk_heap assms(3)) (simp add: same_globals_def dl_heads set_head_def set_prev_foot_def wr_def)
qed

definition forward_step :: "system \<Rightarrow> addr \<Rightarrow> size_t \<Rightarrow> addr \<Rightarrow> malloc_state \<Rightarrow> malloc_state dl_result" where
  "forward_step os q N e s =
     dbind (merge_forward q N e s) (\<lambda>(f, s).
       case f of
         Into_top tsize \<Rightarrow> if should_trim s tsize then dbind (sys_trim os 0 s) (\<lambda>(b, s). Ret s) else Ret s
       | Into_dv \<Rightarrow> Ret s
       | To_bin n \<Rightarrow> bin_freed os q n s)"

text \<open>What is known before the forward merge: the state \<open>t\<close> after the backward merge\<close>

lemma stretched:
  assumes ok: "heap_ok b s cs" and st: "stretch b s cs p n zs mid q N t" and cs: "cs = zs @ mid @ ys"
  shows "heap_shape b t cs" "\<And>x. x \<in> free_cells b cs \<Longrightarrow> chunksize t x = chunksize s x" "keeps_client b cs s t" "room t = room s"
    "q + N = cell_end q mid" "cells t (q + N) True ys" "victim_ok b t cs"
    "unat q = unat b + width zs" "unat (q + N) = unat b + width zs + width mid"
    "dv t = dv s" "dvsize t = dvsize s" "bins t (free_cells b cs - {dv s} - {q})" "ys = [] \<Longrightarrow> mtop t = q + N"
proof -
  note O = heap_okD [OF ok]
  have S: "q = cell_end b zs" "last_used True mid" "unat N = width mid" "last_used True zs"
    "bins_step s (free_cells b cs - {dv s}) t"
    using st unfolding stretch_def by blast+
  note F = bins_step_free [OF O(1) S(5) Diff_subset]
  note K = bins_step_keeps [OF S(5)]
  show "heap_shape b t cs" "\<And>x. x \<in> free_cells b cs \<Longrightarrow> chunksize t x = chunksize s x" "keeps_client b cs s t" "room t = room s" by (fact F)+
  show "dv t = dv s" "dvsize t = dvsize s" by (fact K)+
  show "bins t (free_cells b cs - {dv s} - {q})" using st unfolding stretch_def by blast
  show "victim_ok b t cs" using O(2) F(2) unfolding victim_ok_def K(3,4) by simp
  note H = heap_shapeD [OF F(1)]
  have w: "unat b + width zs + width mid + width ys + 8 < 2 ^ 64" using H(15) by (simp add: cs)
  show u: "unat q = unat b + width zs" using unat_cell_end [of b zs] w S(1) by simp
  show u2: "unat (q + N) = unat b + width zs + width mid" using unat_field [of q N] u S(3) w by simp
  show e: "q + N = cell_end q mid" using unat_cell_end [of q mid] u u2 w by (simp add: word_unat_eq_iff)
  have "last_used (last_used True zs) mid" using S(2,4) by simp
  then show "cells t (q + N) True ys" using H(1) S(1) e by (simp add: cs)
  show "ys = [] \<Longrightarrow> mtop t = q + N" using H(3) S(1) e by (simp add: cs)
qed

lemma forward_into_top:
  assumes ok: "heap_ok b s cs" and st: "stretch b s cs p n zs mid q N t" and cs: "cs = zs @ mid"
  shows "\<exists>s'. forward_step os q N (q + N) t = Ret s' \<and> releases b s cs (p, n) s'"
proof -
  have cs': "cs = zs @ mid @ []" using cs by simp
  note S = stretched [OF ok st cs']
  have D: "q = cell_end b zs" "last_used True zs" "unat N = width mid" "used_cells q mid = {(p, n)}" "free_cells q mid \<subseteq> {q}"
    using st unfolding stretch_def by blast+
  note H = heap_shapeD [OF S(1)]
  note O = heap_okD [OF ok]
  have R: "used_cells b cs - {(p, n)} = used_cells b zs" "free_cells b cs - {q} = free_cells b zs"
    using rest_of_row [where mid = mid and ys = "[]" and p = p and n = n, OF _ D(1) refl D(4)] S(1) cs insert_absorb2 D(5)
    by (simp_all add: subset_singleton_iff) (metis insert_absorb2)
  define t1 where "t1 = set_head q ((topsize t + N) OR 1) (t\<lparr>topsize := topsize t + N, mtop := q\<rparr>)"
  define t2 where "t2 = (if q = dv t then t1\<lparr>dv := 0, dvsize := 0\<rparr> else t1)"
  have top: "mtop t = q + N" using S(13) by simp
  have "\<not> cinuse t (q + N)" using H(4) cell_bits(2) [OF H(5)] top by (simp add: cinuse_def dl_consts)
  then have fwd: "merge_forward q N (q + N) t = Ret (Into_top (topsize t2), t2)"
    by (simp add: merge_forward_def Let_def top t1_def t2_def set_head_def wr_def dl_consts)
  have g: "same_globals t t2" "mtop t2 = q" "topsize t2 = topsize t + N"
    "malloc_state.heap t2 = (malloc_state.heap t)(q + 8 := (topsize t + N) OR 1)"
    by (simp_all add: t2_def t1_def same_globals_def set_head_def wr_def)
  have h: "heap_shape b t (zs @ mid)" using S(1) cs by simp
  have sub: "free_cells b cs - {dv s} - {q} \<subseteq> free_cells b zs" unfolding R(2) [symmetric] by blast
  note M = make_top [OF h D(1-3) g sub S(12)]
  have nz: "0 \<notin> free_cells b zs" using O(6) R(2) by blast
  have "victim_ok b t2 zs \<and> bins t2 (free_cells b zs - {dv t2})"
  proof (cases "q = dv t")
    case True
    then have "dv t2 = 0" "dvsize t2 = 0" by (simp_all add: t2_def)
    moreover have "free_cells b zs - {0} = free_cells b cs - {dv s} - {q}" using True S(10) R(2) nz by auto
    ultimately show ?thesis using M(2) by (simp add: victim_ok_def)
  next
    case False
    then have v: "dv t2 = dv t" "dvsize t2 = dvsize t" by (simp_all add: t2_def t1_def set_head_def wr_def)
    have "dv t \<in> free_cells b cs \<Longrightarrow> dv t \<in> free_cells b zs" using False R(2) by blast
    then have "victim_ok b t2 zs" using S(7) M(5) [of "dv t"] unfolding victim_ok_def v by auto
    moreover have "free_cells b zs - {dv t2} = free_cells b cs - {dv s} - {q}" using v S(10) R(2) by auto
    ultimately show ?thesis using M(2) by simp
  qed
  then have ok2: "heap_ok b t2 zs" using M(1) unfolding heap_ok_def by blast
  obtain s' where s': "(if should_trim t2 (topsize t2) then dbind (sys_trim os 0 t2) (\<lambda>(b, s). Ret s) else Ret t2) = Ret s'"
    "heap_ok b s' zs" "keeps_client b zs t2 s'" "room s' = room t2"
    using finish_trim [OF ok2] by blast
  have "keeps_client b zs s t" by (rule keeps_client_mono [OF S(3)]) (use R(1) in blast)
  then have "keeps_client b zs s t2" by (rule keeps_client_trans [OF _ M(3)]) simp
  then have "keeps_client b zs s s'" by (rule keeps_client_trans [OF _ s'(3)]) simp
  then have "releases b s cs (p, n) s'"
    unfolding releases_def using s'(2,4) M(4) S(4) R(1) by (intro exI [of _ zs]) simp
  then show ?thesis using s'(1) fwd by (simp add: forward_step_def)
qed

lemma forward_in_use:
  assumes ok: "heap_ok b s cs" and st: "stretch b s cs p n zs mid q N t" and cs: "cs = zs @ mid @ (k, True) # ys"
    and q: "q \<noteq> dv s"
  shows "\<exists>s'. forward_step os q N (q + N) t = Ret s' \<and> releases b s cs (p, n) s'"
proof -
  note S = stretched [OF ok st cs]
  have D: "q = cell_end b zs" "last_used True zs" "unat N = width mid" "used_cells q mid = {(p, n)}" "free_cells q mid \<subseteq> {q}"
    "mid \<noteq> []"
    using st unfolding stretch_def by blast+
  define t1 where "t1 = set_free_with_pinuse q N (q + N) t"
  have hk: "head t (q + N) = cell_head k True True" "is_aligned k" using S(6) by simp_all
  note W = free_before_heap [OF hk refl, folded t1_def]
  have "cinuse t (q + N)" using hk(1) cell_bits(2) [OF hk(2)] by (simp add: cinuse_def dl_consts)
  then have fwd: "merge_forward q N (q + N) t = Ret (To_bin N, t1)" by (simp add: merge_forward_def t1_def)
  have "merges b s cs zs mid q N k ys (p, n) t t1"
    unfolding merges_def using S(1,3,4) cs D W by blast
  note m = this
  have F: "insert q (free_cells q mid) = {q}" using D(5) by blast
  show ?thesis using merged_bin [OF m _ W(2,3) S(7), of os] S(10,12) q fwd unfolding F by (simp add: forward_step_def)
qed

text \<open>The neighbour behind is free: it leaves the bins, or it is the designated victim, and the stretch grows.\<close>

lemma forward_free:
  assumes ok: "heap_ok b s cs" and st: "stretch b s cs p n zs mid q N t" and cs: "cs = zs @ mid @ (k, False) # ys"
  shows "\<exists>s'. forward_step os q N (q + N) t = Ret s' \<and> releases b s cs (p, n) s'"
proof -
  note S = stretched [OF ok st cs]
  have D: "q = cell_end b zs" "last_used True zs" "unat N = width mid" "used_cells q mid = {(p, n)}" "free_cells q mid \<subseteq> {q}"
    "mid \<noteq> []"
    using st unfolding stretch_def by blast+
  define e where "e = q + N"
  note H = heap_shapeD [OF S(1)]
  have ek: "head t e = cell_head k True False" "is_aligned k" "32 \<le> unat k" using S(6) by (simp_all add: e_def)
  have sz: "chunksize t e = k" by (rule cell_size [OF ek(1,2)])
  have ef: "e \<in> free_cells b cs" using S(5) D(1) by (simp add: cs e_def)
  have "ys \<noteq> []" using H(2) by (auto simp: cs)
  then obtain m v zs' where ys: "ys = (m, v) # zs'" by (cases ys) auto
  have em: "head t (e + k) = cell_head m False True" "is_aligned m" "v"
    using S(6) by (auto simp: e_def ys)
  have ne: "q \<noteq> e"
  proof
    assume "q = e"
    then have "width mid = 0" using S(8,9) by (simp add: e_def)
    moreover obtain n' v' mid' where "mid = (n', v') # mid'" using D(6) by (cases mid) auto
    moreover have "cells t q (last_used True zs) mid" using H(1) D(1) by (simp add: cs)
    ultimately show False by simp
  qed
  define M where "M = N + k"
  have M: "unat M = width (mid @ [(k, False)])" "q + M = e + k"
  proof -
    have "unat N + unat k < 2 ^ 64" using H(15) D(3) by (simp add: cs)
    then show "unat M = width (mid @ [(k, False)])" using unat_field [of N k] D(3) by (simp add: M_def)
  qed (simp add: M_def e_def)
  have one: "used_cells q (mid @ [(k, False)]) = {(p, n)}" using D(4) by simp
  have cs': "cs = zs @ (mid @ [(k, False)]) @ (m, True) # zs'" using em(3) by (simp add: cs ys)
  have nu: "\<not> cinuse t e" using ek(1) cell_bits(2) [OF ek(2)] by (simp add: cinuse_def dl_consts)
  have nt: "e \<noteq> mtop t"
  proof
    assume "e = mtop t"
    then have "unat e = unat b + width cs" using H(17) by simp
    then show False using S(9) ek(3) by (simp add: cs e_def)
  qed
  have F: "insert q (free_cells q (mid @ [(k, False)])) = {q, e}" using D(5) S(5) by (auto simp: e_def)
  show ?thesis
  proof (cases "e = dv t")
    case True
    define t1 where "t1 = set_size_and_pinuse_of_free_chunk q M (t\<lparr>dvsize := M, dv := q\<rparr>)"
    have "dvsize t = k" using S(7) ef free_nonzero [OF S(1) ef] True sz by (auto simp: victim_ok_def split: if_splits)
    then have "merge_forward q N e t = Ret (Into_dv, t1)"
      using nu nt True by (simp add: merge_forward_def Let_def t1_def M_def add.commute)
    then have fwd: "forward_step os q N e t = Ret t1" by (simp add: forward_step_def)
    have "malloc_state.heap t (e + k + 8) = cell_head m False True" using em(1) by (simp add: head_def)
    then have "malloc_state.heap t1 =
        (malloc_state.heap t)(q + M + 8 := cell_head m False True, q + 8 := M OR 1, q + M := M)"
      by (simp add: t1_def free_chunk_heap M(2) fun_upd_idem)
    then have m: "merges b s cs zs (mid @ [(k, False)]) q M m zs' (p, n) t t1"
      unfolding merges_def using S(1,3,4) cs' D(1,2) M(1) one
      by (simp add: t1_def free_chunk_heap) (simp add: same_globals_def dl_heads set_head_def set_prev_foot_def wr_def)
    have "free_cells b cs - {q, e} = free_cells b cs - {dv s} - {q}" using True S(10) by auto
    then have "releases b s cs (p, n) t1"
      using merged_victim [OF m] S(12) unfolding F by (simp add: t1_def free_chunk_heap)
    then show ?thesis using fwd by (simp add: e_def)
  next
    case False
    have "e \<in> free_cells b cs - {dv s} - {q}" using ef False ne S(10) by auto
    then obtain t1 where t1: "unlink_chunk e k t = Ret t1" "bins t1 (free_cells b cs - {dv s} - {q} - {e})"
      "bins_step t (free_cells b cs - {dv s} - {q}) t1"
      using unlink_chunk_effect [OF S(12), of e] sz by auto
    have sub: "free_cells b cs - {dv s} - {q} \<subseteq> free_cells b cs" by blast
    note B = bins_step_free [OF S(1) t1(3) sub]
    note K = bins_step_keeps [OF t1(3)]
    define t2 where "t2 = set_size_and_pinuse_of_free_chunk q M t1"
    define t3 where "t3 = (if q = dv t2 then t2\<lparr>dvsize := M\<rparr> else t2)"
    have fwd: "merge_forward q N e t = Ret (if q = dv t2 then Into_dv else To_bin M, t3)"
      using nu nt False sz t1(1) by (simp add: merge_forward_def Let_def t2_def t3_def M_def)
    have "cells t1 (q + N) True ((k, False) # ys)"
      using heap_shapeD(1) [OF B(1)] D(1,2) S(5) stretch_def st by (simp add: cs)
    then have "malloc_state.heap t1 (e + k + 8) = cell_head m False True" using em(3) by (simp add: head_def e_def ys)
    then have "malloc_state.heap t2 =
        (malloc_state.heap t1)(q + M + 8 := cell_head m False True, q + 8 := M OR 1, q + M := M)"
      by (simp add: t2_def free_chunk_heap M(2) fun_upd_idem)
    moreover have "malloc_state.heap t3 = malloc_state.heap t2" by (simp add: t3_def)
    ultimately have w: "malloc_state.heap t3 =
        (malloc_state.heap t1)(q + M + 8 := cell_head m False True, q + 8 := M OR 1, q + M := M)" by simp
    have r: "room t1 = room s" "mid @ [(k, False)] \<noteq> []" "mtop t3 = mtop t1" "topsize t3 = topsize t1"
      using B(4) S(4) by (simp_all add: t3_def t2_def free_chunk_heap)
    have sg: "same_globals t1 t3"
      by (simp add: t3_def t2_def same_globals_def dl_heads set_head_def set_prev_foot_def wr_def)
    have kc: "keeps_client b cs s t1" by (rule keeps_client_trans [OF S(3) B(3)]) simp
    have m: "merges b s cs zs (mid @ [(k, False)]) q M m zs' (p, n) t1 t3"
      unfolding merges_def using B(1) kc cs' D(1,2) M(1) one w r sg by blast
    have g: "dv t1 = dv s" "dvsize t1 = dvsize s" "dv t2 = dv s" using K S(10,11) by (simp_all add: t2_def free_chunk_heap)
    show ?thesis
    proof (cases "q = dv s")
      case True
      then have "free_cells b cs - {q, e} = free_cells b cs - {dv s} - {q} - {e}" by auto
      then have "releases b s cs (p, n) t3"
        using merged_victim [OF m] t1(2) True g unfolding F by (simp add: t3_def)
      then show ?thesis using fwd True g by (simp add: forward_step_def e_def)
    next
      case q: False
      have v: "victim_ok b t1 cs"
        using S(7) B(2) unfolding victim_ok_def K(3,4) by auto
      have "free_cells b cs - {dv t1} - {q, e} = free_cells b cs - {dv s} - {q} - {e}" using g by auto
      then show ?thesis
        using merged_bin [OF m _ _ _ v, of os] t1(2) q False g S(10) fwd unfolding F
        by (simp add: forward_step_def e_def t3_def t2_def free_chunk_heap)
    qed
  qed
qed

lemma forward_releases:
  assumes ok: "heap_ok b s cs" and st: "stretch b s cs p n zs mid q N t" and cs: "cs = zs @ mid @ ys"
    and q: "q = dv s \<longrightarrow> head s (p + n) AND INUSE_BITS \<noteq> INUSE_BITS" and e: "head t (p + n) = head s (p + n)"
  shows "\<exists>s'. forward_step os q N (p + n) t = Ret s' \<and> releases b s cs (p, n) s'" "ok_next q (p + n)" "ok_pinuse t (p + n)"
proof -
  note S = stretched [OF ok st cs]
  note H = heap_shapeD [OF S(1)]
  have D: "q + N = p + n" "unat N = width mid" "mid \<noteq> []" "q = cell_end b zs" using st unfolding stretch_def by blast+
  have "0 < width mid"
  proof -
    obtain n' v' mid' where "mid = (n', v') # mid'" using D(3) by (cases mid) auto
    moreover have "cells t q (last_used True zs) mid" using H(1) D(4) by (simp add: cs)
    ultimately show ?thesis by auto
  qed
  then show "ok_next q (p + n)" using S(8,9) unfolding D(1) by (simp add: ok_next_def word_less_nat_alt)
  consider "ys = []" | k v zs' where "ys = (k, v) # zs'" by (cases ys) auto
  then have "(\<exists>s'. forward_step os q N (p + n) t = Ret s' \<and> releases b s cs (p, n) s') \<and> ok_pinuse t (p + n)"
  proof cases
    case 1
    then have "cs = zs @ mid" using cs by simp
    from forward_into_top [OF ok st this] D(1) moreover
    have "head t (p + n) = cell_head (topsize t) True False" using H(4) S(13) 1 D(1) by simp
    ultimately show ?thesis using cell_bits(1) [OF H(5)] by (simp add: ok_pinuse_def pinuse_def dl_consts)
  next
    case (2 k v zs')
    then have k: "head t (p + n) = cell_head k True v" "is_aligned k" using S(6) D(1) by simp_all
    have "\<exists>s'. forward_step os q N (q + N) t = Ret s' \<and> releases b s cs (p, n) s'"
    proof (cases v)
      case True
      have "head s (p + n) AND INUSE_BITS = INUSE_BITS"
        unfolding e [symmetric] k(1) using True cell_bits(4) [OF k(2), of True True] by (simp add: dl_consts)
      then have "q \<noteq> dv s" using q by blast
      then show ?thesis using forward_in_use [OF ok st] cs 2 True by blast
    next
      case False
      then show ?thesis using forward_free [OF ok st] cs 2 by blast
    qed
    then show ?thesis using k cell_bits(1) [OF k(2)] D(1) by (simp add: ok_pinuse_def pinuse_def dl_consts)
  qed
  then show "\<exists>s'. forward_step os q N (p + n) t = Ret s' \<and> releases b s cs (p, n) s'" "ok_pinuse t (p + n)" by blast+
qed

section \<open>free\<close>

lemma free_releases:
  assumes ok: "heap_ok b s cs" and used: "(p, n) \<in> used_cells b cs"
  shows "\<exists>s'. mspace_free os (chunk2mem p) s = Ret s' \<and> releases b s cs (p, n) s'"
proof -
  note O = heap_okD [OF ok]
  note H = heap_shapeD [OF O(1)]
  obtain xs ys where c: "cs = xs @ (n, True) # ys" "p = cell_end b xs" "head s p = cell_head n (last_used True xs) True"
    "is_aligned n" "32 \<le> unat n" "unat p = unat b + width xs" "unat (p + n) = unat p + unat n" "cells s (p + n) True ys"
    using used_cell [OF O(1) used] by blast
  have sz: "chunksize s p = n" by (rule cell_size [OF c(3,4)])
  have inuse: "ok_inuse s p"
    using c(3) cell_bits(4) [OF c(4)] by (simp add: ok_inuse_def is_inuse_def dl_consts)
  have addr: "ok_address s p" using H(13) c(6) by (simp add: ok_address_def word_le_nat_alt)
  have "unat (chunk2mem p) = unat p + 16"
    using unat_field [of p 16] H(15) c(1,5,6) by (simp add: chunk2mem_def dl_consts)
  then have mem: "chunk2mem p \<noteq> 0" by auto
  have mp: "mem2chunk (chunk2mem p) = p" by (simp add: mem2chunk_def chunk2mem_def)
  have free: "mspace_free os (chunk2mem p) s = dbind (merge_backward os p n (p + n) s) (\<lambda>r.
      case r of Inl s \<Rightarrow> Ret s
      | Inr (q, N, t) \<Rightarrow> if ok_next q (p + n) \<and> ok_pinuse t (p + n) then forward_step os q N (p + n) t else Trap)"
    using mem mp addr inuse sz unfolding forward_step_def by (simp add: mspace_free_def Let_def)
  have ex: "p + n + 8 \<in> cell_words b cs \<or> p + n + 8 = mtop s + 8"
  proof (cases ys)
    case Nil
    then show ?thesis using H(3) c(1,2) by simp
  next
    case (Cons a list)
    then show ?thesis using c(1,2) by (cases a) simp
  qed
  from backward_merges [OF ok [unfolded c(1)] c(2), of os, folded c(1)] show ?thesis
  proof (elim disjE exE conjE)
    fix zs mid q N t
    assume m: "merge_backward os p n (p + n) s = Ret (Inr (q, N, t))" "xs @ [(n, True)] = zs @ mid"
      "stretch b s cs p n zs mid q N t" "q = dv s \<longrightarrow> head s (p + n) AND INUSE_BITS \<noteq> INUSE_BITS"
    have cs: "cs = zs @ mid @ ys" using c(1) m(2) by (metis append.assoc append_Cons append_Nil)
    have bs: "bins_step s (free_cells b cs - {dv s}) t" using m(3) unfolding stretch_def by blast
    have "p + n + 8 \<notin> bin_words s (free_cells b cs - {dv s})"
      using not_bin_words [OF O(1) Diff_subset] ex by blast
    then have "head t (p + n) = head s (p + n)" using bins_step_keeps(13) [OF bs] by (simp add: head_def)
    from forward_releases [OF ok m(3) cs m(4) this] m(1) free show ?thesis by simp
  next
    fix m zs
    assume x: "xs = zs @ [(m, False)]" "cell_end b zs = dv s" "last_used True zs"
      "head s (p + n) AND INUSE_BITS = INUSE_BITS" "unat (n + m) = unat n + unat m"
      "merge_backward os p n (p + n) s = Ret (Inl (set_free_with_pinuse (dv s) (n + m) (p + n) (s\<lparr>dvsize := n + m\<rparr>)))"
    define t where "t = set_free_with_pinuse (dv s) (n + m) (p + n) (s\<lparr>dvsize := n + m\<rparr>)"
    have "ys \<noteq> []"
    proof
      assume "ys = []"
      then have "head s (p + n) = cell_head (topsize s) True False" using H(3,4) c(1,2) by simp
      then show False using x(4) cell_bits(4) [OF H(5)] by (simp add: dl_consts)
    qed
    then obtain k v ys' where ys: "ys = (k, v) # ys'" by (cases ys) auto
    have k: "head s (p + n) = cell_head k True v" "is_aligned k" using c(8) ys by simp_all
    have v: v using x(4) k cell_bits(4) [OF k(2)] by (cases v) (simp_all add: dl_consts)
    have pm: "p = dv s + m" using c(2) x(1,2) by simp
    have cs: "cs = zs @ [(m, False), (n, True)] @ (k, True) # ys'" using c(1) x(1) ys v by simp
    have hk: "head (s\<lparr>dvsize := n + m\<rparr>) (p + n) = cell_head k True True" using k(1) v by (simp add: head_def)
    note W = free_before_heap [OF hk k(2), of "dv s" "n + m", folded t_def]
    have e: "p + n = dv s + (n + m)" using pm by (simp add: add.commute add.left_commute)
    have M: "merges b s cs zs [(m, False), (n, True)] (dv s) (n + m) k ys' (p, n) s t"
      unfolding merges_def using O(1) cs x(2,3,5) pm W(1,4-6) [OF e]
      by (simp add: keeps_client_def same_globals_def)
    have "free_cells b cs - insert (dv s) (free_cells (dv s) [(m, False), (n, True)]) = free_cells b cs - {dv s}" by auto
    then have "releases b s cs (p, n) t" using merged_victim [OF M] O(3) W(2,3) [OF e] by simp
    then show ?thesis using free x(6) by (simp add: t_def)
  qed
qed

end
