(* ===== verification/Effects.thy ===== *)
theory Effects
  imports Prelude
begin

text \<open>
  The alphabet of effects of the library: what the sources under \<open>src/src\<close> call and do
  not define. MPI, the C library and the operating system are not code of the repository, so
  here they are constructors only; what they do is the handler a program is run with.

  Output parameters of a call (\<open>MPI_Comm * comm\<close>, \<open>int * size\<close>, the address of a local
  variable) are the response of the effect. A user buffer stays an address. A window is named
  by the global variable that holds its handle (\<open>shmem_sheap_win\<close>, \<open>shmem_etext_win\<close>,
  \<open>oshmpi_lock_win\<close>, \<open>shmem_mpmd_appnum_win\<close>). Typed values that travel through the
  address of a local variable (\<open>&v\<close>, \<open>&r\<close>) are 64-bit patterns of which the low bytes
  count.
\<close>

section \<open>MPI handles\<close>

datatype (plugins only: code size) mpi_type =
    MPI_CHAR | MPI_SHORT | MPI_INT | MPI_LONG | MPI_LONG_LONG
  | MPI_FLOAT | MPI_DOUBLE | MPI_LONG_DOUBLE | MPI_BYTE | MPI_INT32_T | MPI_INT64_T
  | MPI_COMPLEX | MPI_DOUBLE_COMPLEX | MPI_C_DOUBLE_COMPLEX | MPI_DATATYPE_NULL
  | Derived nat

datatype (plugins only: code size) mpi_op =
    MPI_OP_NULL | MPI_LAND | MPI_BOR | MPI_BXOR | MPI_MIN | MPI_MAX | MPI_SUM | MPI_PROD
  | MPI_REPLACE | MPI_NO_OP

datatype (plugins only: code size) mpi_win =
    Shmem_sheap_win | Shmem_etext_win | Oshmpi_lock_win | Shmem_mpmd_appnum_win

datatype (plugins only: code size) mpi_comm =
    MPI_COMM_NULL | MPI_COMM_WORLD | SHMEM_COMM_WORLD | SHMEM_COMM_NODE | Comm nat

datatype (plugins only: code size) mpi_group =
    MPI_GROUP_NULL | SHMEM_GROUP_WORLD | SHMEM_GROUP_NODE | Group nat

text \<open>The origin of an accumulate: a user buffer, or the address of a local variable.\<close>

datatype (plugins only: code size) origin = Buf addr | Val scalar

section \<open>Effects\<close>

datatype (plugins only: code size) mem_op =
    Memcpy addr addr size_t \<comment> \<open>destination, source, bytes\<close>
  | Load addr nat
  | Store addr "byte list"
  | Sync_lock_test_and_set addr nat scalar \<comment> \<open>address, width in bytes, new value\<close>
  | Sync_val_compare_and_swap addr nat scalar scalar \<comment> \<open>comparand, new value\<close>
  | Sync_fetch_and_add addr nat scalar
  | Sync_synchronize
  | Lock_base_store nat int \<comment> \<open>\<open>oshmpi_lock_base[i] = v\<close>\<close>

datatype (plugins only: code size) rma_call =
    MPI_Put addr int mpi_type int int int mpi_type mpi_win
  | MPI_Get addr int mpi_type int int int mpi_type mpi_win
  | MPI_Accumulate origin int mpi_type int int int mpi_type mpi_op mpi_win
  | MPI_Get_accumulate addr int mpi_type int int int mpi_type mpi_op mpi_win
  | MPI_Fetch_and_op "scalar option" mpi_type int int mpi_op mpi_win
  | MPI_Compare_and_swap scalar scalar mpi_type int int mpi_win
  | MPI_Win_flush int mpi_win
  | MPI_Win_flush_local int mpi_win
  | MPI_Win_flush_all mpi_win
  | MPI_Win_sync mpi_win

datatype (plugins only: code size) type_call =
    MPI_Type_vector int int int mpi_type
  | MPI_Type_contiguous int mpi_type
  | MPI_Type_get_extent mpi_type
  | MPI_Type_create_struct "(int \<times> int \<times> mpi_type) list"
  | MPI_Type_commit mpi_type
  | MPI_Type_free mpi_type
  | MPI_Type_size mpi_type

datatype (plugins only: code size) comm_call =
    MPI_Barrier mpi_comm
  | MPI_Bcast addr int mpi_type int mpi_comm
  | MPI_Bcast_long int int mpi_comm \<comment> \<open>the address of one \<open>long\<close>: its value, root\<close>
  | MPI_Allgather addr int mpi_type addr int mpi_type mpi_comm
  | MPI_Allgather_int int mpi_comm \<comment> \<open>one \<open>int\<close> per process\<close>
  | MPI_Allgatherv addr int mpi_type addr "int list" "int list" mpi_type mpi_comm
  | MPI_Allreduce "addr option" addr int mpi_type mpi_op mpi_comm \<comment> \<open>\<open>None\<close>: \<open>MPI_IN_PLACE\<close>\<close>
  | MPI_Allreduce_int int mpi_op mpi_comm
  | MPI_Group_incl mpi_group "int list"
  | MPI_Group_translate_ranks mpi_group "int list" mpi_group
  | MPI_Group_free mpi_group
  | MPI_Comm_create_group mpi_comm mpi_group int
  | MPI_Comm_free mpi_comm
  | MPI_Send int int int mpi_comm \<comment> \<open>value, destination, tag\<close>
  | MPI_Probe int mpi_comm

datatype (plugins only: code size) env_call =
    MPI_Initialized
  | MPI_Init_thread int
  | MPI_Query_thread
  | MPI_Finalized
  | MPI_Finalize
  | MPI_Comm_dup mpi_comm
  | MPI_Comm_size mpi_comm
  | MPI_Comm_rank mpi_comm
  | MPI_Comm_group mpi_comm
  | MPI_Comm_get_appnum mpi_comm \<comment> \<open>the attribute \<open>MPI_APPNUM\<close>: one value if it is set\<close>
  | MPI_Comm_split_type mpi_comm "mpi_comm option" \<comment> \<open>the global that receives the handle, if it is one\<close>
  | MPI_Comm_compare mpi_comm mpi_comm
  | MPI_Info_create string
  | MPI_Info_set string string string
  | MPI_Info_free string
  | MPI_Win_allocate int int mpi_comm mpi_win
  | MPI_Win_allocate_shared int int mpi_comm mpi_win
  | MPI_Win_shared_query mpi_win int
  | MPI_Win_create addr int int mpi_comm mpi_win
  | MPI_Win_base mpi_win \<comment> \<open>the base address an allocation delivers\<close>
  | MPI_Win_lock_all int mpi_win
  | MPI_Win_unlock_all mpi_win
  | MPI_Win_get_model mpi_win
  | MPI_Win_free mpi_win
  | MPI_Error_string int
  | MPI_Get_processor_name
  | MPI_Wtime
  | Getenv string
  | Sysconf_PAGESIZE
  | Sysconf_AVPHYS_PAGES
  | Malloc int
  | Free addr
  | Atexit string
  | Printf string int
  | Create_mspace_with_base addr int int

datatype (plugins only: code size) eff =
    Mem mem_op
  | Rma rma_call
  | Ty type_call
  | Com comm_call
  | Env env_call

datatype (plugins only: code size) resp =
    RUnit
  | RInt int
  | RVal scalar
  | RInts "int list"
  | RType mpi_type
  | RComm mpi_comm
  | RGroup mpi_group
  | RAddr addr
  | RBytes "byte list"
  | RStr "string option"

type_synonym 'a shm = "(eff, resp, 'a) prog"
type_synonym 's mpi = "(eff, resp, 's) handler"

section \<open>Calls with a typed response\<close>

definition call :: "eff \<Rightarrow> unit shm" where
  "call e = Eff e (\<lambda>_. Return ())"

definition call_int :: "eff \<Rightarrow> int shm" where
  "call_int e = Eff e (\<lambda>r. case r of RInt i \<Rightarrow> Return i | _ \<Rightarrow> Undef ''response'')"

definition call_val :: "eff \<Rightarrow> scalar shm" where
  "call_val e = Eff e (\<lambda>r. case r of RVal v \<Rightarrow> Return v | _ \<Rightarrow> Undef ''response'')"

definition call_ints :: "eff \<Rightarrow> int list shm" where
  "call_ints e = Eff e (\<lambda>r. case r of RInts l \<Rightarrow> Return l | _ \<Rightarrow> Undef ''response'')"

definition call_type :: "eff \<Rightarrow> mpi_type shm" where
  "call_type e = Eff e (\<lambda>r. case r of RType t \<Rightarrow> Return t | _ \<Rightarrow> Undef ''response'')"

definition call_comm :: "eff \<Rightarrow> mpi_comm shm" where
  "call_comm e = Eff e (\<lambda>r. case r of RComm c \<Rightarrow> Return c | _ \<Rightarrow> Undef ''response'')"

definition call_group :: "eff \<Rightarrow> mpi_group shm" where
  "call_group e = Eff e (\<lambda>r. case r of RGroup g \<Rightarrow> Return g | _ \<Rightarrow> Undef ''response'')"

definition call_addr :: "eff \<Rightarrow> addr shm" where
  "call_addr e = Eff e (\<lambda>r. case r of RAddr a \<Rightarrow> Return a | _ \<Rightarrow> Undef ''response'')"

definition call_bytes :: "eff \<Rightarrow> byte list shm" where
  "call_bytes e = Eff e (\<lambda>r. case r of RBytes b \<Rightarrow> Return b | _ \<Rightarrow> Undef ''response'')"

definition call_str :: "eff \<Rightarrow> string option shm" where
  "call_str e = Eff e (\<lambda>r. case r of RStr s \<Rightarrow> Return s | _ \<Rightarrow> Undef ''response'')"

lemmas call_defs [prog_simps] =
  call_def call_int_def call_val_def call_ints_def call_type_def call_comm_def
  call_group_def call_addr_def call_bytes_def call_str_def

text \<open>One step of a run, for a response of the expected kind.\<close>

lemma run_call [prog_simps]: "h e s = (r, s') \<Longrightarrow> run h (call e) s = (Done (), s')"
  by (simp add: call_def)

lemma run_pseq_call [prog_simps]: "h e s = (r, s') \<Longrightarrow> run h (pseq (call e) q) s = run h q s'"
  by (simp add: call_def)

lemma run_call_val [prog_simps]: "h e s = (RVal v, s') \<Longrightarrow> run h (call_val e) s = (Done v, s')"
  by (simp add: call_val_def)

lemma run_pbind_call_val [prog_simps]:
  "h e s = (RVal v, s') \<Longrightarrow> run h (pbind (call_val e) k) s = run h (k v) s'"
  by (simp add: call_val_def)

lemma run_call_int [prog_simps]: "h e s = (RInt i, s') \<Longrightarrow> run h (call_int e) s = (Done i, s')"
  by (simp add: call_int_def)

lemma run_pbind_call_int [prog_simps]:
  "h e s = (RInt i, s') \<Longrightarrow> run h (pbind (call_int e) k) s = run h (k i) s'"
  by (simp add: call_int_def)

lemma run_pbind_call_type [prog_simps]:
  "h e s = (RType t, s') \<Longrightarrow> run h (pbind (call_type e) k) s = run h (k t) s'"
  by (simp add: call_type_def)

lemma run_pbind_call_bytes [prog_simps]:
  "h e s = (RBytes b, s') \<Longrightarrow> run h (pbind (call_bytes e) k) s = run h (k b) s'"
  by (simp add: call_bytes_def)

lemma ends_call: "h e s = (r, s') \<Longrightarrow> Q () s' \<Longrightarrow> ends h (call e) s Q"
  by (simp add: ends_def run_call)

lemma ends_call_val: "h e s = (RVal v, s') \<Longrightarrow> Q v s' \<Longrightarrow> ends h (call_val e) s Q"
  by (simp add: ends_def run_call_val)

lemma ends_call_int: "h e s = (RInt i, s') \<Longrightarrow> Q i s' \<Longrightarrow> ends h (call_int e) s Q"
  by (simp add: ends_def run_call_int)

lemma ends_call_type: "h e s = (RType t, s') \<Longrightarrow> Q t s' \<Longrightarrow> ends h (call_type e) s Q"
  by (simp add: ends_def call_type_def)

lemma ends_call_bytes: "h e s = (RBytes b, s') \<Longrightarrow> Q b s' \<Longrightarrow> ends h (call_bytes e) s Q"
  by (simp add: ends_def call_bytes_def)

lemma all_eff_calls [simp]:
  "all_eff P (call e) \<longleftrightarrow> P e" "all_eff P (call_int e) \<longleftrightarrow> P e" "all_eff P (call_val e) \<longleftrightarrow> P e"
  "all_eff P (call_ints e) \<longleftrightarrow> P e" "all_eff P (call_type e) \<longleftrightarrow> P e" "all_eff P (call_comm e) \<longleftrightarrow> P e"
  "all_eff P (call_group e) \<longleftrightarrow> P e" "all_eff P (call_addr e) \<longleftrightarrow> P e" "all_eff P (call_bytes e) \<longleftrightarrow> P e"
  "all_eff P (call_str e) \<longleftrightarrow> P e"
  by (auto simp: call_defs split: resp.split)

lemma one_effect_calls [simp]:
  "one_effect (call e)" "one_effect (call_int e)" "one_effect (call_val e)" "one_effect (call_type e)"
  "one_effect (call_bytes e)"
  by (auto simp: one_effect_def call_defs split: resp.split)

text \<open>The handles a call of a given kind may answer with.\<close>

fun well_typed :: "eff \<Rightarrow> resp \<Rightarrow> bool" where
  "well_typed (Mem (Load a n)) r = (\<exists>b. r = RBytes b \<and> length b = n)"
| "well_typed (Mem (Sync_lock_test_and_set a w v)) r = (\<exists>x. r = RVal x)"
| "well_typed (Mem (Sync_val_compare_and_swap a w c v)) r = (\<exists>x. r = RVal x)"
| "well_typed (Mem (Sync_fetch_and_add a w v)) r = (\<exists>x. r = RVal x)"
| "well_typed (Rma (MPI_Fetch_and_op v t p d oper w)) r = (\<exists>x. r = RVal x)"
| "well_typed (Rma (MPI_Compare_and_swap v c t p d w)) r = (\<exists>x. r = RVal x)"
| "well_typed (Ty (MPI_Type_vector c b s t)) r = (\<exists>x. r = RType x)"
| "well_typed (Ty (MPI_Type_contiguous c t)) r = (\<exists>x. r = RType x)"
| "well_typed (Ty (MPI_Type_create_struct bl)) r = (\<exists>x. r = RType x)"
| "well_typed (Ty (MPI_Type_get_extent t)) r = (\<exists>x. r = RInt x)"
| "well_typed (Ty (MPI_Type_size t)) r = (\<exists>x. r = RInt x)"
| "well_typed (Com (MPI_Allgather_int v c)) r = (\<exists>x. r = RInts x)"
| "well_typed (Com (MPI_Bcast_long v t c)) r = (\<exists>x. r = RInt x)"
| "well_typed (Com (MPI_Allreduce_int v oper c)) r = (\<exists>x. r = RInt x)"
| "well_typed (Com (MPI_Group_incl g l)) r = (\<exists>x. r = RGroup x)"
| "well_typed (Com (MPI_Comm_create_group c g t)) r = (\<exists>x. r = RComm x)"
| "well_typed (Com (MPI_Group_translate_ranks g l g')) r = (\<exists>x. r = RInts x \<and> length x = length l)"
| "well_typed (Env (Malloc n)) r = (\<exists>x. r = RAddr x)"
| "well_typed (Env MPI_Initialized) r = (\<exists>x. r = RInt x)"
| "well_typed (Env (MPI_Init_thread th)) r = (\<exists>x. r = RInt x)"
| "well_typed (Env MPI_Query_thread) r = (\<exists>x. r = RInt x)"
| "well_typed (Env MPI_Finalized) r = (\<exists>x. r = RInt x)"
| "well_typed (Env (MPI_Comm_size c)) r = (\<exists>x. r = RInt x)"
| "well_typed (Env (MPI_Comm_rank c)) r = (\<exists>x. r = RInt x)"
| "well_typed (Env (MPI_Comm_get_appnum c)) r = (\<exists>x. r = RInts x)"
| "well_typed (Env (MPI_Comm_split_type c v)) r = (\<exists>x. r = RComm x)"
| "well_typed (Env (MPI_Comm_compare c c')) r = (\<exists>x. r = RInt x)"
| "well_typed (Env (MPI_Win_allocate n d c w)) r = (\<exists>x. r = RInt x)"
| "well_typed (Env (MPI_Win_allocate_shared n d c w)) r = (\<exists>x. r = RInt x)"
| "well_typed (Env (MPI_Win_shared_query w k)) r = (\<exists>x. r = RAddr x)"
| "well_typed (Env (MPI_Win_base w)) r = (\<exists>x. r = RAddr x)"
| "well_typed (Env (MPI_Error_string rc)) r = (\<exists>x. r = RStr x)"
| "well_typed (Env (Getenv name)) r = (\<exists>x. r = RStr x)"
| "well_typed (Env Sysconf_PAGESIZE) r = (\<exists>x. r = RInt x)"
| "well_typed (Env Sysconf_AVPHYS_PAGES) r = (\<exists>x. r = RInt x)"
| "well_typed (Env (Create_mspace_with_base a n k)) r = (\<exists>x. r = RAddr x)"
| "well_typed (Env MPI_Get_processor_name) r = (\<exists>x. r = RStr x)"
| "well_typed (Env MPI_Wtime) r = (\<exists>x. r = RVal x)"
| "well_typed e r = True"

definition typed_oracle :: "(eff list \<Rightarrow> eff \<Rightarrow> resp) \<Rightarrow> bool" where
  "typed_oracle orc \<longleftrightarrow> (\<forall>l e. well_typed e (orc l e))"

section \<open>Traces under an oracle\<close>

text \<open>An oracle answers by the calls so far; \<open>malloc\<close> may be assumed to succeed.\<close>

definition malloc_ok :: "(eff list \<Rightarrow> eff \<Rightarrow> resp) \<Rightarrow> bool" where
  "malloc_ok orc \<longleftrightarrow> (\<forall>l n. \<exists>a. orc l (Env (Malloc n)) = RAddr a \<and> a \<noteq> 0)"

lemma logged_call: "Q () (l @ [e]) \<Longrightarrow> ends (logged orc) (call e) l Q"
  by (rule ends_call [of _ _ _ "orc l e" "l @ [e]"]) (simp_all add: logged_def)

lemma logged_int: "orc l e = RInt i \<Longrightarrow> Q i (l @ [e]) \<Longrightarrow> ends (logged orc) (call_int e) l Q"
  by (rule ends_call_int [of _ _ _ i "l @ [e]"]) (simp_all add: logged_def)

lemma logged_val: "orc l e = RVal v \<Longrightarrow> Q v (l @ [e]) \<Longrightarrow> ends (logged orc) (call_val e) l Q"
  by (rule ends_call_val [of _ _ _ v "l @ [e]"]) (simp_all add: logged_def)

lemma logged_type: "orc l e = RType t \<Longrightarrow> Q t (l @ [e]) \<Longrightarrow> ends (logged orc) (call_type e) l Q"
  by (rule ends_call_type [of _ _ _ t "l @ [e]"]) (simp_all add: logged_def)

lemma logged_ints: "orc l e = RInts x \<Longrightarrow> Q x (l @ [e]) \<Longrightarrow> ends (logged orc) (call_ints e) l Q"
  by (simp add: call_ints_def ends_def logged_def)

lemma logged_comm: "orc l e = RComm c \<Longrightarrow> Q c (l @ [e]) \<Longrightarrow> ends (logged orc) (call_comm e) l Q"
  by (simp add: call_comm_def ends_def logged_def)

lemma logged_group: "orc l e = RGroup g \<Longrightarrow> Q g (l @ [e]) \<Longrightarrow> ends (logged orc) (call_group e) l Q"
  by (simp add: call_group_def ends_def logged_def)

lemma logged_addr: "orc l e = RAddr a \<Longrightarrow> Q a (l @ [e]) \<Longrightarrow> ends (logged orc) (call_addr e) l Q"
  by (simp add: call_addr_def ends_def logged_def)

lemma logged_bytes: "orc l e = RBytes b \<Longrightarrow> Q b (l @ [e]) \<Longrightarrow> ends (logged orc) (call_bytes e) l Q"
  by (simp add: call_bytes_def ends_def logged_def)

lemma logged_malloc:
  assumes "malloc_ok orc" "\<And>a. a \<noteq> 0 \<Longrightarrow> Q a (l @ [Env (Malloc n)])"
  shows "ends (logged orc) (call_addr (Env (Malloc n))) l Q"
  using assms by (metis logged_addr malloc_ok_def)

lemma logged_str: "orc l e = RStr x \<Longrightarrow> Q x (l @ [e]) \<Longrightarrow> ends (logged orc) (call_str e) l Q"
  by (simp add: call_str_def ends_def logged_def)

text \<open>With typed answers, a call of a given kind is answered by some value of that kind.\<close>

lemma typed_oracleD:
  assumes "typed_oracle orc"
  shows "\<exists>t. orc l (Ty (MPI_Type_vector c b s ty)) = RType t"
    and "\<exists>t. orc l (Ty (MPI_Type_contiguous c ty)) = RType t"
    and "\<exists>t. orc l (Ty (MPI_Type_create_struct bl)) = RType t"
    and "\<exists>i. orc l (Ty (MPI_Type_get_extent ty)) = RInt i"
    and "\<exists>x. orc l (Com (MPI_Allgather_int v cm)) = RInts x"
    and "\<exists>g. orc l (Com (MPI_Group_incl gr rs)) = RGroup g"
    and "\<exists>c. orc l (Com (MPI_Comm_create_group cm gr tg)) = RComm c"
    and "\<exists>x. orc l (Com (MPI_Group_translate_ranks gr rs gr')) = RInts x \<and> length x = length rs"
    and "\<exists>v. orc l (Rma (MPI_Fetch_and_op u ty p d oper w)) = RVal v"
  using assms unfolding typed_oracle_def by (metis well_typed.simps)+


section \<open>An environment for the examples\<close>

text \<open>Answers of a machine with two processes on one node, where every call succeeds.\<close>

fun env_answer :: "env_call \<Rightarrow> resp" where
  "env_answer (Malloc n) = RAddr 16"
| "env_answer MPI_Initialized = RInt 0"
| "env_answer (MPI_Init_thread th) = RInt th"
| "env_answer MPI_Query_thread = RInt 0"
| "env_answer MPI_Finalized = RInt 0"
| "env_answer (MPI_Comm_size c) = RInt 2"
| "env_answer (MPI_Comm_rank c) = RInt 0"
| "env_answer (MPI_Comm_get_appnum c) = RInts []"
| "env_answer (MPI_Comm_split_type c v) = RComm (Comm 7)"
| "env_answer (MPI_Comm_compare c c') = RInt 1"
| "env_answer (MPI_Win_allocate n d c w) = RInt 0"
| "env_answer (MPI_Win_allocate_shared n d c w) = RInt 0"
| "env_answer (MPI_Win_shared_query w k) = RAddr (0x1000 + 0x1000 * word_of_int k)"
| "env_answer (MPI_Win_base w) = RAddr 0x1000"
| "env_answer (MPI_Error_string rc) = RStr None"
| "env_answer (Getenv name) = RStr None"
| "env_answer Sysconf_PAGESIZE = RInt 4096"
| "env_answer Sysconf_AVPHYS_PAGES = RInt 1000"
| "env_answer (Create_mspace_with_base a n k) = RAddr (a + 16)"
| "env_answer MPI_Get_processor_name = RStr (Some ''node'')"
| "env_answer MPI_Wtime = RVal 0"
| "env_answer e = RUnit"

lemma env_answer_typed: "well_typed (Env e) (env_answer e)"
  by (cases e) simp_all

end
