(* ===== verification/Globals.thy ===== *)
theory Globals
  imports Effects
begin

text \<open>
  The global state of one PE (\<open>src/src/shmem-internals.h\<close>, lines 30-84) and the two address
  translations every communication routine starts with: \<open>oshmpi_window_offset\<close>
  (\<open>src/src/shmem-internals.c\<close>) from a local symmetric address to a window and an offset,
  and \<open>shmem_ptr\<close> (\<open>src/src/shmem.c\<close>) to an address that reaches another PE's heap by
  load and store. The build options that select code are the fields of \<open>config\<close>.
\<close>

section \<open>Build options and globals\<close>

record config =
  ENABLE_SMP_OPTIMIZATIONS :: bool
  ENABLE_RMA_ORDERING :: bool
  ENABLE_COMM_CACHING :: bool
  ENABLE_MPMD_SUPPORT :: bool
  MPICH :: bool
  mpich_handle :: "mpi_type \<Rightarrow> 32 word" \<comment> \<open>the handles \<open>mpi.h\<close> of an MPICH defines\<close>

text \<open>
  \<open>long\<close> and \<open>int\<close> globals are integers, pointers are 64-bit words. The communicator cache
  is in the theory \<open>Comm_Cache\<close>, since its entries change after start-up.
\<close>

record globals =
  conf :: config
  shmem_is_initialized :: bool
  shmem_is_finalized :: bool
  shmem_world_size :: int
  shmem_world_rank :: int
  shmem_world_is_smp :: bool
  shmem_node_size :: int
  shmem_node_rank :: int
  shmem_smp_rank_list :: "int list"
  shmem_smp_sheap_ptrs :: "addr list"
  shmem_etext_size :: int
  shmem_etext_base_ptr :: addr
  shmem_sheap_size :: int
  shmem_sheap_base_ptr :: addr
  shmem_running_mpmd :: bool
  shmem_mpmd_my_appnum :: int

datatype (plugins only: code size) shmem_window_id =
  SHMEM_SHEAP_WINDOW | SHMEM_ETEXT_WINDOW | SHMEM_INVALID_WINDOW

definition oshmpi_abort :: "int \<Rightarrow> string \<Rightarrow> 'a shm" where
  "oshmpi_abort code message = Abort code message"

section \<open>Address translation\<close>

definition oshmpi_window_offset ::
    "globals \<Rightarrow> addr \<Rightarrow> int \<Rightarrow> int \<times> shmem_window_id \<times> int" where
  "oshmpi_window_offset g address pe =
     (let sheap_offset = ptrdiff address (shmem_sheap_base_ptr g);
          etext_offset = ptrdiff address (shmem_etext_base_ptr g)
      in if 0 \<le> sheap_offset \<and> sheap_offset \<le> shmem_sheap_size g
         then (0, SHMEM_SHEAP_WINDOW, sheap_offset)
         else if 0 \<le> etext_offset \<and> etext_offset \<le> shmem_etext_size g
         then (0, SHMEM_ETEXT_WINDOW, etext_offset)
         else (1, SHMEM_INVALID_WINDOW, 0))"

text \<open>The window a lookup result selects in every routine.\<close>

definition win_of :: "shmem_window_id \<Rightarrow> mpi_win" where
  "win_of win_id = (if win_id = SHMEM_SHEAP_WINDOW then Shmem_sheap_win else Shmem_etext_win)"

text \<open>The address of \<open>target\<close>'s copy in PE \<open>pe\<close>'s segment of the shared heap window.\<close>

definition smp_ptr :: "globals \<Rightarrow> int \<Rightarrow> addr \<Rightarrow> addr" where
  "smp_ptr g pe target =
     shmem_smp_sheap_ptrs g ! nat pe + (target - shmem_sheap_base_ptr g)"

definition use_smp :: "globals \<Rightarrow> shmem_window_id \<Rightarrow> bool" where
  "use_smp g win_id \<longleftrightarrow>
     ENABLE_SMP_OPTIMIZATIONS (conf g) \<and> shmem_world_is_smp g \<and> win_id = SHMEM_SHEAP_WINDOW"

definition OSHMPI_Type_size :: "globals \<Rightarrow> mpi_type \<Rightarrow> int shm" where
  "OSHMPI_Type_size g mpi_type =
     (if MPICH (conf g)
      then Return (uint (drop_bit 8 (and (mpich_handle (conf g) mpi_type) 0x0000ff00)))
      else call_int (Ty (MPI_Type_size mpi_type)))"

section \<open>Query routines\<close>

definition shmem_n_pes :: "globals \<Rightarrow> int" where
  "shmem_n_pes g = shmem_world_size g"

definition shmem_my_pe :: "globals \<Rightarrow> int" where
  "shmem_my_pe g = shmem_world_rank g"

definition shmem_pe_accessible :: "globals \<Rightarrow> int \<Rightarrow> int shm" where
  "shmem_pe_accessible g pe =
     (if ENABLE_MPMD_SUPPORT (conf g)
      then if shmem_running_mpmd g
           then pbind (call_val (Rma (MPI_Fetch_and_op None MPI_INT pe 0 MPI_NO_OP
                                       Shmem_mpmd_appnum_win)))
                  (\<lambda>pe_appnum.
                   pseq (call (Rma (MPI_Win_flush pe Shmem_mpmd_appnum_win)))
                    (Return (of_bool (shmem_mpmd_my_appnum g = sint (ucast pe_appnum :: 32 word)))))
           else Undef ''shmem_pe_accessible ends without a return statement''
      else Return (of_bool (0 \<le> pe \<and> pe \<le> shmem_world_size g)))"

definition shmem_addr_accessible :: "globals \<Rightarrow> addr \<Rightarrow> int \<Rightarrow> int" where
  "shmem_addr_accessible g addr pe =
     (if 0 \<le> pe \<and> pe \<le> shmem_world_size g
      then of_bool (0 = fst (oshmpi_window_offset g addr pe))
      else 0)"

definition shmem_ptr :: "globals \<Rightarrow> addr \<Rightarrow> int \<Rightarrow> addr shm" where
  "shmem_ptr g target pe =
     (if ENABLE_SMP_OPTIMIZATIONS (conf g)
      then case oshmpi_window_offset g target pe of
             (ret, win_id, win_offset) \<Rightarrow>
               if ret \<noteq> 0 then oshmpi_abort pe ''oshmpi_window_offset failed to find source''
               else if shmem_world_is_smp g \<and> win_id = SHMEM_SHEAP_WINDOW
               then Return (smp_ptr g pe target)
               else Return (if pe = shmem_world_rank g then target else 0)
      else Return (if pe = shmem_world_rank g then target else 0))"

section \<open>Facts about the translation\<close>

text \<open>The base and the size of a window of this PE.\<close>

definition win_base :: "globals \<Rightarrow> shmem_window_id \<Rightarrow> addr" where
  "win_base g win_id =
     (if win_id = SHMEM_SHEAP_WINDOW then shmem_sheap_base_ptr g else shmem_etext_base_ptr g)"

definition win_size :: "globals \<Rightarrow> shmem_window_id \<Rightarrow> int" where
  "win_size g win_id =
     (if win_id = SHMEM_SHEAP_WINDOW then shmem_sheap_size g else shmem_etext_size g)"

lemma add_ptrdiff [simp]: "b + word_of_int (ptrdiff a b) = a"
  by (simp add: ptrdiff_def)

lemma ptrdiff_eq_0 [simp]: "ptrdiff a a = 0"
  by (simp add: ptrdiff_def)

lemma ptrdiff_offset: "- (2 ^ 63) \<le> d \<Longrightarrow> d < 2 ^ 63 \<Longrightarrow> ptrdiff (b + word_of_int d) b = d"
  by (simp add: ptrdiff_def signed_of_int signed_take_bit_int_eq_self)

locale window_lookup =
  fixes lookup :: "addr \<Rightarrow> int \<times> shmem_window_id \<times> int"
    and wbase :: "shmem_window_id \<Rightarrow> addr"
    and wsize :: "shmem_window_id \<Rightarrow> int"
  assumes lookup_found:
      "lookup a = (0, i, off) \<Longrightarrow>
         i \<noteq> SHMEM_INVALID_WINDOW \<and> 0 \<le> off \<and> off \<le> wsize i \<and> a = wbase i + word_of_int off"
    and lookup_missing:
      "lookup a = (ret, i, off) \<Longrightarrow> ret \<noteq> 0 \<Longrightarrow> ret = 1 \<and> i = SHMEM_INVALID_WINDOW \<and> off = 0"
begin

lemma found_offset_unique:
  assumes "lookup a = (0, i, off)" "lookup b = (0, i, off)"
  shows "a = b"
  using lookup_found [OF assms(1)] lookup_found [OF assms(2)] by simp

lemma found_or_missing:
  obtains (found) i off where "lookup a = (0, i, off)" "0 \<le> off" "off \<le> wsize i"
      "a = wbase i + word_of_int off"
    | (missing) "lookup a = (1, SHMEM_INVALID_WINDOW, 0)"
proof -
  obtain ret i off where l: "lookup a = (ret, i, off)"
    by (cases "lookup a") auto
  show thesis
  proof (cases "ret = 0")
    case True
    with l lookup_found [of a i off] show ?thesis by (auto intro: found)
  next
    case False
    with l lookup_missing [of a ret i off] show ?thesis by (auto intro: missing)
  qed
qed

text \<open>The translation of an address to another base keeps the distance from the base.\<close>

lemma translated_distance:
  assumes "lookup a = (0, i, off)"
  shows "b + (a - wbase i) = b + word_of_int off"
  using lookup_found [OF assms] by simp

end

interpretation winlk: window_lookup "\<lambda>a. oshmpi_window_offset g a pe" "win_base g" "win_size g"
  by unfold_locales
    (auto simp: oshmpi_window_offset_def Let_def win_base_def win_size_def split: if_splits)

lemma window_offset_sheap:
  assumes "0 \<le> off" "off \<le> shmem_sheap_size g" "shmem_sheap_size g < 2 ^ 63"
  shows "oshmpi_window_offset g (shmem_sheap_base_ptr g + word_of_int off) pe
       = (0, SHMEM_SHEAP_WINDOW, off)"
proof -
  have "ptrdiff (shmem_sheap_base_ptr g + word_of_int off) (shmem_sheap_base_ptr g) = off"
    using assms by (intro ptrdiff_offset) auto
  with assms show ?thesis
    by (simp add: oshmpi_window_offset_def Let_def)
qed

text \<open>
  a successful lookup is exact. The returned offset lies between 0 and the size of the
  window it names, and adding it to the window's base gives the address back; a failed
  lookup returns 1, the invalid window and offset 0.
\<close>

lemma window_offset_roundtrip:
  "case oshmpi_window_offset g a pe of
     (ret, i, off) \<Rightarrow>
       if ret = 0
       then i \<noteq> SHMEM_INVALID_WINDOW \<and> 0 \<le> off \<and> off \<le> win_size g i
            \<and> win_base g i + word_of_int off = a
       else ret = 1 \<and> i = SHMEM_INVALID_WINDOW \<and> off = 0"
  using winlk.lookup_found [of g a pe] winlk.lookup_missing [of g a pe]
  by (auto split: prod.split)

end
