(* ===== verification/Heap_Api.thy ===== *)
theory Heap_Api
  imports Dl_Top Globals
begin

unbundle bit_operations_syntax

text \<open>
  The symmetric heap routines of \<open>src/src/shmem.c\<close> (lines 90-108) over the mspace
  \<open>shmem_heap_mspace\<close>, whose state is threaded through, and the creation of the counters of
  \<open>src/src/shmemx-counting-put.c\<close>. Then what the allocator means for the library: where it hands
  out memory that no window covers, and when an alignment request does not return.
\<close>

definition shmalloc :: "system \<Rightarrow> size_t \<Rightarrow> malloc_state \<Rightarrow> (addr \<times> malloc_state) dl_result" where
  "shmalloc os sz s = mspace_malloc os sz s"

definition shmemalign :: "system \<Rightarrow> size_t \<Rightarrow> size_t \<Rightarrow> malloc_state \<Rightarrow> (addr \<times> malloc_state) dl_result" where
  "shmemalign os alignment sz s = mspace_memalign os alignment sz s"

definition shrealloc :: "system \<Rightarrow> addr \<Rightarrow> size_t \<Rightarrow> malloc_state \<Rightarrow> (addr \<times> malloc_state) dl_result" where
  "shrealloc os ptr sz s = mspace_realloc os ptr sz s"

definition shfree :: "system \<Rightarrow> addr \<Rightarrow> malloc_state \<Rightarrow> malloc_state dl_result" where
  "shfree os ptr s = mspace_free os ptr s"

definition shmemx_ct_create :: "system \<Rightarrow> malloc_state \<Rightarrow> (addr \<times> malloc_state) dl_result" where
  "shmemx_ct_create os s = shmalloc os 8 s"

definition shmemx_ct_free :: "system \<Rightarrow> addr \<Rightarrow> malloc_state \<Rightarrow> malloc_state dl_result" where
  "shmemx_ct_free os ct s = shfree os ct s"

section \<open>Requests that leave the window\<close>

lemma mmap_alloc_returns:
  assumes "footprint_limit s = 0" "nb < mmap_align s (nb + SIX_SIZE_T_SIZES + CHUNK_ALIGN_MASK)"
    "sys_mmap os (syscalls s) (mmap_align s (nb + SIX_SIZE_T_SIZES + CHUNK_ALIGN_MASK)) (heap s) = (mm, h)"
    "mm \<noteq> CMFAIL" "is_aligned mm"
  shows "\<exists>t. mmap_alloc os nb s = (chunk2mem mm, t)"
proof -
  have "align_offset (chunk2mem mm) = 0"
    using align_as_chunk_aligned [OF assms(5)] by (simp add: align_as_chunk_def)
  then show ?thesis
    using assms(1-4) by (simp add: mmap_alloc_def Let_def over_limit_def CALL_MMAP_def)
qed

text \<open>
  C37: A request that does not fit the heap but reaches the mapping threshold is not refused: it is
  served by a mapping of its own. Its address is no address of the symmetric heap, every
  translation of it fails, so every transfer to it aborts.
\<close>

theorem large_request_leaves_window:
  assumes "top_only s" "sole_segment s" "b < MAX_REQUEST" "topsize s \<le> request2size b"
    "mmap_threshold (mparams s) \<le> request2size b" "use_mmap s" "footprint_limit s = 0"
    "request2size b < mmap_align s (request2size b + SIX_SIZE_T_SIZES + CHUNK_ALIGN_MASK)"
    "sys_mmap os (syscalls s) (mmap_align s (request2size b + SIX_SIZE_T_SIZES + CHUNK_ALIGN_MASK))
       (heap s) = (mm, h)"
    "mm \<noteq> CMFAIL" "is_aligned mm" "chunk2mem mm \<noteq> 0"
    "\<And>i. i \<noteq> SHMEM_INVALID_WINDOW \<Longrightarrow>
       ptrdiff (chunk2mem mm) (win_base g i) < 0 \<or> win_size g i < ptrdiff (chunk2mem mm) (win_base g i)"
  shows "\<exists>t. shmalloc os b s = Ret (chunk2mem mm, t)
    \<and> oshmpi_window_offset g (chunk2mem mm) pe = (1, SHMEM_INVALID_WINDOW, 0)"
proof -
  let ?n = "request2size b"
  have z: "dvsize s = 0" "0 < topsize s" "mp_magic (mparams s) \<noteq> 0"
    using assms(1,2) by (auto simp: top_only_def sole_segment_def)
  obtain t where t: "mmap_alloc os ?n s = (chunk2mem mm, t)"
    using mmap_alloc_returns [OF assms(7,8,9,10,11)] by blast
  have "sys_alloc os ?n s = Ret (chunk2mem mm, t)"
    using assms(5,6,12) z t word_gt_0 [of "topsize s"] by (simp add: sys_alloc_def ensure_initialization_def)
  then have "shmalloc os b s = Ret (chunk2mem mm, t)"
    using z assms(4) request2size_pos [OF assms(3)]
    by (simp add: shmalloc_def malloc_top_only [OF assms(1,3)] malloc_dv_or_top_def leD)
  moreover have "oshmpi_window_offset g (chunk2mem mm) pe = (1, SHMEM_INVALID_WINDOW, 0)"
    using assms(13) [of SHMEM_SHEAP_WINDOW] assms(13) [of SHMEM_ETEXT_WINDOW]
    by (auto simp: oshmpi_window_offset_def Let_def win_base_def win_size_def)
  ultimately show ?thesis by blast
qed

text \<open>A heap at \<open>0x10000\<close> in a system that maps fresh memory far away\<close>

definition mapping_system :: system where
  "mapping_system = refusing_system\<lparr>sys_mmap := \<lambda>_ _ h. (0x7F0000000000, h)\<rparr>"

lemma mapping_system_initialises:
  obtains s0 where "ensure_initialization mapping_system (zero_state 0) = Ret s0"
    "page_size (mparams s0) = 4096" "mmap_threshold (mparams s0) = 262144" "default_mflags (mparams s0) = 5"
proof -
  have "\<exists>s0. ensure_initialization mapping_system (zero_state 0) = Ret s0 \<and> page_size (mparams s0) = 4096
      \<and> mmap_threshold (mparams s0) = 262144 \<and> default_mflags (mparams s0) = 5"
    by (simp add: ensure_initialization_def init_mparams_def Let_def pow2_def mapping_system_def
        refusing_system_def zero_state_def dl_consts)
  then show thesis using that by blast
qed

theorem large_request_leaves_window_witness:
  "\<exists>s t (g :: globals). create_mspace_with_base mapping_system 0x10000 0x10000 False (zero_state 0) = Ret (0x10010, s)
     \<and> shmalloc mapping_system 1000000 s = Ret (0x7F0000000010, t)
     \<and> win_base g SHMEM_SHEAP_WINDOW = 0x10000
     \<and> oshmpi_window_offset g 0x7F0000000010 0 = (1, SHMEM_INVALID_WINDOW, 0)"
proof -
  obtain s0 where s0: "ensure_initialization mapping_system (zero_state 0) = Ret s0"
    "page_size (mparams s0) = 4096" "mmap_threshold (mparams s0) = 262144" "default_mflags (mparams s0) = 5"
    by (rule mapping_system_initialises)
  obtain s where s: "create_mspace_with_base mapping_system 0x10000 0x10000 False (zero_state 0) = Ret (0x10010, s)"
    "top_only s" "sole_segment s" "topsize s = 0xFC00" "mparams s = mparams s0" "footprint_limit s = 0" "mflags s = 5"
    using create_top_only [OF s0(1), of "0x10000" "0x10000" False] s0(2,4)
    by (simp add: is_aligned_iff capacity_limit_def msize dl_consts) blast
  define g where "g = (SOME g :: globals. True)\<lparr>shmem_sheap_base_ptr := 0x10000, shmem_sheap_size := 0x10000,
     shmem_etext_base_ptr := 0x400000, shmem_etext_size := 0x1000\<rparr>"
  have r: "request2size 1000000 = 1000016" by code_simp
  have a: "mmap_align s (1000016 + SIX_SIZE_T_SIZES + CHUNK_ALIGN_MASK) = 1003520"
    by (simp add: mmap_align_def page_align_def s(5) s0(2) dl_consts)
  have "\<exists>t. shmalloc mapping_system 1000000 s = Ret (chunk2mem 0x7F0000000000, t)
      \<and> oshmpi_window_offset g (chunk2mem 0x7F0000000000) 0 = (1, SHMEM_INVALID_WINDOW, 0)"
    by (rule large_request_leaves_window [OF s(2,3), where h = "heap s"])
      (simp_all add: r a [simplified dl_consts, simplified] a s(4-7) s0(3) use_mmap_def mapping_system_def g_def is_aligned_iff chunk2mem_def
        ptrdiff_def win_base_def win_size_def dl_consts split: shmem_window_id.split)
  moreover have "win_base g SHMEM_SHEAP_WINDOW = 0x10000" by (simp add: g_def win_base_def)
  moreover have "chunk2mem 0x7F0000000000 = 0x7F0000000010" by (simp add: chunk2mem_def dl_consts)
  ultimately show ?thesis using s(1) by auto
qed

section \<open>Alignments\<close>

lemma pow2_from_power:
  assumes "j \<le> 63" "a \<le> 2 ^ 63"
  shows "\<exists>k \<le> 63. pow2_from (2 ^ j) a = Some (2 ^ k) \<and> a \<le> 2 ^ k \<and> (k = j \<or> 2 ^ (k - 1) < a)"
  using assms(1)
proof (induction "63 - j" arbitrary: j)
  case 0
  then show ?case using assms(2) by (subst pow2_from.simps) (auto simp: not_less)
next
  case (Suc d)
  then have j: "Suc j \<le> 63" "d = 63 - Suc j" by auto
  obtain k where k: "k \<le> 63" "pow2_from (2 ^ Suc j) a = Some (2 ^ k)" "a \<le> 2 ^ k" "k = Suc j \<or> 2 ^ (k - 1) < a"
    using Suc.hyps(1) [OF j(2,1)] by blast
  show ?case
  proof (cases "2 ^ j < a")
    case True
    have "pow2_from (2 ^ j) a = pow2_from (2 ^ Suc j) a"
      using True by (subst pow2_from.simps) (simp add: push_bit_eq_mult mult.commute)
    moreover have "2 ^ (k - 1) < a" using k(4) True by auto
    ultimately show ?thesis using k by auto
  next
    case False
    then have "pow2_from (2 ^ j) a = Some (2 ^ j)" by (subst pow2_from.simps) simp
    then show ?thesis using j False by (intro exI [of _ j]) (auto simp: not_less)
  qed
qed

lemma pow2_from_bound:
  assumes "pow2_from a b = Some y"
  shows "b \<le> y \<and> (\<exists>i. y = push_bit i a)"
proof (rule pow2_from.raw_induct [OF _ assms])
  fix pow2 and a b y :: size_t
  assume IH: "\<And>a b y. pow2 a b = Some y \<Longrightarrow> b \<le> y \<and> (\<exists>i. y = push_bit i a)"
    and eq: "(if a < b then pow2 (push_bit 1 a) b else Some a) = Some y"
  show "b \<le> y \<and> (\<exists>i. y = push_bit i a)"
  proof (cases "a < b")
    case True
    then have "b \<le> y \<and> (\<exists>i. y = push_bit i (push_bit 1 a))" using IH [of "push_bit 1 a" b y] eq by simp
    then show ?thesis by (metis push_bit_push_bit)
  next
    case False
    then have "y = push_bit 0 a" "b \<le> y" using eq by auto
    then show ?thesis by blast
  qed
qed

lemma unat_two_power: "k \<le> 63 \<Longrightarrow> unat ((2 :: size_t) ^ k) = 2 ^ k"
proof -
  assume "k \<le> 63"
  then have "(2 :: nat) ^ k < 2 ^ 64" by (intro power_strict_increasing; simp)
  then have "unat (of_nat (2 ^ k) :: size_t) = 2 ^ k" by (simp add: unat_of_nat del: of_nat_power)
  then show ?thesis by simp
qed

lemma pow2_from_spins: "pow2_from (2 ^ j) a = None" if "2 ^ 63 < a"
proof (cases "pow2_from (2 ^ j) a")
  case (Some y)
  then obtain i where y: "a \<le> y" "y = push_bit i (2 ^ j)" using pow2_from_bound by blast
  have "y \<le> 2 ^ 63"
  proof (cases "j + i \<le> 63")
    case True
    then have "unat ((2 :: size_t) ^ (j + i)) \<le> 2 ^ 63"
      by (simp only: unat_two_power [OF True]) (intro power_increasing; simp add: True)
    then show ?thesis
      by (simp add: y(2) push_bit_eq_mult word_le_nat_alt flip: power_add)
  next
    case False
    then have "(2 :: size_t) ^ (j + i) = 0" by (simp add: exp_eq_zero_iff)
    then show ?thesis by (simp add: y(2) push_bit_eq_mult power_add mult.commute)
  qed
  then show ?thesis using y(1) that by simp
qed

lemma power_of_two_test:
  fixes a :: size_t
  assumes "a \<noteq> 0" "a AND (a - 1) = 0"
  shows "\<exists>k \<le> 63. a = 2 ^ k"
proof -
  have "\<exists>k. 2 ^ k \<le> unat a \<and> unat a < 2 ^ Suc k"
    using assms(1) ex_power_ivl1 [of 2 "unat a"] unat_gt_0 [of a] by (auto simp: Suc_le_eq)
  then obtain k where k: "2 ^ k \<le> unat a" "unat a < 2 ^ Suc k" by blast
  have top: "bit x k" if "2 ^ k \<le> unat x" "unat x < 2 ^ Suc k" for x :: size_t
  proof -
    have "unat x div 2 ^ k = 1" using that by (intro div_nat_eqI) auto
    then have "bit (unat x) k" by (simp add: bit_iff_odd)
    then show ?thesis by (simp add: bit_unsigned_iff)
  qed
  have "k < 64"
    using k(1) unsigned_less [of a] by (intro power_less_imp_less_exp [of 2]) (auto intro: le_less_trans)
  have "unat (a - 1) = unat a - 1" using assms(1) by (simp add: unat_minus_one)
  have "unat a = 2 ^ k"
  proof (rule ccontr)
    assume "unat a \<noteq> 2 ^ k"
    then have "bit (a - 1) k" "bit a k" using k \<open>unat (a - 1) = _\<close> by (auto intro!: top)
    then have "bit (a AND (a - 1)) k" by (simp add: bit_and_iff)
    then show False using assms(2) by simp
  qed
  then have "a = 2 ^ k" using \<open>k < 64\<close> by (simp add: word_unat_eq_iff unat_two_power)
  then show ?thesis using \<open>k < 64\<close> by (intro exI [of _ k]) simp
qed

lemma memalign_alignment_power:
  assumes "a \<le> 2 ^ 63"
  shows "\<exists>k \<le> 63. 5 \<le> k \<and> memalign_alignment a = Some (2 ^ k) \<and> a \<le> 2 ^ k \<and> (k = 5 \<or> 2 ^ (k - 1) < a)"
proof -
  define b where "b = (if a < 32 then 32 else a)"
  have b: "b \<noteq> 0" "a \<le> b" "b \<le> 2 ^ 63" "32 \<le> b" using assms by (auto simp: b_def not_less)
  have m: "memalign_alignment a = (if b AND (b - 1) \<noteq> 0 then pow2_from (2 ^ 5) b else Some b)"
    by (simp add: memalign_alignment_def Let_def b_def dl_consts push_bit_eq_mult)
  have five: "5 \<le> k" if "k \<le> 63" "b \<le> 2 ^ k" for k
  proof (rule power_le_imp_le_exp)
    have "unat (32 :: size_t) \<le> unat ((2 :: size_t) ^ k)" using b(4) that(2) by (meson order_trans word_le_nat_alt)
    then show "(2 :: nat) ^ 5 \<le> 2 ^ k" using that(1) by (simp add: unat_two_power)
  qed simp
  show ?thesis
  proof (cases "b AND (b - 1) = 0")
    case True
    then obtain k where k: "k \<le> 63" "b = 2 ^ k" using power_of_two_test [OF b(1)] by blast
    moreover have "k = 5 \<or> 2 ^ (k - 1) < a"
    proof (cases "a < 32")
      case True
      then have "unat ((2 :: size_t) ^ k) = 32" using k by (simp add: b_def flip: k(2))
      then have "(2 :: nat) ^ k = 2 ^ 5" using k(1) by (simp add: unat_two_power)
      then have "k = 5" by (simp only: power_inject_exp) 
      then show ?thesis ..
    next
      case False
      then have "a = 2 ^ k" "k \<noteq> 0" using k(2) b(4) by (auto simp: b_def intro: ccontr)
      then show ?thesis using k(1) by (simp add: word_less_nat_alt unat_two_power)
    qed
    ultimately show ?thesis using m True b(2) five [of k] by auto
  next
    case False
    obtain k where k: "k \<le> 63" "pow2_from (2 ^ 5) b = Some (2 ^ k)" "b \<le> 2 ^ k" "k = 5 \<or> 2 ^ (k - 1) < b"
      using pow2_from_power [of 5 b] b(3) by auto
    have "k = 5 \<or> 2 ^ (k - 1) < a"
    proof (cases "a < 32")
      case True
      then show ?thesis using False by (simp add: b_def)
    qed (use k(4) in \<open>simp add: b_def\<close>)
    then show ?thesis using k m False b(2) five [of k] by auto
  qed
qed

text \<open>
  C38: The loop that rounds an alignment up to a power of two ends exactly for alignments of at most
  \<open>2 ^ 63\<close>, with the least power of two from 32 on that is not below the alignment. Beyond, the
  candidate becomes 0 and \<open>shmemalign\<close> never returns, whatever the heap.
\<close>

theorem memalign_alignment_terminates:
  "if a \<le> 2 ^ 63
   then \<exists>k \<le> 63. 5 \<le> k \<and> memalign_alignment a = Some (2 ^ k) \<and> a \<le> 2 ^ k \<and> (k = 5 \<or> 2 ^ (k - 1) < a)
   else memalign_alignment a = None \<and> shmemalign os a n s = Spin"
proof (cases "a \<le> 2 ^ 63")
  case False
  then have big: "2 ^ 63 < a" by simp
  have "a AND (a - 1) \<noteq> 0"
  proof
    assume "a AND (a - 1) = 0"
    then obtain k where "k \<le> 63" "a = 2 ^ k" using power_of_two_test [of a] big by fastforce
    then have "unat a \<le> 2 ^ 63" by (simp only: unat_two_power) (intro power_increasing; simp)
    then show False using big by (simp add: word_less_nat_alt)
  qed
  moreover have "\<not> a < 32" "\<not> a \<le> 16" using big by (simp_all add: word_less_nat_alt word_le_nat_alt)
  moreover have "push_bit 1 16 = (2 ^ 5 :: size_t)" by simp
  ultimately have "memalign_alignment a = None"
    using pow2_from_spins [OF big, of 5]
    by (simp add: memalign_alignment_def Let_def dl_consts)
  then show ?thesis
    using big \<open>\<not> a \<le> 16\<close> by (simp add: shmemalign_def mspace_memalign_def internal_memalign_def dl_consts)
qed (simp only: if_True, rule memalign_alignment_power)

end
