(* ===== verification/Dl_Heap_History.thy ===== *)
theory Dl_Heap_History
  imports Dl_Heap_Free Heap_Api
begin

unbundle bit_operations_syntax

text \<open>
  What a client of \<open>shmalloc\<close> and \<open>shfree\<close> may rely on, in any order of requests, releases and stores to its
  own blocks. The interface is the locale \<open>allocator\<close>; the heap of \<open>Dl_Heap\<close> provides it.
\<close>

section \<open>Histories of a client\<close>

text \<open>The whole words inside the block of \<open>n\<close> bytes at \<open>m\<close>\<close>

definition block_words :: "addr \<Rightarrow> size_t \<Rightarrow> addr set" where
  "block_words m n = {a. 8 dvd unat a \<and> unat m \<le> unat a \<and> unat a + 8 \<le> unat m + unat n}"

text \<open>
  The blocks the client holds, with the sizes it asked for, and the words it has stored in them since it got
  them, after a history that starts in \<open>s0\<close>.
\<close>

inductive serves ::
  "(size_t \<Rightarrow> 's \<Rightarrow> (addr \<times> 's) dl_result) \<Rightarrow> (addr \<Rightarrow> 's \<Rightarrow> 's dl_result) \<Rightarrow> (addr \<Rightarrow> size_t \<Rightarrow> 's \<Rightarrow> 's) \<Rightarrow> 's
     \<Rightarrow> 's \<Rightarrow> (addr \<rightharpoonup> size_t) \<Rightarrow> (addr \<rightharpoonup> size_t) \<Rightarrow> bool"
  for request release store s0 where
  start: "serves request release store s0 s0 Map.empty Map.empty"
| request: "\<lbrakk>serves request release store s0 s L M; request n s = Ret (m, s'); m \<noteq> 0\<rbrakk>
    \<Longrightarrow> serves request release store s0 s' (L(m \<mapsto> n)) M"
| refused: "\<lbrakk>serves request release store s0 s L M; request n s = Ret (0, s')\<rbrakk>
    \<Longrightarrow> serves request release store s0 s' L M"
| release: "\<lbrakk>serves request release store s0 s L M; L m = Some n; release m s = Ret s'\<rbrakk>
    \<Longrightarrow> serves request release store s0 s' (L(m := None)) (M |` (- block_words m n))"
| store: "\<lbrakk>serves request release store s0 s L M; L m = Some n; a \<in> block_words m n\<rbrakk>
    \<Longrightarrow> serves request release store s0 (store a v s) L (M(a \<mapsto> v))"

section \<open>The interface of an allocator\<close>

type_synonym regions = "(addr \<times> nat) set"

text \<open>The words of the regions are the same in both states.\<close>

definition same_words :: "('s \<Rightarrow> addr \<Rightarrow> size_t) \<Rightarrow> regions \<Rightarrow> 's \<Rightarrow> 's \<Rightarrow> bool" where
  "same_words fetch U s s' \<longleftrightarrow>
     (\<forall>(m, k)\<in>U. \<forall>a. unat m \<le> unat a \<and> unat a < unat m + k \<longrightarrow> fetch s' a = fetch s a)"

text \<open>The regions a request may return: from the addresses \<open>lo\<close> to \<open>hi\<close>, aligned and apart from each other\<close>

definition regions_ok :: "nat \<Rightarrow> nat \<Rightarrow> regions \<Rightarrow> bool" where
  "regions_ok lo hi U \<longleftrightarrow>
     (\<forall>(m, k)\<in>U. is_aligned m \<and> lo \<le> unat m \<and> unat m + k \<le> hi \<and> 0 < k)
       \<and> (\<forall>(m, k)\<in>U. \<forall>(m', k')\<in>U. (m, k) \<noteq> (m', k') \<longrightarrow> unat m + k \<le> unat m' \<or> unat m' + k' \<le> unat m)"

lemma regions_okI:
  assumes "\<And>m k. (m, k) \<in> U \<Longrightarrow> is_aligned m \<and> lo \<le> unat m \<and> unat m + k \<le> hi \<and> 0 < k"
    "\<And>m k m' k'. (m, k) \<in> U \<Longrightarrow> (m', k') \<in> U \<Longrightarrow> (m, k) \<noteq> (m', k') \<Longrightarrow> unat m + k \<le> unat m' \<or> unat m' + k' \<le> unat m"
  shows "regions_ok lo hi U"
  unfolding regions_ok_def using assms by blast

lemma regions_okD:
  assumes "regions_ok lo hi U"
  shows "(m, k) \<in> U \<Longrightarrow> is_aligned m \<and> lo \<le> unat m \<and> unat m + k \<le> hi \<and> 0 < k"
    "(m, k) \<in> U \<Longrightarrow> (m', k') \<in> U \<Longrightarrow> m = m' \<and> k = k' \<or> m \<noteq> m' \<and> (unat m + k \<le> unat m' \<or> unat m' + k' \<le> unat m)"
proof -
  show a: "(m, k) \<in> U \<Longrightarrow> is_aligned m \<and> lo \<le> unat m \<and> unat m + k \<le> hi \<and> 0 < k" for m k
    using assms unfolding regions_ok_def by blast
  have "(m, k) \<in> U \<Longrightarrow> (m', k') \<in> U \<Longrightarrow> (m, k) \<noteq> (m', k') \<longrightarrow> unat m + k \<le> unat m' \<or> unat m' + k' \<le> unat m"
    using assms unfolding regions_ok_def by blast
  then show "(m, k) \<in> U \<Longrightarrow> (m', k') \<in> U \<Longrightarrow> m = m' \<and> k = k' \<or> m \<noteq> m' \<and> (unat m + k \<le> unat m' \<or> unat m' + k' \<le> unat m)"
    using a [of m k] a [of m' k'] by auto
qed

locale allocator =
  fixes request :: "size_t \<Rightarrow> 's \<Rightarrow> (addr \<times> 's) dl_result"
    and release :: "addr \<Rightarrow> 's \<Rightarrow> 's dl_result"
    and store :: "addr \<Rightarrow> size_t \<Rightarrow> 's \<Rightarrow> 's"
    and fetch :: "'s \<Rightarrow> addr \<Rightarrow> size_t"
    and inv :: "'s \<Rightarrow> regions \<Rightarrow> bool"
    and lo :: nat and hi :: nat
  assumes request_law: "inv s U \<Longrightarrow> \<exists>m s'. request n s = Ret (m, s') \<and> same_words fetch U s s'
      \<and> (m = 0 \<and> inv s' U \<or> m \<noteq> 0 \<and> (\<exists>k\<ge>unat n. (m, k) \<notin> U \<and> inv s' (insert (m, k) U)))"
    and release_law: "inv s U \<Longrightarrow> (m, k) \<in> U \<Longrightarrow>
      \<exists>s'. release m s = Ret s' \<and> inv s' (U - {(m, k)}) \<and> same_words fetch (U - {(m, k)}) s s'"
    and store_law: "inv s U \<Longrightarrow> (m, k) \<in> U \<Longrightarrow> unat m \<le> unat a \<Longrightarrow> unat a < unat m + k \<Longrightarrow> inv (store a v s) U"
    and fetch_law: "fetch (store a v s) = (fetch s)(a := v)"
    and region_law: "inv s U \<Longrightarrow> regions_ok lo hi U"
begin

text \<open>The regions that stand for the blocks \<open>L\<close> whose words hold \<open>M\<close>\<close>

definition holds :: "'s \<Rightarrow> (addr \<rightharpoonup> size_t) \<Rightarrow> (addr \<rightharpoonup> size_t) \<Rightarrow> regions \<Rightarrow> bool" where
  "holds s L M U \<longleftrightarrow> inv s U \<and> dom L = fst ` U \<and> (\<forall>m n k. L m = Some n \<longrightarrow> (m, k) \<in> U \<longrightarrow> unat n \<le> k)
     \<and> (\<forall>a v. M a = Some v \<longrightarrow> fetch s a = v \<and> (\<exists>m n. L m = Some n \<and> a \<in> block_words m n))"

lemma holds_region:
  assumes "holds s L M U" "L m = Some n"
  obtains k where "(m, k) \<in> U" "unat n \<le> k"
proof -
  have "m \<in> fst ` U" using assms unfolding holds_def by blast
  then show thesis using that assms unfolding holds_def by fastforce
qed

lemma holds_words:
  assumes "holds s L M U" "same_words fetch V s s'" "M a = Some v" "L m = Some n" "a \<in> block_words m n"
    "\<And>k. (m, k) \<in> U \<Longrightarrow> (m, k) \<in> V"
  shows "fetch s' a = v"
proof -
  obtain k where k: "(m, k) \<in> U" "unat n \<le> k" by (rule holds_region [OF assms(1,4)])
  have "unat m \<le> unat a \<and> unat a < unat m + k" using assms(5) k(2) by (simp add: block_words_def)
  then have "fetch s' a = fetch s a" using assms(2,6) k(1) unfolding same_words_def by blast
  then show ?thesis using assms(1,3) unfolding holds_def by simp
qed

lemma history_holds:
  assumes "serves request release store s0 s L M" "inv s0 {}"
  shows "\<exists>U. holds s L M U"
  using assms
proof induction
  case start
  then show ?case by (intro exI [of _ "{}"]) (simp add: holds_def)
next
  case (request s L M n m s')
  then obtain U where U: "holds s L M U" by blast
  then have i: "inv s U" unfolding holds_def by blast
  obtain k where k: "unat n \<le> k" "(m, k) \<notin> U" "inv s' (insert (m, k) U)" "same_words fetch U s s'"
    using request_law [OF i, of n] request.hyps(2,3) by auto
  have new: "m \<notin> dom L"
  proof
    assume "m \<in> dom L"
    then obtain j where "(m, j) \<in> U" using U unfolding holds_def by auto
    then show False using regions_okD(2) [OF region_law [OF k(3)], of m k m j] k(2) by blast
  qed
  have "holds s' (L(m \<mapsto> n)) M (insert (m, k) U)"
    unfolding holds_def
  proof (intro conjI allI impI)
    show "inv s' (insert (m, k) U)" by (fact k)
    show "dom (L(m \<mapsto> n)) = fst ` insert (m, k) U" using U unfolding holds_def by simp
    show "unat n' \<le> k'" if "(L(m \<mapsto> n)) m' = Some n'" "(m', k') \<in> insert (m, k) U" for m' n' k'
    proof (cases "m' = m")
      case True
      then have "k' = k" using regions_okD(2) [OF region_law [OF k(3)], of m k m k'] that(2) by blast
      then show ?thesis using that True k(1) by simp
    next
      case False
      then show ?thesis using that U unfolding holds_def by simp
    qed
    fix a v assume a: "M a = Some v"
    then obtain m' n' where m': "L m' = Some n'" "a \<in> block_words m' n'" using U unfolding holds_def by blast
    show "fetch s' a = v" by (rule holds_words [OF U k(4) a m'])
    show "\<exists>m' n'. (L(m \<mapsto> n)) m' = Some n' \<and> a \<in> block_words m' n'"
      using m' new by (metis domI fun_upd_other)
  qed
  then show ?case by blast
next
  case (refused s L M n s')
  then obtain U where U: "holds s L M U" by blast
  then have i: "inv s U" unfolding holds_def by blast
  have k: "inv s' U" "same_words fetch U s s'" using request_law [OF i, of n] refused.hyps(2) by auto
  have "fetch s' a = v" if "M a = Some v" for a v
    using U that holds_words [OF U k(2) that] unfolding holds_def by blast
  then have "holds s' L M U" using U k(1) unfolding holds_def by blast
  then show ?case by blast
next
  case (release s L M m n s')
  then obtain U where U: "holds s L M U" by blast
  then have i: "inv s U" unfolding holds_def by blast
  obtain k where k: "(m, k) \<in> U" "unat n \<le> k" by (rule holds_region [OF U release.hyps(2)])
  obtain "inv s' (U - {(m, k)})" "same_words fetch (U - {(m, k)}) s s'"
    using release_law [OF i k(1)] release.hyps(3) by auto
  note k' = this
  have only: "j = k" if "(m, j) \<in> U" for j using regions_okD(2) [OF region_law [OF i] that k(1)] by blast
  have "holds s' (L(m := None)) (M |` (- block_words m n)) (U - {(m, k)})"
    unfolding holds_def
  proof (intro conjI allI impI)
    show "inv s' (U - {(m, k)})" by (fact k')
    have "fst ` (U - {(m, k)}) = fst ` U - {m}" using only by force
    then show "dom (L(m := None)) = fst ` (U - {(m, k)})" using U unfolding holds_def by simp
    show "unat n' \<le> j" if "(L(m := None)) m' = Some n'" "(m', j) \<in> U - {(m, k)}" for m' n' j
      using that U unfolding holds_def by (auto split: if_splits)
    fix a v assume "(M |` (- block_words m n)) a = Some v"
    then have a: "M a = Some v" "a \<notin> block_words m n" by (auto simp: restrict_map_def split: if_splits)
    then obtain m' n' where m': "L m' = Some n'" "a \<in> block_words m' n'" using U unfolding holds_def by blast
    have ne: "m' \<noteq> m" using m' a(2) release.hyps(2) by auto
    show "fetch s' a = v" by (rule holds_words [OF U k'(2) a(1) m']) (use ne in auto)
    show "\<exists>m' n'. (L(m := None)) m' = Some n' \<and> a \<in> block_words m' n'" using m' ne by auto
  qed
  then show ?case by blast
next
  case (store s L M m n a v)
  then obtain U where U: "holds s L M U" by blast
  then have i: "inv s U" unfolding holds_def by blast
  obtain k where k: "(m, k) \<in> U" "unat n \<le> k" by (rule holds_region [OF U store.hyps(2)])
  have "unat m \<le> unat a" "unat a < unat m + k" using store.hyps(3) k(2) by (simp_all add: block_words_def)
  then have "inv (store a v s) U" by (rule store_law [OF i k(1)])
  then have "holds (store a v s) L (M(a \<mapsto> v)) U"
    using U store.hyps(2,3) unfolding holds_def fetch_law by auto
  then show ?case by blast
qed

text \<open>What a client may rely on\<close>

lemma history_safe:
  assumes "serves request release store s0 s L M" "inv s0 {}"
  shows "L m = Some n \<Longrightarrow> is_aligned m \<and> lo \<le> unat m \<and> unat m + unat n \<le> hi"
    "L m = Some n \<Longrightarrow> L m' = Some n' \<Longrightarrow> m \<noteq> m' \<Longrightarrow> unat m + unat n \<le> unat m' \<or> unat m' + unat n' \<le> unat m"
    "M a = Some v \<Longrightarrow> fetch s a = v"
proof -
  obtain U where U: "holds s L M U" using history_holds [OF assms] by blast
  then have r: "regions_ok lo hi U" using region_law unfolding holds_def by blast
  show "is_aligned m \<and> lo \<le> unat m \<and> unat m + unat n \<le> hi" if L: "L m = Some n"
  proof -
    obtain k where "(m, k) \<in> U" "unat n \<le> k" by (rule holds_region [OF U L])
    then show ?thesis using regions_okD(1) [OF r, of m k] by linarith
  qed
  show "M a = Some v \<Longrightarrow> fetch s a = v" using U unfolding holds_def by blast
  assume a: "L m = Some n" "L m' = Some n'" "m \<noteq> m'"
  obtain k where "(m, k) \<in> U" "unat n \<le> k" by (rule holds_region [OF U a(1)])
  moreover obtain k' where "(m', k') \<in> U" "unat n' \<le> k'" by (rule holds_region [OF U a(2)])
  ultimately show "unat m + unat n \<le> unat m' \<or> unat m' + unat n' \<le> unat m"
    using regions_okD(2) [OF r, of m k m' k'] a(3) by linarith
qed

lemma history_returns:
  assumes "serves request release store s0 s L M" "inv s0 {}"
  shows "\<exists>m s'. request n s = Ret (m, s')" "L m = Some n \<Longrightarrow> \<exists>s'. release m s = Ret s'"
proof -
  obtain U where U: "holds s L M U" using history_holds [OF assms] by blast
  then have i: "inv s U" unfolding holds_def by blast
  show "\<exists>m s'. request n s = Ret (m, s')" using request_law [OF i] by blast
  show "\<exists>s'. release m s = Ret s'" if L: "L m = Some n"
  proof -
    obtain k where "(m, k) \<in> U" by (rule holds_region [OF U L])
    then show ?thesis using release_law [OF i] by blast
  qed
qed

lemma history_empty:
  assumes "serves request release store s0 s Map.empty M" "inv s0 {}"
  shows "inv s {}"
  using history_holds [OF assms] unfolding holds_def by auto

end

section \<open>The heap provides the interface\<close>

definition usable :: "addr \<Rightarrow> cell list \<Rightarrow> regions" where
  "usable b cs = (\<lambda>(p, n). (chunk2mem p, unat n - 8)) ` used_cells b cs"

definition heap_inv :: "system \<Rightarrow> addr \<Rightarrow> nat \<Rightarrow> malloc_state \<Rightarrow> regions \<Rightarrow> bool" where
  "heap_inv os b hi s U \<longleftrightarrow> no_memory os \<and> (\<exists>cs. heap_ok b s cs \<and> U = usable b cs \<and> room s = hi)"

lemma used_place:
  assumes "heap_shape b s cs" "(p, n) \<in> used_cells b cs"
  shows "unat (chunk2mem p) = unat p + 16" "is_aligned (chunk2mem p)" "unat b \<le> unat p"
    "unat p + unat n + 16 \<le> room s" "32 \<le> unat n"
proof -
  note H = heap_shapeD [OF assms(1)]
  note r = used_range [OF H(1,15) assms(2)]
  show m: "unat (chunk2mem p) = unat p + 16"
    using unat_field [of p 16] r H(15) by (simp add: chunk2mem_def dl_consts)
  obtain xs ys where c: "cs = xs @ (n, True) # ys" "p = cell_end b xs" using used_split [OF assms(2)] by blast
  have "cells s b True xs" using H(1) c(1) by simp
  from width_aligned [OF this] have "16 dvd unat p"
    using unat_cell_end [of b xs] H(9,15) c by (simp add: is_aligned_iff)
  then show "is_aligned (chunk2mem p)" using m by (simp add: is_aligned_iff)
  have "0 < unat (topsize s)" using H(6) by (simp add: word_less_nat_alt)
  moreover have "16 dvd unat (topsize s)" using H(5) by (simp add: is_aligned_iff)
  ultimately have "16 \<le> unat (topsize s)" by (auto dest: dvd_imp_le)
  then show "unat p + unat n + 16 \<le> room s" using r(2) H(17) by (simp add: room_def)
  show "unat b \<le> unat p" "32 \<le> unat n" by (fact r)+
qed

lemma used_apart:
  assumes "cells s p u cs" "unat p + width cs + 8 < 2 ^ 64" "(x, n) \<in> used_cells p cs" "(y, m) \<in> used_cells p cs"
  shows "x = y \<and> n = m \<or> unat x + unat n \<le> unat y \<or> unat y + unat m \<le> unat x"
  using assms
proof (induction s p u cs rule: cells.induct)
  case (2 s p u k v cs)
  have k: "unat (p + k) = unat p + unat k" using unat_step [of p k v cs] "2.prems"(2) by simp
  have tail: "cells s (p + k) v cs" "unat (p + k) + width cs + 8 < 2 ^ 64" using "2.prems"(1,2) k by simp_all
  have behind: "unat p + unat k \<le> unat z" if "(z, j) \<in> used_cells (p + k) cs" for z j
    using used_range(1) [OF tail that] k by simp
  show ?case
    using "2.IH" [OF tail] "2.prems"(3,4) behind by (auto split: if_splits)
qed simp

lemma usable_inj:
  assumes "heap_shape b s cs"
  shows "inj_on (\<lambda>(p, n). (chunk2mem p, unat n - 8)) (used_cells b cs)"
proof (rule inj_onI, clarify)
  fix p n q k
  assume u: "(p, n) \<in> used_cells b cs" "(q, k) \<in> used_cells b cs" and e: "chunk2mem p = chunk2mem q" "unat n - 8 = unat k - 8"
  have "unat n = unat k" using e(2) used_place(5) [OF assms u(1)] used_place(5) [OF assms u(2)] by arith
  then have "n = k" by (simp add: word_unat_eq_iff)
  then show "p = q \<and> n = k" using e(1) by (simp add: chunk2mem_def)
qed

lemma usable_regions:
  assumes "heap_shape b s cs"
  shows "regions_ok (unat b + 16) (room s) (usable b cs)"
proof -
  note H = heap_shapeD [OF assms]
  have a: "is_aligned (chunk2mem p) \<and> unat b + 16 \<le> unat (chunk2mem p) \<and> unat (chunk2mem p) + (unat n - 8) \<le> room s
      \<and> 0 < unat n - 8" if "(p, n) \<in> used_cells b cs" for p n
    using used_place [OF assms that] by simp
  have d: "unat (chunk2mem p) + (unat n - 8) \<le> unat (chunk2mem q)" if "(p, n) \<in> used_cells b cs" "(q, k) \<in> used_cells b cs"
    "unat p + unat n \<le> unat q" for p n q k
    using used_place [OF assms that(1)] used_place [OF assms that(2)] that(3) by simp
  show ?thesis
  proof (rule regions_okI)
    show "is_aligned m \<and> unat b + 16 \<le> unat m \<and> unat m + k \<le> room s \<and> 0 < k" if "(m, k) \<in> usable b cs" for m k
      using that a by (auto simp: usable_def)
    show "unat m + k \<le> unat m' \<or> unat m' + k' \<le> unat m"
      if u: "(m, k) \<in> usable b cs" "(m', k') \<in> usable b cs" and e: "(m, k) \<noteq> (m', k')" for m k m' k'
    proof -
      from u obtain p n q j where pn: "(p, n) \<in> used_cells b cs" "m = chunk2mem p" "k = unat n - 8"
        and qj: "(q, j) \<in> used_cells b cs" "m' = chunk2mem q" "k' = unat j - 8"
        by (auto simp: usable_def)
      have "p = q \<and> n = j \<or> unat p + unat n \<le> unat q \<or> unat q + unat j \<le> unat p"
        by (rule used_apart [OF H(1,15) pn(1) qj(1)])
      then show ?thesis
        unfolding pn(2,3) qj(2,3) using e d [OF pn(1) qj(1)] d [OF qj(1) pn(1)] pn(2,3) qj(2,3) by blast
    qed
  qed
qed

lemma keeps_same_words:
  assumes "heap_shape b t cs" "keeps_client b cs s s'"
  shows "same_words malloc_state.heap (usable b cs) s s'"
proof -
  have "malloc_state.heap s' a = malloc_state.heap s a"
    if "(p, n) \<in> used_cells b cs" "unat (chunk2mem p) \<le> unat a" "unat a < unat (chunk2mem p) + (unat n - 8)" for p n a
  proof -
    have "a \<in> payload p n" using that(2,3) used_place(1,5) [OF assms(1) that(1)] by (simp add: payload_def)
    then show ?thesis using assms(2) that(1) by (auto simp: keeps_client_def client_words_def)
  qed
  then show ?thesis by (auto simp: same_words_def usable_def)
qed

lemma heap_request:
  assumes "heap_inv os b hi s U"
  shows "\<exists>m s'. shmalloc os n s = Ret (m, s') \<and> same_words malloc_state.heap U s s'
    \<and> (m = 0 \<and> heap_inv os b hi s' U \<or> m \<noteq> 0 \<and> (\<exists>k\<ge>unat n. (m, k) \<notin> U \<and> heap_inv os b hi s' (insert (m, k) U)))"
proof -
  obtain cs where os: "no_memory os" and ok: "heap_ok b s cs" and U: "U = usable b cs" and r: "room s = hi"
    using assms unfolding heap_inv_def by blast
  from malloc_returns [OF ok os, of n] show ?thesis
  proof (elim disjE exE conjE)
    fix x assume x: "mspace_malloc os n s = Ret x" "n < MAX_REQUEST" "allocates b s cs (request2size n) x"
    then obtain cs' p k s' where c: "x = (chunk2mem p, s')" "request2size n \<le> k" "heap_ok b s' cs'" "(p, k) \<notin> used_cells b cs"
      "used_cells b cs' = insert (p, k) (used_cells b cs)" "keeps_client b cs s s'" "room s' = room s"
      unfolding allocates_def by (cases x) auto
    note S = heap_okD(1) [OF c(3)]
    have in': "(p, k) \<in> used_cells b cs'" using c(5) by blast
    note P = used_place [OF S in']
    have "unat n + 8 \<le> unat k"
      using request2size_fits [OF x(2)] c(2) by (simp add: word_le_nat_alt dl_consts)
    then have n: "unat n \<le> unat k - 8" by simp
    have "usable b cs' = insert (chunk2mem p, unat k - 8) (usable b cs)" using c(5) by (simp add: usable_def)
    moreover have "(chunk2mem p, unat k - 8) \<notin> usable b cs"
    proof
      assume "(chunk2mem p, unat k - 8) \<in> usable b cs"
      then obtain y where y: "y \<in> used_cells b cs" "(\<lambda>(p, n). (chunk2mem p, unat n - 8)) y = (\<lambda>(p, n). (chunk2mem p, unat n - 8)) (p, k)"
        by (auto simp: usable_def)
      then have "y = (p, k)" using inj_onD [OF usable_inj [OF S] y(2)] in' c(5) by blast
      then show False using y(1) c(4) by blast
    qed
    moreover have "chunk2mem p \<noteq> 0" using P(1) by auto
    moreover have "same_words malloc_state.heap U s s'" unfolding U by (rule keeps_same_words [OF heap_okD(1) [OF ok] c(6)])
    ultimately show ?thesis using x(1) c os r n unfolding heap_inv_def U shmalloc_def by auto
  next
    fix k assume "mspace_malloc os n s = Ret (0, s\<lparr>syscalls := k\<rparr>)"
    moreover have "same_words malloc_state.heap U s (s\<lparr>syscalls := k\<rparr>)" by (simp add: same_words_def)
    moreover have "heap_inv os b hi (s\<lparr>syscalls := k\<rparr>) U"
      unfolding heap_inv_def using os ok U r by (auto simp: heap_ok_syscalls room_def)
    ultimately show ?thesis unfolding shmalloc_def by blast
  qed
qed

lemma heap_release:
  assumes "heap_inv os b hi s U" "(m, k) \<in> U"
  shows "\<exists>s'. shfree os m s = Ret s' \<and> heap_inv os b hi s' (U - {(m, k)}) \<and> same_words malloc_state.heap (U - {(m, k)}) s s'"
proof -
  obtain cs where os: "no_memory os" and ok: "heap_ok b s cs" and U: "U = usable b cs" and r: "room s = hi"
    using assms unfolding heap_inv_def by blast
  obtain p n where p: "(p, n) \<in> used_cells b cs" "m = chunk2mem p" "k = unat n - 8" using assms(2) by (auto simp: U usable_def)
  obtain s' cs' where s': "mspace_free os m s = Ret s'" "heap_ok b s' cs'" "used_cells b cs' = used_cells b cs - {(p, n)}"
    "keeps_client b cs' s s'" "room s' = room s"
    using free_releases [OF ok p(1), of os] unfolding releases_def p(2) by blast
  have "usable b cs' = usable b cs - {(m, k)}"
    using inj_on_image_set_diff [OF usable_inj [OF heap_okD(1) [OF ok]], of "used_cells b cs" "{(p, n)}"] s'(3) p
    by (simp add: usable_def)
  then show ?thesis
    using s' os r keeps_same_words [OF heap_okD(1) [OF s'(2)] s'(4)] unfolding heap_inv_def U shfree_def by auto
qed

lemma store_keeps:
  assumes "heap_ok b s cs" "a \<in> client_words b cs"
  shows "heap_ok b (wr a v s) cs"
proof -
  note O = heap_okD [OF assms(1)]
  have w: "malloc_state.heap (wr a v s) x = malloc_state.heap s x" if "x \<noteq> a" for x using that by (simp add: wr_def)
  note out = client_outside [OF O(1) assms(2)]
  have hd: "head (wr a v s) x = head s x" if "x \<in> free_cells b cs" for x
  proof -
    have "x + 8 \<noteq> a" using free_head_word [OF that] out(1) by blast
    then show ?thesis unfolding head_def by (rule w)
  qed
  have shape: "heap_shape b (wr a v s) cs"
  proof (rule heap_shape_cong [OF O(1)])
    show "malloc_state.heap (wr a v s) x = malloc_state.heap s x" if "x \<in> cell_words b cs \<union> {mtop s + 8} \<union> seg_words s" for x
      by (rule w) (use that out(1,2,4) heap_shapeD(12) [OF O(1)] in \<open>auto simp: seg_words_def\<close>)
  qed (simp_all add: wr_def)
  have "bins (wr a v s) (free_cells b cs - {dv s})"
  proof (rule bins_cong [OF O(3)])
    show "head (wr a v s) x = head s x" if "x \<in> free_cells b cs - {dv s}" for x using that hd by blast
    show "malloc_state.heap (wr a v s) x = malloc_state.heap s x" if "x \<in> bin_words s (free_cells b cs - {dv s})" for x
      by (rule w) (use that out(3) [of "free_cells b cs - {dv s}"] in auto)
  qed (simp_all add: wr_def)
  moreover have "victim_ok b (wr a v s) cs" using O(4,5) hd by (auto simp: victim_ok_def chunksize_def wr_def)
  ultimately show ?thesis using shape unfolding heap_ok_def by (simp add: wr_def)
qed

lemma heap_store:
  assumes "heap_inv os b hi s U" "(m, k) \<in> U" "unat m \<le> unat a" "unat a < unat m + k"
  shows "heap_inv os b hi (wr a v s) U"
proof -
  obtain cs where os: "no_memory os" and ok: "heap_ok b s cs" and U: "U = usable b cs" and r: "room s = hi"
    using assms unfolding heap_inv_def by blast
  obtain p n where p: "(p, n) \<in> used_cells b cs" "m = chunk2mem p" "k = unat n - 8" using assms(2) by (auto simp: U usable_def)
  have "a \<in> payload p n" using assms(3,4) used_place(1,5) [OF heap_okD(1) [OF ok] p(1)] p(2,3) by (simp add: payload_def)
  then have "a \<in> client_words b cs" using p(1) by (auto simp: client_words_def)
  from store_keeps [OF ok this] show ?thesis using os U r unfolding heap_inv_def by (auto simp: wr_def room_def)
qed

interpretation symmetric_heap: allocator "shmalloc os" "shfree os" wr malloc_state.heap "heap_inv os b hi" "unat b + 16" hi
  for os b hi
proof
  show "\<exists>m s'. shmalloc os n s = Ret (m, s') \<and> same_words malloc_state.heap U s s'
      \<and> (m = 0 \<and> heap_inv os b hi s' U \<or> m \<noteq> 0 \<and> (\<exists>k\<ge>unat n. (m, k) \<notin> U \<and> heap_inv os b hi s' (insert (m, k) U)))"
    if "heap_inv os b hi s U" for s U n by (rule heap_request [OF that])
  show "\<exists>s'. shfree os m s = Ret s' \<and> heap_inv os b hi s' (U - {(m, k)}) \<and> same_words malloc_state.heap (U - {(m, k)}) s s'"
    if "heap_inv os b hi s U" "(m, k) \<in> U" for s U m k by (rule heap_release [OF that])
  show "heap_inv os b hi (wr a v s) U" if "heap_inv os b hi s U" "(m, k) \<in> U" "unat m \<le> unat a" "unat a < unat m + k"
    for s U m k a v by (rule heap_store [OF that])
  show "malloc_state.heap (wr a v s) = (malloc_state.heap s)(a := v)" for a v s by (simp add: wr_def)
  show "regions_ok (unat b + 16) hi U" if "heap_inv os b hi s U" for s U
    using that usable_regions heap_okD(1) unfolding heap_inv_def by blast
qed

section \<open>A new heap\<close>

lemma empty_row: "used_cells b [] = {}" "usable b [] = {}"
  by (simp_all add: usable_def)

lemma fresh_heap_ok:
  assumes "ensure_initialization os s = Ret s0" "is_aligned base" "0 < base" "is_aligned cap"
    "unat base + unat cap < 2 ^ 64" "1024 < cap" "cap < capacity_limit s0" "unat cap < 2 ^ 40"
    "create_mspace_with_base os base cap l s = Ret (m0, s1)"
  shows "heap_ok (base + 944) s1 []" "mtop s1 = base + 944" "topsize s1 = cap - 1024" "unat (base + 944) = unat base + 944"
    "room s1 = unat base + unat cap - 80" "m0 = base + 16" "top_only s1"
proof -
  have c: "1024 < unat cap" using assms(6) by (simp add: word_less_nat_alt)
  obtain t where t: "create_mspace_with_base os base cap l s = Ret (base + 16, t)" "top_only t" "sole_segment t"
    "mtop t = base + 944" "topsize t = cap - 1024" "mst t = base + 16" "least_addr t = base"
    "seg_base t (first_seg t) = base"
    "\<And>a. unat base + 616 \<le> unat a \<Longrightarrow> unat a < unat base + 904 \<Longrightarrow> malloc_state.heap t a = 0"
    using create_top_only [OF assms(1-7), of l] by metis
  then have s1: "s1 = t" "m0 = base + 16" using assms(9) by simp_all
  have u: "unat (base + 944) = unat base + 944" "unat (base + 16) = unat base + 16" "unat (cap - 1024) = unat cap - 1024"
    using unat_field [of base 944] unat_field [of base 16] assms(5) c by (simp_all add: unat_sub word_le_nat_alt)
  have T: "smallmap t = 0" "treemap t = 0" "dvsize t = 0" "dv t = 0" "is_aligned (mtop t)" "is_aligned (topsize t)" "0 < topsize t"
    "least_addr t \<le> mtop t" "head t (mtop t) = topsize t OR 1"
    using t(2) by (simp_all add: top_only_def dl_consts)
  have al: "is_aligned (base + 16)" using assms(2) u(2) by (simp add: is_aligned_iff)
  have shape: "heap_shape (base + 944) t []"
    unfolding heap_shape_def using t(3-8) T u al c assms(5,8) cell_bits(7) [OF T(6)]
    by (auto simp: word_le_nat_alt)
  have m: "unat (mst t) + 936 \<le> 2 ^ 64" "is_aligned (mst t)" "mst t \<noteq> 0" using t(6) u al assms(5) c by auto
  have trees: "treebin t i = 0" if "i < NTREEBINS" for i
  proof -
    have a: "unat base + 616 \<le> unat (treebin_at t i)" "unat (treebin_at t i) < unat base + 904"
      using treebin_word(1,2) [OF m(1) that] t(6) u(2) by simp_all
    then show ?thesis unfolding treebin_def by (rule t(9))
  qed
  have fb: "free_blocks t {}" using m by (simp add: free_blocks_def dl_consts)
  have small: "small_bins t (\<lambda>_. [])" by (rule no_chunks [OF m(2,1) T(1)])
  have large: "large_store t {}" by (rule empty_bins [OF T(2) _ fb]) (use trees in blast)
  have "bins t {}"
    unfolding bins_def
  proof (intro conjI exI)
    show "placed t {}" using m by (simp add: placed_def)
    show "small_bins t (\<lambda>_. [])" "large_store t {}" by (fact small large)+
    show "sorted_small t (\<lambda>_. [])" by (simp add: sorted_small_def)
    show "{} = small_all (\<lambda>_. []) \<union> {}" by (simp add: small_all_def)
  qed
  then show "heap_ok (base + 944) s1 []"
    unfolding s1 heap_ok_def using shape T by (simp add: victim_ok_def)
  show "mtop s1 = base + 944" "topsize s1 = cap - 1024" "m0 = base + 16" "top_only s1" using t s1 by simp_all
  show "unat (base + 944) = unat base + 944" by (fact u)
  show "room s1 = unat base + unat cap - 80" using t(4,5) u c s1 by (simp add: room_def)
qed

text \<open>When nothing is in use, nothing is free but \<open>top\<close>.\<close>

lemma unmarked_map: "(\<And>i :: bindex. i < 32 \<Longrightarrow> m AND idx2bit i = 0) \<Longrightarrow> m = 0"
proof (rule bit_word_eqI)
  fix j assume m: "\<And>i :: bindex. i < 32 \<Longrightarrow> m AND idx2bit i = 0" and j: "j < LENGTH(32)"
  have "unat (of_nat j :: bindex) = j" using j by (simp add: unsigned_of_nat take_bit_nat_eq_self)
  moreover have "(of_nat j :: bindex) < 32" using calculation j by (simp add: word_less_nat_alt)
  ultimately show "bit m j = bit 0 j" using marked_bit [of "of_nat j" m] m [of "of_nat j"] by simp
qed

lemma nothing_used:
  assumes "heap_ok b s cs" "used_cells b cs = {}"
  shows "cs = []" "top_only s" "mtop s = b"
proof -
  note O = heap_okD [OF assms(1)]
  note H = heap_shapeD [OF O(1)]
  show cs: "cs = []"
  proof (rule ccontr)
    assume "cs \<noteq> []"
    then obtain xs n v where "cs = xs @ [(n, v)]" by (cases cs rule: rev_cases) auto
    then show False using H(2) assms(2) by simp
  qed
  then show m: "mtop s = b" using H(3) by simp
  have dv: "dvsize s = 0" "dv s = 0" using O(2) cs by (auto simp: victim_ok_def split: if_splits)
  obtain X B where X: "small_bins s X" "large_store s B" "small_all X \<union> B = {}"
    using O(3) cs by (auto simp: bins_def)
  have "smallmap s = 0"
  proof (rule unmarked_map)
    fix i :: bindex assume i: "i < 32"
    then have "X i = []" using X(3) by (auto simp: small_all_def NSMALLBINS_def)
    then show "smallmap s AND idx2bit i = 0"
      using X(1) i by (auto simp: small_bins_def small_bin_def Let_def smallmap_is_marked_def NSMALLBINS_def)
  qed
  moreover have "treemap s = 0"
  proof (rule unmarked_map)
    fix i :: bindex assume i: "i < 32"
    obtain Y C where Y: "large_bins s Y C" "large_all Y C = {}" using X(2,3) by (auto simp: large_store_def)
    then have "set_tree (Y i) = {}" using i by (auto simp: large_all_def large_chunks_def NTREEBINS_def)
    then have "Y i = Leaf" by (cases "Y i") auto
    then show "treemap s AND idx2bit i = 0"
      using Y(1) i by (auto simp: large_bins_def tree_bins_def tree_bin_def treemap_is_marked_def NTREEBINS_def)
  qed
  moreover have "0 < unat (mst s)" using H(11) by (simp add: unat_gt_0)
  then have "0 < unat b" using H(12) by simp
  ultimately show "top_only s"
    unfolding top_only_def using H(4-6,8,9,13) dv m cs cell_bits(7) [OF H(5)]
    by (simp add: dl_consts word_less_nat_alt)
qed

definition new_heap :: "system \<Rightarrow> addr \<Rightarrow> size_t \<Rightarrow> malloc_state \<Rightarrow> bool" where
  "new_heap os base cap s1 \<longleftrightarrow>
     (\<exists>s s0 l m. ensure_initialization os s = Ret s0 \<and> is_aligned base \<and> 0 < base \<and> is_aligned cap
       \<and> unat base + unat cap < 2 ^ 64 \<and> 1024 < cap \<and> cap < capacity_limit s0 \<and> unat cap < 2 ^ 40
       \<and> create_mspace_with_base os base cap l s = Ret (m, s1))"

lemma new_heap_ok:
  assumes "new_heap os base cap s1"
  shows "heap_ok (base + 944) s1 []" "unat (base + 944) = unat base + 944" "mtop s1 = base + 944" "topsize s1 = cap - 1024"
    "room s1 = unat base + unat cap - 80" "1024 < unat cap" "unat base + unat cap < 2 ^ 64"
proof -
  from assms obtain s s0 l m where n: "ensure_initialization os s = Ret s0" "is_aligned base" "0 < base" "is_aligned cap"
    "unat base + unat cap < 2 ^ 64" "1024 < cap" "cap < capacity_limit s0" "unat cap < 2 ^ 40"
    "create_mspace_with_base os base cap l s = Ret (m, s1)"
    unfolding new_heap_def by blast
  from fresh_heap_ok [OF n] show "heap_ok (base + 944) s1 []" "unat (base + 944) = unat base + 944" "mtop s1 = base + 944"
    "topsize s1 = cap - 1024" "room s1 = unat base + unat cap - 80" by blast+
  show "1024 < unat cap" "unat base + unat cap < 2 ^ 64" using n(5,6) by (simp_all add: word_less_nat_alt)
qed

lemma new_heap_inv:
  assumes "new_heap os base cap s1" "no_memory os"
  shows "heap_inv os (base + 944) (unat base + unat cap - 80) s1 {}"
  unfolding heap_inv_def using new_heap_ok [OF assms(1)] assms(2) empty_row(2) by metis

section \<open>The properties of the heap\<close>

text \<open>
  C2: Whatever a client of a new symmetric heap requests and releases, in any order, and whatever it stores in its
  blocks: the blocks it holds are aligned, lie inside the heap behind the allocator's state, do not overlap, and
  every word it stored in a block it still holds is there. (The system gives the allocator no further memory.)
\<close>

theorem heap_protects_blocks:
  assumes "new_heap os base cap s0" "no_memory os" "serves (shmalloc os) (shfree os) wr s0 s L M"
  shows "(\<forall>m n. L m = Some n \<longrightarrow> is_aligned m \<and> unat base + 960 \<le> unat m \<and> unat m + unat n + 80 \<le> unat base + unat cap)
    \<and> (\<forall>m n m' n'. L m = Some n \<and> L m' = Some n' \<and> m \<noteq> m' \<longrightarrow>
          unat m + unat n \<le> unat m' \<or> unat m' + unat n' \<le> unat m)
    \<and> (\<forall>a v. M a = Some v \<longrightarrow> malloc_state.heap s a = v)"
proof -
  note N = new_heap_ok [OF assms(1)]
  note S = symmetric_heap.history_safe [OF assms(3) new_heap_inv [OF assms(1,2)]]
  have "is_aligned m \<and> unat base + 960 \<le> unat m \<and> unat m + unat n + 80 \<le> unat base + unat cap" if "L m = Some n" for m n
    using S(1) [OF that] N(2,6) by linarith
  then show ?thesis using S(2,3) by blast
qed

text \<open>
  C4: After any such history every call returns: no check of the allocator fails, no loop spins, for every size
  requested and every block released.
\<close>

theorem heap_always_returns:
  assumes "new_heap os base cap s0" "no_memory os" "serves (shmalloc os) (shfree os) wr s0 s L M"
  shows "(\<forall>n. \<exists>m s'. shmalloc os n s = Ret (m, s')) \<and> (\<forall>m\<in>dom L. \<exists>s'. shfree os m s = Ret s')"
  using symmetric_heap.history_returns [OF assms(3) new_heap_inv [OF assms(1,2)]] by blast

text \<open>
  C3: When everything has been released, in whatever order, the heap is one free chunk again, and it serves
  requests at the same offsets as a new heap does, on every PE: no history fragments an empty heap.
\<close>

theorem released_heap_is_new:
  assumes "new_heap os base cap s0" "no_memory os" "serves (shmalloc os) (shfree os) wr s0 s Map.empty M"
  shows "top_only s \<and> mtop s = base + 944 \<and> topsize s = cap - 1024
    \<and> (\<forall>bs. (\<forall>b\<in>set bs. b < MAX_REQUEST) \<longrightarrow> total bs < unat cap - 1024 \<longrightarrow>
          (\<exists>s'. mallocs os bs s = Ret (map ((+) base) (offsets 944 bs), s')))"
proof -
  note N = new_heap_ok [OF assms(1)]
  have "heap_inv os (base + 944) (unat base + unat cap - 80) s {}"
    by (rule symmetric_heap.history_empty [OF assms(3) new_heap_inv [OF assms(1,2)]])
  then obtain cs where cs: "heap_ok (base + 944) s cs" "usable (base + 944) cs = {}" "room s = unat base + unat cap - 80"
    unfolding heap_inv_def by metis
  have "used_cells (base + 944) cs = {}" using cs(2) by (simp add: usable_def)
  note E = nothing_used [OF cs(1) this]
  have t: "unat (topsize s) = unat cap - 1024" using cs(3) E(3) N(2,6) by (simp add: room_def)
  moreover have "unat (cap - 1024) = unat cap - 1024" using N(6) by (simp add: unat_sub word_le_nat_alt)
  ultimately have "topsize s = cap - 1024" by (simp add: word_unat_eq_iff)
  moreover have "\<exists>s'. mallocs os bs s = Ret (map ((+) base) (offsets 944 bs), s')"
    if "\<forall>b\<in>set bs. b < MAX_REQUEST" "total bs < unat cap - 1024" for bs
    using mallocs_from_top [OF E(2) that(1), of os] that(2) t E(3) by (auto simp: offsets_add)
  ultimately show ?thesis using E(2,3) by blast
qed

text \<open>
  C5: On any heap that is in order, whatever its free chunks, a request is served by a chunk that was free and is
  large enough, with nothing else taken and no word of a block in use changed; the system is asked only when \<open>top\<close>
  is too small.
\<close>

theorem malloc_on_any_heap:
  assumes "heap_ok b s cs" "bytes < MAX_REQUEST"
  shows "(\<exists>r. shmalloc os bytes s = Ret r \<and> allocates b s cs (request2size bytes) r)
    \<or> topsize s \<le> request2size bytes \<and> shmalloc os bytes s = sys_alloc os (request2size bytes) s"
  unfolding shmalloc_def using malloc_allocates [OF assms, of os] by blast

text \<open>
  C6: On any heap that is in order the release of a chunk in use returns, whatever lies before and behind it: exactly
  that chunk is no longer in use, no two free chunks lie next to each other, all of them are in the bin of
  their size, the designated victim or \<open>top\<close>, and no word of the other blocks has changed.
\<close>

theorem free_on_any_heap:
  assumes "heap_ok b s cs" "(p, n) \<in> used_cells b cs"
  shows "\<exists>s'. shfree os (chunk2mem p) s = Ret s' \<and> releases b s cs (p, n) s'"
  unfolding shfree_def by (rule free_releases [OF assms])

section \<open>Examples\<close>

lemma example_new_heap:
  obtains s where "new_heap refusing_system 0x10000 0x10000 s" "no_memory refusing_system" "heap_ok 0x103B0 s []"
    "topsize s = 0xFC00"
proof -
  obtain s0 where s0: "ensure_initialization refusing_system (zero_state 0) = Ret s0"
    "page_size (mparams s0) = 4096" by (rule refusing_system_initialises)
  obtain s where s: "create_mspace_with_base refusing_system 0x10000 0x10000 False (zero_state 0) = Ret (0x10010, s)"
    by (rule example_heap)
  have n: "new_heap refusing_system 0x10000 0x10000 s"
    unfolding new_heap_def using s0 s
    by (intro exI conjI) (assumption | simp add: is_aligned_iff capacity_limit_def msize dl_consts)+
  moreover have "no_memory refusing_system" by (simp add: no_memory_def refusing_system_def)
  ultimately show thesis using that new_heap_ok(1,4) [OF n] by simp
qed

text \<open>A block of 100 bytes at the start of the example's heap, with a word stored in it\<close>

lemma example_block:
  obtains s0 s m where "new_heap refusing_system 0x10000 0x10000 s0" "no_memory refusing_system"
    "serves (shmalloc refusing_system) (shfree refusing_system) wr s0 s [m \<mapsto> 100] [m \<mapsto> 42]"
proof -
  let ?os = refusing_system
  obtain s0 where s0: "new_heap ?os 0x10000 0x10000 s0" "no_memory ?os" "heap_ok 0x103B0 s0 []" "topsize s0 = 0xFC00"
    by (rule example_new_heap)
  have r: "request2size 100 = 112" by code_simp
  have "(100 :: size_t) < MAX_REQUEST" by (simp add: dl_consts)
  from malloc_allocates [OF s0(3) this, of ?os] obtain x where x: "mspace_malloc ?os 100 s0 = Ret x" "allocates 0x103B0 s0 [] 112 x"
    using s0(4) r by auto
  obtain m s where m: "x = (m, s)" by (cases x)
  have nz: "m \<noteq> 0" using served_nonzero [OF x(2)] m by simp
  have h: "serves (shmalloc ?os) (shfree ?os) wr s0 s [m \<mapsto> 100] Map.empty"
    by (rule serves.request [OF serves.start _ nz]) (use x(1) m in \<open>simp add: shmalloc_def\<close>)
  have "is_aligned m" using symmetric_heap.history_safe(1) [OF h new_heap_inv [OF s0(1,2)], of m 100] by simp
  then have "m \<in> block_words m 100" by (auto simp: block_words_def is_aligned_iff elim: dvd_trans [rotated])
  have "serves (shmalloc ?os) (shfree ?os) wr s0 (wr m 42 s) [m \<mapsto> 100] [m \<mapsto> 42]"
    by (rule serves.store [OF h]) (use \<open>m \<in> block_words m 100\<close> in simp_all)
  then show thesis by (rule that [OF s0(1,2)])
qed

theorem heap_protects_blocks_witness:
  "\<exists>s0 s m. serves (shmalloc refusing_system) (shfree refusing_system) wr s0 s [m \<mapsto> 100] [m \<mapsto> 42]
     \<and> is_aligned m \<and> 0x103C0 \<le> unat m \<and> malloc_state.heap s m = 42"
proof -
  obtain s0 s m where e: "new_heap refusing_system 0x10000 0x10000 s0" "no_memory refusing_system"
    "serves (shmalloc refusing_system) (shfree refusing_system) wr s0 s [m \<mapsto> 100] [m \<mapsto> 42]" by (rule example_block)
  note P = heap_protects_blocks [OF e]
  have "is_aligned m \<and> 0x103C0 \<le> unat m" using conjunct1 [OF P, rule_format, of m 100] by simp
  moreover have "malloc_state.heap s m = 42" using conjunct2 [OF conjunct2 [OF P], rule_format, of m 42] by simp
  ultimately show ?thesis using e(3) by blast
qed

theorem heap_always_returns_witness:
  "\<exists>s0 s m s'. serves (shmalloc refusing_system) (shfree refusing_system) wr s0 s [m \<mapsto> 100] [m \<mapsto> 42]
     \<and> shfree refusing_system m s = Ret s'"
proof -
  obtain s0 s m where e: "new_heap refusing_system 0x10000 0x10000 s0" "no_memory refusing_system"
    "serves (shmalloc refusing_system) (shfree refusing_system) wr s0 s [m \<mapsto> 100] [m \<mapsto> 42]" by (rule example_block)
  have "\<exists>s'. shfree refusing_system m s = Ret s'"
    using conjunct2 [OF heap_always_returns [OF e], rule_format, of m] by simp
  then show ?thesis using e(3) by blast
qed

theorem released_heap_is_new_witness:
  "\<exists>s0 s s1 m s'. serves (shmalloc refusing_system) (shfree refusing_system) wr s0 s [m \<mapsto> 100] [m \<mapsto> 42]
     \<and> shfree refusing_system m s = Ret s1 \<and> mtop s1 = 0x103B0 \<and> topsize s1 = 0xFC00
     \<and> mallocs refusing_system [100, 300] s1 = Ret ([0x103C0, 0x10430], s')"
proof -
  let ?os = refusing_system
  obtain s0 s m where e: "new_heap ?os 0x10000 0x10000 s0" "no_memory ?os"
    "serves (shmalloc ?os) (shfree ?os) wr s0 s [m \<mapsto> 100] [m \<mapsto> 42]" by (rule example_block)
  obtain s1 where s1: "shfree ?os m s = Ret s1"
    using symmetric_heap.history_returns(2) [OF e(3) new_heap_inv [OF e(1,2)], of m 100] by auto
  have "serves (shmalloc ?os) (shfree ?os) wr s0 s1 Map.empty ([m \<mapsto> 42] |` (- block_words m 100))"
    using serves.release [OF e(3) _ s1, of 100] by simp
  note R = released_heap_is_new [OF e(1,2) this]
  have off: "offsets 944 [100, 300] = [960, 1072]" "total [100, 300] = 432" by code_simp+
  have "\<exists>s'. mallocs ?os [100, 300] s1 = Ret (map ((+) 0x10000) (offsets 944 [100, 300]), s')"
  proof (rule conjunct2 [OF conjunct2 [OF conjunct2 [OF R]], rule_format])
    show "b < MAX_REQUEST" if "b \<in> set [100, 300]" for b using that by (auto simp: dl_consts)
    show "total [100, 300] < unat (0x10000 :: size_t) - 1024" unfolding off(2) by simp
  qed
  then obtain s' where s': "mallocs ?os [100, 300] s1 = Ret (map ((+) 0x10000) [960, 1072], s')" unfolding off(1) by blast
  have "map ((+) 0x10000) [960, 1072 :: addr] = [0x103C0, 0x10430]" by simp
  note s'' = s' [unfolded this]
  have "mtop s1 = 0x103B0 \<and> topsize s1 = 0xFC00" using R by simp
  then show ?thesis using e(3) s1 s'' by blast
qed

theorem malloc_on_any_heap_witness:
  "\<exists>s r. heap_ok 0x103B0 s [] \<and> shmalloc refusing_system 100 s = Ret r \<and> allocates 0x103B0 s [] 112 r"
proof -
  obtain s where s: "heap_ok 0x103B0 s []" "topsize s = 0xFC00" using example_new_heap by metis
  have r: "request2size 100 = 112" by code_simp
  have "(100 :: size_t) < MAX_REQUEST" by (simp add: dl_consts)
  from malloc_on_any_heap [OF s(1) this, of refusing_system] show ?thesis using s r by auto
qed

theorem free_on_any_heap_witness:
  "\<exists>s cs p n s'. heap_ok 0x103B0 s cs \<and> (p, n) \<in> used_cells 0x103B0 cs \<and> 112 \<le> n
     \<and> shfree refusing_system (chunk2mem p) s = Ret s' \<and> releases 0x103B0 s cs (p, n) s'"
proof -
  obtain s0 where s0: "heap_ok 0x103B0 s0 []" "topsize s0 = 0xFC00" using example_new_heap by metis
  have r: "request2size 100 = 112" by code_simp
  have "(100 :: size_t) < MAX_REQUEST" by (simp add: dl_consts)
  from malloc_allocates [OF s0(1) this, of refusing_system] obtain x where "allocates 0x103B0 s0 [] 112 x"
    using s0(2) r by auto
  then obtain cs p n where c: "heap_ok 0x103B0 (snd x) cs" "(p, n) \<in> used_cells 0x103B0 cs" "112 \<le> n"
    unfolding allocates_def by blast
  from free_on_any_heap [OF c(1,2), of refusing_system] show ?thesis using c by blast
qed

end
