(* ===== verification/Dl_Checks.thy ===== *)
theory Dl_Checks
  imports Dl_Mspace
begin

unbundle bit_operations_syntax

text \<open>
  The debugging support of the allocator (\<open>src/src/dlmalloc.c\<close>, lines 3212-3476) and its statistics
  (lines 3482-3552). A routine that only asserts is the conjunction of its assertions. One with a loop
  returns \<open>None\<close> when the loop does not end, \<open>Some False\<close> when an assertion fails and \<open>Some True\<close> when
  all hold; \<open>traverse_and_check\<close>, which also returns a sum, has \<open>Some None\<close> for a failed assertion.
\<close>

section \<open>Single chunks\<close>

definition do_check_any_chunk :: "malloc_state \<Rightarrow> addr \<Rightarrow> bool" where
  "do_check_any_chunk s p \<longleftrightarrow>
     (is_aligned (chunk2mem p) \<or> head s p = FENCEPOST_HEAD) \<and> ok_address s p"

definition do_check_top_chunk :: "malloc_state \<Rightarrow> addr \<Rightarrow> bool option" where
  "do_check_top_chunk s p =
     Option.bind (segment_holding s p) (\<lambda>sp.
     let sz = head s p AND NOT INUSE_BITS
     in Some (sp \<noteq> 0
          \<and> (is_aligned (chunk2mem p) \<or> head s p = FENCEPOST_HEAD)
          \<and> ok_address s p
          \<and> sz = topsize s
          \<and> sz > 0
          \<and> sz = ((seg_base s sp + seg_size s sp) - p) - TOP_FOOT_SIZE
          \<and> pinuse s p
          \<and> \<not> pinuse s (p + sz)))"

definition do_check_mmapped_chunk :: "malloc_state \<Rightarrow> addr \<Rightarrow> bool" where
  "do_check_mmapped_chunk s p \<longleftrightarrow>
     (let sz = chunksize s p; len = sz + prev_foot s p + MMAP_FOOT_PAD
      in is_mmapped s p
         \<and> use_mmap s
         \<and> (is_aligned (chunk2mem p) \<or> head s p = FENCEPOST_HEAD)
         \<and> ok_address s p
         \<and> \<not> is_small sz
         \<and> len AND (page_size (mparams s) - 1) = 0
         \<and> head s (p + sz) = FENCEPOST_HEAD
         \<and> head s (p + (sz + SIZE_T_SIZE)) = 0)"

definition do_check_inuse_chunk :: "malloc_state \<Rightarrow> addr \<Rightarrow> bool" where
  "do_check_inuse_chunk s p \<longleftrightarrow>
     do_check_any_chunk s p
     \<and> is_inuse s p
     \<and> next_pinuse s p
     \<and> (is_mmapped s p \<or> pinuse s p \<or> next_chunk s (prev_chunk s p) = p)
     \<and> (if is_mmapped s p then do_check_mmapped_chunk s p else True)"

definition do_check_free_chunk :: "malloc_state \<Rightarrow> addr \<Rightarrow> bool" where
  "do_check_free_chunk s p \<longleftrightarrow>
     (let sz = chunksize s p; nxt = p + sz
      in do_check_any_chunk s p
         \<and> \<not> is_inuse s p
         \<and> \<not> next_pinuse s p
         \<and> \<not> is_mmapped s p
         \<and> (if p \<noteq> dv s \<and> p \<noteq> mtop s then
               if sz \<ge> MIN_CHUNK_SIZE then
                 sz AND CHUNK_ALIGN_MASK = 0
                 \<and> is_aligned (chunk2mem p)
                 \<and> prev_foot s nxt = sz
                 \<and> pinuse s p
                 \<and> (nxt = mtop s \<or> is_inuse s nxt)
                 \<and> bk s (fd s p) = p
                 \<and> fd s (bk s p) = p
               else sz = SIZE_T_SIZE
             else True))"

definition do_check_malloced_chunk :: "malloc_state \<Rightarrow> addr \<Rightarrow> size_t \<Rightarrow> bool" where
  "do_check_malloced_chunk s mem n \<longleftrightarrow>
     (if mem \<noteq> 0 then
        let p = mem2chunk mem; sz = head s p AND NOT INUSE_BITS
        in do_check_inuse_chunk s p
           \<and> sz AND CHUNK_ALIGN_MASK = 0
           \<and> sz \<ge> MIN_CHUNK_SIZE
           \<and> sz \<ge> n
           \<and> (is_mmapped s p \<or> sz < n + MIN_CHUNK_SIZE)
      else True)"

section \<open>Bins\<close>

text \<open>The assertions of \<open>do_check_tree\<close> before its loop, and those on a node of the chain before the
  recursive calls\<close>

definition tree_entry_ok :: "malloc_state \<Rightarrow> addr \<Rightarrow> bool" where
  "tree_entry_ok s t \<longleftrightarrow>
     (let tsize = chunksize s t; idx = compute_tree_index tsize
      in index s t = idx
         \<and> tsize \<ge> MIN_LARGE_SIZE
         \<and> tsize \<ge> minsize_for_tree_index idx
         \<and> (idx = NTREEBINS - 1 \<or> tsize < minsize_for_tree_index (idx + 1)))"

definition tree_node_ok :: "malloc_state \<Rightarrow> addr \<Rightarrow> addr \<Rightarrow> addr \<Rightarrow> bool" where
  "tree_node_ok s t owner u \<longleftrightarrow>
     do_check_any_chunk s u
     \<and> index s u = index s t
     \<and> chunksize s u = chunksize s t
     \<and> \<not> is_inuse s u
     \<and> \<not> next_pinuse s u
     \<and> bk s (fd s u) = u
     \<and> fd s (bk s u) = u
     \<and> (if parent s u = 0 then child s u 0 = 0 \<and> child s u 1 = 0
         else owner = 0 \<and> parent s u \<noteq> u
           \<and> (child s (parent s u) 0 = u \<or> child s (parent s u) 1 = u \<or> heap s (parent s u) = u))"

definition tree_child_ok :: "malloc_state \<Rightarrow> addr \<Rightarrow> addr \<Rightarrow> bool" where
  "tree_child_ok s u c \<longleftrightarrow> parent s c = u \<and> c \<noteq> u \<and> tree_entry_ok s c"

partial_function (option) check_chain ::
  "malloc_state \<Rightarrow> addr \<Rightarrow> addr \<Rightarrow> addr \<Rightarrow> bool option" where
  "check_chain s t owner u =
     (if \<not> tree_node_ok s t owner u then Some False
      else if parent s u \<noteq> 0 then
        Option.bind (if child s u 0 = 0 then Some True
                     else if tree_child_ok s u (child s u 0) then check_chain s (child s u 0) 0 (child s u 0)
                     else Some False) (\<lambda>a.
        Option.bind (if \<not> a then Some False
                     else if child s u 1 = 0 then Some True
                     else if tree_child_ok s u (child s u 1) then check_chain s (child s u 1) 0 (child s u 1)
                     else Some False) (\<lambda>b.
        if \<not> b then Some False
        else if child s u 0 \<noteq> 0 \<and> child s u 1 \<noteq> 0
                \<and> \<not> chunksize s (child s u 0) < chunksize s (child s u 1) then Some False
        else if fd s u = t then Some True
        else check_chain s t u (fd s u)))
      else if fd s u = t then Some (owner \<noteq> 0)
      else check_chain s t owner (fd s u))"

declare check_chain.simps [code]

definition do_check_tree :: "malloc_state \<Rightarrow> addr \<Rightarrow> bool option" where
  "do_check_tree s t = (if tree_entry_ok s t then check_chain s t 0 t else Some False)"

definition do_check_treebin :: "malloc_state \<Rightarrow> bindex \<Rightarrow> bool option" where
  "do_check_treebin s i =
     (let t = treebin s i; empty = (treemap s AND push_bit (unat i) 1 = 0)
      in if t = 0 \<and> \<not> empty then Some False
         else if \<not> empty then do_check_tree s t else Some True)"

partial_function (option) check_small_list ::
  "malloc_state \<Rightarrow> addr \<Rightarrow> bindex \<Rightarrow> addr \<Rightarrow> bool option" where
  "check_small_list s b i p =
     (if p = b then Some True
      else let q = next_chunk s p
        in if do_check_free_chunk s p
              \<and> small_index (chunksize s p) = i
              \<and> (bk s p = b \<or> chunksize s (bk s p) = chunksize s p)
              \<and> (head s q \<noteq> FENCEPOST_HEAD \<longrightarrow> do_check_inuse_chunk s q)
           then check_small_list s b i (bk s p)
           else Some False)"

declare check_small_list.simps [code]

definition do_check_smallbin :: "malloc_state \<Rightarrow> bindex \<Rightarrow> bool option" where
  "do_check_smallbin s i =
     (let b = smallbin_at s i; p = bk s b; empty = (smallmap s AND push_bit (unat i) 1 = 0)
      in if p = b \<and> \<not> empty then Some False
         else if \<not> empty then check_small_list s b i p else Some True)"

text \<open>Is \<open>x\<close> in the ring that starts at \<open>b\<close>, searched from \<open>p\<close>?\<close>

partial_function (option) find_in_ring :: "malloc_state \<Rightarrow> addr \<Rightarrow> addr \<Rightarrow> addr \<Rightarrow> bool option" where
  "find_in_ring s b x p =
     (if p = x then Some True else if fd s p = b then Some False else find_in_ring s b x (fd s p))"

declare find_in_ring.simps [code]

partial_function (option) find_size :: "malloc_state \<Rightarrow> size_t \<Rightarrow> size_t \<Rightarrow> addr \<Rightarrow> addr option" where
  "find_size s sz sizebits t =
     (if t \<noteq> 0 \<and> chunksize s t \<noteq> sz
      then find_size s sz (push_bit 1 sizebits) (child s t (top_bit sizebits))
      else Some t)"

declare find_size.simps [code]

definition bin_find :: "malloc_state \<Rightarrow> addr \<Rightarrow> bool option" where
  "bin_find s x =
     (let sz = chunksize s x
      in if is_small sz then
           let sidx = small_index sz; b = smallbin_at s sidx
           in if smallmap_is_marked s sidx then find_in_ring s b x b else Some False
         else
           let tidx = compute_tree_index sz
           in if treemap_is_marked s tidx then
                Option.bind (find_size s sz (push_bit (leftshift_for_tree_index tidx) sz) (treebin s tidx))
                  (\<lambda>t. if t \<noteq> 0 then find_in_ring s t x t else Some False)
              else Some False)"

section \<open>Whole heaps\<close>

partial_function (option) check_segment ::
  "malloc_state \<Rightarrow> addr \<Rightarrow> addr \<Rightarrow> addr \<Rightarrow> size_t \<Rightarrow> size_t option option" where
  "check_segment s sp lastq q acc =
     (if segment_holds s sp q \<and> q \<noteq> mtop s \<and> head s q \<noteq> FENCEPOST_HEAD then
        Option.bind (bin_find s q) (\<lambda>found.
        if (if is_inuse s q then \<not> found \<and> do_check_inuse_chunk s q
            else (q = dv s \<or> found) \<and> (lastq = 0 \<or> is_inuse s lastq) \<and> do_check_free_chunk s q)
        then check_segment s sp q (next_chunk s q) (acc + chunksize s q)
        else Some None)
      else Some (Some acc))"

declare check_segment.simps [code]

partial_function (option) check_segments ::
  "malloc_state \<Rightarrow> addr \<Rightarrow> size_t \<Rightarrow> size_t option option" where
  "check_segments s sp acc =
     (if sp = 0 then Some (Some acc)
      else let q = align_as_chunk (seg_base s sp)
        in if pinuse s q then
             Option.bind (check_segment s sp 0 q acc) (\<lambda>r.
             case r of None \<Rightarrow> Some None | Some acc \<Rightarrow> check_segments s (seg_next s sp) acc)
           else Some None)"

declare check_segments.simps [code]

definition traverse_and_check :: "malloc_state \<Rightarrow> size_t option option" where
  "traverse_and_check s =
     (if is_initialized s then check_segments s (first_seg s) (topsize s + TOP_FOOT_SIZE)
      else Some (Some 0))"

primrec all_checked :: "bool option list \<Rightarrow> bool option" where
  "all_checked [] = Some True"
| "all_checked (c # cs) = Option.bind c (\<lambda>b. if b then all_checked cs else Some False)"

definition do_check_malloc_state :: "malloc_state \<Rightarrow> bool option" where
  "do_check_malloc_state s =
     all_checked
       (map (do_check_smallbin s) (map of_nat [0..<32]) @ map (do_check_treebin s) (map of_nat [0..<32]) @
        [if dvsize s \<noteq> 0 then
           if do_check_any_chunk s (dv s) \<and> dvsize s = chunksize s (dv s) \<and> dvsize s \<ge> MIN_CHUNK_SIZE
           then map_option Not (bin_find s (dv s)) else Some False
         else Some True,
         if mtop s \<noteq> 0 then
           Option.bind (do_check_top_chunk s (mtop s)) (\<lambda>b.
           if b \<and> topsize s > 0 then map_option Not (bin_find s (mtop s)) else Some False)
         else Some True,
         Option.bind (traverse_and_check s) (\<lambda>r.
           case r of None \<Rightarrow> Some False
           | Some sums \<Rightarrow> Some (sums \<le> footprint s \<and> footprint s \<le> max_footprint s))])"

section \<open>Statistics\<close>

record mallinfo =
  arena :: size_t
  ordblks :: size_t
  smblks :: size_t
  hblks :: size_t
  hblkhd :: size_t
  usmblks :: size_t
  fsmblks :: size_t
  uordblks :: size_t
  fordblks :: size_t
  keepcost :: size_t

partial_function (option) count_segment ::
  "malloc_state \<Rightarrow> addr \<Rightarrow> addr \<Rightarrow> size_t \<times> size_t \<times> size_t \<Rightarrow> (size_t \<times> size_t \<times> size_t) option" where
  "count_segment s sp q acc =
     (if segment_holds s sp q \<and> q \<noteq> mtop s \<and> head s q \<noteq> FENCEPOST_HEAD then
        let (sums, mfree, nfree) = acc; sz = chunksize s q
        in count_segment s sp (next_chunk s q)
             (if \<not> is_inuse s q then (sums + sz, mfree + sz, nfree + 1) else (sums + sz, mfree, nfree))
      else Some acc)"

declare count_segment.simps [code]

partial_function (option) count_segments ::
  "malloc_state \<Rightarrow> addr \<Rightarrow> size_t \<times> size_t \<times> size_t \<Rightarrow> (size_t \<times> size_t \<times> size_t) option" where
  "count_segments s sp acc =
     (if sp = 0 then Some acc
      else Option.bind (count_segment s sp (align_as_chunk (seg_base s sp)) acc)
             (count_segments s (seg_next s sp)))"

declare count_segments.simps [code]

definition internal_mallinfo :: "system \<Rightarrow> malloc_state \<Rightarrow> (mallinfo \<times> malloc_state) dl_result" where
  "internal_mallinfo os s =
     (let nm = \<lparr>arena = 0, ordblks = 0, smblks = 0, hblks = 0, hblkhd = 0, usmblks = 0, fsmblks = 0,
                uordblks = 0, fordblks = 0, keepcost = 0\<rparr>
      in dbind (ensure_initialization os s) (\<lambda>s.
         if is_initialized s then
           let mfree = topsize s + TOP_FOOT_SIZE
           in walk (count_segments s (first_seg s) (mfree, mfree, 1)) (\<lambda>(sums, mfree, nfree).
              Ret (nm\<lparr>arena := sums, ordblks := nfree, hblkhd := footprint s - sums,
                      usmblks := max_footprint s, uordblks := footprint s - mfree, fordblks := mfree,
                      keepcost := topsize s\<rparr>, s))
         else Ret (nm, s)))"

definition mspace_mallinfo :: "system \<Rightarrow> malloc_state \<Rightarrow> (mallinfo \<times> malloc_state) dl_result" where
  "mspace_mallinfo os s = internal_mallinfo os s"

text \<open>What \<open>internal_malloc_stats\<close> prints: the maximal and the current footprint, and the bytes in use\<close>

partial_function (option) used_segment :: "malloc_state \<Rightarrow> addr \<Rightarrow> addr \<Rightarrow> size_t \<Rightarrow> size_t option" where
  "used_segment s sp q used =
     (if segment_holds s sp q \<and> q \<noteq> mtop s \<and> head s q \<noteq> FENCEPOST_HEAD
      then used_segment s sp (next_chunk s q) (if \<not> is_inuse s q then used - chunksize s q else used)
      else Some used)"

declare used_segment.simps [code]

partial_function (option) used_segments :: "malloc_state \<Rightarrow> addr \<Rightarrow> size_t \<Rightarrow> size_t option" where
  "used_segments s sp used =
     (if sp = 0 then Some used
      else Option.bind (used_segment s sp (align_as_chunk (seg_base s sp)) used)
             (used_segments s (seg_next s sp)))"

declare used_segments.simps [code]

definition internal_malloc_stats ::
  "system \<Rightarrow> malloc_state \<Rightarrow> ((string \<times> size_t) list \<times> malloc_state) dl_result" where
  "internal_malloc_stats os s =
     dbind (ensure_initialization os s) (\<lambda>s.
     let print = (\<lambda>maxfp fp used. [(''max system bytes'', maxfp), (''system bytes'', fp), (''in use bytes'', used)])
     in if is_initialized s then
          let maxfp = max_footprint s; fp = footprint s
          in walk (used_segments s (first_seg s) (fp - (topsize s + TOP_FOOT_SIZE))) (\<lambda>used.
             Ret (print maxfp fp used, s))
        else Ret (print 0 0 0, s))"

definition mspace_malloc_stats ::
  "system \<Rightarrow> malloc_state \<Rightarrow> ((string \<times> size_t) list \<times> malloc_state) dl_result" where
  "mspace_malloc_stats os s = internal_malloc_stats os s"

end
