(* ===== verification/Dl_Checked.thy ===== *)
theory Dl_Checked
  imports Dl_Top Dl_Checks
begin

unbundle bit_operations_syntax

text \<open>
  Heaps used as a stack: requests are served from \<open>top\<close>, and the chunk below \<open>top\<close> may be freed.
  Every state such a heap reaches passes the allocator's own \<open>do_check_malloc_state\<close>, and
  \<open>mspace_mallinfo\<close> accounts for every byte. The chunks from the base to \<open>top\<close> are described by the
  list of their sizes.
\<close>

section \<open>Rows of chunks in use\<close>

primrec chunks :: "malloc_state \<Rightarrow> addr \<Rightarrow> size_t list \<Rightarrow> addr \<Rightarrow> bool" where
  "chunks s p [] e \<longleftrightarrow> p = e"
| "chunks s p (n # ns) e \<longleftrightarrow>
     head s p = n OR 3 \<and> is_aligned n \<and> 32 \<le> n \<and> unat p + unat n < 2 ^ 64 \<and> chunks s (p + n) ns e"

lemma chunks_append:
  "chunks s p (ms @ ns) e \<longleftrightarrow> (\<exists>q. chunks s p ms q \<and> chunks s q ns e)"
  by (induction ms arbitrary: p) auto

lemma chunks_le: "chunks s p ns e \<Longrightarrow> unat p \<le> unat e"
proof (induction ns arbitrary: p)
  case (Cons n ns)
  then have "unat (p + n) = unat p + unat n" by (simp add: unat_word_ariths)
  then show ?case using Cons.IH [of "p + n"] Cons.prems by simp
qed simp

lemma chunks_frame:
  assumes "chunks s p ns e" "\<And>a. unat a < unat e \<Longrightarrow> heap t a = heap s a"
  shows "chunks t p ns e"
  using assms(1)
proof (induction ns arbitrary: p)
  case (Cons n ns)
  have u: "unat (p + n) = unat p + unat n" "unat (p + n) \<le> unat e" "32 \<le> unat n"
    using Cons.prems chunks_le [of s "p + n" ns e] by (simp_all add: unat_word_ariths word_le_nat_alt)
  then have "unat (p + 8) = unat p + 8" using unsigned_less [of e] by (simp add: unat_word_ariths)
  then have "head t p = head s p" unfolding head_def using u by (intro assms(2)) simp
  then show ?case using Cons by simp
qed simp

lemma chunks_inuse:
  assumes "chunks s p (n # ns) e"
  shows "chunksize s p = n" "is_inuse s p" "pinuse s p" "\<not> is_mmapped s p" "next_chunk s p = p + n"
    "head s p \<noteq> FENCEPOST_HEAD"
proof -
  have h: "head s p = n OR 3" "is_aligned n" "32 \<le> n" using assms by simp_all
  note b = aligned_or_bits [OF h(2)]
  show n: "chunksize s p = n" "is_inuse s p" "pinuse s p" "\<not> is_mmapped s p" "next_chunk s p = p + n"
    using b h(1) by (simp_all add: chunksize_def is_inuse_def pinuse_def is_mmapped_def next_chunk_def dl_consts)
  show "head s p \<noteq> FENCEPOST_HEAD"
  proof
    assume "head s p = FENCEPOST_HEAD"
    then have "n = 8" using n(1) by (simp add: chunksize_def dl_consts)
    then show False using h(3) by simp
  qed
qed

section \<open>A heap that is a stack of chunks\<close>

definition stacked :: "malloc_state \<Rightarrow> size_t list \<Rightarrow> bool" where
  "stacked s ns \<longleftrightarrow>
     top_only s \<and> sole_segment s \<and> head s (mtop s + topsize s) = 80
       \<and> footprint s \<le> max_footprint s \<and> seg_size s (first_seg s) = footprint s
       \<and> is_aligned (least_addr s) \<and> 0 < least_addr s \<and> seg_base s (first_seg s) = least_addr s
       \<and> chunks s (least_addr s) ns (mtop s)"

lemma stackedD:
  assumes "stacked s ns"
  shows "top_only s" "sole_segment s" "head s (mtop s + topsize s) = 80" "footprint s \<le> max_footprint s"
    "seg_size s (first_seg s) = footprint s" "is_aligned (least_addr s)" "0 < least_addr s"
    "seg_base s (first_seg s) = least_addr s" "chunks s (least_addr s) ns (mtop s)"
    "smallmap s = 0" "treemap s = 0" "dvsize s = 0" "dv s = 0" "is_aligned (mtop s)" "is_aligned (topsize s)"
    "0 < topsize s" "least_addr s \<le> mtop s" "mtop s \<noteq> 0" "head s (mtop s) = topsize s OR 1"
    "unat (least_addr s) + unat (footprint s) = unat (mtop s) + unat (topsize s) + 80"
    "unat (mtop s) + unat (topsize s) + 80 < 2 ^ 64" "seg_next s (first_seg s) = 0" "first_seg s \<noteq> 0"
    "mp_magic (mparams s) \<noteq> 0"
  using assms by (auto simp: stacked_def top_only_def sole_segment_def dl_consts)

lemma bin_find_empty: "smallmap s = 0 \<Longrightarrow> treemap s = 0 \<Longrightarrow> bin_find s x = Some False"
  by (simp add: bin_find_def smallmap_is_marked_def treemap_is_marked_def Let_def)

lemma row_step:
  assumes "stacked s ms" "chunks s q (n # ns) (mtop s)" "least_addr s \<le> q"
  shows "segment_holds s (first_seg s) q" "q \<noteq> mtop s" "least_addr s \<le> q + n" "chunks s (q + n) ns (mtop s)"
    "unat (q + n) = unat q + unat n" "32 \<le> unat n"
proof -
  note st = stackedD [OF assms(1)]
  show n: "chunks s (q + n) ns (mtop s)" "unat (q + n) = unat q + unat n" "32 \<le> unat n"
    using assms(2) by (auto simp: unat_word_ariths word_le_nat_alt)
  have lt: "unat q < unat (mtop s)" using n chunks_le [OF n(1)] by linarith
  have "unat (least_addr s + footprint s) = unat (mtop s) + unat (topsize s) + 80"
    using st(20,21) by (simp add: unat_word_ariths)
  then show "segment_holds s (first_seg s) q" "q \<noteq> mtop s"
    using assms(3) lt by (auto simp: segment_holds_def st(5,8) word_less_nat_alt)
  show "least_addr s \<le> q + n" using assms(3) n(2) by (simp add: word_le_nat_alt)
qed

lemma check_segment_row:
  assumes "stacked s ms" "chunks s q ns (mtop s)" "is_aligned q" "least_addr s \<le> q"
  shows "check_segment s (first_seg s) lastq q acc = Some (Some (acc + sum_list ns))"
  using assms(2,3,4)
proof (induction ns arbitrary: q lastq acc)
  case Nil
  then show ?case by (subst check_segment.simps) simp
next
  case (Cons n ns)
  note st = stackedD [OF assms(1)]
  note q = chunks_inuse [OF Cons.prems(1)] and step = row_step [OF assms(1) Cons.prems(1,3)]
  have n: "is_aligned n" using Cons.prems(1) by simp
  have al: "is_aligned (q + n)" using Cons.prems(2) n step(5) by (simp add: is_aligned_iff)
  have "next_pinuse s q"
  proof (cases ns)
    case Nil
    then show ?thesis using step(4) q(5) aligned_or_bits [OF st(15)] st(19)
      by (simp add: next_pinuse_def pinuse_def dl_consts)
  next
    case Cons
    then show ?thesis using chunks_inuse(3) [OF step(4) [unfolded Cons]] q(5) by (simp add: next_pinuse_def)
  qed
  moreover have "is_aligned (chunk2mem q)"
  proof -
    have "unat (chunk2mem q) = unat q + 16"
      using step(5,6) unsigned_less [of "q + n"] by (simp add: chunk2mem_def unat_word_ariths dl_consts)
    then show ?thesis using Cons.prems(2) by (simp add: is_aligned_iff)
  qed
  ultimately have ok: "do_check_inuse_chunk s q"
    using q(2,3,4) Cons.prems(3) by (simp add: do_check_inuse_chunk_def do_check_any_chunk_def ok_address_def)
  have "check_segment s (first_seg s) lastq q acc = check_segment s (first_seg s) q (q + n) (acc + n)"
    using step(1,2) q(1,2,5,6) ok by (subst check_segment.simps) (simp add: bin_find_empty [OF st(10,11)])
  then show ?case using Cons.IH [OF step(4) al step(3)] by (simp add: add.assoc)
qed

lemma count_segment_row:
  assumes "stacked s ms" "chunks s q ns (mtop s)" "least_addr s \<le> q"
  shows "count_segment s (first_seg s) q (acc, mfree, nfree) = Some (acc + sum_list ns, mfree, nfree)"
    "used_segment s (first_seg s) q used = Some used"
  using assms(2,3)
proof (induction ns arbitrary: q acc)
  case Nil
  {
    case 1
    then show ?case by (subst count_segment.simps) simp
  next
    case 2
    then show ?case by (subst used_segment.simps) simp
  }
next
  case (Cons n ns)
  {
    case 1
    note q = chunks_inuse [OF 1(1)] and step = row_step [OF assms(1) 1]
    have "count_segment s (first_seg s) q (acc, mfree, nfree)
        = count_segment s (first_seg s) (q + n) (acc + n, mfree, nfree)"
      using step(1,2) q(1,2,5,6) by (subst count_segment.simps) simp
    then show ?case using Cons.IH(1) [OF step(4,3)] by (simp add: add.assoc)
  next
    case 2
    note q = chunks_inuse [OF 2(1)] and step = row_step [OF assms(1) 2]
    have "used_segment s (first_seg s) q used = used_segment s (first_seg s) (q + n) used"
      using step(1,2) q(2,5,6) by (subst used_segment.simps) simp
    then show ?case using Cons.IH(2) [OF step(4,3)] by simp
  }
qed

lemma chunks_sum: "chunks s p ns e \<Longrightarrow> p + sum_list ns = e"
  by (induction ns arbitrary: p) (auto simp flip: add.assoc)

lemma stacked_total:
  assumes "stacked s ns"
  shows "topsize s + 80 + sum_list ns = footprint s"
proof -
  have "least_addr s + footprint s = mtop s + topsize s + 80"
    using stackedD(20,21) [OF assms] by (simp add: word_unat_eq_iff unat_word_ariths)
  then have "least_addr s + footprint s = least_addr s + (topsize s + 80 + sum_list ns)"
    using chunks_sum [OF stackedD(9) [OF assms]] by (simp add: ac_simps)
  then show ?thesis by simp
qed

lemma align_as_chunk_base: "stacked s ns \<Longrightarrow> align_as_chunk (seg_base s (first_seg s)) = least_addr s"
  by (simp add: stackedD)

lemma stacked_checks:
  assumes "stacked s ns" "ns \<noteq> []"
  shows "do_check_malloc_state s = Some True"
proof -
  note st = stackedD [OF assms(1)]
  obtain n ms where ns: "ns = n # ms" using assms(2) by (cases ns) auto
  have small: "do_check_smallbin s i = Some True" and tree: "do_check_treebin s i = Some True" for i
    by (simp_all add: do_check_smallbin_def do_check_treebin_def Let_def st(10,11))
  have checked: "all_checked (map f xs @ cs) = all_checked cs" if "\<And>x. f x = Some True" for f :: "nat \<Rightarrow> bool option" and xs cs
    by (induction xs) (simp_all add: that)
  have "segment_holding s (mtop s) = Some (first_seg s)"
  proof -
    have "unat (least_addr s + footprint s) = unat (mtop s) + unat (topsize s) + 80"
      using st(20,21) by (simp add: unat_word_ariths)
    then have "mtop s < least_addr s + footprint s" by (simp add: word_less_nat_alt)
    then show ?thesis using st(17) by (simp add: segment_holding_def segment_holding_from.simps [of s] st(5,8))
  qed
  moreover have "is_aligned (chunk2mem (mtop s))"
  proof -
    have "unat (chunk2mem (mtop s)) = unat (mtop s) + 16"
      using st(21) by (simp add: chunk2mem_def unat_word_ariths dl_consts)
    then show ?thesis using st(14) by (simp add: is_aligned_iff)
  qed
  moreover have "(least_addr s + footprint s) - mtop s - TOP_FOOT_SIZE = topsize s"
  proof -
    have "least_addr s + footprint s = mtop s + topsize s + 80"
      using st(20,21) by (simp add: word_unat_eq_iff unat_word_ariths)
    then show ?thesis by (simp add: dl_consts)
  qed
  moreover have "(topsize s OR 1) AND NOT INUSE_BITS = topsize s" "pinuse s (mtop s)"
    using aligned_or_bits [OF st(15)] st(19) by (simp_all add: pinuse_def dl_consts)
  moreover have "\<not> pinuse s (mtop s + topsize s)" by (simp add: pinuse_def st(3) dl_consts)
  ultimately have top: "do_check_top_chunk s (mtop s) = Some True"
    using st(16,17) by (simp add: do_check_top_chunk_def Let_def st(19,23,8,5) ok_address_def)
  have "pinuse s (least_addr s)" using chunks_inuse(3) st(9) unfolding ns by blast
  then have trav: "traverse_and_check s = Some (Some (footprint s))"
    using stacked_total [OF assms(1)] check_segment_row [OF assms(1) st(9,6)] st(18,22,23)
    by (simp add: traverse_and_check_def is_initialized_def check_segments.simps [of s "first_seg s"]
        check_segments.simps [of s 0] align_as_chunk_base [OF assms(1)] st(6,8) dl_consts add.commute)
  show ?thesis
    unfolding do_check_malloc_state_def
    by (simp add: checked small tree top trav bin_find_empty [OF st(10,11)] st(4,12,16,18) del: upt_rec_numeral)
qed

lemma stacked_mallinfo:
  assumes "stacked s ns"
  obtains i where "mspace_mallinfo os s = Ret (i, s)" "arena i = footprint s" "fordblks i = topsize s + 80"
    "uordblks i = sum_list ns" "ordblks i = 1" "hblkhd i = 0" "keepcost i = topsize s"
proof -
  note st = stackedD [OF assms]
  have "count_segments s (first_seg s) (topsize s + 80, topsize s + 80, 1) = Some (footprint s, topsize s + 80, 1)"
    using count_segment_row(1) [OF assms st(9)] stacked_total [OF assms] st(22,23)
    by (simp add: count_segments.simps [of s "first_seg s"] count_segments.simps [of s 0]
        align_as_chunk_base [OF assms] st(6,8))
  moreover have "footprint s - (topsize s + 80) = sum_list ns"
    using stacked_total [OF assms] by (simp add: algebra_simps flip: stacked_total [OF assms])
  ultimately show thesis
    using st(18,24) that
    by (simp add: mspace_mallinfo_def internal_mallinfo_def ensure_initialization_def is_initialized_def dl_consts)
qed

lemma stacked_stats:
  assumes "stacked s ns"
  shows "mspace_malloc_stats os s = Ret ([(''max system bytes'', max_footprint s),
    (''system bytes'', footprint s), (''in use bytes'', sum_list ns)], s)"
proof -
  note st = stackedD [OF assms]
  have "used_segments s (first_seg s) u = Some u" for u
    using count_segment_row(2) [OF assms st(9)] st(22,23)
    by (simp add: used_segments.simps [of s "first_seg s"] used_segments.simps [of s 0]
        align_as_chunk_base [OF assms] st(6,8))
  moreover have "footprint s - (topsize s + 80) = sum_list ns"
    by (simp add: algebra_simps flip: stacked_total [OF assms])
  ultimately show ?thesis
    using st(18,24)
    by (simp add: mspace_malloc_stats_def internal_malloc_stats_def ensure_initialization_def
        is_initialized_def Let_def dl_consts)
qed

section \<open>Operations\<close>

lemma stacked_created:
  assumes "ensure_initialization os s = Ret s0" "is_aligned base" "0 < base" "is_aligned cap"
    "unat base + unat cap < 2 ^ 64" "1024 < cap" "cap < capacity_limit s0"
  obtains s1 where "create_mspace_with_base os base cap l s = Ret (base + 16, s1)" "stacked s1 [944]"
    "footprint s1 = cap" "topsize s1 = cap - 1024" "least_addr s1 = base" "mst s1 = base + 16"
proof -
  obtain s1 where s1: "create_mspace_with_base os base cap l s = Ret (base + 16, s1)" "top_only s1"
    "sole_segment s1" "mtop s1 = base + 944" "topsize s1 = cap - 1024" "least_addr s1 = base" "mst s1 = base + 16"
    "head s1 base = 947" "head s1 (mtop s1 + topsize s1) = 80" "footprint s1 = cap" "max_footprint s1 = cap"
    "seg_base s1 (first_seg s1) = base"
    using create_top_only [OF assms] by metis
  have "1024 < unat cap" using assms(6) by (simp add: word_less_nat_alt)
  then have u: "unat (base + 944) = unat base + 944" "unat (cap - 1024) = unat cap - 1024"
    using assms(5) by (simp_all add: unat_word_ariths unat_sub word_le_nat_alt)
  have "seg_size s1 (first_seg s1) = cap"
    unfolding word_unat_eq_iff using s1(3) u \<open>1024 < unat cap\<close> by (simp add: sole_segment_def s1(4,5,12) dl_consts)
  moreover have "chunks s1 base [944] (base + 944)"
    using u(1) assms(5) \<open>1024 < unat cap\<close> by (simp add: s1(8) is_aligned_iff)
  ultimately have "stacked s1 [944]"
    using s1 assms(2,3) by (simp add: stacked_def)
  then show thesis using that s1 by blast
qed

lemma stacked_malloc:
  assumes "stacked s ns" "b < MAX_REQUEST" "request2size b < topsize s"
  shows "\<exists>t. mspace_malloc os b s = Ret (chunk2mem (mtop s), t) \<and> stacked t (ns @ [request2size b])
    \<and> mtop t = mtop s + request2size b \<and> topsize t = topsize s - request2size b \<and> footprint t = footprint s
    \<and> least_addr t = least_addr s \<and> first_seg t = first_seg s"
proof -
  let ?n = "request2size b"
  let ?t = "snd (split_top ?n s)"
  note st = stackedD [OF assms(1)]
  have n: "is_aligned ?n" "32 \<le> ?n" "0 < ?n"
    using request2size_fits [OF assms(2)] request2size_pos [OF assms(2)]
    by (auto simp: dl_consts is_aligned_iff)
  note u = top_only_split [OF st(1) n(1,3) assms(3)]
  have nb: "unat ?n < unat (topsize s)" "32 \<le> unat ?n" using assms(3) n(2) by (simp_all add: word_less_nat_alt word_le_nat_alt)
  have a8: "unat (mtop s + 8) = unat (mtop s) + 8" "unat (mtop s + ?n + 8) = unat (mtop s) + unat ?n + 8"
    "unat (mtop s + topsize s + 8) = unat (mtop s) + unat (topsize s) + 8"
    using st(21) nb u(2) by (simp_all add: unat_word_ariths)
  have ne: "mtop s + 8 \<noteq> mtop s + ?n + 8" "mtop s + topsize s + 8 \<noteq> mtop s + ?n + 8"
    "mtop s + topsize s + 8 \<noteq> mtop s + 8"
    using a8 nb by (auto dest!: arg_cong [where f = unat])
  have below: "heap ?t a = heap s a" if "unat a < unat (mtop s)" for a
  proof -
    have "a \<noteq> mtop s + 8" "a \<noteq> mtop s + ?n + 8" using that a8 by auto
    then show ?thesis by (simp add: split_top_simps)
  qed
  have seg: "heap ?t (first_seg s + k) = heap s (first_seg s + k)" if "unat k \<le> 24" for k
  proof -
    have "unat (first_seg s) + 32 \<le> unat (mtop s)" using st(2) by (simp add: sole_segment_def)
    then have "unat (first_seg s + k) < unat (mtop s)" using that by (simp add: unat_word_ariths)
    then show ?thesis by (rule below)
  qed
  have fs: "first_seg ?t = first_seg s" by (simp add: first_seg_def split_top_simps)
  have "chunks ?t (least_addr s) (ns @ [?n]) (mtop s + ?n)"
    unfolding chunks_append
  proof (intro exI conjI)
    show "chunks ?t (least_addr s) ns (mtop s)" using chunks_frame [OF st(9) below] by blast
    show "chunks ?t (mtop s) [?n] (mtop s + ?n)"
      using n nb ne st(21) by (simp add: split_top_simps head_def dl_consts or.assoc)
  qed
  moreover have "head ?t (mtop s + topsize s) = 80"
    using st(3) ne by (simp add: head_def split_top_simps)
  ultimately have "stacked ?t (ns @ [?n])"
    using u(1) sole_segment_split [OF st(1,2) n(1,3) assms(3)] st(4-8) seg [of 0] seg [of 8]
    by (simp add: stacked_def split_top_simps fs seg_base_def seg_size_def)
  then show ?thesis
    using malloc_splits_top [OF st(1) assms(2,3), of os] split_top_simps [of ?n s]
    by (cases "split_top ?n s") (auto simp: first_seg_def)
qed

lemma stacked_free:
  assumes "stacked s (ns @ [n])" "ns \<noteq> []" "unat (first_seg s) + 32 \<le> unat (mtop s - n)"
  shows "\<exists>t. mspace_free os (chunk2mem (mtop s - n)) s = Ret t \<and> stacked t ns
    \<and> mtop t = mtop s - n \<and> topsize t = topsize s + n \<and> footprint t = footprint s \<and> first_seg t = first_seg s
    \<and> least_addr t = least_addr s"
proof -
  note st = stackedD [OF assms(1)]
  obtain p where p: "chunks s (least_addr s) ns p" "chunks s p [n] (mtop s)"
    using st(9) by (auto simp: chunks_append)
  then have h: "head s p = n OR 3" "is_aligned n" "32 \<le> n" "p + n = mtop s" "unat p + unat n < 2 ^ 64" by auto
  then have pm: "p = mtop s - n" by (metis add_diff_cancel_right')
  have u: "unat (mtop s) = unat p + unat n" "32 \<le> unat n" "unat (least_addr s) \<le> unat p"
    using h chunks_le [OF p(1)] by (auto simp: unat_word_ariths word_le_nat_alt simp flip: h(4))
  have o: "0 < n" "p < mtop s" "least_addr s \<le> p" "0 < p"
    using u st(7) h(3) by (auto simp: word_less_nat_alt word_le_nat_alt)
  have al: "is_aligned p" using st(14) h(2) u(1) by (simp add: is_aligned_iff) (metis dvd_add_left_iff)
  obtain t where t: "mspace_free os (chunk2mem p) s = Ret t" "top_only t" "sole_segment t" "mtop t = p"
    "topsize t = topsize s + n" "heap t = (heap s)(p + 8 := (topsize s + n) OR 1)"
    "least_addr t = least_addr s" "mst t = mst s" "footprint t = footprint s" "max_footprint t = max_footprint s"
    using free_into_top [OF st(1,2) h(2) o(1) h(4) o(2,3,4) al h(1), of os] assms(3) st(8) o(3) pm by metis
  have a8: "unat (p + 8) = unat p + 8" "unat (mtop s + topsize s + 8) = unat (mtop s) + unat (topsize s) + 8"
    using u st(21) by (simp_all add: unat_word_ariths)
  have below: "heap t a = heap s a" if "unat a < unat p" for a
    using that a8 t(6) by auto
  have fs: "first_seg t = first_seg s" using t(8) by (simp add: first_seg_def)
  have seg: "heap t (first_seg s + k) = heap s (first_seg s + k)" if "unat k \<le> 24" for k
    using that assms(3) pm by (intro below) (simp add: unat_word_ariths)
  have "mtop s + topsize s + 8 \<noteq> p + 8" using a8 u by auto
  moreover have "p + (topsize s + n) = mtop s + topsize s" using h(4) by (simp add: ac_simps)
  ultimately have "head t (p + (topsize s + n)) = 80"
    using st(3) unfolding head_def t(6) by (simp only: fun_upd_apply if_False)
  then have "stacked t ns"
    using t st(4-8) chunks_frame [OF p(1) below] seg [of 0] seg [of 8]
    by (simp add: stacked_def fs seg_base_def seg_size_def)
  then show ?thesis using t fs pm by auto
qed

section \<open>Every state of the stack\<close>

text \<open>
  The states a new heap goes through when requests that fit \<open>top\<close> are made and the chunk below
  \<open>top\<close> is freed; the list holds the sizes of the chunks above the allocator's own state.
\<close>

inductive stack_heap :: "system \<Rightarrow> addr \<Rightarrow> size_t \<Rightarrow> malloc_state \<Rightarrow> size_t list \<Rightarrow> bool"
  for os base cap where
  create: "\<lbrakk>ensure_initialization os s = Ret s0; is_aligned base; 0 < base; is_aligned cap;
      unat base + unat cap < 2 ^ 64; 1024 < cap; cap < capacity_limit s0;
      create_mspace_with_base os base cap l s = Ret (m, s1)\<rbrakk> \<Longrightarrow> stack_heap os base cap s1 []"
| alloc: "\<lbrakk>stack_heap os base cap s ns; b < MAX_REQUEST; request2size b < topsize s;
      mspace_malloc os b s = Ret (m, s1)\<rbrakk> \<Longrightarrow> stack_heap os base cap s1 (ns @ [request2size b])"
| free: "\<lbrakk>stack_heap os base cap s (ns @ [n]); mspace_free os (chunk2mem (mtop s - n)) s = Ret s1\<rbrakk>
    \<Longrightarrow> stack_heap os base cap s1 ns"

lemma stack_heap_stacked:
  assumes "stack_heap os base cap s ns"
  shows "stacked s (944 # ns) \<and> footprint s = cap \<and> least_addr s = base \<and> first_seg s = base + 904"
  using assms
proof induction
  case (create s s0 l m s1)
  obtain t where t: "create_mspace_with_base os base cap l s = Ret (base + 16, t)" "stacked t [944]"
    "footprint t = cap" "least_addr t = base" "mst t = base + 16"
    using stacked_created [OF create(1-7)] by metis
  then show ?case using create(8) by (simp add: first_seg_def dl_consts)
next
  case (alloc s ns b m s1)
  then show ?case
    using stacked_malloc [of s "944 # ns" b os] by auto
next
  case (free s ns n s1)
  have st: "stacked s ((944 # ns) @ [n])" using free.IH by simp
  have "chunks s base (944 # ns) (mtop s - n)"
  proof -
    obtain p where "chunks s base (944 # ns) p" "p + n = mtop s"
      using stackedD(9) [OF st] free.IH by (auto simp: chunks_append)
    then show ?thesis by (metis add_diff_cancel_right')
  qed
  then have "unat base + 944 \<le> unat (mtop s - n)" "unat (base + 904) = unat base + 904"
    using chunks_le [of s "base + 944" ns] by (auto simp: unat_word_ariths)
  then have above: "unat (first_seg s) + 32 \<le> unat (mtop s - n)" using free.IH by simp
  show ?case using stacked_free [OF st _ above, of os] free by auto
qed

text \<open>
  C34: Every state that requests served from \<open>top\<close> and releases of the chunk below \<open>top\<close> reach on a new
  heap passes all of the allocator's own debug checks, \<open>do_check_malloc_state\<close>;
  \<open>mspace_mallinfo\<close> accounts for every byte: the arena is the capacity, the bytes in use are the
  allocator's state and the chunks handed out, and the rest is \<open>top\<close>; \<open>mspace_malloc_stats\<close> prints
  the same number.
\<close>

theorem stack_heap_passes_checks:
  assumes "stack_heap os base cap s ns"
  shows "do_check_malloc_state s = Some True
    \<and> (\<exists>i. mspace_mallinfo os s = Ret (i, s) \<and> arena i = cap \<and> uordblks i = 944 + sum_list ns
        \<and> fordblks i = topsize s + 80 \<and> uordblks i + fordblks i = cap \<and> keepcost i = topsize s
        \<and> mspace_malloc_stats os s = Ret ([(''max system bytes'', max_footprint s), (''system bytes'', cap),
            (''in use bytes'', uordblks i)], s))"
proof -
  have st: "stacked s (944 # ns)" "footprint s = cap" using stack_heap_stacked [OF assms] by auto
  obtain i where "mspace_mallinfo os s = Ret (i, s)" "arena i = cap" "fordblks i = topsize s + 80"
    "uordblks i = 944 + sum_list ns" "keepcost i = topsize s"
    using stacked_mallinfo [OF st(1), of os] st(2) by auto
  moreover have "944 + sum_list ns + (topsize s + 80) = cap"
    using stacked_total [OF st(1)] st(2) by (simp add: ac_simps)
  ultimately show ?thesis using stacked_checks [OF st(1)] stacked_stats [OF st(1), of os] st(2) by auto
qed

theorem stack_heap_passes_checks_witness:
  "\<exists>s i. stack_heap refusing_system 0x10000 0x10000 s [112] \<and> do_check_malloc_state s = Some True
     \<and> mspace_mallinfo refusing_system s = Ret (i, s) \<and> uordblks i = 1056 \<and> fordblks i = 64480"
proof -
  obtain s0 where s0: "ensure_initialization refusing_system (zero_state 0) = Ret s0"
    "page_size (mparams s0) = 4096" by (rule refusing_system_initialises)
  have h: "is_aligned 0x10000" "0 < (0x10000 :: addr)" "unat (0x10000 :: addr) + unat (0x10000 :: addr) < 2 ^ 64"
    "1024 < (0x10000 :: addr)" "(0x10000 :: addr) < capacity_limit s0"
    using s0(2) by (simp_all add: is_aligned_iff capacity_limit_def msize dl_consts)
  obtain s1 where s1: "create_mspace_with_base refusing_system 0x10000 0x10000 False (zero_state 0) = Ret (0x10010, s1)"
    "stacked s1 [944]" "topsize s1 = 0xFC00"
    using stacked_created [OF s0(1) h(1,2,1,3,4,5), of False] by auto
  note c = stack_heap.create [OF s0(1) h(1,2,1,3,4,5) s1(1)]
  have r: "request2size 100 = 112" "request2size 300 = 320" by code_simp+
  obtain s2 where s2: "mspace_malloc refusing_system 100 s1 = Ret (chunk2mem (mtop s1), s2)"
    "stacked s2 [944, 112]" "topsize s2 = 0xFB90"
    using stacked_malloc [OF s1(2), of 100 refusing_system] s1(3) r by (auto simp: dl_consts)
  have a2: "stack_heap refusing_system 0x10000 0x10000 s2 [112]"
    using stack_heap.alloc [OF c _ _ s2(1)] r s1(3) by (simp add: dl_consts)
  obtain s3 where s3: "mspace_malloc refusing_system 300 s2 = Ret (chunk2mem (mtop s2), s3)"
    "stacked s3 [944, 112, 320]" "topsize s3 = 0xFA50" "mtop s3 - 320 = mtop s2" "first_seg s3 = first_seg s2"
    using stacked_malloc [OF s2(2), of 300 refusing_system] s2(3) r by (auto simp: dl_consts)
  have a3: "stack_heap refusing_system 0x10000 0x10000 s3 [112, 320]"
    using stack_heap.alloc [OF a2 _ _ s3(1)] r s2(3) by (simp add: dl_consts)
  have "unat (first_seg s3) + 32 \<le> unat (mtop s3 - 320)"
    using stackedD(2) [OF s2(2)] s3(4,5) by (simp add: sole_segment_def)
  then obtain s4 where s4: "mspace_free refusing_system (chunk2mem (mtop s3 - 320)) s3 = Ret s4" "topsize s4 = 0xFB90"
    using stacked_free [of s3 "[944, 112]" 320 refusing_system] s3(2,3) by auto
  have a4: "stack_heap refusing_system 0x10000 0x10000 s4 [112]"
    using stack_heap.free [of _ _ _ s3 "[112]" 320] a3 s4(1) by simp
  show ?thesis
    using stack_heap_passes_checks [OF a4] a4 s4(2) by auto
qed

end
