(* ===== verification/Dl_Bulk.thy ===== *)
theory Dl_Bulk
  imports Dl_Top
begin

unbundle bit_operations_syntax

text \<open>
  Requests for many elements at once (\<open>src/src/dlmalloc.c\<close>, lines 4966-5083 and 5818-5837) and the
  release of many (lines 5092-5132 and 5839-5841). The array \<open>sizes\<close> is a function of the state, since
  it is a local variable of \<open>mspace_independent_calloc\<close> and memory of the caller of
  \<open>mspace_independent_comalloc\<close>. The last section shows that the sizes are summed without a check.
\<close>

section \<open>Independent allocation\<close>

type_synonym sizes = "malloc_state \<Rightarrow> nat \<Rightarrow> size_t"

definition contents_size :: "malloc_state \<Rightarrow> size_t \<Rightarrow> sizes \<Rightarrow> bool \<Rightarrow> size_t" where
  "contents_size s n_elements sizes same =
     (if same then n_elements * request2size (sizes s 0)
      else sum_list (map (\<lambda>i. request2size (sizes s i)) [0..<unat n_elements]))"

text \<open>The loop that splits out the elements: \<open>k\<close> elements are left, \<open>i\<close> is the next one.\<close>

primrec split_elements ::
  "nat \<Rightarrow> nat \<Rightarrow> addr \<Rightarrow> size_t \<Rightarrow> sizes \<Rightarrow> addr \<Rightarrow> size_t \<Rightarrow> malloc_state \<Rightarrow> malloc_state" where
  "split_elements 0 i marray element_size sizes p remainder_size s = s"
| "split_elements (Suc k) i marray element_size sizes p remainder_size s =
     (let s = wr (marray + 8 * of_nat i) (chunk2mem p) s
      in if k \<noteq> 0 then
           let sz = (if element_size \<noteq> 0 then element_size else request2size (sizes s i));
               s = set_size_and_pinuse_of_inuse_chunk p sz s
           in split_elements k (Suc i) marray element_size sizes (p + sz) (remainder_size - sz) s
         else set_size_and_pinuse_of_inuse_chunk p remainder_size s)"

definition ialloc ::
  "system \<Rightarrow> size_t \<Rightarrow> sizes \<Rightarrow> 32 word \<Rightarrow> addr \<Rightarrow> malloc_state \<Rightarrow> (addr \<times> malloc_state) dl_result" where
  "ialloc os n_elements sizes opts chunks s =
     dbind (ensure_initialization os s) (\<lambda>s.
     if n_elements = 0 then
       if chunks \<noteq> 0 then Ret (chunks, s) else mspace_malloc os 0 s
     else
       let array_size = (if chunks \<noteq> 0 then 0 else request2size (n_elements * 8));
           same = (opts AND 1 \<noteq> 0);
           element_size = (if same then request2size (sizes s 0) else 0);
           contents = contents_size s n_elements sizes same;
           sz = contents + array_size;
           was_enabled = use_mmap s
       in dbind (mspace_malloc os (sz - CHUNK_OVERHEAD) (disable_mmap s)) (\<lambda>(mem, s).
          let s = (if was_enabled then enable_mmap s else s)
          in if mem = 0 then Ret (0, s)
             else
               let p = mem2chunk mem;
                   remainder_size = chunksize s p;
                   s = (if opts AND 2 \<noteq> 0
                        then memset0 mem (remainder_size - SIZE_T_SIZE - array_size) s else s);
                   array_chunk = p + contents;
                   marray = (if chunks \<noteq> 0 then chunks else chunk2mem array_chunk);
                   s = (if chunks \<noteq> 0 then s
                        else set_size_and_pinuse_of_inuse_chunk array_chunk (remainder_size - contents) s);
                   remainder_size = (if chunks \<noteq> 0 then remainder_size else contents)
               in Ret (marray,
                       split_elements (unat n_elements) 0 marray element_size sizes p remainder_size s)))"

definition mspace_independent_calloc ::
  "system \<Rightarrow> size_t \<Rightarrow> size_t \<Rightarrow> addr \<Rightarrow> malloc_state \<Rightarrow> (addr \<times> malloc_state) dl_result" where
  "mspace_independent_calloc os n_elements elem_size chunks s =
     ialloc os n_elements (\<lambda>_ _. elem_size) 3 chunks s"

definition mspace_independent_comalloc ::
  "system \<Rightarrow> size_t \<Rightarrow> addr \<Rightarrow> addr \<Rightarrow> malloc_state \<Rightarrow> (addr \<times> malloc_state) dl_result" where
  "mspace_independent_comalloc os n_elements sizes chunks s =
     ialloc os n_elements (\<lambda>s i. heap s (sizes + 8 * of_nat i)) 0 chunks s"

section \<open>Release of an array of chunks\<close>

text \<open>The loop over the elements from \<open>a\<close>, of which \<open>k\<close> are left\<close>

primrec bulk_free_from :: "system \<Rightarrow> nat \<Rightarrow> addr \<Rightarrow> malloc_state \<Rightarrow> malloc_state dl_result" where
  "bulk_free_from os 0 a s = Ret s"
| "bulk_free_from os (Suc k) a s =
     (let mem = heap s a
      in if mem \<noteq> 0 then
           let p = mem2chunk mem; psize = chunksize s p; s = wr a 0 s
           in if ok_address s p \<and> ok_inuse s p then
                let b = a + 8; nxt = next_chunk s p
                in if k \<noteq> 0 \<and> heap s b = chunk2mem nxt then
                     let newsize = chunksize s nxt + psize
                     in bulk_free_from os k b (wr b (chunk2mem p) (set_inuse p newsize s))
                   else dbind (dispose_chunk os p psize s) (bulk_free_from os k b)
              else Trap
         else bulk_free_from os k (a + 8) s)"

definition internal_bulk_free ::
  "system \<Rightarrow> addr \<Rightarrow> size_t \<Rightarrow> malloc_state \<Rightarrow> (size_t \<times> malloc_state) dl_result" where
  "internal_bulk_free os array nelem s =
     dbind (bulk_free_from os (unat nelem) array s) (\<lambda>s.
     if should_trim s (topsize s)
     then dbind (sys_trim os 0 s) (\<lambda>(b, s). Ret (0, s))
     else Ret (0, s))"

definition mspace_bulk_free ::
  "system \<Rightarrow> addr \<Rightarrow> size_t \<Rightarrow> malloc_state \<Rightarrow> (size_t \<times> malloc_state) dl_result" where
  "mspace_bulk_free os array nelem s = internal_bulk_free os array nelem s"

section \<open>Overflow\<close>

lemma top_only_disable_mmap:
  assumes "top_only s"
  shows "top_only (disable_mmap s)" "topsize (disable_mmap s) = topsize s" "mtop (disable_mmap s) = mtop s"
    "heap (disable_mmap s) = heap s" "heap (enable_mmap s) = heap s"
  using assms by (simp_all add: top_only_def disable_mmap_def enable_mmap_def head_def)

text \<open>
  C35: The size of an independent allocation is computed without a check for overflow: two elements of
  \<open>2 ^ 63\<close> bytes need 32 bytes in the arithmetic of \<open>size_t\<close>, so the request succeeds in any heap with
  64 bytes left. The head of the first element then claims \<open>2 ^ 63 + 16\<close> bytes, and the second
  element lies that far behind it.
\<close>

theorem independent_calloc_overflows:
  assumes "top_only s" "64 < topsize s" "mp_magic (mparams s) \<noteq> 0"
  shows "\<exists>t. mspace_independent_calloc os 2 0x8000000000000000 0 s = Ret (mtop s + 48, t)
    \<and> heap t (mtop s + 48) = mtop s + 16 \<and> heap t (mtop s + 56) = mtop s + 16 + 0x8000000000000010
    \<and> chunksize t (mtop s) = 0x8000000000000010 \<and> topsize t = topsize s - 64"
proof -
  have r: "request2size 0x8000000000000000 = 0x8000000000000010" "request2size 16 = 32" "request2size 56 = 64"
    by code_simp+
  have c: "contents_size t 2 (\<lambda>_ _. 0x8000000000000000) True = 32" for t by (simp add: contents_size_def r)
  have ens: "ensure_initialization os s = Ret s" using assms(3) by (simp add: ensure_initialization_def)
  define s1 where "s1 = snd (split_top 64 (disable_mmap s))"
  have m: "mspace_malloc os 56 (disable_mmap s) = Ret (mtop s + 16, s1)"
    using malloc_splits_top [of "disable_mmap s" 56 os] top_only_disable_mmap [OF assms(1)] assms(2)
      split_top_simps(1) [of 64 "disable_mmap s"]
    by (cases "split_top 64 (disable_mmap s)") (simp add: r(3) s1_def chunk2mem_def dl_consts)
  have s1: "heap s1 (mtop s + 8) = 67" "topsize s1 = topsize s - 64"
    using split_top_simps [of 64 "disable_mmap s"] top_only_disable_mmap [OF assms(1)]
    by (simp_all add: s1_def dl_consts)
  have same: "heap (if b then enable_mmap s1 else s1) = heap s1"
    "topsize (if b then enable_mmap s1 else s1) = topsize s1" for b
    by (simp_all add: enable_mmap_def)
  define s2 where "s2 = (if use_mmap s then enable_mmap s1 else s1)"
  have cs: "chunksize s2 (mtop s) = 64" by (simp add: chunksize_def head_def s2_def same s1 dl_consts)
  have nz: "mtop s + 16 \<noteq> 0"
  proof -
    have "unat (mtop s + 16) = unat (mtop s) + 16"
      using assms(1,2) by (simp add: top_only_def unat_word_ariths word_less_nat_alt dl_consts)
    then show ?thesis by auto
  qed
  have two: "split_elements 2 = split_elements (Suc (Suc 0))" by (simp only: numeral_2_eq_2)
  show ?thesis
    unfolding mspace_independent_calloc_def ialloc_def
    by (simp add: ens Let_def two r c m nz dl_consts mem2chunk_def flip: s2_def)
      (simp add: cs r memset0_def chunk2mem_def set_size_and_pinuse_of_inuse_chunk_def set_head_def
        wr_def chunksize_def head_def dl_consts s2_def same s1)
qed

theorem independent_calloc_overflows_witness:
  "\<exists>s t. create_mspace_with_base refusing_system 0x10000 0x10000 False (zero_state 0) = Ret (0x10010, s)
     \<and> mspace_independent_calloc refusing_system 2 0x8000000000000000 0 s = Ret (0x103E0, t)
     \<and> heap t 0x103E8 = 0x80000000000103D0"
proof -
  obtain s where s: "create_mspace_with_base refusing_system 0x10000 0x10000 False (zero_state 0) = Ret (0x10010, s)"
    "top_only s" "sole_segment s" "mtop s = 0x103B0" "topsize s = 0xFC00"
    by (rule example_heap)
  have "64 < topsize s" "mp_magic (mparams s) \<noteq> 0" using s(3,5) by (simp_all add: sole_segment_def)
  then show ?thesis
    using independent_calloc_overflows [OF s(2), of refusing_system] s(1,4) by auto
qed

end
