(* ===== verification/Memory.thy ===== *)
theory Memory
  imports Globals "HOL-Library.Multiset"
begin

text \<open>
  Memory and the documented behaviour of MPI one-sided communication.

  A \<open>cell\<close> is a byte of physical memory, named by the PE that owns it and its address there;
  the address map \<open>vmap V r\<close> of PE \<open>r\<close> says which cell an address of \<open>r\<close> reaches, so two PEs
  that share a segment alias its cells. The C operations on memory (\<open>memcpy\<close>, loads, stores,
  the GCC atomics) are defined here on the store. MPI is a handler with a state \<open>'m\<close> of its
  own: \<open>rma_laws\<close> and \<open>type_laws\<close> say what the MPI-3 standard promises about it.

  An RMA call issues an operation; the store component of a world is the settled memory, to
  which issued operations have not been applied yet. A flush applies them in some legal order:
  accumulates of one origin to one location keep their order, other operations are not ordered.
  Reading memory that an operation in flight touches is a race, about which nothing is claimed.
\<close>

section \<open>Stores\<close>

type_synonym cell = "int \<times> addr"
type_synonym store = "cell \<Rightarrow> byte"

definition cells_at :: "(addr \<Rightarrow> cell) \<Rightarrow> addr \<Rightarrow> int list \<Rightarrow> cell list" where
  "cells_at vm a ds = map (\<lambda>d. vm (a + word_of_int d)) ds"

definition range_at :: "(addr \<Rightarrow> cell) \<Rightarrow> addr \<Rightarrow> nat \<Rightarrow> cell list" where
  "range_at vm a n = cells_at vm a (map int [0..<n])"

primrec apply_writes :: "(cell \<times> byte) list \<Rightarrow> store \<Rightarrow> store" where
  "apply_writes [] \<sigma> = \<sigma>"
| "apply_writes (w # ws) \<sigma> = apply_writes ws (\<sigma>(fst w := snd w))"

lemma length_cells_at [simp]: "length (cells_at vm a ds) = length ds"
  by (simp add: cells_at_def)

lemma length_range_at [simp]: "length (range_at vm a n) = n"
  by (simp add: range_at_def)

lemma nth_range_at [simp]: "k < n \<Longrightarrow> range_at vm a n ! k = vm (a + word_of_nat k)"
  by (simp add: range_at_def cells_at_def)

lemma apply_writes_append [mem_simps]:
  "apply_writes (xs @ ys) \<sigma> = apply_writes ys (apply_writes xs \<sigma>)"
  by (induction xs arbitrary: \<sigma>) auto

lemma apply_writes_other [mem_simps]: "c \<notin> fst ` set ws \<Longrightarrow> apply_writes ws \<sigma> c = \<sigma> c"
  by (induction ws arbitrary: \<sigma>) auto

lemma apply_writes_in:
  "distinct (map fst ws) \<Longrightarrow> (c, b) \<in> set ws \<Longrightarrow> apply_writes ws \<sigma> c = b"
proof (induction ws arbitrary: \<sigma>)
  case Nil
  then show ?case by simp
next
  case (Cons w ws)
  show ?case
  proof (cases "(c, b) = w")
    case True
    with Cons.prems(1) have "c \<notin> fst ` set ws" by (cases w) force
    with True show ?thesis by (auto simp: apply_writes_other)
  next
    case False
    with Cons show ?thesis by (metis distinct.simps(2) list.simps(9) apply_writes.simps(2) set_ConsD)
  qed
qed

lemma apply_writes_zip_nth:
  "distinct cs \<Longrightarrow> length bs = length cs \<Longrightarrow> k < length cs \<Longrightarrow>
   apply_writes (zip cs bs) \<sigma> (cs ! k) = bs ! k"
  by (rule apply_writes_in) (auto simp: in_set_zip)

lemma apply_writes_zip_other [mem_simps]:
  "c \<notin> set cs \<Longrightarrow> apply_writes (zip cs bs) \<sigma> c = \<sigma> c"
  by (rule apply_writes_other) (auto dest: set_zip_leftD)

lemma apply_writes_upd:
  "c \<notin> fst ` set ws \<Longrightarrow> apply_writes ws (\<sigma>(c := b)) = (apply_writes ws \<sigma>)(c := b)"
proof (induction ws arbitrary: \<sigma>)
  case Nil
  then show ?case by simp
next
  case (Cons w ws)
  then have c: "c \<noteq> fst w" and ws: "c \<notin> fst ` set ws" by auto
  have "apply_writes (w # ws) (\<sigma>(c := b)) = apply_writes ws (\<sigma>(c := b, fst w := snd w))"
    by (rule apply_writes.simps)
  also have "\<dots> = apply_writes ws ((\<sigma>(fst w := snd w))(c := b))"
    using c by (metis fun_upd_twist)
  also have "\<dots> = (apply_writes ws (\<sigma>(fst w := snd w)))(c := b)"
    by (rule Cons.IH [OF ws])
  finally show ?case
    by (simp only: apply_writes.simps)
qed

lemma apply_writes_commute:
  assumes "fst ` set xs \<inter> fst ` set ys = {}"
  shows "apply_writes xs (apply_writes ys \<sigma>) = apply_writes ys (apply_writes xs \<sigma>)"
  using assms
proof (induction ys arbitrary: \<sigma>)
  case Nil
  then show ?case by simp
next
  case (Cons y ys)
  have y: "fst y \<notin> fst ` set xs" and ys: "fst ` set xs \<inter> fst ` set ys = {}"
    using Cons.prems by auto
  show ?case
    by (simp only: apply_writes.simps Cons.IH [OF ys] apply_writes_upd [OF y])
qed

section \<open>Typed values in memory\<close>

text \<open>Little-endian: the machine the GCC atomics of the sources run on.\<close>

primrec val_bytes :: "nat \<Rightarrow> scalar \<Rightarrow> byte list" where
  "val_bytes 0 v = []"
| "val_bytes (Suc n) v = ucast v # val_bytes n (drop_bit 8 v)"

primrec bytes_val :: "byte list \<Rightarrow> scalar" where
  "bytes_val [] = 0"
| "bytes_val (b # bs) = or (ucast b) (push_bit 8 (bytes_val bs))"

lemma length_val_bytes [simp]: "length (val_bytes n v) = n"
  by (induction n arbitrary: v) auto

lemma ucast_byte: "(ucast (ucast (v :: scalar) :: byte) :: scalar) = take_bit 8 v"
  by (rule bit_word_eqI) (auto simp: bit_simps)

lemma bytes_val_val_bytes: "bytes_val (val_bytes n v) = take_bit (8 * n) v"
proof (induction n arbitrary: v)
  case 0
  then show ?case by simp
next
  case (Suc n)
  have "bytes_val (val_bytes (Suc n) v)
      = or (take_bit 8 v) (push_bit 8 (take_bit (8 * n) (drop_bit 8 v)))"
    by (simp add: Suc ucast_byte)
  also have "\<dots> = take_bit (8 * Suc n) v"
    by (rule bit_word_eqI) (auto simp: bit_simps not_less)
  finally show ?case .
qed

definition read_val :: "cell list \<Rightarrow> store \<Rightarrow> scalar" where
  "read_val cs \<sigma> = bytes_val (map \<sigma> cs)"

definition write_val :: "cell list \<Rightarrow> scalar \<Rightarrow> store \<Rightarrow> store" where
  "write_val cs v \<sigma> = apply_writes (zip cs (val_bytes (length cs) v)) \<sigma>"

lemma read_write_val:
  assumes "distinct cs"
  shows "read_val cs (write_val cs v \<sigma>) = take_bit (8 * length cs) v"
proof -
  have "map (write_val cs v \<sigma>) cs = val_bytes (length cs) v"
    by (rule nth_equalityI) (simp_all add: write_val_def apply_writes_zip_nth assms)
  then show ?thesis
    by (simp add: read_val_def bytes_val_val_bytes)
qed

lemma write_val_take_bit:
  "8 * length cs \<le> k \<Longrightarrow> write_val cs (take_bit k v) \<sigma> = write_val cs v \<sigma>"
proof -
  have "val_bytes n (take_bit k v) = val_bytes n v" if "8 * n \<le> k" for n k v
    using that
  proof (induction n arbitrary: k v)
    case 0
    then show ?case by simp
  next
    case (Suc n)
    have "ucast (take_bit k v) = (ucast v :: byte)"
      using Suc.prems by (intro bit_word_eqI) (auto simp: bit_simps)
    moreover have "drop_bit 8 (take_bit k v) = take_bit (k - 8) (drop_bit 8 v)"
      by (simp add: drop_bit_take_bit)
    ultimately show ?case
      using Suc by simp
  qed
  moreover assume "8 * length cs \<le> k"
  ultimately show ?thesis
    by (simp add: write_val_def)
qed

lemma bytes_val_bound: "take_bit (8 * length bs) (bytes_val bs) = bytes_val bs"
proof (induction bs)
  case Nil
  then show ?case by simp
next
  case (Cons b bs)
  have "take_bit (8 * length (b # bs)) (push_bit 8 (bytes_val bs)) = push_bit 8 (bytes_val bs)"
    by (subst (2) Cons.IH [symmetric]) (simp add: push_bit_take_bit add.commute)
  moreover have "take_bit (8 * length (b # bs)) (ucast b :: scalar) = ucast b"
    by (rule bit_word_eqI) (auto simp: bit_simps dest: bit_imp_le_length)
  ultimately show ?case
    by (simp add: take_bit_or)
qed

lemma val_bytes_bytes_val: "length bs \<le> 8 \<Longrightarrow> val_bytes (length bs) (bytes_val bs) = bs"
proof (induction bs)
  case Nil
  then show ?case by simp
next
  case (Cons b bs)
  let ?x = "bytes_val bs"
  have x: "\<not> bit ?x n" if "56 \<le> n" for n
  proof -
    have "8 * length bs \<le> n" using Cons.prems that by simp
    then have "\<not> bit (take_bit (8 * length bs) ?x) n" by (simp add: bit_take_bit_iff)
    then show ?thesis by (simp add: bytes_val_bound)
  qed
  have "ucast (or (ucast b) (push_bit 8 ?x)) = b"
    by (rule bit_word_eqI) (auto simp: bit_simps)
  moreover have "drop_bit 8 (or (ucast b) (push_bit 8 ?x)) = ?x"
    by (rule bit_word_eqI) (use x in \<open>auto simp: bit_simps dest: bit_imp_le_length\<close>)
  ultimately show ?case
    using Cons by simp
qed

lemma apply_writes_same: "apply_writes (zip cs (map \<sigma> cs)) \<sigma> = \<sigma>"
  by (induction cs) simp_all

lemma write_val_read: "length cs \<le> 8 \<Longrightarrow> write_val cs (read_val cs \<sigma>) \<sigma> = \<sigma>"
  using val_bytes_bytes_val [of "map \<sigma> cs"] by (simp add: write_val_def read_val_def apply_writes_same)

lemma write_val_other [mem_simps]: "c \<notin> set cs \<Longrightarrow> write_val cs v \<sigma> c = \<sigma> c"
  by (simp add: write_val_def apply_writes_zip_other)

section \<open>C operations on memory\<close>

text \<open>
  The effects of \<open>mem_op\<close> on the store, at the addresses of one PE. The store to
  \<open>oshmpi_lock_base\<close> goes to window memory that only the lock routines use; it has its own
  state there (theory \<open>Mcs_Lock\<close>).
\<close>

fun mem_step :: "(addr \<Rightarrow> cell) \<Rightarrow> mem_op \<Rightarrow> store \<Rightarrow> resp \<times> store" where
  "mem_step vm (Memcpy dst src n) \<sigma> =
     (RUnit, apply_writes (zip (range_at vm dst (unat n)) (map \<sigma> (range_at vm src (unat n)))) \<sigma>)"
| "mem_step vm (Load a n) \<sigma> = (RBytes (map \<sigma> (range_at vm a n)), \<sigma>)"
| "mem_step vm (Store a bs) \<sigma> = (RUnit, apply_writes (zip (range_at vm a (length bs)) bs) \<sigma>)"
| "mem_step vm (Sync_lock_test_and_set a w v) \<sigma> =
     (RVal (read_val (range_at vm a w) \<sigma>), write_val (range_at vm a w) v \<sigma>)"
| "mem_step vm (Sync_val_compare_and_swap a w c v) \<sigma> =
     (let old = read_val (range_at vm a w) \<sigma>
      in (RVal old,
          if old = take_bit (8 * w) c then write_val (range_at vm a w) v \<sigma> else \<sigma>))"
| "mem_step vm (Sync_fetch_and_add a w v) \<sigma> =
     (let old = read_val (range_at vm a w) \<sigma>
      in (RVal old, write_val (range_at vm a w) (old + v) \<sigma>))"
| "mem_step vm Sync_synchronize \<sigma> = (RUnit, \<sigma>)"
| "mem_step vm (Lock_base_store i v) \<sigma> = (RUnit, \<sigma>)"

end
