(* ===== verification/Mpi_Laws.thy ===== *)
theory Mpi_Laws
  imports Memory
begin

text \<open>
  The documented behaviour of the MPI-3 calls the communication routines rely on, as laws of a
  handler. \<open>mpi_view\<close> says how the laws read the state of an MPI library: the operations in
  flight from a PE on a window (each with its target, in the order of issue), the type map of a
  datatype handle, the derived handles that are live, the address map of every PE and the base
  of every window. \<open>rma_laws\<close> and \<open>type_laws\<close> are the hypotheses of the theorems about
  data movement; \<open>reference_mpi\<close> is a library that satisfies them, for the witnesses.
\<close>

section \<open>Datatypes\<close>

fun predef_size :: "mpi_type \<Rightarrow> nat" where
  "predef_size MPI_CHAR = 1"
| "predef_size MPI_SHORT = 2"
| "predef_size MPI_INT = 4"
| "predef_size MPI_LONG = 8"
| "predef_size MPI_LONG_LONG = 8"
| "predef_size MPI_FLOAT = 4"
| "predef_size MPI_DOUBLE = 8"
| "predef_size MPI_LONG_DOUBLE = 16"
| "predef_size MPI_BYTE = 1"
| "predef_size MPI_INT32_T = 4"
| "predef_size MPI_INT64_T = 8"
| "predef_size MPI_COMPLEX = 8"
| "predef_size MPI_DOUBLE_COMPLEX = 16"
| "predef_size MPI_C_DOUBLE_COMPLEX = 16"
| "predef_size MPI_DATATYPE_NULL = 0"
| "predef_size (Derived h) = 0"

definition predefined :: "mpi_type \<Rightarrow> bool" where
  "predefined t \<longleftrightarrow> 0 < predef_size t"

text \<open>The types the library passes to \<open>MPI_SUM\<close> and to compare-and-swap.\<close>

definition integer_type :: "mpi_type \<Rightarrow> bool" where
  "integer_type t \<longleftrightarrow> t = MPI_INT \<or> t = MPI_LONG \<or> t = MPI_LONG_LONG"

text \<open>A type map: the byte displacements of one element, in the order they are packed.\<close>

definition predef_map :: "mpi_type \<Rightarrow> int list" where
  "predef_map t = map int [0..<predef_size t]"

definition shift_map :: "int \<Rightarrow> int list \<Rightarrow> int list" where
  "shift_map d tm = map (\<lambda>x. d + x) tm"

definition repeat_map :: "nat \<Rightarrow> int \<Rightarrow> int list \<Rightarrow> int list" where
  "repeat_map n ext tm = concat (map (\<lambda>i. shift_map (int i * ext) tm) [0..<n])"

definition vector_map :: "nat \<Rightarrow> nat \<Rightarrow> int \<Rightarrow> int \<Rightarrow> int list \<Rightarrow> int list" where
  "vector_map c b s ext tm =
     concat (map (\<lambda>i. shift_map (int i * s * ext) (repeat_map b ext tm)) [0..<c])"

section \<open>The view of an MPI library\<close>

datatype (plugins only: code size) rma_op =
    Write bool "(cell \<times> byte) list" \<comment> \<open>a put, or an accumulate with \<open>MPI_REPLACE\<close> (ordered)\<close>
  | Read bool "(cell \<times> cell) list" \<comment> \<open>a get, or a get-accumulate: (result, remote) cells\<close>
  | Update "cell list" scalar \<comment> \<open>an accumulate with \<open>MPI_SUM\<close>\<close>

type_synonym flight = "(int \<times> rma_op) list"

fun ordered_op :: "rma_op \<Rightarrow> bool" where
  "ordered_op (Write ord ws) = ord"
| "ordered_op (Read ord ps) = ord"
| "ordered_op (Update cs v) = True"

fun is_read :: "rma_op \<Rightarrow> bool" where
  "is_read (Read ord ps) = True"
| "is_read _ = False"

fun apply_op :: "rma_op \<Rightarrow> store \<Rightarrow> store" where
  "apply_op (Write ord ws) \<sigma> = apply_writes ws \<sigma>"
| "apply_op (Read ord ps) \<sigma> = apply_writes (map (\<lambda>(d, s). (d, \<sigma> s)) ps) \<sigma>"
| "apply_op (Update cs v) \<sigma> = write_val cs (read_val cs \<sigma> + v) \<sigma>"

primrec apply_ops :: "flight \<Rightarrow> store \<Rightarrow> store" where
  "apply_ops [] \<sigma> = \<sigma>"
| "apply_ops (x # xs) \<sigma> = apply_ops xs (apply_op (snd x) \<sigma>)"

lemma apply_ops_append: "apply_ops (xs @ ys) \<sigma> = apply_ops ys (apply_ops xs \<sigma>)"
  by (induction xs arbitrary: \<sigma>) auto

text \<open>
  \<open>ys\<close> is an order in which the operations \<open>xs\<close>, listed in the order of issue, may take
  effect: the same operations, with the ordered ones that meet in a location of the target as
  issued. MPI orders accumulates only there; those to different locations may be swapped.
\<close>

fun locations :: "rma_op \<Rightarrow> cell set" where
  "locations (Write ord ws) = fst ` set ws"
| "locations (Read ord ps) = snd ` set ps"
| "locations (Update cs v) = set cs"

definition ordered_at :: "cell \<Rightarrow> int \<times> rma_op \<Rightarrow> bool" where
  "ordered_at c x \<longleftrightarrow> ordered_op (snd x) \<and> c \<in> locations (snd x)"

definition legal_order :: "flight \<Rightarrow> flight \<Rightarrow> bool" where
  "legal_order xs ys \<longleftrightarrow> mset xs = mset ys \<and>
     (\<forall>c. filter (ordered_at c) xs = filter (ordered_at c) ys)"

lemma legal_order_refl [simp]: "legal_order xs xs"
  by (simp add: legal_order_def)

lemma legal_order_trans: "legal_order xs ys \<Longrightarrow> legal_order ys zs \<Longrightarrow> legal_order xs zs"
  by (simp add: legal_order_def)

lemma legal_order_append:
  "legal_order xs ys \<Longrightarrow> legal_order us vs \<Longrightarrow> legal_order (xs @ us) (ys @ vs)"
  by (simp add: legal_order_def)

lemma legal_order_Nil [simp]: "legal_order [] ys \<longleftrightarrow> ys = []" "legal_order xs [] \<longleftrightarrow> xs = []"
  by (auto simp: legal_order_def)

lemma legal_order_single [simp]: "legal_order [x] ys \<longleftrightarrow> ys = [x]"
  by (auto simp: legal_order_def)

record 'm mpi_view =
  in_flight :: "'m \<Rightarrow> int \<Rightarrow> mpi_win \<Rightarrow> flight"
  typemap :: "'m \<Rightarrow> mpi_type \<Rightarrow> int list"
  live :: "'m \<Rightarrow> nat set"
  vmap :: "int \<Rightarrow> addr \<Rightarrow> cell"
  window_base :: "mpi_win \<Rightarrow> int \<Rightarrow> addr"

type_synonym 'm world = "'m \<times> store"

text \<open>The cells of \<open>cnt\<close> elements of a type at an address of PE \<open>r\<close>, and in a window.\<close>

definition type_disps :: "'m mpi_view \<Rightarrow> 'm \<Rightarrow> mpi_type \<Rightarrow> int \<Rightarrow> int list" where
  "type_disps V m ty cnt = repeat_map (nat cnt) (int (predef_size ty)) (typemap V m ty)"

definition buf_cells :: "'m mpi_view \<Rightarrow> 'm \<Rightarrow> int \<Rightarrow> addr \<Rightarrow> mpi_type \<Rightarrow> int \<Rightarrow> cell list" where
  "buf_cells V m r a ty cnt = cells_at (vmap V r) a (type_disps V m ty cnt)"

definition win_cells ::
    "'m mpi_view \<Rightarrow> 'm \<Rightarrow> mpi_win \<Rightarrow> int \<Rightarrow> int \<Rightarrow> mpi_type \<Rightarrow> int \<Rightarrow> cell list" where
  "win_cells V m w t d ty cnt = buf_cells V m t (window_base V w t + word_of_int d) ty cnt"

definition same_types :: "'m mpi_view \<Rightarrow> 'm \<Rightarrow> 'm \<Rightarrow> bool" where
  "same_types V m m' \<longleftrightarrow> typemap V m' = typemap V m \<and> live V m' = live V m"

definition flight_upd ::
    "'m mpi_view \<Rightarrow> 'm \<Rightarrow> int \<Rightarrow> mpi_win \<Rightarrow> flight \<Rightarrow> 'm \<Rightarrow> bool" where
  "flight_upd V m r w fl m' \<longleftrightarrow>
     in_flight V m' = (in_flight V m)(r := (in_flight V m r)(w := fl))"

section \<open>Laws of one-sided communication\<close>

text \<open>
  What MPI asks of a transfer: the entries of the buffer it writes do not overlap, and both
  sides have the same number of bytes.
\<close>

definition transfer_ok ::
    "'m mpi_view \<Rightarrow> mpi_type \<Rightarrow> int \<Rightarrow> mpi_type \<Rightarrow> int \<Rightarrow> 'm \<Rightarrow> bool" where
  "transfer_ok V wty wc rty rc m \<longleftrightarrow> distinct (type_disps V m wty wc) \<and>
     length (type_disps V m wty wc) = length (type_disps V m rty rc)"

text \<open>
  Issuing an operation, where MPI allows it (\<open>ok\<close>), puts it in flight and leaves the settled
  memory alone.
\<close>

definition issues ::
    "'m mpi_view \<Rightarrow> (int \<Rightarrow> 'm world mpi) \<Rightarrow> int \<Rightarrow> rma_call \<Rightarrow> mpi_win \<Rightarrow>
     ('m \<Rightarrow> bool) \<Rightarrow> ('m \<Rightarrow> store \<Rightarrow> int \<times> rma_op) \<Rightarrow> bool" where
  "issues V mpi r c w ok oper \<longleftrightarrow>
     (\<forall>m \<sigma>. ok m \<longrightarrow> (\<exists>resp m'. mpi r (Rma c) (m, \<sigma>) = (resp, m', \<sigma>) \<and> same_types V m m' \<and>
        flight_upd V m r w (in_flight V m r w @ [oper m \<sigma>]) m'))"

text \<open>
  A synchronization call completes some of the operations in flight, in a legal order;
  \<open>left\<close> says which may remain.
\<close>

definition completes ::
    "'m mpi_view \<Rightarrow> (int \<Rightarrow> 'm world mpi) \<Rightarrow> int \<Rightarrow> rma_call \<Rightarrow> mpi_win \<Rightarrow>
     (int \<times> rma_op \<Rightarrow> bool) \<Rightarrow> bool" where
  "completes V mpi r c w left \<longleftrightarrow>
     (\<forall>m \<sigma>. \<exists>resp m' don rest. mpi r (Rma c) (m, \<sigma>) = (resp, m', apply_ops don \<sigma>) \<and>
        same_types V m m' \<and> legal_order (in_flight V m r w) (don @ rest) \<and>
        (\<forall>x\<in>set rest. left x) \<and> flight_upd V m r w rest m')"

text \<open>The value a reduction leaves, for the three operations the library fetches with.\<close>

definition op_value :: "mpi_op \<Rightarrow> scalar \<Rightarrow> scalar \<Rightarrow> scalar" where
  "op_value oper old v =
     (if oper = MPI_REPLACE then v else if oper = MPI_SUM then old + v else old)"

text \<open>An atomic call on a window with nothing in flight reads and writes at once.\<close>

definition fetches ::
    "'m mpi_view \<Rightarrow> (int \<Rightarrow> 'm world mpi) \<Rightarrow> int \<Rightarrow> rma_call \<Rightarrow> mpi_win \<Rightarrow> cell list \<Rightarrow>
     (scalar \<Rightarrow> scalar) \<Rightarrow> bool" where
  "fetches V mpi r c w cs upd \<longleftrightarrow>
     (\<forall>m \<sigma>. in_flight V m r w = [] \<longrightarrow>
        (\<exists>m'. mpi r (Rma c) (m, \<sigma>)
              = (RVal (read_val cs \<sigma>), m', write_val cs (upd (read_val cs \<sigma>)) \<sigma>) \<and>
           same_types V m m' \<and> flight_upd V m r w [] m'))"

definition atomic_cells :: "'m mpi_view \<Rightarrow> mpi_win \<Rightarrow> int \<Rightarrow> int \<Rightarrow> mpi_type \<Rightarrow> cell list" where
  "atomic_cells V w t d ty =
     range_at (vmap V t) (window_base V w t + word_of_int d) (predef_size ty)"

definition put_law :: "'m mpi_view \<Rightarrow> (int \<Rightarrow> 'm world mpi) \<Rightarrow> bool" where
  "put_law V mpi \<longleftrightarrow> (\<forall>r a oc oty t d tc tty w.
     issues V mpi r (MPI_Put a oc oty t d tc tty w) w (transfer_ok V tty tc oty oc)
       (\<lambda>m \<sigma>. (t, Write False (zip (win_cells V m w t d tty tc)
                                   (map \<sigma> (buf_cells V m r a oty oc))))))"

definition replace_law :: "'m mpi_view \<Rightarrow> (int \<Rightarrow> 'm world mpi) \<Rightarrow> bool" where
  "replace_law V mpi \<longleftrightarrow> (\<forall>r a oc oty t d tc tty w.
     issues V mpi r (MPI_Accumulate (Buf a) oc oty t d tc tty MPI_REPLACE w) w (transfer_ok V tty tc oty oc)
       (\<lambda>m \<sigma>. (t, Write True (zip (win_cells V m w t d tty tc)
                                  (map \<sigma> (buf_cells V m r a oty oc))))))"

definition sum_law :: "'m mpi_view \<Rightarrow> (int \<Rightarrow> 'm world mpi) \<Rightarrow> bool" where
  "sum_law V mpi \<longleftrightarrow> (\<forall>r v ty t d w. integer_type ty \<longrightarrow>
     issues V mpi r (MPI_Accumulate (Val v) 1 ty t d 1 ty MPI_SUM w) w (\<lambda>_. True)
       (\<lambda>m \<sigma>. (t, Update (atomic_cells V w t d ty) v)))"

definition get_law :: "'m mpi_view \<Rightarrow> (int \<Rightarrow> 'm world mpi) \<Rightarrow> bool" where
  "get_law V mpi \<longleftrightarrow> (\<forall>r a oc oty t d tc tty w.
     issues V mpi r (MPI_Get a oc oty t d tc tty w) w (transfer_ok V oty oc tty tc)
       (\<lambda>m \<sigma>. (t, Read False (zip (buf_cells V m r a oty oc) (win_cells V m w t d tty tc)))))"

definition get_accumulate_law :: "'m mpi_view \<Rightarrow> (int \<Rightarrow> 'm world mpi) \<Rightarrow> bool" where
  "get_accumulate_law V mpi \<longleftrightarrow> (\<forall>r a oc oty t d tc tty w.
     issues V mpi r (MPI_Get_accumulate a oc oty t d tc tty MPI_NO_OP w) w (transfer_ok V oty oc tty tc)
       (\<lambda>m \<sigma>. (t, Read True (zip (buf_cells V m r a oty oc) (win_cells V m w t d tty tc)))))"

definition fetch_law :: "'m mpi_view \<Rightarrow> (int \<Rightarrow> 'm world mpi) \<Rightarrow> bool" where
  "fetch_law V mpi \<longleftrightarrow> (\<forall>r v ty t d oper w.
     predefined ty \<longrightarrow> predef_size ty \<le> 8 \<longrightarrow>
     (oper = MPI_REPLACE \<and> v \<noteq> None \<or> oper = MPI_NO_OP
      \<or> oper = MPI_SUM \<and> v \<noteq> None \<and> integer_type ty) \<longrightarrow>
     fetches V mpi r (MPI_Fetch_and_op v ty t d oper w) w (atomic_cells V w t d ty)
       (\<lambda>old. op_value oper old (case v of Some x \<Rightarrow> x | None \<Rightarrow> 0)))"

definition cas_law :: "'m mpi_view \<Rightarrow> (int \<Rightarrow> 'm world mpi) \<Rightarrow> bool" where
  "cas_law V mpi \<longleftrightarrow> (\<forall>r v c ty t d w. integer_type ty \<longrightarrow>
     fetches V mpi r (MPI_Compare_and_swap v c ty t d w) w (atomic_cells V w t d ty)
       (\<lambda>old. if old = take_bit (8 * predef_size ty) c then v else old))"

definition flush_laws :: "'m mpi_view \<Rightarrow> (int \<Rightarrow> 'm world mpi) \<Rightarrow> bool" where
  "flush_laws V mpi \<longleftrightarrow>
     (\<forall>r t w. completes V mpi r (MPI_Win_flush_local t w) w
        (\<lambda>x. fst x \<noteq> t \<or> \<not> is_read (snd x)))
   \<and> (\<forall>r t w. completes V mpi r (MPI_Win_flush t w) w (\<lambda>x. fst x \<noteq> t))
   \<and> (\<forall>r w. completes V mpi r (MPI_Win_flush_all w) w (\<lambda>x. False))"

text \<open>A call that neither communicates nor touches a handle.\<close>

definition neutral :: "'m mpi_view \<Rightarrow> (int \<Rightarrow> 'm world mpi) \<Rightarrow> int \<Rightarrow> eff \<Rightarrow> (resp \<Rightarrow> bool) \<Rightarrow> bool"
  where
  "neutral V mpi r e ok \<longleftrightarrow>
     (\<forall>m \<sigma>. \<exists>resp m'. mpi r e (m, \<sigma>) = (resp, m', \<sigma>) \<and> ok resp \<and>
        same_types V m m' \<and> in_flight V m' = in_flight V m)"

definition sync_law :: "'m mpi_view \<Rightarrow> (int \<Rightarrow> 'm world mpi) \<Rightarrow> bool" where
  "sync_law V mpi \<longleftrightarrow> (\<forall>r w. neutral V mpi r (Rma (MPI_Win_sync w)) (\<lambda>_. True))"

definition rma_laws :: "'m mpi_view \<Rightarrow> (int \<Rightarrow> 'm world mpi) \<Rightarrow> bool" where
  "rma_laws V mpi \<longleftrightarrow>
     put_law V mpi \<and> replace_law V mpi \<and> sum_law V mpi \<and> get_law V mpi \<and>
     get_accumulate_law V mpi \<and> fetch_law V mpi \<and> cas_law V mpi \<and> flush_laws V mpi \<and>
     sync_law V mpi"

section \<open>Laws of datatypes\<close>

text \<open>A constructor answers with a handle that is not live yet and gives it a type map.\<close>

definition constructs ::
    "'m mpi_view \<Rightarrow> (int \<Rightarrow> 'm world mpi) \<Rightarrow> int \<Rightarrow> type_call \<Rightarrow> ('m \<Rightarrow> int list) \<Rightarrow> bool" where
  "constructs V mpi r c tm \<longleftrightarrow>
     (\<forall>m \<sigma>. \<exists>h m'. mpi r (Ty c) (m, \<sigma>) = (RType (Derived h), m', \<sigma>) \<and>
        h \<notin> live V m \<and> live V m' = insert h (live V m) \<and>
        typemap V m' = (typemap V m)(Derived h := tm m) \<and> in_flight V m' = in_flight V m)"

definition predef_law :: "'m mpi_view \<Rightarrow> bool" where
  "predef_law V \<longleftrightarrow> (\<forall>m ty. predefined ty \<longrightarrow> typemap V m ty = predef_map ty)"

definition vector_law :: "'m mpi_view \<Rightarrow> (int \<Rightarrow> 'm world mpi) \<Rightarrow> bool" where
  "vector_law V mpi \<longleftrightarrow> (\<forall>r c b s ty. 0 \<le> c \<longrightarrow> 0 \<le> b \<longrightarrow> predefined ty \<longrightarrow>
     constructs V mpi r (MPI_Type_vector c b s ty)
       (\<lambda>m. vector_map (nat c) (nat b) s (int (predef_size ty)) (typemap V m ty)))"

definition contiguous_law :: "'m mpi_view \<Rightarrow> (int \<Rightarrow> 'm world mpi) \<Rightarrow> bool" where
  "contiguous_law V mpi \<longleftrightarrow> (\<forall>r c ty. 0 \<le> c \<longrightarrow> predefined ty \<longrightarrow>
     constructs V mpi r (MPI_Type_contiguous c ty)
       (\<lambda>m. repeat_map (nat c) (int (predef_size ty)) (typemap V m ty)))"

definition struct_law :: "'m mpi_view \<Rightarrow> (int \<Rightarrow> 'm world mpi) \<Rightarrow> bool" where
  "struct_law V mpi \<longleftrightarrow> (\<forall>r bl. (\<forall>x\<in>set bl. fst x = 1) \<longrightarrow>
     constructs V mpi r (MPI_Type_create_struct bl)
       (\<lambda>m. concat (map (\<lambda>x. shift_map (fst (snd x)) (typemap V m (snd (snd x)))) bl)))"

definition type_query_law :: "'m mpi_view \<Rightarrow> (int \<Rightarrow> 'm world mpi) \<Rightarrow> bool" where
  "type_query_law V mpi \<longleftrightarrow> (\<forall>r ty. predefined ty \<longrightarrow>
     neutral V mpi r (Ty (MPI_Type_get_extent ty)) (\<lambda>x. x = RInt (int (predef_size ty))) \<and>
     neutral V mpi r (Ty (MPI_Type_size ty)) (\<lambda>x. x = RInt (int (predef_size ty))))"

definition commit_law :: "'m mpi_view \<Rightarrow> (int \<Rightarrow> 'm world mpi) \<Rightarrow> bool" where
  "commit_law V mpi \<longleftrightarrow> (\<forall>r ty. neutral V mpi r (Ty (MPI_Type_commit ty)) (\<lambda>_. True))"

definition type_free_law :: "'m mpi_view \<Rightarrow> (int \<Rightarrow> 'm world mpi) \<Rightarrow> bool" where
  "type_free_law V mpi \<longleftrightarrow>
     (\<forall>r h m \<sigma>. \<exists>resp m'. mpi r (Ty (MPI_Type_free (Derived h))) (m, \<sigma>) = (resp, m', \<sigma>)
        \<and> live V m' = live V m - {h}
        \<and> (\<forall>ty. ty \<noteq> Derived h \<longrightarrow> typemap V m' ty = typemap V m ty)
        \<and> in_flight V m' = in_flight V m)"

definition type_laws :: "'m mpi_view \<Rightarrow> (int \<Rightarrow> 'm world mpi) \<Rightarrow> bool" where
  "type_laws V mpi \<longleftrightarrow>
     predef_law V \<and> vector_law V mpi \<and> contiguous_law V mpi \<and> struct_law V mpi \<and>
     type_query_law V mpi \<and> commit_law V mpi \<and> type_free_law V mpi"

section \<open>Using the laws\<close>

lemma issuesE:
  assumes "issues V mpi r c w ok oper" "ok m"
  obtains resp m' where "mpi r (Rma c) (m, \<sigma>) = (resp, m', \<sigma>)" "same_types V m m'"
    "flight_upd V m r w (in_flight V m r w @ [oper m \<sigma>]) m'"
  using assms(1) [unfolded issues_def, rule_format, of m \<sigma>, OF assms(2)] by blast

lemma completesE:
  assumes "completes V mpi r c w left"
  obtains resp m' don rest where "mpi r (Rma c) (m, \<sigma>) = (resp, m', apply_ops don \<sigma>)"
    "same_types V m m'" "legal_order (in_flight V m r w) (don @ rest)"
    "\<forall>x\<in>set rest. left x" "flight_upd V m r w rest m'"
  using assms [unfolded completes_def, rule_format, of m \<sigma>] by blast

lemma fetchesE:
  assumes "fetches V mpi r c w cs upd" "in_flight V m r w = []"
  obtains m' where
    "mpi r (Rma c) (m, \<sigma>) = (RVal (read_val cs \<sigma>), m', write_val cs (upd (read_val cs \<sigma>)) \<sigma>)"
    "same_types V m m'" "flight_upd V m r w [] m'"
  using assms(1) [unfolded fetches_def, rule_format, of m \<sigma>, OF assms(2)] by blast

lemma constructsE:
  assumes "constructs V mpi r c tm"
  obtains h m' where "mpi r (Ty c) (m, \<sigma>) = (RType (Derived h), m', \<sigma>)"
    "h \<notin> live V m" "live V m' = insert h (live V m)"
    "typemap V m' = (typemap V m)(Derived h := tm m)" "in_flight V m' = in_flight V m"
  using assms [unfolded constructs_def, rule_format, of m \<sigma>] by blast

lemma neutralE:
  assumes "neutral V mpi r e ok"
  obtains resp m' where "mpi r e (m, \<sigma>) = (resp, m', \<sigma>)" "ok resp"
    "same_types V m m'" "in_flight V m' = in_flight V m"
  using assms [unfolded neutral_def, rule_format, of m \<sigma>] by blast

lemma type_freeE:
  assumes "type_laws V mpi"
  obtains resp m' where "mpi r (Ty (MPI_Type_free (Derived h))) (m, \<sigma>) = (resp, m', \<sigma>)"
    "live V m' = live V m - {h}" "\<forall>ty. ty \<noteq> Derived h \<longrightarrow> typemap V m' ty = typemap V m ty"
    "in_flight V m' = in_flight V m"
proof -
  have "type_free_law V mpi"
    using assms by (simp add: type_laws_def)
  from this [unfolded type_free_law_def, rule_format, of r h m \<sigma>] that show ?thesis by blast
qed

lemma type_lawsD:
  assumes "type_laws V mpi"
  shows "predefined ty \<Longrightarrow> typemap V m ty = predef_map ty"
    and "0 \<le> c \<Longrightarrow> 0 \<le> b \<Longrightarrow> predefined ty \<Longrightarrow> constructs V mpi r (MPI_Type_vector c b s ty)
          (\<lambda>m. vector_map (nat c) (nat b) s (int (predef_size ty)) (typemap V m ty))"
    and "0 \<le> c \<Longrightarrow> predefined ty \<Longrightarrow> constructs V mpi r (MPI_Type_contiguous c ty)
          (\<lambda>m. repeat_map (nat c) (int (predef_size ty)) (typemap V m ty))"
    and "(\<forall>x\<in>set bl. fst x = 1) \<Longrightarrow> constructs V mpi r (MPI_Type_create_struct bl)
          (\<lambda>m. concat (map (\<lambda>x. shift_map (fst (snd x)) (typemap V m (snd (snd x)))) bl))"
    and "predefined ty \<Longrightarrow>
          neutral V mpi r (Ty (MPI_Type_get_extent ty)) (\<lambda>x. x = RInt (int (predef_size ty)))"
    and "predefined ty \<Longrightarrow>
          neutral V mpi r (Ty (MPI_Type_size ty)) (\<lambda>x. x = RInt (int (predef_size ty)))"
    and "neutral V mpi r (Ty (MPI_Type_commit t)) (\<lambda>_. True)"
proof -
  have l: "predef_law V" "vector_law V mpi" "contiguous_law V mpi" "struct_law V mpi"
    "type_query_law V mpi" "commit_law V mpi"
    using assms by (simp_all add: type_laws_def)
  show "predefined ty \<Longrightarrow> typemap V m ty = predef_map ty"
    using l(1) unfolding predef_law_def by blast
  show "0 \<le> c \<Longrightarrow> 0 \<le> b \<Longrightarrow> predefined ty \<Longrightarrow> constructs V mpi r (MPI_Type_vector c b s ty)
      (\<lambda>m. vector_map (nat c) (nat b) s (int (predef_size ty)) (typemap V m ty))"
    using l(2) unfolding vector_law_def by blast
  show "0 \<le> c \<Longrightarrow> predefined ty \<Longrightarrow> constructs V mpi r (MPI_Type_contiguous c ty)
      (\<lambda>m. repeat_map (nat c) (int (predef_size ty)) (typemap V m ty))"
    using l(3) unfolding contiguous_law_def by blast
  show "(\<forall>x\<in>set bl. fst x = 1) \<Longrightarrow> constructs V mpi r (MPI_Type_create_struct bl)
      (\<lambda>m. concat (map (\<lambda>x. shift_map (fst (snd x)) (typemap V m (snd (snd x)))) bl))"
    using l(4) unfolding struct_law_def by blast
  show "predefined ty \<Longrightarrow>
      neutral V mpi r (Ty (MPI_Type_get_extent ty)) (\<lambda>x. x = RInt (int (predef_size ty)))"
    using l(5) unfolding type_query_law_def by blast
  show "predefined ty \<Longrightarrow>
      neutral V mpi r (Ty (MPI_Type_size ty)) (\<lambda>x. x = RInt (int (predef_size ty)))"
    using l(5) unfolding type_query_law_def by blast
  show "neutral V mpi r (Ty (MPI_Type_commit t)) (\<lambda>_. True)"
    using l(6) unfolding commit_law_def by blast
qed

lemma rma_lawsD:
  assumes "rma_laws V mpi"
  shows "issues V mpi r (MPI_Put a oc oty t d tc tty w) w (transfer_ok V tty tc oty oc)
          (\<lambda>m \<sigma>. (t, Write False (zip (win_cells V m w t d tty tc)
                                      (map \<sigma> (buf_cells V m r a oty oc)))))"
    and "issues V mpi r (MPI_Accumulate (Buf a) oc oty t d tc tty MPI_REPLACE w) w (transfer_ok V tty tc oty oc)
          (\<lambda>m \<sigma>. (t, Write True (zip (win_cells V m w t d tty tc)
                                     (map \<sigma> (buf_cells V m r a oty oc)))))"
    and "integer_type ty \<Longrightarrow>
          issues V mpi r (MPI_Accumulate (Val v) 1 ty t d 1 ty MPI_SUM w) w (\<lambda>_. True)
            (\<lambda>m \<sigma>. (t, Update (atomic_cells V w t d ty) v))"
    and "issues V mpi r (MPI_Get a oc oty t d tc tty w) w (transfer_ok V oty oc tty tc)
          (\<lambda>m \<sigma>. (t, Read False (zip (buf_cells V m r a oty oc) (win_cells V m w t d tty tc))))"
    and "issues V mpi r (MPI_Get_accumulate a oc oty t d tc tty MPI_NO_OP w) w (transfer_ok V oty oc tty tc)
          (\<lambda>m \<sigma>. (t, Read True (zip (buf_cells V m r a oty oc) (win_cells V m w t d tty tc))))"
    and "completes V mpi r (MPI_Win_flush_local t w) w (\<lambda>x. fst x \<noteq> t \<or> \<not> is_read (snd x))"
    and "completes V mpi r (MPI_Win_flush t w) w (\<lambda>x. fst x \<noteq> t)"
    and "completes V mpi r (MPI_Win_flush_all w) w (\<lambda>x. False)"
    and "neutral V mpi r (Rma (MPI_Win_sync w)) (\<lambda>_. True)"
  using assms
  by (simp_all add: rma_laws_def put_law_def replace_law_def sum_law_def get_law_def
      get_accumulate_law_def flush_laws_def sync_law_def)

lemma rma_lawsD_fetch:
  assumes "rma_laws V mpi" "predefined ty" "predef_size ty \<le> 8"
  shows "fetches V mpi r (MPI_Fetch_and_op (Some v) ty t d MPI_REPLACE w) w
          (atomic_cells V w t d ty) (\<lambda>old. v)"
    and "fetches V mpi r (MPI_Fetch_and_op None ty t d MPI_NO_OP w) w
          (atomic_cells V w t d ty) (\<lambda>old. old)"
    and "integer_type ty \<Longrightarrow>
         fetches V mpi r (MPI_Fetch_and_op (Some v) ty t d MPI_SUM w) w
          (atomic_cells V w t d ty) (\<lambda>old. old + v)"
    and "integer_type ty \<Longrightarrow>
         fetches V mpi r (MPI_Compare_and_swap v c ty t d w) w (atomic_cells V w t d ty)
          (\<lambda>old. if old = take_bit (8 * predef_size ty) c then v else old)"
proof -
  have f: "fetch_law V mpi" and c: "cas_law V mpi"
    using assms(1) by (simp_all add: rma_laws_def)
  show "fetches V mpi r (MPI_Fetch_and_op (Some v) ty t d MPI_REPLACE w) w
      (atomic_cells V w t d ty) (\<lambda>old. v)"
    using f [unfolded fetch_law_def, rule_format, OF assms(2,3), of MPI_REPLACE "Some v" r t d w]
    by (simp add: op_value_def)
  show "fetches V mpi r (MPI_Fetch_and_op None ty t d MPI_NO_OP w) w
      (atomic_cells V w t d ty) (\<lambda>old. old)"
    using f [unfolded fetch_law_def, rule_format, OF assms(2,3), of MPI_NO_OP None r t d w]
    by (simp add: op_value_def)
  show "fetches V mpi r (MPI_Fetch_and_op (Some v) ty t d MPI_SUM w) w
      (atomic_cells V w t d ty) (\<lambda>old. old + v)" if "integer_type ty"
    using f [unfolded fetch_law_def, rule_format, OF assms(2,3), of MPI_SUM "Some v" r t d w] that
    by (simp add: op_value_def)
  show "fetches V mpi r (MPI_Compare_and_swap v c ty t d w) w (atomic_cells V w t d ty)
      (\<lambda>old. if old = take_bit (8 * predef_size ty) c then v else old)"
    if "integer_type ty"
    using c that by (simp add: cas_law_def)
qed

section \<open>The world of a PE\<close>

definition world :: "'m mpi_view \<Rightarrow> (int \<Rightarrow> 'm world mpi) \<Rightarrow> int \<Rightarrow> 'm world mpi" where
  "world V mpi r e s =
     (case e of
        Mem oper \<Rightarrow> (case mem_step (vmap V r) oper (snd s) of (resp, \<sigma>') \<Rightarrow> (resp, fst s, \<sigma>'))
      | _ \<Rightarrow> mpi r e s)"

lemma world_simps [simp]:
  "world V mpi r (Mem oper) (m, \<sigma>) =
     (fst (mem_step (vmap V r) oper \<sigma>), m, snd (mem_step (vmap V r) oper \<sigma>))"
  "world V mpi r (Rma c) s = mpi r (Rma c) s"
  "world V mpi r (Ty t) s = mpi r (Ty t) s"
  "world V mpi r (Com c') s = mpi r (Com c') s"
  "world V mpi r (Env e) s = mpi r (Env e) s"
  by (auto simp: world_def split: prod.split)

text \<open>Only handles have changed: the settled memory and what is in flight are as they were.\<close>

definition still :: "'m mpi_view \<Rightarrow> 'm \<Rightarrow> store \<Rightarrow> 'm world \<Rightarrow> bool" where
  "still V m \<sigma> s \<longleftrightarrow> in_flight V (fst s) = in_flight V m \<and> snd s = \<sigma>"

lemma still_refl [simp]: "still V m \<sigma> (m, \<sigma>)"
  by (simp add: still_def)

section \<open>Postconditions of single calls\<close>

lemma ends_issue:
  assumes "issues V mpi r c w ok oper" "ok m"
    and "\<And>m'. same_types V m m' \<Longrightarrow> flight_upd V m r w (in_flight V m r w @ [oper m \<sigma>]) m'
      \<Longrightarrow> Q () (m', \<sigma>)"
  shows "ends (world V mpi r) (call (Rma c)) (m, \<sigma>) Q"
  by (rule issuesE [OF assms(1,2), of \<sigma>], rule ends_call) (simp, (rule assms(3); assumption))

lemma ends_complete:
  assumes "completes V mpi r c w left"
    and "\<And>m' don rest. same_types V m m' \<Longrightarrow> legal_order (in_flight V m r w) (don @ rest) \<Longrightarrow>
      \<forall>x\<in>set rest. left x \<Longrightarrow> flight_upd V m r w rest m' \<Longrightarrow> Q () (m', apply_ops don \<sigma>)"
  shows "ends (world V mpi r) (call (Rma c)) (m, \<sigma>) Q"
  by (rule completesE [OF assms(1), of m \<sigma>], rule ends_call) (simp, (rule assms(2); assumption))

lemma ends_fetch:
  assumes "fetches V mpi r c w cs upd" "in_flight V m r w = []"
    and "\<And>m'. same_types V m m' \<Longrightarrow> flight_upd V m r w [] m' \<Longrightarrow>
      Q (read_val cs \<sigma>) (m', write_val cs (upd (read_val cs \<sigma>)) \<sigma>)"
  shows "ends (world V mpi r) (call_val (Rma c)) (m, \<sigma>) Q"
  by (rule fetchesE [OF assms(1,2), of \<sigma>], rule ends_call_val) (simp, (rule assms(3); assumption))

lemma ends_construct:
  assumes "constructs V mpi r c tm"
    and "\<And>h m'. h \<notin> live V m \<Longrightarrow> live V m' = insert h (live V m) \<Longrightarrow>
      typemap V m' = (typemap V m)(Derived h := tm m) \<Longrightarrow> in_flight V m' = in_flight V m \<Longrightarrow>
      Q (Derived h) (m', \<sigma>)"
  shows "ends (world V mpi r) (call_type (Ty c)) (m, \<sigma>) Q"
  by (rule constructsE [OF assms(1), of m \<sigma>], rule ends_call_type) (simp, (rule assms(2); assumption))

lemma ends_neutral:
  assumes "neutral V mpi r e ok" "\<And>s. world V mpi r e s = mpi r e s"
    and "\<And>m'. same_types V m m' \<Longrightarrow> in_flight V m' = in_flight V m \<Longrightarrow> Q () (m', \<sigma>)"
  shows "ends (world V mpi r) (call e) (m, \<sigma>) Q"
  by (rule neutralE [OF assms(1), of m \<sigma>], rule ends_call) (simp add: assms(2), (rule assms(3); assumption))

lemma ends_neutral_int:
  assumes "neutral V mpi r e (\<lambda>x. x = RInt i)" "\<And>s. world V mpi r e s = mpi r e s"
    and "\<And>m'. same_types V m m' \<Longrightarrow> in_flight V m' = in_flight V m \<Longrightarrow> Q i (m', \<sigma>)"
  shows "ends (world V mpi r) (call_int e) (m, \<sigma>) Q"
  by (rule neutralE [OF assms(1), of m \<sigma>], rule ends_call_int) (simp add: assms(2), (rule assms(3); assumption))

lemma ends_type_free:
  assumes "type_laws V mpi"
    and "\<And>m'. live V m' = live V m - {h} \<Longrightarrow>
      \<forall>ty. ty \<noteq> Derived h \<longrightarrow> typemap V m' ty = typemap V m ty \<Longrightarrow>
      in_flight V m' = in_flight V m \<Longrightarrow> Q () (m', \<sigma>)"
  shows "ends (world V mpi r) (call (Ty (MPI_Type_free (Derived h)))) (m, \<sigma>) Q"
  by (rule type_freeE [OF assms(1), of r h m \<sigma>], rule ends_call) (simp, (rule assms(2); assumption))

lemma ends_mem:
  assumes "mem_step (vmap V r) oper \<sigma> = (resp, \<sigma>')" "Q () (m, \<sigma>')"
  shows "ends (world V mpi r) (call (Mem oper)) (m, \<sigma>) Q"
  by (rule ends_call) (simp add: assms(1), rule assms(2))

lemma ends_mem_val:
  assumes "mem_step (vmap V r) oper \<sigma> = (RVal v, \<sigma>')" "Q v (m, \<sigma>')"
  shows "ends (world V mpi r) (call_val (Mem oper)) (m, \<sigma>) Q"
  by (rule ends_call_val) (simp add: assms(1), rule assms(2))

lemma ends_load:
  assumes "Q (map \<sigma> (range_at (vmap V r) a n)) (m, \<sigma>)"
  shows "ends (world V mpi r) (call_bytes (Mem (Load a n))) (m, \<sigma>) Q"
  by (rule ends_call_bytes) (simp, rule assms)

end
