(* ===== verification/Mpi_Reference.thy ===== *)
theory Mpi_Reference
  imports Mpi_Laws
begin

text \<open>
  A library that satisfies the laws of \<open>Mpi_Laws\<close>: operations queue per origin and window,
  handles are numbered. It is only used to show that the hypotheses of the data-movement
  theorems can hold. With \<open>lazy\<close> it delays what the standard lets it delay: a local flush
  leaves writes in flight, and a flush applies writes that are not ordered in reverse.
\<close>

record ref_state =
  queue :: "int \<Rightarrow> mpi_win \<Rightarrow> flight"
  maps :: "nat \<Rightarrow> int list"
  handles :: "nat list"

definition ref_typemap :: "ref_state \<Rightarrow> mpi_type \<Rightarrow> int list" where
  "ref_typemap m ty =
     (if predefined ty then predef_map ty
      else case ty of Derived h \<Rightarrow> maps m h | _ \<Rightarrow> [])"

definition ref_view ::
    "(int \<Rightarrow> addr \<Rightarrow> cell) \<Rightarrow> (mpi_win \<Rightarrow> int \<Rightarrow> addr) \<Rightarrow> ref_state mpi_view" where
  "ref_view vm wb =
     \<lparr>in_flight = queue, typemap = ref_typemap, live = (\<lambda>m. set (handles m)),
      vmap = vm, window_base = wb\<rparr>"

definition enqueue :: "int \<Rightarrow> mpi_win \<Rightarrow> int \<times> rma_op \<Rightarrow> ref_state \<Rightarrow> ref_state" where
  "enqueue r w x m = m\<lparr>queue := (queue m)(r := (queue m r)(w := queue m r w @ [x]))\<rparr>"

definition dequeue_all :: "int \<Rightarrow> mpi_win \<Rightarrow> ref_state \<Rightarrow> ref_state" where
  "dequeue_all r w m = m\<lparr>queue := (queue m)(r := (queue m r)(w := []))\<rparr>"

definition flush_order :: "bool \<Rightarrow> flight \<Rightarrow> flight" where
  "flush_order lazy xs = (if lazy \<and> (\<forall>x\<in>set xs. \<not> ordered_op (snd x)) then rev xs else xs)"

definition fresh_handle :: "ref_state \<Rightarrow> nat" where
  "fresh_handle m = Suc (sum_list (handles m))"

definition new_type :: "int list \<Rightarrow> ref_state \<Rightarrow> resp \<times> ref_state" where
  "new_type tm m =
     (RType (Derived (fresh_handle m)),
      m\<lparr>maps := (maps m)(fresh_handle m := tm), handles := fresh_handle m # handles m\<rparr>)"

fun ref_rma ::
    "bool \<Rightarrow> ref_state mpi_view \<Rightarrow> int \<Rightarrow> rma_call \<Rightarrow> ref_state world \<Rightarrow>
     resp \<times> ref_state world" where
  "ref_rma lazy V r (MPI_Put a oc oty t d tc tty w) (m, \<sigma>) =
     (RUnit, enqueue r w (t, Write False (zip (win_cells V m w t d tty tc)
                                (map \<sigma> (buf_cells V m r a oty oc)))) m, \<sigma>)"
| "ref_rma lazy V r (MPI_Accumulate (Buf a) oc oty t d tc tty oper w) (m, \<sigma>) =
     (RUnit, enqueue r w (t, Write True (zip (win_cells V m w t d tty tc)
                                (map \<sigma> (buf_cells V m r a oty oc)))) m, \<sigma>)"
| "ref_rma lazy V r (MPI_Accumulate (Val v) oc oty t d tc tty oper w) (m, \<sigma>) =
     (RUnit, enqueue r w (t, Update (atomic_cells V w t d tty) v) m, \<sigma>)"
| "ref_rma lazy V r (MPI_Get a oc oty t d tc tty w) (m, \<sigma>) =
     (RUnit, enqueue r w (t, Read False (zip (buf_cells V m r a oty oc)
                                (win_cells V m w t d tty tc))) m, \<sigma>)"
| "ref_rma lazy V r (MPI_Get_accumulate a oc oty t d tc tty oper w) (m, \<sigma>) =
     (RUnit, enqueue r w (t, Read True (zip (buf_cells V m r a oty oc)
                                (win_cells V m w t d tty tc))) m, \<sigma>)"
| "ref_rma lazy V r (MPI_Fetch_and_op v ty t d oper w) (m, \<sigma>) =
     (let cs = atomic_cells V w t d ty; old = read_val cs \<sigma>
      in (RVal old, m,
          write_val cs (op_value oper old (case v of Some x \<Rightarrow> x | None \<Rightarrow> 0)) \<sigma>))"
| "ref_rma lazy V r (MPI_Compare_and_swap v c ty t d w) (m, \<sigma>) =
     (let cs = atomic_cells V w t d ty; old = read_val cs \<sigma>
      in (RVal old, m,
          write_val cs (if old = take_bit (8 * predef_size ty) c then v else old) \<sigma>))"
| "ref_rma lazy V r (MPI_Win_flush t w) (m, \<sigma>) =
     (RUnit, dequeue_all r w m, apply_ops (flush_order lazy (queue m r w)) \<sigma>)"
| "ref_rma lazy V r (MPI_Win_flush_all w) (m, \<sigma>) =
     (RUnit, dequeue_all r w m, apply_ops (flush_order lazy (queue m r w)) \<sigma>)"
| "ref_rma lazy V r (MPI_Win_flush_local t w) (m, \<sigma>) =
     (if lazy \<and> (\<forall>x\<in>set (queue m r w). \<not> is_read (snd x)) then (RUnit, m, \<sigma>)
      else (RUnit, dequeue_all r w m, apply_ops (queue m r w) \<sigma>))"
| "ref_rma lazy V r (MPI_Win_sync w) (m, \<sigma>) = (RUnit, m, \<sigma>)"

fun ref_type :: "type_call \<Rightarrow> ref_state \<Rightarrow> resp \<times> ref_state" where
  "ref_type (MPI_Type_vector c b s ty) m =
     new_type (vector_map (nat c) (nat b) s (int (predef_size ty)) (ref_typemap m ty)) m"
| "ref_type (MPI_Type_contiguous c ty) m =
     new_type (repeat_map (nat c) (int (predef_size ty)) (ref_typemap m ty)) m"
| "ref_type (MPI_Type_create_struct bl) m =
     new_type (concat (map (\<lambda>x. shift_map (fst (snd x)) (ref_typemap m (snd (snd x)))) bl)) m"
| "ref_type (MPI_Type_get_extent ty) m = (RInt (int (predef_size ty)), m)"
| "ref_type (MPI_Type_size ty) m = (RInt (int (predef_size ty)), m)"
| "ref_type (MPI_Type_commit ty) m = (RUnit, m)"
| "ref_type (MPI_Type_free ty) m =
     (RUnit, case ty of Derived h \<Rightarrow> m\<lparr>handles := removeAll h (handles m)\<rparr> | _ \<Rightarrow> m)"

fun reference_mpi ::
    "bool \<Rightarrow> ref_state mpi_view \<Rightarrow> int \<Rightarrow> eff \<Rightarrow> ref_state world \<Rightarrow> resp \<times> ref_state world" where
  "reference_mpi lazy V r (Rma c) s = ref_rma lazy V r c s"
| "reference_mpi lazy V r (Ty c) (m, \<sigma>) = (case ref_type c m of (x, m') \<Rightarrow> (x, m', \<sigma>))"
| "reference_mpi lazy V r e s = (RUnit, s)"

lemma fresh_handle: "fresh_handle m \<notin> set (handles m)"
  using member_le_sum_list [of "fresh_handle m" "handles m"] by (auto simp: fresh_handle_def)

lemma legal_flush_order: "legal_order xs (flush_order lazy xs)"
  by (auto simp: flush_order_def legal_order_def ordered_at_def filter_empty_conv)

lemma ref_view_simps [simp]:
  "in_flight (ref_view vm wb) = queue"
  "typemap (ref_view vm wb) = ref_typemap"
  "live (ref_view vm wb) m = set (handles m)"
  "vmap (ref_view vm wb) = vm"
  "window_base (ref_view vm wb) = wb"
  by (simp_all add: ref_view_def)

lemma enqueue_simps [simp]:
  "queue (enqueue r w x m) = (queue m)(r := (queue m r)(w := queue m r w @ [x]))"
  "ref_typemap (enqueue r w x m) = ref_typemap m"
  "handles (enqueue r w x m) = handles m"
  by (auto simp: enqueue_def ref_typemap_def fun_eq_iff split: mpi_type.split)

lemma dequeue_simps [simp]:
  "queue (dequeue_all r w m) = (queue m)(r := (queue m r)(w := []))"
  "ref_typemap (dequeue_all r w m) = ref_typemap m"
  "handles (dequeue_all r w m) = handles m"
  by (auto simp: dequeue_all_def ref_typemap_def fun_eq_iff split: mpi_type.split)

lemma reference_completes:
  assumes "\<And>m \<sigma>. \<exists>resp don rest m'. ref_rma lazy (ref_view vm wb) r c (m, \<sigma>) =
      (resp, m', apply_ops don \<sigma>) \<and> legal_order (queue m r w) (don @ rest) \<and>
      (\<forall>x\<in>set rest. left x) \<and> queue m' = (queue m)(r := (queue m r)(w := rest)) \<and>
      ref_typemap m' = ref_typemap m \<and> handles m' = handles m"
  shows "completes (ref_view vm wb) (reference_mpi lazy (ref_view vm wb)) r c w left"
proof -
  have "\<exists>resp m' don rest. reference_mpi lazy (ref_view vm wb) r (Rma c) (m, \<sigma>)
          = (resp, m', apply_ops don \<sigma>) \<and> same_types (ref_view vm wb) m m' \<and>
        legal_order (in_flight (ref_view vm wb) m r w) (don @ rest) \<and>
        (\<forall>x\<in>set rest. left x) \<and> flight_upd (ref_view vm wb) m r w rest m'" for m \<sigma>
  proof -
    obtain resp don rest m' where a: "ref_rma lazy (ref_view vm wb) r c (m, \<sigma>) =
        (resp, m', apply_ops don \<sigma>)" "legal_order (queue m r w) (don @ rest)"
        "\<forall>x\<in>set rest. left x" "queue m' = (queue m)(r := (queue m r)(w := rest))"
        "ref_typemap m' = ref_typemap m" "handles m' = handles m"
      using assms by metis
    then have "same_types (ref_view vm wb) m m' \<and> flight_upd (ref_view vm wb) m r w rest m'"
      by (simp add: same_types_def flight_upd_def fun_eq_iff)
    with a show ?thesis by auto
  qed
  then show ?thesis
    unfolding completes_def by blast
qed

lemma same_types_refl [simp]: "same_types V m m"
  by (simp add: same_types_def)

lemma reference_rma_laws: "rma_laws (ref_view vm wb) (reference_mpi lazy (ref_view vm wb))"
proof -
  let ?V = "ref_view vm wb"
  have flush_local: "completes ?V (reference_mpi lazy ?V) r (MPI_Win_flush_local t w) w
      (\<lambda>x. fst x \<noteq> t \<or> \<not> is_read (snd x))" for r t w
  proof (rule reference_completes)
    fix m \<sigma>
    show "\<exists>resp don rest m'. ref_rma lazy ?V r (MPI_Win_flush_local t w) (m, \<sigma>) =
        (resp, m', apply_ops don \<sigma>) \<and> legal_order (queue m r w) (don @ rest) \<and>
        (\<forall>x\<in>set rest. fst x \<noteq> t \<or> \<not> is_read (snd x)) \<and>
        queue m' = (queue m)(r := (queue m r)(w := rest)) \<and>
        ref_typemap m' = ref_typemap m \<and> handles m' = handles m"
    proof (cases "lazy \<and> (\<forall>x\<in>set (queue m r w). \<not> is_read (snd x))")
      case True
      then show ?thesis
        by (intro exI [of _ RUnit] exI [of _ "[]"] exI [of _ "queue m r w"] exI [of _ m]) auto
    next
      case False
      then show ?thesis
        by (intro exI [of _ RUnit] exI [of _ "queue m r w"] exI [of _ "[]"]
            exI [of _ "dequeue_all r w m"]) auto
    qed
  qed
  have all: "completes ?V (reference_mpi lazy ?V) r c w left"
    if "\<And>m \<sigma>. ref_rma lazy ?V r c (m, \<sigma>)
        = (RUnit, dequeue_all r w m, apply_ops (flush_order lazy (queue m r w)) \<sigma>)" for r c w left
  proof (rule reference_completes)
    fix m \<sigma>
    show "\<exists>resp don rest m'. ref_rma lazy ?V r c (m, \<sigma>) =
        (resp, m', apply_ops don \<sigma>) \<and> legal_order (queue m r w) (don @ rest) \<and>
        (\<forall>x\<in>set rest. left x) \<and> queue m' = (queue m)(r := (queue m r)(w := rest)) \<and>
        ref_typemap m' = ref_typemap m \<and> handles m' = handles m"
      by (intro exI [of _ RUnit] exI [of _ "flush_order lazy (queue m r w)"] exI [of _ "[]"]
          exI [of _ "dequeue_all r w m"]) (simp add: that legal_flush_order)
  qed
  have issues: "issues ?V (reference_mpi lazy ?V) r c w ok oper"
    if "\<And>m \<sigma>. ref_rma lazy ?V r c (m, \<sigma>) = (RUnit, enqueue r w (oper m \<sigma>) m, \<sigma>)" for r c w ok oper
    unfolding issues_def by (simp add: that same_types_def flight_upd_def fun_eq_iff)
  have fetches: "fetches ?V (reference_mpi lazy ?V) r c w cs upd"
    if "\<And>m \<sigma>. ref_rma lazy ?V r c (m, \<sigma>)
        = (RVal (read_val cs \<sigma>), m, write_val cs (upd (read_val cs \<sigma>)) \<sigma>)" for r c w cs upd
    unfolding fetches_def by (auto simp: that flight_upd_def fun_eq_iff)
  have put: "put_law ?V (reference_mpi lazy ?V)"
    unfolding put_law_def by (intro allI issues) simp
  have replace: "replace_law ?V (reference_mpi lazy ?V)"
    unfolding replace_law_def by (intro allI issues) simp
  have sum: "sum_law ?V (reference_mpi lazy ?V)"
    unfolding sum_law_def by (intro allI impI issues) simp
  have get: "get_law ?V (reference_mpi lazy ?V)"
    unfolding get_law_def by (intro allI issues) simp
  have get_acc: "get_accumulate_law ?V (reference_mpi lazy ?V)"
    unfolding get_accumulate_law_def by (intro allI issues) simp
  have fetch: "fetch_law ?V (reference_mpi lazy ?V)"
    unfolding fetch_law_def by (intro allI impI fetches) (simp add: Let_def)
  have cas: "cas_law ?V (reference_mpi lazy ?V)"
    unfolding cas_law_def by (intro allI impI fetches) (simp add: Let_def)
  have flush: "flush_laws ?V (reference_mpi lazy ?V)"
    unfolding flush_laws_def by (intro conjI allI flush_local all) simp_all
  have sync: "sync_law ?V (reference_mpi lazy ?V)"
    unfolding sync_law_def neutral_def by simp
  show ?thesis
    unfolding rma_laws_def
    by (intro conjI put replace sum get get_acc fetch cas flush sync)
qed

lemma reference_type_laws: "type_laws (ref_view vm wb) (reference_mpi lazy (ref_view vm wb))"
proof -
  let ?V = "ref_view vm wb"
  have constructs: "constructs ?V (reference_mpi lazy ?V) r c tm"
    if "\<And>m. ref_type c m = new_type (tm m) m" for r c tm
  proof -
    have "\<not> predefined (Derived h)" for h
      by (simp add: predefined_def)
    then show ?thesis
      unfolding constructs_def
      by (auto simp: that new_type_def fresh_handle ref_typemap_def fun_eq_iff
          split: mpi_type.split)
  qed
  show ?thesis
    unfolding type_laws_def predef_law_def vector_law_def contiguous_law_def struct_law_def
      type_query_law_def commit_law_def type_free_law_def neutral_def
    by (intro conjI allI impI constructs)
      (auto simp: same_types_def ref_typemap_def predefined_def split: mpi_type.split)
qed

end
