(* ===== verification/Large_Count.thy ===== *)
theory Large_Count
  imports Mpi_Laws
begin

text \<open>
  \<open>MPIX_Type_contiguous_x\<close> of \<open>src/src/type_contiguous_x.h\<close>: a contiguous datatype for a
  count that does not fit an \<open>int\<close>, built from a vector of full chunks and a contiguous
  remainder. \<open>contiguous_x_typemap\<close> shows that the type map is the one of \<open>count\<close>
  contiguous elements and that the two intermediate handles are freed.
\<close>

definition INT_MAX :: int where
  "INT_MAX = 2147483647"

definition MPIX_Type_contiguous_x :: "size_t \<Rightarrow> mpi_type \<Rightarrow> mpi_type shm" where
  "MPIX_Type_contiguous_x cnt oldtype =
     (let c = c_int (uint (cnt div word_of_int INT_MAX));
          r = c_int (uint (cnt mod word_of_int INT_MAX))
      in pbind (call_type (Ty (MPI_Type_vector c INT_MAX INT_MAX oldtype))) (\<lambda>chunks.
         pbind (call_type (Ty (MPI_Type_contiguous r oldtype))) (\<lambda>remainder.
         pbind (call_int (Ty (MPI_Type_get_extent oldtype))) (\<lambda>extent.
         let remdisp = c_long (c * INT_MAX * extent)
         in pbind (call_type (Ty (MPI_Type_create_struct [(1, 0, chunks), (1, remdisp, remainder)])))
              (\<lambda>newtype.
            pseq (call (Ty (MPI_Type_free chunks)))
            (pseq (call (Ty (MPI_Type_free remainder)))
            (Return newtype)))))))"

section \<open>Type maps of repeated elements\<close>

lemma shift_map_0 [simp]: "shift_map 0 tm = tm"
  by (simp add: shift_map_def)

lemma shift_map_append: "shift_map d (xs @ ys) = shift_map d xs @ shift_map d ys"
  by (simp add: shift_map_def)

lemma shift_map_shift_map: "shift_map a (shift_map b tm) = shift_map (a + b) tm"
  by (simp add: shift_map_def add.assoc)

lemma shift_map_concat: "shift_map d (concat xss) = concat (map (shift_map d) xss)"
  by (induction xss) (simp_all add: shift_map_append, simp add: shift_map_def)

lemma repeat_map_0 [simp]: "repeat_map 0 ext tm = []"
  by (simp add: repeat_map_def)

lemma repeat_map_Suc: "repeat_map (Suc n) ext tm = repeat_map n ext tm @ shift_map (int n * ext) tm"
  by (simp add: repeat_map_def)

lemma repeat_map_1 [simp]: "repeat_map (Suc 0) ext tm = tm"
  by (simp add: repeat_map_Suc)

lemma repeat_map_add:
  "repeat_map (a + b) ext tm = repeat_map a ext tm @ shift_map (int a * ext) (repeat_map b ext tm)"
proof (induction b)
  case 0
  then show ?case by (simp add: shift_map_def)
next
  case (Suc b)
  then show ?case
    by (simp add: repeat_map_Suc shift_map_append shift_map_shift_map algebra_simps)
qed

lemma vector_map_contiguous:
  "vector_map c b (int b) ext tm = repeat_map (c * b) ext tm"
proof (induction c)
  case 0
  then show ?case by (simp add: vector_map_def)
next
  case (Suc c)
  have "vector_map (Suc c) b (int b) ext tm
      = vector_map c b (int b) ext tm @ shift_map (int c * int b * ext) (repeat_map b ext tm)"
    by (simp add: vector_map_def)
  also have "\<dots> = repeat_map (c * b + b) ext tm"
    by (simp add: Suc repeat_map_add)
  finally show ?case
    by (simp add: add.commute)
qed

lemma repeat_map_contiguous:
  assumes "tm = map int [0..<n]"
  shows "repeat_map k (int n) tm = map int [0..<k * n]"
proof (induction k)
  case 0
  then show ?case by simp
next
  case (Suc k)
  have "shift_map (int (k * n)) tm = map int [k * n..<k * n + n]"
    by (simp add: shift_map_def assms map_upt_add)
  have "[0..<k * n + n] = [0..<k * n] @ [k * n..<k * n + n]"
    by (rule upt_add_eq_append) simp
  with \<open>shift_map (int (k * n)) tm = _\<close> show ?case
    by (simp only: repeat_map_Suc Suc map_append mult_Suc add.commute [of n] of_nat_mult)
qed

lemma repeat_predef_map:
  "repeat_map k (int (predef_size ty)) (predef_map ty) = map int [0..<k * predef_size ty]"
  by (rule repeat_map_contiguous) (simp add: predef_map_def)

section \<open>The constructed type\<close>

lemma not_predefined_Derived [simp]: "\<not> predefined (Derived h)"
  by (simp add: predefined_def)

lemma contiguous_x_chunks:
  assumes "uint (cnt :: size_t) < INT_MAX * (INT_MAX + 1)"
  shows "c_int (uint (cnt div word_of_int INT_MAX)) = uint cnt div INT_MAX"
    and "c_int (uint (cnt mod word_of_int INT_MAX)) = uint cnt mod INT_MAX"
proof -
  have m: "uint (word_of_int INT_MAX :: size_t) = INT_MAX"
    by (simp add: INT_MAX_def)
  have pos: "0 < INT_MAX"
    by (simp add: INT_MAX_def)
  have "uint cnt div INT_MAX < INT_MAX + 1"
    using zdiv_mono1 [of "uint cnt" "INT_MAX * (INT_MAX + 1) - 1" INT_MAX] assms pos
    by (simp add: INT_MAX_def)
  moreover have "0 \<le> uint cnt div INT_MAX"
    using pos by (simp add: pos_imp_zdiv_nonneg_iff)
  ultimately show "c_int (uint (cnt div word_of_int INT_MAX)) = uint cnt div INT_MAX"
    unfolding uint_div_distrib m
    by (subst c_int_small) (simp_all add: INT32_MIN_def INT32_MAX_def INT_MAX_def)
  have "uint cnt mod INT_MAX < INT_MAX" "0 \<le> uint cnt mod INT_MAX"
    using pos by simp_all
  then show "c_int (uint (cnt mod word_of_int INT_MAX)) = uint cnt mod INT_MAX"
    unfolding uint_mod_distrib m
    by (subst c_int_small) (simp_all add: INT32_MIN_def INT32_MAX_def INT_MAX_def)
qed

text \<open>The type map of the whole count: full chunks, then the remainder shifted behind them.\<close>

lemma chunks_and_remainder:
  assumes "0 \<le> k"
  shows "vector_map (nat (k div INT_MAX)) (nat INT_MAX) INT_MAX ext e @
         shift_map (k div INT_MAX * INT_MAX * ext) (repeat_map (nat (k mod INT_MAX)) ext e)
       = repeat_map (nat k) ext e"
proof -
  have pos: "0 < INT_MAX"
    by (simp add: INT_MAX_def)
  have q: "0 \<le> k div INT_MAX"
    using assms pos by (simp add: pos_imp_zdiv_nonneg_iff)
  have n: "nat (k div INT_MAX) * nat INT_MAX + nat (k mod INT_MAX) = nat k"
    using q pos pos_mod_sign [OF pos, of k] div_mult_mod_eq [of k INT_MAX]
    by (simp only: nat_mult_distrib [symmetric] nat_add_distrib [symmetric]
        mult_nonneg_nonneg less_imp_le)
  have v: "vector_map (nat (k div INT_MAX)) (nat INT_MAX) INT_MAX ext e
      = repeat_map (nat (k div INT_MAX) * nat INT_MAX) ext e"
    using vector_map_contiguous [of _ "nat INT_MAX"] pos by simp
  have "int (nat (k div INT_MAX) * nat INT_MAX) = k div INT_MAX * INT_MAX"
    using q pos by simp
  then show ?thesis
    using repeat_map_add [of "nat (k div INT_MAX) * nat INT_MAX" "nat (k mod INT_MAX)" ext e]
    by (simp add: v n)
qed

text \<open>
  What a routine that builds a datatype leaves: one more live handle with the given type map,
  every handle that was live before as it was, and nothing issued.
\<close>

definition new_type_state ::
    "'m mpi_view \<Rightarrow> 'm \<Rightarrow> 'm \<Rightarrow> nat \<Rightarrow> int list \<Rightarrow> bool" where
  "new_type_state V m m' h tm \<longleftrightarrow>
     h \<notin> live V m \<and> live V m' = insert h (live V m) \<and> typemap V m' (Derived h) = tm \<and>
     in_flight V m' = in_flight V m"

lemma contiguous_x_displacement:
  assumes "uint (cnt :: size_t) * int n < 2 ^ 63"
  shows "c_long (uint cnt div INT_MAX * INT_MAX * int n) = uint cnt div INT_MAX * INT_MAX * int n"
proof (rule c_long_small)
  have pos: "0 < INT_MAX"
    by (simp add: INT_MAX_def)
  have "uint cnt div INT_MAX * INT_MAX \<le> uint cnt"
    using pos pos_mod_sign [OF pos, of "uint cnt"] by (simp add: minus_mod_eq_div_mult [symmetric])
  then have "uint cnt div INT_MAX * INT_MAX * int n \<le> uint cnt * int n"
    by (rule mult_right_mono) simp
  with assms show "uint cnt div INT_MAX * INT_MAX * int n < 2 ^ 63" by simp
  have "0 \<le> uint cnt div INT_MAX * INT_MAX * int n"
    using pos by (simp add: pos_imp_zdiv_nonneg_iff)
  then show "- (2 ^ 63) \<le> uint cnt div INT_MAX * INT_MAX * int n"
    by simp
qed

lemma contiguous_x_through:
  assumes L: "type_laws V mpi" and ty: "predefined ty"
    and cnt: "uint cnt < INT_MAX * (INT_MAX + 1)"
    and fits: "uint cnt * int (predef_size ty) < 2 ^ 63"
  shows "through (world V mpi r) (MPIX_Type_contiguous_x cnt ty) (m, \<sigma>) (still V m \<sigma>)
     (\<lambda>t s. \<exists>h m'. t = Derived h \<and> s = (m', \<sigma>) \<and>
        new_type_state V m m' h (map int [0..<unat cnt * predef_size ty]))"
proof -
  have pos: "0 < INT_MAX"
    by (simp add: INT_MAX_def)
  have q: "0 \<le> uint cnt div INT_MAX" and rm: "0 \<le> uint cnt mod INT_MAX"
    using pos by (simp_all add: pos_imp_zdiv_nonneg_iff)
  have not_Derived: "ty \<noteq> Derived h" "Derived h \<noteq> ty" for h
    using ty by auto
  have tm: "vector_map (nat (uint cnt div INT_MAX)) (nat INT_MAX) INT_MAX (int (predef_size ty))
        (predef_map ty) @ shift_map (uint cnt div INT_MAX * INT_MAX * int (predef_size ty))
        (map int [0..<nat (uint cnt mod INT_MAX) * predef_size ty])
      = map int [0..<unat cnt * predef_size ty]"
    using chunks_and_remainder [of "uint cnt" "int (predef_size ty)" "predef_map ty"]
    by (simp add: repeat_predef_map)
  show ?thesis
    unfolding MPIX_Type_contiguous_x_def Let_def contiguous_x_chunks [OF cnt]
    apply (rule through_eff, simp, simp)
    apply (rule ends_construct [OF type_lawsD(2) [OF L q less_imp_le [OF pos] ty]])
    apply (rule through_eff, simp, simp add: still_def)
    apply (rule ends_construct [OF type_lawsD(3) [OF L rm ty]])
    apply (rule through_eff, simp, simp add: still_def)
    apply (rule ends_neutral_int [OF type_lawsD(5) [OF L ty]], simp)
    apply (unfold contiguous_x_displacement [OF fits])
    apply (rule through_eff, simp, simp add: still_def)
    apply (rule ends_construct [OF type_lawsD(4) [OF L]], simp)
    apply (rule through_then, simp, simp add: still_def)
    apply (rule ends_type_free [OF L])
    apply (rule through_then, simp, simp add: still_def)
    apply (rule ends_type_free [OF L])
    apply (simp add: new_type_state_def same_types_def not_Derived type_lawsD(1) [OF L ty]
        repeat_predef_map tm still_def)
    apply fast
    done
qed

lemmas contiguous_x_builds = throughD(2) [OF contiguous_x_through]

end
