(* ===== verification/Rma.thy ===== *)
theory Rma
  imports Large_Count
begin

text \<open>
  Contiguous and strided one-sided transfers: \<open>oshmpi_put\<close>, \<open>oshmpi_get\<close>,
  \<open>oshmpi_put_strided\<close>, \<open>oshmpi_get_strided\<close> of \<open>src/src/shmem-internals.c\<close>, and the
  synchronization they are paired with, \<open>oshmpi_remote_sync\<close>, \<open>oshmpi_remote_sync_pe\<close>,
  \<open>oshmpi_local_sync\<close>.

  A transfer that goes through MPI is in flight when the routine returns; \<open>progress\<close> follows the
  operations a PE has issued on a window from a settled memory on, whatever part of them an
  MPI library has applied so far. The lemmas say what each routine adds to that history, and
  what the memory is once a flush has emptied it.
\<close>

section \<open>Synchronization\<close>

definition oshmpi_remote_sync :: "unit shm" where
  "oshmpi_remote_sync =
     pseq (call (Rma (MPI_Win_flush_all Shmem_sheap_win)))
     (call (Rma (MPI_Win_flush_all Shmem_etext_win)))"

definition oshmpi_remote_sync_pe :: "int \<Rightarrow> unit shm" where
  "oshmpi_remote_sync_pe pe =
     pseq (call (Rma (MPI_Win_flush pe Shmem_sheap_win)))
     (call (Rma (MPI_Win_flush pe Shmem_etext_win)))"

definition oshmpi_local_sync :: "globals \<Rightarrow> unit shm" where
  "oshmpi_local_sync g =
     pseq (pwhen (ENABLE_SMP_OPTIMIZATIONS (conf g)) (call (Mem Sync_synchronize)))
     (pseq (call (Rma (MPI_Win_sync Shmem_sheap_win)))
     (call (Rma (MPI_Win_sync Shmem_etext_win))))"

section \<open>Transfers\<close>

text \<open>The count and the datatype a contiguous transfer of \<open>len\<close> elements passes to MPI.\<close>

definition rma_count :: "size_t \<Rightarrow> mpi_type \<Rightarrow> (int \<times> mpi_type) shm" where
  "rma_count len mpi_type =
     (if len < word_of_int INT32_MAX then Return (uint len, mpi_type)
      else pbind (MPIX_Type_contiguous_x len mpi_type) (\<lambda>tmp_type.
           pseq (call (Ty (MPI_Type_commit tmp_type)))
           (Return (1, tmp_type))))"

text \<open>\<open>ENABLE_RMA_ORDERING\<close> means that RMA operations are ordered: accumulates are used.\<close>

definition put_call ::
    "globals \<Rightarrow> addr \<Rightarrow> int \<Rightarrow> mpi_type \<Rightarrow> int \<Rightarrow> int \<Rightarrow> int \<Rightarrow> mpi_type \<Rightarrow> mpi_win \<Rightarrow> unit shm" where
  "put_call g source origin_count origin_type pe win_offset target_count target_type win =
     (if ENABLE_RMA_ORDERING (conf g)
      then call (Rma (MPI_Accumulate (Buf source) origin_count origin_type pe win_offset
                        target_count target_type MPI_REPLACE win))
      else call (Rma (MPI_Put source origin_count origin_type pe win_offset
                        target_count target_type win)))"

definition get_call ::
    "globals \<Rightarrow> addr \<Rightarrow> int \<Rightarrow> mpi_type \<Rightarrow> int \<Rightarrow> int \<Rightarrow> int \<Rightarrow> mpi_type \<Rightarrow> mpi_win \<Rightarrow> unit shm" where
  "get_call g target result_count result_type pe win_offset remote_count remote_type win =
     (if ENABLE_RMA_ORDERING (conf g)
      then call (Rma (MPI_Get_accumulate target result_count result_type pe win_offset
                        remote_count remote_type MPI_NO_OP win))
      else call (Rma (MPI_Get target result_count result_type pe win_offset
                        remote_count remote_type win)))"

definition oshmpi_put :: "globals \<Rightarrow> mpi_type \<Rightarrow> addr \<Rightarrow> addr \<Rightarrow> size_t \<Rightarrow> int \<Rightarrow> unit shm" where
  "oshmpi_put g mpi_type target source len pe =
     (case oshmpi_window_offset g target pe of (ret, win_id, win_offset) \<Rightarrow>
      if ret \<noteq> 0 then oshmpi_abort pe ''oshmpi_window_offset failed to find put target''
      else let win = win_of win_id in
      if use_smp g win_id
      then pbind (OSHMPI_Type_size g mpi_type) (\<lambda>type_size.
           call (Mem (Memcpy (smp_ptr g pe target) source (len * word_of_int type_size))))
      else pbind (rma_count len mpi_type) (\<lambda>(cnt, tmp_type).
           pseq (put_call g source cnt tmp_type pe win_offset cnt tmp_type win)
           (pseq (pwhen (word_of_int INT32_MAX < len) (call (Ty (MPI_Type_free tmp_type))))
           (call (Rma (MPI_Win_flush_local pe win))))))"

definition oshmpi_get :: "globals \<Rightarrow> mpi_type \<Rightarrow> addr \<Rightarrow> addr \<Rightarrow> size_t \<Rightarrow> int \<Rightarrow> unit shm" where
  "oshmpi_get g mpi_type target source len pe =
     (case oshmpi_window_offset g source pe of (ret, win_id, win_offset) \<Rightarrow>
      if ret \<noteq> 0 then oshmpi_abort pe ''oshmpi_window_offset failed to find get source''
      else let win = win_of win_id in
      if use_smp g win_id
      then pbind (OSHMPI_Type_size g mpi_type) (\<lambda>type_size.
           call (Mem (Memcpy target (smp_ptr g pe source) (len * word_of_int type_size))))
      else pbind (rma_count len mpi_type) (\<lambda>(cnt, tmp_type).
           pseq (get_call g target cnt tmp_type pe win_offset cnt tmp_type win)
           (pseq (pwhen (word_of_int INT32_MAX < len) (call (Ty (MPI_Type_free tmp_type))))
           (call (Rma (MPI_Win_flush_local pe win))))))"

text \<open>\<open>source_type\<close> and \<open>target_type\<close> of a strided transfer: one handle when the strides agree.\<close>

definition strided_types :: "int \<Rightarrow> int \<Rightarrow> int \<Rightarrow> mpi_type \<Rightarrow> (mpi_type \<times> mpi_type) shm" where
  "strided_types cnt target_stride source_stride mpi_type =
     pbind (call_type (Ty (MPI_Type_vector cnt 1 source_stride mpi_type))) (\<lambda>source_type.
     pseq (call (Ty (MPI_Type_commit source_type)))
     (if target_stride \<noteq> source_stride
      then pbind (call_type (Ty (MPI_Type_vector cnt 1 target_stride mpi_type))) (\<lambda>target_type.
           pseq (call (Ty (MPI_Type_commit target_type)))
           (Return (source_type, target_type)))
      else Return (source_type, source_type)))"

definition free_strided_types :: "int \<Rightarrow> int \<Rightarrow> mpi_type \<Rightarrow> mpi_type \<Rightarrow> unit shm" where
  "free_strided_types target_stride source_stride source_type target_type =
     pseq (pwhen (target_stride \<noteq> source_stride) (call (Ty (MPI_Type_free target_type))))
     (call (Ty (MPI_Type_free source_type)))"

definition stride_ok :: "int \<Rightarrow> bool" where
  "stride_ok d \<longleftrightarrow> INT32_MIN < d \<and> d < INT32_MAX"

definition oshmpi_put_strided ::
    "globals \<Rightarrow> mpi_type \<Rightarrow> addr \<Rightarrow> addr \<Rightarrow> int \<Rightarrow> int \<Rightarrow> size_t \<Rightarrow> int \<Rightarrow> unit shm" where
  "oshmpi_put_strided g mpi_type target source target_ptrdiff source_ptrdiff len pe =
     (if \<not> len < word_of_int INT32_MAX
      then oshmpi_abort (c_int (uint len mod INT32_MAX))
             ''oshmpi_put_strided: count exceeds the range of a 32b integer''
      else case oshmpi_window_offset g target pe of (ret, win_id, win_offset) \<Rightarrow>
      if ret \<noteq> 0 then oshmpi_abort pe ''oshmpi_window_offset failed to find iput target''
      else let win = win_of win_id in
      pseq (passert (stride_ok target_ptrdiff) ''target_ptrdiff'')
      (pseq (passert (stride_ok source_ptrdiff) ''source_ptrdiff'')
      (let target_stride = c_int target_ptrdiff; source_stride = c_int source_ptrdiff in
       pbind (strided_types (uint len) target_stride source_stride mpi_type)
         (\<lambda>(source_type, target_type).
       pseq (put_call g source 1 source_type pe win_offset 1 target_type win)
       (pseq (call (Rma (MPI_Win_flush_local pe win)))
       (free_strided_types target_stride source_stride source_type target_type))))))"

definition oshmpi_get_strided ::
    "globals \<Rightarrow> mpi_type \<Rightarrow> addr \<Rightarrow> addr \<Rightarrow> int \<Rightarrow> int \<Rightarrow> size_t \<Rightarrow> int \<Rightarrow> unit shm" where
  "oshmpi_get_strided g mpi_type target source target_ptrdiff source_ptrdiff len pe =
     (if \<not> len < word_of_int INT32_MAX
      then oshmpi_abort (c_int (uint len mod INT32_MAX))
             ''oshmpi_get_strided: count exceeds the range of a 32b integer''
      else case oshmpi_window_offset g source pe of (ret, win_id, win_offset) \<Rightarrow>
      if ret \<noteq> 0 then oshmpi_abort pe ''oshmpi_window_offset failed to find iget source''
      else let win = win_of win_id in
      pseq (passert (stride_ok target_ptrdiff) ''target_ptrdiff'')
      (pseq (passert (stride_ok source_ptrdiff) ''source_ptrdiff'')
      (let target_stride = c_int target_ptrdiff; source_stride = c_int source_ptrdiff in
       pbind (strided_types (uint len) target_stride source_stride mpi_type)
         (\<lambda>(source_type, target_type).
       pseq (get_call g target 1 target_type pe win_offset 1 source_type win)
       (pseq (call (Rma (MPI_Win_flush_local pe win)))
       (free_strided_types target_stride source_stride source_type target_type))))))"

section \<open>The history of a window\<close>

text \<open>
  \<open>xs\<close> lists the operations PE \<open>r\<close> has issued on \<open>w\<close> since the settled memory was \<open>\<sigma>\<^sub>0\<close>: some
  of them have been applied, the others are in flight.
\<close>

definition progress ::
    "'m mpi_view \<Rightarrow> int \<Rightarrow> mpi_win \<Rightarrow> store \<Rightarrow> flight \<Rightarrow> 'm \<Rightarrow> store \<Rightarrow> bool" where
  "progress V r w \<sigma>\<^sub>0 xs m \<sigma> \<longleftrightarrow>
     (\<exists>don. legal_order xs (don @ in_flight V m r w) \<and> \<sigma> = apply_ops don \<sigma>\<^sub>0)"

lemma progress_start: "in_flight V m r w = [] \<Longrightarrow> progress V r w \<sigma> [] m \<sigma>"
  by (simp add: progress_def)

lemma progress_issue:
  assumes "progress V r w \<sigma>\<^sub>0 xs m \<sigma>" "flight_upd V m r w (in_flight V m r w @ [x]) m'"
  shows "progress V r w \<sigma>\<^sub>0 (xs @ [x]) m' \<sigma>"
proof -
  obtain don where "legal_order xs (don @ in_flight V m r w)" "\<sigma> = apply_ops don \<sigma>\<^sub>0"
    using assms(1) by (auto simp: progress_def)
  then have "legal_order (xs @ [x]) ((don @ in_flight V m r w) @ [x])" "\<sigma> = apply_ops don \<sigma>\<^sub>0"
    by (simp_all only: legal_order_append legal_order_refl)
  with assms(2) show ?thesis
    by (auto simp: progress_def flight_upd_def)
qed

lemma progress_complete:
  assumes "progress V r w \<sigma>\<^sub>0 xs m \<sigma>" "legal_order (in_flight V m r w) (don @ rest)"
    and "flight_upd V m r w rest m'"
  shows "progress V r w \<sigma>\<^sub>0 xs m' (apply_ops don \<sigma>)"
proof -
  obtain d where d: "legal_order xs (d @ in_flight V m r w)" "\<sigma> = apply_ops d \<sigma>\<^sub>0"
    using assms(1) by (auto simp: progress_def)
  have "legal_order (d @ in_flight V m r w) (d @ don @ rest)"
    by (intro legal_order_append assms(2)) simp
  with d have "legal_order xs ((d @ don) @ rest)"
    by (auto intro: legal_order_trans)
  with d assms(3) show ?thesis
    unfolding progress_def by (intro exI [of _ "d @ don"]) (simp add: flight_upd_def apply_ops_append)
qed

lemma progress_cong:
  "progress V r w \<sigma>\<^sub>0 xs m \<sigma> \<Longrightarrow> in_flight V m' r w = in_flight V m r w \<Longrightarrow>
   progress V r w \<sigma>\<^sub>0 xs m' \<sigma>"
  by (simp add: progress_def)

lemma progress_settled:
  assumes "progress V r w \<sigma>\<^sub>0 xs m \<sigma>" "in_flight V m r w = []"
  obtains ys where "legal_order xs ys" "\<sigma> = apply_ops ys \<sigma>\<^sub>0"
  using assms by (auto simp: progress_def)

lemma legal_order_set: "legal_order xs ys \<Longrightarrow> set ys = set xs"
  by (metis legal_order_def set_mset_mset)

section \<open>What an operation can touch\<close>

fun written :: "rma_op \<Rightarrow> cell set" where
  "written (Write ord ws) = fst ` set ws"
| "written (Read ord ps) = fst ` set ps"
| "written (Update cs v) = set cs"

lemma apply_op_other: "c \<notin> written x \<Longrightarrow> apply_op x \<sigma> c = \<sigma> c"
proof (cases x)
  case (Read ord ps)
  moreover have "fst ` set (map (\<lambda>(d, s). (d, \<sigma> s)) ps) = fst ` set ps"
    by force
  ultimately show "c \<notin> written x \<Longrightarrow> apply_op x \<sigma> c = \<sigma> c"
    by (simp add: apply_writes_other)
qed (auto simp: apply_writes_other write_val_other)

lemma apply_ops_other:
  "(\<And>x. x \<in> set xs \<Longrightarrow> c \<notin> written (snd x)) \<Longrightarrow> apply_ops xs \<sigma> c = \<sigma> c"
  by (induction xs arbitrary: \<sigma>) (simp_all add: apply_op_other)

text \<open>Cells that no operation of the history writes are as they were.\<close>

lemma progress_other:
  assumes "progress V r w \<sigma>\<^sub>0 xs m \<sigma>" "\<And>x. x \<in> set xs \<Longrightarrow> c \<notin> written (snd x)"
  shows "\<sigma> c = \<sigma>\<^sub>0 c"
proof -
  obtain don where don: "legal_order xs (don @ in_flight V m r w)" "\<sigma> = apply_ops don \<sigma>\<^sub>0"
    using assms(1) by (auto simp: progress_def)
  have "set don \<subseteq> set xs"
    using legal_order_set [OF don(1)] by auto
  with assms(2) show ?thesis
    unfolding don(2) by (intro apply_ops_other) auto
qed

section \<open>Contiguous transfers\<close>

text \<open>The bytes of a transfer fit the address space with room to spare.\<close>

definition fits :: "size_t \<Rightarrow> mpi_type \<Rightarrow> bool" where
  "fits len ty \<longleftrightarrow> predefined ty \<and> uint len * int (predef_size ty) < 2 ^ 61"

definition nbytes :: "size_t \<Rightarrow> mpi_type \<Rightarrow> nat" where
  "nbytes len ty = unat len * predef_size ty"

lemma fits_len: "fits len ty \<Longrightarrow> uint len < 2 ^ 61"
proof -
  assume f: "fits len ty"
  then have "uint len * 1 \<le> uint len * int (predef_size ty)"
    by (intro mult_left_mono) (auto simp: fits_def predefined_def)
  with f show ?thesis by (simp add: fits_def)
qed

text \<open>The handles a routine leaves: none of the old ones freed or changed, one more if it leaks.\<close>

definition keeps_types :: "'m mpi_view \<Rightarrow> 'm \<Rightarrow> 'm \<Rightarrow> bool" where
  "keeps_types V m m' \<longleftrightarrow> live V m' = live V m"

definition leaks_one :: "'m mpi_view \<Rightarrow> 'm \<Rightarrow> 'm \<Rightarrow> bool" where
  "leaks_one V m m' \<longleftrightarrow> (\<exists>h. h \<notin> live V m \<and> live V m' = insert h (live V m))"

definition type_balance :: "'m mpi_view \<Rightarrow> size_t \<Rightarrow> 'm \<Rightarrow> 'm \<Rightarrow> bool" where
  "type_balance V len m m' \<longleftrightarrow>
     (if len = word_of_int INT32_MAX then leaks_one V m m' else keeps_types V m m')"

lemma type_disps_predef:
  "type_laws V mpi \<Longrightarrow> predefined ty \<Longrightarrow> type_disps V m ty cnt = map int [0..<nat cnt * predef_size ty]"
  by (simp add: type_disps_def type_lawsD(1) repeat_predef_map)

lemma type_disps_derived: "type_disps V m (Derived h) 1 = typemap V m (Derived h)"
  by (simp add: type_disps_def)

lemma rma_count_through:
  assumes L: "type_laws V mpi" and f: "fits len ty"
  shows "through (world V mpi r) (rma_count len ty) (m, \<sigma>) (still V m \<sigma>)
     (\<lambda>(cnt, t) s. \<exists>m'. s = (m', \<sigma>) \<and> in_flight V m' = in_flight V m \<and>
        type_disps V m' t cnt = map int [0..<nbytes len ty] \<and>
        (if len < word_of_int INT32_MAX then live V m' = live V m
         else \<exists>h. t = Derived h \<and> h \<notin> live V m \<and> live V m' = insert h (live V m)))"
proof (cases "len < word_of_int INT32_MAX")
  case True
  then show ?thesis
    using f by (simp add: rma_count_def type_disps_predef [OF L] fits_def nbytes_def)
next
  case False
  have c: "uint len < INT_MAX * (INT_MAX + 1)" "uint len * int (predef_size ty) < 2 ^ 63"
    using f fits_len [OF f] by (simp_all add: INT_MAX_def fits_def)
  have ty: "predefined ty"
    using f by (simp add: fits_def)
  show ?thesis
    using False
    apply (simp add: rma_count_def)
    apply (subst through_pbind)
    apply (rule through_mono [OF contiguous_x_through [OF L ty c]], assumption)
    apply (elim exE conjE, simp only:)
    apply (rule through_then, simp, simp)
    apply (rule ends_neutral [OF type_lawsD(7) [OF L]], simp)
    apply (simp add: new_type_state_def same_types_def type_disps_derived nbytes_def still_def)
    done
qed

text \<open>The displacements of a contiguous transfer, on both sides of it.\<close>

lemma transfer_ok_contiguous:
  "type_disps V m t cnt = map int [0..<n] \<Longrightarrow> transfer_ok V t cnt t cnt m"
  by (simp add: transfer_ok_def distinct_map)

definition remote_range :: "'m mpi_view \<Rightarrow> mpi_win \<Rightarrow> int \<Rightarrow> int \<Rightarrow> nat \<Rightarrow> cell list" where
  "remote_range V w pe off n = range_at (vmap V pe) (window_base V w pe + word_of_int off) n"

definition untouched :: "'m mpi_view \<Rightarrow> int \<Rightarrow> mpi_win \<Rightarrow> 'm \<Rightarrow> 'm \<Rightarrow> bool" where
  "untouched V r w m m' \<longleftrightarrow>
     (\<forall>r' w'. (r', w') \<noteq> (r, w) \<longrightarrow> in_flight V m' r' w' = in_flight V m r' w')"

lemma untouched_refl [simp]: "untouched V r w m m"
  by (simp add: untouched_def)

lemma untouched_same: "in_flight V m' = in_flight V m \<Longrightarrow> untouched V r w m m'"
  by (simp add: untouched_def)

lemma untouched_upd: "flight_upd V m r w fl m' \<Longrightarrow> untouched V r w m m'"
  by (auto simp: untouched_def flight_upd_def)

lemma untouched_trans: "untouched V r w m m' \<Longrightarrow> untouched V r w m' m'' \<Longrightarrow> untouched V r w m m''"
  by (simp add: untouched_def)

text \<open>The operation a contiguous put adds to the history.\<close>

definition put_op ::
    "'m mpi_view \<Rightarrow> globals \<Rightarrow> int \<Rightarrow> mpi_win \<Rightarrow> int \<Rightarrow> nat \<Rightarrow> addr \<Rightarrow> int \<Rightarrow> store \<Rightarrow> int \<times> rma_op" where
  "put_op V g r w off n source pe \<sigma> =
     (pe, Write (ENABLE_RMA_ORDERING (conf g))
            (zip (remote_range V w pe off n) (map \<sigma> (range_at (vmap V r) source n))))"

definition get_op ::
    "'m mpi_view \<Rightarrow> globals \<Rightarrow> int \<Rightarrow> mpi_win \<Rightarrow> int \<Rightarrow> nat \<Rightarrow> addr \<Rightarrow> int \<Rightarrow> int \<times> rma_op" where
  "get_op V g r w off n target pe =
     (pe, Read (ENABLE_RMA_ORDERING (conf g))
            (zip (range_at (vmap V r) target n) (remote_range V w pe off n)))"

text \<open>The end both transfers share: free the type when it is derived, complete locally.\<close>

lemma transfer_tail:
  assumes L: "rma_laws V mpi" "type_laws V mpi"
    and start: "progress V r w \<sigma>\<^sub>0 xs m0 \<sigma>" "in_flight V m1 = in_flight V m0"
    and t1: "if len < word_of_int INT32_MAX then live V m1 = live V m0
             else \<exists>h. t = Derived h \<and> h \<notin> live V m0 \<and> live V m1 = insert h (live V m0)"
    and issued: "same_types V m1 m" "flight_upd V m1 r w (in_flight V m1 r w @ [x]) m"
    and J: "\<And>m' \<sigma>'. progress V r w \<sigma>\<^sub>0 (xs @ [x]) m' \<sigma>' \<Longrightarrow> untouched V r w m0 m' \<Longrightarrow> J (m', \<sigma>')"
    and Q: "\<And>m' \<sigma>'. progress V r w \<sigma>\<^sub>0 (xs @ [x]) m' \<sigma>' \<Longrightarrow> untouched V r w m0 m' \<Longrightarrow>
      type_balance V len m0 m' \<Longrightarrow> \<forall>y\<in>set (in_flight V m' r w). fst y \<noteq> pe \<or> \<not> is_read (snd y) \<Longrightarrow>
      Q () (m', \<sigma>')"
  shows "through (world V mpi r)
     (pseq (pwhen (word_of_int INT32_MAX < len) (call (Ty (MPI_Type_free t))))
        (call (Rma (MPI_Win_flush_local pe w)))) (m, \<sigma>) J Q"
proof -
  have I: "progress V r w \<sigma>\<^sub>0 (xs @ [x]) m \<sigma>" "untouched V r w m0 m"
    using progress_issue [OF progress_cong [OF start(1)] issued(2)] start(2)
      untouched_trans [OF untouched_same [OF start(2)] untouched_upd [OF issued(2)]] by simp_all
  have t: "if len < word_of_int INT32_MAX then live V m = live V m0
      else \<exists>h. t = Derived h \<and> h \<notin> live V m0 \<and> live V m = insert h (live V m0)"
    using t1 issued(1) by (simp add: same_types_def)
  have same: "J (m', \<sigma>)" if "in_flight V m' = in_flight V m" for m'
    by (rule J [OF progress_cong [OF I(1)] untouched_trans [OF I(2) untouched_same]])
      (simp_all add: that)
  have flush: "through (world V mpi r) (call (Rma (MPI_Win_flush_local pe w))) (m', \<sigma>) J Q"
    if "type_balance V len m0 m'" "in_flight V m' = in_flight V m" for m'
  proof (rule through_last, simp, rule same [OF that(2)], rule ends_complete [OF rma_lawsD(6) [OF L(1)]])
    fix m'' don rest
    assume c: "same_types V m' m''" "legal_order (in_flight V m' r w) (don @ rest)"
      "\<forall>x\<in>set rest. fst x \<noteq> pe \<or> \<not> is_read (snd x)" "flight_upd V m' r w rest m''"
    have "progress V r w \<sigma>\<^sub>0 (xs @ [x]) m' \<sigma>"
      by (rule progress_cong [OF I(1)]) (simp add: that)
    then have "progress V r w \<sigma>\<^sub>0 (xs @ [x]) m'' (apply_ops don \<sigma>)"
      by (rule progress_complete [OF _ c(2,4)])
    moreover have "untouched V r w m0 m''"
      using I(2) untouched_same [OF that(2)] untouched_upd [OF c(4)] by (blast intro: untouched_trans)
    moreover have "type_balance V len m0 m''"
      using that(1) c(1)
      by (simp add: type_balance_def leaks_one_def keeps_types_def same_types_def split: if_splits)
    moreover have "in_flight V m'' r w = rest"
      using c(4) by (simp add: flight_upd_def)
    ultimately show "J (m'', apply_ops don \<sigma>) \<and> Q () (m'', apply_ops don \<sigma>)"
      using c(3) by (intro conjI J Q) auto
  qed
  show ?thesis
  proof (cases "word_of_int INT32_MAX < len")
    case True
    then have "\<not> len < word_of_int INT32_MAX"
      by (simp add: not_less less_imp_le)
    with t obtain h where h: "t = Derived h" "h \<notin> live V m0" "live V m = insert h (live V m0)"
      by auto
    show ?thesis
      unfolding h(1) using True
      apply simp
      apply (rule through_then, simp, rule same, rule refl)
      apply (rule ends_type_free [OF L(2)])
      apply (rule flush)
       apply (use h True in \<open>auto simp: type_balance_def keeps_types_def\<close>)
      done
  next
    case False
    have "type_balance V len m0 m"
      using t False by (auto simp: type_balance_def keeps_types_def leaks_one_def)
    with flush [of m] False show ?thesis
      by simp
  qed
qed

lemma cells_at_bytes: "cells_at vm a (map int [0..<n]) = range_at vm a n"
  by (simp add: range_at_def)

lemma ends_put_call:
  assumes "rma_laws V mpi" "transfer_ok V tt tc ot oc m"
    and "\<And>m'. same_types V m m' \<Longrightarrow>
      flight_upd V m r w (in_flight V m r w @
        [(pe, Write (ENABLE_RMA_ORDERING (conf g)) (zip (win_cells V m w pe d tt tc)
                       (map \<sigma> (buf_cells V m r source ot oc))))]) m' \<Longrightarrow> Q () (m', \<sigma>)"
  shows "ends (world V mpi r) (put_call g source oc ot pe d tc tt w) (m, \<sigma>) Q"
  using assms
  by (auto simp: put_call_def intro!: ends_issue [OF rma_lawsD(1)] ends_issue [OF rma_lawsD(2)])

lemma ends_get_call:
  assumes "rma_laws V mpi" "transfer_ok V ot oc tt tc m"
    and "\<And>m'. same_types V m m' \<Longrightarrow>
      flight_upd V m r w (in_flight V m r w @
        [(pe, Read (ENABLE_RMA_ORDERING (conf g)) (zip (buf_cells V m r target ot oc)
                       (win_cells V m w pe d tt tc)))]) m' \<Longrightarrow> Q () (m', \<sigma>)"
  shows "ends (world V mpi r) (get_call g target oc ot pe d tc tt w) (m, \<sigma>) Q"
  using assms
  by (auto simp: get_call_def intro!: ends_issue [OF rma_lawsD(4)] ends_issue [OF rma_lawsD(5)])

lemma put_mpi_through:
  assumes L: "rma_laws V mpi" "type_laws V mpi" and f: "fits len ty"
    and l: "oshmpi_window_offset g target pe = (0, i, off)" "\<not> use_smp g i"
    and I: "progress V r (win_of i) \<sigma>\<^sub>0 xs m \<sigma>"
    and J: "\<And>m' \<sigma>' ys. ys \<in> {xs, xs @ [put_op V g r (win_of i) off (nbytes len ty) source pe \<sigma>]} \<Longrightarrow>
      progress V r (win_of i) \<sigma>\<^sub>0 ys m' \<sigma>' \<Longrightarrow> untouched V r (win_of i) m m' \<Longrightarrow> J (m', \<sigma>')"
  shows "through (world V mpi r) (oshmpi_put g ty target source len pe) (m, \<sigma>) J
     (\<lambda>_ (m', \<sigma>'). progress V r (win_of i) \<sigma>\<^sub>0
          (xs @ [put_op V g r (win_of i) off (nbytes len ty) source pe \<sigma>]) m' \<sigma>' \<and>
        untouched V r (win_of i) m m' \<and> type_balance V len m m')"
proof -
  let ?x = "put_op V g r (win_of i) off (nbytes len ty) source pe \<sigma>"
  have still: "J s" if "still V m \<sigma> s" for s
    using that J [of xs "fst s" \<sigma>, OF _ progress_cong [OF I] untouched_same]
    by (cases s) (simp add: still_def)
  have op: "flight_upd V m1 r (win_of i) (fl @ [?x]) m2"
    if "flight_upd V m1 r (win_of i) (fl @
        [(pe, Write (ENABLE_RMA_ORDERING (conf g)) (zip (win_cells V m1 (win_of i) pe off t cnt)
           (map \<sigma> (buf_cells V m1 r source t cnt))))]) m2"
      "type_disps V m1 t cnt = map int [0..<nbytes len ty]" for m1 m2 fl t cnt
    using that by (simp add: put_op_def win_cells_def buf_cells_def cells_at_bytes remote_range_def)
  show ?thesis
    using l
    apply (simp add: oshmpi_put_def Let_def)
    apply (subst through_pbind)
    apply (rule through_mono [OF rma_count_through [OF L(2) f] still], assumption)
    apply clarsimp
    apply (rule through_then, simp add: put_call_def, erule still)
    apply (rule ends_put_call [OF L(1)], erule transfer_ok_contiguous)
    apply (drule op, assumption)
    apply (rule transfer_tail [OF L I, where x = ?x], assumption+)
     apply (rule J [OF insertI2 [OF singletonI]], assumption+)
    apply simp
    done
qed

lemmas put_mpi = throughD(2) [OF put_mpi_through [where J = "\<lambda>_. True", OF _ _ _ _ _ _ TrueI]]

lemma get_mpi:
  assumes L: "rma_laws V mpi" "type_laws V mpi" and f: "fits len ty"
    and l: "oshmpi_window_offset g source pe = (0, i, off)" "\<not> use_smp g i"
    and I: "progress V r (win_of i) \<sigma>\<^sub>0 xs m \<sigma>"
  shows "ends (world V mpi r) (oshmpi_get g ty target source len pe) (m, \<sigma>)
     (\<lambda>_ (m', \<sigma>'). progress V r (win_of i) \<sigma>\<^sub>0
          (xs @ [get_op V g r (win_of i) off (nbytes len ty) target pe]) m' \<sigma>' \<and>
        (\<forall>y\<in>set (in_flight V m' r (win_of i)). fst y \<noteq> pe \<or> \<not> is_read (snd y)) \<and>
        untouched V r (win_of i) m m' \<and> type_balance V len m m')"
  using l
  apply (simp add: oshmpi_get_def Let_def)
  apply (subst ends_pbind)
  apply (rule ends_mono [OF throughD(2) [OF rma_count_through [OF L(2) f]]])
  apply clarsimp
  apply (subst ends_pseq)
  apply (rule ends_get_call [OF L(1)], erule transfer_ok_contiguous)
  apply (rule throughD(2))
  apply (rule transfer_tail [OF L I, where J = "\<lambda>_. True"], assumption+, rule TrueI)
  apply (simp add: get_op_def win_cells_def buf_cells_def cells_at_bytes remote_range_def)
  done

end
