(* ===== verification/Data_Movement.thy ===== *)
theory Data_Movement
  imports Rma
begin

text \<open>
  What a program sees of the transfers: the memory after a put that is followed by the
  synchronization its interface asks for, and after a get. One statement covers the builds that
  go through MPI and the one that copies through shared memory.
\<close>

section \<open>The environment of a PE\<close>

text \<open>The segments \<open>MPI_Win_shared_query\<close> maps into PE \<open>r\<close> are the heaps of the other PEs.\<close>

definition smp_segments :: "'m mpi_view \<Rightarrow> globals \<Rightarrow> int \<Rightarrow> bool" where
  "smp_segments V g r \<longleftrightarrow>
     (\<forall>pe off. 0 \<le> pe \<longrightarrow> pe < shmem_world_size g \<longrightarrow> 0 \<le> off \<longrightarrow> off < shmem_sheap_size g \<longrightarrow>
        vmap V r (shmem_smp_sheap_ptrs g ! nat pe + word_of_int off)
        = vmap V pe (window_base V Shmem_sheap_win pe + word_of_int off))"

text \<open>The size \<open>OSHMPI_Type_size\<close> reads out of an MPICH handle is the one the handle encodes.\<close>

definition mpich_sizes :: "globals \<Rightarrow> bool" where
  "mpich_sizes g \<longleftrightarrow>
     (\<forall>ty. predefined ty \<longrightarrow>
        uint (drop_bit 8 (and (mpich_handle (conf g) ty) 0x0000ff00)) = int (predef_size ty))"

definition environment :: "'m mpi_view \<Rightarrow> (int \<Rightarrow> 'm world mpi) \<Rightarrow> globals \<Rightarrow> int \<Rightarrow> bool" where
  "environment V mpi g r \<longleftrightarrow>
     rma_laws V mpi \<and> type_laws V mpi \<and> (MPICH (conf g) \<longrightarrow> mpich_sizes g) \<and>
     (ENABLE_SMP_OPTIMIZATIONS (conf g) \<and> shmem_world_is_smp g \<longrightarrow> smp_segments V g r)"

lemma environmentD:
  assumes "environment V mpi g r"
  shows "rma_laws V mpi" "type_laws V mpi" "MPICH (conf g) \<Longrightarrow> mpich_sizes g"
    "use_smp g i \<Longrightarrow> smp_segments V g r"
  using assms by (auto simp: environment_def use_smp_def)

definition idle :: "'m mpi_view \<Rightarrow> int \<Rightarrow> 'm \<Rightarrow> bool" where
  "idle V r m \<longleftrightarrow> in_flight V m r Shmem_sheap_win = [] \<and> in_flight V m r Shmem_etext_win = []"

lemma win_of_cases: "win_of i = Shmem_sheap_win \<or> win_of i = Shmem_etext_win"
  by (simp add: win_of_def)

lemma idle_win_of: "idle V r m \<Longrightarrow> in_flight V m r (win_of i) = []"
  by (simp add: idle_def win_of_def)

text \<open>The transfer ends inside the window, as far as the shared segment needs it to.\<close>

definition in_segment :: "globals \<Rightarrow> shmem_window_id \<Rightarrow> int \<Rightarrow> int \<Rightarrow> nat \<Rightarrow> bool" where
  "in_segment g i pe off n \<longleftrightarrow>
     (use_smp g i \<longrightarrow> 0 \<le> pe \<and> pe < shmem_world_size g \<and> off + int n \<le> shmem_sheap_size g)"

lemma type_size_ends:
  assumes E: "environment V mpi g r" and ty: "predefined ty"
    and Q: "\<And>m'. same_types V m m' \<Longrightarrow> in_flight V m' = in_flight V m \<Longrightarrow>
      Q (int (predef_size ty)) (m', \<sigma>)"
  shows "ends (world V mpi r) (OSHMPI_Type_size g ty) (m, \<sigma>) Q"
proof (cases "MPICH (conf g)")
  case True
  with environmentD(3) [OF E] ty Q [of m] show ?thesis
    by (simp add: OSHMPI_Type_size_def mpich_sizes_def same_types_def)
next
  case False
  show ?thesis
    unfolding OSHMPI_Type_size_def using False
    by (simp, intro ends_neutral_int [OF type_lawsD(6) [OF environmentD(2) [OF E] ty]] Q) simp_all
qed

lemma type_size_through:
  assumes E: "environment V mpi g r" and ty: "predefined ty" and J: "J (m, \<sigma>)"
    and k: "\<And>m'. same_types V m m' \<Longrightarrow> in_flight V m' = in_flight V m \<Longrightarrow>
      through (world V mpi r) (k (int (predef_size ty))) (m', \<sigma>) J Q"
  shows "through (world V mpi r) (pbind (OSHMPI_Type_size g ty) k) (m, \<sigma>) J Q"
proof (cases "MPICH (conf g)")
  case True
  with environmentD(3) [OF E] ty k [of m] show ?thesis
    by (simp add: OSHMPI_Type_size_def mpich_sizes_def same_types_def)
next
  case False
  have "through (world V mpi r) (pbind (call_int (Ty (MPI_Type_size ty))) k) (m, \<sigma>) J Q"
    by (rule through_eff, simp, rule J,
        rule ends_neutral_int [OF type_lawsD(6) [OF environmentD(2) [OF E] ty]], simp, rule k)
  with False show ?thesis
    by (simp add: OSHMPI_Type_size_def)
qed

lemma byte_count:
  assumes "fits len ty"
  shows "unat (len * word_of_nat (predef_size ty)) = nbytes len ty"
proof -
  have "uint len * int (predef_size ty) < 2 ^ 64"
    using assms by (simp add: fits_def)
  then have "unat len * predef_size ty < 2 ^ 64"
    by (metis (mono_tags, lifting) of_nat_less_iff of_nat_mult of_nat_numeral of_nat_power
        uint_nat)
  moreover have "predef_size ty < 2 ^ 64"
    by (cases ty) simp_all
  ultimately show ?thesis
    by (simp add: nbytes_def unat_word_ariths unat_of_nat)
qed

lemma smp_range:
  assumes "smp_segments V g r" "oshmpi_window_offset g a pe = (0, i, off)" "use_smp g i"
    and "in_segment g i pe off n"
  shows "range_at (vmap V r) (smp_ptr g pe a) n = remote_range V (win_of i) pe off n"
proof (rule nth_equalityI)
  have i: "i = SHMEM_SHEAP_WINDOW" and off: "0 \<le> off" "off + int n \<le> shmem_sheap_size g"
    and pe: "0 \<le> pe" "pe < shmem_world_size g"
    using assms winlk.lookup_found [OF assms(2)] by (auto simp: use_smp_def in_segment_def)
  have p: "smp_ptr g pe a = shmem_smp_sheap_ptrs g ! nat pe + word_of_int off"
    unfolding smp_ptr_def using winlk.translated_distance [OF assms(2)] i by (simp add: win_base_def)
  fix k
  assume "k < length (range_at (vmap V r) (smp_ptr g pe a) n)"
  then have k: "k < n" by simp
  then have "vmap V r (shmem_smp_sheap_ptrs g ! nat pe + word_of_int (off + int k))
      = vmap V pe (window_base V Shmem_sheap_win pe + word_of_int (off + int k))"
    using assms(1) [unfolded smp_segments_def, rule_format, of pe "off + int k"] off k pe by linarith
  with k show "range_at (vmap V r) (smp_ptr g pe a) n ! k = remote_range V (win_of i) pe off n ! k"
    by (simp add: remote_range_def p i win_of_def add.assoc)
qed (simp add: remote_range_def)

section \<open>Puts\<close>

text \<open>
  The history after a transfer, in every build: through shared memory it is applied at once,
  so its window never has anything in flight.
\<close>

definition history ::
    "'m mpi_view \<Rightarrow> globals \<Rightarrow> int \<Rightarrow> shmem_window_id \<Rightarrow> store \<Rightarrow> flight \<Rightarrow> 'm \<Rightarrow> store \<Rightarrow> bool" where
  "history V g r i \<sigma>\<^sub>0 xs m \<sigma> \<longleftrightarrow>
     progress V r (win_of i) \<sigma>\<^sub>0 xs m \<sigma> \<and>
     (use_smp g i \<longrightarrow> in_flight V m r (win_of i) = [] \<and> \<sigma> = apply_ops xs \<sigma>\<^sub>0) \<and>
     (\<forall>w\<in>{Shmem_sheap_win, Shmem_etext_win}. w \<noteq> win_of i \<longrightarrow> in_flight V m r w = [])"

lemma history_applied:
  assumes "history V g r i \<sigma>\<^sub>0 xs m \<sigma>" "use_smp g i" "in_flight V m' = in_flight V m"
  shows "history V g r i \<sigma>\<^sub>0 (xs @ [x]) m' (apply_op (snd x) \<sigma>)"
proof -
  have h: "progress V r (win_of i) \<sigma>\<^sub>0 xs m \<sigma>" "in_flight V m r (win_of i) = []"
      "\<sigma> = apply_ops xs \<sigma>\<^sub>0"
    using assms(1,2) unfolding history_def by blast+
  then have a: "apply_op (snd x) \<sigma> = apply_ops (xs @ [x]) \<sigma>\<^sub>0" "in_flight V m' r (win_of i) = []"
    using assms(3) by (simp_all add: apply_ops_append)
  then have "progress V r (win_of i) \<sigma>\<^sub>0 (xs @ [x]) m' (apply_op (snd x) \<sigma>)"
    unfolding progress_def by (intro exI [of _ "xs @ [x]"]) simp
  with a show ?thesis
    using assms(1,3) by (simp add: history_def)
qed

lemma history_mpi:
  assumes "progress V r (win_of i) \<sigma>\<^sub>0 xs m' \<sigma>'" "\<not> use_smp g i" "untouched V r (win_of i) m m'"
    and "history V g r i \<sigma>\<^sub>0 xs0 m \<sigma>"
  shows "history V g r i \<sigma>\<^sub>0 xs m' \<sigma>'"
  using assms by (simp add: history_def untouched_def)

lemma history_cong:
  "history V g r i \<sigma>\<^sub>0 xs m \<sigma> \<Longrightarrow> in_flight V m' = in_flight V m \<Longrightarrow> history V g r i \<sigma>\<^sub>0 xs m' \<sigma>"
  by (simp add: history_def progress_def)

lemma put_through:
  assumes E: "environment V mpi g r" and f: "fits len ty"
    and l: "oshmpi_window_offset g target pe = (0, i, off)" "in_segment g i pe off (nbytes len ty)"
    and I: "history V g r i \<sigma>\<^sub>0 xs m \<sigma>"
    and J: "\<And>m' \<sigma>' ys. ys \<in> {xs, xs @ [put_op V g r (win_of i) off (nbytes len ty) source pe \<sigma>]} \<Longrightarrow>
      history V g r i \<sigma>\<^sub>0 ys m' \<sigma>' \<Longrightarrow> J (m', \<sigma>')"
  shows "through (world V mpi r) (oshmpi_put g ty target source len pe) (m, \<sigma>) J
     (\<lambda>_ (m', \<sigma>'). history V g r i \<sigma>\<^sub>0
        (xs @ [put_op V g r (win_of i) off (nbytes len ty) source pe \<sigma>]) m' \<sigma>')"
proof (cases "use_smp g i")
  case True
  have ty: "predefined ty"
    using f by (simp add: fits_def)
  let ?x = "put_op V g r (win_of i) off (nbytes len ty) source pe \<sigma>"
  have still: "J (m', \<sigma>)" if "in_flight V m' = in_flight V m" for m'
    using J [OF _ history_cong [OF I that]] by simp
  show ?thesis
    using l(1) True
    apply (simp add: oshmpi_put_def Let_def)
    apply (rule type_size_through [where J = J, OF E ty still [OF refl]])
    apply (rule through_last, simp, erule still)
    apply (rule ends_mem)
     apply (simp add: byte_count [OF f] smp_range [OF environmentD(4) [OF E True] l(1) True l(2)])
    apply (drule history_applied [OF I True, where x = ?x])
    apply (frule J [OF insertI2 [OF singletonI]])
    apply (simp add: put_op_def)
    done
next
  case False
  have "progress V r (win_of i) \<sigma>\<^sub>0 xs m \<sigma>"
    using I by (simp add: history_def)
  then have "through (world V mpi r) (oshmpi_put g ty target source len pe) (m, \<sigma>) J
     (\<lambda>_ (m', \<sigma>'). progress V r (win_of i) \<sigma>\<^sub>0
          (xs @ [put_op V g r (win_of i) off (nbytes len ty) source pe \<sigma>]) m' \<sigma>' \<and>
        untouched V r (win_of i) m m' \<and> type_balance V len m m')"
    by (rule put_mpi_through [OF environmentD(1,2) [OF E] f l(1) False])
      (rule J, assumption, rule history_mpi [OF _ False _ I])
  then show ?thesis
    by (rule through_mono) (auto intro: history_mpi [OF _ False _ I])
qed

lemmas put_history = throughD(2) [OF put_through [where J = "\<lambda>_. True", OF _ _ _ _ _ TrueI]]

lemma get_history:
  assumes E: "environment V mpi g r" and f: "fits len ty"
    and l: "oshmpi_window_offset g source pe = (0, i, off)" "in_segment g i pe off (nbytes len ty)"
    and I: "history V g r i \<sigma>\<^sub>0 xs m \<sigma>"
  shows "ends (world V mpi r) (oshmpi_get g ty target source len pe) (m, \<sigma>)
     (\<lambda>_ (m', \<sigma>'). history V g r i \<sigma>\<^sub>0
        (xs @ [get_op V g r (win_of i) off (nbytes len ty) target pe]) m' \<sigma>' \<and>
        (\<forall>y\<in>set (in_flight V m' r (win_of i)). fst y \<noteq> pe \<or> \<not> is_read (snd y)))"
proof (cases "use_smp g i")
  case True
  have ty: "predefined ty"
    using f by (simp add: fits_def)
  let ?x = "get_op V g r (win_of i) off (nbytes len ty) target pe"
  have empty: "in_flight V m r (win_of i) = []"
    using I True by (simp add: history_def)
  show ?thesis
    using l(1) True
    apply (simp add: oshmpi_get_def Let_def ends_pbind)
    apply (rule type_size_ends [OF E ty])
    apply (rule ends_mem)
     apply (simp add: byte_count [OF f] smp_range [OF environmentD(4) [OF E True] l(1) True l(2)])
    apply (frule history_applied [OF I True, where x = ?x])
    apply (simp add: get_op_def empty map_zip_map2 zip_map2)
    done
next
  case False
  have "progress V r (win_of i) \<sigma>\<^sub>0 xs m \<sigma>"
    using I by (simp add: history_def)
  from get_mpi [OF environmentD(1,2) [OF E] f l(1) False this] show ?thesis
    by (rule ends_mono) (auto intro: history_mpi [OF _ False _ I])
qed

lemma no_elements: "\<forall>x\<in>set xs. False \<Longrightarrow> xs = []"
  by (cases xs) auto

text \<open>
  Two flushes that leave nothing in flight empty both windows; one history may be non-trivial, and
  it has been applied.
\<close>

lemma both_flushed:
  assumes I: "progress V r w \<sigma>\<^sub>0 xs m \<sigma>"
    and w: "w = Shmem_sheap_win \<and> in_flight V m r Shmem_etext_win = []
          \<or> w = Shmem_etext_win \<and> in_flight V m r Shmem_sheap_win = []"
    and 1: "same_types V m m1" "legal_order (in_flight V m r Shmem_sheap_win) (don @ rest)"
      "flight_upd V m r Shmem_sheap_win rest m1"
    and 2: "same_types V m1 m2" "legal_order (in_flight V m1 r Shmem_etext_win) (don' @ rest')"
      "flight_upd V m1 r Shmem_etext_win rest' m2"
    and e: "rest = []" "rest' = []"
  shows "\<exists>ys. legal_order xs ys \<and> idle V r m2 \<and> same_types V m m2 \<and>
     apply_ops don' (apply_ops don \<sigma>) = apply_ops ys \<sigma>\<^sub>0"
proof -
  have i: "idle V r m2"
    using 1(3) 2(3) e by (simp add: idle_def flight_upd_def)
  have t: "same_types V m m2"
    using 1(1) 2(1) by (simp add: same_types_def)
  have "\<exists>ys. legal_order xs ys \<and> apply_ops don' (apply_ops don \<sigma>) = apply_ops ys \<sigma>\<^sub>0"
    using w
  proof
    assume w: "w = Shmem_sheap_win \<and> in_flight V m r Shmem_etext_win = []"
    then have "don' = []"
      using 1(3) 2(2) by (simp add: flight_upd_def)
    moreover have "progress V r w \<sigma>\<^sub>0 xs m1 (apply_ops don \<sigma>)"
      using progress_complete [OF I, of don rest m1] 1 w by blast
    ultimately show ?thesis
      using 1(3) e w by (simp add: progress_def flight_upd_def)
  next
    assume w: "w = Shmem_etext_win \<and> in_flight V m r Shmem_sheap_win = []"
    then have d: "don = []"
      using 1(2) by simp
    have "progress V r w \<sigma>\<^sub>0 xs m1 \<sigma>"
      by (rule progress_cong [OF I]) (use 1(3) w in \<open>simp add: flight_upd_def\<close>)
    then have "progress V r w \<sigma>\<^sub>0 xs m2 (apply_ops don' \<sigma>)"
      using progress_complete [of V r w \<sigma>\<^sub>0 xs m1 \<sigma> don' rest' m2] 2 w by blast
    then show ?thesis
      using 2(3) e w d by (simp add: progress_def flight_upd_def)
  qed
  with i t show ?thesis by blast
qed

lemma remote_sync_ends:
  assumes L: "rma_laws V mpi" and I: "progress V r w \<sigma>\<^sub>0 xs m \<sigma>"
    and w: "w = Shmem_sheap_win \<and> in_flight V m r Shmem_etext_win = []
          \<or> w = Shmem_etext_win \<and> in_flight V m r Shmem_sheap_win = []"
    and Q: "\<And>m' ys. legal_order xs ys \<Longrightarrow> idle V r m' \<Longrightarrow> same_types V m m' \<Longrightarrow>
      Q () (m', apply_ops ys \<sigma>\<^sub>0)"
  shows "ends (world V mpi r) oshmpi_remote_sync (m, \<sigma>) Q"
  unfolding oshmpi_remote_sync_def ends_pseq
proof (rule ends_complete [OF rma_lawsD(8) [OF L]], rule ends_complete [OF rma_lawsD(8) [OF L]])
  fix m1 don rest m2 don' rest'
  assume 1: "same_types V m m1" "legal_order (in_flight V m r Shmem_sheap_win) (don @ rest)"
      "\<forall>x\<in>set rest. False" "flight_upd V m r Shmem_sheap_win rest m1"
    and 2: "same_types V m1 m2" "legal_order (in_flight V m1 r Shmem_etext_win) (don' @ rest')"
      "\<forall>x\<in>set rest'. False" "flight_upd V m1 r Shmem_etext_win rest' m2"
  note e = no_elements [OF 1(3)] no_elements [OF 2(3)]
  show "Q () (m2, apply_ops don' (apply_ops don \<sigma>))"
    using both_flushed [OF I w 1(1,2,4) 2(1,2,4) e] Q by force
qed

text \<open>A synchronization with one PE does the same when everything in flight goes to that PE.\<close>

lemma remote_sync_pe_ends:
  assumes L: "rma_laws V mpi" and I: "progress V r w \<sigma>\<^sub>0 xs m \<sigma>" and pe: "\<forall>x\<in>set xs. fst x = pe"
    and w: "w = Shmem_sheap_win \<and> in_flight V m r Shmem_etext_win = []
          \<or> w = Shmem_etext_win \<and> in_flight V m r Shmem_sheap_win = []"
    and Q: "\<And>m' ys. legal_order xs ys \<Longrightarrow> idle V r m' \<Longrightarrow> same_types V m m' \<Longrightarrow>
      Q () (m', apply_ops ys \<sigma>\<^sub>0)"
  shows "ends (world V mpi r) (oshmpi_remote_sync_pe pe) (m, \<sigma>) Q"
  unfolding oshmpi_remote_sync_pe_def ends_pseq
proof (rule ends_complete [OF rma_lawsD(7) [OF L]], rule ends_complete [OF rma_lawsD(7) [OF L]])
  fix m1 don rest m2 don' rest'
  assume 1: "same_types V m m1" "legal_order (in_flight V m r Shmem_sheap_win) (don @ rest)"
      "\<forall>x\<in>set rest. fst x \<noteq> pe" "flight_upd V m r Shmem_sheap_win rest m1"
    and 2: "same_types V m1 m2" "legal_order (in_flight V m1 r Shmem_etext_win) (don' @ rest')"
      "\<forall>x\<in>set rest'. fst x \<noteq> pe" "flight_upd V m1 r Shmem_etext_win rest' m2"
  obtain d where "legal_order xs (d @ in_flight V m r w)" using I by (auto simp: progress_def)
  then have own: "set (in_flight V m r w) \<subseteq> set xs" using legal_order_set by force
  have sub: "set (in_flight V m r w') \<subseteq> set xs" if "w' = Shmem_sheap_win \<or> w' = Shmem_etext_win" for w'
    using that own w by auto
  have "set rest \<subseteq> set xs" using legal_order_set [OF 1(2)] sub by auto
  then have e: "rest = []" using 1(3) pe by (cases rest) auto
  have "set rest' \<subseteq> set xs"
    using legal_order_set [OF 2(2)] sub [of Shmem_etext_win] 1(4) by (auto simp: flight_upd_def)
  then have e': "rest' = []" using 2(3) pe by (cases rest') auto
  show "Q () (m2, apply_ops don' (apply_ops don \<sigma>))"
    using both_flushed [OF I w 1(1,2,4) 2(1,2,4) e e'] Q by force
qed

definition remote_of ::
    "'m mpi_view \<Rightarrow> globals \<Rightarrow> addr \<Rightarrow> int \<Rightarrow> nat \<Rightarrow> cell list" where
  "remote_of V g a pe n =
     (case oshmpi_window_offset g a pe of (ret, i, off) \<Rightarrow> remote_range V (win_of i) pe off n)"

text \<open>
  A transfer of \<open>n\<close> bytes is possible: the PE exists, and the address is in a window with \<open>n\<close>
  bytes behind it.
\<close>

definition symmetric :: "globals \<Rightarrow> addr \<Rightarrow> int \<Rightarrow> nat \<Rightarrow> bool" where
  "symmetric g a pe n \<longleftrightarrow> 0 \<le> pe \<and> pe < shmem_world_size g \<and>
     (case oshmpi_window_offset g a pe of (ret, i, off) \<Rightarrow> ret = 0 \<and> off + int n \<le> win_size g i)"

lemma symmetricE:
  assumes "symmetric g a pe n"
  obtains i off where "oshmpi_window_offset g a pe = (0, i, off)" "in_segment g i pe off n"
    "remote_of V g a pe n = remote_range V (win_of i) pe off n" "off + int n \<le> win_size g i"
  using assms
  by (auto simp: symmetric_def remote_of_def in_segment_def use_smp_def win_size_def
      split: prod.splits if_splits)

lemma history_start: "idle V r m \<Longrightarrow> history V g r i \<sigma> [] m \<sigma>"
  using idle_win_of [of V r m i] by (auto simp: history_def idle_def progress_start)

text \<open>A flush of one window applies some of the history and loses none of it.\<close>

lemma history_flush:
  assumes I: "history V g r i \<sigma>\<^sub>0 xs m \<sigma>" and w: "w \<in> {Shmem_sheap_win, Shmem_etext_win}"
    and c: "legal_order (in_flight V m r w) (don @ rest)" "flight_upd V m r w rest m'"
  shows "history V g r i \<sigma>\<^sub>0 xs m' (apply_ops don \<sigma>)"
proof (cases "w = win_of i")
  case True
  have "progress V r (win_of i) \<sigma>\<^sub>0 xs m \<sigma>"
    using I by (simp add: history_def)
  then have "progress V r (win_of i) \<sigma>\<^sub>0 xs m' (apply_ops don \<sigma>)"
    using c True by (auto intro: progress_complete)
  moreover have "don = []" "rest = []" if "in_flight V m r (win_of i) = []"
    using c(1) that True by simp_all
  ultimately show ?thesis
    using I c(2) True by (auto simp: history_def flight_upd_def)
next
  case False
  then have "in_flight V m r w = []"
    using I w by (auto simp: history_def)
  with c have "don = []" "in_flight V m' = in_flight V m"
    by (auto simp: flight_upd_def fun_eq_iff)
  with I show ?thesis
    by (simp add: history_cong)
qed

lemma remote_sync_through:
  assumes E: "environment V mpi g r" and I: "history V g r i \<sigma>\<^sub>0 xs m \<sigma>"
    and J: "\<And>m' \<sigma>'. history V g r i \<sigma>\<^sub>0 xs m' \<sigma>' \<Longrightarrow> J (m', \<sigma>')"
  shows "through (world V mpi r) oshmpi_remote_sync (m, \<sigma>) J
     (\<lambda>_ (m', \<sigma>'). history V g r i \<sigma>\<^sub>0 xs m' \<sigma>')"
  unfolding oshmpi_remote_sync_def
  apply (rule through_then, simp, rule J [OF I])
  apply (rule ends_complete [OF rma_lawsD(8) [OF environmentD(1) [OF E]]])
  apply (drule history_flush [OF I, rotated], assumption, simp)
  apply (rule through_last, simp, erule J)
  apply (rule ends_complete [OF rma_lawsD(8) [OF environmentD(1) [OF E]]])
  apply (drule history_flush [rotated 2], assumption, assumption, simp)
  apply (simp add: J)
  done

text \<open>A full synchronization applies the whole history, in one of its legal orders.\<close>

lemma history_quiet:
  assumes E: "environment V mpi g r" and I: "history V g r i \<sigma>\<^sub>0 xs m \<sigma>"
    and Q: "\<And>m' ys. legal_order xs ys \<Longrightarrow> use_smp g i \<longrightarrow> ys = xs \<Longrightarrow> idle V r m' \<Longrightarrow>
      Q () (m', apply_ops ys \<sigma>\<^sub>0)"
  shows "ends (world V mpi r) oshmpi_remote_sync (m, \<sigma>) Q"
proof -
  have w: "win_of i = Shmem_sheap_win \<and> in_flight V m r Shmem_etext_win = []
          \<or> win_of i = Shmem_etext_win \<and> in_flight V m r Shmem_sheap_win = []"
    using I by (auto simp: history_def win_of_def)
  show ?thesis
  proof (cases "use_smp g i")
    case True
    with I have h: "in_flight V m r (win_of i) = []" "\<sigma> = apply_ops xs \<sigma>\<^sub>0"
      unfolding history_def by blast+
    show ?thesis
      by (rule remote_sync_ends [OF environmentD(1) [OF E] progress_start [OF h(1)] w])
        (use Q [of xs] h(2) in simp)
  next
    case False
    have p: "progress V r (win_of i) \<sigma>\<^sub>0 xs m \<sigma>"
      using I by (simp add: history_def)
    show ?thesis
      by (rule remote_sync_ends [OF environmentD(1) [OF E] p w]) (use Q False in simp)
  qed
qed

lemma put_quiet:
  assumes E: "environment V mpi g r" and f: "fits len ty"
    and s: "symmetric g target pe (nbytes len ty)" and m: "idle V r m"
  shows "ends (world V mpi r) (pseq (oshmpi_put g ty target source len pe) oshmpi_remote_sync) (m, \<sigma>)
     (\<lambda>_ (m', \<sigma>'). idle V r m' \<and>
        \<sigma>' = apply_writes (zip (remote_of V g target pe (nbytes len ty))
                            (map \<sigma> (range_at (vmap V r) source (nbytes len ty)))) \<sigma>)"
proof -
  obtain i off where l: "oshmpi_window_offset g target pe = (0, i, off)"
      "in_segment g i pe off (nbytes len ty)"
    and rem: "remote_of V g target pe (nbytes len ty)
        = remote_range V (win_of i) pe off (nbytes len ty)"
    using symmetricE [OF s] by blast
  show ?thesis
    unfolding ends_pseq
    apply (rule ends_mono [OF put_history [OF E f l history_start [OF m]]])
    apply clarify
    apply (rule history_quiet [OF E], assumption)
    apply (simp add: put_op_def rem)
    done
qed

text \<open>A get that is alone on its window has been applied once no read to its PE is left.\<close>

lemma get_settles:
  assumes "progress V r (win_of i) \<sigma> ([] @ [x]) m' \<sigma>'" "untouched V r (win_of i) m m'" "idle V r m"
    and "x \<notin> set (in_flight V m' r (win_of i))"
  shows "idle V r m' \<and> \<sigma>' = apply_op (snd x) \<sigma>"
proof -
  obtain don where don: "legal_order [x] (don @ in_flight V m' r (win_of i))" "\<sigma>' = apply_ops don \<sigma>"
    using assms(1) by (auto simp: progress_def)
  then have "don @ in_flight V m' r (win_of i) = [x]"
    by simp
  with assms(4) have "don = [x]" "in_flight V m' r (win_of i) = []"
    by (cases "in_flight V m' r (win_of i)" rule: rev_cases; simp)+
  moreover from this have "idle V r m'"
    using assms(2,3) by (cases "i = SHMEM_SHEAP_WINDOW") (auto simp: idle_def untouched_def win_of_def)
  ultimately show ?thesis
    using don(2) by simp
qed

text \<open>
  A get is complete when it returns: the local copy has the bytes the remote object had, and
  nothing else has changed.
\<close>

lemma get_returns:
  assumes E: "environment V mpi g r" and f: "fits len ty"
    and s: "symmetric g source pe (nbytes len ty)" and m: "idle V r m"
  shows "ends (world V mpi r) (oshmpi_get g ty target source len pe) (m, \<sigma>)
     (\<lambda>_ (m', \<sigma>'). idle V r m' \<and>
        \<sigma>' = apply_writes (zip (range_at (vmap V r) target (nbytes len ty))
                            (map \<sigma> (remote_of V g source pe (nbytes len ty)))) \<sigma>)"
proof -
  obtain i off where l: "oshmpi_window_offset g source pe = (0, i, off)"
      "in_segment g i pe off (nbytes len ty)"
    and rem: "remote_of V g source pe (nbytes len ty)
        = remote_range V (win_of i) pe off (nbytes len ty)"
    using symmetricE [OF s] by blast
  show ?thesis
  proof (rule ends_mono [OF get_history [OF E f l history_start [OF m]]], clarify)
    fix m' \<sigma>'
    let ?x = "get_op V g r (win_of i) off (nbytes len ty) target pe"
    assume h: "history V g r i \<sigma> ([] @ [?x]) m' \<sigma>'"
      and no: "\<forall>y\<in>set (in_flight V m' r (win_of i)). fst y \<noteq> pe \<or> \<not> is_read (snd y)"
    obtain don where don: "legal_order [?x] (don @ in_flight V m' r (win_of i))"
        "\<sigma>' = apply_ops don \<sigma>"
      using h by (auto simp: history_def progress_def)
    have "in_flight V m' r (win_of i) = []"
      using no legal_order_set [OF don(1)] by (cases "in_flight V m' r (win_of i)")
        (auto simp: get_op_def)
    then have "idle V r m'" "don = [?x]"
      using h don(1) by (auto simp: history_def idle_def win_of_def)
    with don(2) rem show "idle V r m' \<and>
        \<sigma>' = apply_writes (zip (range_at (vmap V r) target (nbytes len ty))
                            (map \<sigma> (remote_of V g source pe (nbytes len ty)))) \<sigma>"
      by (simp add: get_op_def zip_map2)
  qed
qed

end
