(* ===== verification/Example_World.thy ===== *)
theory Example_World
  imports Mpi_Reference Data_Movement
begin

text \<open>
  Two PEs on the reference library, for the witnesses: a heap of 256 bytes at \<open>0x1000\<close> and a
  text segment of 64 bytes at \<open>0x8000\<close> on both; where the build shares the heap, PE 0's copy is
  also mapped at \<open>0x10000\<close> and PE 1's at \<open>0x20000\<close>.
\<close>

definition example_conf :: "bool \<Rightarrow> bool \<Rightarrow> config" where
  "example_conf smp ord =
     \<lparr>ENABLE_SMP_OPTIMIZATIONS = smp, ENABLE_RMA_ORDERING = ord, ENABLE_COMM_CACHING = True,
      ENABLE_MPMD_SUPPORT = False, MPICH = False, mpich_handle = (\<lambda>_. 0)\<rparr>"

definition example_globals :: "bool \<Rightarrow> bool \<Rightarrow> int \<Rightarrow> globals" where
  "example_globals smp ord r =
     \<lparr>conf = example_conf smp ord, shmem_is_initialized = True, shmem_is_finalized = False,
      shmem_world_size = 2, shmem_world_rank = r, shmem_world_is_smp = smp,
      shmem_node_size = 2, shmem_node_rank = r, shmem_smp_rank_list = [0, 1],
      shmem_smp_sheap_ptrs = [0x10000, 0x20000],
      shmem_etext_size = 64, shmem_etext_base_ptr = 0x8000,
      shmem_sheap_size = 256, shmem_sheap_base_ptr = 0x1000,
      shmem_running_mpmd = False, shmem_mpmd_my_appnum = 0\<rparr>"

definition example_map :: "int \<Rightarrow> addr \<Rightarrow> cell" where
  "example_map r a =
     (if 0x10000 \<le> uint a \<and> uint a < 0x10100 then (0, word_of_int (uint a - 0xF000))
      else if 0x20000 \<le> uint a \<and> uint a < 0x20100 then (1, word_of_int (uint a - 0x1F000))
      else (r, a))"

definition example_base :: "mpi_win \<Rightarrow> int \<Rightarrow> addr" where
  "example_base w pe = (if w = Shmem_etext_win then 0x8000 else 0x1000)"

definition example_view :: "ref_state mpi_view" where
  "example_view = ref_view example_map example_base"

definition example_mpi :: "bool \<Rightarrow> int \<Rightarrow> ref_state world mpi" where
  "example_mpi lazy = reference_mpi lazy example_view"

definition example_start :: ref_state where
  "example_start = \<lparr>queue = (\<lambda>_ _. []), maps = (\<lambda>_. []), handles = []\<rparr>"

text \<open>Every byte of the example memory depends on its address and on the PE.\<close>

definition example_store :: store where
  "example_store = (\<lambda>(r, a). word_of_int (r * 128) + ucast a)"

lemmas example_simps = example_conf_def example_globals_def example_base_def example_start_def

lemma example_laws [simp]:
  "rma_laws example_view (example_mpi lazy)" "type_laws example_view (example_mpi lazy)"
  by (simp_all add: example_view_def example_mpi_def reference_rma_laws reference_type_laws)

lemma example_segments: "smp_segments example_view (example_globals smp ord r) r'"
  unfolding smp_segments_def
proof (intro allI impI)
  fix pe off :: int
  assume "0 \<le> pe" "pe < shmem_world_size (example_globals smp ord r)"
    and off: "0 \<le> off" "off < shmem_sheap_size (example_globals smp ord r)"
  then have "pe = 0 \<or> pe = 1"
    by (auto simp: example_globals_def)
  moreover have u: "uint (c + word_of_int off :: addr) = uint c + off" if "uint c < 2 ^ 32" for c
    using off that by (simp add: example_globals_def uint_word_ariths uint_word_of_int)
  have "example_map r' (0x10000 + word_of_int off) = (0, 0x1000 + word_of_int off)"
    "example_map r' (0x20000 + word_of_int off) = (1, 0x1000 + word_of_int off)"
    "example_map p (0x1000 + word_of_int off) = (p, 0x1000 + word_of_int off)" for p
    using off by (simp_all add: example_map_def u example_globals_def)
  ultimately show "vmap example_view r' (shmem_smp_sheap_ptrs (example_globals smp ord r) ! nat pe
        + word_of_int off)
      = vmap example_view pe (window_base example_view Shmem_sheap_win pe + word_of_int off)"
    by (auto simp: example_globals_def example_view_def example_base_def)
qed

lemma example_environment [simp]:
  "environment example_view (example_mpi lazy) (example_globals smp ord r) r"
  by (simp add: environment_def example_segments) (simp add: example_globals_def example_conf_def)

lemma example_idle [simp]: "idle example_view r example_start"
  by (simp add: idle_def example_view_def example_start_def)

end
