(* ===== verification/Ordering.thy ===== *)
theory Ordering
  imports Example_World
begin

text \<open>
  \<open>shmem_quiet\<close> and \<open>shmem_fence\<close> of \<open>src/src/shmem.c\<close> and what they give a program that issues
  many puts: a quiet completes them, in program order where the build orders accumulates, where
  the heap is shared, or where the targets do not overlap. A fence is a quiet, so that nothing
  issued after it can be seen before what was issued ahead of it, unless the build relies on
  ordered accumulates: then it completes nothing, and MPI orders accumulates in one location only.

  \<open>visible\<close> is what another PE may find in memory at a moment: the settled memory and any part
  of the operations in flight, in an order MPI allows.
\<close>

definition shmem_quiet :: "globals \<Rightarrow> unit shm" where
  "shmem_quiet g = pseq oshmpi_remote_sync (oshmpi_local_sync g)"

text \<open>
  \<open>ENABLE_RMA_ORDERING\<close> means that RMA operations are ordered. Elsewhere the fence is a quiet,
  which is scalable; a fence for each rank is not.
\<close>

definition shmem_fence :: "globals \<Rightarrow> unit shm" where
  "shmem_fence g =
     pseq (pwhen (\<not> ENABLE_RMA_ORDERING (conf g)) oshmpi_remote_sync) (oshmpi_local_sync g)"

lemma local_sync_ends:
  assumes L: "rma_laws V mpi"
    and Q: "\<And>m'. same_types V m m' \<Longrightarrow> in_flight V m' = in_flight V m \<Longrightarrow> Q () (m', \<sigma>)"
  shows "ends (world V mpi r) (oshmpi_local_sync g) (m, \<sigma>) Q"
proof -
  have s: "ends (world V mpi r) (pseq (call (Rma (MPI_Win_sync Shmem_sheap_win)))
             (call (Rma (MPI_Win_sync Shmem_etext_win)))) (m, \<sigma>) Q"
    unfolding ends_pseq
    apply (rule ends_neutral [OF rma_lawsD(9) [OF L]], simp)
    apply (rule ends_neutral [OF rma_lawsD(9) [OF L]], simp)
    apply (rule Q)
     apply (simp_all add: same_types_def)
    done
  show ?thesis
  proof (cases "ENABLE_SMP_OPTIMIZATIONS (conf g)")
    case True
    show ?thesis
      unfolding oshmpi_local_sync_def using True
      by (simp only: pwhen_simps, subst ends_pseq, intro ends_mem) (rule mem_step.simps, rule s)
  next
    case False
    with s show ?thesis
      by (simp add: oshmpi_local_sync_def)
  qed
qed

text \<open>A local synchronization only issues fences of the processor and of the windows.\<close>

lemma local_sync_through:
  assumes L: "rma_laws V mpi"
    and J: "\<And>m'. in_flight V m' = in_flight V m \<Longrightarrow> J (m', \<sigma>)"
  shows "through (world V mpi r) (oshmpi_local_sync g) (m, \<sigma>) J
     (\<lambda>_ (m', \<sigma>'). \<sigma>' = \<sigma> \<and> in_flight V m' = in_flight V m)"
proof -
  have s: "through (world V mpi r) (pseq (call (Rma (MPI_Win_sync Shmem_sheap_win)))
      (call (Rma (MPI_Win_sync Shmem_etext_win)))) (m, \<sigma>) J
     (\<lambda>_ (m', \<sigma>'). \<sigma>' = \<sigma> \<and> in_flight V m' = in_flight V m)"
    apply (rule through_then, simp, simp add: J)
    apply (rule ends_neutral [OF rma_lawsD(9) [OF L]], simp)
    apply (rule through_last, simp, simp add: J)
    apply (rule ends_neutral [OF rma_lawsD(9) [OF L]], simp)
    apply (simp add: J)
    done
  have "through (world V mpi r) (pseq (call (Mem Sync_synchronize))
      (pseq (call (Rma (MPI_Win_sync Shmem_sheap_win)))
      (call (Rma (MPI_Win_sync Shmem_etext_win))))) (m, \<sigma>) J
     (\<lambda>_ (m', \<sigma>'). \<sigma>' = \<sigma> \<and> in_flight V m' = in_flight V m)"
    by (rule through_then, simp, simp add: J, rule ends_mem, rule mem_step.simps, rule s)
  with s show ?thesis
    by (simp add: oshmpi_local_sync_def pwhen_def)
qed

section \<open>What another PE may see\<close>

definition visible :: "'m mpi_view \<Rightarrow> int \<Rightarrow> 'm world \<Rightarrow> store \<Rightarrow> bool" where
  "visible V r s v \<longleftrightarrow>
     (\<exists>xs xr ys yr. legal_order (in_flight V (fst s) r Shmem_sheap_win) (xs @ xr) \<and>
        legal_order (in_flight V (fst s) r Shmem_etext_win) (ys @ yr) \<and>
        v = apply_ops ys (apply_ops xs (snd s)))"

lemma history_in_flight:
  assumes "history V g r i \<sigma>\<^sub>0 zs m \<sigma>" "w \<in> {Shmem_sheap_win, Shmem_etext_win}"
    and "legal_order (in_flight V m r w) (xs @ xr)" "x \<in> set xs"
  shows "x \<in> set zs"
proof -
  obtain don where "legal_order zs (don @ in_flight V m r (win_of i))"
    using assms(1) by (auto simp: history_def progress_def)
  then have "set (in_flight V m r (win_of i)) \<subseteq> set zs"
    using legal_order_set by force
  moreover have "x \<in> set (in_flight V m r w)"
    using legal_order_set [OF assms(3)] assms(4) by auto
  ultimately show ?thesis
    using assms(1,2) by (cases "w = win_of i") (auto simp: history_def)
qed

lemma visible_history:
  assumes h: "history V g r i \<sigma>\<^sub>0 zs m \<sigma>" and v: "visible V r (m, \<sigma>) v"
    and c: "\<And>x. x \<in> set zs \<Longrightarrow> c \<notin> written (snd x)"
  shows "v c = \<sigma>\<^sub>0 c"
proof -
  obtain xs xr ys yr where
      x: "legal_order (in_flight V m r Shmem_sheap_win) (xs @ xr)"
    and y: "legal_order (in_flight V m r Shmem_etext_win) (ys @ yr)"
    and v: "v = apply_ops ys (apply_ops xs \<sigma>)"
    using v by (auto simp: visible_def)
  have "v c = \<sigma> c"
    unfolding v using history_in_flight [OF h _ x] history_in_flight [OF h _ y] c
    by (simp add: apply_ops_other)
  also have "\<dots> = \<sigma>\<^sub>0 c"
    using h c by (auto simp: history_def intro: progress_other)
  finally show ?thesis .
qed

section \<open>Sequences of puts\<close>

type_synonym put_request = "mpi_type \<times> addr \<times> addr \<times> size_t" \<comment> \<open>type, target, source, count\<close>

definition puts :: "globals \<Rightarrow> int \<Rightarrow> put_request list \<Rightarrow> unit shm" where
  "puts g pe ps =
     pseqs (map (\<lambda>(ty, target, source, len). oshmpi_put g ty target source len pe) ps)"

definition req_source :: "'m mpi_view \<Rightarrow> int \<Rightarrow> put_request \<Rightarrow> cell list" where
  "req_source V r p =
     (case p of (ty, target, source, len) \<Rightarrow> range_at (vmap V r) source (nbytes len ty))"

definition req_target :: "'m mpi_view \<Rightarrow> globals \<Rightarrow> int \<Rightarrow> put_request \<Rightarrow> cell list" where
  "req_target V g pe p =
     (case p of (ty, target, source, len) \<Rightarrow> remote_of V g target pe (nbytes len ty))"

definition req_writes ::
    "'m mpi_view \<Rightarrow> globals \<Rightarrow> int \<Rightarrow> int \<Rightarrow> store \<Rightarrow> put_request \<Rightarrow> (cell \<times> byte) list" where
  "req_writes V g r pe \<sigma> p = zip (req_target V g pe p) (map \<sigma> (req_source V r p))"

definition req_op ::
    "'m mpi_view \<Rightarrow> globals \<Rightarrow> int \<Rightarrow> int \<Rightarrow> store \<Rightarrow> put_request \<Rightarrow> int \<times> rma_op" where
  "req_op V g r pe \<sigma> p = (pe, Write (ENABLE_RMA_ORDERING (conf g)) (req_writes V g r pe \<sigma> p))"

text \<open>Every request is a valid put to window \<open>i\<close> of PE \<open>pe\<close>.\<close>

definition valid_req :: "globals \<Rightarrow> int \<Rightarrow> shmem_window_id \<Rightarrow> put_request \<Rightarrow> bool" where
  "valid_req g pe i p =
     (case p of (ty, target, source, len) \<Rightarrow>
        fits len ty \<and> symmetric g target pe (nbytes len ty)
        \<and> fst (snd (oshmpi_window_offset g target pe)) = i)"

text \<open>No source is overwritten by one of the puts.\<close>

definition stable_sources ::
    "'m mpi_view \<Rightarrow> globals \<Rightarrow> int \<Rightarrow> int \<Rightarrow> put_request list \<Rightarrow> bool" where
  "stable_sources V g r pe ps \<longleftrightarrow>
     (\<forall>p\<in>set ps. \<forall>q\<in>set ps. set (req_source V r p) \<inter> set (req_target V g pe q) = {})"

lemma stable_sourcesD:
  "stable_sources V g r pe ps \<Longrightarrow> p \<in> set ps \<Longrightarrow> q \<in> set ps \<Longrightarrow> c \<in> set (req_source V r p) \<Longrightarrow>
   c \<notin> set (req_target V g pe q)"
  unfolding stable_sources_def by blast

lemma written_req_op: "written (snd (req_op V g r pe \<sigma> p)) \<subseteq> set (req_target V g pe p)"
  by (auto simp: req_op_def req_writes_def dest: set_zip_leftD)

lemma req_op_cong:
  "(\<And>c. c \<in> set (req_source V r p) \<Longrightarrow> \<sigma> c = \<sigma>' c) \<Longrightarrow> req_op V g r pe \<sigma> p = req_op V g r pe \<sigma>' p"
  by (simp add: req_op_def req_writes_def cong: map_cong)

lemma put_request_through:
  assumes E: "environment V mpi g r" and p: "valid_req g pe i (ty, target, source, len)"
    and I: "history V g r i \<sigma>\<^sub>0 xs m \<sigma>"
    and J: "\<And>m' \<sigma>' ys. ys \<in> {xs, xs @ [req_op V g r pe \<sigma> (ty, target, source, len)]} \<Longrightarrow>
      history V g r i \<sigma>\<^sub>0 ys m' \<sigma>' \<Longrightarrow> J (m', \<sigma>')"
  shows "through (world V mpi r) (oshmpi_put g ty target source len pe) (m, \<sigma>) J
     (\<lambda>_ (m', \<sigma>'). history V g r i \<sigma>\<^sub>0
        (xs @ [req_op V g r pe \<sigma> (ty, target, source, len)]) m' \<sigma>')"
proof -
  have f: "fits len ty" and s: "symmetric g target pe (nbytes len ty)"
    using p by (simp_all add: valid_req_def)
  obtain off where l: "oshmpi_window_offset g target pe = (0, i, off)"
      "in_segment g i pe off (nbytes len ty)"
    and rem: "remote_of V g target pe (nbytes len ty)
        = remote_range V (win_of i) pe off (nbytes len ty)"
  proof (rule symmetricE [OF s])
    fix j off
    assume "oshmpi_window_offset g target pe = (0, j, off)"
      "in_segment g j pe off (nbytes len ty)"
      "remote_of V g target pe (nbytes len ty) = remote_range V (win_of j) pe off (nbytes len ty)"
    with p show thesis
      by (intro that [of off]) (simp_all add: valid_req_def)
  qed
  have "req_op V g r pe \<sigma> (ty, target, source, len)
      = put_op V g r (win_of i) off (nbytes len ty) source pe \<sigma>"
    by (simp add: req_op_def req_writes_def req_target_def req_source_def put_op_def rem)
  with put_through [OF E f l I, where source = source and J = J] J show ?thesis
    by simp
qed

lemma history_other:
  "history V g r i \<sigma>\<^sub>0 xs m \<sigma> \<Longrightarrow> (\<And>x. x \<in> set xs \<Longrightarrow> c \<notin> written (snd x)) \<Longrightarrow> \<sigma> c = \<sigma>\<^sub>0 c"
  by (rule progress_other) (auto simp: history_def)

lemma puts_through:
  assumes E: "environment V mpi g r" and v: "\<forall>p\<in>set ps. valid_req g pe i p"
    and I: "history V g r i \<sigma>\<^sub>0 (map (req_op V g r pe \<sigma>\<^sub>0) qs) m \<sigma>"
    and s: "stable_sources V g r pe (qs @ ps)"
    and J: "\<And>m' \<sigma>' ys. set ys \<subseteq> req_op V g r pe \<sigma>\<^sub>0 ` set (qs @ ps) \<Longrightarrow>
      history V g r i \<sigma>\<^sub>0 ys m' \<sigma>' \<Longrightarrow> J (m', \<sigma>')"
  shows "through (world V mpi r) (puts g pe ps) (m, \<sigma>) J
     (\<lambda>_ (m', \<sigma>'). history V g r i \<sigma>\<^sub>0 (map (req_op V g r pe \<sigma>\<^sub>0) (qs @ ps)) m' \<sigma>')"
  using v I s J
proof (induction ps arbitrary: qs m \<sigma>)
  case Nil
  have "J (m, \<sigma>)"
    by (rule Nil.prems(4) [OF _ Nil.prems(2)]) simp
  with Nil show ?case by (simp add: puts_def)
next
  case (Cons p ps)
  obtain ty target source len where p: "p = (ty, target, source, len)"
    by (cases p) auto
  have "\<sigma> c = \<sigma>\<^sub>0 c" if "c \<in> set (req_source V r p)" for c
  proof (rule history_other [OF Cons.prems(2)])
    fix x
    assume "x \<in> set (map (req_op V g r pe \<sigma>\<^sub>0) qs)"
    then obtain q where q: "q \<in> set qs" "x = req_op V g r pe \<sigma>\<^sub>0 q" by auto
    then have "c \<notin> set (req_target V g pe q)"
      by (intro stable_sourcesD [OF Cons.prems(3) _ _ that]) simp_all
    with written_req_op [of V g r pe \<sigma>\<^sub>0 q] q(2) show "c \<notin> written (snd x)"
      by blast
  qed
  then have same: "req_op V g r pe \<sigma> p = req_op V g r pe \<sigma>\<^sub>0 p"
    by (rule req_op_cong)
  have step: "puts g pe (p # ps) = pseq (oshmpi_put g ty target source len pe) (puts g pe ps)"
    by (simp add: puts_def p)
  have v: "valid_req g pe i (ty, target, source, len)"
    using Cons.prems(1) p by simp
  show ?case
    unfolding step through_pseq
  proof (rule through_mono [OF put_request_through [OF E v Cons.prems(2), of J]])
    fix m' \<sigma>' ys
    assume "ys \<in> {map (req_op V g r pe \<sigma>\<^sub>0) qs,
        map (req_op V g r pe \<sigma>\<^sub>0) qs @ [req_op V g r pe \<sigma> (ty, target, source, len)]}"
      and h: "history V g r i \<sigma>\<^sub>0 ys m' \<sigma>'"
    then have "set ys \<subseteq> req_op V g r pe \<sigma>\<^sub>0 ` set (qs @ p # ps)"
      using same p by auto
    then show "J (m', \<sigma>')"
      using h by (rule Cons.prems(4))
  next
    fix a s'
    assume "case s' of (m1, \<sigma>1) \<Rightarrow> history V g r i \<sigma>\<^sub>0 (map (req_op V g r pe \<sigma>\<^sub>0) qs @
        [req_op V g r pe \<sigma> (ty, target, source, len)]) m1 \<sigma>1"
    then obtain m1 \<sigma>1 where s': "s' = (m1, \<sigma>1)" and "history V g r i \<sigma>\<^sub>0 (map (req_op V g r pe \<sigma>\<^sub>0) qs @
        [req_op V g r pe \<sigma> (ty, target, source, len)]) m1 \<sigma>1"
      by auto
    then have "history V g r i \<sigma>\<^sub>0 (map (req_op V g r pe \<sigma>\<^sub>0) (qs @ [p])) m1 \<sigma>1"
      using same p by simp
    then show "through (world V mpi r) (puts g pe ps) s' J
        (\<lambda>_ (m', \<sigma>'). history V g r i \<sigma>\<^sub>0 (map (req_op V g r pe \<sigma>\<^sub>0) (qs @ p # ps)) m' \<sigma>')"
      using Cons.IH [of "qs @ [p]" m1 \<sigma>1] Cons.prems(1,3,4) s' by simp
  qed
qed

lemmas puts_history = throughD(2) [OF puts_through [where J = "\<lambda>_. True", OF _ _ _ _ TrueI]]

section \<open>Orders that do not matter\<close>

definition separate :: "flight \<Rightarrow> bool" where
  "separate xs \<longleftrightarrow>
     (\<forall>x\<in>set xs. \<forall>y\<in>set xs. x \<noteq> y \<longrightarrow> written (snd x) \<inter> written (snd y) = {})"

definition only_writes :: "flight \<Rightarrow> bool" where
  "only_writes xs \<longleftrightarrow> (\<forall>x\<in>set xs. \<exists>ord ws. snd x = Write ord ws)"

lemma apply_writes_known:
  "c \<in> fst ` set ws \<Longrightarrow> apply_writes ws \<sigma> c = apply_writes ws \<sigma>' c"
proof (induction ws arbitrary: \<sigma> \<sigma>')
  case Nil
  then show ?case by simp
next
  case (Cons w ws)
  show ?case
  proof (cases "c \<in> fst ` set ws")
    case True
    then show ?thesis by (simp add: Cons.IH)
  next
    case False
    with Cons.prems have "fst w = c" by auto
    with False show ?thesis
      by (simp add: apply_writes_other)
  qed
qed

lemma apply_op_known:
  assumes "snd x = Write ord ws" "c \<in> written (snd x)"
  shows "apply_op (snd x) \<sigma> c = apply_op (snd x) \<sigma>' c"
  using assms by (simp add: apply_writes_known [of c ws \<sigma> \<sigma>'])

text \<open>With separate footprints, the operation that writes a cell decides its value.\<close>

lemma apply_ops_separate:
  assumes "only_writes xs" "separate xs" "x \<in> set xs" "c \<in> written (snd x)"
  shows "apply_ops xs \<sigma> c = apply_op (snd x) \<tau> c"
  using assms
proof (induction xs arbitrary: \<sigma>)
  case Nil
  then show ?case by simp
next
  case (Cons y ys)
  have w: "only_writes ys" "separate ys"
    using Cons.prems(1,2) by (simp_all add: only_writes_def separate_def)
  show ?case
  proof (cases "x \<in> set ys")
    case True
    with Cons.IH [OF w] Cons.prems(4) show ?thesis by simp
  next
    case False
    then have xy: "x = y" using Cons.prems(3) by simp
    have "c \<notin> written (snd z)" if "z \<in> set ys" for z
    proof -
      have "z \<noteq> x" using False that by blast
      then show ?thesis
        using Cons.prems that unfolding separate_def by (metis disjoint_iff list.set_intros(2))
    qed
    then have "apply_ops ys (apply_op (snd x) \<sigma>) c = apply_op (snd x) \<sigma> c"
      by (rule apply_ops_other)
    moreover obtain ord ws where "snd x = Write ord ws"
      using Cons.prems(1,3) by (auto simp: only_writes_def)
    ultimately show ?thesis
      using apply_op_known [of x ord ws c \<sigma> \<tau>] Cons.prems(4) xy by simp
  qed
qed

lemma apply_ops_same_set:
  assumes "only_writes xs" "separate xs" "set ys = set xs"
  shows "apply_ops ys \<sigma> = apply_ops xs \<sigma>"
proof
  fix c
  have ys: "only_writes ys" "separate ys"
    using assms by (simp_all add: only_writes_def separate_def)
  show "apply_ops ys \<sigma> c = apply_ops xs \<sigma> c"
  proof (cases "\<exists>x\<in>set xs. c \<in> written (snd x)")
    case True
    then obtain x where x: "x \<in> set xs" "c \<in> written (snd x)" by blast
    with assms(3) have "x \<in> set ys" by simp
    from apply_ops_separate [OF ys this x(2), of \<sigma> \<sigma>]
      apply_ops_separate [OF assms(1,2) x, of \<sigma> \<sigma>]
    show ?thesis by simp
  next
    case False
    then have "apply_ops zs \<sigma> c = \<sigma> c" if "set zs = set xs" for zs
      using that by (intro apply_ops_other) blast
    with assms(3) show ?thesis by simp
  qed
qed

text \<open>Writes that are ordered in every location have one result: a cell is decided where it lies.\<close>

lemma apply_op_at: "\<sigma> c = \<sigma>' c \<Longrightarrow> apply_op (Write ord ws) \<sigma> c = apply_op (Write ord ws) \<sigma>' c"
  by (cases "c \<in> fst ` set ws") (auto simp: apply_writes_other intro: apply_writes_known)

lemma apply_ops_at:
  assumes "only_writes xs" "\<forall>x\<in>set xs. ordered_op (snd x)" "\<sigma> c = \<sigma>' c"
  shows "apply_ops xs \<sigma> c = apply_ops (filter (ordered_at c) xs) \<sigma>' c"
  using assms
proof (induction xs arbitrary: \<sigma> \<sigma>')
  case Nil
  then show ?case by simp
next
  case (Cons x xs)
  obtain t ord ws where x: "x = (t, Write ord ws)"
    using Cons.prems(1) by (cases x) (auto simp: only_writes_def)
  have xs: "only_writes xs" "\<forall>x\<in>set xs. ordered_op (snd x)"
    using Cons.prems(1,2) by (simp_all add: only_writes_def)
  show ?case
  proof (cases "c \<in> fst ` set ws")
    case True
    have "apply_writes ws \<sigma> c = apply_writes ws \<sigma>' c"
      by (rule apply_writes_known [OF True])
    with True Cons.IH [OF xs, of "apply_writes ws \<sigma>" "apply_writes ws \<sigma>'"] Cons.prems(2) x show ?thesis
      by (simp add: ordered_at_def)
  next
    case False
    then have "apply_writes ws \<sigma> c = \<sigma>' c"
      using Cons.prems(3) by (simp add: apply_writes_other)
    with False Cons.IH [OF xs, of "apply_writes ws \<sigma>" \<sigma>'] x show ?thesis
      by (simp add: ordered_at_def)
  qed
qed

lemma apply_ops_ordered:
  assumes "legal_order xs ys" "only_writes xs" "\<forall>x\<in>set xs. ordered_op (snd x)"
  shows "apply_ops ys \<sigma> = apply_ops xs \<sigma>"
proof
  fix c
  have ys: "only_writes ys" "\<forall>x\<in>set ys. ordered_op (snd x)"
    using assms(2,3) by (simp_all add: only_writes_def legal_order_set [OF assms(1)])
  have "filter (ordered_at c) ys = filter (ordered_at c) xs"
    using assms(1) by (cases c) (simp add: legal_order_def)
  then show "apply_ops ys \<sigma> c = apply_ops xs \<sigma> c"
    using apply_ops_at [OF ys, of \<sigma> c \<sigma>] apply_ops_at [OF assms(2,3), of \<sigma> c \<sigma>] by simp
qed

text \<open>
  The build, or the program, makes the order of a list of puts irrelevant or fixes it: RMA is
  ordered, or the heap is shared, or the targets do not overlap.
\<close>

definition order_safe ::
    "'m mpi_view \<Rightarrow> globals \<Rightarrow> shmem_window_id \<Rightarrow> int \<Rightarrow> put_request list \<Rightarrow> bool" where
  "order_safe V g i pe ps \<longleftrightarrow>
     ENABLE_RMA_ORDERING (conf g) \<or> use_smp g i \<or>
     (\<forall>p\<in>set ps. \<forall>q\<in>set ps. p \<noteq> q \<longrightarrow> set (req_target V g pe p) \<inter> set (req_target V g pe q) = {})"

lemma only_writes_req [simp]: "only_writes (map (req_op V g r pe \<sigma>) ps)"
  by (auto simp: only_writes_def req_op_def)

lemma separate_req:
  assumes "\<forall>p\<in>set ps. \<forall>q\<in>set ps. p \<noteq> q \<longrightarrow> set (req_target V g pe p) \<inter> set (req_target V g pe q) = {}"
  shows "separate (map (req_op V g r pe \<sigma>) ps)"
  unfolding separate_def set_map
proof (intro ballI impI, elim imageE)
  fix x y p q
  assume x: "x \<noteq> y" "x = req_op V g r pe \<sigma> p" "y = req_op V g r pe \<sigma> q"
    and pq: "p \<in> set ps" "q \<in> set ps"
  have "p \<noteq> q" using x by auto
  with pq assms have "set (req_target V g pe p) \<inter> set (req_target V g pe q) = {}"
    by simp
  moreover have "written (snd x) \<subseteq> set (req_target V g pe p)"
      "written (snd y) \<subseteq> set (req_target V g pe q)"
    unfolding x(2,3) by (rule written_req_op)+
  ultimately show "written (snd x) \<inter> written (snd y) = {}"
    by blast
qed

lemma apply_legal_req:
  assumes "order_safe V g i pe ps" "legal_order (map (req_op V g r pe \<sigma>) ps) ys"
    and "use_smp g i \<longrightarrow> ys = map (req_op V g r pe \<sigma>) ps"
  shows "apply_ops ys \<tau> = apply_ops (map (req_op V g r pe \<sigma>) ps) \<tau>"
  using assms(1) unfolding order_safe_def
proof (elim disjE)
  assume "ENABLE_RMA_ORDERING (conf g)"
  then have "\<forall>x\<in>set (map (req_op V g r pe \<sigma>) ps). ordered_op (snd x)"
    by (auto simp: req_op_def)
  with assms(2) show ?thesis
    by (intro apply_ops_ordered) simp_all
next
  assume "use_smp g i"
  with assms(3) show ?thesis by simp
next
  assume "\<forall>p\<in>set ps. \<forall>q\<in>set ps. p \<noteq> q \<longrightarrow>
      set (req_target V g pe p) \<inter> set (req_target V g pe q) = {}"
  then show ?thesis
    by (intro apply_ops_same_set legal_order_set [OF assms(2)] separate_req) simp_all
qed

lemma apply_ops_req:
  "apply_ops (map (req_op V g r pe \<sigma>) ps) \<tau> = apply_writes (concat (map (req_writes V g r pe \<sigma>) ps)) \<tau>"
  by (induction ps arbitrary: \<tau>) (simp_all add: req_op_def apply_writes_append)

section \<open>Quiet and fence\<close>

lemma quiet_history:
  assumes E: "environment V mpi g r" and I: "history V g r i \<sigma>\<^sub>0 xs m \<sigma>"
    and Q: "\<And>m' ys. legal_order xs ys \<Longrightarrow> use_smp g i \<longrightarrow> ys = xs \<Longrightarrow> idle V r m' \<Longrightarrow>
      Q () (m', apply_ops ys \<sigma>\<^sub>0)"
  shows "ends (world V mpi r) (shmem_quiet g) (m, \<sigma>) Q"
  unfolding shmem_quiet_def ends_pseq
proof (rule history_quiet [OF E I])
  fix m1 ys
  assume 1: "legal_order xs ys" "use_smp g i \<longrightarrow> ys = xs" "idle V r m1"
  show "ends (world V mpi r) (oshmpi_local_sync g) (m1, apply_ops ys \<sigma>\<^sub>0) Q"
    by (rule local_sync_ends [OF environmentD(1) [OF E]])
      (rule Q [OF 1(1,2)], use 1(3) in \<open>simp add: idle_def\<close>)
qed

lemma puts_then_quiet:
  assumes E: "environment V mpi g r" and v: "\<forall>p\<in>set ps. valid_req g pe i p"
    and s: "stable_sources V g r pe ps" and o: "order_safe V g i pe ps" and m: "idle V r m"
  shows "ends (world V mpi r) (pseq (puts g pe ps) (shmem_quiet g)) (m, \<sigma>)
     (\<lambda>_ (m', \<sigma>'). idle V r m' \<and>
        \<sigma>' = apply_writes (concat (map (req_writes V g r pe \<sigma>) ps)) \<sigma>)"
  unfolding ends_pseq
proof (rule ends_mono [OF puts_history [OF E v, where qs = "[]" and \<sigma>\<^sub>0 = \<sigma>]], goal_cases)
  case 1
  show ?case using history_start [OF m] by simp
next
  case 2
  show ?case using s by simp
next
  case (3 a s')
  then obtain m1 \<sigma>1 where s': "s' = (m1, \<sigma>1)"
      and h: "history V g r i \<sigma> (map (req_op V g r pe \<sigma>) ps) m1 \<sigma>1"
    by auto
  show ?case
    unfolding s'
    by (rule quiet_history [OF E h]) (simp add: apply_legal_req [OF o] apply_ops_req)
qed

text \<open>All along a quiet the history is the same: more and more of it has been applied.\<close>

lemma quiet_through:
  assumes E: "environment V mpi g r" and I: "history V g r i \<sigma>\<^sub>0 xs m \<sigma>"
    and J: "\<And>m' \<sigma>'. history V g r i \<sigma>\<^sub>0 xs m' \<sigma>' \<Longrightarrow> J (m', \<sigma>')"
  shows "through (world V mpi r) (shmem_quiet g) (m, \<sigma>) J
     (\<lambda>_ (m', \<sigma>'). idle V r m' \<and>
        (\<exists>ys. legal_order xs ys \<and> (use_smp g i \<longrightarrow> ys = xs) \<and> \<sigma>' = apply_ops ys \<sigma>\<^sub>0))"
proof -
  have "through (world V mpi r) (shmem_quiet g) (m, \<sigma>) J (\<lambda>_ _. True)"
    unfolding shmem_quiet_def through_pseq
  proof (rule through_mono [OF remote_sync_through [where J = J, OF E I J]], assumption+)
    fix a s'
    assume "case s' of (m', \<sigma>') \<Rightarrow> history V g r i \<sigma>\<^sub>0 xs m' \<sigma>'"
    then obtain m1 \<sigma>1 where s': "s' = (m1, \<sigma>1)" and h: "history V g r i \<sigma>\<^sub>0 xs m1 \<sigma>1" by auto
    show "through (world V mpi r) (oshmpi_local_sync g) s' J (\<lambda>_ _. True)"
      unfolding s'
      by (rule through_mono [OF local_sync_through [OF environmentD(1) [OF E], where J = J]])
        (auto intro: J history_cong [OF h])
  qed
  then have al: "along (world V mpi r) (shmem_quiet g) (m, \<sigma>) J"
    by (rule throughD)
  moreover have "ends (world V mpi r) (shmem_quiet g) (m, \<sigma>)
     (\<lambda>_ (m', \<sigma>'). idle V r m' \<and>
        (\<exists>ys. legal_order xs ys \<and> (use_smp g i \<longrightarrow> ys = xs) \<and> \<sigma>' = apply_ops ys \<sigma>\<^sub>0))"
    by (rule quiet_history [OF E I]) auto
  ultimately show ?thesis
    by (simp add: through_def)
qed

lemma fence_is_quiet: "\<not> ENABLE_RMA_ORDERING (conf g) \<Longrightarrow> shmem_fence g = shmem_quiet g"
  by (simp add: shmem_fence_def shmem_quiet_def)

lemma req_writes_cong:
  assumes "\<forall>q\<in>set qs. \<forall>c\<in>set (req_source V r q). \<sigma>' c = \<sigma> c"
  shows "map (req_writes V g r pe \<sigma>') qs = map (req_writes V g r pe \<sigma>) qs"
proof (rule map_cong [OF refl])
  fix q
  assume "q \<in> set qs"
  with assms have "map \<sigma>' (req_source V r q) = map \<sigma> (req_source V r q)"
    by (intro map_cong [OF refl]) simp
  then show "req_writes V g r pe \<sigma>' q = req_writes V g r pe \<sigma> q"
    by (simp only: req_writes_def)
qed

lemma sources_unchanged:
  assumes "stable_sources V g r pe (ps @ qs)" "q \<in> set qs" "c \<in> set (req_source V r q)"
  shows "apply_ops (map (req_op V g r pe \<sigma>) ps) \<tau> c = \<tau> c"
proof (rule apply_ops_other)
  fix x
  assume "x \<in> set (map (req_op V g r pe \<sigma>) ps)"
  then obtain p where p: "p \<in> set ps" "x = req_op V g r pe \<sigma> p" by auto
  then have "c \<notin> set (req_target V g pe p)"
    by (intro stable_sourcesD [OF assms(1) _ _ assms(3)]) (simp_all add: assms(2))
  with written_req_op [of V g r pe \<sigma> p] show "c \<notin> written (snd x)"
    unfolding p(2) by blast
qed

text \<open>The cells a list of puts writes, and what may be seen while it is on its way.\<close>

definition target_cells :: "'m mpi_view \<Rightarrow> globals \<Rightarrow> int \<Rightarrow> put_request list \<Rightarrow> cell set" where
  "target_cells V g pe ps = (\<Union>p\<in>set ps. set (req_target V g pe p))"

lemma visible_puts:
  assumes "set ys \<subseteq> req_op V g r pe \<sigma> ` set ps" "history V g r i \<sigma> ys m' \<sigma>'"
    and "visible V r (m', \<sigma>') v" "c \<notin> target_cells V g pe ps"
  shows "v c = \<sigma> c"
proof (rule visible_history [OF assms(2,3)])
  fix x
  assume "x \<in> set ys"
  then obtain p where p: "p \<in> set ps" "x = req_op V g r pe \<sigma> p"
    using assms(1) by auto
  then have "c \<notin> set (req_target V g pe p)"
    using assms(4) by (auto simp: target_cells_def)
  with written_req_op [of V g r pe \<sigma> p] p(2) show "c \<notin> written (snd x)"
    by blast
qed

text \<open>Puts and a quiet behind them, with all that can be seen on the way.\<close>

lemma puts_quiet_through:
  assumes E: "environment V mpi g r" and v: "\<forall>p\<in>set ps. valid_req g pe i p"
    and s: "stable_sources V g r pe ps" and o: "order_safe V g i pe ps" and m: "idle V r m"
    and J: "\<And>s'. (\<And>v c. visible V r s' v \<Longrightarrow> c \<notin> target_cells V g pe ps \<Longrightarrow> v c = \<sigma> c) \<Longrightarrow> J s'"
  shows "through (world V mpi r) (pseq (puts g pe ps) (shmem_quiet g)) (m, \<sigma>) J
     (\<lambda>_ (m', \<sigma>'). idle V r m' \<and>
        \<sigma>' = apply_writes (concat (map (req_writes V g r pe \<sigma>) ps)) \<sigma>)"
proof -
  have hist: "J (m', \<sigma>')" if "set ys \<subseteq> req_op V g r pe \<sigma> ` set ps" "history V g r i \<sigma> ys m' \<sigma>'"
    for m' \<sigma>' ys
    using that by (intro J visible_puts)
  have all: "J (m', \<sigma>')" if "history V g r i \<sigma> (map (req_op V g r pe \<sigma>) ps) m' \<sigma>'" for m' \<sigma>'
    by (rule hist [OF _ that]) simp
  have "along (world V mpi r) (pseq (puts g pe ps) (shmem_quiet g)) (m, \<sigma>) J"
    unfolding pseq_def
  proof (rule throughD(1), subst through_pbind,
      rule through_mono [OF puts_through [where qs = "[]" and \<sigma>\<^sub>0 = \<sigma> and J = J, OF E v]])
    show "history V g r i \<sigma> (map (req_op V g r pe \<sigma>) []) m \<sigma>" "stable_sources V g r pe ([] @ ps)"
      using history_start [OF m] s by simp_all
  next
    fix a s'
    assume "case s' of (m', \<sigma>') \<Rightarrow> history V g r i \<sigma> (map (req_op V g r pe \<sigma>) ([] @ ps)) m' \<sigma>'"
    then obtain m1 \<sigma>1 where s': "s' = (m1, \<sigma>1)"
        and h: "history V g r i \<sigma> (map (req_op V g r pe \<sigma>) ps) m1 \<sigma>1"
      by auto
    show "through (world V mpi r) (shmem_quiet g) s' J (\<lambda>_ _. True)"
      unfolding s' by (rule through_mono [OF quiet_through [where J = J, OF E h all]]) auto
  qed (use hist in \<open>simp_all only: append_Nil\<close>)
  with puts_then_quiet [OF E v s o m] show ?thesis
    by (simp add: through_def)
qed

text \<open>
  A fence between two lists of puts: nothing of the second list can be seen before all of the
  first list is in memory.
\<close>

lemma fence_orders_puts:
  assumes E: "environment V mpi g r" and b: "\<not> ENABLE_RMA_ORDERING (conf g)"
    and v: "\<forall>p\<in>set ps. valid_req g pe i p" "\<forall>p\<in>set qs. valid_req g pe j p"
    and s: "stable_sources V g r pe (ps @ qs)"
    and o: "order_safe V g i pe ps" "order_safe V g j pe qs" and m: "idle V r m"
    and \<sigma>1: "\<sigma>1 = apply_writes (concat (map (req_writes V g r pe \<sigma>) ps)) \<sigma>"
  shows "through (world V mpi r)
     (pseq (puts g pe ps) (pseq (shmem_fence g) (pseq (puts g pe qs) (shmem_quiet g)))) (m, \<sigma>)
     (\<lambda>s. \<forall>w. visible V r s w \<longrightarrow>
        (\<forall>c. c \<notin> target_cells V g pe ps \<longrightarrow> w c = \<sigma> c) \<or>
        (\<forall>c. c \<notin> target_cells V g pe qs \<longrightarrow> w c = \<sigma>1 c))
     (\<lambda>_ (m', \<sigma>'). idle V r m' \<and>
        \<sigma>' = apply_writes (concat (map (req_writes V g r pe \<sigma>) (ps @ qs))) \<sigma>)"
    (is "through _ _ _ ?J ?Q")
proof -
  have st: "stable_sources V g r pe ps" "stable_sources V g r pe qs"
    using s unfolding stable_sources_def by auto
  have "\<sigma>1 = apply_ops (map (req_op V g r pe \<sigma>) ps) \<sigma>"
    by (simp only: \<sigma>1 apply_ops_req)
  then have w: "map (req_writes V g r pe \<sigma>1) qs = map (req_writes V g r pe \<sigma>) qs"
    by (intro req_writes_cong) (simp add: sources_unchanged [OF s])
  have fin: "apply_writes (concat (map (req_writes V g r pe \<sigma>1) qs)) \<sigma>1
      = apply_writes (concat (map (req_writes V g r pe \<sigma>) (ps @ qs))) \<sigma>"
    unfolding w by (simp add: \<sigma>1 apply_writes_append)
  have "through (world V mpi r) (pseq (pseq (puts g pe ps) (shmem_quiet g))
      (pseq (puts g pe qs) (shmem_quiet g))) (m, \<sigma>) ?J ?Q"
    unfolding through_pseq [of _ "pseq (puts g pe ps) _"]
  proof (rule through_mono [OF puts_quiet_through [where J = ?J, OF E v(1) st(1) o(1) m]])
    fix a s'
    assume "case s' of (m', \<sigma>') \<Rightarrow> idle V r m' \<and>
        \<sigma>' = apply_writes (concat (map (req_writes V g r pe \<sigma>) ps)) \<sigma>"
    then obtain m1 where s': "s' = (m1, \<sigma>1)" "idle V r m1"
      by (auto simp: \<sigma>1)
    show "through (world V mpi r) (pseq (puts g pe qs) (shmem_quiet g)) s' ?J ?Q"
      unfolding s'(1)
      by (rule through_mono [OF puts_quiet_through [where J = ?J, OF E v(2) st(2) o(2) s'(2)]])
        (use fin in auto)
  qed auto
  then show ?thesis
    using b by (simp add: fence_is_quiet)
qed

text \<open>
  A fence that relies on ordered accumulates leaves everything in flight, so the next put can be
  seen ahead of what is in flight elsewhere in the window.
\<close>

lemma ordered_fence_ends:
  assumes "environment V mpi g r" "ENABLE_RMA_ORDERING (conf g)"
  shows "ends (world V mpi r) (shmem_fence g) (m, \<sigma>)
     (\<lambda>_ (m', \<sigma>'). \<sigma>' = \<sigma> \<and> in_flight V m' = in_flight V m)"
  using throughD(2) [OF local_sync_through [where J = "\<lambda>_. True", OF environmentD(1) [OF assms(1)] TrueI]]
  by (simp add: shmem_fence_def assms(2))

lemma along_pseq_at:
  assumes "along h (pseq p q) s I" "ends h p s Q"
  obtains a s' where "Q a s'" "along h q s' I"
  using assms by (auto simp: pseq_def along_pbind ends_def)

lemma visible_last:
  assumes fl: "in_flight V m r w = xs @ [y]" and w: "w = Shmem_sheap_win \<or> w = Shmem_etext_win"
    and y: "\<forall>x\<in>set xs. locations (snd x) \<inter> locations (snd y) = {}"
  shows "visible V r (m, \<sigma>) (apply_op (snd y) \<sigma>)"
proof -
  have "filter (ordered_at c) (xs @ [y]) = filter (ordered_at c) ([y] @ xs)" for c
  proof (cases "ordered_at c y")
    case True
    then have "\<forall>x\<in>set xs. \<not> ordered_at c x"
      using y by (auto simp: ordered_at_def)
    then show ?thesis by simp
  qed simp
  then have l: "legal_order (in_flight V m r w) ([y] @ xs)"
    by (simp add: fl legal_order_def)
  have one: "visible V r (m, \<sigma>) v"
    if "legal_order (in_flight V m r Shmem_sheap_win) (ys @ yr)"
      "legal_order (in_flight V m r Shmem_etext_win) (zs @ zr)" "v = apply_ops zs (apply_ops ys \<sigma>)"
    for v ys yr zs zr
    using that by (auto simp: visible_def)
  from w show ?thesis
  proof
    assume "w = Shmem_sheap_win"
    with l show ?thesis
      by (intro one [of "[y]" xs "[]" "in_flight V m r Shmem_etext_win"]) simp_all
  next
    assume "w = Shmem_etext_win"
    with l show ?thesis
      by (intro one [of "[]" "in_flight V m r Shmem_sheap_win" "[y]" xs]) simp_all
  qed
qed

lemma ordered_fence_overtaken:
  assumes E: "environment V mpi g r" and b: "ENABLE_RMA_ORDERING (conf g)"
    and p: "valid_req g pe i (ty, target, source, len)" "len < word_of_int INT32_MAX"
      "\<not> use_smp g i"
    and fl: "\<forall>x\<in>set (in_flight V m r (win_of i)).
      locations (snd x) \<inter> set (req_target V g pe (ty, target, source, len)) = {}"
  shows "\<not> along (world V mpi r) (pseq (shmem_fence g) (oshmpi_put g ty target source len pe)) (m, \<sigma>)
     (\<lambda>s. \<not> visible V r s (apply_writes (req_writes V g r pe \<sigma> (ty, target, source, len)) \<sigma>))"
    (is "\<not> along ?h (pseq ?f ?p) _ ?I")
proof
  assume al: "along ?h (pseq ?f ?p) (m, \<sigma>) ?I"
  obtain m1 where fl1: "in_flight V m1 = in_flight V m" and al: "along ?h ?p (m1, \<sigma>) ?I"
    using along_pseq_at [OF al ordered_fence_ends [OF E b]] by auto
  have f: "fits len ty" and s: "symmetric g target pe (nbytes len ty)"
    using p by (simp_all add: valid_req_def)
  obtain off where l: "oshmpi_window_offset g target pe = (0, i, off)"
    and rem: "remote_of V g target pe (nbytes len ty)
        = remote_range V (win_of i) pe off (nbytes len ty)"
    by (rule symmetricE [OF s]) (use p(1) in \<open>simp add: valid_req_def\<close>)
  let ?tail = "pseq (pwhen (word_of_int INT32_MAX < len) (call (Ty (MPI_Type_free ty))))
      (call (Rma (MPI_Win_flush_local pe (win_of i))))"
  let ?c = "put_call g source (uint len) ty pe off (uint len) ty (win_of i)"
  have shape: "?p = pseq ?c ?tail"
    using p(2,3) l by (simp add: oshmpi_put_def Let_def rma_count_def)
  have d: "type_disps V m1 ty (uint len) = map int [0..<nbytes len ty]"
    using f by (simp add: type_disps_predef [OF environmentD(2) [OF E]] fits_def nbytes_def)
  let ?y = "req_op V g r pe \<sigma> (ty, target, source, len)"
  have "ends ?h ?c (m1, \<sigma>) (\<lambda>_ (m', \<sigma>'). \<sigma>' = \<sigma> \<and>
      in_flight V m' r (win_of i) = in_flight V m r (win_of i) @ [?y])"
    by (rule ends_put_call [OF environmentD(1) [OF E] transfer_ok_contiguous [OF d]])
      (simp add: flight_upd_def fl1 req_op_def req_writes_def req_target_def req_source_def rem
        win_cells_def buf_cells_def d cells_at_bytes remote_range_def)
  from along_pseq_at [OF al [unfolded shape] this] obtain m2
    where fl2: "in_flight V m2 r (win_of i) = in_flight V m r (win_of i) @ [?y]"
      and "along ?h ?tail (m2, \<sigma>) ?I"
    by auto
  then have "?I (m2, \<sigma>)"
    by (blast dest: along_start)
  moreover have "locations (snd ?y) \<subseteq> set (req_target V g pe (ty, target, source, len))"
    by (auto simp: req_op_def req_writes_def dest: set_zip_leftD)
  then have "visible V r (m2, \<sigma>) (apply_op (snd ?y) \<sigma>)"
    using fl by (intro visible_last [OF fl2 win_of_cases]) blast
  ultimately show False
    by (simp add: req_op_def)
qed

text \<open>A put alone, followed by a quiet.\<close>

lemma put_and_quiet:
  assumes "environment V mpi g r" "fits len ty" "symmetric g target pe (nbytes len ty)" "idle V r m"
  shows "ends (world V mpi r) (pseq (oshmpi_put g ty target source len pe) (shmem_quiet g)) (m, \<sigma>)
     (\<lambda>_ (m', \<sigma>'). idle V r m' \<and>
        \<sigma>' = apply_writes (zip (remote_of V g target pe (nbytes len ty))
                            (map \<sigma> (range_at (vmap V r) source (nbytes len ty)))) \<sigma>)"
proof -
  obtain i off where l: "oshmpi_window_offset g target pe = (0, i, off)"
      "in_segment g i pe off (nbytes len ty)"
    and rem: "remote_of V g target pe (nbytes len ty)
        = remote_range V (win_of i) pe off (nbytes len ty)"
    using symmetricE [OF assms(3)] by blast
  show ?thesis
    unfolding ends_pseq
    apply (rule ends_mono [OF put_history [OF assms(1,2) l history_start [OF assms(4)]]])
    apply clarify
    apply (rule quiet_history [OF assms(1)], assumption)
    apply (simp add: put_op_def rem)
    done
qed

end
