(* ===== verification/Strided.thy ===== *)
theory Strided
  imports Ordering
begin

text \<open>
  Strided transfers (\<open>oshmpi_put_strided\<close>, \<open>oshmpi_get_strided\<close>): with the derived types built
  from the strides, a transfer moves element \<open>k\<close> of the source at its stride to element \<open>k\<close> of the
  target at its stride, frees every handle it makes, and rejects strides and counts that do
  not fit an \<open>int\<close>. These routines have no shared-memory path.
\<close>

text \<open>Displacement of byte \<open>j\<close> of element \<open>k\<close>, in the order the elements are numbered.\<close>

definition strided_disps :: "nat \<Rightarrow> int \<Rightarrow> nat \<Rightarrow> int list" where
  "strided_disps n stride sz =
     concat (map (\<lambda>k. map (\<lambda>j. int k * stride * int sz + int j) [0..<sz]) [0..<n])"

lemma vector_map_strided:
  "vector_map n (Suc 0) stride (int (predef_size ty)) (predef_map ty)
   = strided_disps n stride (predef_size ty)"
  by (simp add: vector_map_def strided_disps_def shift_map_def predef_map_def comp_def)

lemma length_strided_disps [simp]: "length (strided_disps n stride sz) = n * sz"
  by (simp add: strided_disps_def length_concat comp_def sum_list_triv)

lemma nth_strided_disps:
  assumes "k < n" "j < sz"
  shows "strided_disps n stride sz ! (k * sz + j) = int k * stride * int sz + int j"
proof -
  let ?xss = "map (\<lambda>k. map (\<lambda>j. int k * stride * int sz + int j) [0..<sz]) [0..<n]"
  have "concat ?xss ! (k * sz + j) = ?xss ! k ! j"
    by (rule nth_concat_same_length) (use assms in auto)
  then show ?thesis
    using assms by (simp add: strided_disps_def)
qed

text \<open>A stride of one is a contiguous transfer.\<close>

lemma strided_disps_unit: "strided_disps n 1 sz = map int [0..<n * sz]"
proof (induction n)
  case 0
  then show ?case by (simp add: strided_disps_def)
next
  case (Suc n)
  have "[0..<n * sz + sz] = [0..<n * sz] @ [n * sz..<n * sz + sz]"
    by (rule upt_add_eq_append) simp
  then show ?case
    using Suc by (simp add: strided_disps_def map_upt_add add.commute [of sz])
qed

text \<open>Elements overlap only when the stride is zero.\<close>

definition no_overlap :: "size_t \<Rightarrow> int \<Rightarrow> bool" where
  "no_overlap len stride \<longleftrightarrow> stride \<noteq> 0 \<or> len \<le> 1"

lemma strided_disps_product:
  "strided_disps n stride sz
   = map (\<lambda>(k, j). int k * stride * int sz + int j) (List.product [0..<n] [0..<sz])"
  by (simp add: strided_disps_def product_concat_map map_concat comp_def)

lemma distinct_strided_disps:
  assumes "stride \<noteq> 0 \<or> n \<le> 1"
  shows "distinct (strided_disps n stride sz)"
proof -
  have "k = k' \<and> j = j'"
    if b: "k < n" "k' < n" "j < sz" "j' < sz"
      and eq: "int k * stride * int sz + int j = int k' * stride * int sz + int j'" for k k' j j'
  proof -
    have "(int k * stride * int sz + int j) mod int sz = (int k' * stride * int sz + int j') mod int sz"
      by (simp add: eq)
    then have j: "j = j'"
      using b(3,4) by (simp add: zmod_int [symmetric])
    with eq b(3) have "int k * stride = int k' * stride"
      by simp
    with assms b(1,2) j show ?thesis
      by auto
  qed
  then have "inj_on (\<lambda>(k, j). int k * stride * int sz + int j) (set (List.product [0..<n] [0..<sz]))"
    by (auto simp: inj_on_def)
  then show ?thesis
    by (simp add: strided_disps_product distinct_map distinct_product)
qed

lemma strided_types_ends:
  assumes L: "type_laws V mpi" and ty: "predefined ty" and c: "0 \<le> cnt"
    and Q: "\<And>m' h1 h2. in_flight V m' = in_flight V m \<Longrightarrow> h1 \<notin> live V m \<Longrightarrow> h2 \<notin> live V m \<Longrightarrow>
      (h2 = h1) = (t = s) \<Longrightarrow> live V m' = insert h2 (insert h1 (live V m)) \<Longrightarrow>
      typemap V m' (Derived h1) = strided_disps (nat cnt) s (predef_size ty) \<Longrightarrow>
      typemap V m' (Derived h2) = strided_disps (nat cnt) t (predef_size ty) \<Longrightarrow>
      Q (Derived h1, Derived h2) (m', \<sigma>)"
  shows "ends (world V mpi r) (strided_types cnt t s ty) (m, \<sigma>) Q"
proof -
  have nd: "ty \<noteq> Derived h" "Derived h \<noteq> ty" for h
    using ty by auto
  note vec = ends_construct [OF type_lawsD(2) [OF L c _ ty, of 1]]
  show ?thesis
  proof (cases "t = s")
    case True
    then show ?thesis
      apply (simp add: strided_types_def ends_pbind ends_pseq)
      apply (rule vec, simp)
      apply (rule ends_neutral [OF type_lawsD(7) [OF L]], simp)
      apply (simp, rule Q)
            apply (auto simp: same_types_def type_lawsD(1) [OF L ty] vector_map_strided)
      done
  next
    case False
    then show ?thesis
      apply (simp add: strided_types_def ends_pbind ends_pseq)
      apply (rule vec, simp)
      apply (rule ends_neutral [OF type_lawsD(7) [OF L]], simp)
      apply (rule vec, simp)
      apply (rule ends_neutral [OF type_lawsD(7) [OF L]], simp)
      apply (simp, rule Q)
            apply (auto simp: same_types_def type_lawsD(1) [OF L ty] vector_map_strided nd)
      done
  qed
qed

lemma free_strided_types_ends:
  assumes L: "type_laws V mpi" and h: "(h2 = h1) = (t = s)"
    and Q: "\<And>m'. live V m' = live V m - {h1, h2} \<Longrightarrow> in_flight V m' = in_flight V m \<Longrightarrow> Q () (m', \<sigma>)"
  shows "ends (world V mpi r) (free_strided_types t s (Derived h1) (Derived h2)) (m, \<sigma>) Q"
proof (cases "t = s")
  case True
  show ?thesis
    unfolding free_strided_types_def using True
    apply simp
    apply (rule ends_type_free [OF L])
    apply (rule Q)
     apply (use h True in auto)
    done
next
  case False
  show ?thesis
    unfolding free_strided_types_def using False
    apply (simp add: ends_pseq)
    apply (rule ends_type_free [OF L])
    apply (rule ends_type_free [OF L])
    apply (rule Q)
     apply auto
    done
qed

section \<open>The routines\<close>

definition strided_ok :: "mpi_type \<Rightarrow> int \<Rightarrow> int \<Rightarrow> size_t \<Rightarrow> bool" where
  "strided_ok ty t s len \<longleftrightarrow>
     predefined ty \<and> len < word_of_int INT32_MAX \<and> stride_ok t \<and> stride_ok s"

text \<open>The cells of a strided object of the caller and of another PE.\<close>

definition local_strided ::
    "'m mpi_view \<Rightarrow> int \<Rightarrow> addr \<Rightarrow> size_t \<Rightarrow> int \<Rightarrow> mpi_type \<Rightarrow> cell list" where
  "local_strided V r a len stride ty =
     cells_at (vmap V r) a (strided_disps (unat len) stride (predef_size ty))"

definition remote_strided ::
    "'m mpi_view \<Rightarrow> globals \<Rightarrow> addr \<Rightarrow> int \<Rightarrow> size_t \<Rightarrow> int \<Rightarrow> mpi_type \<Rightarrow> cell list" where
  "remote_strided V g a pe len stride ty =
     (case oshmpi_window_offset g a pe of (ret, i, off) \<Rightarrow>
        cells_at (vmap V pe) (window_base V (win_of i) pe + word_of_int off)
          (strided_disps (unat len) stride (predef_size ty)))"

text \<open>Every element of the remote object lies in the window.\<close>

definition strided_object ::
    "globals \<Rightarrow> addr \<Rightarrow> int \<Rightarrow> size_t \<Rightarrow> int \<Rightarrow> mpi_type \<Rightarrow> bool" where
  "strided_object g a pe len stride ty \<longleftrightarrow> 0 \<le> pe \<and> pe < shmem_world_size g \<and>
     (case oshmpi_window_offset g a pe of (ret, i, off) \<Rightarrow> ret = 0 \<and>
        (\<forall>d\<in>set (strided_disps (unat len) stride (predef_size ty)).
           0 \<le> off + d \<and> off + d < win_size g i))"

lemma strided_objectE:
  assumes "strided_object g a pe len stride ty"
  obtains i off where "oshmpi_window_offset g a pe = (0, i, off)"
  using assms by (auto simp: strided_object_def split: prod.splits)

lemma transfer_ok_strided:
  assumes "no_overlap len t"
    and "typemap V m (Derived h1) = strided_disps (unat len) s sz"
      "typemap V m (Derived h2) = strided_disps (unat len) t sz"
  shows "transfer_ok V (Derived h2) 1 (Derived h1) 1 m"
proof -
  have "t \<noteq> 0 \<or> unat len \<le> 1"
    using assms(1) by (auto simp: no_overlap_def word_le_nat_alt)
  then show ?thesis
    using assms(2,3) distinct_strided_disps [of t "unat len" sz]
    by (simp add: transfer_ok_def type_disps_derived)
qed

lemma c_int_stride: "stride_ok d \<Longrightarrow> c_int d = d"
  by (rule c_int_small) (simp_all add: stride_ok_def)

text \<open>Local completion and release, which both routines end with.\<close>

lemma strided_tail:
  assumes L: "rma_laws V mpi" "type_laws V mpi" and h: "(h2 = h1) = (t = s)"
    and start: "progress V r w \<sigma>\<^sub>0 xs m0 \<sigma>" "in_flight V m1 = in_flight V m0"
    and lv: "live V m1 = insert h2 (insert h1 (live V m0))" "h1 \<notin> live V m0" "h2 \<notin> live V m0"
    and issued: "same_types V m1 m" "flight_upd V m1 r w (in_flight V m1 r w @ [x]) m"
    and Q: "\<And>m' \<sigma>'. progress V r w \<sigma>\<^sub>0 (xs @ [x]) m' \<sigma>' \<Longrightarrow> untouched V r w m0 m' \<Longrightarrow>
      live V m' = live V m0 \<Longrightarrow>
      \<forall>y\<in>set (in_flight V m' r w). fst y \<noteq> pe \<or> \<not> is_read (snd y) \<Longrightarrow> Q () (m', \<sigma>')"
  shows "ends (world V mpi r)
     (pseq (call (Rma (MPI_Win_flush_local pe w)))
        (free_strided_types t s (Derived h1) (Derived h2))) (m, \<sigma>) Q"
  unfolding ends_pseq
proof (rule ends_complete [OF rma_lawsD(6) [OF L(1)]], rule free_strided_types_ends [OF L(2) h])
  fix m2 don rest m3
  assume c: "same_types V m m2" "legal_order (in_flight V m r w) (don @ rest)"
      "\<forall>x\<in>set rest. fst x \<noteq> pe \<or> \<not> is_read (snd x)" "flight_upd V m r w rest m2"
    and f: "live V m3 = live V m2 - {h1, h2}" "in_flight V m3 = in_flight V m2"
  have "progress V r w \<sigma>\<^sub>0 (xs @ [x]) m \<sigma>"
    using progress_issue [OF progress_cong [OF start(1)] issued(2)] start(2) by simp
  then have "progress V r w \<sigma>\<^sub>0 (xs @ [x]) m2 (apply_ops don \<sigma>)"
    by (rule progress_complete [OF _ c(2,4)])
  then have "progress V r w \<sigma>\<^sub>0 (xs @ [x]) m3 (apply_ops don \<sigma>)"
    by (rule progress_cong) (simp add: f(2))
  moreover have "untouched V r w m0 m3"
    using start(2) issued(2) c(4) f(2) by (auto simp: untouched_def flight_upd_def)
  moreover have "live V m3 = live V m0"
    using lv issued(1) c(1) f(1) by (auto simp: same_types_def)
  moreover have "in_flight V m3 r w = rest"
    using c(4) f(2) by (simp add: flight_upd_def)
  ultimately show "Q () (m3, apply_ops don \<sigma>)"
    using c(3) by (intro Q) auto
qed

lemma put_strided_mpi:
  assumes L: "rma_laws V mpi" "type_laws V mpi" and ok: "strided_ok ty t s len" "no_overlap len t"
    and l: "oshmpi_window_offset g target pe = (0, i, off)"
    and I: "progress V r (win_of i) \<sigma>\<^sub>0 xs m \<sigma>"
  shows "ends (world V mpi r) (oshmpi_put_strided g ty target source t s len pe) (m, \<sigma>)
     (\<lambda>_ (m', \<sigma>'). progress V r (win_of i) \<sigma>\<^sub>0
          (xs @ [(pe, Write (ENABLE_RMA_ORDERING (conf g))
                   (zip (remote_strided V g target pe len t ty)
                      (map \<sigma> (local_strided V r source len s ty))))]) m' \<sigma>' \<and>
        untouched V r (win_of i) m m' \<and> live V m' = live V m)"
proof -
  have ty: "predefined ty" and c: "c_int t = t" "c_int s = s"
    using ok(1) by (simp_all add: strided_ok_def c_int_stride)
  show ?thesis
    using ok(1) l
    apply (simp add: oshmpi_put_strided_def strided_ok_def Let_def c)
    apply (subst ends_pbind)
    apply (rule strided_types_ends [OF L(2) ty], simp)
    apply (simp, subst ends_pseq)
    apply (rule ends_put_call [OF L(1)], rule transfer_ok_strided [OF ok(2)], assumption+)
    apply (rule strided_tail [OF L _ I], assumption+)
    apply (simp add: win_cells_def buf_cells_def type_disps_derived
        remote_strided_def local_strided_def)
    done
qed

lemma get_strided_mpi:
  assumes L: "rma_laws V mpi" "type_laws V mpi" and ok: "strided_ok ty t s len" "no_overlap len t"
    and l: "oshmpi_window_offset g source pe = (0, i, off)"
    and I: "progress V r (win_of i) \<sigma>\<^sub>0 xs m \<sigma>"
  shows "ends (world V mpi r) (oshmpi_get_strided g ty target source t s len pe) (m, \<sigma>)
     (\<lambda>_ (m', \<sigma>'). progress V r (win_of i) \<sigma>\<^sub>0
          (xs @ [(pe, Read (ENABLE_RMA_ORDERING (conf g))
                   (zip (local_strided V r target len t ty)
                      (remote_strided V g source pe len s ty)))]) m' \<sigma>' \<and>
        untouched V r (win_of i) m m' \<and> live V m' = live V m \<and>
        (\<forall>y\<in>set (in_flight V m' r (win_of i)). fst y \<noteq> pe \<or> \<not> is_read (snd y)))"
proof -
  have ty: "predefined ty" and c: "c_int t = t" "c_int s = s"
    using ok(1) by (simp_all add: strided_ok_def c_int_stride)
  show ?thesis
    using ok(1) l
    apply (simp add: oshmpi_get_strided_def strided_ok_def Let_def c)
    apply (subst ends_pbind)
    apply (rule strided_types_ends [OF L(2) ty], simp)
    apply (simp, subst ends_pseq)
    apply (rule ends_get_call [OF L(1)], rule transfer_ok_strided [OF ok(2)], assumption+)
    apply (rule strided_tail [OF L _ I], assumption+)
    apply (simp add: win_cells_def buf_cells_def type_disps_derived remote_strided_def
        local_strided_def)
    done
qed

text \<open>
  C13: a strided put that is followed by \<open>shmem_quiet\<close>, where all elements of the target lie in the
  window and do not overlap, moves element \<open>k\<close> of the source, at the source stride, to element
  \<open>k\<close> of the target on the other PE, at the target stride; it changes no other memory and frees
  every datatype it made, also when both strides share one handle.
\<close>

theorem put_strided_scatters:
  assumes E: "environment V mpi g r" and ok: "strided_ok ty t s len"
    and ob: "strided_object g target pe len t ty" "no_overlap len t" and m: "idle V r m"
  shows "ends (world V mpi r)
     (pseq (oshmpi_put_strided g ty target source t s len pe) (shmem_quiet g)) (m, \<sigma>)
     (\<lambda>_ (m', \<sigma>'). idle V r m' \<and> live V m' = live V m \<and>
        \<sigma>' = apply_writes (zip (remote_strided V g target pe len t ty)
                            (map \<sigma> (local_strided V r source len s ty))) \<sigma>)"
proof -
  let ?x = "(pe, Write (ENABLE_RMA_ORDERING (conf g)) (zip (remote_strided V g target pe len t ty)
      (map \<sigma> (local_strided V r source len s ty))))"
  let ?Q = "\<lambda>_ (m', \<sigma>'). idle V r m' \<and> live V m' = live V m \<and>
        \<sigma>' = apply_writes (zip (remote_strided V g target pe len t ty)
                            (map \<sigma> (local_strided V r source len s ty))) \<sigma>"
  obtain i off where l: "oshmpi_window_offset g target pe = (0, i, off)"
    using strided_objectE [OF ob(1)] by blast
  have quiet: "ends (world V mpi r) (shmem_quiet g) (m1, \<sigma>1) ?Q"
    if p: "progress V r (win_of i) \<sigma> ([] @ [?x]) m1 \<sigma>1"
      and u: "untouched V r (win_of i) m m1" and lv: "live V m1 = live V m" for m1 \<sigma>1
  proof -
    have w: "win_of i = Shmem_sheap_win \<and> in_flight V m1 r Shmem_etext_win = []
        \<or> win_of i = Shmem_etext_win \<and> in_flight V m1 r Shmem_sheap_win = []"
      using u m by (auto simp: untouched_def idle_def win_of_def)
    show ?thesis
      unfolding shmem_quiet_def ends_pseq
      by (rule remote_sync_ends [OF environmentD(1) [OF E] p w],
          rule local_sync_ends [OF environmentD(1) [OF E]])
        (auto simp: lv same_types_def idle_def)
  qed
  show ?thesis
    unfolding ends_pseq
    by (rule ends_mono [OF put_strided_mpi [OF environmentD(1,2) [OF E] ok ob(2) l
            progress_start [OF idle_win_of [OF m]]]]) (clarify, rule quiet)
qed

lemma example_strided [simp]:
  "oshmpi_window_offset (example_globals smp ord r) 0x1010 pe = (0, SHMEM_SHEAP_WINDOW, 16)"
  "strided_ok MPI_LONG 2 3 4" "strided_ok MPI_LONG 3 2 4" "no_overlap 4 2" "no_overlap 4 3"
  by (simp_all add: oshmpi_window_offset_def Let_def ptrdiff_def example_globals_def strided_ok_def
      stride_ok_def predefined_def INT32_MAX_def INT32_MIN_def no_overlap_def)

lemma example_strided_object [simp]:
  "strided_object (example_globals smp ord r) 0x1010 1 4 2 MPI_LONG"
  by (simp add: strided_object_def strided_disps_product)
    (auto simp: example_globals_def win_size_def)

theorem put_strided_scatters_witness:
  "ends (world example_view (example_mpi True) 0)
     (pseq (oshmpi_put_strided (example_globals False True 0) MPI_LONG 0x1010 0x3000 2 3 4 1)
        (shmem_quiet (example_globals False True 0))) (example_start, example_store)
     (\<lambda>_ (m', \<sigma>'). idle example_view 0 m' \<and> live example_view m' = live example_view example_start \<and>
        \<sigma>' = apply_writes (zip (remote_strided example_view (example_globals False True 0) 0x1010 1 4 2
                 MPI_LONG)
               (map example_store (local_strided example_view 0 0x3000 4 3 MPI_LONG))) example_store)"
  by (rule put_strided_scatters) simp_all

text \<open>
  C14: a strided get, where all elements of the source lie in the window and the elements of the
  local target do not overlap, returns with element \<open>k\<close> of the remote source in element \<open>k\<close> of
  the local target, each at its own stride, nothing else changed and every datatype freed.
\<close>

theorem get_strided_gathers:
  assumes E: "environment V mpi g r" and ok: "strided_ok ty t s len"
    and ob: "strided_object g source pe len s ty" "no_overlap len t" and m: "idle V r m"
  shows "ends (world V mpi r) (oshmpi_get_strided g ty target source t s len pe) (m, \<sigma>)
     (\<lambda>_ (m', \<sigma>'). idle V r m' \<and> live V m' = live V m \<and>
        \<sigma>' = apply_writes (zip (local_strided V r target len t ty)
                            (map \<sigma> (remote_strided V g source pe len s ty))) \<sigma>)"
proof -
  let ?x = "(pe, Read (ENABLE_RMA_ORDERING (conf g)) (zip (local_strided V r target len t ty)
      (remote_strided V g source pe len s ty)))"
  obtain i off where l: "oshmpi_window_offset g source pe = (0, i, off)"
    using strided_objectE [OF ob(1)] by blast
  show ?thesis
  proof (rule ends_mono [OF get_strided_mpi [OF environmentD(1,2) [OF E] ok ob(2) l
          progress_start [OF idle_win_of [OF m]]]], clarify)
    fix m1 \<sigma>1
    assume p: "progress V r (win_of i) \<sigma> ([] @ [?x]) m1 \<sigma>1"
      and u: "untouched V r (win_of i) m m1" and lv: "live V m1 = live V m"
      and no: "\<forall>y\<in>set (in_flight V m1 r (win_of i)). fst y \<noteq> pe \<or> \<not> is_read (snd y)"
    have "idle V r m1 \<and> \<sigma>1 = apply_op (snd ?x) \<sigma>"
      by (rule get_settles [OF p u m]) (use no in auto)
    then show "idle V r m1 \<and> live V m1 = live V m \<and>
          \<sigma>1 = apply_writes (zip (local_strided V r target len t ty)
                              (map \<sigma> (remote_strided V g source pe len s ty))) \<sigma>"
      by (simp add: lv zip_map2)
  qed
qed

theorem get_strided_gathers_witness:
  "ends (world example_view (example_mpi True) 0)
     (oshmpi_get_strided (example_globals True False 0) MPI_LONG 0x3000 0x1010 3 2 4 1)
     (example_start, example_store)
     (\<lambda>_ (m', \<sigma>'). idle example_view 0 m' \<and> live example_view m' = live example_view example_start \<and>
        \<sigma>' = apply_writes (zip (local_strided example_view 0 0x3000 4 3 MPI_LONG)
               (map example_store (remote_strided example_view (example_globals True False 0) 0x1010 1 4 2
                 MPI_LONG))) example_store)"
  by (rule get_strided_gathers) simp_all

end
