(* ===== verification/Rma_Properties.thy ===== *)
theory Rma_Properties
  imports Strided
begin

text \<open>
  The properties of the transfers, as a user of the library reads them, with the examples on
  which their hypotheses hold.
\<close>

text \<open>
  C8: a put that is followed by \<open>shmem_quiet\<close> copies the source bytes to the same object of the
  other PE and changes nothing else, for every length, whether the build copies through the
  shared heap, issues \<open>MPI_Put\<close> or issues ordered accumulates.
\<close>

theorem put_delivers:
  assumes "environment V mpi g r" "fits len ty" "symmetric g target pe (nbytes len ty)" "idle V r m"
  shows "ends (world V mpi r) (pseq (oshmpi_put g ty target source len pe) (shmem_quiet g)) (m, \<sigma>)
     (\<lambda>_ (m', \<sigma>'). idle V r m' \<and>
        \<sigma>' = apply_writes (zip (remote_of V g target pe (nbytes len ty))
                            (map \<sigma> (range_at (vmap V r) source (nbytes len ty)))) \<sigma>)"
  by (rule put_and_quiet [OF assms])

lemma example_fits [simp]: "fits 2 MPI_INT" "nbytes 2 MPI_INT = 8"
  by (simp_all add: fits_def predefined_def nbytes_def)

lemma example_symmetric [simp]: "symmetric (example_globals smp ord r) 0x1010 1 8"
  by (simp add: symmetric_def oshmpi_window_offset_def Let_def ptrdiff_def example_globals_def
      win_size_def)

theorem put_delivers_witness:
  "ends (world example_view (example_mpi True) 0)
     (pseq (oshmpi_put (example_globals False False 0) MPI_INT 0x1010 0x3000 2 1)
        (shmem_quiet (example_globals False False 0))) (example_start, example_store)
     (\<lambda>_ (m', \<sigma>'). idle example_view 0 m' \<and>
        \<sigma>' = apply_writes (zip (remote_of example_view (example_globals False False 0) 0x1010 1 (nbytes 2 MPI_INT))
               (map example_store (range_at (vmap example_view 0) 0x3000 (nbytes 2 MPI_INT)))) example_store)"
  by (rule put_delivers) simp_all

text \<open>
  C12: a get returns with the bytes of the other PE's object in the local buffer and nothing
  else changed, in every build.
\<close>

theorem get_fetches:
  assumes "environment V mpi g r" "fits len ty" "symmetric g source pe (nbytes len ty)" "idle V r m"
  shows "ends (world V mpi r) (oshmpi_get g ty target source len pe) (m, \<sigma>)
     (\<lambda>_ (m', \<sigma>'). idle V r m' \<and>
        \<sigma>' = apply_writes (zip (range_at (vmap V r) target (nbytes len ty))
                            (map \<sigma> (remote_of V g source pe (nbytes len ty)))) \<sigma>)"
  using assms by (rule get_returns)

theorem get_fetches_witness:
  "ends (world example_view (example_mpi True) 0)
     (oshmpi_get (example_globals True False 0) MPI_INT 0x3000 0x1010 2 1)
     (example_start, example_store)
     (\<lambda>_ (m', \<sigma>'). idle example_view 0 m' \<and>
        \<sigma>' = apply_writes (zip (range_at (vmap example_view 0) 0x3000 (nbytes 2 MPI_INT))
               (map example_store
                 (remote_of example_view (example_globals True False 0) 0x1010 1 (nbytes 2 MPI_INT)))) example_store)"
  by (rule get_fetches) simp_all

text \<open>
  C9: in every build that does not rely on ordered accumulates a fence orders puts, also to
  different objects and windows of the PE. At every moment of the run, whatever another PE may
  see in memory, either no put behind the fence has taken any effect, or every put ahead of it
  is complete: who sees the flag sees the data. At the quiet all of them have taken effect.
\<close>

theorem fence_orders:
  assumes "environment V mpi g r" "\<not> ENABLE_RMA_ORDERING (conf g)"
    and "\<forall>p\<in>set ps. valid_req g pe i p" "\<forall>p\<in>set qs. valid_req g pe j p"
    and "stable_sources V g r pe (ps @ qs)"
    and "order_safe V g i pe ps" "order_safe V g j pe qs" "idle V r m"
  shows "along (world V mpi r)
       (pseq (puts g pe ps) (pseq (shmem_fence g) (pseq (puts g pe qs) (shmem_quiet g)))) (m, \<sigma>)
       (\<lambda>s. \<forall>v. visible V r s v \<longrightarrow>
          (\<forall>c. c \<notin> target_cells V g pe ps \<longrightarrow> v c = \<sigma> c) \<or>
          (\<forall>c. c \<notin> target_cells V g pe qs \<longrightarrow>
             v c = apply_writes (concat (map (req_writes V g r pe \<sigma>) ps)) \<sigma> c)) \<and>
     ends (world V mpi r)
       (pseq (puts g pe ps) (pseq (shmem_fence g) (pseq (puts g pe qs) (shmem_quiet g)))) (m, \<sigma>)
       (\<lambda>_ (m', \<sigma>'). idle V r m' \<and>
          \<sigma>' = apply_writes (concat (map (req_writes V g r pe \<sigma>) (ps @ qs))) \<sigma>)"
  using fence_orders_puts [OF assms refl] by (simp only: through_def)

lemma example_valid [simp]:
  "valid_req (example_globals smp ord r) 1 SHMEM_SHEAP_WINDOW (MPI_BYTE, 0x1000, a, 2)"
  "valid_req (example_globals smp ord r) 1 SHMEM_SHEAP_WINDOW (MPI_BYTE, 0x1001, a, 2)"
  "valid_req (example_globals smp ord r) 1 SHMEM_SHEAP_WINDOW (MPI_BYTE, 0x1010, a, 2)"
  "valid_req (example_globals smp ord r) 1 SHMEM_ETEXT_WINDOW (MPI_BYTE, 0x8000, a, 2)"
  by (simp_all add: valid_req_def fits_def predefined_def symmetric_def oshmpi_window_offset_def
      Let_def ptrdiff_def example_globals_def win_size_def nbytes_def)

text \<open>A put of two bytes from a private buffer of PE 0.\<close>

definition example_reqs :: "addr \<Rightarrow> addr \<Rightarrow> put_request list" where
  "example_reqs target source = [(MPI_BYTE, target, source, 2)]"

theorem fence_orders_witness:
  "along (world example_view (example_mpi True) 0)
     (pseq (puts (example_globals False False 0) 1 (example_reqs 0x1000 0x3000))
       (pseq (shmem_fence (example_globals False False 0))
         (pseq (puts (example_globals False False 0) 1 (example_reqs 0x8000 0x3004))
           (shmem_quiet (example_globals False False 0))))) (example_start, example_store)
     (\<lambda>s. \<forall>v. visible example_view 0 s v \<longrightarrow>
        (\<forall>c. c \<notin> target_cells example_view (example_globals False False 0) 1
                  (example_reqs 0x1000 0x3000) \<longrightarrow> v c = example_store c) \<or>
        (\<forall>c. c \<notin> target_cells example_view (example_globals False False 0) 1
                  (example_reqs 0x8000 0x3004) \<longrightarrow>
           v c = apply_writes (concat (map (req_writes example_view (example_globals False False 0) 0 1
               example_store) (example_reqs 0x1000 0x3000))) example_store c))"
proof -
  have "stable_sources example_view (example_globals False False 0) 0 1
      (example_reqs 0x1000 0x3000 @ example_reqs 0x8000 0x3004)"
    by code_simp
  moreover have "\<not> ENABLE_RMA_ORDERING (conf (example_globals False False 0))"
    by (simp add: example_globals_def example_conf_def)
  ultimately show ?thesis
    by (intro conjunct1 [OF fence_orders [where i = SHMEM_SHEAP_WINDOW and j = SHMEM_ETEXT_WINDOW]])
      (simp_all add: example_reqs_def order_safe_def)
qed

text \<open>
  C30: in the build with \<open>ENABLE_RMA_ORDERING\<close> a fence does not order puts to different
  locations, on any MPI library: while operations are in flight on the window, there is a moment
  at which another PE may see the put behind the fence in memory and none of the operations
  issued ahead of the fence. The fence completes nothing there, and MPI orders accumulates
  in one location only.
\<close>

theorem ordered_fence_lets_puts_overtake:
  assumes "environment V mpi g r" "ENABLE_RMA_ORDERING (conf g)"
    and "valid_req g pe i (ty, target, source, len)" "len < word_of_int INT32_MAX" "\<not> use_smp g i"
    and "\<forall>x\<in>set (in_flight V m r (win_of i)).
      locations (snd x) \<inter> set (req_target V g pe (ty, target, source, len)) = {}"
  shows "\<not> along (world V mpi r) (pseq (shmem_fence g) (oshmpi_put g ty target source len pe)) (m, \<sigma>)
     (\<lambda>s. \<not> visible V r s (apply_writes (req_writes V g r pe \<sigma> (ty, target, source, len)) \<sigma>))"
  using assms by (rule ordered_fence_overtaken)

text \<open>A put of two bytes to \<open>0x1000\<close> is in flight, and the put behind the fence goes to \<open>0x1010\<close>.\<close>

definition example_flight :: ref_state where
  "example_flight = enqueue 0 Shmem_sheap_win
     (req_op example_view (example_globals False True 0) 0 1 example_store (MPI_BYTE, 0x1000, 0x3000, 2))
     example_start"

theorem ordered_fence_lets_puts_overtake_witness:
  "\<not> along (world example_view (example_mpi True) 0)
     (pseq (shmem_fence (example_globals False True 0))
        (oshmpi_put (example_globals False True 0) MPI_BYTE 0x1010 0x3004 2 1)) (example_flight, example_store)
     (\<lambda>s. \<not> visible example_view 0 s
        (apply_writes (req_writes example_view (example_globals False True 0) 0 1 example_store
           (MPI_BYTE, 0x1010, 0x3004, 2)) example_store))"
proof (rule ordered_fence_lets_puts_overtake [where i = SHMEM_SHEAP_WINDOW])
  let ?V = example_view and ?g = "example_globals False True 0"
  have "set (req_target ?V ?g 1 (MPI_BYTE, 0x1000, 0x3000, 2))
      \<inter> set (req_target ?V ?g 1 (MPI_BYTE, 0x1010, 0x3004, 2)) = {}"
    by code_simp
  moreover have "locations (snd (req_op ?V ?g 0 1 example_store (MPI_BYTE, 0x1000, 0x3000, 2)))
      \<subseteq> set (req_target ?V ?g 1 (MPI_BYTE, 0x1000, 0x3000, 2))"
    by (auto simp: req_op_def req_writes_def dest: set_zip_leftD)
  moreover have "in_flight ?V example_flight 0 (win_of SHMEM_SHEAP_WINDOW)
      = [req_op ?V ?g 0 1 example_store (MPI_BYTE, 0x1000, 0x3000, 2)]"
    by (simp add: example_flight_def example_start_def win_of_def) (simp add: example_view_def)
  ultimately show "\<forall>x\<in>set (in_flight ?V example_flight 0 (win_of SHMEM_SHEAP_WINDOW)).
      locations (snd x) \<inter> set (req_target ?V ?g 1 (MPI_BYTE, 0x1010, 0x3004, 2)) = {}"
    by auto
qed (simp_all, simp_all add: example_globals_def example_conf_def INT32_MAX_def use_smp_def)

text \<open>
  C15: a list of puts that is followed by a quiet has the effect of its puts in program order, if
  the build orders RMA, the heap is shared, or the targets do not overlap.
\<close>

theorem puts_take_effect_in_order:
  assumes "environment V mpi g r" "\<forall>p\<in>set ps. valid_req g pe i p" "stable_sources V g r pe ps"
    and "order_safe V g i pe ps" "idle V r m"
  shows "ends (world V mpi r) (pseq (puts g pe ps) (shmem_quiet g)) (m, \<sigma>)
     (\<lambda>_ (m', \<sigma>'). idle V r m' \<and>
        \<sigma>' = apply_writes (concat (map (req_writes V g r pe \<sigma>) ps)) \<sigma>)"
  using assms by (rule puts_then_quiet)

theorem puts_take_effect_in_order_witness:
  "ends (world example_view (example_mpi True) 0)
     (pseq (puts (example_globals False True 0) 1 (example_reqs 0x1000 0x3000 @ example_reqs 0x1001 0x3004))
        (shmem_quiet (example_globals False True 0))) (example_start, example_store)
     (\<lambda>_ (m', \<sigma>'). idle example_view 0 m' \<and>
        \<sigma>' = apply_writes (concat (map (req_writes example_view (example_globals False True 0) 0 1
               example_store) (example_reqs 0x1000 0x3000 @ example_reqs 0x1001 0x3004))) example_store)"
proof (rule puts_take_effect_in_order [where i = SHMEM_SHEAP_WINDOW])
  show "stable_sources example_view (example_globals False True 0) 0 1
      (example_reqs 0x1000 0x3000 @ example_reqs 0x1001 0x3004)"
    by code_simp
qed (simp_all add: example_reqs_def order_safe_def, simp add: example_globals_def example_conf_def)

text \<open>
  C17: the type \<open>MPIX_Type_contiguous_x\<close> builds for a count beyond the range of an \<open>int\<close> covers
  the bytes of \<open>count\<close> contiguous elements in order; the two intermediate types are freed.
\<close>

theorem contiguous_x_covers:
  assumes "type_laws V mpi" "predefined ty"
    and "uint cnt < INT_MAX * (INT_MAX + 1)" "uint cnt * int (predef_size ty) < 2 ^ 63"
  shows "ends (world V mpi r) (MPIX_Type_contiguous_x cnt ty) (m, \<sigma>)
     (\<lambda>t s. \<exists>h m'. t = Derived h \<and> s = (m', \<sigma>) \<and> h \<notin> live V m \<and>
        live V m' = insert h (live V m) \<and>
        typemap V m' (Derived h) = map int [0..<unat cnt * predef_size ty])"
  by (rule ends_mono [OF contiguous_x_builds [OF assms]]) (auto simp: new_type_state_def)

theorem contiguous_x_covers_witness:
  "ends (world example_view (example_mpi False) 0) (MPIX_Type_contiguous_x 0x180000000 MPI_INT)
     (example_start, example_store)
     (\<lambda>t s. \<exists>h m'. t = Derived h \<and> s = (m', example_store) \<and> h \<notin> live example_view example_start \<and>
        live example_view m' = insert h (live example_view example_start) \<and>
        typemap example_view m' (Derived h) = map int [0..<unat (0x180000000 :: size_t) * predef_size MPI_INT])"
  by (rule contiguous_x_covers) (simp_all add: predefined_def INT_MAX_def)

text \<open>
  C29: a put through MPI frees the datatype it makes for a long message, except that a message
  of exactly \<open>INT32_MAX\<close> elements leaves one datatype allocated: the test that builds the type
  and the test that frees it disagree there.
\<close>

theorem put_type_balance:
  assumes "environment V mpi g r" "fits len ty" "oshmpi_window_offset g target pe = (0, i, off)"
    and "\<not> use_smp g i" "idle V r m"
  shows "ends (world V mpi r) (oshmpi_put g ty target source len pe) (m, \<sigma>)
     (\<lambda>_ (m', \<sigma>'). if len = word_of_int INT32_MAX
        then \<exists>h. h \<notin> live V m \<and> live V m' = insert h (live V m)
        else live V m' = live V m)"
  by (rule ends_mono [OF put_mpi [OF environmentD(1,2) [OF assms(1)] assms(2-4)
          progress_start [OF idle_win_of [OF assms(5)]]]])
    (auto simp: type_balance_def leaks_one_def keeps_types_def)

theorem put_type_balance_witness:
  "ends (world example_view (example_mpi False) 0)
     (oshmpi_put (example_globals False False 0) MPI_INT 0x1010 0x3000 0x7fffffff 1)
     (example_start, example_store)
     (\<lambda>_ (m', \<sigma>'). if (0x7fffffff :: size_t) = word_of_int INT32_MAX
        then \<exists>h. h \<notin> live example_view example_start \<and>
               live example_view m' = insert h (live example_view example_start)
        else live example_view m' = live example_view example_start)"
  by (rule put_type_balance [where i = SHMEM_SHEAP_WINDOW and off = 16])
    (simp_all add: fits_def predefined_def use_smp_def, simp add: example_globals_def example_conf_def)

end
