(* ===== verification/Atomics.thy ===== *)
theory Atomics
  imports Ordering
begin

text \<open>
  The atomic operations of \<open>src/src/shmem-internals.c\<close>: \<open>oshmpi_swap\<close>, \<open>oshmpi_cswap\<close>,
  \<open>oshmpi_add\<close>, \<open>oshmpi_fadd\<close>. The C functions take the addresses of local variables; here an
  input is a 64-bit pattern of which the low bytes count, and \<open>*output\<close> is the result.

  Both implementations, the GCC builtins on the shared heap and the MPI calls, do the same to
  the cells of the remote object: they return its value and replace it in one step.
\<close>

section \<open>The operations\<close>

definition sync_type :: "mpi_type \<Rightarrow> bool" where
  "sync_type mpi_type \<longleftrightarrow> mpi_type = MPI_LONG \<or> mpi_type = MPI_INT \<or> mpi_type = MPI_LONG_LONG"

text \<open>The width of the object a builtin acts on, by the C type of the pointer.\<close>

definition sync_width :: "mpi_type \<Rightarrow> nat" where
  "sync_width mpi_type = (if mpi_type = MPI_INT then 4 else 8)"

definition oshmpi_swap :: "globals \<Rightarrow> mpi_type \<Rightarrow> addr \<Rightarrow> scalar \<Rightarrow> int \<Rightarrow> scalar shm" where
  "oshmpi_swap g mpi_type remote input pe =
     (case oshmpi_window_offset g remote pe of (ret, win_id, win_offset) \<Rightarrow>
      if ret \<noteq> 0 then oshmpi_abort pe ''oshmpi_window_offset failed to find swap remote''
      else let win = win_of win_id in
      if use_smp g win_id \<and> sync_type mpi_type
      then call_val (Mem (Sync_lock_test_and_set (smp_ptr g pe remote) (sync_width mpi_type) input))
      else pbind (call_val (Rma (MPI_Fetch_and_op (Some input) mpi_type pe win_offset MPI_REPLACE win)))
             (\<lambda>output. pseq (call (Rma (MPI_Win_flush pe win))) (Return output)))"

definition oshmpi_cswap ::
    "globals \<Rightarrow> mpi_type \<Rightarrow> addr \<Rightarrow> scalar \<Rightarrow> scalar \<Rightarrow> int \<Rightarrow> scalar shm" where
  "oshmpi_cswap g mpi_type remote input compare pe =
     (case oshmpi_window_offset g remote pe of (ret, win_id, win_offset) \<Rightarrow>
      if ret \<noteq> 0 then oshmpi_abort pe ''oshmpi_window_offset failed to find cswap remote''
      else let win = win_of win_id in
      if use_smp g win_id
      then if sync_type mpi_type
           then call_val (Mem (Sync_val_compare_and_swap (smp_ptr g pe remote) (sync_width mpi_type)
                                 compare input))
           else oshmpi_abort pe ''oshmpi_cswap: invalid datatype''
      else pbind (call_val (Rma (MPI_Compare_and_swap input compare mpi_type pe win_offset win)))
             (\<lambda>output. pseq (call (Rma (MPI_Win_flush pe win))) (Return output)))"

definition oshmpi_add :: "globals \<Rightarrow> mpi_type \<Rightarrow> addr \<Rightarrow> scalar \<Rightarrow> int \<Rightarrow> unit shm" where
  "oshmpi_add g mpi_type remote input pe =
     (case oshmpi_window_offset g remote pe of (ret, win_id, win_offset) \<Rightarrow>
      if ret \<noteq> 0 then oshmpi_abort pe ''oshmpi_window_offset failed to find add remote''
      else let win = win_of win_id in
      if use_smp g win_id
      then if sync_type mpi_type
           then call (Mem (Sync_fetch_and_add (smp_ptr g pe remote) (sync_width mpi_type) input))
           else oshmpi_abort pe ''oshmpi_add: invalid datatype''
      else pseq (call (Rma (MPI_Accumulate (Val input) 1 mpi_type pe win_offset 1 mpi_type MPI_SUM win)))
             (call (Rma (MPI_Win_flush_local pe win))))"

definition oshmpi_fadd :: "globals \<Rightarrow> mpi_type \<Rightarrow> addr \<Rightarrow> scalar \<Rightarrow> int \<Rightarrow> scalar shm" where
  "oshmpi_fadd g mpi_type remote input pe =
     (case oshmpi_window_offset g remote pe of (ret, win_id, win_offset) \<Rightarrow>
      if ret \<noteq> 0 then oshmpi_abort pe ''oshmpi_window_offset failed to find fadd remote''
      else let win = win_of win_id in
      if use_smp g win_id
      then if sync_type mpi_type
           then call_val (Mem (Sync_fetch_and_add (smp_ptr g pe remote) (sync_width mpi_type) input))
           else oshmpi_abort pe ''oshmpi_fadd: invalid datatype''
      else pbind (call_val (Rma (MPI_Fetch_and_op (Some input) mpi_type pe win_offset MPI_SUM win)))
             (\<lambda>output. pseq (call (Rma (MPI_Win_flush pe win))) (Return output)))"

section \<open>Effect on the remote object\<close>

lemma sync_type_integer: "sync_type ty \<longleftrightarrow> integer_type ty"
  by (auto simp: sync_type_def integer_type_def)

lemma sync_width_size: "integer_type ty \<Longrightarrow> sync_width ty = predef_size ty"
  by (auto simp: sync_width_def integer_type_def)

lemma integer_type_predefined: "integer_type ty \<Longrightarrow> predefined ty \<and> predef_size ty \<le> 8"
  by (auto simp: integer_type_def predefined_def)

text \<open>Where an atomic operation can be used, and what it acts on.\<close>

definition atomic_object :: "globals \<Rightarrow> addr \<Rightarrow> int \<Rightarrow> mpi_type \<Rightarrow> bool" where
  "atomic_object g a pe ty \<longleftrightarrow>
     predefined ty \<and> predef_size ty \<le> 8 \<and> symmetric g a pe (predef_size ty)"

definition object_cells :: "'m mpi_view \<Rightarrow> globals \<Rightarrow> addr \<Rightarrow> int \<Rightarrow> mpi_type \<Rightarrow> cell list" where
  "object_cells V g a pe ty = remote_of V g a pe (predef_size ty)"

lemma atomic_objectE:
  assumes "atomic_object g a pe ty"
  obtains i off where "oshmpi_window_offset g a pe = (0, i, off)"
    "in_segment g i pe off (predef_size ty)"
    "object_cells V g a pe ty = remote_range V (win_of i) pe off (predef_size ty)"
    "atomic_cells V (win_of i) pe off ty = object_cells V g a pe ty"
proof -
  have s: "symmetric g a pe (predef_size ty)"
    using assms by (simp add: atomic_object_def)
  from symmetricE [OF s] that show thesis
    by (simp add: object_cells_def atomic_cells_def remote_range_def) blast
qed

lemma object_length [simp]: "length (object_cells V g a pe ty) = predef_size ty"
  by (simp add: object_cells_def remote_of_def remote_range_def split: prod.split)

text \<open>A fetching call, then the flush that completes it.\<close>

lemma fetch_flush_ends:
  assumes L: "rma_laws V mpi" and f: "fetches V mpi r c w cs upd"
    and m: "idle V r m" "w = Shmem_sheap_win \<or> w = Shmem_etext_win"
    and Q: "\<And>m'. \<forall>r'. idle V r' m \<longrightarrow> idle V r' m' \<Longrightarrow>
      Q (read_val cs \<sigma>) (m', write_val cs (upd (read_val cs \<sigma>)) \<sigma>)"
  shows "ends (world V mpi r)
     (pbind (call_val (Rma c)) (\<lambda>output. pseq (call (Rma (MPI_Win_flush pe w))) (Return output)))
     (m, \<sigma>) Q"
proof -
  have e: "in_flight V m r w = []"
    using m by (auto simp: idle_def)
  show ?thesis
    unfolding ends_pbind ends_pseq
  proof (rule ends_fetch [OF f e], rule ends_complete [OF rma_lawsD(7) [OF L]], simp)
    fix m1 m2 don rest
    assume 1: "flight_upd V m r w [] m1" "legal_order (in_flight V m1 r w) (don @ rest)"
        "flight_upd V m1 r w rest m2"
    have "in_flight V m1 r w = []"
      using 1(1) by (simp add: flight_upd_def)
    then have d: "don = []" "rest = []"
      using 1(2) by simp_all
    then have "\<forall>r'. idle V r' m \<longrightarrow> idle V r' m2"
      using 1(1,3) m(1) by (auto simp: idle_def flight_upd_def)
    with Q [of m2] d(1) show "Q (read_val cs \<sigma>)
        (m2, apply_ops don (write_val cs (upd (read_val cs \<sigma>)) \<sigma>))"
      by simp
  qed
qed

text \<open>The four operations as one: what they return and what they leave in the cells.\<close>

definition does ::
    "'m mpi_view \<Rightarrow> (int \<Rightarrow> 'm world mpi) \<Rightarrow> int \<Rightarrow> scalar shm \<Rightarrow> cell list \<Rightarrow> (scalar \<Rightarrow> scalar) \<Rightarrow> bool"
  where
  "does V mpi r p cs upd \<longleftrightarrow>
     (\<forall>m \<sigma>. idle V r m \<longrightarrow> ends (world V mpi r) p (m, \<sigma>)
        (\<lambda>old s. old = read_val cs \<sigma> \<and> (\<forall>r'. idle V r' m \<longrightarrow> idle V r' (fst s)) \<and>
           snd s = write_val cs (upd (read_val cs \<sigma>)) \<sigma>))"

lemma doesD:
  "does V mpi r p cs upd \<Longrightarrow> idle V r m \<Longrightarrow> ends (world V mpi r) p (m, \<sigma>)
     (\<lambda>old s. old = read_val cs \<sigma> \<and> (\<forall>r'. idle V r' m \<longrightarrow> idle V r' (fst s)) \<and>
        snd s = write_val cs (upd (read_val cs \<sigma>)) \<sigma>)"
  by (simp add: does_def)

lemma does_builtin:
  assumes "\<And>\<sigma>. mem_step (vmap V r) oper \<sigma>
      = (RVal (read_val cs \<sigma>), write_val cs (upd (read_val cs \<sigma>)) \<sigma>)"
  shows "does V mpi r (call_val (Mem oper)) cs upd"
  unfolding does_def by (intro allI impI ends_mem_val) (rule assms, simp)

lemma does_fetch:
  assumes "rma_laws V mpi" "fetches V mpi r c w cs upd" "w = Shmem_sheap_win \<or> w = Shmem_etext_win"
  shows "does V mpi r
     (pbind (call_val (Rma c)) (\<lambda>output. pseq (call (Rma (MPI_Win_flush pe w))) (Return output))) cs upd"
  unfolding does_def by (intro allI impI fetch_flush_ends [OF assms(1,2) _ assms(3)]) simp_all

lemma smp_object:
  assumes E: "environment V mpi g r" and l: "oshmpi_window_offset g a pe = (0, i, off)"
    and seg: "in_segment g i pe off (predef_size ty)" and u: "use_smp g i" "integer_type ty"
    and c: "object_cells V g a pe ty = remote_range V (win_of i) pe off (predef_size ty)"
  shows "range_at (vmap V r) (smp_ptr g pe a) (sync_width ty) = object_cells V g a pe ty"
  using smp_range [OF environmentD(4) [OF E u(1)] l u(1) seg] by (simp add: c sync_width_size u(2))

lemma swap_does:
  assumes E: "environment V mpi g r" and ob: "atomic_object g a pe ty"
  shows "does V mpi r (oshmpi_swap g ty a v pe) (object_cells V g a pe ty) (\<lambda>old. v)"
proof -
  obtain i off where l: "oshmpi_window_offset g a pe = (0, i, off)" "in_segment g i pe off (predef_size ty)"
    and c: "object_cells V g a pe ty = remote_range V (win_of i) pe off (predef_size ty)"
      "atomic_cells V (win_of i) pe off ty = object_cells V g a pe ty"
    using atomic_objectE [OF ob] by blast
  have ty: "predefined ty" "predef_size ty \<le> 8"
    using ob by (simp_all add: atomic_object_def)
  show ?thesis
  proof (cases "use_smp g i \<and> sync_type ty")
    case True
    then have "range_at (vmap V r) (smp_ptr g pe a) (sync_width ty) = object_cells V g a pe ty"
      by (intro smp_object [OF E l _ _ c(1)]) (simp_all add: sync_type_integer)
    with True l(1) show ?thesis
      by (simp add: oshmpi_swap_def Let_def) (intro does_builtin, simp)
  next
    case False
    have "fetches V mpi r (MPI_Fetch_and_op (Some v) ty pe off MPI_REPLACE (win_of i)) (win_of i)
        (object_cells V g a pe ty) (\<lambda>old. v)"
      unfolding c(2) [symmetric] by (rule rma_lawsD_fetch(1) [OF environmentD(1) [OF E] ty])
    from does_fetch [OF environmentD(1) [OF E] this win_of_cases] False l(1) show ?thesis
      by (auto simp: oshmpi_swap_def Let_def)
  qed
qed

lemma cswap_does:
  assumes E: "environment V mpi g r" and ob: "atomic_object g a pe ty" and ty: "integer_type ty"
  shows "does V mpi r (oshmpi_cswap g ty a v c pe) (object_cells V g a pe ty)
     (\<lambda>old. if old = take_bit (8 * predef_size ty) c then v else old)"
proof -
  obtain i off where l: "oshmpi_window_offset g a pe = (0, i, off)" "in_segment g i pe off (predef_size ty)"
    and c: "object_cells V g a pe ty = remote_range V (win_of i) pe off (predef_size ty)"
      "atomic_cells V (win_of i) pe off ty = object_cells V g a pe ty"
    using atomic_objectE [OF ob] by blast
  show ?thesis
  proof (cases "use_smp g i")
    case True
    then have "range_at (vmap V r) (smp_ptr g pe a) (sync_width ty) = object_cells V g a pe ty"
      by (intro smp_object [OF E l _ ty c(1)])
    with True l(1) ty show ?thesis
      by (simp add: oshmpi_cswap_def Let_def sync_type_integer)
        (intro does_builtin, simp add: Let_def write_val_read sync_width_size object_length ty
          integer_type_predefined)
  next
    case False
    have "fetches V mpi r (MPI_Compare_and_swap v c ty pe off (win_of i)) (win_of i)
        (object_cells V g a pe ty) (\<lambda>old. if old = take_bit (8 * predef_size ty) c then v else old)"
      unfolding c(2) [symmetric]
      by (rule rma_lawsD_fetch(4) [OF environmentD(1) [OF E] _ _ ty])
        (simp_all add: integer_type_predefined [OF ty])
    from does_fetch [OF environmentD(1) [OF E] this win_of_cases] False l(1) show ?thesis
      by (auto simp: oshmpi_cswap_def Let_def)
  qed
qed

lemma fadd_does:
  assumes E: "environment V mpi g r" and ob: "atomic_object g a pe ty" and ty: "integer_type ty"
  shows "does V mpi r (oshmpi_fadd g ty a v pe) (object_cells V g a pe ty) (\<lambda>old. old + v)"
proof -
  obtain i off where l: "oshmpi_window_offset g a pe = (0, i, off)" "in_segment g i pe off (predef_size ty)"
    and c: "object_cells V g a pe ty = remote_range V (win_of i) pe off (predef_size ty)"
      "atomic_cells V (win_of i) pe off ty = object_cells V g a pe ty"
    using atomic_objectE [OF ob] by blast
  show ?thesis
  proof (cases "use_smp g i")
    case True
    then have "range_at (vmap V r) (smp_ptr g pe a) (sync_width ty) = object_cells V g a pe ty"
      by (intro smp_object [OF E l _ ty c(1)])
    with True l(1) ty show ?thesis
      by (simp add: oshmpi_fadd_def Let_def sync_type_integer) (intro does_builtin, simp add: Let_def)
  next
    case False
    have "fetches V mpi r (MPI_Fetch_and_op (Some v) ty pe off MPI_SUM (win_of i)) (win_of i)
        (object_cells V g a pe ty) (\<lambda>old. old + v)"
      unfolding c(2) [symmetric]
      by (rule rma_lawsD_fetch(3) [OF environmentD(1) [OF E] _ _ ty])
        (simp_all add: integer_type_predefined [OF ty])
    from does_fetch [OF environmentD(1) [OF E] this win_of_cases] False l(1) show ?thesis
      by (auto simp: oshmpi_fadd_def Let_def)
  qed
qed

text \<open>An add returns nothing: it adds one operation to the history of its window.\<close>

lemma add_through:
  assumes E: "environment V mpi g r" and ob: "atomic_object g a pe ty" and ty: "integer_type ty"
    and l: "oshmpi_window_offset g a pe = (0, i, off)" and I: "history V g r i \<sigma>\<^sub>0 xs m \<sigma>"
    and J: "\<And>m' \<sigma>' ys. ys \<in> {xs, xs @ [(pe, Update (object_cells V g a pe ty) v)]} \<Longrightarrow>
      history V g r i \<sigma>\<^sub>0 ys m' \<sigma>' \<Longrightarrow> J (m', \<sigma>')"
  shows "through (world V mpi r) (oshmpi_add g ty a v pe) (m, \<sigma>) J
     (\<lambda>_ (m', \<sigma>'). history V g r i \<sigma>\<^sub>0 (xs @ [(pe, Update (object_cells V g a pe ty) v)]) m' \<sigma>')"
proof -
  let ?cs = "object_cells V g a pe ty"
  have s: "in_segment g i pe off (predef_size ty)"
    and c: "?cs = remote_range V (win_of i) pe off (predef_size ty)"
      "atomic_cells V (win_of i) pe off ty = ?cs"
    using atomic_objectE [OF ob] l by auto
  let ?x = "(pe, Update ?cs v)"
  have start: "J (m, \<sigma>)"
    using J [OF _ I] by simp
  show ?thesis
  proof (cases "use_smp g i")
    case True
    then have "range_at (vmap V r) (smp_ptr g pe a) (sync_width ty) = ?cs"
      by (intro smp_object [OF E l s _ ty c(1)])
    moreover have h: "history V g r i \<sigma>\<^sub>0 (xs @ [?x]) m (apply_op (snd ?x) \<sigma>)"
      by (rule history_applied [OF I True refl])
    moreover have "J (m, apply_op (snd ?x) \<sigma>)"
      by (rule J [OF _ h]) simp
    ultimately show ?thesis
      using True l ty start
      by (simp add: oshmpi_add_def Let_def sync_type_integer)
        (intro through_last ends_mem, simp_all add: Let_def)
  next
    case False
    note issue = rma_lawsD(3) [OF environmentD(1) [OF E] ty, of r v pe off "win_of i", unfolded c(2)]
    have p: "progress V r (win_of i) \<sigma>\<^sub>0 xs m \<sigma>"
      using I by (simp add: history_def)
    have h1: "history V g r i \<sigma>\<^sub>0 (xs @ [?x]) m1 \<sigma>"
      if "flight_upd V m r (win_of i) (in_flight V m r (win_of i) @ [?x]) m1" for m1
      by (rule history_mpi [OF progress_issue [OF p that] False untouched_upd [OF that] I])
    have w: "win_of i \<in> {Shmem_sheap_win, Shmem_etext_win}"
      using win_of_cases by auto
    have "through (world V mpi r) (pseq (call (Rma (MPI_Accumulate (Val v) 1 ty pe off 1 ty MPI_SUM (win_of i))))
        (call (Rma (MPI_Win_flush_local pe (win_of i))))) (m, \<sigma>) J
      (\<lambda>_ (m', \<sigma>'). history V g r i \<sigma>\<^sub>0 (xs @ [?x]) m' \<sigma>')"
    proof (rule through_then, simp, rule start, rule ends_issue [OF issue], simp, rule through_last, simp)
      fix m1
      assume "flight_upd V m r (win_of i) (in_flight V m r (win_of i) @ [?x]) m1"
      note h = h1 [OF this]
      show "J (m1, \<sigma>)"
        by (rule J [OF _ h]) simp
      show "ends (world V mpi r) (call (Rma (MPI_Win_flush_local pe (win_of i)))) (m1, \<sigma>)
         (\<lambda>_ s. J s \<and> (case s of (m', \<sigma>') \<Rightarrow> history V g r i \<sigma>\<^sub>0 (xs @ [?x]) m' \<sigma>'))"
        by (rule ends_complete [OF rma_lawsD(6) [OF environmentD(1) [OF E]]])
          (auto intro: J dest: history_flush [OF h w])
    qed
    with False l show ?thesis
      by (simp add: oshmpi_add_def Let_def)
  qed
qed

text \<open>It is complete after a quiet.\<close>

lemma add_quiet:
  assumes E: "environment V mpi g r" and ob: "atomic_object g a pe ty" and ty: "integer_type ty"
    and m: "idle V r m"
  shows "ends (world V mpi r) (pseq (oshmpi_add g ty a v pe) (shmem_quiet g)) (m, \<sigma>)
     (\<lambda>_ s. idle V r (fst s) \<and>
        snd s = write_val (object_cells V g a pe ty) (read_val (object_cells V g a pe ty) \<sigma> + v) \<sigma>)"
proof -
  obtain i off where l: "oshmpi_window_offset g a pe = (0, i, off)"
    using atomic_objectE [OF ob] by blast
  have h: "ends (world V mpi r) (oshmpi_add g ty a v pe) (m, \<sigma>)
     (\<lambda>_ (m', \<sigma>'). history V g r i \<sigma> ([] @ [(pe, Update (object_cells V g a pe ty) v)]) m' \<sigma>')"
    by (rule throughD(2) [OF add_through [where J = "\<lambda>_. True", OF E ob ty l history_start [OF m] TrueI]])
  show ?thesis
    unfolding ends_pseq
    by (rule ends_mono [OF h], clarify, rule quiet_history [OF E], assumption) simp
qed

end
