(* ===== verification/Atomics_Api.thy ===== *)
theory Atomics_Api
  imports Atomics
begin

text \<open>
  The typed atomic routines of \<open>src/src/shmem.c\<close> (lines 448-576) over \<open>oshmpi_swap\<close>,
  \<open>oshmpi_cswap\<close>, \<open>oshmpi_fadd\<close> and \<open>oshmpi_add\<close>. An \<open>int\<close> or \<open>long\<close> argument is a HOL integer, a
  \<open>float\<close> or \<open>double\<close> its bit pattern.
\<close>

definition as_int :: "scalar \<Rightarrow> int" where
  "as_int x = sint (ucast x :: 32 word)"

definition as_long :: "scalar \<Rightarrow> int" where
  "as_long x = sint x"

section \<open>The routines\<close>

definition shmem_float_swap :: "globals \<Rightarrow> addr \<Rightarrow> 32 word \<Rightarrow> int \<Rightarrow> (32 word) shm" where
  "shmem_float_swap g t v pe =
     pbind (oshmpi_swap g MPI_FLOAT t (ucast v) pe) (\<lambda>r. Return (ucast r))"

definition shmem_double_swap :: "globals \<Rightarrow> addr \<Rightarrow> 64 word \<Rightarrow> int \<Rightarrow> (64 word) shm" where
  "shmem_double_swap g t v pe =
     pbind (oshmpi_swap g MPI_DOUBLE t (ucast v) pe) (\<lambda>r. Return (ucast r))"

definition shmem_int_swap :: "globals \<Rightarrow> addr \<Rightarrow> int \<Rightarrow> int \<Rightarrow> int shm" where
  "shmem_int_swap g t v pe =
     pbind (oshmpi_swap g MPI_INT t (word_of_int v) pe) (\<lambda>r. Return (as_int r))"

definition shmem_long_swap :: "globals \<Rightarrow> addr \<Rightarrow> int \<Rightarrow> int \<Rightarrow> int shm" where
  "shmem_long_swap g t v pe =
     pbind (oshmpi_swap g MPI_LONG t (word_of_int v) pe) (\<lambda>r. Return (as_long r))"

definition shmem_longlong_swap :: "globals \<Rightarrow> addr \<Rightarrow> int \<Rightarrow> int \<Rightarrow> int shm" where
  "shmem_longlong_swap g t v pe =
     pbind (oshmpi_swap g MPI_LONG_LONG t (word_of_int v) pe) (\<lambda>r. Return (as_long r))"

definition shmem_swap :: "globals \<Rightarrow> addr \<Rightarrow> int \<Rightarrow> int \<Rightarrow> int shm" where
  "shmem_swap g t v pe =
     pbind (oshmpi_swap g MPI_LONG t (word_of_int v) pe) (\<lambda>r. Return (as_long r))"

definition shmem_int_cswap :: "globals \<Rightarrow> addr \<Rightarrow> int \<Rightarrow> int \<Rightarrow> int \<Rightarrow> int shm" where
  "shmem_int_cswap g t c v pe =
     pbind (oshmpi_cswap g MPI_INT t (word_of_int v) (word_of_int c) pe) (\<lambda>r. Return (as_int r))"

definition shmem_long_cswap :: "globals \<Rightarrow> addr \<Rightarrow> int \<Rightarrow> int \<Rightarrow> int \<Rightarrow> int shm" where
  "shmem_long_cswap g t c v pe =
     pbind (oshmpi_cswap g MPI_LONG t (word_of_int v) (word_of_int c) pe) (\<lambda>r. Return (as_long r))"

definition shmem_longlong_cswap :: "globals \<Rightarrow> addr \<Rightarrow> int \<Rightarrow> int \<Rightarrow> int \<Rightarrow> int shm" where
  "shmem_longlong_cswap g t c v pe =
     pbind (oshmpi_cswap g MPI_LONG_LONG t (word_of_int v) (word_of_int c) pe) (\<lambda>r. Return (as_long r))"

definition shmem_int_fadd :: "globals \<Rightarrow> addr \<Rightarrow> int \<Rightarrow> int \<Rightarrow> int shm" where
  "shmem_int_fadd g t v pe =
     pbind (oshmpi_fadd g MPI_INT t (word_of_int v) pe) (\<lambda>r. Return (as_int r))"

definition shmem_long_fadd :: "globals \<Rightarrow> addr \<Rightarrow> int \<Rightarrow> int \<Rightarrow> int shm" where
  "shmem_long_fadd g t v pe =
     pbind (oshmpi_fadd g MPI_LONG t (word_of_int v) pe) (\<lambda>r. Return (as_long r))"

definition shmem_longlong_fadd :: "globals \<Rightarrow> addr \<Rightarrow> int \<Rightarrow> int \<Rightarrow> int shm" where
  "shmem_longlong_fadd g t v pe =
     pbind (oshmpi_fadd g MPI_LONG_LONG t (word_of_int v) pe) (\<lambda>r. Return (as_long r))"

definition shmem_int_finc :: "globals \<Rightarrow> addr \<Rightarrow> int \<Rightarrow> int shm" where
  "shmem_int_finc g t pe =
     (let v = 1 in pbind (oshmpi_fadd g MPI_INT t v pe) (\<lambda>r. Return (as_int r)))"

definition shmem_long_finc :: "globals \<Rightarrow> addr \<Rightarrow> int \<Rightarrow> int shm" where
  "shmem_long_finc g t pe =
     (let v = 1 in pbind (oshmpi_fadd g MPI_LONG t v pe) (\<lambda>r. Return (as_long r)))"

definition shmem_longlong_finc :: "globals \<Rightarrow> addr \<Rightarrow> int \<Rightarrow> int shm" where
  "shmem_longlong_finc g t pe =
     (let v = 1 in pbind (oshmpi_fadd g MPI_LONG_LONG t v pe) (\<lambda>r. Return (as_long r)))"

definition shmem_int_add :: "globals \<Rightarrow> addr \<Rightarrow> int \<Rightarrow> int \<Rightarrow> unit shm" where
  "shmem_int_add g t v pe =
     oshmpi_add g MPI_INT t (word_of_int v) pe"

definition shmem_long_add :: "globals \<Rightarrow> addr \<Rightarrow> int \<Rightarrow> int \<Rightarrow> unit shm" where
  "shmem_long_add g t v pe =
     oshmpi_add g MPI_LONG t (word_of_int v) pe"

definition shmem_longlong_add :: "globals \<Rightarrow> addr \<Rightarrow> int \<Rightarrow> int \<Rightarrow> unit shm" where
  "shmem_longlong_add g t v pe =
     oshmpi_add g MPI_LONG_LONG t (word_of_int v) pe"

definition shmem_int_inc :: "globals \<Rightarrow> addr \<Rightarrow> int \<Rightarrow> unit shm" where
  "shmem_int_inc g t pe =
     (let v = 1 in oshmpi_add g MPI_INT t v pe)"

definition shmem_long_inc :: "globals \<Rightarrow> addr \<Rightarrow> int \<Rightarrow> unit shm" where
  "shmem_long_inc g t pe =
     (let v = 1 in oshmpi_add g MPI_LONG t v pe)"

definition shmem_longlong_inc :: "globals \<Rightarrow> addr \<Rightarrow> int \<Rightarrow> unit shm" where
  "shmem_longlong_inc g t pe =
     (let v = 1 in oshmpi_add g MPI_LONG_LONG t v pe)"

section \<open>Values\<close>

lemma as_int_take_bit [simp]: "as_int (take_bit 32 x) = as_int x"
proof -
  have "(ucast (take_bit 32 x) :: 32 word) = ucast x"
    by (rule bit_word_eqI) (simp add: bit_simps)
  then show ?thesis
    by (simp add: as_int_def)
qed

lemma as_int_c_int: "as_int x = c_int (uint x)"
proof -
  have "(ucast x :: 32 word) = word_of_int (uint x)"
    by simp
  then show ?thesis
    by (simp only: as_int_def c_int_def signed_of_int) simp
qed

lemma c_int_mod_64: "c_int (x mod 2 ^ 64) = c_int x"
  by (rule c_int_cong) (simp add: mod_mod_cancel)

lemma as_int_word_of_int: "as_int (word_of_int i) = c_int i"
  unfolding as_int_c_int using c_int_mod_64 [of i] by (simp add: uint_word_of_int)

lemma as_long_word_of_int: "as_long (word_of_int i) = c_long i"
  by (simp add: as_long_def c_long_def signed_of_int)

lemma as_int_add: "as_int (x + word_of_int i) = c_int (as_int x + i)"
proof -
  have "as_int (x + word_of_int i) = c_int ((uint x + i) mod 2 ^ 64)"
    unfolding as_int_c_int by (simp add: uint_word_ariths uint_word_of_int mod_add_right_eq)
  also have "\<dots> = c_int (uint x + i)"
    by (rule c_int_mod_64)
  also have "\<dots> = c_int (c_int (uint x) + i)"
  proof (rule c_int_cong)
    have "c_int (uint x) mod 2 ^ 32 = uint x mod 2 ^ 32"
      using take_bit_signed_take_bit [of "32" "31" "uint x"] by (simp add: c_int_def take_bit_eq_mod)
    then show "(uint x + i) mod 2 ^ 32 = (c_int (uint x) + i) mod 2 ^ 32"
      by (metis mod_add_left_eq)
  qed
  finally show ?thesis
    by (simp add: as_int_c_int)
qed

text \<open>The \<open>int\<close> a program reads in four cells.\<close>

definition int_at :: "cell list \<Rightarrow> store \<Rightarrow> int" where
  "int_at cs \<sigma> = as_int (read_val cs \<sigma>)"

lemma int_at_write:
  assumes "distinct cs" "length cs = 4"
  shows "int_at cs (write_val cs v \<sigma>) = as_int v"
  using read_write_val [OF assms(1), of v \<sigma>] assms(2) by (simp add: int_at_def)

section \<open>Tickets\<close>

text \<open>The program of a PE that draws \<open>n\<close> tickets and adds them to the list \<open>l\<close>.\<close>

primrec fincs :: "globals \<Rightarrow> addr \<Rightarrow> int \<Rightarrow> nat \<Rightarrow> int list \<Rightarrow> int list shm" where
  "fincs g t pe 0 l = Return l"
| "fincs g t pe (Suc n) l = pbind (shmem_int_finc g t pe) (\<lambda>v. fincs g t pe n (l @ [v]))"

definition ticket :: "int \<Rightarrow> nat \<Rightarrow> int" where
  "ticket v k = c_int (v + int k)"

text \<open>Everything a call of \<open>shmem_int_finc\<close> does to memory it does in its first effect.\<close>

definition flush_of :: "int \<Rightarrow> unit shm \<Rightarrow> bool" where
  "flush_of pe p \<longleftrightarrow> (\<exists>w\<in>{Shmem_sheap_win, Shmem_etext_win}. p = call (Rma (MPI_Win_flush pe w)))"

lemma finc_first:
  assumes E: "environment V mpi g r" and ob: "atomic_object g t pe MPI_INT"
    and cs: "object_cells V g t pe MPI_INT = cs"
  obtains e c where "shmem_int_finc g t pe = Eff e c"
    "\<And>m \<sigma>. idle V r m \<Longrightarrow> \<exists>m'. world V mpi r e (m, \<sigma>)
        = (RVal (read_val cs \<sigma>), m', write_val cs (read_val cs \<sigma> + 1) \<sigma>) \<and>
        (\<forall>r'. idle V r' m \<longrightarrow> idle V r' m')"
    "\<And>v. c (RVal v) = Return (as_int v) \<or> (\<exists>f. flush_of pe f \<and> c (RVal v) = pseq f (Return (as_int v)))"
proof -
  obtain i off where l: "oshmpi_window_offset g t pe = (0, i, off)" "in_segment g i pe off (predef_size MPI_INT)"
    and c: "object_cells V g t pe MPI_INT = remote_range V (win_of i) pe off (predef_size MPI_INT)"
      "atomic_cells V (win_of i) pe off MPI_INT = object_cells V g t pe MPI_INT"
    using atomic_objectE [OF ob] by blast
  have ty: "integer_type MPI_INT"
    by (simp add: integer_type_def)
  show thesis
  proof (cases "use_smp g i")
    case True
    then have "range_at (vmap V r) (smp_ptr g pe t) (sync_width MPI_INT) = cs"
      using smp_object [OF E l True ty c(1)] cs by simp
    then show thesis
      using True l(1)
      by (intro that) (auto simp: shmem_int_finc_def oshmpi_fadd_def Let_def sync_type_def call_val_def)
  next
    case False
    have f: "fetches V mpi r (MPI_Fetch_and_op (Some 1) MPI_INT pe off MPI_SUM (win_of i)) (win_of i)
        cs (\<lambda>old. old + 1)"
      using rma_lawsD_fetch(3) [OF environmentD(1) [OF E] _ _ ty, of r 1 pe off "win_of i"]
      by (simp add: c(2) cs integer_type_predefined [OF ty])
    have "\<exists>m'. world V mpi r (Rma (MPI_Fetch_and_op (Some 1) MPI_INT pe off MPI_SUM (win_of i))) (m, \<sigma>)
        = (RVal (read_val cs \<sigma>), m', write_val cs (read_val cs \<sigma> + 1) \<sigma>) \<and>
        (\<forall>r'. idle V r' m \<longrightarrow> idle V r' m')" if m: "idle V r m" for m \<sigma>
      by (rule fetchesE [OF f idle_win_of [OF m], of \<sigma>]) (auto simp: idle_def flight_upd_def)
    then show thesis
      using False l(1) win_of_cases [of i]
      by (intro that) (auto simp: shmem_int_finc_def oshmpi_fadd_def Let_def call_val_def flush_of_def)
  qed
qed

lemma flush_step:
  assumes E: "environment V mpi g r" and f: "flush_of pe f" and m: "idle V r m"
  obtains e c where "\<And>q. pseq f q = Eff e (c q)" "\<And>q x. c q x = q"
    "\<exists>x m'. world V mpi r e (m, \<sigma>) = (x, m', \<sigma>) \<and> (\<forall>r'. idle V r' m \<longrightarrow> idle V r' m')"
proof -
  obtain w where w: "w = Shmem_sheap_win \<or> w = Shmem_etext_win" "f = call (Rma (MPI_Win_flush pe w))"
    using f by (auto simp: flush_of_def)
  have e: "in_flight V m r w = []"
    using m w(1) by (auto simp: idle_def)
  have "\<exists>x m'. world V mpi r (Rma (MPI_Win_flush pe w)) (m, \<sigma>) = (x, m', \<sigma>) \<and>
      (\<forall>r'. idle V r' m \<longrightarrow> idle V r' m')"
    by (rule completesE [OF rma_lawsD(7) [OF environmentD(1) [OF E], of r pe w], of m \<sigma>])
      (auto simp: e idle_def flight_upd_def)
  then show thesis
    by (intro that [of "Rma (MPI_Win_flush pe w)" "\<lambda>q _. q"]) (simp_all add: w(2) call_def)
qed

text \<open>
  Between two effects a PE is about to draw its next ticket, or (\<open>b\<close>) still has to flush after
  one. \<open>K\<close> tickets have been handed out, and the counter is \<open>K\<close> further.
\<close>

definition drawing :: "globals \<Rightarrow> addr \<Rightarrow> int \<Rightarrow> nat \<Rightarrow> int list \<Rightarrow> bool \<Rightarrow> int list shm \<Rightarrow> bool" where
  "drawing g t pe n l b p \<longleftrightarrow>
     (if b then \<exists>f. flush_of pe f \<and> p = pseq f (fincs g t pe n l) else p = fincs g t pe n l)"

definition ticket_inv ::
    "'m mpi_view \<Rightarrow> (int \<Rightarrow> globals) \<Rightarrow> addr \<Rightarrow> int \<Rightarrow> cell list \<Rightarrow> int set \<Rightarrow> int \<Rightarrow> (int \<Rightarrow> nat) \<Rightarrow> nat \<Rightarrow>
     (int \<Rightarrow> int list shm) \<times> 'm world \<Rightarrow> bool" where
  "ticket_inv V G t pe cs R v N k st \<longleftrightarrow>
     (\<exists>n L B K. (\<forall>r\<in>R. drawing (G r) t pe (n r) (L r) (B r) (fst st r)) \<and>
        (\<forall>r. r \<notin> R \<longrightarrow> fst st r = Return []) \<and> (\<forall>r\<in>R. idle V r (fst (snd st))) \<and>
        (\<forall>r\<in>R. n r + length (L r) = N r) \<and> sum n R + K = sum N R \<and>
        k + (\<Sum>r\<in>R. 2 * n r + of_bool (B r)) \<le> 2 * sum N R \<and>
        (\<Sum>r\<in>R. mset (L r)) = mset (map (ticket v) [0..<K]) \<and>
        int_at cs (snd (snd st)) = c_int (v + int K))"

lemma c_int_add: "c_int (c_int x + y) = c_int (x + y)"
proof (rule c_int_cong)
  have "c_int x mod 2 ^ 32 = x mod 2 ^ 32"
    using take_bit_signed_take_bit [of "32" "31" x] by (simp add: c_int_def take_bit_eq_mod)
  then show "(c_int x + y) mod 2 ^ 32 = (x + y) mod 2 ^ 32"
    by (metis mod_add_left_eq)
qed

lemma sum_upd:
  fixes f :: "'a \<Rightarrow> 'b :: comm_monoid_add"
  assumes "finite R" "j \<in> R"
  shows "sum (f(j := x)) R = x + sum f (R - {j})"
proof -
  have "sum (f(j := x)) (R - {j}) = sum f (R - {j})"
    by (rule sum.cong) auto
  then show ?thesis
    by (simp add: sum.remove [OF assms])
qed

lemma ticket_inv_upd:
  assumes fin: "finite R" and j: "j \<in> R"
    and T: "\<forall>r\<in>R. drawing (G r) t pe (n r) (L r) (B r) (T r)" "\<forall>r. r \<notin> R \<longrightarrow> T r = Return []"
    and idle: "\<forall>r\<in>R. idle V r m'"
    and p: "drawing (G j) t pe n' (L j @ l) b p" "n j = n' + length l"
    and l: "l = [] \<or> l = [ticket v K]" "int_at cs \<sigma>' = c_int (v + int (K + length l))"
    and N: "\<forall>r\<in>R. n r + length (L r) = N r" "sum n R + K = sum N R"
      "k + (\<Sum>r\<in>R. 2 * n r + of_bool (B r)) \<le> 2 * sum N R"
    and less: "2 * n' + of_bool b < 2 * n j + of_bool (B j)"
    and L: "(\<Sum>r\<in>R. mset (L r)) = mset (map (ticket v) [0..<K])"
  shows "ticket_inv V G t pe cs R v N (Suc k) (T(j := p), (m', \<sigma>'))"
proof -
  let ?n = "n(j := n')" and ?L = "L(j := L j @ l)" and ?B = "B(j := b)"
  have c: "(\<lambda>r. 2 * ?n r + of_bool (?B r)) = (\<lambda>r. 2 * n r + of_bool (B r))(j := 2 * n' + of_bool b)"
    "(\<lambda>r. mset (?L r)) = (\<lambda>r. mset (L r))(j := mset (L j @ l))"
    by auto
  have "\<forall>r\<in>R. drawing (G r) t pe (?n r) (?L r) (?B r) ((T(j := p)) r)"
    "\<forall>r. r \<notin> R \<longrightarrow> (T(j := p)) r = Return []"
    using T p(1) j by auto
  moreover have "\<forall>r\<in>R. ?n r + length (?L r) = N r"
    using N(1) p(2) j by auto
  moreover have "sum ?n R + (K + length l) = sum N R"
    using N(2) p(2) by (simp add: sum_upd [OF fin j] sum.remove [OF fin j])
  moreover have "Suc k + (\<Sum>r\<in>R. 2 * ?n r + of_bool (?B r)) \<le> 2 * sum N R"
    using N(3) less unfolding c sum_upd [OF fin j] by (simp add: sum.remove [OF fin j])
  moreover have "(\<Sum>r\<in>R. mset (?L r)) = mset (map (ticket v) [0..<K + length l])"
  proof -
    have "mset (map (ticket v) [0..<K + length l]) = mset (map (ticket v) [0..<K]) + mset l"
      using l(1) by (elim disjE) (simp_all del: mset_upt)
    then show ?thesis
      using L unfolding c sum_upd [OF fin j] by (simp add: sum.remove [OF fin j])
  qed
  ultimately show ?thesis
    unfolding ticket_inv_def fst_conv snd_conv using idle l(2)
    by (intro exI [of _ ?n] exI [of _ ?L] exI [of _ ?B] exI [of _ "K + length l"]) blast
qed

lemma int_at_next:
  assumes "distinct cs" "length cs = 4"
  shows "int_at cs (write_val cs (read_val cs \<sigma> + 1) \<sigma>) = c_int (int_at cs \<sigma> + 1)"
  using as_int_add [of "read_val cs \<sigma>" 1]
  by (simp only: int_at_write [OF assms]) (simp add: int_at_def)

lemma ticket_step:
  assumes E: "\<forall>r\<in>R. environment V mpi (G r) r \<and> atomic_object (G r) t pe MPI_INT \<and>
      object_cells V (G r) t pe MPI_INT = cs" and fin: "finite R" and cs: "distinct cs"
    and inv: "ticket_inv V G t pe cs R v N k st" and step: "pe_step (world V mpi) st st'"
  shows "ticket_inv V G t pe cs R v N (Suc k) st'"
  using step
proof (cases rule: pe_step.cases)
  case (pe_stepI T j e c s x s')
  obtain m \<sigma> where s: "s = (m, \<sigma>)" by (cases s)
  obtain n L B K where I: "\<forall>r\<in>R. drawing (G r) t pe (n r) (L r) (B r) (T r)"
      "\<forall>r. r \<notin> R \<longrightarrow> T r = Return []" "\<forall>r\<in>R. idle V r m"
      "\<forall>r\<in>R. n r + length (L r) = N r" "sum n R + K = sum N R"
      "k + (\<Sum>r\<in>R. 2 * n r + of_bool (B r)) \<le> 2 * sum N R"
      "(\<Sum>r\<in>R. mset (L r)) = mset (map (ticket v) [0..<K])" "int_at cs \<sigma> = c_int (v + int K)"
    using inv unfolding pe_stepI(1) s ticket_inv_def by auto
  have j: "j \<in> R"
    using I(2) pe_stepI(3) by (cases "j \<in> R") auto
  note Ej = bspec [OF E j]
  have idle: "idle V j m" using I(3) j by blast
  note upd = ticket_inv_upd [OF fin j I(1,2) _ _ _ _ _ I(4-6) _ I(7)]
  show ?thesis
  proof (cases "B j")
    case True
    moreover have "drawing (G j) t pe (n j) (L j) (B j) (T j)"
      using I(1) j by blast
    ultimately obtain f where f: "flush_of pe f" "T j = pseq f (fincs (G j) t pe (n j) (L j))"
      by (auto simp: drawing_def)
    obtain e' c' where e': "\<And>q. pseq f q = Eff e' (c' q)" "\<And>q x. c' q x = (q :: int list shm)"
      and w: "\<exists>x m'. world V mpi j e' (m, \<sigma>) = (x, m', \<sigma>) \<and> (\<forall>r'. idle V r' m \<longrightarrow> idle V r' m')"
      using flush_step [OF conjunct1 [OF Ej] f(1) idle, where \<sigma> = \<sigma>] by blast
    have ec: "e = e'" "c x = fincs (G j) t pe (n j) (L j)"
      using pe_stepI(3) e'(2) [of "fincs (G j) t pe (n j) (L j)" x] by (auto simp: f(2) e'(1))
    obtain m' where s': "s' = (m', \<sigma>)" "\<forall>r'. idle V r' m \<longrightarrow> idle V r' m'"
      using w pe_stepI(4) by (auto simp: s ec(1))
    show ?thesis
      unfolding pe_stepI(2) s'(1)
      by (rule upd [where l = "[]" and b = False and n' = "n j"])
        (use I(3,8) s'(2) True in \<open>simp_all add: drawing_def ec(2)\<close>)
  next
    case False
    moreover have "drawing (G j) t pe (n j) (L j) (B j) (T j)"
      using I(1) j by blast
    ultimately have T: "T j = fincs (G j) t pe (n j) (L j)"
      by (simp add: drawing_def)
    then obtain n' where n': "n j = Suc n'"
      using pe_stepI(3) by (cases "n j") auto
    obtain e' c' where e': "shmem_int_finc (G j) t pe = Eff e' c'"
      and w: "\<exists>m'. world V mpi j e' (m, \<sigma>)
        = (RVal (read_val cs \<sigma>), m', write_val cs (read_val cs \<sigma> + 1) \<sigma>) \<and>
        (\<forall>r'. idle V r' m \<longrightarrow> idle V r' m')"
      and c': "\<And>v. c' (RVal v) = Return (as_int v) \<or>
        (\<exists>f. flush_of pe f \<and> c' (RVal v) = pseq f (Return (as_int v)))"
      using finc_first [of V mpi "G j" j t pe cs] Ej idle by metis
    have ec: "e = e'" "c x = pbind (c' x) (\<lambda>v. fincs (G j) t pe n' (L j @ [v]))"
      using pe_stepI(3) by (auto simp: T n' e')
    obtain m' where s': "x = RVal (read_val cs \<sigma>)" "s' = (m', write_val cs (read_val cs \<sigma> + 1) \<sigma>)"
        "\<forall>r'. idle V r' m \<longrightarrow> idle V r' m'"
      using w pe_stepI(4) by (auto simp: s ec(1))
    have l: "as_int (read_val cs \<sigma>) = ticket v K"
      using I(8) by (simp add: int_at_def ticket_def)
    obtain b where d: "drawing (G j) t pe n' (L j @ [ticket v K]) b (c x)"
    proof -
      have "c x = pbind (c' (RVal (read_val cs \<sigma>))) (\<lambda>v. fincs (G j) t pe n' (L j @ [v]))"
        unfolding ec(2) unfolding s'(1) by (rule refl)
      with c' [of "read_val cs \<sigma>"] show thesis
        by (elim disjE exE conjE) (rule that [of False] that [of True], force simp: drawing_def l)+
    qed
    have four: "length cs = 4"
      using Ej by (auto simp: object_length)
    have nx: "int_at cs (write_val cs (read_val cs \<sigma> + 1) \<sigma>) = c_int (v + int (K + length [ticket v K]))"
      unfolding int_at_next [OF cs four] I(8) c_int_add by (simp add: algebra_simps)
    show ?thesis
      unfolding pe_stepI(2) s'(2)
      by (rule upd [OF _ d _ _ nx]) (use I(3) s'(3) n' False in auto)
  qed
qed

lemma ticket_start:
  assumes "\<forall>r. T r = (if r \<in> R then fincs (G r) t pe (n r) [] else Return [])" "\<forall>r\<in>R. idle V r m"
  shows "ticket_inv V G t pe cs R (int_at cs \<sigma>) n 0 (T, (m, \<sigma>))"
proof -
  have "c_int (int_at cs \<sigma>) = int_at cs \<sigma>"
    by (simp add: int_at_def as_int_c_int c_int_def)
  then show ?thesis
    unfolding ticket_inv_def using assms
    by (intro exI [of _ n] exI [of _ "\<lambda>_. []"] exI [of _ "\<lambda>_. False"] exI [of _ 0])
      (simp add: drawing_def sum_distrib_left)
qed

lemma ticket_reach:
  assumes "\<forall>r\<in>R. environment V mpi (G r) r \<and> atomic_object (G r) t pe MPI_INT \<and>
      object_cells V (G r) t pe MPI_INT = cs" and "finite R" "distinct cs"
    and "(pe_step (world V mpi) ^^ k) st st'" "ticket_inv V G t pe cs R v N 0 st"
  shows "ticket_inv V G t pe cs R v N k st'"
  using assms(4)
proof (induction k arbitrary: st')
  case 0
  with assms(5) show ?case by simp
next
  case (Suc k)
  then show ?case
    by (auto intro: ticket_step [OF assms(1-3)])
qed

text \<open>The rest of a drawing PE: it has an effect to perform, or it has its tickets.\<close>

lemma drawing_returned:
  assumes "drawing g t pe n l b (Return l')"
  shows "n = 0 \<and> l' = l"
proof (cases b)
  case True
  then show ?thesis
    using assms by (auto simp: drawing_def flush_of_def call_def)
next
  case False
  then show ?thesis
    using assms by (cases n)
      (auto simp: drawing_def shmem_int_finc_def oshmpi_fadd_def oshmpi_abort_def call_val_def Let_def
        split: prod.splits if_splits)
qed

lemma drawing_running:
  assumes "environment V mpi g r" "atomic_object g t pe MPI_INT" "drawing g t pe n l b p"
  shows "(\<exists>e c. p = Eff e c) \<or> p = Return l"
proof (cases b)
  case True
  then show ?thesis
    using assms(3) by (auto simp: drawing_def flush_of_def call_def)
next
  case False
  obtain e c where "shmem_int_finc g t pe = Eff e c"
    by (rule finc_first [OF assms(1,2) refl])
  with False show ?thesis
    using assms(3) by (cases n) (auto simp: drawing_def)
qed

lemma ticket_outcome:
  assumes E: "\<forall>r\<in>R. environment V mpi (G r) r \<and> atomic_object (G r) t pe MPI_INT \<and>
      object_cells V (G r) t pe MPI_INT = cs" and R: "finite R" "distinct cs" "\<forall>r\<in>R. idle V r m"
    and T: "\<forall>r. T r = (if r \<in> R then fincs (G r) t pe (n r) [] else Return [])"
    and steps: "(pe_step (world V mpi) ^^ k) (T, (m, \<sigma>)) (T', (m', \<sigma>'))"
  shows "k \<le> 2 * sum n R"
    and "\<forall>r\<in>R. (\<exists>e c. T' r = Eff e c) \<or> (\<exists>l. T' r = Return l \<and> length l = n r)"
    and "\<forall>r\<in>R. T' r = Return (out r) \<Longrightarrow>
        (\<Sum>r\<in>R. mset (out r)) = mset (map (\<lambda>i. c_int (int_at cs \<sigma> + int i)) [0..<sum n R]) \<and>
        int_at cs \<sigma>' = c_int (int_at cs \<sigma> + int (sum n R))"
proof -
  have "ticket_inv V G t pe cs R (int_at cs \<sigma>) n k (T', (m', \<sigma>'))"
    by (rule ticket_reach [OF E R(1,2) steps ticket_start [OF T R(3)]])
  then obtain n' L B K where I: "\<forall>r\<in>R. drawing (G r) t pe (n' r) (L r) (B r) (T' r)"
      "\<forall>r\<in>R. n' r + length (L r) = n r" "sum n' R + K = sum n R"
      "k + (\<Sum>r\<in>R. 2 * n' r + of_bool (B r)) \<le> 2 * sum n R"
      "(\<Sum>r\<in>R. mset (L r)) = mset (map (ticket (int_at cs \<sigma>)) [0..<K])"
      "int_at cs \<sigma>' = c_int (int_at cs \<sigma> + int K)"
    unfolding ticket_inv_def by auto
  show "k \<le> 2 * sum n R"
    using I(4) by simp
  show "\<forall>r\<in>R. (\<exists>e c. T' r = Eff e c) \<or> (\<exists>l. T' r = Return l \<and> length l = n r)"
  proof
    fix r
    assume r: "r \<in> R"
    note d = bspec [OF I(1) r]
    consider "\<exists>e c. T' r = Eff e c" | "T' r = Return (L r)"
      using drawing_running [OF _ _ d] E r by blast
    then show "(\<exists>e c. T' r = Eff e c) \<or> (\<exists>l. T' r = Return l \<and> length l = n r)"
    proof cases
      case 2
      then have "n' r = 0"
        using d drawing_returned by metis
      with 2 I(2) r show ?thesis by auto
    qed blast
  qed
  assume ret: "\<forall>r\<in>R. T' r = Return (out r)"
  have fin: "n' r = 0 \<and> out r = L r" if "r \<in> R" for r
    using I(1) ret that by (metis drawing_returned)
  then have K: "K = sum n R" and o: "(\<Sum>r\<in>R. mset (out r)) = (\<Sum>r\<in>R. mset (L r))"
    using I(3) by simp_all
  have "ticket (int_at cs \<sigma>) = (\<lambda>i. c_int (int_at cs \<sigma> + int i))"
    by (simp add: ticket_def fun_eq_iff)
  then show "(\<Sum>r\<in>R. mset (out r)) = mset (map (\<lambda>i. c_int (int_at cs \<sigma> + int i)) [0..<sum n R]) \<and>
      int_at cs \<sigma>' = c_int (int_at cs \<sigma> + int (sum n R))"
    using I(5,6) by (simp only: o K)
qed

section \<open>Properties\<close>

text \<open>
  C11: tickets. Any number of PEs draw tickets from one counter with \<open>shmem_int_finc\<close>, the PE \<open>r\<close>
  draws \<open>n r\<close> of them, through shared memory or MPI, and their single effects interleave in any
  way. Every schedule ends, after at most two effects for each ticket; no PE is stopped on the
  way; and when all PEs have returned, the tickets they have drawn are the values of the counter
  from the initial one on, wrapped to 32 bits, each handed out once, and the counter is as many
  further.
\<close>

theorem finc_tickets:
  assumes "\<forall>r\<in>R. environment V mpi (G r) r \<and> atomic_object (G r) t pe MPI_INT \<and>
      object_cells V (G r) t pe MPI_INT = cs" and "finite R" "distinct cs" "\<forall>r\<in>R. idle V r m"
    and "\<forall>r. T r = (if r \<in> R then fincs (G r) t pe (n r) [] else Return [])"
    and "(pe_step (world V mpi) ^^ k) (T, (m, \<sigma>)) (T', (m', \<sigma>'))"
  shows "k \<le> 2 * sum n R \<and>
     (\<forall>r\<in>R. (\<exists>e c. T' r = Eff e c) \<or> (\<exists>l. T' r = Return l \<and> length l = n r)) \<and>
     ((\<forall>r\<in>R. T' r = Return (out r)) \<longrightarrow>
        (\<Sum>r\<in>R. mset (out r)) = mset (map (\<lambda>i. c_int (int_at cs \<sigma> + int i)) [0..<sum n R]) \<and>
        int_at cs \<sigma>' = c_int (int_at cs \<sigma> + int (sum n R)))"
  using ticket_outcome [OF assms] by blast

definition example_counter :: "cell list" where
  "example_counter = [(1, 0x1010), (1, 0x1011), (1, 0x1012), (1, 0x1013)]"

lemma example_object:
  "atomic_object (example_globals smp ord r) 0x1010 1 MPI_INT"
  "object_cells example_view (example_globals smp ord r) 0x1010 1 MPI_INT = example_counter"
  by (simp_all add: atomic_object_def predefined_def symmetric_def oshmpi_window_offset_def Let_def
      ptrdiff_def example_globals_def win_size_def object_cells_def remote_of_def remote_range_def
      example_view_def example_base_def win_of_def range_at_def cells_at_def example_map_def
      upt_rec example_counter_def)

text \<open>Both PEs of the example draw a ticket.\<close>

definition example_draw :: "int \<Rightarrow> int list shm" where
  "example_draw r =
     (if r \<in> {0, 1} then fincs (example_globals False False r) 0x1010 1 1 [] else Return [])"

lemma example_draw_laws:
  "\<forall>r\<in>{0, 1}. environment example_view (example_mpi True) (example_globals False False r) r \<and>
     atomic_object (example_globals False False r) 0x1010 1 MPI_INT \<and>
     object_cells example_view (example_globals False False r) 0x1010 1 MPI_INT = example_counter"
  "finite {0, 1 :: int}" "distinct example_counter" "\<forall>r\<in>{0, 1}. idle example_view r example_start"
  "\<forall>r. example_draw r = (if r \<in> {0, 1}
     then fincs (example_globals False False r) 0x1010 1 ((\<lambda>_. 1) r) [] else Return [])"
  by (simp_all add: example_object example_draw_def, simp add: example_counter_def)

text \<open>A run whose number of steps is bounded can be taken to its end.\<close>

lemma run_to_the_end:
  assumes "\<And>k st'. (step ^^ k) st st' \<Longrightarrow> k \<le> N"
  obtains k st' where "(step ^^ k) st st'" "\<nexists>st''. step st' st''"
proof -
  have "\<exists>k. (\<exists>st'. (step ^^ k) st st') \<and> (\<forall>j. (\<exists>st'. (step ^^ j) st st') \<longrightarrow> j \<le> k)"
    by (rule ex_has_greatest_nat [where b = "Suc N" and k = 0 and f = id, simplified])
      (use assms in \<open>auto simp: less_Suc_eq_le\<close>)
  then obtain k st' where k: "(step ^^ k) st st'" "\<forall>j. (\<exists>st'. (step ^^ j) st st') \<longrightarrow> j \<le> k"
    by blast
  have "\<nexists>st''. step st' st''"
  proof
    assume "\<exists>st''. step st' st''"
    then have "\<exists>st''. (step ^^ Suc k) st st''"
      using k(1) by auto
    with k(2) have "Suc k \<le> k" by blast
    then show False by simp
  qed
  with k(1) show thesis by (rule that)
qed

theorem finc_tickets_witness:
  "\<exists>k T' m' \<sigma>' a b v. (pe_step (world example_view (example_mpi True)) ^^ k)
       (example_draw, (example_start, example_store)) (T', (m', \<sigma>')) \<and> k \<le> 4 \<and>
     T' 0 = Return a \<and> T' 1 = Return b \<and> v = int_at example_counter example_store \<and>
     mset a + mset b = {#c_int v, c_int (v + 1)#} \<and> int_at example_counter \<sigma>' = c_int (v + 2)"
proof -
  let ?h = "world example_view (example_mpi True)"
  note F = finc_tickets [OF example_draw_laws]
  obtain k st' where k: "(pe_step ?h ^^ k) (example_draw, (example_start, example_store)) st'"
    and stop: "\<nexists>st''. pe_step ?h st' st''"
  proof (rule run_to_the_end)
    fix k st'
    assume "(pe_step ?h ^^ k) (example_draw, (example_start, example_store)) st'"
    then have "(pe_step ?h ^^ k) (example_draw, (example_start, example_store))
        (fst st', (fst (snd st'), snd (snd st')))" by simp
    from conjunct1 [OF F [OF this]] show "k \<le> 2 * sum (\<lambda>_. 1) {0, 1 :: int}" .
  qed
  obtain T' m' \<sigma>' where st': "st' = (T', (m', \<sigma>'))" by (cases st')
  have no: "T' r \<noteq> Eff e c" for r e c
  proof
    assume "T' r = Eff e c"
    then have "\<exists>st''. pe_step ?h st' st''"
      unfolding st' by (metis pe_step.intros surj_pair)
    with stop show False by blast
  qed
  note R = F [OF k [unfolded st']]
  have "\<forall>r\<in>{0, 1}. \<exists>l. T' r = Return l"
    using conjunct1 [OF conjunct2 [OF R]] no by blast
  then obtain a b where ab: "T' 0 = Return a" "T' 1 = Return b" by auto
  then have "\<forall>r\<in>{0, 1}. T' r = Return (if r = 0 then a else b)" by simp
  from conjunct2 [OF conjunct2 [OF R], rule_format, OF this [rule_format]]
  have "mset a + mset b = {#c_int (int_at example_counter example_store), c_int (int_at example_counter example_store + 1)#}"
    "int_at example_counter \<sigma>' = c_int (int_at example_counter example_store + 2)"
    by (simp_all add: upt_rec)
  moreover have "k \<le> 4"
    using conjunct1 [OF R] by simp
  ultimately show ?thesis
    using k [unfolded st'] ab by blast
qed

text \<open>
  C16: \<open>shmem_long_cswap\<close> is an atomic compare-and-swap on the object of the other PE in every
  build: it returns the old value and stores the new one exactly if the old one was the
  comparand; every other cell keeps its value.
\<close>

theorem long_cswap_correct:
  assumes "environment V mpi g r" "atomic_object g t pe MPI_LONG" "idle V r m"
    and "cs = object_cells V g t pe MPI_LONG" "distinct cs"
  shows "ends (world V mpi r) (shmem_long_cswap g t c v pe) (m, \<sigma>)
     (\<lambda>x s. x = as_long (read_val cs \<sigma>) \<and> idle V r (fst s) \<and>
        as_long (read_val cs (snd s)) = (if x = c_long c then c_long v else x) \<and>
        (\<forall>d. d \<notin> set cs \<longrightarrow> snd s d = \<sigma> d))"
proof -
  have n: "length cs = 8"
    using assms(4) by simp
  have t: "take_bit 64 x = x" for x :: scalar
    by (rule bit_word_eqI) (auto simp: bit_simps)
  have d: "does V mpi r (oshmpi_cswap g MPI_LONG t (word_of_int v) (word_of_int c) pe) cs
      (\<lambda>old. if old = word_of_int c then word_of_int v else old)"
    using cswap_does [OF assms(1,2), of "word_of_int v" "word_of_int c"] assms(4)
    by (simp add: integer_type_def t)
  have s: "as_long x = c_long c \<longleftrightarrow> x = word_of_int c" for x
    by (metis as_long_def as_long_word_of_int signed_word_eqI)
  have w: "read_val cs (write_val cs x \<sigma>) = x" for x
    using read_write_val [OF assms(5), of x \<sigma>] by (simp add: n t)
  show ?thesis
    unfolding shmem_long_cswap_def ends_pbind
    by (rule ends_mono [OF doesD [OF d assms(3)]])
      (auto simp: w s as_long_word_of_int write_val_other assms(3))
qed

lemma example_long_object:
  "atomic_object (example_globals smp ord r) 0x1010 1 MPI_LONG"
  "distinct (object_cells example_view (example_globals smp ord r) 0x1010 1 MPI_LONG)"
  by (simp_all add: atomic_object_def predefined_def symmetric_def oshmpi_window_offset_def Let_def
      ptrdiff_def example_globals_def win_size_def object_cells_def remote_of_def remote_range_def
      example_view_def example_base_def win_of_def range_at_def cells_at_def example_map_def upt_rec)

theorem long_cswap_correct_witness:
  "ends (world example_view (example_mpi False) 0)
     (shmem_long_cswap (example_globals False False 0) 0x1010 5 7 1) (example_start, example_store)
     (\<lambda>x s. x = as_long (read_val (object_cells example_view (example_globals False False 0) 0x1010 1
                MPI_LONG) example_store) \<and> idle example_view 0 (fst s) \<and>
        as_long (read_val (object_cells example_view (example_globals False False 0) 0x1010 1 MPI_LONG)
          (snd s)) = (if x = c_long 5 then c_long 7 else x) \<and>
        (\<forall>d. d \<notin> set (object_cells example_view (example_globals False False 0) 0x1010 1 MPI_LONG) \<longrightarrow>
           snd s d = example_store d))"
  by (rule long_cswap_correct) (simp_all add: example_long_object)

end
