(* ===== verification/Mcs_Lock.thy ===== *)
theory Mcs_Lock
  imports Atomics_Api
begin

text \<open>
  The queue lock of \<open>src/src/oshmpi-mcs-lock.c\<close>. A PE joins the queue by exchanging the tail word
  of PE 0, announces itself in the \<open>NEXT\<close> word of its predecessor and waits for a message from
  it. The window has four \<open>int\<close>s on every PE; a user's lock variable holds only the two fields
  of \<open>oshmpi_lock_t\<close>, which the routines take and return.
\<close>

section \<open>The routines\<close>

definition NEXT_DISP :: int where "NEXT_DISP = 1"
definition PREV_DISP :: int where "PREV_DISP = 0"
definition TAIL_DISP :: int where "TAIL_DISP = 2" \<comment> \<open>only has meaning in PE 0\<close>
definition LOCK_DISP :: int where "LOCK_DISP = 3"
definition TAIL :: int where "TAIL = 0"

lemmas disp_defs = NEXT_DISP_def PREV_DISP_def TAIL_DISP_def LOCK_DISP_def TAIL_def

record oshmpi_lock_t =
  lock_prev :: int \<comment> \<open>the field \<open>prev\<close>\<close>
  lock_next :: int \<comment> \<open>the field \<open>next\<close>\<close>

definition lock_base_store :: "int \<Rightarrow> int \<Rightarrow> unit shm" where
  "lock_base_store disp v = call (Mem (Lock_base_store (nat disp) v))"

definition oshmpi_allock :: "mpi_comm \<Rightarrow> unit shm" where
  "oshmpi_allock c =
     pseq (call (Env (MPI_Info_create ''lock_info'')))
     (pseq (call (Env (MPI_Info_set ''lock_info'' ''same_size'' ''true'')))
     (pseq (call (Env (MPI_Win_allocate (4 * 4) 4 c Oshmpi_lock_win)))
     (pseq (lock_base_store NEXT_DISP (-1))
     (pseq (lock_base_store PREV_DISP (-1))
     (pseq (lock_base_store TAIL_DISP (-1))
     (pseq (lock_base_store LOCK_DISP (-1))
     (pseq (call (Env (MPI_Win_lock_all TAIL Oshmpi_lock_win)))
     (call (Env (MPI_Info_free ''lock_info'')))))))))) "

definition oshmpi_deallock :: "unit shm" where
  "oshmpi_deallock =
     pseq (call (Env (MPI_Win_unlock_all Oshmpi_lock_win)))
     (call (Env (MPI_Win_free Oshmpi_lock_win)))"

text \<open>Fetch an \<open>int\<close> of the lock window of PE \<open>pe\<close>, with a flush to the same PE.\<close>

definition lock_fetch :: "int option \<Rightarrow> int \<Rightarrow> int \<Rightarrow> mpi_op \<Rightarrow> int shm" where
  "lock_fetch v pe disp oper =
     pbind (call_val (Rma (MPI_Fetch_and_op (map_option word_of_int v) MPI_INT pe disp oper Oshmpi_lock_win)))
       (\<lambda>x. pseq (call (Rma (MPI_Win_flush pe Oshmpi_lock_win))) (Return (as_int x)))"

definition oshmpi_lock :: "globals \<Rightarrow> oshmpi_lock_t \<Rightarrow> oshmpi_lock_t shm" where
  "oshmpi_lock g lock =
     pbind (lock_fetch (Some (shmem_world_rank g)) TAIL TAIL_DISP MPI_REPLACE) (\<lambda>prev.
     pseq (pwhen (prev \<noteq> -1)
       (pseq (call (Rma (MPI_Accumulate (Val (word_of_int (shmem_world_rank g))) 1 MPI_INT prev NEXT_DISP
                           1 MPI_INT MPI_REPLACE Oshmpi_lock_win)))
       (pseq (call (Rma (MPI_Win_flush prev Oshmpi_lock_win)))
       (call (Com (MPI_Probe prev MPI_COMM_WORLD))))))
     (pseq (lock_base_store LOCK_DISP 1)
     (pseq (call (Rma (MPI_Win_sync Oshmpi_lock_win)))
     (Return (lock\<lparr>lock_prev := prev\<rparr>)))))"

definition oshmpi_unlock :: "globals \<Rightarrow> oshmpi_lock_t \<Rightarrow> oshmpi_lock_t shm" where
  "oshmpi_unlock g lock =
     pbind (lock_fetch None (shmem_world_rank g) NEXT_DISP MPI_NO_OP) (\<lambda>nxt.
     pseq (pwhen (nxt \<noteq> -1)
       (call (Com (MPI_Send (shmem_world_rank g) nxt 999 MPI_COMM_WORLD))))
     (pseq (lock_base_store LOCK_DISP (-1))
     (pseq (call (Rma (MPI_Win_sync Oshmpi_lock_win)))
     (Return (lock\<lparr>lock_next := nxt\<rparr>)))))"

definition oshmpi_trylock :: "globals \<Rightarrow> oshmpi_lock_t \<Rightarrow> (int \<times> oshmpi_lock_t) shm" where
  "oshmpi_trylock g lock =
     (let nil = -1 in
     pbind (call_val (Rma (MPI_Compare_and_swap (word_of_int (shmem_world_rank g)) (word_of_int nil) MPI_INT
                             TAIL TAIL_DISP Oshmpi_lock_win))) (\<lambda>x.
     pseq (call (Rma (MPI_Win_flush TAIL Oshmpi_lock_win)))
     (let prev = as_int x;
          acquire =
            pbind (lock_fetch (Some (shmem_world_rank g)) TAIL TAIL_DISP MPI_REPLACE) (\<lambda>prev'.
            pseq (lock_base_store LOCK_DISP 1)
            (pseq (call (Rma (MPI_Win_sync Oshmpi_lock_win)))
            (Return (1, lock\<lparr>lock_prev := prev'\<rparr>))))
      in if prev \<noteq> -1
         then pbind (lock_fetch None prev LOCK_DISP MPI_NO_OP) (\<lambda>is_locked.
              if is_locked \<noteq> 0 then Return (0, lock\<lparr>lock_prev := prev\<rparr>) else acquire)
         else acquire)))"

text \<open>The entry points of \<open>src/src/shmem.c\<close>.\<close>

definition shmem_set_lock :: "globals \<Rightarrow> oshmpi_lock_t \<Rightarrow> oshmpi_lock_t shm" where
  "shmem_set_lock g lock = oshmpi_lock g lock"

definition shmem_clear_lock :: "globals \<Rightarrow> oshmpi_lock_t \<Rightarrow> oshmpi_lock_t shm" where
  "shmem_clear_lock g lock = oshmpi_unlock g lock"

definition shmem_test_lock :: "globals \<Rightarrow> oshmpi_lock_t \<Rightarrow> (int \<times> oshmpi_lock_t) shm" where
  "shmem_test_lock g lock = oshmpi_trylock g lock"

section \<open>The words of the lock window\<close>

text \<open>
  A library runs the calls of one PE at a time, each to its end; \<open>None\<close> is a call that has to
  wait. \<open>W\<close> reads the word of a PE at a displacement, \<open>M\<close> the messages that have been sent, as
  pairs of sender and receiver: \<open>MPI_Probe\<close> waits for one and leaves it there.
\<close>

type_synonym 's library = "int \<Rightarrow> eff \<Rightarrow> 's \<Rightarrow> (resp \<times> 's) option"

definition word_law ::
    "('s \<Rightarrow> int \<Rightarrow> int \<Rightarrow> int) \<Rightarrow> ('s \<Rightarrow> (int \<times> int) set) \<Rightarrow> 's library \<Rightarrow> int \<Rightarrow> eff \<Rightarrow> int \<Rightarrow> int \<Rightarrow>
     (int \<Rightarrow> int) \<Rightarrow> bool" where
  "word_law W M lib r e pe d upd \<longleftrightarrow>
     (\<forall>s. \<exists>s'. lib r e s = Some (RVal (word_of_int (W s pe d)), s') \<and> M s' = M s \<and>
        W s' = (W s)(pe := (W s pe)(d := upd (W s pe d))))"

definition silent_law ::
    "('s \<Rightarrow> int \<Rightarrow> int \<Rightarrow> int) \<Rightarrow> ('s \<Rightarrow> (int \<times> int) set) \<Rightarrow> 's library \<Rightarrow> int \<Rightarrow> eff \<Rightarrow> bool" where
  "silent_law W M lib r e \<longleftrightarrow> (\<forall>s. \<exists>x s'. lib r e s = Some (x, s') \<and> M s' = M s \<and> W s' = W s)"

text \<open>Values that fit an \<open>int\<close> are exchanged as they are.\<close>

definition lock_laws ::
    "('s \<Rightarrow> int \<Rightarrow> int \<Rightarrow> int) \<Rightarrow> ('s \<Rightarrow> (int \<times> int) set) \<Rightarrow> 's library \<Rightarrow> bool" where
  "lock_laws W M lib \<longleftrightarrow>
     (\<forall>r v pe d. INT32_MIN \<le> v \<longrightarrow> v \<le> INT32_MAX \<longrightarrow>
        word_law W M lib r (Rma (MPI_Fetch_and_op (Some (word_of_int v)) MPI_INT pe d MPI_REPLACE
          Oshmpi_lock_win)) pe d (\<lambda>_. v)) \<and>
     (\<forall>r pe d. word_law W M lib r (Rma (MPI_Fetch_and_op None MPI_INT pe d MPI_NO_OP Oshmpi_lock_win))
        pe d (\<lambda>old. old)) \<and>
     (\<forall>r v pe d s. INT32_MIN \<le> v \<longrightarrow> v \<le> INT32_MAX \<longrightarrow>
        (\<exists>x s'. lib r (Rma (MPI_Accumulate (Val (word_of_int v)) 1 MPI_INT pe d 1 MPI_INT MPI_REPLACE
            Oshmpi_lock_win)) s = Some (x, s') \<and> M s' = M s \<and> W s' = (W s)(pe := (W s pe)(d := v)))) \<and>
     (\<forall>r v c pe d s. INT32_MIN \<le> v \<longrightarrow> v \<le> INT32_MAX \<longrightarrow> INT32_MIN \<le> c \<longrightarrow> c \<le> INT32_MAX \<longrightarrow>
        INT32_MIN \<le> W s pe d \<longrightarrow> W s pe d \<le> INT32_MAX \<longrightarrow>
        (\<exists>s'. lib r (Rma (MPI_Compare_and_swap (word_of_int v) (word_of_int c) MPI_INT pe d
              Oshmpi_lock_win)) s = Some (RVal (word_of_int (W s pe d)), s') \<and> M s' = M s \<and>
           W s' = (if W s pe d = c then (W s)(pe := (W s pe)(d := v)) else W s))) \<and>
     (\<forall>r pe. silent_law W M lib r (Rma (MPI_Win_flush pe Oshmpi_lock_win))) \<and>
     (\<forall>r. silent_law W M lib r (Rma (MPI_Win_sync Oshmpi_lock_win))) \<and>
     (\<forall>r i v s. \<exists>x s'. lib r (Mem (Lock_base_store i v)) s = Some (x, s') \<and> M s' = M s \<and>
        W s' = (W s)(r := (W s r)(int i := v))) \<and>
     (\<forall>r v dst tag s. \<exists>x s'. lib r (Com (MPI_Send v dst tag MPI_COMM_WORLD)) s = Some (x, s') \<and>
        M s' = insert (r, dst) (M s) \<and> W s' = W s) \<and>
     (\<forall>r src s. if (src, r) \<in> M s
        then \<exists>x s'. lib r (Com (MPI_Probe src MPI_COMM_WORLD)) s = Some (x, s') \<and> M s' = M s \<and> W s' = W s
        else lib r (Com (MPI_Probe src MPI_COMM_WORLD)) s = None)"

end
