(* ===== verification/Lock_System.thy ===== *)
theory Lock_System
  imports Mcs_Lock
begin

text \<open>
  The PEs of a job that use the lock, interleaved call by call. A PE runs \<open>shmem_set_lock\<close>, holds
  the lock, runs \<open>shmem_clear_lock\<close> and is gone; with \<open>again\<close> it may come back. The step relation
  runs the routines of \<open>Mcs_Lock\<close> themselves; \<open>queue_step\<close> is the queue lock they implement,
  over the words and messages only, and \<open>lock_refines_queue\<close> the simulation between the two.
\<close>

section \<open>PEs and their steps\<close>

datatype (plugins only: code size) phase =
    Idle oshmpi_lock_t
  | Locking "oshmpi_lock_t shm"
  | Holding oshmpi_lock_t
  | Unlocking "oshmpi_lock_t shm"
  | Gone oshmpi_lock_t

abbreviation on_pe :: "globals \<Rightarrow> int \<Rightarrow> globals" where
  "on_pe g r \<equiv> g\<lparr>shmem_world_rank := r\<rparr>"

definition is_pe :: "globals \<Rightarrow> int \<Rightarrow> bool" where
  "is_pe g r \<longleftrightarrow> 0 \<le> r \<and> r < shmem_world_size g"

text \<open>What PE \<open>r\<close> does next; \<open>None\<close> when it has nothing to do or has to wait.\<close>

fun advance ::
    "'s library \<Rightarrow> bool \<Rightarrow> globals \<Rightarrow> int \<Rightarrow> phase \<times> 's \<Rightarrow> (phase \<times> 's) option" where
  "advance lib again g r (Idle l, s) = Some (Locking (shmem_set_lock (on_pe g r) l), s)"
| "advance lib again g r (Locking (Return l), s) = Some (Holding l, s)"
| "advance lib again g r (Locking (Eff e k), s) =
     map_option (\<lambda>(x, s'). (Locking (k x), s')) (lib r e s)"
| "advance lib again g r (Holding l, s) = Some (Unlocking (shmem_clear_lock (on_pe g r) l), s)"
| "advance lib again g r (Unlocking (Return l), s) = Some (Gone l, s)"
| "advance lib again g r (Unlocking (Eff e k), s) =
     map_option (\<lambda>(x, s'). (Unlocking (k x), s')) (lib r e s)"
| "advance lib again g r (Gone l, s) = (if again then Some (Idle l, s) else None)"
| "advance lib again g r (p, s) = None"

inductive lock_step ::
    "'s library \<Rightarrow> bool \<Rightarrow> globals \<Rightarrow> (int \<Rightarrow> phase) \<times> 's \<Rightarrow> (int \<Rightarrow> phase) \<times> 's \<Rightarrow> bool"
    for lib again g where
  lock_stepI: "is_pe g r \<Longrightarrow> advance lib again g r (T r, s) = Some (p, s') \<Longrightarrow>
     lock_step lib again g (T, s) (T(r := p), s')"

inductive_cases lock_stepE: "lock_step lib again g st st'"
inductive_simps lock_step_from: "lock_step lib again g (T, s) st'"

abbreviation lock_reach ::
    "'s library \<Rightarrow> bool \<Rightarrow> globals \<Rightarrow> (int \<Rightarrow> phase) \<times> 's \<Rightarrow> (int \<Rightarrow> phase) \<times> 's \<Rightarrow> bool" where
  "lock_reach lib again g \<equiv> (lock_step lib again g)\<^sup>*\<^sup>*"

text \<open>After \<open>oshmpi_allock\<close> every word is \<open>-1\<close>, and nothing has been sent.\<close>

definition fresh_lock ::
    "('s \<Rightarrow> int \<Rightarrow> int \<Rightarrow> int) \<Rightarrow> ('s \<Rightarrow> (int \<times> int) set) \<Rightarrow> 's \<Rightarrow> bool" where
  "fresh_lock W M s \<longleftrightarrow> (\<forall>pe d. W s pe d = -1) \<and> M s = {}"

definition unused :: "int \<Rightarrow> phase" where
  "unused r = Idle \<lparr>lock_prev = 0, lock_next = 0\<rparr>"

section \<open>The queue lock\<close>

text \<open>Where a PE stands in the two routines; the arguments are \<open>lock->prev\<close> and \<open>lock->next\<close>.\<close>

datatype pc =
    P_idle | P_fetch | P_flush int | P_announce int | P_announced int | P_probe int
  | P_store int | P_sync int | P_enter int | P_hold
  | U_fetch | U_flush int | U_send int | U_store int | U_sync int | U_leave int | P_gone

definition store_lock :: "oshmpi_lock_t \<Rightarrow> int \<Rightarrow> oshmpi_lock_t shm" where
  "store_lock l p = pseq (lock_base_store LOCK_DISP 1)
     (pseq (call (Rma (MPI_Win_sync Oshmpi_lock_win))) (Return (l\<lparr>lock_prev := p\<rparr>)))"

definition await_predecessor :: "oshmpi_lock_t \<Rightarrow> int \<Rightarrow> oshmpi_lock_t shm" where
  "await_predecessor l p = pseq (call (Com (MPI_Probe p MPI_COMM_WORLD))) (store_lock l p)"

definition join_queue :: "globals \<Rightarrow> oshmpi_lock_t \<Rightarrow> int \<Rightarrow> oshmpi_lock_t shm" where
  "join_queue g l p =
     pseq (call (Rma (MPI_Accumulate (Val (word_of_int (shmem_world_rank g))) 1 MPI_INT p NEXT_DISP
        1 MPI_INT MPI_REPLACE Oshmpi_lock_win)))
     (pseq (call (Rma (MPI_Win_flush p Oshmpi_lock_win))) (await_predecessor l p))"

definition store_unlock :: "oshmpi_lock_t \<Rightarrow> int \<Rightarrow> oshmpi_lock_t shm" where
  "store_unlock l m = pseq (lock_base_store LOCK_DISP (-1))
     (pseq (call (Rma (MPI_Win_sync Oshmpi_lock_win))) (Return (l\<lparr>lock_next := m\<rparr>)))"

definition notify_next :: "globals \<Rightarrow> oshmpi_lock_t \<Rightarrow> int \<Rightarrow> oshmpi_lock_t shm" where
  "notify_next g l m =
     pseq (call (Com (MPI_Send (shmem_world_rank g) m 999 MPI_COMM_WORLD))) (store_unlock l m)"

lemmas lock_rest_defs = store_lock_def await_predecessor_def join_queue_def store_unlock_def
  notify_next_def

fun phase_at :: "globals \<Rightarrow> oshmpi_lock_t \<Rightarrow> pc \<Rightarrow> phase" where
  "phase_at g l P_idle = Idle l"
| "phase_at g l P_fetch = Locking (shmem_set_lock g l)"
| "phase_at g l (P_flush p) = Locking (pseq (call (Rma (MPI_Win_flush TAIL Oshmpi_lock_win)))
     (if p = -1 then store_lock l p else join_queue g l p))"
| "phase_at g l (P_announce p) = Locking (join_queue g l p)"
| "phase_at g l (P_announced p) =
     Locking (pseq (call (Rma (MPI_Win_flush p Oshmpi_lock_win))) (await_predecessor l p))"
| "phase_at g l (P_probe p) = Locking (await_predecessor l p)"
| "phase_at g l (P_store p) = Locking (store_lock l p)"
| "phase_at g l (P_sync p) =
     Locking (pseq (call (Rma (MPI_Win_sync Oshmpi_lock_win))) (Return (l\<lparr>lock_prev := p\<rparr>)))"
| "phase_at g l (P_enter p) = Locking (Return (l\<lparr>lock_prev := p\<rparr>))"
| "phase_at g l P_hold = Holding l"
| "phase_at g l U_fetch = Unlocking (shmem_clear_lock g l)"
| "phase_at g l (U_flush m) =
     Unlocking (pseq (call (Rma (MPI_Win_flush (shmem_world_rank g) Oshmpi_lock_win)))
     (if m = -1 then store_unlock l m else notify_next g l m))"
| "phase_at g l (U_send m) = Unlocking (notify_next g l m)"
| "phase_at g l (U_store m) = Unlocking (store_unlock l m)"
| "phase_at g l (U_sync m) =
     Unlocking (pseq (call (Rma (MPI_Win_sync Oshmpi_lock_win))) (Return (l\<lparr>lock_next := m\<rparr>)))"
| "phase_at g l (U_leave m) = Unlocking (Return (l\<lparr>lock_next := m\<rparr>))"
| "phase_at g l P_gone = Gone l"

text \<open>One step of PE \<open>r\<close> over the words \<open>w\<close> and the messages \<open>ms\<close>.\<close>

type_synonym lock_words = "int \<Rightarrow> int \<Rightarrow> int"

inductive queue_step ::
    "bool \<Rightarrow> int \<Rightarrow> pc \<Rightarrow> lock_words \<Rightarrow> (int \<times> int) set \<Rightarrow> pc \<Rightarrow> lock_words \<Rightarrow> (int \<times> int) set \<Rightarrow> bool"
    for again r where
  q_start: "queue_step again r P_idle w ms P_fetch w ms"
| q_fetch: "queue_step again r P_fetch w ms (P_flush (c_int (w 0 2))) (w(0 := (w 0)(2 := r))) ms"
| q_first: "queue_step again r (P_flush (-1)) w ms (P_store (-1)) w ms"
| q_later: "p \<noteq> -1 \<Longrightarrow> queue_step again r (P_flush p) w ms (P_announce p) w ms"
| q_announce: "queue_step again r (P_announce p) w ms (P_announced p) (w(p := (w p)(1 := r))) ms"
| q_announced: "queue_step again r (P_announced p) w ms (P_probe p) w ms"
| q_probe: "(p, r) \<in> ms \<Longrightarrow> queue_step again r (P_probe p) w ms (P_store p) w ms"
| q_lock: "queue_step again r (P_store p) w ms (P_sync p) (w(r := (w r)(3 := 1))) ms"
| q_sync: "queue_step again r (P_sync p) w ms (P_enter p) w ms"
| q_enter: "queue_step again r (P_enter p) w ms P_hold w ms"
| q_leave: "queue_step again r P_hold w ms U_fetch w ms"
| q_next: "queue_step again r U_fetch w ms (U_flush (c_int (w r 1))) w ms"
| q_none: "queue_step again r (U_flush (-1)) w ms (U_store (-1)) w ms"
| q_some: "m \<noteq> -1 \<Longrightarrow> queue_step again r (U_flush m) w ms (U_send m) w ms"
| q_send: "queue_step again r (U_send m) w ms (U_store m) w (insert (r, m) ms)"
| q_unlock: "queue_step again r (U_store m) w ms (U_sync m) (w(r := (w r)(3 := -1))) ms"
| q_unsync: "queue_step again r (U_sync m) w ms (U_leave m) w ms"
| q_gone: "queue_step again r (U_leave m) w ms P_gone w ms"
| q_again: "again \<Longrightarrow> queue_step again r P_gone w ms P_idle w ms"

inductive_cases queue_fetchE: "queue_step again r P_fetch w ms c' w' ms'"

section \<open>The routines implement the queue lock\<close>

text \<open>The calls of the two routines under the laws.\<close>

lemma lib_swap:
  assumes laws: "lock_laws W M lib" and "INT32_MIN \<le> v" "v \<le> INT32_MAX"
  obtains s' where "lib r (Rma (MPI_Fetch_and_op (Some (word_of_int v)) MPI_INT pe d MPI_REPLACE
      Oshmpi_lock_win)) s = Some (RVal (word_of_int (W s pe d)), s')"
    "M s' = M s" "W s' = (W s)(pe := (W s pe)(d := v))"
  using laws assms unfolding lock_laws_def word_law_def by meson

lemma lib_fetch:
  assumes laws: "lock_laws W M lib"
  obtains s' where "lib r (Rma (MPI_Fetch_and_op None MPI_INT pe d MPI_NO_OP Oshmpi_lock_win)) s
      = Some (RVal (word_of_int (W s pe d)), s')" "M s' = M s" "W s' = W s"
proof -
  have "word_law W M lib r (Rma (MPI_Fetch_and_op None MPI_INT pe d MPI_NO_OP Oshmpi_lock_win))
      pe d (\<lambda>old. old)"
    using laws unfolding lock_laws_def by meson
  then show thesis using that unfolding word_law_def by (metis fun_upd_triv)
qed

lemma lib_put:
  assumes laws: "lock_laws W M lib" and "INT32_MIN \<le> v" "v \<le> INT32_MAX"
  obtains x s' where "lib r (Rma (MPI_Accumulate (Val (word_of_int v)) 1 MPI_INT pe d 1 MPI_INT
      MPI_REPLACE Oshmpi_lock_win)) s = Some (x, s')"
    "M s' = M s" "W s' = (W s)(pe := (W s pe)(d := v))"
  using laws assms unfolding lock_laws_def by meson

lemma lib_cas:
  assumes laws: "lock_laws W M lib" and "INT32_MIN \<le> v" "v \<le> INT32_MAX" "INT32_MIN \<le> c" "c \<le> INT32_MAX"
    "INT32_MIN \<le> W s pe d" "W s pe d \<le> INT32_MAX"
  obtains s' where "lib r (Rma (MPI_Compare_and_swap (word_of_int v) (word_of_int c) MPI_INT pe d
      Oshmpi_lock_win)) s = Some (RVal (word_of_int (W s pe d)), s')" "M s' = M s"
    "W s' = (if W s pe d = c then (W s)(pe := (W s pe)(d := v)) else W s)"
  using laws assms unfolding lock_laws_def by meson

lemma lib_flush:
  assumes laws: "lock_laws W M lib"
  obtains x s' where "lib r (Rma (MPI_Win_flush pe Oshmpi_lock_win)) s = Some (x, s')"
    "M s' = M s" "W s' = W s"
  using laws unfolding lock_laws_def silent_law_def by meson

lemma lib_sync:
  assumes laws: "lock_laws W M lib"
  obtains x s' where "lib r (Rma (MPI_Win_sync Oshmpi_lock_win)) s = Some (x, s')"
    "M s' = M s" "W s' = W s"
  using laws unfolding lock_laws_def silent_law_def by meson

lemma lib_store:
  assumes laws: "lock_laws W M lib"
  obtains x s' where "lib r (Mem (Lock_base_store i v)) s = Some (x, s')"
    "M s' = M s" "W s' = (W s)(r := (W s r)(int i := v))"
  using laws unfolding lock_laws_def by meson

lemma lib_send:
  assumes laws: "lock_laws W M lib"
  obtains x s' where "lib r (Com (MPI_Send v dst tag MPI_COMM_WORLD)) s = Some (x, s')"
    "M s' = insert (r, dst) (M s)" "W s' = W s"
  using laws unfolding lock_laws_def by meson

lemma lib_probe:
  assumes laws: "lock_laws W M lib" and "lib r (Com (MPI_Probe src MPI_COMM_WORLD)) s = Some (x, s')"
  shows "(src, r) \<in> M s \<and> M s' = M s \<and> W s' = W s"
proof -
  have *: "if (src, r) \<in> M s
        then \<exists>x s'. lib r (Com (MPI_Probe src MPI_COMM_WORLD)) s = Some (x, s') \<and> M s' = M s \<and> W s' = W s
        else lib r (Com (MPI_Probe src MPI_COMM_WORLD)) s = None"
    using laws unfolding lock_laws_def by blast
  show ?thesis using * assms(2) by (cases "(src, r) \<in> M s") auto
qed


lemma Eff_simps: 
  "call e = Eff e (\<lambda>_. Return ())"
  "pbind (call_val e) k = Eff e (\<lambda>r. case r of RVal v \<Rightarrow> k v | _ \<Rightarrow> Undef ''response'')"
  by (auto simp: call_defs fun_eq_iff split: resp.split)

lemmas lock_unfold =
  shmem_set_lock_def shmem_clear_lock_def oshmpi_lock_def oshmpi_unlock_def lock_fetch_def
  lock_base_store_def lock_rest_defs disp_defs Eff_simps

text \<open>Where PE \<open>r\<close> stands, whatever its lock variable holds.\<close>

definition stands :: "globals \<Rightarrow> int \<Rightarrow> pc \<Rightarrow> phase \<Rightarrow> bool" where
  "stands g r c p \<longleftrightarrow> (\<exists>l. p = phase_at (on_pe g r) l c)"

text \<open>A step with no call, a flush or synchronisation, and a call that reads or changes a word.\<close>

datatype step_kind = Local | Silent | Shared

fun kind_of :: "pc \<Rightarrow> step_kind" where
  "kind_of P_idle = Local"
| "kind_of P_fetch = Shared"
| "kind_of (P_flush v) = Silent"
| "kind_of (P_announce v) = Shared"
| "kind_of (P_announced v) = Silent"
| "kind_of (P_probe v) = Shared"
| "kind_of (P_store v) = Shared"
| "kind_of (P_sync v) = Silent"
| "kind_of (P_enter v) = Local"
| "kind_of P_hold = Local"
| "kind_of U_fetch = Shared"
| "kind_of (U_flush v) = Silent"
| "kind_of (U_send v) = Shared"
| "kind_of (U_store v) = Shared"
| "kind_of (U_sync v) = Silent"
| "kind_of (U_leave v) = Local"
| "kind_of P_gone = Local"

lemma refine_local:
  assumes laws: "lock_laws W M lib"
    and kind: "kind_of c = Local"
    and p: "p = phase_at (on_pe g r) l c"
    and step: "advance lib again g r (p, s) = Some (p', s')"
  shows "\<exists>c'. stands g r c' p' \<and> queue_step again r c (W s) (M s) c' (W s') (M s')"
proof -
  have st: "\<exists>c'. stands g r c' p' \<and> queue_step again r c (W s) (M s) c' (W s') (M s')"
    if "p' = phase_at (on_pe g r) l' c'" "queue_step again r c (W s) (M s) c' (W s') (M s')" for c' l'
    using that by (auto simp: stands_def)
  from kind show ?thesis
  proof (cases c)
    case P_idle
    with step p show ?thesis by (intro st [of l P_fetch]) (auto intro: queue_step.intros)
  next
    case (P_enter v)
    with step p show ?thesis
      by (intro st [of "l\<lparr>lock_prev := v\<rparr>" P_hold]) (auto intro: queue_step.intros)
  next
    case P_hold
    with step p show ?thesis by (intro st [of l U_fetch]) (auto intro: queue_step.intros)
  next
    case (U_leave v)
    with step p show ?thesis
      by (intro st [of "l\<lparr>lock_next := v\<rparr>" P_gone]) (auto intro: queue_step.intros)
  next
    case P_gone
    with step p show ?thesis
      by (intro st [of l P_idle]) (auto split: if_splits intro: queue_step.intros)
  qed simp_all
qed

lemma refine_silent:
  assumes laws: "lock_laws W M lib"
    and kind: "kind_of c = Silent"
    and p: "p = phase_at (on_pe g r) l c"
    and step: "advance lib again g r (p, s) = Some (p', s')"
  shows "\<exists>c'. stands g r c' p' \<and> queue_step again r c (W s) (M s) c' (W s') (M s')"
proof -
  have st: "\<exists>c'. stands g r c' p' \<and> queue_step again r c (W s) (M s) c' (W s') (M s')"
    if "p' = phase_at (on_pe g r) l' c'" "queue_step again r c (W s) (M s) c' (W s') (M s')" for c' l'
    using that by (auto simp: stands_def)
  from kind show ?thesis
  proof (cases c)
    case (P_flush v)
    obtain x s1 where "lib r (Rma (MPI_Win_flush 0 Oshmpi_lock_win)) s = Some (x, s1)"
      "M s1 = M s" "W s1 = W s" using lib_flush [OF laws] by metis
    with step p P_flush show ?thesis
      by (intro st [of l "if v = -1 then P_store v else P_announce v"])
        (auto simp: lock_unfold intro: queue_step.intros)
  next
    case (P_announced v)
    obtain x s1 where "lib r (Rma (MPI_Win_flush v Oshmpi_lock_win)) s = Some (x, s1)"
      "M s1 = M s" "W s1 = W s" using lib_flush [OF laws] by metis
    with step p P_announced show ?thesis
      by (intro st [of l "P_probe v"]) (auto simp: lock_unfold intro: queue_step.intros)
  next
    case (P_sync v)
    obtain x s1 where "lib r (Rma (MPI_Win_sync Oshmpi_lock_win)) s = Some (x, s1)"
      "M s1 = M s" "W s1 = W s" using lib_sync [OF laws] by metis
    with step p P_sync show ?thesis
      by (intro st [of l "P_enter v"]) (auto simp: lock_unfold intro: queue_step.intros)
  next
    case (U_flush v)
    obtain x s1 where "lib r (Rma (MPI_Win_flush r Oshmpi_lock_win)) s = Some (x, s1)"
      "M s1 = M s" "W s1 = W s" using lib_flush [OF laws] by metis
    with step p U_flush show ?thesis
      by (intro st [of l "if v = -1 then U_store v else U_send v"])
        (auto simp: lock_unfold intro: queue_step.intros)
  next
    case (U_sync v)
    obtain x s1 where "lib r (Rma (MPI_Win_sync Oshmpi_lock_win)) s = Some (x, s1)"
      "M s1 = M s" "W s1 = W s" using lib_sync [OF laws] by metis
    with step p U_sync show ?thesis
      by (intro st [of l "U_leave v"]) (auto simp: lock_unfold intro: queue_step.intros)
  qed simp_all
qed

lemma refine_shared:
  assumes laws: "lock_laws W M lib"
    and r: "INT32_MIN \<le> r" "r \<le> INT32_MAX"
    and kind: "kind_of c = Shared"
    and p: "p = phase_at (on_pe g r) l c"
    and step: "advance lib again g r (p, s) = Some (p', s')"
  shows "\<exists>c'. stands g r c' p' \<and> queue_step again r c (W s) (M s) c' (W s') (M s')"
proof -
  have st: "\<exists>c'. stands g r c' p' \<and> queue_step again r c (W s) (M s) c' (W s') (M s')"
    if "p' = phase_at (on_pe g r) l' c'" "queue_step again r c (W s) (M s) c' (W s') (M s')" for c' l'
    using that by (auto simp: stands_def)
  from kind show ?thesis
  proof (cases c)
    case P_fetch
    obtain s1 where "lib r (Rma (MPI_Fetch_and_op (Some (word_of_int r)) MPI_INT 0 2 MPI_REPLACE
        Oshmpi_lock_win)) s = Some (RVal (word_of_int (W s 0 2)), s1)"
      "M s1 = M s" "W s1 = (W s)(0 := (W s 0)(2 := r))"
      using lib_swap [OF laws r] by metis
    with step p P_fetch show ?thesis
      by (intro st [of l "P_flush (c_int (W s 0 2))"])
        (auto simp: lock_unfold as_int_word_of_int pwhen_def intro: queue_step.intros)
  next
    case (P_announce v)
    obtain x s1 where "lib r (Rma (MPI_Accumulate (Val (word_of_int r)) 1 MPI_INT v 1 1 MPI_INT
      MPI_REPLACE Oshmpi_lock_win)) s = Some (x, s1)" "M s1 = M s" "W s1 = (W s)(v := (W s v)(1 := r))"
      using lib_put [OF laws r] by metis
    with step p P_announce show ?thesis
      by (intro st [of l "P_announced v"]) (auto simp: lock_unfold intro: queue_step.intros)
  next
    case (P_probe v)
    then obtain x where x: "lib r (Com (MPI_Probe v MPI_COMM_WORLD)) s = Some (x, s')"
      "p' = phase_at (on_pe g r) l (P_store v)"
      using step p by (auto simp: lock_unfold)
    with lib_probe [OF laws x(1)] P_probe show ?thesis
      by (intro st [of l "P_store v"]) (auto intro: queue_step.intros)
  next
    case (P_store v)
    obtain x s1 where "lib r (Mem (Lock_base_store 3 1)) s = Some (x, s1)"
      "M s1 = M s" "W s1 = (W s)(r := (W s r)(int 3 := 1))" using lib_store [OF laws] by metis
    with step p P_store show ?thesis
      by (intro st [of l "P_sync v"]) (auto simp: lock_unfold intro: queue_step.intros)
  next
    case U_fetch
    obtain s1 where "lib r (Rma (MPI_Fetch_and_op None MPI_INT r 1 MPI_NO_OP Oshmpi_lock_win)) s
      = Some (RVal (word_of_int (W s r 1)), s1)" "M s1 = M s" "W s1 = W s"
      using lib_fetch [OF laws] by metis
    with step p U_fetch show ?thesis
      by (intro st [of l "U_flush (c_int (W s r 1))"])
        (auto simp: lock_unfold as_int_word_of_int pwhen_def intro: queue_step.intros)
  next
    case (U_send v)
    obtain x s1 where "lib r (Com (MPI_Send r v 999 MPI_COMM_WORLD)) s = Some (x, s1)"
      "M s1 = insert (r, v) (M s)" "W s1 = W s" using lib_send [OF laws] by metis
    with step p U_send show ?thesis
      by (intro st [of l "U_store v"]) (auto simp: lock_unfold intro: queue_step.intros)
  next
    case (U_store v)
    obtain x s1 where "lib r (Mem (Lock_base_store 3 (-1))) s = Some (x, s1)"
      "M s1 = M s" "W s1 = (W s)(r := (W s r)(int 3 := -1))" using lib_store [OF laws] by metis
    with step p U_store show ?thesis
      by (intro st [of l "U_sync v"]) (auto simp: lock_unfold intro: queue_step.intros)
  qed simp_all
qed

lemma lock_refines_queue:
  assumes laws: "lock_laws W M lib"
    and pe: "is_pe g r" "shmem_world_size g \<le> INT32_MAX"
    and at: "stands g r c p"
    and step: "advance lib again g r (p, s) = Some (p', s')"
  shows "\<exists>c'. stands g r c' p' \<and> queue_step again r c (W s) (M s) c' (W s') (M s')"
proof -
  obtain l where p: "p = phase_at (on_pe g r) l c" using at by (auto simp: stands_def)
  have r: "INT32_MIN \<le> r" "r \<le> INT32_MAX" using pe by (auto simp: is_pe_def INT32_MIN_def)
  show ?thesis
    using refine_local [OF laws _ p step] refine_silent [OF laws _ p step]
      refine_shared [OF laws r _ p step] by (cases "kind_of c") auto
qed


section \<open>Order in the queue\<close>

fun joined :: "pc \<Rightarrow> bool" where
  "joined P_idle = False" | "joined P_fetch = False" | "joined c = True"

text \<open>The PE has the lock or had it; it has let its successor in, if it will.\<close>

fun admitted :: "pc \<Rightarrow> bool" where
  "admitted P_idle = False" | "admitted P_fetch = False" | "admitted (P_flush p) = False"
| "admitted (P_announce p) = False" | "admitted (P_announced p) = False"
| "admitted (P_probe p) = False" | "admitted c = True"

fun released :: "pc \<Rightarrow> bool" where
  "released (U_store m) = True" | "released (U_sync m) = True" | "released (U_leave m) = True"
| "released P_gone = True" | "released c = False"

fun behind :: "pc \<Rightarrow> int option" where
  "behind (P_announce p) = Some p" | "behind (P_announced p) = Some p"
| "behind (P_probe p) = Some p" | "behind c = None"

definition follows :: "int list \<Rightarrow> int \<Rightarrow> int \<Rightarrow> bool" where
  "follows q a b \<longleftrightarrow> (\<exists>i. Suc i < length q \<and> q ! i = a \<and> q ! Suc i = b)"

lemma follows_snoc: "follows (q @ [r]) a b \<longleftrightarrow> follows q a b \<or> (q \<noteq> [] \<and> a = last q \<and> b = r)"
proof
  assume "follows (q @ [r]) a b"
  then obtain i where i: "Suc i < length (q @ [r])" "(q @ [r]) ! i = a" "(q @ [r]) ! Suc i = b"
    by (auto simp: follows_def)
  show "follows q a b \<or> (q \<noteq> [] \<and> a = last q \<and> b = r)"
  proof (cases "Suc i < length q")
    case True
    with i show ?thesis by (auto simp: follows_def nth_append)
  next
    case False
    with i have "length q = Suc i" by simp
    then have "q \<noteq> []" "last q = q ! i" using last_conv_nth [of q] by force+
    with i \<open>length q = Suc i\<close> show ?thesis by (simp add: nth_append)
  qed
next
  assume *: "follows q a b \<or> (q \<noteq> [] \<and> a = last q \<and> b = r)"
  then show "follows (q @ [r]) a b"
  proof
    assume "follows q a b"
    then obtain i where "Suc i < length q" "q ! i = a" "q ! Suc i = b" by (auto simp: follows_def)
    then show ?thesis unfolding follows_def by (intro exI [of _ i]) (auto simp: nth_append)
  next
    assume "q \<noteq> [] \<and> a = last q \<and> b = r"
    then show ?thesis unfolding follows_def
      by (intro exI [of _ "length q - 1"]) (auto simp: nth_append last_conv_nth)
  qed
qed

lemma follows_in: "follows q a b \<Longrightarrow> a \<in> set q \<and> b \<in> set q"
  by (auto simp: follows_def)

lemma follows_unique: "distinct q \<Longrightarrow> follows q a b \<Longrightarrow> follows q a' b \<Longrightarrow> a = a'"
  by (auto simp: follows_def nth_eq_iff_index_eq)

lemma hd_follows_none: "distinct q \<Longrightarrow> q \<noteq> [] \<Longrightarrow> \<not> follows q a (hd q)"
  by (auto simp: follows_def hd_conv_nth nth_eq_iff_index_eq)

definition queue_wf :: "int \<Rightarrow> int list \<Rightarrow> (int \<Rightarrow> pc) \<Rightarrow> lock_words \<Rightarrow> bool" where
  "queue_wf n q C w \<longleftrightarrow> distinct q \<and> (\<forall>r. r \<in> set q \<longleftrightarrow> joined (C r)) \<and> (\<forall>r \<in> set q. 0 \<le> r \<and> r < n) \<and>
     w 0 2 = (if q = [] then -1 else last q)"

definition next_wf :: "int list \<Rightarrow> (int \<Rightarrow> pc) \<Rightarrow> lock_words \<Rightarrow> bool" where
  "next_wf q C w \<longleftrightarrow> (\<forall>r. w r 1 = -1 \<or> follows q r (w r 1)) \<and>
     (\<forall>r m. C r = U_flush m \<longrightarrow> m = -1 \<or> follows q r m) \<and> (\<forall>r m. C r = U_send m \<longrightarrow> follows q r m)"

definition wait_wf :: "int list \<Rightarrow> (int \<Rightarrow> pc) \<Rightarrow> bool" where
  "wait_wf q C \<longleftrightarrow> (\<forall>r p. behind (C r) = Some p \<longrightarrow> follows q p r) \<and>
     (\<forall>r p. C r = P_flush p \<longrightarrow> (if p = -1 then hd q = r else follows q p r))"

definition handed_over :: "int list \<Rightarrow> (int \<Rightarrow> pc) \<Rightarrow> (int \<times> int) set \<Rightarrow> bool" where
  "handed_over q C ms \<longleftrightarrow> (\<forall>a b. (a, b) \<in> ms \<longrightarrow> follows q a b \<and> released (C a)) \<and>
     (\<forall>a b. follows q a b \<longrightarrow> admitted (C b) \<longrightarrow> released (C a))"

lemma queue_wf_step:
  assumes "queue_step False r (C r) w ms c' w' ms'" "C r \<noteq> P_fetch" "queue_wf n q C w"
  shows "queue_wf n q (C(r := c')) w'"
  using assms by (cases rule: queue_step.cases) (auto simp: queue_wf_def)

lemma next_wf_step:
  assumes "queue_step False r (C r) w ms c' w' ms'" "C r \<noteq> P_fetch" "next_wf q C w" "wait_wf q C"
    and q: "queue_wf n q C w" "n \<le> INT32_MAX"
  shows "next_wf q (C(r := c')) w'"
  using assms(1,2)
proof (cases rule: queue_step.cases)
  case (q_announce p)
  then have "follows q p r" using assms(4) by (auto simp: wait_wf_def)
  with q_announce assms(3) show ?thesis by (auto simp: next_wf_def)
next
  case q_next
  have "w r 1 = -1 \<or> follows q r (w r 1)" using assms(3) by (auto simp: next_wf_def)
  moreover from this have "- 1 \<le> w r 1" "w r 1 < n \<or> w r 1 = -1"
    using q(1) by (auto simp: queue_wf_def dest!: follows_in)
  then have "c_int (w r 1) = w r 1"
    using q(2) by (intro c_int_small) (auto simp: INT32_MIN_def INT32_MAX_def)
  ultimately show ?thesis using q_next assms(3) by (auto simp: next_wf_def)
next
  case (q_some m)
  then show ?thesis using assms(3) by (auto simp: next_wf_def)
qed (use assms(3) in \<open>auto simp: next_wf_def\<close>)

lemma wait_wf_step:
  assumes "queue_step False r (C r) w ms c' w' ms'" "C r \<noteq> P_fetch" "wait_wf q C"
  shows "wait_wf q (C(r := c'))"
  using assms by (cases rule: queue_step.cases) (auto simp: wait_wf_def)

lemma handed_over_admit:
  assumes "handed_over q C ms" "\<not> released (C r)"
    and "\<And>a. follows q a r \<Longrightarrow> admitted c \<Longrightarrow> a \<noteq> r \<and> released (C a)"
  shows "handed_over q (C(r := c)) ms"
  unfolding handed_over_def
proof (intro conjI allI impI)
  fix a b
  assume "(a, b) \<in> ms"
  then have "follows q a b" "released (C a)" using assms(1) unfolding handed_over_def by blast+
  then show "follows q a b" "released ((C(r := c)) a)" using assms(2) by (cases "a = r"; simp)+
next
  fix a b
  assume f: "follows q a b" and adm: "admitted ((C(r := c)) b)"
  show "released ((C(r := c)) a)"
  proof (cases "b = r")
    case True
    then show ?thesis using assms(3) [of a] f adm by simp
  next
    case False
    then have "released (C a)" using f adm assms(1) unfolding handed_over_def by auto
    then show ?thesis using assms(2) by (cases "a = r") auto
  qed
qed

lemma handed_over_mono:
  assumes "handed_over q C ms" "released (C r) \<Longrightarrow> released c" "admitted c \<Longrightarrow> admitted (C r)"
  shows "handed_over q (C(r := c)) ms"
proof -
  have "released ((C(r := c)) a)" if "released (C a)" for a using that assms(2) by (cases "a = r") auto
  moreover have "admitted (C a)" if "admitted ((C(r := c)) a)" for a
    using that assms(3) by (cases "a = r") auto
  ultimately show ?thesis using assms(1) unfolding handed_over_def by blast
qed

lemma handed_over_step:
  assumes "queue_step False r (C r) w ms c' w' ms'" "C r \<noteq> P_fetch" "handed_over q C ms"
    "wait_wf q C" "queue_wf n q C w" "next_wf q C w"
  shows "handed_over q (C(r := c')) ms'"
proof -
  have mono: "handed_over q (C(r := c')) ms'"
    if "ms' = ms" "released (C r) \<Longrightarrow> released c'" "admitted c' \<Longrightarrow> admitted (C r)"
    unfolding that(1) using assms(3) that(2,3) by (rule handed_over_mono)
  from assms(1,2) show ?thesis
  proof (cases rule: queue_step.cases)
  case q_first
  then have "joined (C r)" "hd q = r" using assms(4) by (auto simp: wait_wf_def)
  then have "q \<noteq> []" "distinct q" "hd q = r" using assms(5) by (auto simp: queue_wf_def)
  then have none: "\<not> follows q a r" for a using hd_follows_none by blast
  have "handed_over q (C(r := c')) ms"
    by (rule handed_over_admit) (use q_first assms(3) none in auto)
  then show ?thesis using q_first by simp
next
  case (q_probe p)
  then have p: "follows q p r" "released (C p)" "\<not> released (C r)"
    using assms(3) by (auto simp: handed_over_def)
  have "a = p" if "follows q a r" for a
    using that p(1) assms(5) by (auto simp: queue_wf_def dest: follows_unique)
  then have "handed_over q (C(r := c')) ms"
    by (intro handed_over_admit assms(3) p(3)) (use p in auto)
  then show ?thesis using q_probe by simp
next
  case (q_send m)
  have "handed_over q (C(r := c')) ms"
    by (rule handed_over_mono) (use q_send assms(3) in auto)
  moreover have "follows q r m" using q_send assms(6) by (simp add: next_wf_def)
  ultimately show ?thesis using q_send by (auto simp: handed_over_def)
qed (rule mono; simp)+
qed

definition queue_inv ::
    "int \<Rightarrow> int list \<Rightarrow> (int \<Rightarrow> pc) \<Rightarrow> lock_words \<Rightarrow> (int \<times> int) set \<Rightarrow> bool" where
  "queue_inv n q C w ms \<longleftrightarrow> queue_wf n q C w \<and> next_wf q C w \<and> wait_wf q C \<and> handed_over q C ms"

lemma queue_inv_fetch:
  assumes "queue_inv n q C w ms" "C r = P_fetch" "0 \<le> r" "r < n" "n \<le> INT32_MAX"
  shows "queue_inv n (q @ [r]) (C(r := P_flush (c_int (w 0 2)))) (w(0 := (w 0)(2 := r))) ms"
proof -
  have tail: "w 0 2 = (if q = [] then -1 else last q)" and range: "\<forall>r \<in> set q. 0 \<le> r \<and> r < n"
    and r: "r \<notin> set q"
    using assms(1,2) by (auto simp: queue_inv_def queue_wf_def)
  have c: "c_int (w 0 2) = w 0 2"
  proof (cases "q = []")
    case True
    then show ?thesis using tail by (simp add: c_int_small INT32_MIN_def INT32_MAX_def)
  next
    case False
    then have "0 \<le> last q \<and> last q < n" using range by simp
    then show ?thesis using False tail assms(5) by (intro c_int_small) (auto simp: INT32_MIN_def)
  qed
  have "last q \<noteq> -1" if "q \<noteq> []" using range that last_in_set [of q] by force
  note last = this
  let ?C = "C(r := P_flush (w 0 2))" and ?w = "w(0 := (w 0)(2 := r))"
  have "queue_wf n (q @ [r]) ?C ?w" using assms(1-4) r by (auto simp: queue_inv_def queue_wf_def)
  moreover have "next_wf (q @ [r]) ?C ?w"
    using assms(1,2) by (auto simp: queue_inv_def next_wf_def follows_snoc)
  moreover have "q \<noteq> []" if "C ra = P_flush v" for ra v
  proof -
    have "joined (C ra)" using that by simp
    then show ?thesis using assms(1) by (auto simp: queue_inv_def queue_wf_def)
  qed
  then have "wait_wf (q @ [r]) ?C"
    using assms(1,2) tail last r
    by (auto simp: queue_inv_def wait_wf_def follows_snoc hd_append queue_wf_def)
  moreover have "handed_over q ?C ms"
    by (rule handed_over_admit) (use assms(1,2) in \<open>auto simp: queue_inv_def\<close>)
  then have "handed_over (q @ [r]) ?C ms"
    by (auto simp: handed_over_def follows_snoc)
  ultimately show ?thesis unfolding queue_inv_def c by blast
qed

lemma queue_inv_step:
  assumes "queue_inv n q C w ms" "queue_step False r (C r) w ms c' w' ms'"
    "0 \<le> r" "r < n" "n \<le> INT32_MAX"
  shows "\<exists>q'. queue_inv n q' (C(r := c')) w' ms'"
proof (cases "C r = P_fetch")
  case True
  with assms(2) have "c' = P_flush (c_int (w 0 2))" "w' = w(0 := (w 0)(2 := r))" "ms' = ms"
    by (auto elim: queue_fetchE)
  then show ?thesis using queue_inv_fetch [OF assms(1) True assms(3-5)] by auto
next
  case False
  note inv = assms(1) [unfolded queue_inv_def]
  have "queue_wf n q (C(r := c')) w'"
    by (rule queue_wf_step [where C = C, OF assms(2) False]) (use inv in blast)
  moreover have "next_wf q (C(r := c')) w'"
    by (rule next_wf_step [where C = C, OF assms(2) False]) (use inv assms(5) in blast)+
  moreover have "wait_wf q (C(r := c'))"
    by (rule wait_wf_step [where C = C, OF assms(2) False]) (use inv in blast)
  moreover have "handed_over q (C(r := c')) ms'"
    by (rule handed_over_step [where C = C, OF assms(2) False]) (use inv in blast)+
  ultimately show ?thesis by (auto simp: queue_inv_def)
qed

text \<open>The holders of the lock: at most one, since everybody before it in the queue has released.\<close>

lemma released_before:
  assumes "queue_inv n q C w ms" "j < length q" "admitted (C (q ! j))" "i < j"
  shows "released (C (q ! i))"
proof -
  have prev: "released (C (q ! k))" if "Suc k < length q" "admitted (C (q ! Suc k))" for k
  proof -
    have "follows q (q ! k) (q ! Suc k)" using that(1) by (auto simp: follows_def)
    then show ?thesis using that(2) assms(1) by (auto simp: queue_inv_def handed_over_def)
  qed
  have adm: "released c \<Longrightarrow> admitted c" for c by (cases c) auto
  from assms(4,2,3) show ?thesis
  proof (induction rule: strict_inc_induct)
    case (base k)
    then show ?case using prev [of k] by simp
  next
    case (step k)
    then have "admitted (C (q ! Suc k))" by (auto intro: adm)
    then show ?case using prev [of k] step by simp
  qed
qed

lemma one_holder:
  assumes "queue_inv n q C w ms" "admitted (C a)" "\<not> released (C a)" "admitted (C b)" "\<not> released (C b)"
  shows "a = b"
proof -
  have "joined (C a)" "joined (C b)" using assms(2,4) by (cases "C a"; cases "C b"; auto)+
  then have "a \<in> set q" "b \<in> set q" using assms(1) by (auto simp: queue_inv_def queue_wf_def)
  then obtain i j where ij: "i < length q" "q ! i = a" "j < length q" "q ! j = b"
    by (auto simp: in_set_conv_nth)
  show ?thesis
  proof (cases i j rule: linorder_cases)
    case less
    then show ?thesis using released_before [OF assms(1) ij(3) _ less] ij assms by auto
  next
    case greater
    then show ?thesis using released_before [OF assms(1) ij(1) _ greater] ij assms by auto
  qed (use ij in auto)
qed


section \<open>Reachable states of the job\<close>

definition system_inv ::
    "('s \<Rightarrow> lock_words) \<Rightarrow> ('s \<Rightarrow> (int \<times> int) set) \<Rightarrow> globals \<Rightarrow> (int \<Rightarrow> phase) \<times> 's \<Rightarrow> bool" where
  "system_inv W M g st \<longleftrightarrow> (\<exists>C q. (\<forall>r. stands g r (C r) (fst st r)) \<and>
     queue_inv (shmem_world_size g) q C (W (snd st)) (M (snd st)))"

lemma system_inv_fresh: "fresh_lock W M s \<Longrightarrow> system_inv W M g (unused, s)"
  unfolding system_inv_def
  by (intro exI [of _ "\<lambda>_. P_idle"] exI [of _ "[]"])
    (auto simp: stands_def unused_def fresh_lock_def queue_inv_def queue_wf_def next_wf_def
      wait_wf_def handed_over_def follows_def)

lemma system_inv_step:
  assumes laws: "lock_laws W M lib" and size: "shmem_world_size g \<le> INT32_MAX"
    and inv: "system_inv W M g st" and step: "lock_step lib False g st st'"
  shows "system_inv W M g st'"
proof -
  obtain T s r p s' where st: "st = (T, s)" "st' = (T(r := p), s')" "is_pe g r"
    and adv: "advance lib False g r (T r, s) = Some (p, s')"
    using step by (auto elim: lock_stepE)
  obtain C q where C: "\<And>r. stands g r (C r) (T r)"
    and q: "queue_inv (shmem_world_size g) q C (W s) (M s)"
    using inv st by (auto simp: system_inv_def)
  obtain c' where c': "stands g r c' p" "queue_step False r (C r) (W s) (M s) c' (W s') (M s')"
    using lock_refines_queue [OF laws st(3) size C adv] by blast
  obtain q' where "queue_inv (shmem_world_size g) q' (C(r := c')) (W s') (M s')"
    using queue_inv_step [where C = C, OF q c'(2)] st(3) size by (auto simp: is_pe_def)
  moreover have "stands g x ((C(r := c')) x) ((T(r := p)) x)" for x using C c'(1) by simp
  ultimately show ?thesis unfolding st(2) system_inv_def fst_conv snd_conv by blast
qed

lemma system_inv_reach:
  assumes "lock_laws W M lib" "shmem_world_size g \<le> INT32_MAX" "fresh_lock W M s0"
    "lock_reach lib False g (unused, s0) st"
  shows "system_inv W M g st"
  using assms(4)
  by (induction rule: rtranclp_induct)
    (auto intro: system_inv_fresh system_inv_step assms(1-3))

lemma stands_Holding: "stands g r c (Holding l) \<Longrightarrow> c = P_hold"
  by (cases c) (auto simp: stands_def)

end
