(* ===== verification/Lock_Properties.thy ===== *)
theory Lock_Properties
  imports Lock_System
begin

text \<open>
  What the queue lock guarantees and what it does not: mutual exclusion for PEs that take the
  lock once, the two ways it fails beyond that, and the answers of \<open>shmem_test_lock\<close>. The
  runs are schedules executed on a library that satisfies the laws.
\<close>

section \<open>A library with the laws\<close>

type_synonym lock_mem = "lock_words \<times> (int \<times> int) set"

fun ref_lib :: "lock_mem library" where
  "ref_lib r (Rma (MPI_Fetch_and_op v t pe d oper win)) (w, ms) =
     Some (RVal (word_of_int (w pe d)), case v of None \<Rightarrow> (w, ms) | Some x \<Rightarrow> (w(pe := (w pe)(d := as_int x)), ms))"
| "ref_lib r (Rma (MPI_Compare_and_swap x c t pe d win)) (w, ms) =
     Some (RVal (word_of_int (w pe d)), if w pe d = as_int c then (w(pe := (w pe)(d := as_int x)), ms) else (w, ms))"
| "ref_lib r (Rma (MPI_Accumulate (Val x) n t pe d n' t' oper win)) (w, ms) =
     Some (RUnit, w(pe := (w pe)(d := as_int x)), ms)"
| "ref_lib r (Mem (Lock_base_store i v)) (w, ms) = Some (RUnit, w(r := (w r)(int i := v)), ms)"
| "ref_lib r (Com (MPI_Send v dst tag c)) (w, ms) = Some (RUnit, w, insert (r, dst) ms)"
| "ref_lib r (Com (MPI_Probe src c)) (w, ms) = (if (src, r) \<in> ms then Some (RUnit, w, ms) else None)"
| "ref_lib r e st = Some (RUnit, st)"

lemma ref_lib_laws: "lock_laws fst snd ref_lib"
  unfolding lock_laws_def word_law_def silent_law_def
  by (auto simp: as_int_word_of_int c_int_small)

definition ref_fresh :: lock_mem where
  "ref_fresh = (\<lambda>_ _. -1, {})"

lemma ref_fresh: "fresh_lock fst snd ref_fresh"
  by (simp add: fresh_lock_def ref_fresh_def)

text \<open>Executing a schedule: PE \<open>r\<close> makes \<open>n\<close> steps.\<close>

primrec advances ::
    "'s library \<Rightarrow> bool \<Rightarrow> globals \<Rightarrow> int \<Rightarrow> nat \<Rightarrow> phase \<times> 's \<Rightarrow> (phase \<times> 's) option" where
  "advances lib again g r 0 st = Some st"
| "advances lib again g r (Suc n) st =
     Option.bind (advance lib again g r st) (advances lib again g r n)"

fun schedule ::
    "'s library \<Rightarrow> bool \<Rightarrow> globals \<Rightarrow> (int \<times> nat) list \<Rightarrow> (int \<Rightarrow> phase) \<times> 's \<Rightarrow> ((int \<Rightarrow> phase) \<times> 's) option"
  where
  "schedule lib again g [] st = Some st"
| "schedule lib again g ((r, n) # rs) (T, s) =
     (if is_pe g r
      then Option.bind (advances lib again g r n (T r, s)) (\<lambda>(p, s'). schedule lib again g rs (T(r := p), s'))
      else None)"

lemma advances_reach:
  "is_pe g r \<Longrightarrow> advances lib again g r n (T r, s) = Some (p, s') \<Longrightarrow>
     lock_reach lib again g (T, s) (T(r := p), s')"
proof (induction n arbitrary: T s)
  case 0
  then have "T(r := p) = T" "s' = s" by auto
  then show ?case by simp
next
  case (Suc n)
  from Suc.prems(2) obtain p1 s1 where one: "advance lib again g r (T r, s) = Some (p1, s1)"
    and rest: "advances lib again g r n ((T(r := p1)) r, s1) = Some (p, s')"
    by (auto simp: bind_eq_Some_conv)
  have "lock_step lib again g (T, s) (T(r := p1), s1)" using Suc.prems(1) one by (rule lock_stepI)
  moreover have "lock_reach lib again g (T(r := p1), s1) (T(r := p), s')"
    using Suc.IH [OF Suc.prems(1), of "T(r := p1)" s1] rest by (simp del: fun_upd_apply)
  ultimately show ?case by (rule converse_rtranclp_into_rtranclp)
qed

lemma schedule_reach:
  "schedule lib again g rs st = Some st' \<Longrightarrow> lock_reach lib again g st st'"
proof (induction lib again g rs st rule: schedule.induct)
  case (2 lib again g r n rs T s)
  then obtain p s' where r: "is_pe g r" "advances lib again g r n (T r, s) = Some (p, s')"
    and rest: "schedule lib again g rs (T(r := p), s') = Some st'"
    by (auto simp: bind_eq_Some_conv split: if_splits)
  have "lock_reach lib again g (T, s) (T(r := p), s')" using r by (rule advances_reach)
  moreover have "lock_reach lib again g (T(r := p), s') st'" using 2 r rest by auto
  ultimately show ?case by (rule rtranclp_trans)
qed simp


section \<open>Mutual exclusion\<close>

text \<open>
  C1: In a job where every PE calls shmem_set_lock and shmem_clear_lock at most once, in every
  interleaving of their MPI calls, at most one PE holds the lock.
\<close>

theorem lock_mutual_exclusion:
  assumes "lock_laws W M lib" "shmem_world_size g \<le> INT32_MAX" "fresh_lock W M s0"
    and "lock_reach lib False g (unused, s0) (T, s)" "T a = Holding l" "T b = Holding l'"
  shows "a = b"
proof -
  obtain C q where C: "\<And>r. stands g r (C r) (T r)"
    and q: "queue_inv (shmem_world_size g) q C (W s) (M s)"
    using system_inv_reach [OF assms(1-4)] by (auto simp: system_inv_def)
  have "C a = P_hold" "C b = P_hold" using C assms(5,6) stands_Holding by metis+
  then show ?thesis using one_holder [OF q, of a b] by simp
qed

definition pair_globals :: globals where
  "pair_globals = (example_globals False False 0)\<lparr>shmem_world_size := 2\<rparr>"

text \<open>Both PEs start with an unused lock; \<open>P\<close> holds at the end of the schedule.\<close>

definition runs_to :: "bool \<Rightarrow> (int \<times> nat) list \<Rightarrow> ((int \<Rightarrow> phase) \<Rightarrow> lock_mem \<Rightarrow> bool) \<Rightarrow> bool" where
  "runs_to again sch P \<longleftrightarrow> (case schedule ref_lib again pair_globals sch (unused, ref_fresh) of
     Some (T, s) \<Rightarrow> P T s | None \<Rightarrow> False)"

lemma runs_toD:
  assumes "runs_to again sch P"
  obtains T s where "lock_reach ref_lib again pair_globals (unused, ref_fresh) (T, s)" "P T s"
  using assms by (auto simp: runs_to_def split: option.splits prod.splits dest: schedule_reach)

fun is_holding :: "phase \<Rightarrow> bool" where
  "is_holding (Holding l) = True" | "is_holding p = False"

fun is_locking :: "phase \<Rightarrow> bool" where
  "is_locking (Locking p) = True" | "is_locking p = False"

lemma is_holdingD: "is_holding p \<Longrightarrow> \<exists>l. p = Holding l"
  by (cases p) auto

lemma is_lockingD: "is_locking p \<Longrightarrow> \<exists>q. p = Locking q"
  by (cases p) auto

lemma queued_run: "runs_to False [(0, 6), (1, 5)] (\<lambda>T s. is_holding (T 0) \<and> is_locking (T 1))"
  by code_simp

theorem lock_mutual_exclusion_witness:
  "\<exists>T s l p. lock_reach ref_lib False pair_globals (unused, ref_fresh) (T, s) \<and>
     T 0 = Holding l \<and> T 1 = Locking p \<and> {a. \<exists>l'. T a = Holding l'} = {0}"
proof -
  obtain T s where reach: "lock_reach ref_lib False pair_globals (unused, ref_fresh) (T, s)"
    and T: "is_holding (T 0)" "is_locking (T 1)"
    using runs_toD [OF queued_run] by blast
  have "shmem_world_size pair_globals \<le> INT32_MAX"
    by (simp add: pair_globals_def INT32_MAX_def)
  note one = lock_mutual_exclusion [OF ref_lib_laws this ref_fresh reach]
  obtain l p where lp: "T 0 = Holding l" "T 1 = Locking p"
    using T is_holdingD is_lockingD by blast
  moreover have "a = 0" if "T a = Holding l'" for a l' using one [OF that lp(1)] .
  ultimately have "{a. \<exists>l'. T a = Holding l'} = {0}" by blast
  then show ?thesis using reach lp by blast
qed

section \<open>Beyond one use: a lost wake-up and two holders\<close>

definition stuck :: "'s library \<Rightarrow> globals \<Rightarrow> (int \<Rightarrow> phase) \<times> 's \<Rightarrow> bool" where
  "stuck lib g st \<longleftrightarrow> (\<forall>again st'. \<not> lock_step lib again g st st')"

text \<open>PE 1 queues behind PE 0, but PE 0 reads its \<open>NEXT\<close> word before PE 1 has written it.\<close>

definition lost_wakeup :: "(int \<times> nat) list" where
  "lost_wakeup = [(0, 6), (1, 2), (0, 6), (1, 3), (0, 6)]"

fun waits :: "int \<Rightarrow> phase \<Rightarrow> lock_mem \<Rightarrow> bool" where
  "waits r (Locking (Eff e k)) s = (case ref_lib r e s of None \<Rightarrow> True | Some y \<Rightarrow> False)"
| "waits r p s = False"

lemma waits_stuck: "waits r p s \<Longrightarrow> advance ref_lib again g r (p, s) = None"
  by (induction r p s rule: waits.induct) (auto split: option.splits)

lemma lost_wakeup_run:
  "runs_to True lost_wakeup (\<lambda>T s. is_locking (T 0) \<and> is_locking (T 1) \<and> waits 0 (T 0) s \<and> waits 1 (T 1) s)"
  by code_simp

text \<open>
  C18: The hand-over can be lost: in a job of two PEs that take and release the lock, a schedule
  leads to a state where both are inside shmem_set_lock and neither can ever proceed.
\<close>

theorem lock_loses_wakeup:
  "\<exists>T s p q. lock_reach ref_lib True pair_globals (unused, ref_fresh) (T, s) \<and>
     T 0 = Locking p \<and> T 1 = Locking q \<and> stuck ref_lib pair_globals (T, s)"
proof -
  obtain T s where reach: "lock_reach ref_lib True pair_globals (unused, ref_fresh) (T, s)"
    and T: "is_locking (T 0)" "is_locking (T 1)" "waits 0 (T 0) s" "waits 1 (T 1) s"
    using runs_toD [OF lost_wakeup_run] by blast
  have "advance ref_lib again pair_globals r (T r, s) = None" if "is_pe pair_globals r" for r again
  proof -
    have "r = 0 \<or> r = 1" using that by (auto simp: is_pe_def pair_globals_def)
    then show ?thesis using waits_stuck [OF T(3)] waits_stuck [OF T(4)] by metis
  qed
  then have "\<not> lock_step ref_lib again pair_globals (T, s) st'" for again st'
    by (auto simp: lock_step_from)
  then show ?thesis using reach T(1,2) is_lockingD unfolding stuck_def by meson
qed

text \<open>A notification is looked for with \<open>MPI_Probe\<close> and never received, so it admits a later round too.\<close>

definition stale_mail :: "(int \<times> nat) list" where
  "stale_mail = [(0, 6), (1, 5), (0, 7), (1, 4), (1, 6), (0, 6), (1, 10), (1, 7), (0, 4), (0, 7),
     (0, 10), (1, 10)]"

lemma stale_mail_run: "runs_to True stale_mail (\<lambda>T s. is_holding (T 0) \<and> is_holding (T 1))"
  by code_simp

text \<open>
  C19: Mutual exclusion needs the single use: when PEs take the lock again, a schedule leads to two
  PEs that hold it at the same time.
\<close>

theorem reused_lock_admits_two:
  "\<exists>T s l l'. lock_reach ref_lib True pair_globals (unused, ref_fresh) (T, s) \<and>
     T 0 = Holding l \<and> T 1 = Holding l'"
proof -
  obtain T s where "lock_reach ref_lib True pair_globals (unused, ref_fresh) (T, s)"
    "is_holding (T 0)" "is_holding (T 1)"
    using runs_toD [OF stale_mail_run] by blast
  then show ?thesis using is_holdingD by meson
qed

section \<open>Testing the lock\<close>

text \<open>One PE runs a routine alone, to its end.\<close>

primrec solo :: "'s library \<Rightarrow> int \<Rightarrow> 'a shm \<Rightarrow> 's \<Rightarrow> ('a \<times> 's) option" where
  "solo lib r (Return a) s = Some (a, s)"
| "solo lib r (Eff e k) s = (case lib r e s of None \<Rightarrow> None | Some y \<Rightarrow> solo lib r (k (fst y)) (snd y))"
| "solo lib r (Abort n msg) s = None"
| "solo lib r (Assert_fail msg) s = None"
| "solo lib r (Undef msg) s = None"

lemma as_int_minus_one: "as_int (-1) = -1"
  using as_int_word_of_int [of "-1"] by (simp add: c_int_def)

lemmas test_lock_unfold = shmem_test_lock_def oshmpi_trylock_def lock_unfold as_int_word_of_int
  as_int_minus_one c_int_small Let_def

lemma test_lock_free:
  assumes laws: "lock_laws W M lib" and pe: "is_pe g r" "shmem_world_size g \<le> INT32_MAX"
    and free: "W s 0 2 = -1"
  shows "\<exists>s'. solo lib r (shmem_test_lock (on_pe g r) l) s = Some ((1, l\<lparr>lock_prev := r\<rparr>), s') \<and>
     M s' = M s \<and> W s' 0 2 = r \<and> W s' r 3 = 1 \<and> (\<forall>a. W s' a 1 = W s a 1) \<and>
     (\<forall>a. a \<noteq> r \<longrightarrow> W s' a 3 = W s a 3)"
proof -
  have r: "INT32_MIN \<le> r" "r \<le> INT32_MAX" "INT32_MIN \<le> (-1)" "(-1) \<le> INT32_MAX"
    using pe by (auto simp: is_pe_def INT32_MIN_def INT32_MAX_def)
  obtain s1 where s1: "lib r (Rma (MPI_Compare_and_swap (word_of_int r) (word_of_int (-1)) MPI_INT 0 2
      Oshmpi_lock_win)) s = Some (RVal (word_of_int (W s 0 2)), s1)" "M s1 = M s"
    "W s1 = (W s)(0 := (W s 0)(2 := r))"
    using lib_cas [OF laws r, of s 0 2 r] free r by auto
  obtain x2 s2 where s2: "lib r (Rma (MPI_Win_flush 0 Oshmpi_lock_win)) s1 = Some (x2, s2)"
    "M s2 = M s1" "W s2 = W s1" using lib_flush [OF laws] by metis
  obtain s3 where s3: "lib r (Rma (MPI_Fetch_and_op (Some (word_of_int r)) MPI_INT 0 2 MPI_REPLACE
      Oshmpi_lock_win)) s2 = Some (RVal (word_of_int (W s2 0 2)), s3)" "M s3 = M s2"
    "W s3 = (W s2)(0 := (W s2 0)(2 := r))"
    using lib_swap [OF laws r(1,2)] by metis
  obtain x4 s4 where s4: "lib r (Rma (MPI_Win_flush 0 Oshmpi_lock_win)) s3 = Some (x4, s4)"
    "M s4 = M s3" "W s4 = W s3" using lib_flush [OF laws] by metis
  obtain x5 s5 where s5: "lib r (Mem (Lock_base_store 3 1)) s4 = Some (x5, s5)"
    "M s5 = M s4" "W s5 = (W s4)(r := (W s4 r)(int 3 := 1))" using lib_store [OF laws] by metis
  obtain x6 s6 where s6: "lib r (Rma (MPI_Win_sync Oshmpi_lock_win)) s5 = Some (x6, s6)"
    "M s6 = M s5" "W s6 = W s5" using lib_sync [OF laws] by metis
  show ?thesis
    using s1 s2 s3 s4 s5 s6 free r
    by (simp add: test_lock_unfold)
qed

lemma test_lock_taken:
  assumes laws: "lock_laws W M lib" and pe: "is_pe g r" "shmem_world_size g \<le> INT32_MAX"
    and tail: "is_pe g (W s 0 2)" and held: "W s (W s 0 2) 3 \<in> {-1, 1}"
  shows "\<exists>s'. solo lib r (shmem_test_lock (on_pe g r) l) s = Some ((0, l\<lparr>lock_prev := W s 0 2\<rparr>), s') \<and>
     M s' = M s \<and> W s' = W s"
proof -
  let ?p = "W s 0 2"
  have r: "INT32_MIN \<le> r" "r \<le> INT32_MAX" "INT32_MIN \<le> (-1)" "(-1) \<le> INT32_MAX"
    and p: "INT32_MIN \<le> ?p" "?p \<le> INT32_MAX" "?p \<noteq> -1"
    using pe tail by (auto simp: is_pe_def INT32_MIN_def INT32_MAX_def)
  obtain s1 where s1: "lib r (Rma (MPI_Compare_and_swap (word_of_int r) (word_of_int (-1)) MPI_INT 0 2
      Oshmpi_lock_win)) s = Some (RVal (word_of_int ?p), s1)" "M s1 = M s" "W s1 = W s"
    using lib_cas [OF laws r p(1,2)] p(3) by metis
  obtain x2 s2 where s2: "lib r (Rma (MPI_Win_flush 0 Oshmpi_lock_win)) s1 = Some (x2, s2)"
    "M s2 = M s1" "W s2 = W s1" using lib_flush [OF laws] by metis
  obtain s3 where s3: "lib r (Rma (MPI_Fetch_and_op None MPI_INT ?p 3 MPI_NO_OP Oshmpi_lock_win)) s2
      = Some (RVal (word_of_int (W s2 ?p 3)), s3)" "M s3 = M s2" "W s3 = W s2"
    using lib_fetch [OF laws] by metis
  obtain x4 s4 where s4: "lib r (Rma (MPI_Win_flush ?p Oshmpi_lock_win)) s3 = Some (x4, s4)"
    "M s4 = M s3" "W s4 = W s3" using lib_flush [OF laws] by metis
  have "c_int (W s ?p 3) \<noteq> 0" using held by (auto simp: c_int_def)
  then show ?thesis
    using s1 s2 s3 s4 p
    by (simp add: test_lock_unfold)
qed


text \<open>A PE that has no successor releases without a message.\<close>

lemma clear_lock_alone:
  assumes laws: "lock_laws W M lib" and last: "W s r 1 = -1"
  shows "\<exists>s'. solo lib r (shmem_clear_lock (on_pe g r) l) s = Some (l\<lparr>lock_next := -1\<rparr>, s') \<and>
     M s' = M s \<and> W s' = (W s)(r := (W s r)(3 := -1))"
proof -
  obtain s1 where s1: "lib r (Rma (MPI_Fetch_and_op None MPI_INT r 1 MPI_NO_OP Oshmpi_lock_win)) s
      = Some (RVal (word_of_int (W s r 1)), s1)" "M s1 = M s" "W s1 = W s"
    using lib_fetch [OF laws] by metis
  obtain x2 s2 where s2: "lib r (Rma (MPI_Win_flush r Oshmpi_lock_win)) s1 = Some (x2, s2)"
    "M s2 = M s1" "W s2 = W s1" using lib_flush [OF laws] by metis
  obtain x3 s3 where s3: "lib r (Mem (Lock_base_store 3 (-1))) s2 = Some (x3, s3)"
    "M s3 = M s2" "W s3 = (W s2)(r := (W s2 r)(int 3 := -1))" using lib_store [OF laws] by metis
  obtain x4 s4 where s4: "lib r (Rma (MPI_Win_sync Oshmpi_lock_win)) s3 = Some (x4, s4)"
    "M s4 = M s3" "W s4 = W s3" using lib_sync [OF laws] by metis
  show ?thesis using s1 s2 s3 s4 last by (simp add: test_lock_unfold)
qed

text \<open>Any number of tests, one after another, by any PEs with any lock variables: their answers.\<close>

primrec tests ::
    "'s library \<Rightarrow> globals \<Rightarrow> (int \<times> oshmpi_lock_t) list \<Rightarrow> 's \<Rightarrow> (int list \<times> 's) option" where
  "tests lib g [] s = Some ([], s)"
| "tests lib g (t # ts) s =
     (case solo lib (fst t) (shmem_test_lock (on_pe g (fst t)) (snd t)) s of
        None \<Rightarrow> None
      | Some y \<Rightarrow> map_option (\<lambda>(as, s'). (fst (fst y) # as, s')) (tests lib g ts (snd y)))"

lemma tests_taken:
  assumes laws: "lock_laws W M lib" and pe: "shmem_world_size g \<le> INT32_MAX"
    and "\<forall>t\<in>set ts. is_pe g (fst t)" "is_pe g (W s 0 2)" "W s (W s 0 2) 3 \<in> {-1, 1}"
  shows "\<exists>s'. tests lib g ts s = Some (replicate (length ts) 0, s') \<and> W s' = W s"
  using assms(3-)
proof (induction ts arbitrary: s)
  case Nil
  then show ?case by simp
next
  case (Cons t ts)
  obtain l s' where 1: "solo lib (fst t) (shmem_test_lock (on_pe g (fst t)) (snd t)) s = Some ((0, l), s')"
      "W s' = W s"
    using test_lock_taken [OF laws _ pe Cons.prems(2,3), of "fst t" "snd t"] Cons.prems(1) by auto
  obtain s'' where "tests lib g ts s' = Some (replicate (length ts) 0, s'')" "W s'' = W s'"
    using Cons.IH [of s'] Cons.prems 1(2) by auto
  with 1 show ?case by simp
qed

text \<open>
  C20: \<open>shmem_test_lock\<close> answers 1 and takes a lock that nobody has used; after the
  \<open>shmem_clear_lock\<close> that follows nobody holds the lock, and from then on every test answers 0,
  whichever PEs test it and however often, and changes none of its words.
\<close>

theorem test_lock_succeeds_once:
  assumes laws: "lock_laws W M lib" and fresh: "fresh_lock W M s"
    and pes: "is_pe g r" "\<forall>t\<in>set ts. is_pe g (fst t)" "shmem_world_size g \<le> INT32_MAX"
  shows "\<exists>l1 s1 l2 s2 s3.
     solo lib r (shmem_test_lock (on_pe g r) l) s = Some ((1, l1), s1) \<and> W s1 r 3 = 1 \<and>
     solo lib r (shmem_clear_lock (on_pe g r) l1) s1 = Some (l2, s2) \<and> (\<forall>pe. W s2 pe 3 = -1) \<and>
     tests lib g ts s2 = Some (replicate (length ts) 0, s3) \<and> W s3 = W s2"
proof -
  have start: "W s 0 2 = -1" "W s a 1 = -1" "W s a 3 = -1" for a
    using fresh by (simp_all add: fresh_lock_def)
  obtain s1 where s1: "solo lib r (shmem_test_lock (on_pe g r) l) s = Some ((1, l\<lparr>lock_prev := r\<rparr>), s1)"
    "W s1 0 2 = r" "W s1 r 3 = 1" "W s1 r 1 = -1" "\<forall>pe. pe \<noteq> r \<longrightarrow> W s1 pe 3 = -1"
    using test_lock_free [OF laws pes(1,3) start(1)] start(2,3) by metis
  obtain s2 where s2: "solo lib r (shmem_clear_lock (on_pe g r) (l\<lparr>lock_prev := r\<rparr>)) s1
      = Some (l\<lparr>lock_prev := r, lock_next := -1\<rparr>, s2)" "W s2 = (W s1)(r := (W s1 r)(3 := -1))"
    using clear_lock_alone [OF laws s1(4)] by metis
  have w: "W s2 0 2 = r" "\<forall>pe. W s2 pe 3 = -1"
    using s1(2,5) s2(2) by auto
  then have "is_pe g (W s2 0 2)" "W s2 (W s2 0 2) 3 \<in> {-1, 1}" using pes by auto
  then show ?thesis
    using s1 s2 w tests_taken [OF laws pes(3,2), of s2] by blast
qed

theorem test_lock_succeeds_once_witness:
  "\<exists>l1 s1 l2 s2 s3.
     solo ref_lib 1 (shmem_test_lock (on_pe pair_globals 1) \<lparr>lock_prev = 5, lock_next = 6\<rparr>) ref_fresh
       = Some ((1, l1), s1) \<and> fst s1 1 3 = 1 \<and>
     solo ref_lib 1 (shmem_clear_lock (on_pe pair_globals 1) l1) s1 = Some (l2, s2) \<and>
     (\<forall>pe. fst s2 pe 3 = -1) \<and>
     tests ref_lib pair_globals
       [(0, \<lparr>lock_prev = 7, lock_next = 8\<rparr>), (1, \<lparr>lock_prev = 7, lock_next = 8\<rparr>),
        (0, \<lparr>lock_prev = 7, lock_next = 8\<rparr>)] s2
       = Some ([0, 0, 0], s3) \<and> fst s3 = fst s2"
proof -
  let ?l = "\<lparr>lock_prev = 7, lock_next = 8\<rparr>"
  have "is_pe pair_globals 1" "\<forall>t\<in>set [(0, ?l), (1, ?l), (0, ?l)]. is_pe pair_globals (fst t)"
    "shmem_world_size pair_globals \<le> INT32_MAX"
    by (simp_all add: pair_globals_def is_pe_def INT32_MAX_def)
  moreover have "replicate (length [(0 :: int, ?l), (1, ?l), (0, ?l)]) 0 = [0, 0, 0 :: int]"
    by simp
  ultimately show ?thesis
    using test_lock_succeeds_once [OF ref_lib_laws ref_fresh] by metis
qed

end
