(* ===== verification/Transfer_Api.thy ===== *)
theory Transfer_Api
  imports Ordering
begin

text \<open>
  The typed entry points of \<open>src/src/shmem.c\<close> over the transfer engine: elemental put and get,
  block put and get, strided put and get. An elemental routine works on a local variable \<open>v\<close>;
  its address in the frame of the call is the argument \<open>local\<close>, and a value is its bytes, as
  many as its C type has.
\<close>

section \<open>Elemental, block and strided routines\<close>

type_synonym elemental_put = "globals \<Rightarrow> addr \<Rightarrow> addr \<Rightarrow> byte list \<Rightarrow> int \<Rightarrow> unit shm"
type_synonym elemental_get = "globals \<Rightarrow> addr \<Rightarrow> addr \<Rightarrow> int \<Rightarrow> byte list shm"
type_synonym block_transfer = "globals \<Rightarrow> addr \<Rightarrow> addr \<Rightarrow> size_t \<Rightarrow> int \<Rightarrow> unit shm"
type_synonym strided_transfer = "globals \<Rightarrow> addr \<Rightarrow> addr \<Rightarrow> int \<Rightarrow> int \<Rightarrow> size_t \<Rightarrow> int \<Rightarrow> unit shm"

definition shmem_float_p :: elemental_put where
  "shmem_float_p g local addr v pe =
     pseq (call (Mem (Store local v))) (oshmpi_put g MPI_FLOAT addr local 1 pe)"

definition shmem_double_p :: elemental_put where
  "shmem_double_p g local addr v pe =
     pseq (call (Mem (Store local v))) (oshmpi_put g MPI_DOUBLE addr local 1 pe)"

definition shmem_longdouble_p :: elemental_put where
  "shmem_longdouble_p g local addr v pe =
     pseq (call (Mem (Store local v))) (oshmpi_put g MPI_LONG_DOUBLE addr local 1 pe)"

definition shmem_char_p :: elemental_put where
  "shmem_char_p g local addr v pe =
     pseq (call (Mem (Store local v))) (oshmpi_put g MPI_CHAR addr local 1 pe)"

definition shmem_short_p :: elemental_put where
  "shmem_short_p g local addr v pe =
     pseq (call (Mem (Store local v))) (oshmpi_put g MPI_SHORT addr local 1 pe)"

definition shmem_int_p :: elemental_put where
  "shmem_int_p g local addr v pe =
     pseq (call (Mem (Store local v))) (oshmpi_put g MPI_INT addr local 1 pe)"

definition shmem_long_p :: elemental_put where
  "shmem_long_p g local addr v pe =
     pseq (call (Mem (Store local v))) (oshmpi_put g MPI_LONG addr local 1 pe)"

definition shmem_longlong_p :: elemental_put where
  "shmem_longlong_p g local addr v pe =
     pseq (call (Mem (Store local v))) (oshmpi_put g MPI_LONG_LONG addr local 1 pe)"

definition shmem_float_put :: block_transfer where
  "shmem_float_put g target source len pe = oshmpi_put g MPI_FLOAT target source len pe"

definition shmem_double_put :: block_transfer where
  "shmem_double_put g target source len pe = oshmpi_put g MPI_DOUBLE target source len pe"

definition shmem_longdouble_put :: block_transfer where
  "shmem_longdouble_put g target source len pe = oshmpi_put g MPI_LONG_DOUBLE target source len pe"

definition shmem_char_put :: block_transfer where
  "shmem_char_put g target source len pe = oshmpi_put g MPI_CHAR target source len pe"

definition shmem_short_put :: block_transfer where
  "shmem_short_put g target source len pe = oshmpi_put g MPI_SHORT target source len pe"

definition shmem_int_put :: block_transfer where
  "shmem_int_put g target source len pe = oshmpi_put g MPI_INT target source len pe"

definition shmem_long_put :: block_transfer where
  "shmem_long_put g target source len pe = oshmpi_put g MPI_LONG target source len pe"

definition shmem_longlong_put :: block_transfer where
  "shmem_longlong_put g target source len pe = oshmpi_put g MPI_LONG_LONG target source len pe"

definition shmem_putmem :: block_transfer where
  "shmem_putmem g target source len pe = oshmpi_put g MPI_BYTE target source len pe"

definition shmem_put32 :: block_transfer where
  "shmem_put32 g target source len pe = oshmpi_put g MPI_INT32_T target source len pe"

definition shmem_put64 :: block_transfer where
  "shmem_put64 g target source len pe = oshmpi_put g MPI_DOUBLE target source len pe"

definition shmem_put128 :: block_transfer where
  "shmem_put128 g target source len pe = oshmpi_put g MPI_C_DOUBLE_COMPLEX target source len pe"

definition shmem_complexf_put :: block_transfer where
  "shmem_complexf_put g target source len pe = oshmpi_put g MPI_COMPLEX target source len pe"

definition shmem_complexd_put :: block_transfer where
  "shmem_complexd_put g target source len pe = oshmpi_put g MPI_DOUBLE_COMPLEX target source len pe"

definition shmem_float_g :: elemental_get where
  "shmem_float_g g local addr pe =
     pseq (oshmpi_get g MPI_FLOAT local addr 1 pe) (call_bytes (Mem (Load local 4)))"

definition shmem_double_g :: elemental_get where
  "shmem_double_g g local addr pe =
     pseq (oshmpi_get g MPI_DOUBLE local addr 1 pe) (call_bytes (Mem (Load local 8)))"

definition shmem_longdouble_g :: elemental_get where
  "shmem_longdouble_g g local addr pe =
     pseq (oshmpi_get g MPI_LONG_DOUBLE local addr 1 pe) (call_bytes (Mem (Load local 16)))"

definition shmem_char_g :: elemental_get where
  "shmem_char_g g local addr pe =
     pseq (oshmpi_get g MPI_CHAR local addr 1 pe) (call_bytes (Mem (Load local 1)))"

definition shmem_short_g :: elemental_get where
  "shmem_short_g g local addr pe =
     pseq (oshmpi_get g MPI_SHORT local addr 1 pe) (call_bytes (Mem (Load local 2)))"

definition shmem_int_g :: elemental_get where
  "shmem_int_g g local addr pe =
     pseq (oshmpi_get g MPI_INT local addr 1 pe) (call_bytes (Mem (Load local 4)))"

definition shmem_long_g :: elemental_get where
  "shmem_long_g g local addr pe =
     pseq (oshmpi_get g MPI_LONG local addr 1 pe) (call_bytes (Mem (Load local 8)))"

definition shmem_longlong_g :: elemental_get where
  "shmem_longlong_g g local addr pe =
     pseq (oshmpi_get g MPI_LONG_LONG local addr 1 pe) (call_bytes (Mem (Load local 8)))"

definition shmem_float_get :: block_transfer where
  "shmem_float_get g target source len pe = oshmpi_get g MPI_FLOAT target source len pe"

definition shmem_double_get :: block_transfer where
  "shmem_double_get g target source len pe = oshmpi_get g MPI_DOUBLE target source len pe"

definition shmem_longdouble_get :: block_transfer where
  "shmem_longdouble_get g target source len pe = oshmpi_get g MPI_LONG_DOUBLE target source len pe"

definition shmem_char_get :: block_transfer where
  "shmem_char_get g target source len pe = oshmpi_get g MPI_CHAR target source len pe"

definition shmem_short_get :: block_transfer where
  "shmem_short_get g target source len pe = oshmpi_get g MPI_SHORT target source len pe"

definition shmem_int_get :: block_transfer where
  "shmem_int_get g target source len pe = oshmpi_get g MPI_INT target source len pe"

definition shmem_long_get :: block_transfer where
  "shmem_long_get g target source len pe = oshmpi_get g MPI_LONG target source len pe"

definition shmem_longlong_get :: block_transfer where
  "shmem_longlong_get g target source len pe = oshmpi_get g MPI_LONG_LONG target source len pe"

definition shmem_getmem :: block_transfer where
  "shmem_getmem g target source len pe = oshmpi_get g MPI_BYTE target source len pe"

definition shmem_get32 :: block_transfer where
  "shmem_get32 g target source len pe = oshmpi_get g MPI_INT32_T target source len pe"

definition shmem_get64 :: block_transfer where
  "shmem_get64 g target source len pe = oshmpi_get g MPI_DOUBLE target source len pe"

definition shmem_get128 :: block_transfer where
  "shmem_get128 g target source len pe = oshmpi_get g MPI_C_DOUBLE_COMPLEX target source len pe"

definition shmem_complexf_get :: block_transfer where
  "shmem_complexf_get g target source len pe = oshmpi_get g MPI_COMPLEX target source len pe"

definition shmem_complexd_get :: block_transfer where
  "shmem_complexd_get g target source len pe = oshmpi_get g MPI_DOUBLE_COMPLEX target source len pe"

definition shmem_float_iput :: strided_transfer where
  "shmem_float_iput g target source tst sst len pe = oshmpi_put_strided g MPI_FLOAT target source tst sst len pe"

definition shmem_double_iput :: strided_transfer where
  "shmem_double_iput g target source tst sst len pe = oshmpi_put_strided g MPI_DOUBLE target source tst sst len pe"

definition shmem_longdouble_iput :: strided_transfer where
  "shmem_longdouble_iput g target source tst sst len pe = oshmpi_put_strided g MPI_LONG_DOUBLE target source tst sst len pe"

definition shmem_short_iput :: strided_transfer where
  "shmem_short_iput g target source tst sst len pe = oshmpi_put_strided g MPI_SHORT target source tst sst len pe"

definition shmem_int_iput :: strided_transfer where
  "shmem_int_iput g target source tst sst len pe = oshmpi_put_strided g MPI_INT target source tst sst len pe"

definition shmem_long_iput :: strided_transfer where
  "shmem_long_iput g target source tst sst len pe = oshmpi_put_strided g MPI_LONG target source tst sst len pe"

definition shmem_longlong_iput :: strided_transfer where
  "shmem_longlong_iput g target source tst sst len pe = oshmpi_put_strided g MPI_LONG_LONG target source tst sst len pe"

definition shmem_iput32 :: strided_transfer where
  "shmem_iput32 g target source tst sst len pe = oshmpi_put_strided g MPI_INT32_T target source tst sst len pe"

definition shmem_iput64 :: strided_transfer where
  "shmem_iput64 g target source tst sst len pe = oshmpi_put_strided g MPI_DOUBLE target source tst sst len pe"

definition shmem_iput128 :: strided_transfer where
  "shmem_iput128 g target source tst sst len pe = oshmpi_put_strided g MPI_C_DOUBLE_COMPLEX target source tst sst len pe"

definition shmem_float_iget :: strided_transfer where
  "shmem_float_iget g target source tst sst len pe = oshmpi_get_strided g MPI_FLOAT target source tst sst len pe"

definition shmem_double_iget :: strided_transfer where
  "shmem_double_iget g target source tst sst len pe = oshmpi_get_strided g MPI_DOUBLE target source tst sst len pe"

definition shmem_longdouble_iget :: strided_transfer where
  "shmem_longdouble_iget g target source tst sst len pe = oshmpi_get_strided g MPI_LONG_DOUBLE target source tst sst len pe"

definition shmem_short_iget :: strided_transfer where
  "shmem_short_iget g target source tst sst len pe = oshmpi_get_strided g MPI_SHORT target source tst sst len pe"

definition shmem_int_iget :: strided_transfer where
  "shmem_int_iget g target source tst sst len pe = oshmpi_get_strided g MPI_INT target source tst sst len pe"

definition shmem_long_iget :: strided_transfer where
  "shmem_long_iget g target source tst sst len pe = oshmpi_get_strided g MPI_LONG target source tst sst len pe"

definition shmem_longlong_iget :: strided_transfer where
  "shmem_longlong_iget g target source tst sst len pe = oshmpi_get_strided g MPI_LONG_LONG target source tst sst len pe"

definition shmem_iget32 :: strided_transfer where
  "shmem_iget32 g target source tst sst len pe = oshmpi_get_strided g MPI_INT32_T target source tst sst len pe"

definition shmem_iget64 :: strided_transfer where
  "shmem_iget64 g target source tst sst len pe = oshmpi_get_strided g MPI_DOUBLE target source tst sst len pe"

definition shmem_iget128 :: strided_transfer where
  "shmem_iget128 g target source tst sst len pe = oshmpi_get_strided g MPI_C_DOUBLE_COMPLEX target source tst sst len pe"

section \<open>A value put and fetched back\<close>

lemma map_apply_writes:
  assumes "distinct cs" "length bs = length cs"
  shows "map (apply_writes (zip cs bs) \<sigma>) cs = bs"
  using assms by (intro nth_equalityI) (simp_all add: apply_writes_zip_nth)

lemma fits_one: "predefined ty \<Longrightarrow> fits 1 ty"
  by (cases ty) (simp_all add: fits_def)

lemma nbytes_one [simp]: "nbytes 1 ty = predef_size ty"
  by (simp add: nbytes_def)

text \<open>The elemental routines and the sizes of their C types on the machine of the sources.\<close>

definition elemental_routines :: "(elemental_put \<times> elemental_get \<times> nat) list" where
  "elemental_routines =
     [(shmem_float_p, shmem_float_g, 4),
      (shmem_double_p, shmem_double_g, 8),
      (shmem_longdouble_p, shmem_longdouble_g, 16),
      (shmem_char_p, shmem_char_g, 1),
      (shmem_short_p, shmem_short_g, 2),
      (shmem_int_p, shmem_int_g, 4),
      (shmem_long_p, shmem_long_g, 8),
      (shmem_longlong_p, shmem_longlong_g, 8)]"

lemma elemental_routines_types:
  assumes "(p, q, n) \<in> set elemental_routines"
  obtains ty where "predef_size ty = n" "0 < n"
    "\<And>g local addr v pe. p g local addr v pe
       = pseq (call (Mem (Store local v))) (oshmpi_put g ty addr local 1 pe)"
    "\<And>g local addr pe. q g local addr pe
       = pseq (oshmpi_get g ty local addr 1 pe) (call_bytes (Mem (Load local n)))"
  using assms unfolding elemental_routines_def set_simps
  by (elim insertE emptyE)
    (auto intro: that [of MPI_FLOAT] that [of MPI_DOUBLE] that [of MPI_LONG_DOUBLE] that [of MPI_CHAR]
      that [of MPI_SHORT] that [of MPI_INT] that [of MPI_LONG] that [of MPI_LONG_LONG]
      simp: shmem_float_p_def shmem_float_g_def shmem_double_p_def shmem_double_g_def shmem_longdouble_p_def shmem_longdouble_g_def shmem_char_p_def shmem_char_g_def shmem_short_p_def shmem_short_g_def shmem_int_p_def shmem_int_g_def shmem_long_p_def shmem_long_g_def shmem_longlong_p_def shmem_longlong_g_def)

text \<open>
  C26: for every C type \<open>T\<close> of the elemental routines and in every build, the value that
  \<open>shmem_T_p\<close> stores on another PE is the value, all \<open>sizeof (T)\<close> bytes of it, that
  \<open>shmem_T_g\<close> reads back from there after a quiet; beyond the object of that size and the local
  variables of the two calls no memory changes.
\<close>

theorem elemental_roundtrip:
  assumes pq: "(p, q, n) \<in> set elemental_routines" and E: "environment V mpi g r"
    and v: "length v = n" and s: "symmetric g addr pe n" and m: "idle V r m"
    and d: "distinct (range_at (vmap V r) local n)" "distinct (range_at (vmap V r) local' n)"
      "distinct (remote_of V g addr pe n)"
  shows "ends (world V mpi r)
     (pseq (p g local addr v pe) (pseq (shmem_quiet g) (q g local' addr pe))) (m, \<sigma>)
     (\<lambda>x (m', \<sigma>'). x = v \<and> idle V r m' \<and>
        (\<forall>c. c \<notin> set (remote_of V g addr pe n) \<union> set (range_at (vmap V r) local n)
                 \<union> set (range_at (vmap V r) local' n) \<longrightarrow> \<sigma>' c = \<sigma> c))"
    (is "ends _ _ _ ?Q")
proof -
  obtain ty where ty: "predef_size ty = n" "0 < n"
    and p: "\<And>g local addr v pe. p g local addr v pe
       = pseq (call (Mem (Store local v))) (oshmpi_put g ty addr local 1 pe)"
    and q: "\<And>g local addr pe. q g local addr pe
       = pseq (oshmpi_get g ty local addr 1 pe) (call_bytes (Mem (Load local n)))"
    by (rule elemental_routines_types [OF pq], rule that)
  have f: "fits 1 ty" and nb: "nbytes 1 ty = n"
    using ty by (simp_all add: fits_one predefined_def)
  let ?R = "remote_of V g addr pe n"
  let ?\<sigma>1 = "apply_writes (zip (range_at (vmap V r) local n) v) \<sigma>"
  let ?\<sigma>2 = "apply_writes (zip ?R v) ?\<sigma>1"
  have R: "length ?R = n" by (simp add: remote_of_def remote_range_def split: prod.split)
  have v1: "map ?\<sigma>1 (range_at (vmap V r) local n) = v" and v2: "map ?\<sigma>2 ?R = v"
    using v d R by (simp_all add: map_apply_writes)
  have get: "ends (world V mpi r) (q g local' addr pe) (m2, ?\<sigma>2) ?Q" if "idle V r m2" for m2
    unfolding q ends_pseq
    apply (rule ends_mono [OF get_returns [OF E f _ that]])
     apply (use s nb in simp)
    apply clarify
    apply (rule ends_load)
    apply (simp add: ty(1) v2 v d(2) map_apply_writes apply_writes_zip_other)
    done
  have put: "ends (world V mpi r) (pseq (oshmpi_put g ty addr local 1 pe) (shmem_quiet g)) (m, ?\<sigma>1)
      (\<lambda>_ (m', \<sigma>'). idle V r m' \<and> \<sigma>' = ?\<sigma>2)"
    using put_and_quiet [OF E f _ m, of addr pe local ?\<sigma>1] s v1 nb by simp
  show ?thesis
    unfolding p pseq_assoc
    unfolding ends_pseq [of _ "call _"]
    apply (rule ends_mem)
     apply (simp add: v)
    unfolding pseq_assoc [symmetric]
    unfolding ends_pseq [of _ "pseq _ _"]
    apply (rule ends_mono [OF put])
    apply clarify
    apply (rule get, assumption)
    done
qed

theorem elemental_roundtrip_witness:
  "ends (world example_view (example_mpi True) 0)
     (pseq (shmem_long_p (example_globals False False 0) 0x3000 0x1010 [1, 2, 3, 4, 5, 6, 7, 8] 1)
       (pseq (shmem_quiet (example_globals False False 0))
         (shmem_long_g (example_globals False False 0) 0x3010 0x1010 1)))
     (example_start, example_store) (\<lambda>x (m', \<sigma>'). x = [1, 2, 3, 4, 5, 6, 7, 8] \<and> idle example_view 0 m')"
proof -
  have "distinct (remote_of example_view (example_globals False False 0) 0x1010 1 8)"
    "distinct (range_at (vmap example_view 0) 0x3000 8)"
    "distinct (range_at (vmap example_view 0) 0x3010 8)"
    "symmetric (example_globals False False 0) 0x1010 1 8" by code_simp+
  moreover have "(shmem_long_p, shmem_long_g, 8) \<in> set elemental_routines"
    by (simp add: elemental_routines_def)
  ultimately show ?thesis
    by (intro ends_mono [OF elemental_roundtrip [where p = shmem_long_p and q = shmem_long_g and n = 8]])
      (auto split: prod.splits)
qed

section \<open>The element types of the block routines\<close>

text \<open>The block routines and the sizes of their elements in the C types of the interface\<close>

definition block_routines :: "(block_transfer \<times> block_transfer \<times> nat) list" where
  "block_routines =
     [(shmem_float_put, shmem_float_get, 4), (shmem_double_put, shmem_double_get, 8),
      (shmem_longdouble_put, shmem_longdouble_get, 16), (shmem_char_put, shmem_char_get, 1),
      (shmem_short_put, shmem_short_get, 2), (shmem_int_put, shmem_int_get, 4),
      (shmem_long_put, shmem_long_get, 8), (shmem_longlong_put, shmem_longlong_get, 8),
      (shmem_putmem, shmem_getmem, 1), (shmem_put32, shmem_get32, 4), (shmem_put64, shmem_get64, 8),
      (shmem_put128, shmem_get128, 16), (shmem_complexf_put, shmem_complexf_get, 8),
      (shmem_complexd_put, shmem_complexd_get, 16)]"

lemma block_routines_types:
  assumes "(put, get, n) \<in> set block_routines"
  obtains ty where "predef_size ty = n" "0 < n" "put = (\<lambda>g. oshmpi_put g ty)" "get = (\<lambda>g. oshmpi_get g ty)"
proof -
  have d: "(\<lambda>g. oshmpi_put g MPI_FLOAT) = shmem_float_put" "(\<lambda>g. oshmpi_get g MPI_FLOAT) = shmem_float_get"
    "(\<lambda>g. oshmpi_put g MPI_DOUBLE) = shmem_double_put" "(\<lambda>g. oshmpi_get g MPI_DOUBLE) = shmem_double_get"
    "(\<lambda>g. oshmpi_put g MPI_LONG_DOUBLE) = shmem_longdouble_put" "(\<lambda>g. oshmpi_get g MPI_LONG_DOUBLE) = shmem_longdouble_get"
    "(\<lambda>g. oshmpi_put g MPI_CHAR) = shmem_char_put" "(\<lambda>g. oshmpi_get g MPI_CHAR) = shmem_char_get"
    "(\<lambda>g. oshmpi_put g MPI_SHORT) = shmem_short_put" "(\<lambda>g. oshmpi_get g MPI_SHORT) = shmem_short_get"
    "(\<lambda>g. oshmpi_put g MPI_INT) = shmem_int_put" "(\<lambda>g. oshmpi_get g MPI_INT) = shmem_int_get"
    "(\<lambda>g. oshmpi_put g MPI_LONG) = shmem_long_put" "(\<lambda>g. oshmpi_get g MPI_LONG) = shmem_long_get"
    "(\<lambda>g. oshmpi_put g MPI_LONG_LONG) = shmem_longlong_put" "(\<lambda>g. oshmpi_get g MPI_LONG_LONG) = shmem_longlong_get"
    "(\<lambda>g. oshmpi_put g MPI_BYTE) = shmem_putmem" "(\<lambda>g. oshmpi_get g MPI_BYTE) = shmem_getmem"
    "(\<lambda>g. oshmpi_put g MPI_INT32_T) = shmem_put32" "(\<lambda>g. oshmpi_get g MPI_INT32_T) = shmem_get32"
    "(\<lambda>g. oshmpi_put g MPI_DOUBLE) = shmem_put64" "(\<lambda>g. oshmpi_get g MPI_DOUBLE) = shmem_get64"
    "(\<lambda>g. oshmpi_put g MPI_C_DOUBLE_COMPLEX) = shmem_put128" "(\<lambda>g. oshmpi_get g MPI_C_DOUBLE_COMPLEX) = shmem_get128"
    "(\<lambda>g. oshmpi_put g MPI_COMPLEX) = shmem_complexf_put" "(\<lambda>g. oshmpi_get g MPI_COMPLEX) = shmem_complexf_get"
    "(\<lambda>g. oshmpi_put g MPI_DOUBLE_COMPLEX) = shmem_complexd_put" "(\<lambda>g. oshmpi_get g MPI_DOUBLE_COMPLEX) = shmem_complexd_get"
    by (simp_all add: fun_eq_iff shmem_float_put_def shmem_float_get_def shmem_double_put_def shmem_double_get_def
        shmem_longdouble_put_def shmem_longdouble_get_def shmem_char_put_def shmem_char_get_def
        shmem_short_put_def shmem_short_get_def shmem_int_put_def shmem_int_get_def shmem_long_put_def
        shmem_long_get_def shmem_longlong_put_def shmem_longlong_get_def shmem_putmem_def shmem_getmem_def
        shmem_put32_def shmem_get32_def shmem_put64_def shmem_get64_def shmem_put128_def shmem_get128_def
        shmem_complexf_put_def shmem_complexf_get_def shmem_complexd_put_def shmem_complexd_get_def)
  from assms have "\<exists>ty. predef_size ty = n \<and> 0 < n \<and> put = (\<lambda>g. oshmpi_put g ty) \<and> get = (\<lambda>g. oshmpi_get g ty)"
    unfolding block_routines_def set_simps
    by (elim insertE emptyE; elim Pair_inject; hypsubst; insert d; metis predef_size.simps zero_less_numeral zero_less_one)
  then show thesis using that by blast
qed

text \<open>
  C36: Every block routine moves elements of its own C type: \<open>shmem_T_put\<close> followed by a quiet copies
  \<open>len * sizeof(T)\<close> bytes to the other PE and \<open>shmem_T_get\<close> as many back, and nothing else changes.
\<close>

theorem block_routines_move_their_elements:
  assumes "(put, get, n) \<in> set block_routines" "environment V mpi g r" "unat len * n < 2 ^ 61"
    "symmetric g x pe (unat len * n)" "idle V r m"
  shows "ends (world V mpi r) (pseq (put g x local len pe) (shmem_quiet g)) (m, \<sigma>)
      (\<lambda>_ (m', \<sigma>'). idle V r m' \<and>
         \<sigma>' = apply_writes (zip (remote_of V g x pe (unat len * n))
                             (map \<sigma> (range_at (vmap V r) local (unat len * n)))) \<sigma>)
    \<and> ends (world V mpi r) (get g local x len pe) (m, \<sigma>)
      (\<lambda>_ (m', \<sigma>'). idle V r m' \<and>
         \<sigma>' = apply_writes (zip (range_at (vmap V r) local (unat len * n))
                             (map \<sigma> (remote_of V g x pe (unat len * n)))) \<sigma>)"
proof -
  obtain ty where ty: "predef_size ty = n" "0 < n" "put = (\<lambda>g. oshmpi_put g ty)" "get = (\<lambda>g. oshmpi_get g ty)"
    using block_routines_types [OF assms(1)] .
  have "int (unat len * n) < int (2 ^ 61)" using assms(3) by (simp only: of_nat_less_iff)
  then have f: "fits len ty" using ty(1,2) by (simp add: fits_def predefined_def)
  have n: "unat len * n = nbytes len ty" by (simp add: nbytes_def ty(1))
  show ?thesis
    unfolding ty(3,4) n
    using put_and_quiet [OF assms(2) f _ assms(5)] get_returns [OF assms(2) f _ assms(5)] assms(4)
    by (simp add: n)
qed

theorem block_routines_move_their_elements_witness:
  "ends (world example_view (example_mpi True) 0)
     (shmem_double_get (example_globals True False 0) 0x3000 0x1010 2 1) (example_start, example_store)
     (\<lambda>_ (m', \<sigma>'). idle example_view 0 m' \<and>
        \<sigma>' = apply_writes (zip (range_at (vmap example_view 0) 0x3000 16)
               (map example_store (remote_of example_view (example_globals True False 0) 0x1010 1 16))) example_store)"
proof -
  have "(shmem_double_put, shmem_double_get, 8) \<in> set block_routines" by (simp add: block_routines_def)
  moreover have "symmetric (example_globals True False 0) 0x1010 1 (unat (2 :: size_t) * 8)" by code_simp
  ultimately show ?thesis
    using block_routines_move_their_elements [where put = shmem_double_put and get = shmem_double_get
        and n = 8 and V = example_view and mpi = "example_mpi True" and r = 0 and len = 2 and pe = 1
        and g = "example_globals True False 0" and x = "0x1010" and m = example_start]
    by simp
qed

end
