(* ===== verification/Extensions.thy ===== *)
theory Extensions
  imports Transfer_Api Atomics_Api
begin

text \<open>
  The two optional extensions: puts that count their arrivals (\<open>src/src/shmemx-counting-put.c\<close>)
  and the strided transfers behind the ARMCI interface (\<open>src/src/shmemx-armci-strided.c\<close>). Both
  files test their build option before any header that could define it. A counter is a \<open>long\<close>
  in the symmetric heap; its allocation is in \<open>Heap_Api\<close>.
\<close>

section \<open>Counting puts\<close>

definition ct_offset :: "globals \<Rightarrow> addr \<Rightarrow> int" where
  "ct_offset g ct = ptrdiff ct (shmem_sheap_base_ptr g)"

definition ct_smp :: "globals \<Rightarrow> bool" where
  "ct_smp g \<longleftrightarrow> ENABLE_SMP_OPTIMIZATIONS (conf g) \<and> shmem_world_is_smp g"

definition shmemx_ct_get :: "globals \<Rightarrow> addr \<Rightarrow> int shm" where
  "shmemx_ct_get g ct =
     (if ct_smp g
      then pbind (call_val (Mem (Sync_fetch_and_add ct 8 0))) (\<lambda>x. Return (as_long x))
      else let win_offset = ct_offset g ct in
           pbind (call_val (Rma (MPI_Fetch_and_op None MPI_LONG (shmem_world_rank g) win_offset MPI_NO_OP
                                   Shmem_sheap_win)))
             (\<lambda>output. pseq (call (Rma (MPI_Win_flush_local (shmem_world_rank g) Shmem_sheap_win)))
                (Return (as_long output))))"

definition shmemx_ct_set :: "globals \<Rightarrow> addr \<Rightarrow> int \<Rightarrow> unit shm" where
  "shmemx_ct_set g ct v =
     (if ct_smp g
      then pbind (call_val (Mem (Sync_lock_test_and_set ct 8 (word_of_int v)))) (\<lambda>_. Return ())
      else let win_offset = ct_offset g ct in
           pbind (call_val (Rma (MPI_Fetch_and_op (Some (word_of_int v)) MPI_LONG (shmem_world_rank g)
                                   win_offset MPI_REPLACE Shmem_sheap_win)))
             (\<lambda>_. call (Rma (MPI_Win_flush (shmem_world_rank g) Shmem_sheap_win))))"

text \<open>\<open>fuel\<close> bounds the number of reads; \<open>False\<close> when it is used up.\<close>

fun shmemx_ct_wait :: "nat \<Rightarrow> globals \<Rightarrow> addr \<Rightarrow> int \<Rightarrow> bool shm" where
  "shmemx_ct_wait 0 g ct wait_for = Return False"
| "shmemx_ct_wait (Suc fuel) g ct wait_for =
     pbind (shmemx_ct_get g ct)
       (\<lambda>v. if wait_for \<noteq> v then shmemx_ct_wait fuel g ct wait_for else Return True)"

definition shmemx_putmem_ct :: "globals \<Rightarrow> addr \<Rightarrow> addr \<Rightarrow> addr \<Rightarrow> size_t \<Rightarrow> int \<Rightarrow> unit shm" where
  "shmemx_putmem_ct g ct target source len pe =
     pseq (shmem_putmem g target source len pe)
     (pseq (oshmpi_remote_sync_pe pe)
     (shmem_long_add g ct 1 pe))"

section \<open>Strided transfers for ARMCI\<close>

definition oshmpix_put_strided_2d :: "globals \<Rightarrow> mpi_type \<Rightarrow> addr \<Rightarrow> addr \<Rightarrow> int \<Rightarrow> int \<Rightarrow> size_t \<Rightarrow> int \<Rightarrow> unit shm" where
  "oshmpix_put_strided_2d g mpi_type target source target_ptrdiff source_ptrdiff len pe =
     (if \<not> len < word_of_int INT32_MAX
      then oshmpi_abort (c_int (uint len mod INT32_MAX))
             ''oshmpix_put_strided_2d: count exceeds the range of a 32b integer''
      else case oshmpi_window_offset g target pe of (ret, win_id, win_offset) \<Rightarrow>
      if ret \<noteq> 0 then oshmpi_abort pe ''oshmpi_window_offset failed to find iput target''
      else let win = win_of win_id in
      pseq (passert (stride_ok target_ptrdiff) ''target_ptrdiff'')
      (pseq (passert (stride_ok source_ptrdiff) ''source_ptrdiff'')
      (let target_stride = c_int target_ptrdiff; source_stride = c_int source_ptrdiff in
       pbind (call_type (Ty (MPI_Type_vector (uint len) 1 source_stride mpi_type))) (\<lambda>source_type.
       pseq (call (Ty (MPI_Type_commit source_type)))
       (pbind (if target_stride \<noteq> source_stride
               then pbind (call_type (Ty (MPI_Type_vector (uint len) 1 target_stride mpi_type)))
                      (\<lambda>target_type. pseq (call (Ty (MPI_Type_commit target_type))) (Return target_type))
               else Return source_type) (\<lambda>target_type.
       pseq (if ENABLE_RMA_ORDERING (conf g)
             then call (Rma (MPI_Accumulate (Buf source) 1 source_type pe win_offset 1 target_type
                               MPI_REPLACE win))
             else call (Rma (MPI_Put source 1 source_type pe win_offset 1 target_type win)))
       (pseq (call (Rma (MPI_Win_flush_local pe win)))
       (pseq (pwhen (target_stride \<noteq> source_stride) (call (Ty (MPI_Type_free target_type))))
       (call (Ty (MPI_Type_free source_type)))))))))))"

definition oshmpix_get_strided_2d :: "globals \<Rightarrow> mpi_type \<Rightarrow> addr \<Rightarrow> addr \<Rightarrow> int \<Rightarrow> int \<Rightarrow> size_t \<Rightarrow> int \<Rightarrow> unit shm" where
  "oshmpix_get_strided_2d g mpi_type target source target_ptrdiff source_ptrdiff len pe =
     (if \<not> len < word_of_int INT32_MAX
      then oshmpi_abort (c_int (uint len mod INT32_MAX))
             ''oshmpix_get_strided_2d: count exceeds the range of a 32b integer''
      else case oshmpi_window_offset g source pe of (ret, win_id, win_offset) \<Rightarrow>
      if ret \<noteq> 0 then oshmpi_abort pe ''oshmpi_window_offset failed to find iget source''
      else let win = win_of win_id in
      pseq (passert (stride_ok target_ptrdiff) ''target_ptrdiff'')
      (pseq (passert (stride_ok source_ptrdiff) ''source_ptrdiff'')
      (let target_stride = c_int target_ptrdiff; source_stride = c_int source_ptrdiff in
       pbind (call_type (Ty (MPI_Type_vector (uint len) 1 source_stride mpi_type))) (\<lambda>source_type.
       pseq (call (Ty (MPI_Type_commit source_type)))
       (pbind (if target_stride \<noteq> source_stride
               then pbind (call_type (Ty (MPI_Type_vector (uint len) 1 target_stride mpi_type)))
                      (\<lambda>target_type. pseq (call (Ty (MPI_Type_commit target_type))) (Return target_type))
               else Return source_type) (\<lambda>target_type.
       pseq (if ENABLE_RMA_ORDERING (conf g)
             then call (Rma (MPI_Get_accumulate target 1 target_type pe win_offset 1 source_type
                               MPI_NO_OP win))
             else call (Rma (MPI_Get target 1 target_type pe win_offset 1 source_type win)))
       (pseq (call (Rma (MPI_Win_flush_local pe win)))
       (pseq (pwhen (target_stride \<noteq> source_stride) (call (Ty (MPI_Type_free target_type))))
       (call (Ty (MPI_Type_free source_type)))))))))))"

section \<open>Properties\<close>

text \<open>A synchronization with one PE, all along which the history of the window is the same.\<close>

lemma remote_sync_pe_through:
  assumes E: "environment V mpi g r" and I: "history V g r i \<sigma>\<^sub>0 xs m \<sigma>"
    and pe: "\<forall>x\<in>set xs. fst x = pe"
    and J: "\<And>m' \<sigma>'. history V g r i \<sigma>\<^sub>0 xs m' \<sigma>' \<Longrightarrow> J (m', \<sigma>')"
  shows "through (world V mpi r) (oshmpi_remote_sync_pe pe) (m, \<sigma>) J
     (\<lambda>_ (m', \<sigma>'). idle V r m' \<and> (\<exists>ys. legal_order xs ys \<and> \<sigma>' = apply_ops ys \<sigma>\<^sub>0))"
proof -
  note flush = rma_lawsD(7) [OF environmentD(1) [OF E]]
  have "through (world V mpi r) (oshmpi_remote_sync_pe pe) (m, \<sigma>) J (\<lambda>_ _. True)"
    unfolding oshmpi_remote_sync_pe_def
    apply (rule through_then, simp, rule J [OF I])
    apply (rule ends_complete [OF flush])
    apply (drule history_flush [OF I, rotated], assumption, simp)
    apply (rule through_last, simp, erule J)
    apply (rule ends_complete [OF flush])
    apply (drule history_flush [rotated 2], assumption, assumption, simp)
    apply (simp add: J)
    done
  moreover have "progress V r (win_of i) \<sigma>\<^sub>0 xs m \<sigma>"
    and "win_of i = Shmem_sheap_win \<and> in_flight V m r Shmem_etext_win = []
       \<or> win_of i = Shmem_etext_win \<and> in_flight V m r Shmem_sheap_win = []"
    using I by (auto simp: history_def win_of_def)
  then have "ends (world V mpi r) (oshmpi_remote_sync_pe pe) (m, \<sigma>)
     (\<lambda>_ (m', \<sigma>'). idle V r m' \<and> (\<exists>ys. legal_order xs ys \<and> \<sigma>' = apply_ops ys \<sigma>\<^sub>0))"
    by (rule remote_sync_pe_ends [OF environmentD(1) [OF E] _ pe]) auto
  ultimately show ?thesis
    by (simp add: through_def)
qed

lemma putmem_ct_through:
  assumes E: "environment V mpi g r" and f: "fits len MPI_BYTE"
    and s: "symmetric g target pe (nbytes len MPI_BYTE)"
    and ct: "atomic_object g ct pe MPI_LONG" and m: "idle V r m"
    and \<sigma>1: "\<sigma>1 = apply_writes (zip (remote_of V g target pe (nbytes len MPI_BYTE))
               (map \<sigma> (range_at (vmap V r) source (nbytes len MPI_BYTE)))) \<sigma>"
    and cs: "cs = object_cells V g ct pe MPI_LONG"
  shows "through (world V mpi r) (pseq (shmemx_putmem_ct g ct target source len pe) (shmem_quiet g)) (m, \<sigma>)
     (\<lambda>s. \<forall>w. visible V r s w \<longrightarrow>
        (\<forall>c. c \<notin> set (remote_of V g target pe (nbytes len MPI_BYTE)) \<longrightarrow> w c = \<sigma> c) \<or>
        (\<forall>c. c \<notin> set cs \<longrightarrow> w c = \<sigma>1 c))
     (\<lambda>_ (m', \<sigma>'). idle V r m' \<and> \<sigma>' = write_val cs (read_val cs \<sigma>1 + 1) \<sigma>1)"
    (is "through _ _ _ ?J ?Q")
proof -
  obtain i off where l: "oshmpi_window_offset g target pe = (0, i, off)"
      "in_segment g i pe off (nbytes len MPI_BYTE)"
    and rem: "remote_of V g target pe (nbytes len MPI_BYTE)
        = remote_range V (win_of i) pe off (nbytes len MPI_BYTE)"
    using symmetricE [OF s] by blast
  obtain j coff where cl: "oshmpi_window_offset g ct pe = (0, j, coff)"
    using atomic_objectE [OF ct] by blast
  let ?x = "put_op V g r (win_of i) off (nbytes len MPI_BYTE) source pe \<sigma>"
  let ?y = "(pe, Update cs 1)"
  have x: "written (snd ?x) \<subseteq> set (remote_of V g target pe (nbytes len MPI_BYTE))"
    by (auto simp: put_op_def rem dest: set_zip_leftD)
  have seen: "w c = \<tau> c"
    if "history V g r k \<tau> ys m' \<sigma>'" "set ys \<subseteq> {z}" "visible V r (m', \<sigma>') w" "c \<notin> written (snd z)"
    for k \<tau> ys m' \<sigma>' z w c
    by (rule visible_history [OF that(1,3)]) (use that(2,4) in auto)
  have data: "?J (m', \<sigma>')" if "history V g r i \<sigma> ys m' \<sigma>'" "set ys \<subseteq> {?x}" for m' \<sigma>' ys
    using seen [OF that] x by (intro allI impI disjI1) auto
  have count: "?J (m', \<sigma>')" if "history V g r j \<sigma>1 ys m' \<sigma>'" "set ys \<subseteq> {?y}" for m' \<sigma>' ys
    using seen [OF that] by (intro allI impI disjI2) auto
  have ty: "integer_type MPI_LONG" by (simp add: integer_type_def)
  have quiet: "through (world V mpi r) (shmem_quiet g) (m', \<sigma>') ?J ?Q"
    if h: "history V g r j \<sigma>1 ([] @ [?y]) m' \<sigma>'" for m' \<sigma>'
  proof (rule through_mono [OF quiet_through [where J = ?J, OF E h]])
    show "?J (m', \<sigma>')" if "history V g r j \<sigma>1 ([] @ [?y]) m' \<sigma>'" for m' \<sigma>'
      by (rule count [OF that]) simp
  qed auto
  have add: "through (world V mpi r) (pseq (oshmpi_add g MPI_LONG ct 1 pe) (shmem_quiet g)) (m', \<sigma>1) ?J ?Q"
    if "idle V r m'" for m'
    unfolding through_pseq
  proof (rule through_mono [OF add_through [where J = ?J, OF E ct ty cl history_start [OF that]]])
    show "?J (m', \<sigma>')" if "ys \<in> {[], [] @ [(pe, Update (object_cells V g ct pe MPI_LONG) 1)]}"
      "history V g r j \<sigma>1 ys m' \<sigma>'" for m' \<sigma>' ys
      by (rule count [OF that(2)]) (use that(1) cs in auto)
    show "through (world V mpi r) (shmem_quiet g) s' ?J ?Q"
      if "case s' of (m', \<sigma>') \<Rightarrow> history V g r j \<sigma>1 ([] @ [(pe, Update (object_cells V g ct pe MPI_LONG) 1)]) m' \<sigma>'"
      for s'
      using that quiet cs by (cases s') simp
  qed
  have sync: "through (world V mpi r) (pseq (oshmpi_remote_sync_pe pe)
      (pseq (oshmpi_add g MPI_LONG ct 1 pe) (shmem_quiet g))) (m', \<sigma>') ?J ?Q"
    if h: "history V g r i \<sigma> ([] @ [?x]) m' \<sigma>'" for m' \<sigma>'
    unfolding through_pseq [of _ "oshmpi_remote_sync_pe pe"]
  proof (rule through_mono [OF remote_sync_pe_through [where J = ?J, OF E h]])
    show "\<forall>x\<in>set ([] @ [?x]). fst x = pe" by (simp add: put_op_def)
    fix a s'
    assume "case s' of (m', \<sigma>') \<Rightarrow> idle V r m' \<and> (\<exists>ys. legal_order ([] @ [?x]) ys \<and> \<sigma>' = apply_ops ys \<sigma>)"
    then obtain m2 where "s' = (m2, \<sigma>1)" "idle V r m2"
      by (auto simp: put_op_def \<sigma>1 rem)
    then show "through (world V mpi r) (pseq (oshmpi_add g MPI_LONG ct 1 pe) (shmem_quiet g)) s' ?J ?Q"
      using add by simp
  next
    show "?J (m', \<sigma>')" if "history V g r i \<sigma> ([] @ [?x]) m' \<sigma>'" for m' \<sigma>'
      by (rule data [OF that]) simp
  qed
  have "through (world V mpi r) (pseq (oshmpi_put g MPI_BYTE target source len pe)
      (pseq (oshmpi_remote_sync_pe pe) (pseq (oshmpi_add g MPI_LONG ct 1 pe) (shmem_quiet g)))) (m, \<sigma>) ?J ?Q"
    unfolding through_pseq [of _ "oshmpi_put g MPI_BYTE target source len pe"]
  proof (rule through_mono [OF put_through [where J = ?J, OF E f l history_start [OF m]]])
    show "?J (m', \<sigma>')" if "ys \<in> {[], [] @ [?x]}" "history V g r i \<sigma> ys m' \<sigma>'" for m' \<sigma>' ys
      by (rule data [OF that(2)]) (use that(1) in auto)
    show "through (world V mpi r) (pseq (oshmpi_remote_sync_pe pe)
        (pseq (oshmpi_add g MPI_LONG ct 1 pe) (shmem_quiet g))) s' ?J ?Q"
      if "case s' of (m', \<sigma>') \<Rightarrow> history V g r i \<sigma> ([] @ [?x]) m' \<sigma>'" for s'
      using that sync by (cases s') simp
  qed
  then show ?thesis
    by (simp add: shmemx_putmem_ct_def shmem_putmem_def shmem_long_add_def)
qed

text \<open>
  C27: a counting put counts what has arrived. At every moment of \<open>shmemx_putmem_ct\<close> and the
  quiet behind it, whatever another PE may see in memory, either nothing but the target has
  changed, so the counter has its old value, or the data are complete; at the end the target
  holds the source bytes and the counter is one higher.
\<close>

theorem counting_put_counts_arrivals:
  assumes "environment V mpi g r" "fits len MPI_BYTE" "symmetric g target pe (nbytes len MPI_BYTE)"
    and "atomic_object g ct pe MPI_LONG" "idle V r m"
    and "\<sigma>1 = apply_writes (zip (remote_of V g target pe (nbytes len MPI_BYTE))
           (map \<sigma> (range_at (vmap V r) source (nbytes len MPI_BYTE)))) \<sigma>"
    and "cs = object_cells V g ct pe MPI_LONG"
  shows "along (world V mpi r) (pseq (shmemx_putmem_ct g ct target source len pe) (shmem_quiet g)) (m, \<sigma>)
       (\<lambda>s. \<forall>w. visible V r s w \<longrightarrow>
          (\<forall>c. c \<notin> set (remote_of V g target pe (nbytes len MPI_BYTE)) \<longrightarrow> w c = \<sigma> c) \<or>
          (\<forall>c. c \<notin> set cs \<longrightarrow> w c = \<sigma>1 c)) \<and>
     ends (world V mpi r) (pseq (shmemx_putmem_ct g ct target source len pe) (shmem_quiet g)) (m, \<sigma>)
       (\<lambda>_ (m', \<sigma>'). idle V r m' \<and> \<sigma>' = write_val cs (read_val cs \<sigma>1 + 1) \<sigma>1)"
  using putmem_ct_through [OF assms] by (simp only: through_def)

theorem counting_put_counts_arrivals_witness:
  "ends (world example_view (example_mpi True) 0)
     (pseq (shmemx_putmem_ct (example_globals False False 0) 0x1020 0x1010 0x3000 8 1)
       (shmem_quiet (example_globals False False 0))) (example_start, example_store)
     (\<lambda>_ (m', \<sigma>'). idle example_view 0 m')"
proof -
  have s: "symmetric (example_globals False False 0) 0x1010 1 (nbytes 8 MPI_BYTE)"
    "atomic_object (example_globals False False 0) 0x1020 1 MPI_LONG"
    by (simp_all add: symmetric_def atomic_object_def oshmpi_window_offset_def Let_def ptrdiff_def
        example_globals_def win_size_def nbytes_def predefined_def)
  have f: "fits 8 MPI_BYTE" by (simp add: fits_def predefined_def)
  show ?thesis
    by (rule ends_mono [OF conjunct2 [OF counting_put_counts_arrivals
          [OF example_environment f s example_idle refl refl]]]) auto
qed

text \<open>
  The two-dimensional strided transfers of the ARMCI extension are the library's strided
  transfers: on every count below INT32_MAX they make the same calls and return the same.
\<close>

lemma armci_strided_same:
  assumes "len < word_of_int INT32_MAX"
  shows "oshmpix_put_strided_2d g ty target source tst sst len pe = oshmpi_put_strided g ty target source tst sst len pe
    \<and> oshmpix_get_strided_2d g ty target source tst sst len pe = oshmpi_get_strided g ty target source tst sst len pe"
  using assms
  by (cases "c_int tst = c_int sst"; cases "oshmpi_window_offset g target pe";
      cases "oshmpi_window_offset g source pe")
    (simp_all add: oshmpix_put_strided_2d_def oshmpix_get_strided_2d_def oshmpi_put_strided_def
      oshmpi_get_strided_def strided_types_def free_strided_types_def put_call_def get_call_def Let_def)

end
