(* ===== verification/Comm_Cache.thy ===== *)
theory Comm_Cache
  imports Globals
begin

text \<open>
  Communicators for active sets: \<open>oshmpi_translate_root\<close>, \<open>oshmpi_acquire_comm\<close> and
  \<open>oshmpi_release_comm\<close> of \<open>src/src/shmem-internals.c\<close>, with the array \<open>comm_cache\<close> that
  remembers the communicator of an active set. The array is state that is passed through: a
  routine returns the new one. An empty slot holds \<open>MPI_COMM_NULL\<close>.
\<close>

section \<open>The cache\<close>

record shmem_comm_t =
  start :: int
  logs :: int
  pe_count :: int \<comment> \<open>the field \<open>size\<close>\<close>
  comm :: mpi_comm
  comm_group :: mpi_group \<comment> \<open>the field \<open>group\<close>\<close>

type_synonym cache = "shmem_comm_t list"

definition empty_slot :: shmem_comm_t where
  "empty_slot =
     \<lparr>start = -1, logs = -1, pe_count = -1, comm = MPI_COMM_NULL, comm_group = MPI_GROUP_NULL\<rparr>"

text \<open>The array \<open>oshmpi_initialize\<close> allocates.\<close>

definition initial_cache :: cache where
  "initial_cache = replicate 16 empty_slot"

definition matches :: "int \<Rightarrow> int \<Rightarrow> int \<Rightarrow> shmem_comm_t \<Rightarrow> bool" where
  "matches pe_start pe_logs pe_size e \<longleftrightarrow> pe_start = start e \<and> pe_logs = logs e \<and> pe_size = pe_count e"

text \<open>The first loop of \<open>oshmpi_acquire_comm\<close>: the first entry of the active set.\<close>

fun cache_lookup :: "cache \<Rightarrow> int \<Rightarrow> int \<Rightarrow> int \<Rightarrow> shmem_comm_t option" where
  "cache_lookup [] pe_start pe_logs pe_size = None"
| "cache_lookup (e # es) pe_start pe_logs pe_size =
     (if matches pe_start pe_logs pe_size e then Some e else cache_lookup es pe_start pe_logs pe_size)"

text \<open>The second loop: the entry goes to the first empty slot, if there is one.\<close>

fun cache_insert :: "shmem_comm_t \<Rightarrow> cache \<Rightarrow> cache option" where
  "cache_insert new [] = None"
| "cache_insert new (e # es) =
     (if comm e = MPI_COMM_NULL then Some (new # es)
      else case cache_insert new es of None \<Rightarrow> None | Some es' \<Rightarrow> Some (e # es'))"

text \<open>The loop of \<open>oshmpi_release_comm\<close>.\<close>

definition is_cached :: "cache \<Rightarrow> mpi_comm \<Rightarrow> bool" where
  "is_cached es c \<longleftrightarrow> (\<exists>e\<in>set es. comm e = c)"

section \<open>The routines\<close>

definition oshmpi_translate_root :: "mpi_group \<Rightarrow> int \<Rightarrow> int shm" where
  "oshmpi_translate_root strided_group pe_root =
     pbind (call_ints (Com (MPI_Group_translate_ranks SHMEM_GROUP_WORLD [pe_root] strided_group)))
       (\<lambda>strided_ranks. Return (strided_ranks ! 0))"

text \<open>World ranks of an active set.\<close>

definition active_set :: "int \<Rightarrow> int \<Rightarrow> int \<Rightarrow> int list" where
  "active_set pe_start pe_stride pe_size =
     map (\<lambda>i. c_int (pe_start + c_int (int i * pe_stride))) [0..<nat pe_size]"

definition is_world :: "globals \<Rightarrow> int \<Rightarrow> int \<Rightarrow> int \<Rightarrow> bool" where
  "is_world g pe_start pe_logs pe_size \<longleftrightarrow>
     pe_start = 0 \<and> pe_logs = 0 \<and> pe_size = shmem_world_size g"

text \<open>\<open>*broot\<close> keeps its value unless a root is asked for: \<open>broot\<close> is what the caller left there.\<close>

definition new_comm ::
    "globals \<Rightarrow> cache \<Rightarrow> int \<Rightarrow> int \<Rightarrow> int \<Rightarrow> int \<Rightarrow> int \<Rightarrow> (mpi_comm \<times> int \<times> cache) shm" where
  "new_comm g es pe_start pe_logs pe_size pe_root broot =
     pbind (call_addr (Env (Malloc (uint (word_of_int pe_size * 4 :: size_t))))) (\<lambda>pe_list.
     pseq (passert (pe_list \<noteq> 0) ''pe_list!=NULL'')
     (if pe_logs < 0 \<or> 31 \<le> pe_logs then Undef ''1<<pe_logs''
      else let pe_stride = 2 ^ nat pe_logs in
      pbind (call_group (Com (MPI_Group_incl SHMEM_GROUP_WORLD (active_set pe_start pe_stride pe_size))))
        (\<lambda>strided_group.
      pbind (call_comm (Com (MPI_Comm_create_group SHMEM_COMM_WORLD strided_group pe_start))) (\<lambda>c.
      pbind (if 0 \<le> pe_root then oshmpi_translate_root strided_group pe_root else Return broot)
        (\<lambda>broot'.
      case (if ENABLE_COMM_CACHING (conf g)
            then cache_insert \<lparr>start = pe_start, logs = pe_logs, pe_count = pe_size, comm = c,
                               comm_group = strided_group\<rparr> es
            else None) of
        Some es' \<Rightarrow> Return (c, broot', es')
      | None \<Rightarrow>
          pseq (call (Com (MPI_Group_free strided_group)))
          (pseq (call (Env (Free pe_list)))
          (Return (c, broot', es))))))))"

definition oshmpi_acquire_comm ::
    "globals \<Rightarrow> cache \<Rightarrow> int \<Rightarrow> int \<Rightarrow> int \<Rightarrow> int \<Rightarrow> int \<Rightarrow> (mpi_comm \<times> int \<times> cache) shm" where
  "oshmpi_acquire_comm g es pe_start pe_logs pe_size pe_root broot =
     (if is_world g pe_start pe_logs pe_size then Return (SHMEM_COMM_WORLD, pe_root, es)
      else case (if ENABLE_COMM_CACHING (conf g)
                 then cache_lookup es pe_start pe_logs pe_size else None) of
        Some e \<Rightarrow>
          pbind (if 0 \<le> pe_root then oshmpi_translate_root (comm_group e) pe_root else Return broot)
            (\<lambda>broot'. Return (comm e, broot', es))
      | None \<Rightarrow> new_comm g es pe_start pe_logs pe_size pe_root broot)"

definition oshmpi_release_comm ::
    "globals \<Rightarrow> cache \<Rightarrow> int \<Rightarrow> int \<Rightarrow> int \<Rightarrow> mpi_comm \<Rightarrow> unit shm" where
  "oshmpi_release_comm g es pe_start pe_logs pe_size c =
     (if is_world g pe_start pe_logs pe_size then Return ()
      else if ENABLE_COMM_CACHING (conf g) \<and> is_cached es c then Return ()
      else call (Com (MPI_Comm_free c)))"

section \<open>Facts about the cache\<close>

text \<open>
  The interface the collectives rely on: an insertion into a cache that has no entry of the key
  makes the key resolve to it, keeps the other keys, and keeps the entries.
\<close>

locale key_cache =
  fixes find :: "'c \<Rightarrow> 'k \<Rightarrow> 'e option"
    and add :: "'e \<Rightarrow> 'c \<Rightarrow> 'c option"
    and key :: "'e \<Rightarrow> 'k"
    and usable :: "'e \<Rightarrow> bool"
    and wf :: "'c \<Rightarrow> bool"
  assumes find_add_same:
      "wf c \<Longrightarrow> usable e \<Longrightarrow> find c (key e) = None \<Longrightarrow> add e c = Some c' \<Longrightarrow> find c' (key e) = Some e"
    and find_add_other:
      "wf c \<Longrightarrow> usable e \<Longrightarrow> add e c = Some c' \<Longrightarrow> find c k = Some e' \<Longrightarrow> usable e' \<Longrightarrow>
       k \<noteq> key e \<Longrightarrow> find c' k = Some e'"
    and wf_add: "wf c \<Longrightarrow> usable e \<Longrightarrow> find c (key e) = None \<Longrightarrow> add e c = Some c' \<Longrightarrow> wf c'"
begin

text \<open>A cache that is filled by misses only never loses or changes an entry.\<close>

fun fill :: "'e list \<Rightarrow> 'c \<Rightarrow> 'c" where
  "fill [] c = c"
| "fill (e # es) c =
     fill es (case find c (key e) of
                Some _ \<Rightarrow> c
              | None \<Rightarrow> (case add e c of Some c' \<Rightarrow> c' | None \<Rightarrow> c))"

lemma fill_keeps:
  assumes "wf c" "\<forall>e\<in>set es. usable e" "find c k = Some e'" "usable e'"
  shows "wf (fill es c) \<and> find (fill es c) k = Some e'"
  using assms
proof (induction es arbitrary: c)
  case Nil
  then show ?case by simp
next
  case (Cons e es)
  define c1 where "c1 = (case find c (key e) of
      Some _ \<Rightarrow> c | None \<Rightarrow> (case add e c of Some c' \<Rightarrow> c' | None \<Rightarrow> c))"
  have "wf c1 \<and> find c1 k = Some e'"
  proof (cases "find c (key e)")
    case None
    then have "k \<noteq> key e" using Cons.prems(3) by auto
    with None Cons.prems find_add_other [of c e _ k e'] wf_add [of c e] show ?thesis
      by (auto simp: c1_def split: option.split)
  next
    case (Some x)
    with Cons.prems show ?thesis by (simp add: c1_def)
  qed
  with Cons.IH [of c1] Cons.prems(2,4) show ?case
    by (simp add: c1_def)
qed

end

type_synonym set_key = "int \<times> int \<times> int"

definition entry_key :: "shmem_comm_t \<Rightarrow> set_key" where
  "entry_key e = (start e, logs e, pe_count e)"

definition find_comm :: "cache \<Rightarrow> set_key \<Rightarrow> shmem_comm_t option" where
  "find_comm es k = (case k of (s, l, n) \<Rightarrow> cache_lookup es s l n)"

text \<open>A real active set has at least one PE, so it never matches an empty slot.\<close>

definition real_entry :: "shmem_comm_t \<Rightarrow> bool" where
  "real_entry e \<longleftrightarrow> comm e \<noteq> MPI_COMM_NULL \<and> 0 \<le> pe_count e"

definition cache_wf :: "cache \<Rightarrow> bool" where
  "cache_wf es \<longleftrightarrow>
     (\<forall>e\<in>set es. e = empty_slot \<or> real_entry e) \<and>
     distinct (map entry_key (filter real_entry es))"

lemma find_comm_simps [simp]:
  "find_comm [] k = None"
  "find_comm (e # es) k = (if k = entry_key e then Some e else find_comm es k)"
  by (auto simp: find_comm_def matches_def entry_key_def split: prod.split)

lemma find_comm_append:
  "find_comm (xs @ ys) k = (case find_comm xs k of Some e \<Rightarrow> Some e | None \<Rightarrow> find_comm ys k)"
  by (induction xs) simp_all

lemma find_comm_None: "find_comm es k = None \<longleftrightarrow> k \<notin> entry_key ` set es"
  by (induction es) auto

lemma find_comm_Some: "find_comm es k = Some e \<Longrightarrow> e \<in> set es \<and> entry_key e = k"
  by (induction es) (auto split: if_splits)

lemma cache_insert_Some:
  "cache_insert new es = Some es' \<Longrightarrow>
     \<exists>xs x ys. es = xs @ x # ys \<and> comm x = MPI_COMM_NULL \<and> es' = xs @ new # ys"
proof (induction es arbitrary: es')
  case Nil
  then show ?case by simp
next
  case (Cons e es)
  show ?case
  proof (cases "comm e = MPI_COMM_NULL")
    case True
    with Cons.prems show ?thesis
      by (intro exI [of _ "[]"] exI [of _ e] exI [of _ es]) simp
  next
    case False
    with Cons.prems obtain es1 where "cache_insert new es = Some es1" "es' = e # es1"
      by (auto split: option.splits)
    with Cons.IH [of es1] obtain xs x ys where "es = xs @ x # ys" "comm x = MPI_COMM_NULL"
        "es1 = xs @ new # ys"
      by blast
    with \<open>es' = e # es1\<close> show ?thesis
      by (intro exI [of _ "e # xs"] exI [of _ x] exI [of _ ys]) simp
  qed
qed

lemma cache_insert_None: "cache_insert new es = None \<longleftrightarrow> MPI_COMM_NULL \<notin> comm ` set es"
  by (induction es) (auto split: option.split)

lemma cache_insert_split:
  assumes "cache_wf es" "cache_insert new es = Some es'"
  obtains xs ys where "es = xs @ empty_slot # ys" "es' = xs @ new # ys"
proof -
  obtain xs x ys where c: "es = xs @ x # ys" "comm x = MPI_COMM_NULL" "es' = xs @ new # ys"
    using cache_insert_Some [OF assms(2)] by blast
  with assms(1) have "x = empty_slot"
    by (auto simp: cache_wf_def real_entry_def)
  with c that show thesis by blast
qed

lemma empty_slot_simps [simp]:
  "\<not> real_entry empty_slot" "entry_key empty_slot = (-1, -1, -1)"
  by (simp_all add: empty_slot_def real_entry_def entry_key_def)

interpretation commc: key_cache find_comm cache_insert entry_key real_entry cache_wf
proof
  fix c c' :: cache and e :: shmem_comm_t
  assume wf: "cache_wf c" and e: "real_entry e" and none: "find_comm c (entry_key e) = None"
    and add: "cache_insert e c = Some c'"
  obtain xs ys where s: "c = xs @ empty_slot # ys" "c' = xs @ e # ys"
    using cache_insert_split [OF wf add] .
  show "find_comm c' (entry_key e) = Some e"
    using none by (simp add: s find_comm_append split: option.splits)
  show "cache_wf c'"
    using wf e none by (auto simp: cache_wf_def s find_comm_None)
next
  fix c c' :: cache and e e' :: shmem_comm_t and k
  assume wf: "cache_wf c" and "real_entry e" and add: "cache_insert e c = Some c'"
    and found: "find_comm c k = Some e'" "real_entry e'" and k: "k \<noteq> entry_key e"
  obtain xs ys where s: "c = xs @ empty_slot # ys" "c' = xs @ e # ys"
    using cache_insert_split [OF wf add] .
  show "find_comm c' k = Some e'"
    using found k by (auto simp: s find_comm_append split: option.splits if_splits)
qed

end
