(* ===== verification/Comm_Life.thy ===== *)
theory Comm_Life
  imports Comm_Cache
begin

text \<open>
  The life of communicators: across any number of collective operations the communicators that
  exist are the ones that existed before and the ones the cache holds. \<open>L\<close> reads the live
  communicators in the state of a library; \<open>comm_laws\<close> is what the MPI standard says of it.
\<close>

definition comm_neutral :: "eff \<Rightarrow> bool" where
  "comm_neutral e \<longleftrightarrow>
     (case e of
        Com (MPI_Comm_create_group c gr t) \<Rightarrow> False
      | Com (MPI_Comm_free c) \<Rightarrow> False
      | Env c \<Rightarrow> (case c of Malloc n \<Rightarrow> True | Free a \<Rightarrow> True | _ \<Rightarrow> False)
      | _ \<Rightarrow> True)"

definition create_law :: "('s \<Rightarrow> mpi_comm set) \<Rightarrow> 's mpi \<Rightarrow> bool" where
  "create_law L h \<longleftrightarrow>
     (\<forall>c gr t s. \<exists>n s'. h (Com (MPI_Comm_create_group c gr t)) s = (RComm n, s') \<and>
        n \<noteq> MPI_COMM_NULL \<and> n \<notin> L s \<and> L s' = insert n (L s))"

definition comm_laws :: "('s \<Rightarrow> mpi_comm set) \<Rightarrow> 's mpi \<Rightarrow> bool" where
  "comm_laws L h \<longleftrightarrow> create_law L h \<and>
     (\<forall>c s. L (snd (h (Com (MPI_Comm_free c)) s)) = L s - {c}) \<and>
     (\<forall>e s. comm_neutral e \<longrightarrow> L (snd (h e s)) = L s)"

lemma comm_lawsD:
  assumes "comm_laws L h"
  shows "create_law L h" "L (snd (h (Com (MPI_Comm_free c)) s)) = L s - {c}"
    "comm_neutral e \<Longrightarrow> L (snd (h e s)) = L s"
  using assms by (simp_all add: comm_laws_def)

lemma comm_laws_neutral:
  "comm_laws L h \<Longrightarrow> all_eff comm_neutral p \<Longrightarrow> L (snd (run h p s)) = L s"
  by (rule run_keeps [where P = comm_neutral]) (auto simp: comm_lawsD)

text \<open>What a cache holds.\<close>

definition cached_comms :: "cache \<Rightarrow> mpi_comm set" where
  "cached_comms es = comm ` {e \<in> set es. real_entry e}"

definition comms_ok :: "('s \<Rightarrow> mpi_comm set) \<Rightarrow> mpi_comm set \<Rightarrow> cache \<Rightarrow> 's \<Rightarrow> bool" where
  "comms_ok L base es s \<longleftrightarrow>
     cache_wf es \<and> L s = base \<union> cached_comms es \<and> base \<inter> cached_comms es = {} \<and>
     inj_on comm {e \<in> set es. real_entry e}"

lemma real_of_wf: "cache_wf es \<Longrightarrow> e \<in> set es \<Longrightarrow> comm e \<noteq> MPI_COMM_NULL \<Longrightarrow> real_entry e"
  by (auto simp: cache_wf_def empty_slot_def)

lemma is_cached_iff:
  "cache_wf es \<Longrightarrow> c \<noteq> MPI_COMM_NULL \<Longrightarrow> is_cached es c \<longleftrightarrow> c \<in> cached_comms es"
  by (auto simp: is_cached_def cached_comms_def dest: real_of_wf)

lemma real_insert:
  assumes "cache_wf es" "cache_insert new es = Some es'" "real_entry new"
  shows "{e \<in> set es'. real_entry e} = insert new {e \<in> set es. real_entry e}"
proof -
  obtain xs ys where "es = xs @ empty_slot # ys" "es' = xs @ new # ys"
    using cache_insert_split [OF assms(1,2)] .
  with assms(3) show ?thesis by auto
qed

lemma cached_comms_insert:
  assumes "cache_wf es" "cache_insert new es = Some es'" "real_entry new"
  shows "cached_comms es' = insert (comm new) (cached_comms es)"
  by (simp add: cached_comms_def real_insert [OF assms])

lemma inj_insert:
  assumes "cache_wf es" "cache_insert new es = Some es'" "real_entry new"
    and "inj_on comm {e \<in> set es. real_entry e}" "comm new \<notin> cached_comms es"
  shows "inj_on comm {e \<in> set es'. real_entry e}"
  using assms(4,5) unfolding real_insert [OF assms(1-3)] cached_comms_def by auto

text \<open>
  What an active set is bound to between the two calls: the world, a cached communicator, or a
  communicator of its own that is not in the cache.
\<close>

definition bound ::
    "globals \<Rightarrow> ('s \<Rightarrow> mpi_comm set) \<Rightarrow> mpi_comm set \<Rightarrow> cache \<Rightarrow> int \<Rightarrow> int \<Rightarrow> int \<Rightarrow> mpi_comm \<Rightarrow> 's \<Rightarrow> bool"
  where
  "bound g L base es pe_start pe_logs pe_size c s \<longleftrightarrow>
     (if is_world g pe_start pe_logs pe_size then c = SHMEM_COMM_WORLD \<and> comms_ok L base es s
      else if ENABLE_COMM_CACHING (conf g) \<and> c \<in> cached_comms es
      then c \<noteq> MPI_COMM_NULL \<and> comms_ok L base es s
      else c \<noteq> MPI_COMM_NULL \<and> c \<notin> base \<union> cached_comms es \<and> cache_wf es \<and>
           inj_on comm {e \<in> set es. real_entry e} \<and> base \<inter> cached_comms es = {} \<and>
           L s = insert c (base \<union> cached_comms es))"

lemma yields_neutral:
  assumes "comm_laws L h" "all_eff comm_neutral p" "\<And>a s'. L s' = L s \<Longrightarrow> Q a s'"
  shows "yields h p s Q"
  unfolding yields_def
proof (intro allI impI assms(3))
  fix a s'
  assume "run h p s = (Done a, s')"
  with comm_laws_neutral [OF assms(1,2), of s] show "L s' = L s" by simp
qed

lemma yields_create:
  assumes "comm_laws L h"
    and "\<And>n s'. n \<noteq> MPI_COMM_NULL \<Longrightarrow> n \<notin> L s \<Longrightarrow> L s' = insert n (L s) \<Longrightarrow> Q n s'"
  shows "yields h (call_comm (Com (MPI_Comm_create_group c gr t))) s Q"
proof -
  from comm_lawsD(1) [OF assms(1), unfolded create_law_def, rule_format, of c gr t s]
  obtain n s' where n: "h (Com (MPI_Comm_create_group c gr t)) s = (RComm n, s')"
      "n \<noteq> MPI_COMM_NULL" "n \<notin> L s" "L s' = insert n (L s)"
    by (elim exE conjE)
  have "Q n s'"
    by (rule assms(2) [OF n(2-4)])
  with n(1) show ?thesis
    by (simp add: call_comm_def yields_Eff)
qed

lemma yields_free:
  assumes "comm_laws L h" "\<And>s'. L s' = L s - {c} \<Longrightarrow> Q () s'"
  shows "yields h (call (Com (MPI_Comm_free c))) s Q"
proof -
  have "Q () (snd (h (Com (MPI_Comm_free c)) s))"
    by (rule assms(2)) (rule comm_lawsD(2) [OF assms(1)])
  then show ?thesis
    by (cases "h (Com (MPI_Comm_free c)) s") (simp add: call_def yields_Eff)
qed

lemma translate_neutral [simp]: "all_eff comm_neutral (oshmpi_translate_root gr r)"
  by (simp add: oshmpi_translate_root_def all_eff_pbind comm_neutral_def)

lemma bound_fresh:
  assumes ok: "comms_ok L base es s" and w: "\<not> is_world g pe_start pe_logs pe_size"
    and c: "c \<noteq> MPI_COMM_NULL" "c \<notin> L s" "L s' = insert c (L s)"
  shows "bound g L base es pe_start pe_logs pe_size c s'"
  using assms by (auto simp: bound_def comms_ok_def)

lemma bound_cached:
  assumes ok: "comms_ok L base es s" and w: "\<not> is_world g pe_start pe_logs pe_size"
    and c: "c \<noteq> MPI_COMM_NULL" "c \<notin> L s" "L s' = insert c (L s)"
    and n: "0 \<le> pe_size" and miss: "cache_lookup es pe_start pe_logs pe_size = None"
    and e: "cache_insert \<lparr>start = pe_start, logs = pe_logs, pe_count = pe_size, comm = c,
              comm_group = gr\<rparr> es = Some es'" "ENABLE_COMM_CACHING (conf g)"
  shows "bound g L base es' pe_start pe_logs pe_size c s'"
proof -
  let ?e = "\<lparr>start = pe_start, logs = pe_logs, pe_count = pe_size, comm = c, comm_group = gr\<rparr>"
  have real: "real_entry ?e" and key: "entry_key ?e = (pe_start, pe_logs, pe_size)"
    using c n by (simp_all add: real_entry_def entry_key_def)
  have wf: "cache_wf es" and out: "c \<notin> cached_comms es"
    using ok c(2) by (auto simp: comms_ok_def)
  have "find_comm es (entry_key ?e) = None"
    using miss by (simp add: key find_comm_def)
  then have "cache_wf es'"
    by (rule commc.wf_add [OF wf real _ e(1)])
  moreover have "cached_comms es' = insert c (cached_comms es)"
    using cached_comms_insert [OF wf e(1) real] by simp
  moreover have "inj_on comm {x \<in> set es'. real_entry x}"
    using inj_insert [OF wf e(1) real] ok out by (simp add: comms_ok_def)
  ultimately show ?thesis
    using ok w c e(2) by (auto simp: bound_def comms_ok_def)
qed

lemma new_comm_binds:
  assumes C: "comm_laws L h" and ok: "comms_ok L base es s" and n: "0 \<le> pe_size"
    and w: "\<not> is_world g pe_start pe_logs pe_size"
    and miss: "ENABLE_COMM_CACHING (conf g) \<longrightarrow> cache_lookup es pe_start pe_logs pe_size = None"
  shows "yields h (new_comm g es pe_start pe_logs pe_size pe_root broot) s
     (\<lambda>(c, b, es') s'. bound g L base es' pe_start pe_logs pe_size c s')"
proof -
  have tail: "yields h (case (if ENABLE_COMM_CACHING (conf g)
            then cache_insert \<lparr>start = pe_start, logs = pe_logs, pe_count = pe_size, comm = c,
                               comm_group = gr\<rparr> es else None) of
        Some es' \<Rightarrow> Return (c, broot', es')
      | None \<Rightarrow> pseq (call (Com (MPI_Group_free gr))) (pseq (call (Env (Free a)))
          (Return (c, broot', es)))) s2
     (\<lambda>(c, b, es') s'. bound g L base es' pe_start pe_logs pe_size c s')"
    if c: "c \<noteq> MPI_COMM_NULL" "c \<notin> L s" "L s2 = insert c (L s)" for c gr broot' a s2
  proof (cases "if ENABLE_COMM_CACHING (conf g)
            then cache_insert \<lparr>start = pe_start, logs = pe_logs, pe_count = pe_size, comm = c,
                               comm_group = gr\<rparr> es else None")
    case None
    show ?thesis
      unfolding None option.case yields_pseq
      apply (rule yields_neutral [OF C], simp add: comm_neutral_def)
      apply (rule yields_neutral [OF C], simp add: comm_neutral_def)
      apply (simp, rule bound_fresh [OF ok w c(1,2)])
      apply (simp add: c(3))
      done
  next
    case (Some es')
    then show ?thesis
      using bound_cached [OF ok w c n, of gr es'] miss by (simp split: if_splits)
  qed
  show ?thesis
    unfolding new_comm_def Let_def yields_pbind yields_pseq
    apply (rule yields_neutral [OF C], simp add: comm_neutral_def)
    apply (rule yields_neutral [OF C], simp)
    apply (simp split: if_split, intro impI)
    apply (subst yields_pbind)
    apply (rule yields_neutral [OF C], simp add: comm_neutral_def)
    apply (subst yields_pbind)
    apply (rule yields_create [OF C])
    apply (subst yields_pbind)
    apply (rule yields_neutral [OF C], simp)
    apply (rule tail)
      apply simp_all
    done
qed

text \<open>Acquiring binds the active set; releasing it restores the invariant of the cache.\<close>

lemma acquire_binds:
  assumes C: "comm_laws L h" and ok: "comms_ok L base es s" and n: "0 \<le> pe_size"
  shows "yields h (oshmpi_acquire_comm g es pe_start pe_logs pe_size pe_root broot) s
     (\<lambda>(c, b, es') s'. bound g L base es' pe_start pe_logs pe_size c s')"
proof (cases "is_world g pe_start pe_logs pe_size")
  case True
  then show ?thesis
    using ok by (simp add: oshmpi_acquire_comm_def bound_def)
next
  case False
  show ?thesis
  proof (cases "if ENABLE_COMM_CACHING (conf g) then cache_lookup es pe_start pe_logs pe_size else None")
    case None
    with False show ?thesis
      using new_comm_binds [OF C ok n False] by (simp add: oshmpi_acquire_comm_def split: if_splits)
  next
    case (Some e)
    then have e: "find_comm es (pe_start, pe_logs, pe_size) = Some e" "ENABLE_COMM_CACHING (conf g)"
      by (simp_all add: find_comm_def split: if_splits)
    have "e \<in> set es" "pe_count e = pe_size"
      using find_comm_Some [OF e(1)] by (auto simp: entry_key_def)
    moreover have "cache_wf es"
      using ok by (simp add: comms_ok_def)
    ultimately have real: "real_entry e"
      using n by (auto simp: cache_wf_def empty_slot_def)
    with \<open>e \<in> set es\<close> have c: "comm e \<in> cached_comms es" "comm e \<noteq> MPI_COMM_NULL"
      by (auto simp: cached_comms_def real_entry_def)
    have b: "bound g L base es pe_start pe_logs pe_size (comm e) s'" if "L s' = L s" for s'
      using that ok c e(2) False by (simp add: bound_def comms_ok_def)
    show ?thesis
      using False Some b [of s]
      by (auto simp: oshmpi_acquire_comm_def yields_pbind intro!: yields_neutral [OF C] b)
  qed
qed

lemma release_restores:
  assumes C: "comm_laws L h" and b: "bound g L base es pe_start pe_logs pe_size c s"
  shows "yields h (oshmpi_release_comm g es pe_start pe_logs pe_size c) s
     (\<lambda>_ s'. comms_ok L base es s')"
proof (cases "is_world g pe_start pe_logs pe_size \<or> ENABLE_COMM_CACHING (conf g) \<and> c \<in> cached_comms es")
  case True
  moreover have "c \<in> cached_comms es \<Longrightarrow> is_cached es c"
    by (auto simp: is_cached_def cached_comms_def)
  ultimately show ?thesis
    using b by (auto simp: oshmpi_release_comm_def bound_def)
next
  case False
  with b have c: "c \<noteq> MPI_COMM_NULL" "c \<notin> base \<union> cached_comms es" "cache_wf es"
      "inj_on comm {e \<in> set es. real_entry e}" "base \<inter> cached_comms es = {}"
      "L s = insert c (base \<union> cached_comms es)"
    by (simp_all add: bound_def split: if_splits)
  have "\<not> is_cached es c"
    using is_cached_iff [OF c(3,1)] c(2) by simp
  with False show ?thesis
    apply (simp add: oshmpi_release_comm_def)
    apply (rule yields_free [OF C])
    apply (use c in \<open>auto simp: comms_ok_def\<close>)
    done
qed

end
