(* ===== verification/Coll.thy ===== *)
theory Coll
  imports Comm_Life Example_World
begin

text \<open>
  The collective engine \<open>oshmpi_coll\<close> of \<open>src/src/shmem-internals.c\<close>: it binds the active set to
  a communicator, chooses the count and the datatype, issues the MPI collective and releases
  what it acquired. The communicator cache is passed through.
\<close>

section \<open>The engine\<close>

datatype (plugins only: code size) shmem_coll_type =
    SHMEM_BARRIER | SHMEM_BROADCAST | SHMEM_ALLREDUCE | SHMEM_FCOLLECT | SHMEM_COLLECT
  | Coll_type int \<comment> \<open>any other value of the enum\<close>

text \<open>The loop over \<open>rdispls\<close>, from displacement \<open>d\<close>.\<close>

fun displacements :: "int \<Rightarrow> int list \<Rightarrow> int list" where
  "displacements d [] = []"
| "displacements d (c # cs) = d # displacements (c_int (d + c)) cs"

definition collect_call ::
    "addr \<Rightarrow> addr \<Rightarrow> int \<Rightarrow> mpi_type \<Rightarrow> int \<Rightarrow> mpi_comm \<Rightarrow> unit shm" where
  "collect_call target source cnt tmp_type pe_size c =
     (let bytes = uint (word_of_int pe_size * 4 :: size_t) in
      pbind (call_addr (Env (Malloc bytes))) (\<lambda>rcounts_ptr.
      pseq (passert (rcounts_ptr \<noteq> 0) ''rcounts!=NULL'')
      (pbind (call_addr (Env (Malloc bytes))) (\<lambda>rdispls_ptr.
      pseq (passert (rdispls_ptr \<noteq> 0) ''rdispls!=NULL'')
      (pbind (call_ints (Com (MPI_Allgather_int cnt c))) (\<lambda>rcounts.
      if pe_size < 1 then Undef ''rdispls[0] of an empty array''
      else let rdispls = displacements 0 (take (nat pe_size) rcounts) in
      pseq (call (Com (MPI_Allgatherv source cnt tmp_type target rcounts rdispls tmp_type c)))
      (pseq (call (Env (Free rdispls_ptr)))
      (call (Env (Free rcounts_ptr))))))))))"

definition coll_call ::
    "globals \<Rightarrow> shmem_coll_type \<Rightarrow> mpi_op \<Rightarrow> addr \<Rightarrow> addr \<Rightarrow> int \<Rightarrow> mpi_type \<Rightarrow> int \<Rightarrow> int \<Rightarrow> int \<Rightarrow>
     mpi_comm \<Rightarrow> unit shm" where
  "coll_call g coll reduce_op target source cnt tmp_type pe_root broot pe_size c =
     (case coll of
        SHMEM_BARRIER \<Rightarrow> call (Com (MPI_Barrier c))
      | SHMEM_BROADCAST \<Rightarrow>
          call (Com (MPI_Bcast (if shmem_world_rank g = pe_root then source else target)
                       cnt tmp_type broot c))
      | SHMEM_FCOLLECT \<Rightarrow> call (Com (MPI_Allgather source cnt tmp_type target cnt tmp_type c))
      | SHMEM_COLLECT \<Rightarrow> collect_call target source cnt tmp_type pe_size c
      | SHMEM_ALLREDUCE \<Rightarrow>
          call (Com (MPI_Allreduce (if source = target then None else Some source) target cnt tmp_type
                       reduce_op c))
      | Coll_type n \<Rightarrow> oshmpi_abort n ''Unsupported collective type.'')"

definition oshmpi_coll ::
    "globals \<Rightarrow> cache \<Rightarrow> shmem_coll_type \<Rightarrow> mpi_type \<Rightarrow> mpi_op \<Rightarrow> addr \<Rightarrow> addr \<Rightarrow> size_t \<Rightarrow>
     int \<Rightarrow> int \<Rightarrow> int \<Rightarrow> int \<Rightarrow> cache shm" where
  "oshmpi_coll g es coll mpi_type reduce_op target source len pe_root pe_start pe_logs pe_size =
     pbind (oshmpi_acquire_comm g es pe_start pe_logs pe_size pe_root 0) (\<lambda>(c, broot, es').
     pbind (rma_count len mpi_type) (\<lambda>(cnt, tmp_type).
     pseq (coll_call g coll reduce_op target source cnt tmp_type pe_root broot pe_size c)
     (pseq (pwhen (word_of_int INT32_MAX < len) (call (Ty (MPI_Type_free tmp_type))))
     (pseq (oshmpi_release_comm g es' pe_start pe_logs pe_size c)
     (Return es')))))"

section \<open>Communicators across collectives\<close>

lemma rma_count_neutral [simp]: "all_eff comm_neutral (rma_count len ty)"
  by (auto simp: rma_count_def MPIX_Type_contiguous_x_def Let_def comm_neutral_def
      intro!: all_eff_pbind all_eff_pseq)

lemma coll_call_neutral [simp]:
  "all_eff comm_neutral (coll_call g coll op target source cnt ty root broot n c)"
  by (cases coll) (auto simp: coll_call_def collect_call_def Let_def comm_neutral_def oshmpi_abort_def
      intro!: all_eff_pbind all_eff_pseq)

lemma bound_same: "bound g L base es a b n c s \<Longrightarrow> L s' = L s \<Longrightarrow> bound g L base es a b n c s'"
  by (simp add: bound_def comms_ok_def split: if_splits)

lemma coll_keeps_comms:
  assumes C: "comm_laws L h" and ok: "comms_ok L base es s" and n: "0 \<le> pe_size"
  shows "yields h (oshmpi_coll g es coll ty oper target source len pe_root pe_start pe_logs pe_size) s
     (\<lambda>es' s'. comms_ok L base es' s')"
  unfolding oshmpi_coll_def yields_pbind
proof (rule yields_mono [OF acquire_binds [OF C ok n]], clarify)
  fix c b es' s1
  assume B: "bound g L base es' pe_start pe_logs pe_size c s1"
  have step: "yields h p s1 (\<lambda>a s2. bound g L base es' pe_start pe_logs pe_size c s2)"
    if "all_eff comm_neutral p" "bound g L base es' pe_start pe_logs pe_size c s1" for p s1
    by (rule yields_neutral [OF C that(1)]) (rule bound_same [OF that(2)])
  show "yields h (pbind (rma_count len ty) (\<lambda>(cnt, tmp_type).
     pseq (coll_call g coll oper target source cnt tmp_type pe_root b pe_size c)
     (pseq (pwhen (word_of_int INT32_MAX < len) (call (Ty (MPI_Type_free tmp_type))))
     (pseq (oshmpi_release_comm g es' pe_start pe_logs pe_size c)
     (Return es'))))) s1 (comms_ok L base)"
    unfolding yields_pbind
    apply (rule yields_mono [OF step [OF _ B]], simp)
    apply (clarsimp simp: yields_pseq)
    apply (rule yields_mono [OF step], simp, assumption)
    apply (rule yields_mono [OF step], simp add: comm_neutral_def, assumption)
    apply (rule yields_mono [OF release_restores [OF C]], assumption)
    apply simp
    done
qed

text \<open>One collective operation of a program: what is passed to \<open>oshmpi_coll\<close>.\<close>

record coll_op =
  op_kind :: shmem_coll_type
  op_type :: mpi_type
  op_reduce :: mpi_op
  op_target :: addr
  op_source :: addr
  op_len :: size_t
  op_root :: int
  op_start :: int
  op_logs :: int
  op_size :: int

definition coll_of :: "globals \<Rightarrow> cache \<Rightarrow> coll_op \<Rightarrow> cache shm" where
  "coll_of g es p =
     oshmpi_coll g es (op_kind p) (op_type p) (op_reduce p) (op_target p) (op_source p) (op_len p)
       (op_root p) (op_start p) (op_logs p) (op_size p)"

primrec colls :: "globals \<Rightarrow> coll_op list \<Rightarrow> cache \<Rightarrow> cache shm" where
  "colls g [] es = Return es"
| "colls g (p # ps) es = pbind (coll_of g es p) (\<lambda>es'. colls g ps es')"

lemma colls_keep_comms:
  assumes C: "comm_laws L h" and n: "\<forall>p\<in>set ps. 0 \<le> op_size p" and ok: "comms_ok L base es s"
  shows "yields h (colls g ps es) s (\<lambda>es' s'. comms_ok L base es' s')"
  using n ok
proof (induction ps arbitrary: es s)
  case Nil
  then show ?case by simp
next
  case (Cons p ps)
  show ?case
    unfolding colls.simps yields_pbind coll_of_def
    by (rule yields_mono [OF coll_keeps_comms [OF C Cons.prems(2)]])
      (use Cons in auto)
qed

section \<open>Displacements of a collect\<close>

lemma length_displacements [simp]: "length (displacements d cs) = length cs"
  by (induction cs arbitrary: d) simp_all

lemma nth_displacements:
  assumes "i < length cs" "0 \<le> d" "\<forall>c\<in>set cs. 0 \<le> c" "d + sum_list cs \<le> INT32_MAX"
  shows "displacements d cs ! i = d + sum_list (take i cs)"
  using assms
proof (induction cs arbitrary: d i)
  case Nil
  then show ?case by simp
next
  case (Cons c cs)
  have nonneg: "0 \<le> c" "0 \<le> sum_list cs"
    using Cons.prems(3) by (simp_all add: sum_list_nonneg)
  with Cons.prems have "c_int (d + c) = d + c"
    by (intro c_int_small) (auto simp: INT32_MIN_def)
  with Cons.prems nonneg Cons.IH [of "i - 1" "d + c"] show ?case
    by (cases i) simp_all
qed

text \<open>
  What \<open>MPI_Allgatherv\<close> leaves in a receive buffer: block \<open>i\<close> at displacement \<open>i\<close>.
\<close>

fun gatherv :: "'a list list \<Rightarrow> int list \<Rightarrow> 'a list \<Rightarrow> 'a list" where
  "gatherv (b # bs) (d # ds) buf =
     gatherv bs ds (take (nat d) buf @ b @ drop (nat d + length b) buf)"
| "gatherv _ _ buf = buf"

lemma gatherv_displacements:
  assumes "0 \<le> d" "d + sum_list (map (\<lambda>b. int (length b)) bs) \<le> INT32_MAX"
    and "nat d + length (concat bs) \<le> length buf"
  shows "gatherv bs (displacements d (map (\<lambda>b. int (length b)) bs)) buf
       = take (nat d) buf @ concat bs @ drop (nat d + length (concat bs)) buf"
  using assms
proof (induction bs arbitrary: d buf)
  case Nil
  then show ?case by simp
next
  case (Cons b bs)
  have "0 \<le> sum_list (map (\<lambda>b. int (length b)) bs)"
    by (rule sum_list_nonneg) auto
  with Cons.prems have c: "c_int (d + int (length b)) = d + int (length b)"
    by (intro c_int_small) (auto simp: INT32_MIN_def)
  let ?buf = "take (nat d) buf @ b @ drop (nat d + length b) buf"
  have n: "nat (d + int (length b)) = nat d + length b"
    using Cons.prems(1) by simp
  have "gatherv (b # bs) (displacements d (map (\<lambda>b. int (length b)) (b # bs))) buf
      = gatherv bs (displacements (d + int (length b)) (map (\<lambda>b. int (length b)) bs)) ?buf"
    by (simp add: c)
  also have "\<dots> = take (nat d + length b) ?buf @ concat bs
      @ drop (nat d + length b + length (concat bs)) ?buf"
    using Cons.IH [of "d + int (length b)" ?buf] Cons.prems by (simp add: n)
  also have "\<dots> = take (nat d) buf @ concat (b # bs) @ drop (nat d + length (concat (b # bs))) buf"
    using Cons.prems(3) by (simp add: ac_simps)
  finally show ?case .
qed

text \<open>
  C10: communicators are neither lost nor freed under the cache. After any sequence of
  collective operations that returns, the live communicators are the ones that were there
  before and the ones the cache holds, the cached ones are distinct and their active sets are
  distinct, whether caching is on, the cache is full, or an active set repeats.
\<close>

theorem collectives_keep_communicators:
  assumes "comm_laws L h" "\<forall>p\<in>set ps. 0 \<le> op_size p" "comms_ok L base es s"
    and "run h (colls g ps es) s = (Done es', s')"
  shows "cache_wf es' \<and> L s' = base \<union> cached_comms es' \<and> base \<inter> cached_comms es' = {}"
  using yieldsD [OF colls_keep_comms [OF assms(1-3)] assms(4)] by (simp add: comms_ok_def)

text \<open>A library for the example: communicators are numbered, every other call answers.\<close>

fun comm_number :: "mpi_comm \<Rightarrow> nat" where
  "comm_number (Comm k) = k"
| "comm_number _ = 0"

definition listed_comms :: "mpi_comm list mpi" where
  "listed_comms e cs =
     (case e of
        Com (MPI_Comm_create_group c gr t) \<Rightarrow>
          (let n = Comm (Suc (sum_list (map comm_number cs)))
           in (RComm n, n # cs))
      | Com (MPI_Comm_free c) \<Rightarrow> (RUnit, removeAll c cs)
      | Com (MPI_Group_incl gr l) \<Rightarrow> (RGroup (Group 0), cs)
      | Com (MPI_Group_translate_ranks gr l gr') \<Rightarrow> (RInts l, cs)
      | Env (Malloc k) \<Rightarrow> (RAddr 1, cs)
      | _ \<Rightarrow> (RUnit, cs))"

lemma fresh_listed: "Comm (Suc (sum_list (map comm_number cs))) \<notin> set cs"
proof
  assume "Comm (Suc (sum_list (map comm_number cs))) \<in> set cs"
  then have "comm_number (Comm (Suc (sum_list (map comm_number cs)))) \<in> set (map comm_number cs)"
    unfolding set_map by (rule imageI)
  then have "comm_number (Comm (Suc (sum_list (map comm_number cs)))) \<le> sum_list (map comm_number cs)"
    by (rule member_le_sum_list) simp
  then show False by simp
qed

lemma listed_comms_laws: "comm_laws set listed_comms"
  unfolding comm_laws_def create_law_def
proof (intro conjI allI impI)
  fix c gr t s
  show "\<exists>n s'. listed_comms (Com (MPI_Comm_create_group c gr t)) s = (RComm n, s') \<and>
      n \<noteq> MPI_COMM_NULL \<and> n \<notin> set s \<and> set s' = insert n (set s)"
    using fresh_listed [of s] by (simp add: listed_comms_def Let_def)
next
  fix c s
  show "set (snd (listed_comms (Com (MPI_Comm_free c)) s)) = set s - {c}"
    by (simp add: listed_comms_def)
next
  fix e s
  assume "comm_neutral e"
  then show "set (snd (listed_comms e s)) = set s"
    by (auto simp: comm_neutral_def listed_comms_def split: eff.splits comm_call.splits env_call.splits)
qed

definition example_coll :: "int \<Rightarrow> int \<Rightarrow> coll_op" where
  "example_coll st n =
     \<lparr>op_kind = SHMEM_BROADCAST, op_type = MPI_LONG, op_reduce = MPI_OP_NULL, op_target = 0x1000,
      op_source = 0x1040, op_len = 2, op_root = st, op_start = st, op_logs = 0, op_size = n\<rparr>"

lemma initial_real: "{e \<in> set initial_cache. real_entry e} = {}"
  by (auto simp: initial_cache_def)

theorem collectives_keep_communicators_witness:
  "let out = run listed_comms (colls (example_globals False False 0)
       [example_coll 0 1, example_coll 1 1, example_coll 0 1] initial_cache) [SHMEM_COMM_WORLD]
   in case out of
        (Done es', cs) \<Rightarrow> cache_wf es' \<and> set cs = {SHMEM_COMM_WORLD} \<union> cached_comms es' \<and>
           {SHMEM_COMM_WORLD} \<inter> cached_comms es' = {}
      | _ \<Rightarrow> False"
proof -
  let ?ps = "[example_coll 0 1, example_coll 1 1, example_coll 0 1]"
  let ?out = "run listed_comms (colls (example_globals False False 0) ?ps initial_cache)
      [SHMEM_COMM_WORLD]"
  have "case fst ?out of Done es' \<Rightarrow> True | _ \<Rightarrow> False"
    by code_simp
  then obtain es' cs where out: "?out = (Done es', cs)"
    by (cases ?out) (auto split: outcome.splits)
  have "comms_ok set {SHMEM_COMM_WORLD} initial_cache [SHMEM_COMM_WORLD]"
    by (simp add: comms_ok_def cached_comms_def initial_real) (simp add: cache_wf_def initial_cache_def)
  from collectives_keep_communicators [OF listed_comms_laws _ this out] out show ?thesis
    by (simp add: example_coll_def)
qed

end
