(* ===== verification/Coll_Api.thy ===== *)
theory Coll_Api
  imports Coll Ordering
begin

text \<open>
  The collective entry points of \<open>src/src/shmem.c\<close> (barriers, broadcasts, collects and
  reductions) over \<open>oshmpi_coll\<close>, and \<open>oshmpi_set_psync\<close> of \<open>src/src/shmem-internals.h\<close>. The
  work arrays \<open>pWrk\<close> are never touched and are left out; \<open>pSync\<close> is only reset.
\<close>

section \<open>Synchronization arrays and barriers\<close>

definition SHMEM_SYNC_VALUE :: int where "SHMEM_SYNC_VALUE = 0"
definition SHMEM_BCAST_SYNC_SIZE :: int where "SHMEM_BCAST_SYNC_SIZE = 1"
definition SHMEM_REDUCE_SYNC_SIZE :: int where "SHMEM_REDUCE_SYNC_SIZE = 1"
definition SHMEM_BARRIER_SYNC_SIZE :: int where "SHMEM_BARRIER_SYNC_SIZE = 1"
definition SHMEM_COLLECT_SYNC_SIZE :: int where "SHMEM_COLLECT_SYNC_SIZE = 2"

definition oshmpi_set_psync :: "int \<Rightarrow> int \<Rightarrow> addr \<Rightarrow> unit shm" where
  "oshmpi_set_psync cnt v pSync =
     pseqs (map (\<lambda>i. call (Mem (Store (pSync + word_of_nat (8 * i)) (val_bytes 8 (word_of_int v)))))
              [0..<nat cnt])"

definition shmem_barrier :: "globals \<Rightarrow> cache \<Rightarrow> int \<Rightarrow> int \<Rightarrow> int \<Rightarrow> addr \<Rightarrow> cache shm" where
  "shmem_barrier g es PE_start logPE_stride PE_size pSync =
     pseq oshmpi_remote_sync
     (pseq (oshmpi_local_sync g)
     (pseq (oshmpi_set_psync SHMEM_BARRIER_SYNC_SIZE SHMEM_SYNC_VALUE pSync)
     (oshmpi_coll g es SHMEM_BARRIER MPI_DATATYPE_NULL MPI_OP_NULL 0 0 0 (-1)
        PE_start logPE_stride PE_size)))"

definition shmem_barrier_all :: "globals \<Rightarrow> unit shm" where
  "shmem_barrier_all g =
     pseq oshmpi_remote_sync
     (pseq (oshmpi_local_sync g)
     (call (Com (MPI_Barrier SHMEM_COMM_WORLD))))"

section \<open>Broadcast and collect\<close>

definition shmem_broadcast32 ::
    "globals \<Rightarrow> cache \<Rightarrow> addr \<Rightarrow> addr \<Rightarrow> size_t \<Rightarrow> int \<Rightarrow> int \<Rightarrow> int \<Rightarrow> int \<Rightarrow> addr \<Rightarrow> cache shm" where
  "shmem_broadcast32 g es target source nlong PE_root PE_start logPE_stride PE_size pSync =
     pseq (oshmpi_set_psync SHMEM_BCAST_SYNC_SIZE SHMEM_SYNC_VALUE pSync)
     (oshmpi_coll g es SHMEM_BROADCAST MPI_INT32_T MPI_OP_NULL target source nlong PE_root
        PE_start logPE_stride PE_size)"

definition shmem_broadcast64 ::
    "globals \<Rightarrow> cache \<Rightarrow> addr \<Rightarrow> addr \<Rightarrow> size_t \<Rightarrow> int \<Rightarrow> int \<Rightarrow> int \<Rightarrow> int \<Rightarrow> addr \<Rightarrow> cache shm" where
  "shmem_broadcast64 g es target source nlong PE_root PE_start logPE_stride PE_size pSync =
     pseq (oshmpi_set_psync SHMEM_BCAST_SYNC_SIZE SHMEM_SYNC_VALUE pSync)
     (oshmpi_coll g es SHMEM_BROADCAST MPI_INT64_T MPI_OP_NULL target source nlong PE_root
        PE_start logPE_stride PE_size)"

definition shmem_collect32 ::
    "globals \<Rightarrow> cache \<Rightarrow> addr \<Rightarrow> addr \<Rightarrow> size_t \<Rightarrow> int \<Rightarrow> int \<Rightarrow> int \<Rightarrow> addr \<Rightarrow> cache shm" where
  "shmem_collect32 g es target source nlong PE_start logPE_stride PE_size pSync =
     pseq (oshmpi_set_psync SHMEM_COLLECT_SYNC_SIZE SHMEM_SYNC_VALUE pSync)
     (oshmpi_coll g es SHMEM_COLLECT MPI_INT32_T MPI_OP_NULL target source nlong (-1)
        PE_start logPE_stride PE_size)"

definition shmem_collect64 ::
    "globals \<Rightarrow> cache \<Rightarrow> addr \<Rightarrow> addr \<Rightarrow> size_t \<Rightarrow> int \<Rightarrow> int \<Rightarrow> int \<Rightarrow> addr \<Rightarrow> cache shm" where
  "shmem_collect64 g es target source nlong PE_start logPE_stride PE_size pSync =
     pseq (oshmpi_set_psync SHMEM_COLLECT_SYNC_SIZE SHMEM_SYNC_VALUE pSync)
     (oshmpi_coll g es SHMEM_COLLECT MPI_INT64_T MPI_OP_NULL target source nlong (-1)
        PE_start logPE_stride PE_size)"

definition shmem_fcollect32 ::
    "globals \<Rightarrow> cache \<Rightarrow> addr \<Rightarrow> addr \<Rightarrow> size_t \<Rightarrow> int \<Rightarrow> int \<Rightarrow> int \<Rightarrow> addr \<Rightarrow> cache shm" where
  "shmem_fcollect32 g es target source nlong PE_start logPE_stride PE_size pSync =
     pseq (oshmpi_set_psync SHMEM_COLLECT_SYNC_SIZE SHMEM_SYNC_VALUE pSync)
     (oshmpi_coll g es SHMEM_FCOLLECT MPI_INT32_T MPI_OP_NULL target source nlong (-1)
        PE_start logPE_stride PE_size)"

definition shmem_fcollect64 ::
    "globals \<Rightarrow> cache \<Rightarrow> addr \<Rightarrow> addr \<Rightarrow> size_t \<Rightarrow> int \<Rightarrow> int \<Rightarrow> int \<Rightarrow> addr \<Rightarrow> cache shm" where
  "shmem_fcollect64 g es target source nlong PE_start logPE_stride PE_size pSync =
     pseq (oshmpi_set_psync SHMEM_COLLECT_SYNC_SIZE SHMEM_SYNC_VALUE pSync)
     (oshmpi_coll g es SHMEM_FCOLLECT MPI_INT64_T MPI_OP_NULL target source nlong (-1)
        PE_start logPE_stride PE_size)"

section \<open>Reductions\<close>

type_synonym reduction =
  "globals \<Rightarrow> cache \<Rightarrow> addr \<Rightarrow> addr \<Rightarrow> int \<Rightarrow> int \<Rightarrow> int \<Rightarrow> int \<Rightarrow> addr \<Rightarrow> cache shm"

text \<open>\<open>nreduce\<close> is an \<open>int\<close> that is passed as a \<open>size_t\<close>.\<close>

definition to_all :: "mpi_type \<Rightarrow> mpi_op \<Rightarrow> reduction" where
  "to_all mpi_type reduce_op g es target source nreduce PE_start logPE_stride PE_size pSync =
     pseq (oshmpi_set_psync SHMEM_REDUCE_SYNC_SIZE SHMEM_SYNC_VALUE pSync)
     (oshmpi_coll g es SHMEM_ALLREDUCE mpi_type reduce_op target source (word_of_int nreduce) (-1)
        PE_start logPE_stride PE_size)"

definition shmem_short_and_to_all :: reduction where
  "shmem_short_and_to_all g es target source nreduce PE_start logPE_stride PE_size pSync =
     to_all MPI_SHORT MPI_LAND g es target source nreduce PE_start logPE_stride PE_size pSync"

definition shmem_int_and_to_all :: reduction where
  "shmem_int_and_to_all g es target source nreduce PE_start logPE_stride PE_size pSync =
     to_all MPI_INT MPI_LAND g es target source nreduce PE_start logPE_stride PE_size pSync"

definition shmem_long_and_to_all :: reduction where
  "shmem_long_and_to_all g es target source nreduce PE_start logPE_stride PE_size pSync =
     to_all MPI_LONG MPI_LAND g es target source nreduce PE_start logPE_stride PE_size pSync"

definition shmem_longlong_and_to_all :: reduction where
  "shmem_longlong_and_to_all g es target source nreduce PE_start logPE_stride PE_size pSync =
     to_all MPI_LONG_LONG MPI_LAND g es target source nreduce PE_start logPE_stride PE_size pSync"

definition shmem_short_or_to_all :: reduction where
  "shmem_short_or_to_all g es target source nreduce PE_start logPE_stride PE_size pSync =
     to_all MPI_SHORT MPI_BOR g es target source nreduce PE_start logPE_stride PE_size pSync"

definition shmem_int_or_to_all :: reduction where
  "shmem_int_or_to_all g es target source nreduce PE_start logPE_stride PE_size pSync =
     to_all MPI_INT MPI_BOR g es target source nreduce PE_start logPE_stride PE_size pSync"

definition shmem_long_or_to_all :: reduction where
  "shmem_long_or_to_all g es target source nreduce PE_start logPE_stride PE_size pSync =
     to_all MPI_LONG MPI_BOR g es target source nreduce PE_start logPE_stride PE_size pSync"

definition shmem_longlong_or_to_all :: reduction where
  "shmem_longlong_or_to_all g es target source nreduce PE_start logPE_stride PE_size pSync =
     to_all MPI_LONG_LONG MPI_BOR g es target source nreduce PE_start logPE_stride PE_size pSync"

definition shmem_short_xor_to_all :: reduction where
  "shmem_short_xor_to_all g es target source nreduce PE_start logPE_stride PE_size pSync =
     to_all MPI_SHORT MPI_BXOR g es target source nreduce PE_start logPE_stride PE_size pSync"

definition shmem_int_xor_to_all :: reduction where
  "shmem_int_xor_to_all g es target source nreduce PE_start logPE_stride PE_size pSync =
     to_all MPI_INT MPI_BXOR g es target source nreduce PE_start logPE_stride PE_size pSync"

definition shmem_long_xor_to_all :: reduction where
  "shmem_long_xor_to_all g es target source nreduce PE_start logPE_stride PE_size pSync =
     to_all MPI_LONG MPI_BXOR g es target source nreduce PE_start logPE_stride PE_size pSync"

definition shmem_longlong_xor_to_all :: reduction where
  "shmem_longlong_xor_to_all g es target source nreduce PE_start logPE_stride PE_size pSync =
     to_all MPI_LONG_LONG MPI_BXOR g es target source nreduce PE_start logPE_stride PE_size pSync"

definition shmem_float_min_to_all :: reduction where
  "shmem_float_min_to_all g es target source nreduce PE_start logPE_stride PE_size pSync =
     to_all MPI_FLOAT MPI_MIN g es target source nreduce PE_start logPE_stride PE_size pSync"

definition shmem_double_min_to_all :: reduction where
  "shmem_double_min_to_all g es target source nreduce PE_start logPE_stride PE_size pSync =
     to_all MPI_DOUBLE MPI_MIN g es target source nreduce PE_start logPE_stride PE_size pSync"

definition shmem_longdouble_min_to_all :: reduction where
  "shmem_longdouble_min_to_all g es target source nreduce PE_start logPE_stride PE_size pSync =
     to_all MPI_LONG_DOUBLE MPI_MIN g es target source nreduce PE_start logPE_stride PE_size pSync"

definition shmem_short_min_to_all :: reduction where
  "shmem_short_min_to_all g es target source nreduce PE_start logPE_stride PE_size pSync =
     to_all MPI_SHORT MPI_MIN g es target source nreduce PE_start logPE_stride PE_size pSync"

definition shmem_int_min_to_all :: reduction where
  "shmem_int_min_to_all g es target source nreduce PE_start logPE_stride PE_size pSync =
     to_all MPI_INT MPI_MIN g es target source nreduce PE_start logPE_stride PE_size pSync"

definition shmem_long_min_to_all :: reduction where
  "shmem_long_min_to_all g es target source nreduce PE_start logPE_stride PE_size pSync =
     to_all MPI_LONG MPI_MIN g es target source nreduce PE_start logPE_stride PE_size pSync"

definition shmem_longlong_min_to_all :: reduction where
  "shmem_longlong_min_to_all g es target source nreduce PE_start logPE_stride PE_size pSync =
     to_all MPI_LONG_LONG MPI_MIN g es target source nreduce PE_start logPE_stride PE_size pSync"

definition shmem_float_max_to_all :: reduction where
  "shmem_float_max_to_all g es target source nreduce PE_start logPE_stride PE_size pSync =
     to_all MPI_FLOAT MPI_MAX g es target source nreduce PE_start logPE_stride PE_size pSync"

definition shmem_double_max_to_all :: reduction where
  "shmem_double_max_to_all g es target source nreduce PE_start logPE_stride PE_size pSync =
     to_all MPI_DOUBLE MPI_MAX g es target source nreduce PE_start logPE_stride PE_size pSync"

definition shmem_longdouble_max_to_all :: reduction where
  "shmem_longdouble_max_to_all g es target source nreduce PE_start logPE_stride PE_size pSync =
     to_all MPI_LONG_DOUBLE MPI_MAX g es target source nreduce PE_start logPE_stride PE_size pSync"

definition shmem_short_max_to_all :: reduction where
  "shmem_short_max_to_all g es target source nreduce PE_start logPE_stride PE_size pSync =
     to_all MPI_SHORT MPI_MAX g es target source nreduce PE_start logPE_stride PE_size pSync"

definition shmem_int_max_to_all :: reduction where
  "shmem_int_max_to_all g es target source nreduce PE_start logPE_stride PE_size pSync =
     to_all MPI_INT MPI_MAX g es target source nreduce PE_start logPE_stride PE_size pSync"

definition shmem_long_max_to_all :: reduction where
  "shmem_long_max_to_all g es target source nreduce PE_start logPE_stride PE_size pSync =
     to_all MPI_LONG MPI_MAX g es target source nreduce PE_start logPE_stride PE_size pSync"

definition shmem_longlong_max_to_all :: reduction where
  "shmem_longlong_max_to_all g es target source nreduce PE_start logPE_stride PE_size pSync =
     to_all MPI_LONG_LONG MPI_MAX g es target source nreduce PE_start logPE_stride PE_size pSync"

definition shmem_float_sum_to_all :: reduction where
  "shmem_float_sum_to_all g es target source nreduce PE_start logPE_stride PE_size pSync =
     to_all MPI_FLOAT MPI_SUM g es target source nreduce PE_start logPE_stride PE_size pSync"

definition shmem_double_sum_to_all :: reduction where
  "shmem_double_sum_to_all g es target source nreduce PE_start logPE_stride PE_size pSync =
     to_all MPI_DOUBLE MPI_SUM g es target source nreduce PE_start logPE_stride PE_size pSync"

definition shmem_longdouble_sum_to_all :: reduction where
  "shmem_longdouble_sum_to_all g es target source nreduce PE_start logPE_stride PE_size pSync =
     to_all MPI_LONG_DOUBLE MPI_SUM g es target source nreduce PE_start logPE_stride PE_size pSync"

definition shmem_short_sum_to_all :: reduction where
  "shmem_short_sum_to_all g es target source nreduce PE_start logPE_stride PE_size pSync =
     to_all MPI_SHORT MPI_SUM g es target source nreduce PE_start logPE_stride PE_size pSync"

definition shmem_int_sum_to_all :: reduction where
  "shmem_int_sum_to_all g es target source nreduce PE_start logPE_stride PE_size pSync =
     to_all MPI_INT MPI_SUM g es target source nreduce PE_start logPE_stride PE_size pSync"

definition shmem_long_sum_to_all :: reduction where
  "shmem_long_sum_to_all g es target source nreduce PE_start logPE_stride PE_size pSync =
     to_all MPI_LONG MPI_SUM g es target source nreduce PE_start logPE_stride PE_size pSync"

definition shmem_longlong_sum_to_all :: reduction where
  "shmem_longlong_sum_to_all g es target source nreduce PE_start logPE_stride PE_size pSync =
     to_all MPI_LONG_LONG MPI_SUM g es target source nreduce PE_start logPE_stride PE_size pSync"

definition shmem_float_prod_to_all :: reduction where
  "shmem_float_prod_to_all g es target source nreduce PE_start logPE_stride PE_size pSync =
     to_all MPI_FLOAT MPI_PROD g es target source nreduce PE_start logPE_stride PE_size pSync"

definition shmem_double_prod_to_all :: reduction where
  "shmem_double_prod_to_all g es target source nreduce PE_start logPE_stride PE_size pSync =
     to_all MPI_DOUBLE MPI_PROD g es target source nreduce PE_start logPE_stride PE_size pSync"

definition shmem_longdouble_prod_to_all :: reduction where
  "shmem_longdouble_prod_to_all g es target source nreduce PE_start logPE_stride PE_size pSync =
     to_all MPI_LONG_DOUBLE MPI_PROD g es target source nreduce PE_start logPE_stride PE_size pSync"

definition shmem_short_prod_to_all :: reduction where
  "shmem_short_prod_to_all g es target source nreduce PE_start logPE_stride PE_size pSync =
     to_all MPI_SHORT MPI_PROD g es target source nreduce PE_start logPE_stride PE_size pSync"

definition shmem_int_prod_to_all :: reduction where
  "shmem_int_prod_to_all g es target source nreduce PE_start logPE_stride PE_size pSync =
     to_all MPI_INT MPI_PROD g es target source nreduce PE_start logPE_stride PE_size pSync"

definition shmem_long_prod_to_all :: reduction where
  "shmem_long_prod_to_all g es target source nreduce PE_start logPE_stride PE_size pSync =
     to_all MPI_LONG MPI_PROD g es target source nreduce PE_start logPE_stride PE_size pSync"

definition shmem_longlong_prod_to_all :: reduction where
  "shmem_longlong_prod_to_all g es target source nreduce PE_start logPE_stride PE_size pSync =
     to_all MPI_LONG_LONG MPI_PROD g es target source nreduce PE_start logPE_stride PE_size pSync"

end
