(* ===== verification/Coll_Trace.thy ===== *)
theory Coll_Trace
  imports Coll_Api
begin

text \<open>
  What a collective operation asks of MPI, for every MPI library: \<open>oshmpi_coll\<close> issues exactly
  one data-moving collective, on a communicator whose group is the active set, with the root
  translated to that group and the buffers chosen as OpenSHMEM wants them.
\<close>

definition data_call :: "eff \<Rightarrow> bool" where
  "data_call e \<longleftrightarrow>
     (case e of
        Com c \<Rightarrow> (case c of
            MPI_Barrier _ \<Rightarrow> True | MPI_Bcast _ _ _ _ _ \<Rightarrow> True | MPI_Allgather _ _ _ _ _ _ _ \<Rightarrow> True
          | MPI_Allgatherv _ _ _ _ _ _ _ _ \<Rightarrow> True | MPI_Allreduce _ _ _ _ _ _ \<Rightarrow> True | _ \<Rightarrow> False)
      | _ \<Rightarrow> False)"

text \<open>
  Communicator \<open>c\<close> and group \<open>gr\<close> were made for an active set: at some point the library
  answered the two calls that make them for exactly its ranks.
\<close>

definition made_for ::
    "(eff list \<Rightarrow> eff \<Rightarrow> resp) \<Rightarrow> int \<Rightarrow> int \<Rightarrow> int \<Rightarrow> mpi_comm \<Rightarrow> mpi_group \<Rightarrow> bool" where
  "made_for orc st lg n c gr \<longleftrightarrow>
     (\<exists>l1 l2. orc l1 (Com (MPI_Group_incl SHMEM_GROUP_WORLD (active_set st (2 ^ nat lg) n))) = RGroup gr \<and>
        orc l2 (Com (MPI_Comm_create_group SHMEM_COMM_WORLD gr st)) = RComm c)"

definition cache_made :: "(eff list \<Rightarrow> eff \<Rightarrow> resp) \<Rightarrow> cache \<Rightarrow> bool" where
  "cache_made orc es \<longleftrightarrow>
     (\<forall>e\<in>set es. e \<noteq> empty_slot \<longrightarrow> made_for orc (start e) (logs e) (pe_count e) (comm e) (comm_group e))"

text \<open>The communicator and the root rank a collective runs with.\<close>

definition right_comm ::
    "(eff list \<Rightarrow> eff \<Rightarrow> resp) \<Rightarrow> globals \<Rightarrow> int \<Rightarrow> int \<Rightarrow> int \<Rightarrow> int \<Rightarrow> mpi_comm \<Rightarrow> int \<Rightarrow> bool" where
  "right_comm orc g st lg n pe_root c b \<longleftrightarrow>
     (if is_world g st lg n then c = SHMEM_COMM_WORLD \<and> b = pe_root
      else \<exists>gr. made_for orc st lg n c gr \<and>
        (0 \<le> pe_root \<longrightarrow>
          (\<exists>l. orc l (Com (MPI_Group_translate_ranks SHMEM_GROUP_WORLD [pe_root] gr)) = RInts [b])))"

definition quiet_trace :: "eff list \<Rightarrow> eff list \<Rightarrow> bool" where
  "quiet_trace l l' \<longleftrightarrow> filter data_call l' = filter data_call l"

lemma quiet_trace_refl [simp]: "quiet_trace l l"
  by (simp add: quiet_trace_def)

lemma quiet_trace_snoc [simp]: "quiet_trace l (l' @ [e]) \<longleftrightarrow> quiet_trace l l' \<and> \<not> data_call e
    \<or> filter data_call l' @ [e] = filter data_call l \<and> data_call e"
  by (auto simp: quiet_trace_def)

lemma data_call_simps [simp]:
  "\<not> data_call (Mem a)" "\<not> data_call (Rma b)" "\<not> data_call (Ty t)" "\<not> data_call (Env v)"
  "\<not> data_call (Com (MPI_Group_incl gr rs))" "\<not> data_call (Com (MPI_Comm_create_group c gr k))"
  "\<not> data_call (Com (MPI_Group_translate_ranks gr rs gr'))" "\<not> data_call (Com (MPI_Group_free gr))"
  "\<not> data_call (Com (MPI_Comm_free c))" "\<not> data_call (Com (MPI_Allgather_int x c))"
  "data_call (Com (MPI_Barrier c))" "data_call (Com (MPI_Bcast buf i ty j c))"
  "data_call (Com (MPI_Allgather buf i ty buf' j ty' c))"
  "data_call (Com (MPI_Allgatherv buf i ty buf' rc rd ty' c))"
  "data_call (Com (MPI_Allreduce src buf i ty oper c))"
  by (simp_all add: data_call_def)

section \<open>Acquiring and releasing\<close>

lemma translate_trace:
  assumes "typed_oracle orc"
    and "\<And>b. orc l (Com (MPI_Group_translate_ranks SHMEM_GROUP_WORLD [r] gr)) = RInts [b] \<Longrightarrow>
      Q b (l @ [Com (MPI_Group_translate_ranks SHMEM_GROUP_WORLD [r] gr)])"
  shows "ends (logged orc) (oshmpi_translate_root gr r) l Q"
proof -
  obtain x where x: "orc l (Com (MPI_Group_translate_ranks SHMEM_GROUP_WORLD [r] gr)) = RInts x"
      "length x = length [r]"
    using typed_oracleD(8) [OF assms(1)] by blast
  then obtain b where "x = [b]"
    by (cases x) auto
  with x(1) assms(2) [of b] show ?thesis
    unfolding oshmpi_translate_root_def ends_pbind by (intro logged_ints [of orc, OF x(1)]) simp
qed

lemma incl_trace:
  assumes "typed_oracle orc"
    and "\<And>gr. orc l (Com (MPI_Group_incl g0 rs)) = RGroup gr \<Longrightarrow> Q gr (l @ [Com (MPI_Group_incl g0 rs)])"
  shows "ends (logged orc) (call_group (Com (MPI_Group_incl g0 rs))) l Q"
  using typed_oracleD(6) [OF assms(1), of l g0 rs] assms(2) by (auto intro: logged_group)

lemma create_trace:
  assumes "typed_oracle orc"
    and "\<And>c. orc l (Com (MPI_Comm_create_group c0 gr k)) = RComm c \<Longrightarrow>
      Q c (l @ [Com (MPI_Comm_create_group c0 gr k)])"
  shows "ends (logged orc) (call_comm (Com (MPI_Comm_create_group c0 gr k))) l Q"
  using typed_oracleD(7) [OF assms(1), of l c0 gr k] assms(2) by (auto intro: logged_comm)

lemma made_forI:
  "orc l1 (Com (MPI_Group_incl SHMEM_GROUP_WORLD (active_set st (2 ^ nat lg) n))) = RGroup gr \<Longrightarrow>
   orc l2 (Com (MPI_Comm_create_group SHMEM_COMM_WORLD gr st)) = RComm c \<Longrightarrow> made_for orc st lg n c gr"
  unfolding made_for_def by blast

lemma root_trace:
  assumes "typed_oracle orc" "made_for orc st lg n c gr" "\<not> is_world g st lg n"
    and "\<And>b l'. right_comm orc g st lg n pe_root c b \<Longrightarrow> quiet_trace l l' \<Longrightarrow> Q b l'"
  shows "ends (logged orc)
     (if 0 \<le> pe_root then oshmpi_translate_root gr pe_root else Return b0) l Q"
proof (cases "0 \<le> pe_root")
  case True
  then show ?thesis
    using assms(2,3)
    by (simp, intro translate_trace [OF assms(1)] assms(4)) (auto simp: right_comm_def)
next
  case False
  then show ?thesis
    using assms(2,3) by (simp, intro assms(4)) (auto simp: right_comm_def)
qed

lemma cache_made_insert:
  assumes "cache_made orc es" "cache_insert e es = Some es'"
    and "made_for orc (start e) (logs e) (pe_count e) (comm e) (comm_group e)"
  shows "cache_made orc es'"
proof -
  obtain xs x ys where "es = xs @ x # ys" "es' = xs @ e # ys"
    using cache_insert_Some [OF assms(2)] by blast
  with assms(1,3) show ?thesis
    by (auto simp: cache_made_def)
qed

lemma new_comm_trace:
  assumes T: "typed_oracle orc" "malloc_ok orc" and ok: "cache_made orc es" "0 \<le> lg" "lg < 31"
    and w: "\<not> is_world g st lg n"
    and Q: "\<And>c b es' l'. right_comm orc g st lg n pe_root c b \<Longrightarrow> cache_made orc es' \<Longrightarrow>
      quiet_trace l l' \<Longrightarrow> Q (c, b, es') l'"
  shows "ends (logged orc) (new_comm g es st lg n pe_root b0) l Q"
proof -
  have tail: "ends (logged orc) (case (if ENABLE_COMM_CACHING (conf g)
            then cache_insert \<lparr>start = st, logs = lg, pe_count = n, comm = c, comm_group = gr\<rparr> es
            else None) of
        Some es' \<Rightarrow> Return (c, b, es')
      | None \<Rightarrow> pseq (call (Com (MPI_Group_free gr))) (pseq (call (Env (Free a)))
          (Return (c, b, es)))) l' Q"
    if "made_for orc st lg n c gr" "right_comm orc g st lg n pe_root c b" "quiet_trace l l'" for c gr b a l'
  proof (cases "if ENABLE_COMM_CACHING (conf g)
            then cache_insert \<lparr>start = st, logs = lg, pe_count = n, comm = c, comm_group = gr\<rparr> es
            else None")
    case None
    show ?thesis
      unfolding None option.case ends_pseq
      using that(3)
      by (intro logged_call) (simp, rule Q [OF that(2) ok(1)], simp add: quiet_trace_def)
  next
    case (Some es')
    then have "cache_made orc es'"
      using cache_made_insert [OF ok(1)] that(1) by (simp split: if_splits)
    with Some Q [OF that(2)] that(3) show ?thesis
      by simp
  qed
  have range: "(lg < 0 \<or> 31 \<le> lg) = False"
    using ok by simp
  show ?thesis
    unfolding new_comm_def Let_def ends_pbind ends_pseq
    apply (rule logged_malloc [OF T(2)])
    apply (simp only: range if_False passert_simps ends_Return not_False_eq_True simp_thms)
    apply (subst ends_pbind, rule incl_trace [OF T(1)])
    apply (subst ends_pbind, rule create_trace [OF T(1)])
    apply (subst ends_pbind, rule root_trace [OF T(1) made_forI w], assumption, assumption)
    apply (rule tail [OF made_forI], assumption, assumption, assumption)
    apply (simp add: quiet_trace_def)
    done
qed

lemma acquire_trace:
  assumes T: "typed_oracle orc" "malloc_ok orc" and ok: "cache_made orc es" "0 \<le> lg" "lg < 31"
    and n: "0 \<le> n"
    and Q: "\<And>c b es' l'. right_comm orc g st lg n pe_root c b \<Longrightarrow> cache_made orc es' \<Longrightarrow>
      quiet_trace l l' \<Longrightarrow> Q (c, b, es') l'"
  shows "ends (logged orc) (oshmpi_acquire_comm g es st lg n pe_root b0) l Q"
proof (cases "is_world g st lg n")
  case True
  then show ?thesis
    using ok(1) by (simp add: oshmpi_acquire_comm_def, intro Q) (simp_all add: right_comm_def)
next
  case False
  show ?thesis
  proof (cases "if ENABLE_COMM_CACHING (conf g) then cache_lookup es st lg n else None")
    case None
    with False show ?thesis
      by (simp only: oshmpi_acquire_comm_def if_False option.case)
        (rule new_comm_trace [OF T ok False]; rule Q; assumption)
  next
    case (Some e)
    then have "find_comm es (st, lg, n) = Some e"
      by (simp add: find_comm_def split: if_splits)
    then have e: "e \<in> set es" "start e = st" "logs e = lg" "pe_count e = n"
      using find_comm_Some [of es "(st, lg, n)" e] by (auto simp: entry_key_def)
    then have "made_for orc st lg n (comm e) (comm_group e)"
      using ok(1) n by (auto simp: cache_made_def empty_slot_def)
    with False Some show ?thesis
      apply (simp only: oshmpi_acquire_comm_def if_False option.case)
      apply (subst ends_pbind, rule root_trace [OF T(1) _ False], assumption)
      apply (simp, rule Q [OF _ ok(1)], assumption+)
      done
  qed
qed

lemma release_trace:
  assumes "\<And>l'. quiet_trace l l' \<Longrightarrow> Q () l'"
  shows "ends (logged orc) (oshmpi_release_comm g es st lg n c) l Q"
  using assms by (auto simp: oshmpi_release_comm_def intro!: logged_call)

lemma contiguous_trace:
  assumes T: "typed_oracle orc" and Q: "\<And>t l'. quiet_trace l l' \<Longrightarrow> Q t l'"
  shows "ends (logged orc) (MPIX_Type_contiguous_x cnt ty) l Q"
proof -
  have vec: "ends (logged orc) (call_type (Ty (MPI_Type_vector a b s ty))) l Q"
    if "\<And>t. Q t (l @ [Ty (MPI_Type_vector a b s ty)])" for a b s l and Q :: "mpi_type \<Rightarrow> eff list \<Rightarrow> bool"
    using typed_oracleD(1) [OF T] that by (metis logged_type)
  have con: "ends (logged orc) (call_type (Ty (MPI_Type_contiguous a ty))) l Q"
    if "\<And>t. Q t (l @ [Ty (MPI_Type_contiguous a ty)])" for a l and Q :: "mpi_type \<Rightarrow> eff list \<Rightarrow> bool"
    using typed_oracleD(2) [OF T] that by (metis logged_type)
  have str: "ends (logged orc) (call_type (Ty (MPI_Type_create_struct bl))) l Q"
    if "\<And>t. Q t (l @ [Ty (MPI_Type_create_struct bl)])" for bl l and Q :: "mpi_type \<Rightarrow> eff list \<Rightarrow> bool"
    using typed_oracleD(3) [OF T] that by (metis logged_type)
  have ext: "ends (logged orc) (call_int (Ty (MPI_Type_get_extent ty))) l Q"
    if "\<And>t. Q t (l @ [Ty (MPI_Type_get_extent ty)])" for l and Q :: "int \<Rightarrow> eff list \<Rightarrow> bool"
    using typed_oracleD(4) [OF T] that by (metis logged_int)
  show ?thesis
    unfolding MPIX_Type_contiguous_x_def Let_def ends_pbind ends_pseq
    apply (rule vec, rule con, rule ext, rule str)
    apply (intro logged_call)
    apply (simp, rule Q)
    apply (simp add: quiet_trace_def)
    done
qed

lemma rma_count_trace:
  assumes T: "typed_oracle orc"
    and Q: "\<And>cnt t l'. quiet_trace l l' \<Longrightarrow> (len < word_of_int INT32_MAX \<longrightarrow> cnt = uint len \<and> t = ty) \<Longrightarrow>
      Q (cnt, t) l'"
  shows "ends (logged orc) (rma_count len ty) l Q"
proof (cases "len < word_of_int INT32_MAX")
  case True
  then show ?thesis
    by (simp add: rma_count_def Q)
next
  case False
  then show ?thesis
    apply (simp add: rma_count_def ends_pbind ends_pseq)
    apply (rule contiguous_trace [OF T])
    apply (rule logged_call)
    apply (rule Q)
     apply (simp_all add: quiet_trace_def)
    done
qed

section \<open>The collective call\<close>

text \<open>The one data-moving call of each kind of operation, on communicator \<open>c\<close> with root \<open>b\<close>.\<close>

definition issued_call ::
    "(eff list \<Rightarrow> eff \<Rightarrow> resp) \<Rightarrow> globals \<Rightarrow> shmem_coll_type \<Rightarrow> mpi_op \<Rightarrow> addr \<Rightarrow> addr \<Rightarrow> int \<Rightarrow> mpi_type \<Rightarrow>
     int \<Rightarrow> int \<Rightarrow> int \<Rightarrow> mpi_comm \<Rightarrow> eff \<Rightarrow> bool" where
  "issued_call orc g coll oper target source cnt t pe_root b n c e \<longleftrightarrow>
     (case coll of
        SHMEM_BARRIER \<Rightarrow> e = Com (MPI_Barrier c)
      | SHMEM_BROADCAST \<Rightarrow>
          e = Com (MPI_Bcast (if shmem_world_rank g = pe_root then source else target) cnt t b c)
      | SHMEM_FCOLLECT \<Rightarrow> e = Com (MPI_Allgather source cnt t target cnt t c)
      | SHMEM_COLLECT \<Rightarrow>
          (\<exists>l rc. orc l (Com (MPI_Allgather_int cnt c)) = RInts rc \<and>
             e = Com (MPI_Allgatherv source cnt t target rc (displacements 0 (take (nat n) rc)) t c))
      | SHMEM_ALLREDUCE \<Rightarrow>
          e = Com (MPI_Allreduce (if source = target then None else Some source) target cnt t oper c)
      | Coll_type k \<Rightarrow> False)"

text \<open>
  The receive counts of a collect are the answer to the \<open>MPI_Allgather\<close> of the counts that this
  very run has issued on the same communicator.
\<close>

definition counts_gathered ::
    "(eff list \<Rightarrow> eff \<Rightarrow> resp) \<Rightarrow> shmem_coll_type \<Rightarrow> int \<Rightarrow> mpi_comm \<Rightarrow> eff \<Rightarrow> eff list \<Rightarrow> bool" where
  "counts_gathered orc coll cnt c e l \<longleftrightarrow>
     (coll = SHMEM_COLLECT \<longrightarrow>
       (\<exists>l0 l1 rc. l = l0 @ Com (MPI_Allgather_int cnt c) # l1 \<and>
          orc l0 (Com (MPI_Allgather_int cnt c)) = RInts rc \<and>
          (\<exists>source t target ds. e = Com (MPI_Allgatherv source cnt t target rc ds t c))))"

lemma counts_gathered_append: "counts_gathered orc coll cnt c e l \<Longrightarrow> counts_gathered orc coll cnt c e (l @ l')"
  by (fastforce simp: counts_gathered_def)

lemma counts_gatheredI:
  "orc l (Com (MPI_Allgather_int cnt c)) = RInts rc \<Longrightarrow>
   counts_gathered orc SHMEM_COLLECT cnt c (Com (MPI_Allgatherv source cnt t target rc ds t c))
     (l @ [Com (MPI_Allgather_int cnt c)])"
  by (auto simp: counts_gathered_def)

lemma ends_extends:
  assumes "ends (logged orc) p l (\<lambda>a l'. \<forall>t. l' = l @ t \<longrightarrow> Q a l')"
  shows "ends (logged orc) p l Q"
  using assms run_logged_extends [of orc p l] by (auto simp: ends_def)

lemma collect_trace:
  assumes T: "typed_oracle orc" "malloc_ok orc" and n: "1 \<le> n"
    and Q: "\<And>e l'. issued_call orc g SHMEM_COLLECT oper target source cnt t r b n c e \<Longrightarrow>
      counts_gathered orc SHMEM_COLLECT cnt c e l' \<Longrightarrow>
      filter data_call l' = filter data_call l @ [e] \<Longrightarrow> Q () l'"
  shows "ends (logged orc) (collect_call target source cnt t n c) l Q"
proof -
  have gather: "ends (logged orc) (call_ints (Com (MPI_Allgather_int cnt c))) l Q"
    if "\<And>rc. orc l (Com (MPI_Allgather_int cnt c)) = RInts rc \<Longrightarrow> Q rc (l @ [Com (MPI_Allgather_int cnt c)])"
    for l and Q :: "int list \<Rightarrow> eff list \<Rightarrow> bool"
    using typed_oracleD(5) [OF T(1), of l cnt c] that by (auto intro: logged_ints)
  have range: "(n < 1) = False"
    using n by simp
  show ?thesis
    unfolding collect_call_def Let_def ends_pbind ends_pseq
    apply (rule logged_malloc [OF T(2)])
    apply (simp only: passert_simps ends_Return not_False_eq_True simp_thms)
    apply (rule logged_malloc [OF T(2)])
    apply (simp only: passert_simps ends_Return not_False_eq_True simp_thms)
    apply (rule gather)
    apply (simp only: range if_False ends_pseq)
    apply (intro logged_call)
    apply (rule Q)
      apply (simp add: issued_call_def, blast)
     apply (rule counts_gathered_append, rule counts_gathered_append, rule counts_gathered_append)
     apply (erule counts_gatheredI)
    apply simp
    done
qed

lemma coll_call_trace:
  assumes T: "typed_oracle orc" "malloc_ok orc" and n: "1 \<le> n" and k: "\<forall>k. coll \<noteq> Coll_type k"
    and Q: "\<And>e l'. issued_call orc g coll oper target source cnt t r b n c e \<Longrightarrow>
      counts_gathered orc coll cnt c e l' \<Longrightarrow>
      filter data_call l' = filter data_call l @ [e] \<Longrightarrow> Q () l'"
  shows "ends (logged orc) (coll_call g coll oper target source cnt t r b n c) l Q"
proof (cases coll)
  case SHMEM_COLLECT
  show ?thesis
    using Q unfolding SHMEM_COLLECT coll_call_def by (simp, intro collect_trace [OF T n]) auto
qed (use Q k in \<open>auto simp: coll_call_def issued_call_def counts_gathered_def intro!: logged_call\<close>)

lemma coll_trace:
  assumes T: "typed_oracle orc" "malloc_ok orc" and ok: "cache_made orc es" "0 \<le> lg" "lg < 31"
    and n: "1 \<le> n" and k: "\<forall>k. coll \<noteq> Coll_type k"
  shows "ends (logged orc) (oshmpi_coll g es coll ty oper target source len pe_root st lg n) l
     (\<lambda>es' l'. cache_made orc es' \<and>
        (\<exists>c b cnt t e. right_comm orc g st lg n pe_root c b \<and>
           issued_call orc g coll oper target source cnt t pe_root b n c e \<and>
           counts_gathered orc coll cnt c e l' \<and> filter data_call l' = filter data_call l @ [e] \<and>
           (len < word_of_int INT32_MAX \<longrightarrow> cnt = uint len \<and> t = ty)))"
    (is "ends _ _ _ ?Q")
proof -
  have n0: "0 \<le> n" using n by simp
  have tail: "ends (logged orc)
     (pseq (pwhen (word_of_int INT32_MAX < len) (call (Ty (MPI_Type_free t))))
     (pseq (oshmpi_release_comm g es' st lg n c) (Return es'))) l1 Q"
    if Q: "\<And>l'. quiet_trace l1 l' \<Longrightarrow> Q es' l'" for t c l1 es' and Q :: "cache \<Rightarrow> eff list \<Rightarrow> bool"
  proof (cases "word_of_int INT32_MAX < len")
    case True
    then show ?thesis
      unfolding ends_pseq
      by (simp, intro logged_call release_trace) (simp, rule Q, simp add: quiet_trace_def)
  next
    case False
    then show ?thesis
      unfolding ends_pseq by (simp, intro release_trace) (simp, rule Q)
  qed
  have tail: "ends (logged orc)
     (pseq (pwhen (word_of_int INT32_MAX < len) (call (Ty (MPI_Type_free t))))
     (pseq (oshmpi_release_comm g es' st lg n c) (Return es'))) l1 Q"
    if "\<And>l' k. quiet_trace l1 l' \<Longrightarrow> l' = l1 @ k \<Longrightarrow> Q es' l'"
    for t c l1 es' and Q :: "cache \<Rightarrow> eff list \<Rightarrow> bool"
    by (rule ends_extends, rule tail) (use that in blast)
  show ?thesis
    unfolding oshmpi_coll_def ends_pbind
    apply (rule acquire_trace [OF T ok n0])
    apply (simp only: case_prod_conv, subst ends_pbind)
    apply (rule rma_count_trace [OF T(1)])
    apply (simp only: case_prod_conv, subst ends_pseq)
    apply (rule coll_call_trace [OF T n k])
    apply (rule tail)
    apply (rule conjI, assumption)
    apply (unfold quiet_trace_def)
    apply (intro exI conjI, assumption, assumption)
      apply (simp only:, erule counts_gathered_append)
     apply simp
    apply assumption
    done
qed

section \<open>Properties\<close>

lemma psync_trace: "(\<And>l'. quiet_trace l l' \<Longrightarrow> Q () l') \<Longrightarrow>
  ends (logged orc) (oshmpi_set_psync k v a) l Q"
proof -
  have "ends (logged orc) (pseqs (map (\<lambda>i. call (Mem (Store (a + word_of_nat (8 * i))
      (val_bytes 8 (word_of_int v))))) is)) l Q"
    if "\<And>l'. quiet_trace l l' \<Longrightarrow> Q () l'" for "is" l and Q :: "unit \<Rightarrow> eff list \<Rightarrow> bool"
    using that
  proof (induction "is" arbitrary: l)
    case Nil
    then show ?case by simp
  next
    case (Cons i js)
    show ?case
      by (simp only: list.map pseqs.simps ends_pseq, intro logged_call Cons.IH Cons.prems)
        (simp add: quiet_trace_def)
  qed
  then show "(\<And>l'. quiet_trace l l' \<Longrightarrow> Q () l') \<Longrightarrow> ends (logged orc) (oshmpi_set_psync k v a) l Q"
    unfolding oshmpi_set_psync_def by blast
qed

text \<open>
  C7: every collective operation returns after exactly one data-moving MPI call, made on a
  communicator of exactly the ranks of the active set (or the world), with the root's rank in
  that communicator; the cache keeps only such communicators. This holds for every MPI library
  that answers with values of the right kind, with a cold, warm or full cache.
\<close>

theorem one_collective_on_the_active_set:
  assumes "typed_oracle orc" "malloc_ok orc" "cache_made orc es" "0 \<le> lg" "lg < 31" "1 \<le> n"
    and "\<forall>k. coll \<noteq> Coll_type k"
  shows "ends (logged orc) (oshmpi_coll g es coll ty oper target source len pe_root st lg n) []
     (\<lambda>es' l. cache_made orc es' \<and>
        (\<exists>c b cnt t e. right_comm orc g st lg n pe_root c b \<and>
           issued_call orc g coll oper target source cnt t pe_root b n c e \<and>
           filter data_call l = [e] \<and>
           (len < word_of_int INT32_MAX \<longrightarrow> cnt = uint len \<and> t = ty)))"
proof (rule ends_mono [OF coll_trace [OF assms, where l = "[]"]], elim conjE exE)
  fix a s' c b cnt t e
  assume "cache_made orc a" "right_comm orc g st lg n pe_root c b"
    "issued_call orc g coll oper target source cnt t pe_root b n c e"
    "filter data_call s' = filter data_call [] @ [e]"
    "len < word_of_int INT32_MAX \<longrightarrow> cnt = uint len \<and> t = ty"
  then show "cache_made orc a \<and>
        (\<exists>c b cnt t e. right_comm orc g st lg n pe_root c b \<and>
           issued_call orc g coll oper target source cnt t pe_root b n c e \<and>
           filter data_call s' = [e] \<and>
           (len < word_of_int INT32_MAX \<longrightarrow> cnt = uint len \<and> t = ty))"
    by (intro conjI exI [of _ c] exI [of _ b] exI [of _ cnt] exI [of _ t] exI [of _ e]) simp_all
qed

definition example_oracle :: "eff list \<Rightarrow> eff \<Rightarrow> resp" where
  "example_oracle l e =
     (case e of
        Env v \<Rightarrow> env_answer v
      | Ty (MPI_Type_get_extent ty) \<Rightarrow> RInt 8
      | Ty (MPI_Type_size ty) \<Rightarrow> RInt 8
      | Ty t \<Rightarrow> RType (Derived (length l))
      | Com (MPI_Group_incl g rs) \<Rightarrow> RGroup (Group (length l))
      | Com (MPI_Comm_create_group c g k) \<Rightarrow> RComm (Comm (length l))
      | Com (MPI_Group_translate_ranks g rs g') \<Rightarrow> RInts rs
      | Com (MPI_Allgather_int v c) \<Rightarrow> RInts [v, v]
      | Com (MPI_Bcast_long v r c) \<Rightarrow> RInt v
      | Com (MPI_Allreduce_int v p c) \<Rightarrow> RInt v
      | Mem (Load a n) \<Rightarrow> RBytes (replicate n 0)
      | _ \<Rightarrow> RVal 0)"

lemma example_oracle_ok: "typed_oracle example_oracle" "malloc_ok example_oracle"
proof -
  have "well_typed e (example_oracle l e)" for l e
  proof (cases e)
    case (Mem x)
    then show ?thesis by (cases x) (simp_all add: example_oracle_def)
  next
    case (Rma x)
    then show ?thesis by (cases x) (simp_all add: example_oracle_def)
  next
    case (Ty x)
    then show ?thesis by (cases x) (simp_all add: example_oracle_def)
  next
    case (Com x)
    then show ?thesis by (cases x) (simp_all add: example_oracle_def)
  next
    case (Env x)
    then show ?thesis by (simp add: example_oracle_def env_answer_typed)
  qed
  then show "typed_oracle example_oracle"
    by (simp add: typed_oracle_def)
  show "malloc_ok example_oracle"
    by (simp add: malloc_ok_def example_oracle_def)
qed

lemma cache_made_initial [simp]: "cache_made orc initial_cache"
  by (simp add: cache_made_def initial_cache_def)

theorem one_collective_on_the_active_set_witness:
  "ends (logged example_oracle)
     (oshmpi_coll (example_globals False False 0) initial_cache SHMEM_COLLECT MPI_LONG MPI_OP_NULL
        0x1000 0x1080 4 (-1) 0 1 1) []
     (\<lambda>es' l. cache_made example_oracle es' \<and>
        (\<exists>c b cnt t e. right_comm example_oracle (example_globals False False 0) 0 1 1 (-1) c b \<and>
           issued_call example_oracle (example_globals False False 0) SHMEM_COLLECT MPI_OP_NULL 0x1000
             0x1080 cnt t (-1) b 1 c e \<and>
           filter data_call l = [e] \<and>
           ((4 :: size_t) < word_of_int INT32_MAX \<longrightarrow> cnt = uint (4 :: size_t) \<and> t = MPI_LONG)))"
  by (rule one_collective_on_the_active_set) (simp_all add: example_oracle_ok)

text \<open>
  C21: \<open>shmem_broadcast64\<close> on an active set: every PE issues one \<open>MPI_Bcast\<close> of its elements on
  the set's communicator from the rank the root has there; the root passes its source, so its
  target is not written, and every other PE passes its target.
\<close>

theorem broadcast_buffers:
  assumes "typed_oracle orc" "malloc_ok orc" "cache_made orc es" "0 \<le> lg" "lg < 31" "1 \<le> n"
    and "len < word_of_int INT32_MAX"
  shows "ends (logged orc) (shmem_broadcast64 g es target source len root st lg n pSync) []
     (\<lambda>es' l. cache_made orc es' \<and>
        (\<exists>c b. right_comm orc g st lg n root c b \<and>
           filter data_call l =
             [Com (MPI_Bcast (if shmem_my_pe g = root then source else target) (uint len) MPI_INT64_T b c)]))"
  unfolding shmem_broadcast64_def ends_pseq
proof (rule psync_trace, rule ends_mono [OF coll_trace [OF assms(1-6)]], simp)
  fix l' a s'
  assume q: "quiet_trace [] l'"
    and h: "cache_made orc a \<and> (\<exists>c b cnt t e. right_comm orc g st lg n root c b \<and>
           issued_call orc g SHMEM_BROADCAST MPI_OP_NULL target source cnt t root b n c e \<and>
           counts_gathered orc SHMEM_BROADCAST cnt c e s' \<and> filter data_call s' = filter data_call l' @ [e] \<and>
           (len < word_of_int INT32_MAX \<longrightarrow> cnt = uint len \<and> t = MPI_INT64_T))"
  then show "cache_made orc a \<and> (\<exists>c b. right_comm orc g st lg n root c b \<and>
        filter data_call s' =
          [Com (MPI_Bcast (if shmem_my_pe g = root then source else target) (uint len) MPI_INT64_T b c)])"
    using assms(7) by (auto simp: quiet_trace_def issued_call_def shmem_my_pe_def)
qed

theorem broadcast_buffers_witness:
  "ends (logged example_oracle)
     (shmem_broadcast64 (example_globals False False 1) initial_cache 0x1000 0x1080 4 0 0 0 2 0x10f0) []
     (\<lambda>es' l. cache_made example_oracle es' \<and>
        (\<exists>c b. right_comm example_oracle (example_globals False False 1) 0 0 2 0 c b \<and>
           filter data_call l =
             [Com (MPI_Bcast (if shmem_my_pe (example_globals False False 1) = 0 then 0x1080 else 0x1000)
                     (uint (4 :: size_t)) MPI_INT64_T b c)]))"
  by (rule broadcast_buffers) (simp_all add: example_oracle_ok INT32_MAX_def)

text \<open>
  C22: \<open>shmem_collect64\<close> concatenates. On a communicator of exactly the ranks of the active set it
  gathers the counts of the PEs, and its one \<open>MPI_Allgatherv\<close> on the same communicator takes the
  counts that this \<open>MPI_Allgather\<close> has answered; the displacements it passes lay out the
  contributions of those lengths one behind the other in the order of their ranks, whatever the
  lengths, as long as the total fits an \<open>int\<close>.
\<close>

theorem collect_concatenates:
  assumes "typed_oracle orc" "malloc_ok orc" "cache_made orc es" "0 \<le> lg" "lg < 31" "1 \<le> n"
    and "len < word_of_int INT32_MAX"
  shows "ends (logged orc) (shmem_collect64 g es target source len st lg n pSync) []
     (\<lambda>es' l. \<exists>c b l0 l1 rc ds. right_comm orc g st lg n (-1) c b \<and>
        l = l0 @ Com (MPI_Allgather_int (uint len) c) # l1 \<and>
        orc l0 (Com (MPI_Allgather_int (uint len) c)) = RInts rc \<and>
        filter data_call l
          = [Com (MPI_Allgatherv source (uint len) MPI_INT64_T target rc ds MPI_INT64_T c)] \<and>
        (\<forall>(blocks :: 'b list list) buf. map (\<lambda>b. int (length b)) blocks = take (nat n) rc \<longrightarrow>
           sum_list (take (nat n) rc) \<le> INT32_MAX \<longrightarrow> length (concat blocks) \<le> length buf \<longrightarrow>
           gatherv blocks ds buf = concat blocks @ drop (length (concat blocks)) buf))"
  unfolding shmem_collect64_def ends_pseq
proof (rule psync_trace, rule ends_mono [OF coll_trace [OF assms(1-6)]], simp, elim conjE exE)
  fix l' a s' c b cnt t e
  assume q: "quiet_trace [] l'" and c: "right_comm orc g st lg n (- 1) c b"
    and e: "issued_call orc g SHMEM_COLLECT MPI_OP_NULL target source cnt t (- 1) b n c e"
    and cg: "counts_gathered orc SHMEM_COLLECT cnt c e s'"
    and s': "filter data_call s' = filter data_call l' @ [e]"
    and cnt: "len < word_of_int INT32_MAX \<longrightarrow> cnt = uint len \<and> t = MPI_INT64_T"
  obtain l0 l1 rc where g: "s' = l0 @ Com (MPI_Allgather_int cnt c) # l1"
      "orc l0 (Com (MPI_Allgather_int cnt c)) = RInts rc"
    and e': "e = Com (MPI_Allgatherv source cnt t target rc (displacements 0 (take (nat n) rc)) t c)"
    using e cg by (auto simp: issued_call_def counts_gathered_def)
  have "gatherv blocks (displacements 0 (take (nat n) rc)) buf
      = concat blocks @ drop (length (concat blocks)) buf"
    if "map (\<lambda>b. int (length b)) blocks = take (nat n) rc" "sum_list (take (nat n) rc) \<le> INT32_MAX"
      "length (concat blocks) \<le> length buf" for blocks :: "'b list list" and buf
    using gatherv_displacements [of 0 blocks buf] that by simp
  moreover have "filter data_call s' = [Com (MPI_Allgatherv source (uint len) MPI_INT64_T target rc
      (displacements 0 (take (nat n) rc)) MPI_INT64_T c)]"
    using s' q e' cnt assms(7) by (simp add: quiet_trace_def)
  ultimately show "\<exists>c b l0 l1 rc ds. right_comm orc g st lg n (-1) c b \<and>
        s' = l0 @ Com (MPI_Allgather_int (uint len) c) # l1 \<and>
        orc l0 (Com (MPI_Allgather_int (uint len) c)) = RInts rc \<and>
        filter data_call s'
          = [Com (MPI_Allgatherv source (uint len) MPI_INT64_T target rc ds MPI_INT64_T c)] \<and>
        (\<forall>(blocks :: 'b list list) buf. map (\<lambda>b. int (length b)) blocks = take (nat n) rc \<longrightarrow>
           sum_list (take (nat n) rc) \<le> INT32_MAX \<longrightarrow> length (concat blocks) \<le> length buf \<longrightarrow>
           gatherv blocks ds buf = concat blocks @ drop (length (concat blocks)) buf)"
    using c g cnt assms(7)
    by (intro exI [of _ c] exI [of _ b] exI [of _ l0] exI [of _ l1] exI [of _ rc]
        exI [of _ "displacements 0 (take (nat n) rc)"]) simp
qed

theorem collect_concatenates_witness:
  "ends (logged example_oracle)
     (shmem_collect64 (example_globals False False 1) initial_cache 0x1000 0x1080 2 0 0 2 0x10f0) []
     (\<lambda>es' l. \<exists>c b l0 l1 rc ds. right_comm example_oracle (example_globals False False 1) 0 0 2 (-1) c b \<and>
        l = l0 @ Com (MPI_Allgather_int (uint (2 :: size_t)) c) # l1 \<and>
        example_oracle l0 (Com (MPI_Allgather_int (uint (2 :: size_t)) c)) = RInts rc \<and>
        filter data_call l
          = [Com (MPI_Allgatherv 0x1080 (uint (2 :: size_t)) MPI_INT64_T 0x1000 rc ds MPI_INT64_T c)] \<and>
        (\<forall>(blocks :: nat list list) buf. map (\<lambda>b. int (length b)) blocks = take (nat 2) rc \<longrightarrow>
           sum_list (take (nat 2) rc) \<le> INT32_MAX \<longrightarrow> length (concat blocks) \<le> length buf \<longrightarrow>
           gatherv blocks ds buf = concat blocks @ drop (length (concat blocks)) buf))"
  by (rule collect_concatenates) (simp_all add: example_oracle_ok INT32_MAX_def)

end
