(* ===== verification/Heap_Size.thy ===== *)
theory Heap_Size
  imports Globals
begin

text \<open>
  The size of the symmetric heap from the environment (\<open>oshmpi_initialize\<close>, \<open>src/src/shmem-internals.c\<close>,
  lines 182-262): the value of the first variable that is set is searched for a unit letter,
  everything behind its leading digits is blanked, and \<open>atol\<close> reads the rest. Without a
  variable the size is the memory of the node shared by its processes, at most 2 GiB.
\<close>

section \<open>Strings of the C library\<close>

definition is_digit :: "char \<Rightarrow> bool" where
  "is_digit c \<longleftrightarrow> c \<in> set ''0123456789''"

definition digit_value :: "char \<Rightarrow> int" where
  "digit_value c = of_char c - 48"

definition is_space :: "char \<Rightarrow> bool" where
  "is_space c \<longleftrightarrow> c \<in> {CHR '' '', CHR 0x09, CHR 0x0A, CHR 0x0B, CHR 0x0C, CHR 0x0D}"

definition strspn_digits :: "string \<Rightarrow> nat" where
  "strspn_digits s = length (takeWhile is_digit s)"

definition digits_value :: "string \<Rightarrow> int" where
  "digits_value s = foldl (\<lambda>n c. 10 * n + digit_value c) 0 (takeWhile is_digit s)"

definition atol :: "string \<Rightarrow> int" where
  "atol s =
     (case dropWhile is_space s of
        [] \<Rightarrow> 0
      | c # cs \<Rightarrow> if c = CHR ''-'' then - digits_value cs
                  else if c = CHR ''+'' then digits_value cs
                  else digits_value (c # cs))"

section \<open>The size\<close>

definition LONG_MAX :: int where "LONG_MAX = 2 ^ 63 - 1"

definition heap_units :: "string \<Rightarrow> int" where
  "heap_units env =
     (if CHR ''G'' \<in> set env then 1000000000
      else if CHR ''M'' \<in> set env then 1000000
      else if CHR ''K'' \<in> set env then 1000
      else 1)"

text \<open>\<open>memset (&env_char[num_count], ' ', strlen (env_char) - num_count)\<close>\<close>

definition blank_tail :: "string \<Rightarrow> string" where
  "blank_tail env =
     (let num_count = strspn_digits env
      in take num_count env @ replicate (length env - num_count) CHR '' '')"

text \<open>\<open>None\<close>: \<open>atol\<close> or the product leave the range of \<open>long\<close>, which C does not define.\<close>

definition parse_heap_size :: "string \<Rightarrow> int option" where
  "parse_heap_size env =
     (let n = atol (blank_tail env); bytes = heap_units env * n
      in if n \<le> LONG_MAX \<and> bytes \<le> LONG_MAX then Some bytes else None)"

text \<open>The default from the memory of the node; a process count of 0 would divide by zero.\<close>

definition default_heap_size :: "int \<Rightarrow> int \<Rightarrow> int \<Rightarrow> int option" where
  "default_heap_size pagesize availpages ppn =
     (if pagesize < 0 \<or> availpages < 0 then Some 128000000
      else if ppn \<le> 0 \<or> LONG_MAX < pagesize * availpages then None
      else let totalmem = pagesize * availpages div ppn
           in Some (if totalmem < 2 ^ 31 then totalmem else 2 ^ 31))"

section \<open>What is read\<close>

fun decimal :: "nat \<Rightarrow> string" where
  "decimal n = (if n < 10 then [''0123456789'' ! n] else decimal (n div 10) @ [''0123456789'' ! (n mod 10)])"

declare decimal.simps [simp del]

lemma digit_char:
  assumes "d < 10"
  shows "is_digit (''0123456789'' ! d)" "digit_value (''0123456789'' ! d) = int d"
proof -
  have "''0123456789'' ! d \<in> set ''0123456789''" using assms by (intro nth_mem) simp
  then show "is_digit (''0123456789'' ! d)" unfolding is_digit_def .
  have "\<forall>d \<in> set [0..<10]. digit_value (''0123456789'' ! d) = int d" by code_simp
  then show "digit_value (''0123456789'' ! d) = int d" using assms by simp
qed

lemma decimal_digits: "\<forall>c \<in> set (decimal n). is_digit c"
proof (induction n rule: decimal.induct)
  case (1 n)
  then show ?case by (subst decimal.simps) (auto simp: digit_char)
qed

lemma decimal_value: "foldl (\<lambda>n c. 10 * n + digit_value c) 0 (decimal n) = int n"
proof (induction n rule: decimal.induct)
  case (1 n)
  have "10 * int (n div 10) + int (n mod 10) = int n" by presburger
  with 1 show ?case by (subst decimal.simps) (auto simp: digit_char)
qed

lemma decimal_nonempty: "decimal n \<noteq> []"
  by (subst decimal.simps) auto

definition no_digit_first :: "string \<Rightarrow> bool" where
  "no_digit_first s \<longleftrightarrow> (case s of [] \<Rightarrow> True | c # cs \<Rightarrow> \<not> is_digit c)"

lemma takeWhile_decimal: "no_digit_first rest \<Longrightarrow> takeWhile is_digit (decimal n @ rest) = decimal n"
  using decimal_digits [of n] by (cases rest) (auto simp: takeWhile_append no_digit_first_def)

lemma blank_tail_decimal:
  "no_digit_first rest \<Longrightarrow> blank_tail (decimal n @ rest) = decimal n @ replicate (length rest) CHR '' ''"
  by (simp add: blank_tail_def strspn_digits_def takeWhile_decimal Let_def)

lemma digit_not_space: "is_digit c \<Longrightarrow> \<not> is_space c \<and> c \<noteq> CHR ''-'' \<and> c \<noteq> CHR ''+''"
  by (auto simp: is_digit_def is_space_def)

lemma atol_decimal:
  assumes "no_digit_first rest"
  shows "atol (decimal n @ rest) = int n"
proof -
  obtain c cs where d: "decimal n = c # cs" using decimal_nonempty [of n] by (cases "decimal n") auto
  then have "\<not> is_space c" "c \<noteq> CHR ''-''" "c \<noteq> CHR ''+''"
    using decimal_digits [of n] digit_not_space by auto
  then have "atol (decimal n @ rest) = digits_value (decimal n @ rest)" using d by (simp add: atol_def)
  then show ?thesis using assms by (simp add: digits_value_def takeWhile_decimal decimal_value)
qed

lemma heap_units_decimal: "heap_units (decimal n @ rest) = heap_units rest"
proof -
  have "c \<notin> set (decimal n)" if "\<not> is_digit c" for c using that decimal_digits by blast
  then have "CHR ''G'' \<notin> set (decimal n)" "CHR ''M'' \<notin> set (decimal n)" "CHR ''K'' \<notin> set (decimal n)"
    by (simp_all add: is_digit_def)
  then show ?thesis by (simp add: heap_units_def)
qed

lemma no_digit_blanks: "no_digit_first (replicate k CHR '' '')"
  by (cases k) (auto simp: no_digit_first_def is_digit_def)

lemma parse_decimal:
  assumes "no_digit_first rest"
  shows "parse_heap_size (decimal n @ rest) =
    (if heap_units rest * int n \<le> LONG_MAX then Some (heap_units rest * int n) else None)"
proof -
  have "1 \<le> heap_units rest" by (simp add: heap_units_def)
  then have "int n \<le> heap_units rest * int n" by (simp add: mult_le_cancel_right1)
  moreover have "atol (blank_tail (decimal n @ rest)) = int n"
    using assms by (simp add: blank_tail_decimal atol_decimal no_digit_blanks)
  ultimately show ?thesis by (simp add: parse_heap_size_def heap_units_decimal Let_def)
qed

lemma takeWhile_none: "no_digit_first s \<Longrightarrow> takeWhile is_digit s = []"
  by (cases s) (auto simp: no_digit_first_def)

lemma atol_blanks: "atol (replicate k CHR '' '') = 0"
proof -
  have "dropWhile is_space (replicate k CHR '' '') = []" by (auto simp: dropWhile_eq_Nil_conv is_space_def)
  then show ?thesis by (simp add: atol_def)
qed

lemma parse_no_digits: "no_digit_first s \<Longrightarrow> parse_heap_size s = Some 0"
  by (simp add: parse_heap_size_def blank_tail_def strspn_digits_def takeWhile_none atol_blanks LONG_MAX_def)

text \<open>
  C24: A heap size that starts with a decimal number is that number of gigabytes (10 to the 9) when a
  letter G stands anywhere behind it, else of megabytes (10 to the 6) for an M, else of kilobytes (1000)
  for a K, and else of bytes; whatever else follows the digits (a fraction, a trailing byte letter) is
  ignored. It is undefined exactly when the product leaves the range of \<open>long\<close>. A value that does not
  start with a digit, though it be a number behind a blank, asks for a heap of no bytes.
\<close>

theorem heap_size_parsed:
  assumes "no_digit_first rest"
  shows "(CHR ''G'' \<in> set rest \<longrightarrow> parse_heap_size (decimal n @ rest) =
      (if int n * 10 ^ 9 < 2 ^ 63 then Some (int n * 10 ^ 9) else None)) \<and>
    (CHR ''G'' \<notin> set rest \<and> CHR ''M'' \<in> set rest \<longrightarrow> parse_heap_size (decimal n @ rest) =
      (if int n * 10 ^ 6 < 2 ^ 63 then Some (int n * 10 ^ 6) else None)) \<and>
    (CHR ''G'' \<notin> set rest \<and> CHR ''M'' \<notin> set rest \<and> CHR ''K'' \<in> set rest \<longrightarrow>
      parse_heap_size (decimal n @ rest) =
      (if int n * 10 ^ 3 < 2 ^ 63 then Some (int n * 10 ^ 3) else None)) \<and>
    (set rest \<inter> {CHR ''G'', CHR ''M'', CHR ''K''} = {} \<longrightarrow> parse_heap_size (decimal n @ rest) =
      (if int n < 2 ^ 63 then Some (int n) else None)) \<and>
    parse_heap_size rest = Some 0"
  using parse_decimal [OF assms, of n] parse_no_digits [OF assms]
  by (auto simp: heap_units_def LONG_MAX_def)

theorem heap_size_parsed_witness:
  "parse_heap_size ''1.5G'' = Some 1000000000 \<and> parse_heap_size ''64MB'' = Some 64000000 \<and>
   parse_heap_size ''9K'' = Some 9000 \<and> parse_heap_size ''70'' = Some 70 \<and>
   parse_heap_size '' 512M'' = Some 0"
proof -
  have d: "decimal 1 = ''1''" "decimal 64 = ''64''" "decimal 9 = ''9''" "decimal 70 = ''70''"
    by (simp_all add: decimal.simps)
  show ?thesis
    using heap_size_parsed [of "''.5G''" 1] heap_size_parsed [of "''MB''" 64] heap_size_parsed [of "''K''" 9]
      heap_size_parsed [of "''''" 70] heap_size_parsed [of "'' 512M''" 0]
    unfolding d by (simp add: no_digit_first_def is_digit_def)
qed

text \<open>
  The default size is between 0 and 2 GiB whatever the system reports, and the processes of a
  node together ask for no more than its free memory.
\<close>

lemma default_heap_size_bounded:
  assumes "default_heap_size pagesize availpages ppn = Some bytes"
  shows "0 \<le> bytes \<and> bytes \<le> 2 ^ 31 \<and>
    (0 \<le> pagesize \<longrightarrow> 0 \<le> availpages \<longrightarrow> ppn * bytes \<le> pagesize * availpages)"
proof (cases "pagesize < 0 \<or> availpages < 0")
  case True
  with assms show ?thesis by (auto simp: default_heap_size_def)
next
  case False
  with assms have ppn: "0 < ppn" and b: "bytes \<le> pagesize * availpages div ppn" "bytes \<le> 2 ^ 31" "0 \<le> bytes"
    by (auto simp: default_heap_size_def Let_def pos_imp_zdiv_nonneg_iff split: if_splits)
  have "ppn * bytes \<le> ppn * (pagesize * availpages div ppn)" using b(1) ppn by (simp add: mult_le_cancel_left_pos)
  also have "\<dots> \<le> pagesize * availpages"
    using ppn by (metis minus_mod_eq_mult_div mult.commute pos_mod_sign diff_ge_0_iff_ge le_add_same_cancel1 mult_div_mod_eq)
  finally show ?thesis using b by simp
qed

end
