(* ===== verification/Init.thy ===== *)
theory Init
  imports Coll_Trace Mcs_Lock Heap_Size
begin

text \<open>
  Start-up and shutdown: \<open>oshmpi_initialize\<close> and \<open>oshmpi_finalize\<close> of
  \<open>src/src/shmem-internals.c\<close> and the entry points of \<open>src/src/shmem.c\<close> that call them, with
  every call they make to MPI, the C library and the operating system. \<open>process\<close> is what a
  process keeps between calls. The lemmas count the objects a run creates and frees.
\<close>

section \<open>The state of a process\<close>

text \<open>
  The lists of \<open>globals\<close> and the cache are arrays of the C program; \<open>\<dots>_mem\<close> is where \<open>malloc\<close>
  put them. \<open>data_start\<close> and \<open>end_addr\<close> are the linker symbols around the static data.
\<close>

record process =
  proc_globals :: globals
  comm_cache :: cache
  comm_cache_mem :: addr
  smp_rank_list_mem :: addr
  smp_sheap_ptrs_mem :: addr
  shmem_heap_mspace :: addr

record image =
  data_start :: addr
  end_addr :: addr

definition MPI_SUCCESS :: int where "MPI_SUCCESS = 0"
definition MPI_THREAD_SINGLE :: int where "MPI_THREAD_SINGLE = 0"
definition MPI_IDENT :: int where "MPI_IDENT = 0"
definition MPI_CONGRUENT :: int where "MPI_CONGRUENT = 1"
definition MPI_MODE_NOCHECK :: int where "MPI_MODE_NOCHECK = 1024"

section \<open>Start-up, step by step\<close>

definition init_threads :: "int \<Rightarrow> unit shm" where
  "init_threads threading =
     pbind (call_int (Env MPI_Initialized)) (\<lambda>flag.
     pbind (if flag = 0 then call_int (Env (MPI_Init_thread threading)) else call_int (Env MPI_Query_thread))
       (\<lambda>provided.
     if threading < provided
     then oshmpi_abort provided ''Your MPI implementation did not provide the requested thread support.''
     else Return ()))"

definition init_world :: "globals \<Rightarrow> globals shm" where
  "init_world g =
     pseq (call (Env (MPI_Comm_dup MPI_COMM_WORLD)))
     (pbind (call_int (Env (MPI_Comm_size SHMEM_COMM_WORLD))) (\<lambda>size.
     pbind (call_int (Env (MPI_Comm_rank SHMEM_COMM_WORLD))) (\<lambda>rank.
     pseq (call (Env (MPI_Comm_group SHMEM_COMM_WORLD)))
     (Return (g\<lparr>shmem_world_size := size, shmem_world_rank := rank\<rparr>)))))"

definition publish_appnum :: "globals \<Rightarrow> unit shm" where
  "publish_appnum g =
     pseq (call (Env (MPI_Win_allocate 4 4 SHMEM_COMM_WORLD Shmem_mpmd_appnum_win)))
     (pseq (call (Env (MPI_Win_lock_all 0 Shmem_mpmd_appnum_win)))
     (pseq (call (Rma (MPI_Accumulate (Val (word_of_int (shmem_mpmd_my_appnum g))) 1 MPI_INT
                         (shmem_world_rank g) 0 1 MPI_INT MPI_REPLACE Shmem_mpmd_appnum_win)))
     (call (Rma (MPI_Win_flush (shmem_world_rank g) Shmem_mpmd_appnum_win)))))"

definition init_mpmd :: "globals \<Rightarrow> globals shm" where
  "init_mpmd g =
     pbind (call_ints (Env (MPI_Comm_get_appnum MPI_COMM_WORLD))) (\<lambda>attr.
     let is_set = of_bool (attr \<noteq> []); appnum = (case attr of [] \<Rightarrow> 0 | a # _ \<Rightarrow> a) in
     if \<not> ENABLE_MPMD_SUPPORT (conf g)
     then if is_set \<noteq> 0 \<and> appnum \<noteq> 0
          then oshmpi_abort appnum ''You need to enable MPMD support in the build.''
          else Return g
     else pbind (call_int (Com (MPI_Allreduce_int is_set MPI_MAX SHMEM_COMM_WORLD))) (\<lambda>any_set.
          pbind (if any_set \<noteq> 0
                 then pbind (call_int (Com (MPI_Allreduce_int appnum MPI_MIN SHMEM_COMM_WORLD))) (\<lambda>appmin.
                      pbind (call_int (Com (MPI_Allreduce_int appnum MPI_MAX SHMEM_COMM_WORLD))) (\<lambda>appmax.
                      Return (g\<lparr>shmem_mpmd_my_appnum := appnum, shmem_running_mpmd := appmin \<noteq> appmax\<rparr>)))
                 else Return (g\<lparr>shmem_running_mpmd := False\<rparr>)) (\<lambda>g'.
          pseq (pwhen (shmem_running_mpmd g') (publish_appnum g')) (Return g'))))"

definition heap_size_vars :: "string list" where
  "heap_size_vars =
     [''SHMEM_SYMMETRIC_HEAP_SIZE'', ''SMA_SYMMETRIC_SIZE'', ''SYMMETRIC_SIZE'',
      ''X1_SYMMETRIC_HEAP_SIZE'', ''XT_SYMMETRIC_HEAP_SIZE'', ''OOSHM_SYMMETRIC_HEAP_SIZE'']"

primrec first_env :: "string list \<Rightarrow> string option shm" where
  "first_env [] = Return None"
| "first_env (v # vs) =
     pbind (call_str (Env (Getenv v)))
       (\<lambda>env_char. case env_char of None \<Rightarrow> first_env vs | Some s \<Rightarrow> Return (Some s))"

definition env_heap_size :: "int shm" where
  "env_heap_size =
     pbind (first_env heap_size_vars) (\<lambda>env_char.
     case env_char of None \<Rightarrow> Return (-1)
     | Some s \<Rightarrow> (case parse_heap_size s of None \<Rightarrow> Undef ''heap size overflow'' | Some n \<Rightarrow> Return n))"

definition node_heap_size :: "int shm" where
  "node_heap_size =
     pbind (call_comm (Env (MPI_Comm_split_type MPI_COMM_WORLD None))) (\<lambda>commtemp.
     pbind (call_int (Env (MPI_Comm_size commtemp))) (\<lambda>ppn.
     pseq (call (Com (MPI_Comm_free commtemp)))
     (pbind (call_int (Env Sysconf_PAGESIZE)) (\<lambda>pagesize.
     pbind (call_int (Env Sysconf_AVPHYS_PAGES)) (\<lambda>availpages.
     case default_heap_size pagesize availpages ppn of
       None \<Rightarrow> Undef ''pagesize*availpages/ppn''
     | Some n \<Rightarrow> call_int (Com (MPI_Bcast_long n 0 SHMEM_COMM_WORLD)))))))"

definition init_heap_size :: "globals \<Rightarrow> globals shm" where
  "init_heap_size g =
     pbind (if shmem_world_rank g = 0 then env_heap_size else Return (-1)) (\<lambda>mine.
     pbind (call_int (Com (MPI_Bcast_long mine 0 SHMEM_COMM_WORLD))) (\<lambda>size.
     pbind (if size = -1 then node_heap_size else Return size) (\<lambda>size.
     pseq (pwhen (shmem_world_rank g = 0) (call (Env (Printf ''OSHMPI symmetric heap size is'' size))))
     (Return (g\<lparr>shmem_sheap_size := size\<rparr>)))))"

definition init_info :: "unit shm" where
  "init_info =
     pseq (call (Env (MPI_Info_create ''sheap_info'')))
     (pseq (call (Env (MPI_Info_create ''etext_info'')))
     (pseq (call (Env (MPI_Info_set ''sheap_info'' ''same_size'' ''true'')))
     (call (Env (MPI_Info_set ''etext_info'' ''same_size'' ''true'')))))"

text \<open>\<open>shmem_smp_rank_list\<close> and its address; without the SMP build nothing happens.\<close>

definition init_node :: "globals \<Rightarrow> (globals \<times> addr) shm" where
  "init_node g =
     (if \<not> ENABLE_SMP_OPTIMIZATIONS (conf g) then Return (g, 0)
      else pseq (call (Env (MPI_Comm_split_type MPI_COMM_WORLD (Some SHMEM_COMM_NODE))))
     (pbind (call_int (Env (MPI_Comm_size SHMEM_COMM_NODE))) (\<lambda>node_size.
     pbind (call_int (Env (MPI_Comm_rank SHMEM_COMM_NODE))) (\<lambda>node_rank.
     pseq (call (Env (MPI_Comm_group SHMEM_COMM_NODE)))
     (pbind (call_int (Env (MPI_Comm_compare SHMEM_COMM_WORLD SHMEM_COMM_NODE))) (\<lambda>result.
     pbind (call_addr (Env (Malloc (node_size * 4)))) (\<lambda>rank_list.
     pbind (call_addr (Env (Malloc (node_size * 4)))) (\<lambda>temp_rank_list.
     if rank_list = 0 \<or> temp_rank_list = 0 then Undef ''malloc''
     else pbind (call_ints (Com (MPI_Group_translate_ranks SHMEM_GROUP_NODE (map int [0..<nat node_size])
                                   SHMEM_GROUP_WORLD))) (\<lambda>ranks.
     pseq (call (Env (Free temp_rank_list)))
     (Return (g\<lparr>shmem_node_size := node_size, shmem_node_rank := node_rank,
                shmem_world_is_smp := (result = MPI_IDENT \<or> result = MPI_CONGRUENT),
                shmem_smp_rank_list := ranks\<rparr>, rank_list)))))))))))"

definition window_failed :: "int \<Rightarrow> 'a shm" where
  "window_failed rc =
     pbind (call_str (Env (MPI_Error_string rc))) (\<lambda>errmsg.
     pseq (call (Env (Printf ''MPI_Win_allocate_shared error message'' rc)))
     (oshmpi_abort rc ''MPI_Win_allocate_shared failed''))"

primrec query_segments :: "int list \<Rightarrow> addr list shm" where
  "query_segments [] = Return []"
| "query_segments (rank # ranks) =
     pbind (call_addr (Env (MPI_Win_shared_query Shmem_sheap_win rank))) (\<lambda>p.
     pbind (query_segments ranks) (\<lambda>ps. Return (p # ps)))"

text \<open>The heap window, its base, and for a shared heap the segments of all PEs.\<close>

definition init_sheap :: "globals \<Rightarrow> (globals \<times> addr) shm" where
  "init_sheap g =
     (if ENABLE_SMP_OPTIMIZATIONS (conf g) \<and> shmem_world_is_smp g
      then pseq (call (Env (MPI_Info_set ''sheap_info'' ''alloc_shared_noncontig'' ''true'')))
     (pbind (call_int (Env (MPI_Win_allocate_shared (shmem_sheap_size g) 1 SHMEM_COMM_WORLD Shmem_sheap_win)))
       (\<lambda>rc.
     if rc \<noteq> MPI_SUCCESS then window_failed rc
     else pbind (call_addr (Env (MPI_Win_base Shmem_sheap_win))) (\<lambda>base.
     pbind (call_addr (Env (Malloc (shmem_node_size g * 8)))) (\<lambda>ptrs_mem.
     pseq (passert (ptrs_mem \<noteq> 0) ''shmem_smp_sheap_ptrs!=NULL'')
     (pbind (query_segments (map int [0..<nat (shmem_node_size g)])) (\<lambda>ptrs.
     Return (g\<lparr>shmem_sheap_base_ptr := base, shmem_smp_sheap_ptrs := ptrs\<rparr>, ptrs_mem)))))))
      else pseq (call (Env (MPI_Info_set ''sheap_info'' ''alloc_shm'' ''true'')))
     (pbind (call_int (Env (MPI_Win_allocate (shmem_sheap_size g) 1 SHMEM_COMM_WORLD Shmem_sheap_win)))
       (\<lambda>rc.
     if rc \<noteq> MPI_SUCCESS then window_failed rc
     else pbind (call_addr (Env (MPI_Win_base Shmem_sheap_win))) (\<lambda>base.
     Return (g\<lparr>shmem_sheap_base_ptr := base\<rparr>, 0)))))"

text \<open>The heap is enlarged by \<open>128*sizeof(size_t)\<close> here, after the window has been allocated.\<close>

definition init_mspace :: "globals \<Rightarrow> (globals \<times> addr) shm" where
  "init_mspace g =
     (let g' = g\<lparr>shmem_sheap_size := c_long (shmem_sheap_size g + 128 * 8)\<rparr> in
      pseq (call (Env (MPI_Win_lock_all MPI_MODE_NOCHECK Shmem_sheap_win)))
     (pbind (call_addr (Env (Create_mspace_with_base (shmem_sheap_base_ptr g') (shmem_sheap_size g') 0)))
       (\<lambda>msp. Return (g', msp))))"

text \<open>
  The window on the static data, as it is built: lines 368-369, the branch of
  \<open>ABUSE_MPICH_FOR_GLOBALS\<close> with a dynamic window, are left out, since nothing defines that macro.
\<close>

definition init_etext :: "image \<Rightarrow> globals \<Rightarrow> globals shm" where
  "init_etext im g =
     (let base = data_start im; long_etext_size = uint (end_addr im - base) in
      pseq (passert (long_etext_size < INT32_MAX) ''long_etext_size<(unsigned long)INT32_MAX'')
     (pseq (call (Env (MPI_Win_create base long_etext_size 1 SHMEM_COMM_WORLD Shmem_etext_win)))
     (pseq (call (Env (MPI_Win_lock_all 0 Shmem_etext_win)))
     (pseq (call (Env (MPI_Info_free ''etext_info'')))
     (pseq (call (Env (MPI_Info_free ''sheap_info'')))
     (pseq (call (Env (MPI_Win_get_model Shmem_sheap_win)))
     (pseq (call (Env (MPI_Win_get_model Shmem_etext_win)))
     (Return (g\<lparr>shmem_etext_base_ptr := base, shmem_etext_size := long_etext_size\<rparr>)))))))))"

definition init_cache :: "globals \<Rightarrow> (cache \<times> addr) shm" where
  "init_cache g =
     (if ENABLE_COMM_CACHING (conf g)
      then pbind (call_addr (Env (Malloc (16 * 32)))) (\<lambda>mem.
           pseq (passert (mem \<noteq> 0) ''comm_cache!=NULL'') (Return (initial_cache, mem)))
      else Return ([], 0))"

definition oshmpi_initialize :: "image \<Rightarrow> int \<Rightarrow> process \<Rightarrow> process shm" where
  "oshmpi_initialize im threading p =
     pseq (init_threads threading)
     (if shmem_is_initialized (proc_globals p) then Return p
      else pbind (init_world (proc_globals p)) (\<lambda>g.
      pbind (init_mpmd g) (\<lambda>g.
      pbind (init_heap_size g) (\<lambda>g.
      pseq init_info
      (pbind (init_node g) (\<lambda>(g, rank_list).
      pbind (init_sheap g) (\<lambda>(g, sheap_ptrs).
      pbind (init_mspace g) (\<lambda>(g, msp).
      pbind (init_etext im g) (\<lambda>g.
      pseq (oshmpi_allock SHMEM_COMM_WORLD)
      (pbind (init_cache g) (\<lambda>(es, cache_mem).
      pseq (call (Com (MPI_Barrier SHMEM_COMM_WORLD)))
      (Return \<lparr>proc_globals = g\<lparr>shmem_is_initialized := True\<rparr>, comm_cache = es,
         comm_cache_mem = cache_mem, smp_rank_list_mem = rank_list,
         smp_sheap_ptrs_mem = sheap_ptrs, shmem_heap_mspace = msp\<rparr>))))))))))))"

section \<open>Shutdown\<close>

definition free_slot :: "shmem_comm_t \<Rightarrow> unit shm" where
  "free_slot e =
     pwhen (comm e \<noteq> MPI_COMM_NULL)
       (pseq (call (Com (MPI_Comm_free (comm e)))) (call (Com (MPI_Group_free (comm_group e)))))"

definition free_window :: "mpi_win \<Rightarrow> unit shm" where
  "free_window w = pseq (call (Env (MPI_Win_unlock_all w))) (call (Env (MPI_Win_free w)))"

definition finalize_shmem :: "process \<Rightarrow> unit shm" where
  "finalize_shmem p =
     (let g = proc_globals p in
      pseq oshmpi_deallock
     (pseq (pwhen (ENABLE_COMM_CACHING (conf g))
              (pseq (pseqs (map free_slot (comm_cache p))) (call (Env (Free (comm_cache_mem p))))))
     (pseq (call (Com (MPI_Barrier SHMEM_COMM_WORLD)))
     (pseq (pwhen (ENABLE_MPMD_SUPPORT (conf g) \<and> shmem_running_mpmd g) (free_window Shmem_mpmd_appnum_win))
     (pseq (free_window Shmem_etext_win)
     (pseq (free_window Shmem_sheap_win)
     (pseq (pwhen (ENABLE_SMP_OPTIMIZATIONS (conf g))
              (pseq (pwhen (shmem_world_is_smp g) (call (Env (Free (smp_sheap_ptrs_mem p)))))
              (pseq (call (Env (Free (smp_rank_list_mem p))))
              (pseq (call (Com (MPI_Group_free SHMEM_GROUP_NODE)))
              (call (Com (MPI_Comm_free SHMEM_COMM_NODE)))))))
     (pseq (call (Com (MPI_Group_free SHMEM_GROUP_WORLD)))
     (call (Com (MPI_Comm_free SHMEM_COMM_WORLD)))))))))))"

definition oshmpi_finalize :: "process \<Rightarrow> process shm" where
  "oshmpi_finalize p =
     pbind (call_int (Env MPI_Finalized)) (\<lambda>flag.
     if flag \<noteq> 0 then Return p
     else if shmem_is_initialized (proc_globals p) \<and> \<not> shmem_is_finalized (proc_globals p)
     then pseq (finalize_shmem p)
          (pseq (call (Env MPI_Finalize))
          (Return (p\<lparr>proc_globals := (proc_globals p)\<lparr>shmem_is_finalized := True\<rparr>\<rparr>)))
     else pseq (call (Env MPI_Finalize)) (Return p))"

section \<open>Entry points\<close>

definition start_pes :: "image \<Rightarrow> int \<Rightarrow> process \<Rightarrow> process shm" where
  "start_pes im npes p =
     pbind (oshmpi_initialize im MPI_THREAD_SINGLE p)
       (\<lambda>p'. pseq (call (Env (Atexit ''oshmpi_finalize''))) (Return p'))"

definition shmem_init :: "image \<Rightarrow> process \<Rightarrow> process shm" where
  "shmem_init im p =
     pbind (oshmpi_initialize im MPI_THREAD_SINGLE p)
       (\<lambda>p'. pseq (call (Env (Atexit ''oshmpi_finalize''))) (Return p'))"

definition shmem_finalize :: "process \<Rightarrow> process shm" where
  "shmem_finalize p = oshmpi_finalize p"

definition shmem_global_exit :: "int \<Rightarrow> unit shm" where
  "shmem_global_exit status = oshmpi_abort status []"

definition num_pes :: "globals \<Rightarrow> int" where
  "num_pes g = shmem_world_size g"

definition my_pe :: "globals \<Rightarrow> int" where
  "my_pe g = shmem_world_rank g"

definition shmem_set_cache_inv :: "unit shm" where "shmem_set_cache_inv = Return ()"
definition shmem_set_cache_line_inv :: "addr \<Rightarrow> unit shm" where "shmem_set_cache_line_inv target = Return ()"
definition shmem_clear_cache_inv :: "unit shm" where "shmem_clear_cache_inv = Return ()"
definition shmem_clear_cache_line_inv :: "addr \<Rightarrow> unit shm" where "shmem_clear_cache_line_inv target = Return ()"
definition shmem_udcflush :: "unit shm" where "shmem_udcflush = Return ()"
definition shmem_udcflush_line :: "addr \<Rightarrow> unit shm" where "shmem_udcflush_line target = Return ()"

definition shmem_wtime :: "scalar shm" where "shmem_wtime = call_val (Env MPI_Wtime)"

definition shmem_nodename :: "string option shm" where
  "shmem_nodename = call_str (Env MPI_Get_processor_name)"

end
