(* ===== verification/Init_Properties.thy ===== *)
theory Init_Properties
  imports Init
begin

text \<open>
  What start-up and shutdown promise: the two together free every object they create, a second
  start-up does nothing, and the heap the allocator manages is larger than the window that
  exposes it.
\<close>

section \<open>Counting objects\<close>

datatype (plugins only: code size) kind = K_win mpi_win | K_comm | K_group | K_info string | K_mem

fun created :: "eff \<Rightarrow> kind option" where
  "created (Env (MPI_Win_allocate n d c w)) = Some (K_win w)"
| "created (Env (MPI_Win_allocate_shared n d c w)) = Some (K_win w)"
| "created (Env (MPI_Win_create a n d c w)) = Some (K_win w)"
| "created (Env (MPI_Comm_dup c)) = Some K_comm"
| "created (Env (MPI_Comm_split_type c v)) = Some K_comm"
| "created (Com (MPI_Comm_create_group c g t)) = Some K_comm"
| "created (Env (MPI_Comm_group c)) = Some K_group"
| "created (Com (MPI_Group_incl g l)) = Some K_group"
| "created (Env (MPI_Info_create i)) = Some (K_info i)"
| "created (Env (Malloc n)) = Some K_mem"
| "created _ = None"

fun destroyed :: "eff \<Rightarrow> kind option" where
  "destroyed (Env (MPI_Win_free w)) = Some (K_win w)"
| "destroyed (Com (MPI_Comm_free c)) = Some K_comm"
| "destroyed (Com (MPI_Group_free g)) = Some K_group"
| "destroyed (Env (MPI_Info_free i)) = Some (K_info i)"
| "destroyed (Env (Free a)) = Some K_mem"
| "destroyed _ = None"

text \<open>Objects created less objects freed.\<close>

primrec balance :: "kind \<Rightarrow> eff list \<Rightarrow> int" where
  "balance k [] = 0"
| "balance k (e # l) = of_bool (created e = Some k) - of_bool (destroyed e = Some k) + balance k l"

lemma balance_append [simp]: "balance k (l @ l') = balance k l + balance k l'"
  by (induction l) auto

text \<open>A run that changes the balance by \<open>d\<close>, and whose result satisfies \<open>P\<close>.\<close>

definition costs ::
    "(eff list \<Rightarrow> eff \<Rightarrow> resp) \<Rightarrow> 'a shm \<Rightarrow> ('a \<Rightarrow> kind \<Rightarrow> int) \<Rightarrow> ('a \<Rightarrow> bool) \<Rightarrow> bool" where
  "costs orc p d P \<longleftrightarrow>
     (\<forall>l. ends (logged orc) p l (\<lambda>a l'. P a \<and> (\<forall>k. balance k l' = balance k l + d a k)))"

definition cost :: "eff \<Rightarrow> kind \<Rightarrow> int" where
  "cost e k = of_bool (created e = Some k) - of_bool (destroyed e = Some k)"

lemma costsD: "costs orc p d P \<Longrightarrow>
   ends (logged orc) p l (\<lambda>a l'. P a \<and> (\<forall>k. balance k l' = balance k l + d a k))"
  by (simp add: costs_def)

lemma costs_Return: "P a \<Longrightarrow> (\<And>k. d a k = 0) \<Longrightarrow> costs orc (Return a) d P"
  by (simp add: costs_def)

lemma costs_pbind:
  assumes p: "costs orc p d P" and q: "\<And>a. P a \<Longrightarrow> costs orc (q a) (\<lambda>b k. d' b k - d a k) Q"
  shows "costs orc (pbind p q) d' Q"
  unfolding costs_def ends_pbind
proof
  fix l
  show "ends (logged orc) p l (\<lambda>a s'. ends (logged orc) (q a) s'
      (\<lambda>a l'. Q a \<and> (\<forall>k. balance k l' = balance k l + d' a k)))"
    by (rule ends_mono [OF costsD [OF p]], clarify, rule ends_mono [OF costsD [OF q]]) auto
qed

lemma costs_pseq:
  "costs orc p (\<lambda>_. d) (\<lambda>_. True) \<Longrightarrow> costs orc q (\<lambda>b k. d' b k - d k) Q \<Longrightarrow> costs orc (pseq p q) d' Q"
  unfolding pseq_def by (rule costs_pbind)

lemma costs_call: "costs orc (call e) (\<lambda>_. cost e) (\<lambda>_. True)"
  by (simp add: costs_def cost_def logged_call)

lemma costs_int:
  assumes "\<And>l. \<exists>i. orc l e = RInt i \<and> P i"
  shows "costs orc (call_int e) (\<lambda>_. cost e) P"
  unfolding costs_def
proof
  fix l
  obtain i where "orc l e = RInt i" "P i" using assms by blast
  then show "ends (logged orc) (call_int e) l (\<lambda>a l'. P a \<and> (\<forall>k. balance k l' = balance k l + cost e k))"
    by (intro logged_int) (simp_all add: cost_def)
qed

lemma costs_ints:
  assumes "\<And>l. \<exists>i. orc l e = RInts i \<and> P i"
  shows "costs orc (call_ints e) (\<lambda>_. cost e) P"
  unfolding costs_def
proof
  fix l
  obtain i where "orc l e = RInts i" "P i" using assms by blast
  then show "ends (logged orc) (call_ints e) l (\<lambda>a l'. P a \<and> (\<forall>k. balance k l' = balance k l + cost e k))"
    by (intro logged_ints) (simp_all add: cost_def)
qed

lemma costs_addr:
  assumes "\<And>l. \<exists>i. orc l e = RAddr i \<and> P i"
  shows "costs orc (call_addr e) (\<lambda>_. cost e) P"
  unfolding costs_def
proof
  fix l
  obtain i where "orc l e = RAddr i" "P i" using assms by blast
  then show "ends (logged orc) (call_addr e) l (\<lambda>a l'. P a \<and> (\<forall>k. balance k l' = balance k l + cost e k))"
    by (intro logged_addr) (simp_all add: cost_def)
qed

lemma costs_comm:
  assumes "\<And>l. \<exists>i. orc l e = RComm i \<and> P i"
  shows "costs orc (call_comm e) (\<lambda>_. cost e) P"
  unfolding costs_def
proof
  fix l
  obtain i where "orc l e = RComm i" "P i" using assms by blast
  then show "ends (logged orc) (call_comm e) l (\<lambda>a l'. P a \<and> (\<forall>k. balance k l' = balance k l + cost e k))"
    by (intro logged_comm) (simp_all add: cost_def)
qed

lemma costs_str:
  assumes "\<And>l. \<exists>i. orc l e = RStr i \<and> P i"
  shows "costs orc (call_str e) (\<lambda>_. cost e) P"
  unfolding costs_def
proof
  fix l
  obtain i where "orc l e = RStr i" "P i" using assms by blast
  then show "ends (logged orc) (call_str e) l (\<lambda>a l'. P a \<and> (\<forall>k. balance k l' = balance k l + cost e k))"
    by (intro logged_str) (simp_all add: cost_def)
qed

lemma costs_when: "costs orc p (\<lambda>_. d) (\<lambda>_. True) \<Longrightarrow> (\<And>k. d' () k = (if b then d k else 0)) \<Longrightarrow>
    costs orc (pwhen b p) d' (\<lambda>_. True)"
  by (cases b) (simp_all add: costs_def)

lemma costs_weaken: "costs orc p d P \<Longrightarrow> (\<And>a. P a \<Longrightarrow> Q a \<and> (\<forall>k. d a k = d' a k)) \<Longrightarrow> costs orc p d' Q"
  unfolding costs_def by (fastforce elim: ends_mono)

section \<open>A start-up without failures\<close>

text \<open>
  MPI gives the requested thread level, the windows can be allocated, the sizes do not overflow,
  the program is not launched as MPMD unless the build supports it, and MPI is not finalized.
\<close>

definition smooth :: "(eff list \<Rightarrow> eff \<Rightarrow> resp) \<Rightarrow> globals \<Rightarrow> int \<Rightarrow> bool" where
  "smooth orc g threading \<longleftrightarrow> typed_oracle orc \<and> malloc_ok orc \<and>
     (\<forall>l. orc l (Env (MPI_Init_thread threading)) = RInt threading \<and>
          orc l (Env MPI_Query_thread) = RInt threading \<and> orc l (Env MPI_Finalized) = RInt 0) \<and>
     (\<forall>l. ENABLE_MPMD_SUPPORT (conf g) \<or> orc l (Env (MPI_Comm_get_appnum MPI_COMM_WORLD)) = RInts []) \<and>
     (\<forall>l n c w. orc l (Env (MPI_Win_allocate n 1 c w)) = RInt MPI_SUCCESS \<and>
          orc l (Env (MPI_Win_allocate_shared n 1 c w)) = RInt MPI_SUCCESS) \<and>
     (\<forall>l v s. orc l (Env (Getenv v)) = RStr (Some s) \<longrightarrow> parse_heap_size s \<noteq> None) \<and>
     (\<exists>page avail. 0 \<le> page \<and> 0 \<le> avail \<and> page * avail \<le> LONG_MAX \<and> (\<forall>l.
        orc l (Env Sysconf_PAGESIZE) = RInt page \<and> orc l (Env Sysconf_AVPHYS_PAGES) = RInt avail)) \<and>
     (\<forall>l c. \<exists>n > 0. orc l (Env (MPI_Comm_size c)) = RInt n)"

lemma typed_env:
  assumes "typed_oracle orc"
  shows "\<exists>x. orc l (Env MPI_Initialized) = RInt x" "\<exists>x. orc l (Env (MPI_Comm_size c)) = RInt x"
    "\<exists>x. orc l (Env (MPI_Comm_rank c)) = RInt x" "\<exists>x. orc l (Env (MPI_Comm_get_appnum c)) = RInts x"
    "\<exists>x. orc l (Env (MPI_Comm_split_type c v)) = RComm x"
    "\<exists>x. orc l (Env (MPI_Comm_compare c c')) = RInt x" "\<exists>x. orc l (Env (Getenv s)) = RStr x"
    "\<exists>x. orc l (Env (MPI_Win_shared_query w k)) = RAddr x" "\<exists>x. orc l (Env (MPI_Win_base w)) = RAddr x"
    "\<exists>x. orc l (Env (Create_mspace_with_base a n k')) = RAddr x"
    "\<exists>x. orc l (Com (MPI_Allreduce_int i oper c)) = RInt x" "\<exists>x. orc l (Com (MPI_Bcast_long i r c)) = RInt x"
    "\<exists>x. orc l (Com (MPI_Group_translate_ranks gr rs gr')) = RInts x"
  using assms unfolding typed_oracle_def
  by (metis well_typed.simps)+

lemma smoothD:
  assumes "smooth orc g threading"
  shows "typed_oracle orc" "malloc_ok orc" "orc l (Env (MPI_Init_thread threading)) = RInt threading"
    "orc l (Env MPI_Query_thread) = RInt threading" "orc l (Env MPI_Finalized) = RInt 0"
    "\<not> ENABLE_MPMD_SUPPORT (conf g) \<Longrightarrow> orc l (Env (MPI_Comm_get_appnum MPI_COMM_WORLD)) = RInts []"
    "orc l (Env (MPI_Win_allocate n 1 c w)) = RInt MPI_SUCCESS"
    "orc l (Env (MPI_Win_allocate_shared n 1 c w)) = RInt MPI_SUCCESS"
    "orc l (Env (Getenv v)) = RStr (Some s) \<Longrightarrow> parse_heap_size s \<noteq> None"
    "\<exists>n > 0. orc l (Env (MPI_Comm_size c')) = RInt n"
  using assms unfolding smooth_def by blast+


section \<open>The cost of every step\<close>

abbreviation kept :: "globals \<Rightarrow> globals \<Rightarrow> bool" where
  "kept h g \<equiv> conf h = conf g \<and> shmem_is_finalized h = shmem_is_finalized g"

lemmas costs_intros =
  costs_pseq [OF costs_call] costs_pbind [OF costs_int [where P = "\<lambda>_. True"]]
  costs_pbind [OF costs_addr [where P = "\<lambda>_. True"]] costs_pbind [OF costs_ints [where P = "\<lambda>_. True"]]
  costs_pbind [OF costs_comm [where P = "\<lambda>_. True"]] costs_pbind [OF costs_str [where P = "\<lambda>_. True"]]

lemma costs_malloc:
  assumes "malloc_ok orc" "\<And>a. a \<noteq> 0 \<Longrightarrow> costs orc (q a) (\<lambda>b k. d' b k - of_bool (k = K_mem)) Q"
  shows "costs orc (pbind (call_addr (Env (Malloc n))) q) d' Q"
proof (rule costs_pbind [OF costs_addr])
  show "\<exists>a. orc l (Env (Malloc n)) = RAddr a \<and> a \<noteq> 0" for l using assms(1) by (auto simp: malloc_ok_def)
  show "costs orc (q a) (\<lambda>b k. d' b k - cost (Env (Malloc n)) k) Q" if "a \<noteq> 0" for a
    using assms(2) [OF that] by (simp add: cost_def eq_commute)
qed

lemma init_threads_costs: "smooth orc g th \<Longrightarrow> costs orc (init_threads th) (\<lambda>_ _. 0) (\<lambda>_. True)"
  unfolding init_threads_def
  apply (rule costs_intros)
   apply (simp add: typed_env smoothD)
  apply (rule costs_pbind [where P = "\<lambda>i. i = th" and d = "\<lambda>_ _. 0"])
   apply (rule costs_weaken [where P = "\<lambda>i. i = th" and d = "\<lambda>_ _. 0"])
    apply (auto simp: smoothD cost_def costs_def intro!: logged_int) [2]
  apply (auto intro!: costs_Return simp: cost_def)
  done

lemma init_world_costs:
  "smooth orc g' th \<Longrightarrow> costs orc (init_world g) (\<lambda>_ k. of_bool (k = K_comm) + of_bool (k = K_group))
     (\<lambda>h. kept h g)"
  unfolding init_world_def
  apply (rule costs_intros)+
    apply (simp add: typed_env smoothD)
  apply (rule costs_intros)+
   apply (simp add: typed_env smoothD)
  apply (rule costs_intros)
  apply (rule costs_Return)
   apply (auto simp: cost_def)
  done

definition mpmd_cost :: "globals \<Rightarrow> kind \<Rightarrow> int" where
  "mpmd_cost g k = of_bool (k = K_win Shmem_mpmd_appnum_win \<and> ENABLE_MPMD_SUPPORT (conf g) \<and> shmem_running_mpmd g)"

lemma publish_appnum_costs:
  "costs orc (publish_appnum g) (\<lambda>_ k. of_bool (k = K_win Shmem_mpmd_appnum_win)) (\<lambda>_. True)"
  unfolding publish_appnum_def
  apply (rule costs_intros)+
  apply (rule costs_weaken [OF costs_call])
  apply (auto simp: cost_def)
  done

lemma init_mpmd_costs:
  assumes s: "smooth orc g th" and c: "kept h g"
  shows "costs orc (init_mpmd h) mpmd_cost (\<lambda>h'. kept h' g)"
proof (cases "ENABLE_MPMD_SUPPORT (conf g)")
  case False
  show ?thesis
    unfolding init_mpmd_def Let_def
    apply (rule costs_pbind [OF costs_ints [where P = "\<lambda>a. a = []"]])
    using s False c by (auto simp: smoothD cost_def mpmd_cost_def intro!: costs_Return)
next
  case True
  have t: "typed_oracle orc" using s by (rule smoothD)
  show ?thesis
    unfolding init_mpmd_def Let_def
    apply (rule costs_intros)
     apply (simp add: typed_env t)
    apply (simp only: True c not_True_eq_False if_False)
    apply (rule costs_intros)
     apply (simp add: typed_env t)
    apply (rule costs_pbind [where P = "\<lambda>h'. kept h' g" and d = "\<lambda>_ _. 0"])
     apply (auto simp: cost_def typed_env t c intro!: costs_intros costs_Return) [1]
    apply (rule costs_pseq)
     apply (rule costs_when [OF publish_appnum_costs], rule refl)
    apply (use True in \<open>auto intro!: costs_Return simp: cost_def mpmd_cost_def\<close>)
    done
qed

lemma first_env_costs:
  "smooth orc g th \<Longrightarrow> costs orc (first_env vs) (\<lambda>_ _. 0) (\<lambda>r. \<forall>s. r = Some s \<longrightarrow> parse_heap_size s \<noteq> None)"
proof (induction vs)
  case Nil
  then show ?case by (auto intro: costs_Return)
next
  case (Cons v vs)
  have "costs orc (call_str (Env (Getenv v))) (\<lambda>_. cost (Env (Getenv v)))
      (\<lambda>r. \<forall>s. r = Some s \<longrightarrow> parse_heap_size s \<noteq> None)"
    using typed_env(7) [OF smoothD(1) [OF Cons.prems]] smoothD(9) [OF Cons.prems]
    by (intro costs_str) metis
  then show ?case
    unfolding first_env.simps
    by (rule costs_pbind) (auto split: option.split intro!: costs_Return simp: cost_def Cons.IH [OF Cons.prems, simplified])
qed

lemma env_heap_size_costs: "smooth orc g th \<Longrightarrow> costs orc env_heap_size (\<lambda>_ _. 0) (\<lambda>_. True)"
  unfolding env_heap_size_def
  by (rule costs_pbind [OF first_env_costs]) (auto split: option.split intro!: costs_Return)

lemma default_heap_size_Some:
  "0 < n \<Longrightarrow> 0 \<le> page \<Longrightarrow> page * avail \<le> LONG_MAX \<Longrightarrow> \<exists>b. default_heap_size page avail n = Some b"
  by (auto simp: default_heap_size_def Let_def)

lemma node_heap_size_costs:
  assumes s: "smooth orc g th"
  shows "costs orc node_heap_size (\<lambda>_ _. 0) (\<lambda>_. True)"
proof -
  have t: "typed_oracle orc" using s by (rule smoothD)
  obtain page avail where pa: "0 \<le> page" "0 \<le> avail" "page * avail \<le> LONG_MAX"
    "\<And>l. orc l (Env Sysconf_PAGESIZE) = RInt page" "\<And>l. orc l (Env Sysconf_AVPHYS_PAGES) = RInt avail"
    using s unfolding smooth_def by blast
  show ?thesis
    unfolding node_heap_size_def
    apply (rule costs_intros)
     apply (simp add: typed_env t)
    apply (rule costs_pbind [OF costs_int [where P = "\<lambda>n. 0 < n"]])
     using smoothD(10) [OF s] apply blast
    apply (rule costs_intros)
    apply (rule costs_pbind [OF costs_int [where P = "\<lambda>n. n = page"]])
     apply (simp add: pa)
    apply (rule costs_pbind [OF costs_int [where P = "\<lambda>n. n = avail"]])
     apply (simp add: pa)
    subgoal premises prems for c n page' avail'
    proof -
      obtain b where "default_heap_size page' avail' n = Some b"
        using default_heap_size_Some [OF prems(2) pa(1,3)] prems(3,4) by auto
      then show ?thesis
        apply simp
        apply (rule costs_weaken [OF costs_int [where P = "\<lambda>_. True"]])
         apply (simp add: typed_env t)
        apply (simp add: cost_def)
        done
    qed
    done
qed

lemma init_heap_size_costs:
  assumes s: "smooth orc g th"
  shows "costs orc (init_heap_size h) (\<lambda>_ _. 0)
     (\<lambda>h'. kept h' h \<and> shmem_running_mpmd h' = shmem_running_mpmd h)"
  unfolding init_heap_size_def
  apply (rule costs_pbind [where P = "\<lambda>_. True" and d = "\<lambda>_ _. 0"])
   apply (auto intro: env_heap_size_costs [OF s] costs_Return) [1]
  apply (rule costs_intros)
   apply (simp add: typed_env smoothD [OF s])
  apply (rule costs_pbind [where P = "\<lambda>_. True" and d = "\<lambda>_ _. 0"])
   apply (auto intro: node_heap_size_costs [OF s] costs_Return) [1]
  apply (rule costs_pseq)
   apply (rule costs_when [OF costs_call], rule refl)
  apply (rule costs_Return)
   apply (auto simp: cost_def)
  done


lemma init_info_costs: "costs orc init_info
    (\<lambda>_ k. of_bool (k = K_info ''sheap_info'') + of_bool (k = K_info ''etext_info'')) (\<lambda>_. True)"
  unfolding init_info_def
  apply (rule costs_intros)+
  apply (rule costs_weaken [OF costs_call])
  apply (auto simp: cost_def)
  done

definition node_cost :: "globals \<Rightarrow> kind \<Rightarrow> int" where
  "node_cost g k = of_bool (ENABLE_SMP_OPTIMIZATIONS (conf g) \<and> (k = K_comm \<or> k = K_group \<or> k = K_mem))"

lemma init_node_costs:
  assumes s: "smooth orc g th" and h: "kept h g \<and> shmem_running_mpmd h = mp"
  shows "costs orc (init_node h) (\<lambda>_. node_cost g) (\<lambda>(h', a). kept h' g \<and> shmem_running_mpmd h' = mp)"
proof (cases "ENABLE_SMP_OPTIMIZATIONS (conf g)")
  case False
  then show ?thesis using h by (auto simp: init_node_def node_cost_def intro!: costs_Return)
next
  case True
  have t: "typed_oracle orc" "malloc_ok orc" using s by (rule smoothD)+
  have tr: "\<exists>x. orc l (Com (MPI_Group_translate_ranks gr rs gr')) = RInts x" for l gr rs gr'
    using typed_env(13) [OF t(1)] .
  show ?thesis
    unfolding init_node_def
    apply (simp only: h True not_True_eq_False if_False)
    apply (rule costs_intros)+
      apply (simp add: typed_env t)
    apply (rule costs_intros)
     apply (simp add: typed_env t)
    apply (rule costs_intros)+
     apply (simp add: typed_env t)
    apply (rule costs_malloc [OF t(2)])+
    apply (simp only: HOL.simp_thms if_False)
    apply (rule costs_intros)
     apply (simp add: tr)
    apply (rule costs_intros)
    apply (rule costs_Return)
     apply (use h True in \<open>auto simp: cost_def node_cost_def\<close>)
    done
qed

lemma query_segments_costs:
  assumes "typed_oracle orc"
  shows "costs orc (query_segments rs) (\<lambda>_ _. 0) (\<lambda>_. True)"
proof (induction rs)
  case Nil
  then show ?case by (simp add: costs_Return)
next
  case (Cons r rs)
  show ?case
    unfolding query_segments.simps
    apply (rule costs_intros)
     apply (simp add: typed_env assms)
    apply (rule costs_pbind [OF costs_weaken [OF Cons]])
     apply (auto simp: cost_def intro!: costs_Return)
    done
qed

definition sheap_cost :: "globals \<Rightarrow> kind \<Rightarrow> int" where
  "sheap_cost g k = of_bool (k = K_win Shmem_sheap_win) +
     of_bool (k = K_mem \<and> ENABLE_SMP_OPTIMIZATIONS (conf g) \<and> shmem_world_is_smp g)"

lemma window_ok:
  assumes s: "smooth orc g th" and Q: "\<And>rc. rc = MPI_SUCCESS \<Longrightarrow>
      costs orc (q rc) (\<lambda>b k. d b k - of_bool (k = K_win w)) P"
  shows "costs orc (pbind (call_int (Env (MPI_Win_allocate n 1 c w))) q) d P"
    and "costs orc (pbind (call_int (Env (MPI_Win_allocate_shared n 1 c w))) q) d P"
  using Q by (auto intro!: costs_pbind [OF costs_int [where P = "\<lambda>rc. rc = MPI_SUCCESS"]]
      simp: smoothD [OF s] cost_def eq_commute)

lemma init_sheap_costs:
  assumes s: "smooth orc g th" and h: "kept h g \<and> shmem_running_mpmd h = mp"
  shows "costs orc (init_sheap h) (sheap_cost \<circ> fst) (\<lambda>(h', a). kept h' g \<and> shmem_running_mpmd h' = mp)"
proof (cases "ENABLE_SMP_OPTIMIZATIONS (conf h) \<and> shmem_world_is_smp h")
  case False
  show ?thesis
    unfolding init_sheap_def
    apply (simp only: False if_False)
    apply (rule costs_intros)
    apply (rule window_ok [OF s])
    apply (simp only: HOL.simp_thms if_False)
    apply (rule costs_intros)
     apply (simp add: typed_env smoothD [OF s])
    apply (rule costs_Return)
     apply (use False h in \<open>auto simp: sheap_cost_def cost_def\<close>)
    done
next
  case True
  show ?thesis
    unfolding init_sheap_def
    apply (simp only: True HOL.simp_thms if_True)
    apply (rule costs_intros)
    apply (rule window_ok [OF s])
    apply (simp only: HOL.simp_thms if_False)
    apply (rule costs_intros)
     apply (simp add: typed_env smoothD [OF s])
    apply (rule costs_malloc [OF smoothD(2) [OF s]])
    apply (simp add: passert_def)
    apply (rule costs_pbind [OF query_segments_costs [OF smoothD(1) [OF s]]])
    apply (rule costs_Return)
     apply (use True h in \<open>auto simp: sheap_cost_def cost_def\<close>)
    done
qed

lemma init_mspace_costs:
  assumes s: "smooth orc g th"
  shows "costs orc (init_mspace h) (\<lambda>_ _. 0)
     (\<lambda>(h', a). kept h' h \<and> shmem_running_mpmd h' = shmem_running_mpmd h \<and>
        shmem_world_is_smp h' = shmem_world_is_smp h)"
  unfolding init_mspace_def Let_def
  apply (rule costs_intros)+
   apply (simp add: typed_env smoothD [OF s])
  apply (rule costs_Return)
   apply (auto simp: cost_def)
  done

lemma init_etext_costs:
  assumes "uint (end_addr im - data_start im) < INT32_MAX"
  shows "costs orc (init_etext im h)
     (\<lambda>_ k. of_bool (k = K_win Shmem_etext_win) - of_bool (k = K_info ''sheap_info'') - of_bool (k = K_info ''etext_info''))
     (\<lambda>h'. kept h' h \<and> shmem_running_mpmd h' = shmem_running_mpmd h \<and>
        shmem_world_is_smp h' = shmem_world_is_smp h)"
  unfolding init_etext_def Let_def
  apply (simp add: assms passert_def)
  apply (rule costs_intros)+
  apply (rule costs_Return)
   apply (auto simp: cost_def)
  done

lemma allock_costs: "costs orc (oshmpi_allock c) (\<lambda>_ k. of_bool (k = K_win Oshmpi_lock_win)) (\<lambda>_. True)"
  unfolding oshmpi_allock_def lock_base_store_def
  apply (rule costs_intros)+
  apply (rule costs_weaken [OF costs_call])
  apply (auto simp: cost_def)
  done

lemma init_cache_costs:
  assumes s: "smooth orc g th" and h: "kept h g"
  shows "costs orc (init_cache h) (\<lambda>_ k. of_bool (k = K_mem \<and> ENABLE_COMM_CACHING (conf g)))
     (\<lambda>(es, a). \<forall>e \<in> set es. comm e = MPI_COMM_NULL)"
proof (cases "ENABLE_COMM_CACHING (conf g)")
  case False
  then show ?thesis using h by (auto simp: init_cache_def intro!: costs_Return)
next
  case True
  then show ?thesis
    unfolding init_cache_def
    apply (simp add: h)
    apply (rule costs_malloc [OF smoothD(2) [OF s]])
    apply (simp add: passert_def)
    apply (rule costs_Return)
     apply (auto simp: initial_cache_def empty_slot_def)
    done
qed


section \<open>Start-up and shutdown together\<close>

text \<open>What a started process holds.\<close>

definition holdings :: "process \<Rightarrow> kind \<Rightarrow> int" where
  "holdings p k =
     (let g = proc_globals p in
      of_bool (k = K_comm) + of_bool (k = K_group) + mpmd_cost g k + node_cost g k + sheap_cost g k +
      of_bool (k = K_win Shmem_etext_win) + of_bool (k = K_win Oshmpi_lock_win) +
      of_bool (k = K_mem \<and> ENABLE_COMM_CACHING (conf g)))"

definition fresh_process :: "process \<Rightarrow> bool" where
  "fresh_process p \<longleftrightarrow> \<not> shmem_is_initialized (proc_globals p) \<and> \<not> shmem_is_finalized (proc_globals p)"

lemma initialize_costs:
  assumes s: "smooth orc (proc_globals p) th" and im: "uint (end_addr im - data_start im) < INT32_MAX"
    and p: "\<not> shmem_is_initialized (proc_globals p)"
  shows "costs orc (oshmpi_initialize im th p) holdings
     (\<lambda>p'. shmem_is_initialized (proc_globals p') \<and>
       shmem_is_finalized (proc_globals p') = shmem_is_finalized (proc_globals p) \<and> (\<forall>e \<in> set (comm_cache p'). comm e = MPI_COMM_NULL))"
  unfolding oshmpi_initialize_def
  apply (rule costs_pseq [OF init_threads_costs [OF s]])
  apply (simp only: p if_False)
  apply (rule costs_pbind [OF init_world_costs [OF s]])
  apply (rule costs_pbind [OF init_mpmd_costs [OF s]], assumption)
  apply (rule costs_pbind [OF init_heap_size_costs [OF s]])
  apply (rule costs_pseq [OF init_info_costs])
  apply (rule costs_pbind [OF init_node_costs [OF s]], force)
  apply (simp only: prod.case_eq_if)
  apply (rule costs_pbind [OF init_sheap_costs [OF s]], force)
  apply (simp only: prod.case_eq_if)
  apply (rule costs_pbind [OF init_mspace_costs [OF s]])
  apply (simp only: prod.case_eq_if)
  apply (rule costs_pbind [OF init_etext_costs [OF im]])
  apply (rule costs_pseq [OF allock_costs])
  apply (rule costs_pbind [OF init_cache_costs [OF s]], force)
  apply (simp only: prod.case_eq_if)
  apply (rule costs_intros)
  apply (rule costs_Return)
   apply force
  apply (auto simp: holdings_def cost_def mpmd_cost_def node_cost_def sheap_cost_def Let_def)
  done

lemma free_slots_costs:
  "(\<forall>e \<in> set es. comm e = MPI_COMM_NULL) \<Longrightarrow> costs orc (pseqs (map free_slot es)) (\<lambda>_ _. 0) (\<lambda>_. True)"
  by (induction es) (auto simp: free_slot_def intro!: costs_Return)

lemma free_window_costs: "costs orc (free_window w) (\<lambda>_ k. - of_bool (k = K_win w)) (\<lambda>_. True)"
  unfolding free_window_def
  apply (rule costs_intros)
  apply (rule costs_weaken [OF costs_call])
  apply (auto simp: cost_def)
  done

lemma deallock_costs: "costs orc oshmpi_deallock (\<lambda>_ k. - of_bool (k = K_win Oshmpi_lock_win)) (\<lambda>_. True)"
  unfolding oshmpi_deallock_def
  apply (rule costs_intros)
  apply (rule costs_weaken [OF costs_call])
  apply (auto simp: cost_def)
  done

lemma finalize_shmem_costs:
  assumes c: "\<forall>e \<in> set (comm_cache p). comm e = MPI_COMM_NULL"
  shows "costs orc (finalize_shmem p) (\<lambda>_ k. - holdings p k) (\<lambda>_. True)"
  unfolding finalize_shmem_def Let_def
  apply (rule costs_pseq [OF deallock_costs])
  apply (rule costs_pseq)
   apply (rule costs_when [OF costs_pseq [OF free_slots_costs [OF c]]])
    apply (rule costs_weaken [OF costs_call])
    apply (rule conjI TrueI allI)+
    apply (rule diff_0_right [symmetric])
   apply (rule refl)
  apply (rule costs_intros)
  apply (rule costs_pseq)
   apply (rule costs_when [OF free_window_costs], rule refl)
  apply (rule costs_pseq [OF free_window_costs])+
  apply (rule costs_pseq)
   apply (rule costs_when)
    apply (rule costs_pseq)
     apply (rule costs_when [OF costs_call], rule refl)
    apply (rule costs_intros)+
    apply (rule costs_weaken [OF costs_call])
    apply (rule conjI TrueI allI)+
    apply (rule sym, subst diff_eq_eq, subst diff_eq_eq, subst diff_eq_eq, rule refl)
   apply (rule refl)
  apply (rule costs_intros)
  apply (rule costs_weaken [OF costs_call])
  apply (auto simp: cost_def holdings_def mpmd_cost_def node_cost_def sheap_cost_def Let_def)
  done

lemma finalize_costs:
  assumes s: "smooth orc g th" and i: "shmem_is_initialized (proc_globals p)"
      "\<not> shmem_is_finalized (proc_globals p)"
    and c: "\<forall>e \<in> set (comm_cache p). comm e = MPI_COMM_NULL"
  shows "costs orc (oshmpi_finalize p) (\<lambda>_ k. - holdings p k)
     (\<lambda>p'. shmem_is_finalized (proc_globals p'))"
  unfolding oshmpi_finalize_def
  apply (rule costs_pbind [OF costs_int [where P = "\<lambda>f. f = 0"]])
   apply (simp add: smoothD [OF s])
  apply (simp add: i)
  apply (rule costs_pseq [OF finalize_shmem_costs [OF c]])
  apply (rule costs_intros)
  apply (rule costs_Return)
   apply (auto simp: cost_def)
  done


text \<open>
  C25: A start-up and a shutdown free every object they create, of every kind: windows, communicators,
  groups, info objects and allocated arrays, in every build and on every launch that succeeds.
\<close>

theorem init_finalize_balanced:
  assumes "smooth orc (proc_globals p) th" "uint (end_addr im - data_start im) < INT32_MAX" "fresh_process p"
  shows "ends (logged orc) (pbind (oshmpi_initialize im th p) oshmpi_finalize) []
     (\<lambda>p' l. shmem_is_finalized (proc_globals p') \<and> (\<forall>k. balance k l = 0))"
proof -
  have "costs orc (pbind (oshmpi_initialize im th p) oshmpi_finalize) (\<lambda>_ _. 0)
      (\<lambda>p'. shmem_is_finalized (proc_globals p'))"
    using assms
    apply (intro costs_pbind [OF initialize_costs [OF assms(1,2)]])
     apply (simp add: fresh_process_def)
    apply (rule costs_weaken [OF finalize_costs [OF assms(1)]])
       apply (auto simp: fresh_process_def)
    done
  from costsD [OF this, of "[]"] show ?thesis by simp
qed

definition plain_globals :: "bool \<Rightarrow> globals" where
  "plain_globals smp = (example_globals smp False 0)\<lparr>shmem_is_initialized := False\<rparr>"

definition plain_process :: "bool \<Rightarrow> process" where
  "plain_process smp = \<lparr>proc_globals = plain_globals smp, comm_cache = [], comm_cache_mem = 0,
     smp_rank_list_mem = 0, smp_sheap_ptrs_mem = 0, shmem_heap_mspace = 0\<rparr>"

definition plain_image :: image where
  "plain_image = \<lparr>data_start = 0x8000, end_addr = 0x8040\<rparr>"

lemma example_smooth: "smooth example_oracle (plain_globals smp) MPI_THREAD_SINGLE"
  unfolding smooth_def
  by (intro conjI example_oracle_ok)
    (auto simp: example_oracle_def MPI_THREAD_SINGLE_def MPI_SUCCESS_def LONG_MAX_def)

lemma plain_setup: "fresh_process (plain_process smp)" "proc_globals (plain_process smp) = plain_globals smp"
  "uint (end_addr plain_image - data_start plain_image) < INT32_MAX"
  by (simp_all add: fresh_process_def plain_process_def plain_globals_def plain_image_def
      example_globals_def INT32_MAX_def)

theorem init_finalize_balanced_witness:
  "ends (logged example_oracle)
     (pbind (oshmpi_initialize plain_image MPI_THREAD_SINGLE (plain_process True)) oshmpi_finalize) []
     (\<lambda>p' l. shmem_is_finalized (proc_globals p') \<and> balance K_mem l = 0 \<and> balance K_comm l = 0)"
  by (rule ends_mono [OF init_finalize_balanced])
    (auto simp: plain_setup intro: example_smooth)

text \<open>
  A process that is already started is left as it is by shmem_init and start_pes: they ask MPI
  for its thread level, register the shutdown again, and make no other call.
\<close>

lemma second_init_is_idle:
  assumes "shmem_is_initialized (proc_globals p)" "smooth orc g MPI_THREAD_SINGLE"
    and "\<forall>l. orc l (Env MPI_Initialized) = RInt 1"
  shows "ends (logged orc) (shmem_init im p) []
     (\<lambda>p' l. p' = p \<and> l = [Env MPI_Initialized, Env MPI_Query_thread, Env (Atexit ''oshmpi_finalize'')])"
  unfolding shmem_init_def oshmpi_initialize_def init_threads_def
  apply (simp add: assms(1) ends_pbind ends_pseq)
  apply (rule logged_int, rule assms(3) [rule_format])
  apply simp
  apply (rule logged_int, rule smoothD(4) [OF assms(2)])
  apply (simp add: ends_pseq)
  apply (rule logged_call)
  apply simp
  done

definition started_oracle :: "eff list \<Rightarrow> eff \<Rightarrow> resp" where
  "started_oracle l e = (if e = Env MPI_Initialized then RInt 1 else example_oracle l e)"

lemma started_ok: "typed_oracle started_oracle" "malloc_ok started_oracle"
  using example_oracle_ok by (simp_all add: typed_oracle_def malloc_ok_def started_oracle_def)

lemma started_smooth: "smooth started_oracle (plain_globals smp) MPI_THREAD_SINGLE"
  unfolding smooth_def
  by (intro conjI started_ok)
    (auto simp: started_oracle_def example_oracle_def MPI_THREAD_SINGLE_def MPI_SUCCESS_def LONG_MAX_def)

section \<open>The window and the allocator\<close>

fun allocates :: "int \<Rightarrow> eff \<Rightarrow> bool" where
  "allocates n (Env (MPI_Win_allocate m d c w)) = (m = n \<and> w = Shmem_sheap_win)"
| "allocates n (Env (MPI_Win_allocate_shared m d c w)) = (m = n \<and> w = Shmem_sheap_win)"
| "allocates n e = False"

text \<open>What stays true of a trace once it is true.\<close>

lemma query_segments_extend:
  assumes "typed_oracle orc" "\<And>ps l'. Q ps (l @ l')"
  shows "ends (logged orc) (query_segments rs) l Q"
  using assms(2)
proof (induction rs arbitrary: l Q)
  case Nil
  from Nil [of "[]" "[]"] show ?case by simp
next
  case (Cons r rs)
  show ?case
    unfolding query_segments.simps ends_pbind
    apply (rule exE [OF typed_env(8) [OF assms(1)]])
    apply (rule logged_addr, assumption)
    apply (rule Cons.IH)
    apply (simp add: Cons.prems)
    done
qed

text \<open>
  C28: The heap the allocator gets, and every address translation, reaches 1024 bytes past the window:
  the window is allocated with the heap size, which is increased afterwards. Addresses behind the
  end of the window are looked up successfully.
\<close>

theorem heap_exceeds_window:
  assumes s: "smooth orc g th" and size: "0 \<le> shmem_sheap_size g" "shmem_sheap_size g < 2 ^ 62"
    and k: "0 \<le> k" "k \<le> 1024"
  shows "ends (logged orc) (pbind (init_sheap g) (\<lambda>(g', a). init_mspace g')) []
     (\<lambda>(g', msp) l. (\<exists>e \<in> set l. allocates (shmem_sheap_size g) e) \<and>
        Env (Create_mspace_with_base (shmem_sheap_base_ptr g') (shmem_sheap_size g + 1024) 0) \<in> set l \<and>
        oshmpi_window_offset g' (shmem_sheap_base_ptr g' + word_of_int (shmem_sheap_size g + k)) pe
          = (0, SHMEM_SHEAP_WINDOW, shmem_sheap_size g + k))"
proof -
  let ?n = "shmem_sheap_size g"
  have long: "c_long (?n + 1024) = ?n + 1024" using size by (intro c_long_small) auto
  have off: "oshmpi_window_offset h (shmem_sheap_base_ptr h + word_of_int (?n + k)) pe
      = (0, SHMEM_SHEAP_WINDOW, ?n + k)" if "shmem_sheap_size h = ?n + 1024" for h
    by (rule window_offset_sheap) (use size k that in auto)
  have t: "typed_oracle orc" "malloc_ok orc" using s by (rule smoothD)+
  have last: "ends (logged orc) (init_mspace h) l
      (\<lambda>(g', msp) l. (\<exists>e \<in> set l. allocates ?n e) \<and>
        Env (Create_mspace_with_base (shmem_sheap_base_ptr g') (?n + 1024) 0) \<in> set l \<and>
        oshmpi_window_offset g' (shmem_sheap_base_ptr g' + word_of_int (?n + k)) pe
          = (0, SHMEM_SHEAP_WINDOW, ?n + k))"
    if "shmem_sheap_size h = ?n" "\<exists>e \<in> set l. allocates ?n e" for h l
    unfolding init_mspace_def Let_def ends_pseq ends_pbind
    apply (rule logged_call)
    apply (rule exE [OF typed_env(10) [OF t(1)]])
    apply (rule logged_addr, assumption)
    using that off [of "h\<lparr>shmem_sheap_size := ?n + 1024\<rparr>"] by (auto simp: long)
  show ?thesis
  proof (cases "ENABLE_SMP_OPTIMIZATIONS (conf g) \<and> shmem_world_is_smp g")
    case True
    show ?thesis
      unfolding init_sheap_def if_P [OF True] ends_pbind ends_pseq
      apply (rule logged_call)
      apply (rule logged_int, rule smoothD(8) [OF s])
      apply (simp only: HOL.simp_thms if_False ends_pbind ends_pseq)
      apply (rule exE [OF typed_env(9) [OF t(1)]])
      apply (rule logged_addr, assumption)
      apply (rule logged_malloc [OF t(2)])
      apply (simp add: passert_def del: of_int_add)
      apply (rule query_segments_extend [OF t(1)])
      apply (simp del: of_int_add)
      apply (rule last)
       apply auto
      done
  next
    case False
    show ?thesis
      unfolding init_sheap_def if_not_P [OF False] ends_pbind ends_pseq
      apply (rule logged_call)
      apply (rule logged_int, rule smoothD(7) [OF s])
      apply (simp only: HOL.simp_thms if_False ends_pbind ends_pseq)
      apply (rule exE [OF typed_env(9) [OF t(1)]])
      apply (rule logged_addr, assumption)
      apply (simp del: of_int_add)
      apply (rule last)
       apply auto
      done
  qed
qed

theorem heap_exceeds_window_witness:
  "ends (logged example_oracle) (pbind (init_sheap (plain_globals True)) (\<lambda>(g', a). init_mspace g')) []
     (\<lambda>(g', msp) l. oshmpi_window_offset g' (shmem_sheap_base_ptr g' + word_of_int (256 + 1024)) 1
          = (0, SHMEM_SHEAP_WINDOW, 256 + 1024))"
proof -
  have n: "shmem_sheap_size (plain_globals True) = 256" by (simp add: plain_globals_def example_globals_def)
  show ?thesis
    using heap_exceeds_window [OF example_smooth [of True], of 1024 1]
    unfolding n by (rule ends_mono [OF _]) (auto simp del: word_of_int_numeral)
qed

end
