(* ===== verification/Wait.thy ===== *)
theory Wait
  imports Coll_Trace
begin

text \<open>
  Point-to-point synchronization: the macros \<open>COMP\<close>, \<open>SHMEM_WAIT\<close> and \<open>SHMEM_WAIT_UNTIL\<close> of
  \<open>src/src/shmem-wait.h\<close> and the typed routines of \<open>src/src/shmem.c\<close> that expand them. The loops
  poll a variable that another PE writes; they take fuel, one unit for each poll, and return
  \<open>None\<close> when it runs out. \<open>wait_returns\<close> and \<open>wait_until_returns\<close> show how much is enough.
\<close>

definition SHMEM_CMP_EQ :: int where "SHMEM_CMP_EQ = 1"
definition SHMEM_CMP_NE :: int where "SHMEM_CMP_NE = 2"
definition SHMEM_CMP_GT :: int where "SHMEM_CMP_GT = 3"
definition SHMEM_CMP_GE :: int where "SHMEM_CMP_GE = 4"
definition SHMEM_CMP_LT :: int where "SHMEM_CMP_LT = 5"
definition SHMEM_CMP_LE :: int where "SHMEM_CMP_LE = 6"

lemmas cmp_defs = SHMEM_CMP_EQ_def SHMEM_CMP_NE_def SHMEM_CMP_GT_def SHMEM_CMP_GE_def
  SHMEM_CMP_LT_def SHMEM_CMP_LE_def

definition COMP :: "int \<Rightarrow> int \<Rightarrow> int \<Rightarrow> bool shm" where
  "COMP type a b =
     (if type = SHMEM_CMP_EQ then Return (a = b)
      else if type = SHMEM_CMP_NE then Return (a \<noteq> b)
      else if type = SHMEM_CMP_GT then Return (a > b)
      else if type = SHMEM_CMP_GE then Return (a \<ge> b)
      else if type = SHMEM_CMP_LT then Return (a < b)
      else if type = SHMEM_CMP_LE then Return (a \<le> b)
      else oshmpi_abort type ''invalid comparison'')"

text \<open>The value of a variable of a signed C type, from the bytes an MPI call put there.\<close>

definition c_value :: "mpi_type \<Rightarrow> scalar \<Rightarrow> int" where
  "c_value mpi_type x = signed_take_bit (8 * predef_size mpi_type - 1) (uint x)"

definition poll :: "globals \<Rightarrow> mpi_type \<Rightarrow> mpi_win \<Rightarrow> int \<Rightarrow> int shm" where
  "poll g mpi_type win offset =
     pbind (call_val (Rma (MPI_Fetch_and_op None mpi_type (shmem_world_rank g) offset MPI_NO_OP win)))
       (\<lambda>temp. pseq (call (Rma (MPI_Win_flush_local (shmem_world_rank g) win)))
          (Return (c_value mpi_type temp)))"

text \<open>The result of the lookup is not checked: for another address \<open>win\<close> is never assigned.\<close>

definition wait_window :: "globals \<Rightarrow> addr \<Rightarrow> mpi_win option \<times> int" where
  "wait_window g address =
     (case oshmpi_window_offset g address (shmem_world_rank g) of (ret, win_id, offset) \<Rightarrow>
       (if win_id = SHMEM_SHEAP_WINDOW then Some Shmem_sheap_win
        else if win_id = SHMEM_ETEXT_WINDOW then Some Shmem_etext_win else None, offset))"

fun wait_loop :: "nat \<Rightarrow> globals \<Rightarrow> mpi_type \<Rightarrow> mpi_win \<Rightarrow> int \<Rightarrow> int \<Rightarrow> int \<Rightarrow> int option shm" where
  "wait_loop fuel g mpi_type win offset v temp =
     (if temp \<noteq> v then Return (Some temp)
      else case fuel of
        0 \<Rightarrow> Return None
      | Suc n \<Rightarrow> pbind (poll g mpi_type win offset) (wait_loop n g mpi_type win offset v))"

declare wait_loop.simps [simp del]

definition SHMEM_WAIT :: "nat \<Rightarrow> globals \<Rightarrow> addr \<Rightarrow> int \<Rightarrow> mpi_type \<Rightarrow> int option shm" where
  "SHMEM_WAIT fuel g address v mpi_type =
     (case wait_window g address of
        (None, offset) \<Rightarrow> Undef ''win is not initialized''
      | (Some win, offset) \<Rightarrow> wait_loop fuel g mpi_type win offset v v)"

fun wait_until_loop :: "nat \<Rightarrow> globals \<Rightarrow> mpi_type \<Rightarrow> mpi_win \<Rightarrow> int \<Rightarrow> int \<Rightarrow> int \<Rightarrow> int option shm" where
  "wait_until_loop 0 g mpi_type win offset cond v = Return None"
| "wait_until_loop (Suc n) g mpi_type win offset cond v =
     pbind (poll g mpi_type win offset) (\<lambda>temp.
     pbind (COMP cond temp v) (\<lambda>cmpret.
     if cmpret then Return (Some temp)
     else wait_until_loop n g mpi_type win offset cond v))"

definition SHMEM_WAIT_UNTIL :: "nat \<Rightarrow> globals \<Rightarrow> addr \<Rightarrow> int \<Rightarrow> int \<Rightarrow> mpi_type \<Rightarrow> int option shm" where
  "SHMEM_WAIT_UNTIL fuel g address cond v mpi_type =
     (case wait_window g address of
        (None, offset) \<Rightarrow> Undef ''win is not initialized''
      | (Some win, offset) \<Rightarrow> wait_until_loop fuel g mpi_type win offset cond v)"

section \<open>The typed routines\<close>

type_synonym waiter = "nat \<Rightarrow> globals \<Rightarrow> addr \<Rightarrow> int \<Rightarrow> int option shm"
type_synonym until_waiter = "nat \<Rightarrow> globals \<Rightarrow> addr \<Rightarrow> int \<Rightarrow> int \<Rightarrow> int option shm"

definition shmem_short_wait :: waiter where
  "shmem_short_wait fuel g var v = SHMEM_WAIT fuel g var v MPI_SHORT"
definition shmem_int_wait :: waiter where
  "shmem_int_wait fuel g var v = SHMEM_WAIT fuel g var v MPI_INT"
definition shmem_long_wait :: waiter where
  "shmem_long_wait fuel g var v = SHMEM_WAIT fuel g var v MPI_LONG"
definition shmem_longlong_wait :: waiter where
  "shmem_longlong_wait fuel g var v = SHMEM_WAIT fuel g var v MPI_LONG_LONG"
definition shmem_wait :: waiter where
  "shmem_wait fuel g var v = SHMEM_WAIT fuel g var v MPI_LONG"

definition shmem_short_wait_until :: until_waiter where
  "shmem_short_wait_until fuel g var c v = SHMEM_WAIT_UNTIL fuel g var c v MPI_SHORT"
definition shmem_int_wait_until :: until_waiter where
  "shmem_int_wait_until fuel g var c v = SHMEM_WAIT_UNTIL fuel g var c v MPI_INT"
definition shmem_long_wait_until :: until_waiter where
  "shmem_long_wait_until fuel g var c v = SHMEM_WAIT_UNTIL fuel g var c v MPI_LONG"
definition shmem_longlong_wait_until :: until_waiter where
  "shmem_longlong_wait_until fuel g var c v = SHMEM_WAIT_UNTIL fuel g var c v MPI_LONG_LONG"
definition shmem_wait_until :: until_waiter where
  "shmem_wait_until fuel g var c v = SHMEM_WAIT_UNTIL fuel g var c v MPI_LONG"

section \<open>What the polls see\<close>

fun is_poll :: "eff \<Rightarrow> bool" where
  "is_poll (Rma (MPI_Fetch_and_op v ty t d oper w)) = True"
| "is_poll _ = False"

definition polls :: "eff list \<Rightarrow> nat" where
  "polls l = length (filter is_poll l)"

text \<open>The \<open>k\<close>-th poll of the run reads \<open>vals k\<close>: what the other PEs have stored by then.\<close>

definition reads :: "(eff list \<Rightarrow> eff \<Rightarrow> resp) \<Rightarrow> (nat \<Rightarrow> scalar) \<Rightarrow> bool" where
  "reads orc vals \<longleftrightarrow>
     (\<forall>l v ty t d oper w. orc l (Rma (MPI_Fetch_and_op v ty t d oper w)) = RVal (vals (polls l)))"

definition poll_trace :: "globals \<Rightarrow> mpi_type \<Rightarrow> mpi_win \<Rightarrow> int \<Rightarrow> eff list" where
  "poll_trace g mpi_type win offset =
     [Rma (MPI_Fetch_and_op None mpi_type (shmem_world_rank g) offset MPI_NO_OP win),
      Rma (MPI_Win_flush_local (shmem_world_rank g) win)]"

lemma polls_append [simp]: "polls (xs @ ys) = polls xs + polls ys"
  by (simp add: polls_def)

lemma polls_poll_trace [simp]: "polls (poll_trace g ty win off) = 1"
  by (simp add: polls_def poll_trace_def)

lemma poll_ends:
  assumes "reads orc vals" "Q (c_value ty (vals (polls l))) (l @ poll_trace g ty win off)"
  shows "ends (logged orc) (poll g ty win off) l Q"
  unfolding poll_def ends_pbind ends_pseq
  by (rule logged_val [of orc _ _ "vals (polls l)"], use assms(1) in \<open>simp add: reads_def\<close>,
      rule logged_call, use assms(2) in \<open>simp add: poll_trace_def\<close>)

text \<open>The loops take one unit of fuel for each poll up to the first that ends them.\<close>

lemma wait_loop_ends:
  assumes R: "reads orc vals" and k: "c_value ty (vals (polls l + k)) \<noteq> v"
    and before: "\<forall>j<k. c_value ty (vals (polls l + j)) = v" and fuel: "k < fuel"
  shows "ends (logged orc) (wait_loop fuel g ty win off v v) l
     (\<lambda>res l'. res = Some (c_value ty (vals (polls l + k))) \<and>
        l' = l @ concat (replicate (Suc k) (poll_trace g ty win off)))"
  using k before fuel
proof (induction k arbitrary: l fuel)
  case 0
  then obtain n where n: "fuel = Suc n" by (cases fuel) auto
  show ?case
    unfolding n by (subst wait_loop.simps, simp add: ends_pbind, rule poll_ends [OF R])
      (subst wait_loop.simps, use 0 in simp)
next
  case (Suc k)
  then obtain n where n: "fuel = Suc n" by (cases fuel) auto
  have first: "c_value ty (vals (polls l)) = v"
    using Suc.prems(2) [rule_format, of 0] by simp
  have "ends (logged orc) (wait_loop n g ty win off v v) (l @ poll_trace g ty win off)
     (\<lambda>res l'. res = Some (c_value ty (vals (polls (l @ poll_trace g ty win off) + k))) \<and>
        l' = (l @ poll_trace g ty win off) @ concat (replicate (Suc k) (poll_trace g ty win off)))"
    by (rule Suc.IH) (use Suc.prems n in auto)
  then show ?case
    unfolding n by (subst wait_loop.simps) (simp add: ends_pbind, rule poll_ends [OF R],
      simp add: first)
qed

text \<open>The relation a comparison constant stands for.\<close>

definition cmp_holds :: "int \<Rightarrow> int \<Rightarrow> int \<Rightarrow> bool" where
  "cmp_holds cond a b \<longleftrightarrow>
     cond = 1 \<and> a = b \<or> cond = 2 \<and> a \<noteq> b \<or> cond = 3 \<and> a > b \<or> cond = 4 \<and> a \<ge> b \<or>
     cond = 5 \<and> a < b \<or> cond = 6 \<and> a \<le> b"

lemma COMP_valid: "1 \<le> cond \<Longrightarrow> cond \<le> 6 \<Longrightarrow> COMP cond a b = Return (cmp_holds cond a b)"
  by (simp add: COMP_def cmp_holds_def cmp_defs)

lemma COMP_invalid: "\<not> (1 \<le> cond \<and> cond \<le> 6) \<Longrightarrow> COMP cond a b = Abort cond ''invalid comparison''"
  by (auto simp: COMP_def cmp_defs oshmpi_abort_def)

lemma wait_until_loop_ends:
  assumes R: "reads orc vals" and c: "1 \<le> cond" "cond \<le> 6"
    and k: "cmp_holds cond (c_value ty (vals (polls l + k))) v"
    and before: "\<forall>j<k. \<not> cmp_holds cond (c_value ty (vals (polls l + j))) v" and fuel: "k < fuel"
  shows "ends (logged orc) (wait_until_loop fuel g ty win off cond v) l
     (\<lambda>res l'. res = Some (c_value ty (vals (polls l + k))) \<and>
        l' = l @ concat (replicate (Suc k) (poll_trace g ty win off)))"
  using k before fuel
proof (induction k arbitrary: l fuel)
  case 0
  then obtain n where n: "fuel = Suc n" by (cases fuel) auto
  show ?case
    unfolding n by (simp add: ends_pbind, rule poll_ends [OF R]) (use 0 in \<open>simp add: COMP_valid [OF c]\<close>)
next
  case (Suc k)
  then obtain n where n: "fuel = Suc n" by (cases fuel) auto
  have first: "\<not> cmp_holds cond (c_value ty (vals (polls l))) v"
    using Suc.prems(2) [rule_format, of 0] by simp
  have "ends (logged orc) (wait_until_loop n g ty win off cond v) (l @ poll_trace g ty win off)
     (\<lambda>res l'. res = Some (c_value ty (vals (polls (l @ poll_trace g ty win off) + k))) \<and>
        l' = (l @ poll_trace g ty win off) @ concat (replicate (Suc k) (poll_trace g ty win off)))"
    by (rule Suc.IH) (use Suc.prems n in auto)
  then show ?case
    unfolding n by (simp add: ends_pbind, intro poll_ends [OF R]) (simp add: first COMP_valid [OF c])
qed

lemma wait_until_loop_blocks:
  assumes R: "reads orc vals" and c: "1 \<le> cond" "cond \<le> 6"
    and "\<forall>j<fuel. \<not> cmp_holds cond (c_value ty (vals (polls l + j))) v"
  shows "ends (logged orc) (wait_until_loop fuel g ty win off cond v) l (\<lambda>res l'. res = None)"
  using assms(4)
proof (induction fuel arbitrary: l)
  case 0
  then show ?case by simp
next
  case (Suc n)
  have first: "\<not> cmp_holds cond (c_value ty (vals (polls l))) v"
    using Suc.prems [rule_format, of 0] by simp
  have "ends (logged orc) (wait_until_loop n g ty win off cond v) (l @ poll_trace g ty win off)
      (\<lambda>res l'. res = None)"
    by (rule Suc.IH) (use Suc.prems in auto)
  then show ?case
    by (simp add: ends_pbind, intro poll_ends [OF R]) (simp add: first COMP_valid [OF c])
qed

lemma concat_replicate_polls [simp]: "polls (concat (replicate n (poll_trace g ty win off))) = n"
  by (induction n) (simp_all add: polls_def poll_trace_def)

section \<open>Properties\<close>

text \<open>
  C23: \<open>shmem_long_wait_until\<close> returns exactly when its comparison first holds for a polled value,
  with that value, after one poll for each value it saw; until then it keeps polling.
\<close>

theorem wait_until_returns:
  assumes "reads orc vals" "1 \<le> cond" "cond \<le> 6" "wait_window g var = (Some win, off)"
    and "\<forall>j<k. \<not> cmp_holds cond (c_value MPI_LONG (vals j)) v"
  shows "ends (logged orc) (shmem_long_wait_until k g var cond v) [] (\<lambda>res l. res = None) \<and>
    (cmp_holds cond (c_value MPI_LONG (vals k)) v \<longrightarrow> k < fuel \<longrightarrow>
     ends (logged orc) (shmem_long_wait_until fuel g var cond v) []
       (\<lambda>res l. res = Some (c_value MPI_LONG (vals k)) \<and> polls l = Suc k))"
proof (intro conjI impI)
  have w: "shmem_long_wait_until n g var cond v = wait_until_loop n g MPI_LONG win off cond v" for n
    using assms(4) by (simp add: shmem_long_wait_until_def SHMEM_WAIT_UNTIL_def)
  have p: "polls [] = 0"
    by (simp add: polls_def)
  show "ends (logged orc) (shmem_long_wait_until k g var cond v) [] (\<lambda>res l. res = None)"
    unfolding w by (rule wait_until_loop_blocks [OF assms(1-3)]) (use assms(5) p in simp)
  assume "cmp_holds cond (c_value MPI_LONG (vals k)) v" "k < fuel"
  then have "ends (logged orc) (wait_until_loop fuel g MPI_LONG win off cond v) []
     (\<lambda>res l'. res = Some (c_value MPI_LONG (vals (polls [] + k))) \<and>
        l' = [] @ concat (replicate (Suc k) (poll_trace g MPI_LONG win off)))"
    by (intro wait_until_loop_ends [OF assms(1-3)]) (use assms(5) p in simp_all)
  then show "ends (logged orc) (shmem_long_wait_until fuel g var cond v) []
       (\<lambda>res l. res = Some (c_value MPI_LONG (vals k)) \<and> polls l = Suc k)"
    unfolding w by (rule ends_mono) (simp add: p del: replicate_Suc)
qed

definition counting_oracle :: "eff list \<Rightarrow> eff \<Rightarrow> resp" where
  "counting_oracle l e = RVal (word_of_nat (polls l))"

lemma counting_reads: "reads counting_oracle word_of_nat"
  by (simp add: reads_def counting_oracle_def)

lemma example_wait_window:
  "wait_window (example_globals smp ord r) 0x1010 = (Some Shmem_sheap_win, 16)"
  by (simp add: wait_window_def oshmpi_window_offset_def Let_def ptrdiff_def example_globals_def)

theorem wait_until_returns_witness:
  "ends (logged counting_oracle) (shmem_long_wait_until 3 (example_globals False False 0) 0x1010 4 3) []
     (\<lambda>res l. res = None) \<and>
   ends (logged counting_oracle) (shmem_long_wait_until 5 (example_globals False False 0) 0x1010 4 3) []
     (\<lambda>res l. res = Some 3 \<and> polls l = 4)"
proof -
  have "\<forall>j<(3 :: nat). j = 0 \<or> j = 1 \<or> j = 2"
    by auto
  then have early: "\<forall>j<3. \<not> cmp_holds 4 (c_value MPI_LONG (word_of_nat j)) 3"
    by (auto simp: cmp_holds_def c_value_def)
  have now: "c_value MPI_LONG (word_of_nat 3) = 3" "cmp_holds 4 3 3" "3 < (5 :: nat)"
    by (simp_all add: cmp_holds_def c_value_def)
  have "ends (logged counting_oracle) (shmem_long_wait_until 3 (example_globals False False 0) 0x1010 4 3) []
     (\<lambda>res l. res = None) \<and>
    (cmp_holds 4 (c_value MPI_LONG (word_of_nat 3)) 3 \<longrightarrow> 3 < (5 :: nat) \<longrightarrow>
     ends (logged counting_oracle) (shmem_long_wait_until 5 (example_globals False False 0) 0x1010 4 3) []
       (\<lambda>res l. res = Some (c_value MPI_LONG (word_of_nat 3)) \<and> polls l = Suc 3))"
    by (rule wait_until_returns [OF counting_reads _ _ example_wait_window early]) simp_all
  then show ?thesis by (simp add: now del: of_nat_numeral)
qed

text \<open>
  \<open>shmem_int_wait\<close> returns at the first polled value that differs from the given one, with
  that value, after one poll for each value it saw.
\<close>

lemma wait_returns:
  assumes "reads orc vals" "wait_window g var = (Some win, off)"
    and "\<forall>j<k. c_value MPI_INT (vals j) = v" "c_value MPI_INT (vals k) \<noteq> v" "k < fuel"
  shows "ends (logged orc) (shmem_int_wait fuel g var v) []
     (\<lambda>res l. res = Some (c_value MPI_INT (vals k)) \<and> polls l = Suc k)"
proof -
  have "shmem_int_wait fuel g var v = wait_loop fuel g MPI_INT win off v v"
    using assms(2) by (simp add: shmem_int_wait_def SHMEM_WAIT_def)
  moreover have "ends (logged orc) (wait_loop fuel g MPI_INT win off v v) []
     (\<lambda>res l'. res = Some (c_value MPI_INT (vals (polls [] + k))) \<and>
        l' = [] @ concat (replicate (Suc k) (poll_trace g MPI_INT win off)))"
    by (rule wait_loop_ends [OF assms(1)]) (use assms(3-5) in \<open>simp_all add: polls_def\<close>)
  ultimately show ?thesis
    by (auto elim!: ends_mono simp del: replicate_Suc) (simp add: polls_def)
qed

end
