(* ===== verification/Spec2Isabelle.thy ===== *)
theory Spec2Isabelle
  imports Dl_Heap_History Dl_Checked Dl_Bulk Rma_Properties Lock_Properties Extensions Init_Properties Wait
begin

text \<open>
  OSHMPI: the OpenSHMEM 1.x interface over MPI-3 one-sided communication, and the allocator of its
  symmetric heap.

  \<^bold>\<open>The program.\<close> A job is a set of processing elements (PEs), one process each. At start-up
  (\<open>oshmpi_initialize\<close>) every PE exposes two ranges of its memory as MPI windows: the static data
  between two linker symbols (the \<open>etext\<close> window) and the symmetric heap (the \<open>sheap\<close> window), whose
  memory it hands to an mspace of dlmalloc. A remote reference names a local address; the library
  looks up the window that holds it and the offset there (\<open>oshmpi_window_offset\<close>), and issues MPI calls
  on that window at the other PE. Builds differ: with \<open>ENABLE_SMP_OPTIMIZATIONS\<close> a job on one node
  shares its heaps and copies through memory; with \<open>ENABLE_RMA_ORDERING\<close> puts and gets are
  accumulates, which MPI orders at each location of the target; with \<open>ENABLE_COMM_CACHING\<close> the communicators of active sets
  are kept. The options are fields of the record \<open>config\<close>, so a theorem covers all builds unless it
  names one (the fence is one such: it orders in the builds without \<open>ENABLE_RMA_ORDERING\<close> only).

  \<^bold>\<open>How code is modelled.\<close>
  \<^item> The C functions above MPI are programs with effects (\<open>Prelude\<close>: \<open>prog\<close>): trees whose
    nodes are the calls and memory accesses of the C text, in its order, and whose leaves are
    \<open>Return\<close>, \<open>Abort\<close> (\<open>MPI_Abort\<close>), a failed assertion or undefined behaviour (\<open>Undef\<close>). \<open>Effects\<close> is
    the alphabet: every function the sources call and do not define is a constructor there. What such
    a call does is the handler a program runs with. Handlers are arguments of the theorems; the named laws
    of \<open>Mpi_Laws\<close> state what the MPI-3 standard documents, and \<open>Mpi_Reference\<close> is a library that
    satisfies them, on which the witnesses evaluate.
  \<^item> The allocator is code of the repository and does not call MPI: its functions are state
    passing over \<open>malloc_state\<close> (\<open>Dl_State\<close>), a record of the C struct and of the memory that chunks and
    segment records live in. \<open>Trap\<close> is \<open>abort ()\<close>, \<open>Spin\<close> a loop that does not end. \<open>mmap\<close> and its
    companions are the parameter \<open>system\<close>.
  \<^item> \<open>size_t\<close> and pointers are 64-bit words and wrap; \<open>int\<close> and \<open>long\<close> are integers with the
    conversions written out (\<open>c_int\<close>, \<open>c_long\<close>).

  \<^bold>\<open>Theories, in the order they build on each other.\<close>
  \<^item> \<open>Prelude\<close>, \<open>Effects\<close>: C integers, programs, \<open>run\<close>, \<open>ends\<close> (the program returns, and in a state that
    satisfies the postcondition), \<open>along\<close> (every state the program passes through, from effect to effect),
    \<open>pe_step\<close> (the programs of several PEs, interleaved effect by effect), traces; the fact collections \<open>prog_simps\<close>, \<open>shmem_defs\<close>, \<open>mem_simps\<close>.
  \<^item> \<open>Globals\<close>: the globals of \<open>shmem-internals.h\<close>, \<open>oshmpi_window_offset\<close>, \<open>shmem_ptr\<close>, the queries.
    The locale \<open>window_lookup\<close> states what a lookup promises its callers.
  \<^item> \<open>Memory\<close>, \<open>Mpi_Laws\<close>, \<open>Mpi_Reference\<close>, \<open>Example_World\<close>: bytes of several PEs with
    aliasing; operations in flight, settled by flushes in any order that MPI allows: accumulates that meet
    in a location as issued, everything else in any order; datatypes as
    lists of displacements, and transfers only where MPI allows them (\<open>transfer_ok\<close>: the side that is
    written does not overlap itself); the reference library and a job of two PEs.
  \<^item> \<open>Large_Count\<close> (\<open>type_contiguous_x.h\<close>), \<open>Rma\<close>, \<open>Data_Movement\<close>, \<open>Ordering\<close>, \<open>Strided\<close>,
    \<open>Rma_Properties\<close>: \<open>oshmpi_put\<close>, \<open>oshmpi_get\<close>, their strided versions, \<open>shmem_quiet\<close> and \<open>shmem_fence\<close>:
    where the bytes go, the life of derived types, and what a fence orders: \<open>visible\<close> is what another PE
    may find in memory at a moment, and without \<open>ENABLE_RMA_ORDERING\<close> no effect behind a fence is ever visible
    before all effects ahead of it; with the option the fence completes nothing, and it can be.
  \<^item> \<open>Transfer_Api\<close>: the typed transfer routines of \<open>shmem.c\<close>, each with its own MPI type; the lists
    \<open>elemental_routines\<close> and \<open>block_routines\<close> pair them with the sizes of their C types.
  \<^item> \<open>Atomics\<close>, \<open>Atomics_Api\<close>: swap, compare-and-swap, add, fetch-and-add; increments of PEs that
    interleave effect by effect hand out distinct tickets.
  \<^item> \<open>Comm_Cache\<close>, \<open>Comm_Life\<close>, \<open>Coll\<close>, \<open>Coll_Api\<close>, \<open>Coll_Trace\<close>: communicators for active sets and their
    cache (locale \<open>key_cache\<close>), the collective engine, the collective routines of \<open>shmem.c\<close>; one MPI
    operation on exactly the active set, the layout of its buffers, no communicator lost or freed
    while cached.
  \<^item> \<open>Mcs_Lock\<close>, \<open>Lock_System\<close>, \<open>Lock_Properties\<close>: the queue lock (\<open>oshmpi-mcs-lock.c\<close>); \<open>lock_step\<close> runs the PEs
    of a job call by call, \<open>queue_step\<close> is the abstract queue, and a simulation carries the invariant
    from one to the other. \<open>tests\<close> runs any list of \<open>shmem_test_lock\<close> calls by any PEs. Mutual exclusion holds for single use; the two schedules that break
    the lock beyond it are theorems as well.
  \<^item> \<open>Wait\<close> (\<open>shmem-wait.h\<close>), \<open>Extensions\<close> (\<open>shmemx-counting-put.c\<close>, whose counter
    moves only when the data are visible, and \<open>shmemx-armci-strided.c\<close>).
  \<^item> \<open>Heap_Size\<close>, \<open>Init\<close>, \<open>Init_Properties\<close>: start-up and shutdown, call by call, with the parsing of
    \<open>SHMEM_SYMMETRIC_HEAP_SIZE\<close>; every object created is freed; the size of the heap against that of its window.
  \<^item> \<open>Dl_Bits\<close>, \<open>Dl_Index\<close>: sizes, bit maps and tree indices of \<open>dlmalloc.c\<close>, in the x86 and the
    portable versions. \<open>Dl_State\<close>: structs, fields, parameters, checks of addresses. \<open>Dl_Bins\<close>: small bins as
    circular lists, tree bins as tries. \<open>Dl_System\<close>: mapped chunks, \<open>top\<close>, segments, \<open>sys_alloc\<close>, \<open>sys_trim\<close>.
    \<open>Dl_Mspace\<close>: \<open>mspace_malloc\<close>, \<open>mspace_free\<close>, calloc, realloc, memalign, constructors, options. \<open>Dl_Bulk\<close>:
    independent allocation and bulk free. \<open>Dl_Checks\<close>: the debug checks and the statistics.
  \<^item> \<open>Dl_Lists\<close>: the small bins refine lists (locale \<open>free_lists\<close>). \<open>Dl_Tree\<close>: the trees are tries and the
    searches find the best fit. \<open>Dl_Large\<close>, \<open>Dl_Unlink\<close>, \<open>Dl_Store\<close>: the tree bins with their parent pointers and
    rings refine a set of chunks (locale \<open>chunk_set\<close>): insertion adds one, unlinking removes one, and the
    searches find the best fit of the set after any history. \<open>Dl_Top\<close>: allocation while \<open>top\<close> serves every request: the same
    requests get the same offsets on every PE. \<open>Dl_Checked\<close>: the states so reached pass the debug checks of the
    code itself.
  \<^item> \<open>Dl_Free_Bins\<close> to \<open>Dl_Heap_History\<close>: the heap as a row of cells, in use or free, from its first chunk to \<open>top\<close>
    (\<open>heap_ok\<close>: every free chunk is in the bin of its size or the designated victim, and no two border).
    \<open>Dl_Heap_Malloc\<close> and \<open>Dl_Heap_Free\<close> follow \<open>mspace_malloc\<close> and \<open>mspace_free\<close> on every such heap, branch by branch.
    The locale \<open>allocator\<close> is the interface to the client, the heap provides it, and every history of requests,
    releases and stores is safe, returns, and leaves an empty heap as good as new. The bound of \<open>2 ^ 40\<close> bytes on
    the heap is that of the tree index; \<open>no_memory\<close> says that the system gives the allocator no second segment.
  \<^item> \<open>Heap_Api\<close>: \<open>shmalloc\<close> and its relatives over the mspace, for heap and window together.

  \<^bold>\<open>Fuel and loops.\<close> The polling loops of \<open>Wait\<close> and \<open>shmemx_ct_wait\<close> take one unit of fuel for each poll,
  since another PE ends them; the theorem of \<open>Wait\<close> gives the exact number that is enough, and
  that fewer are not. The loops of the allocator over lists, trees and segments are
  \<open>partial_function (option)\<close>, and not returning is \<open>Spin\<close>; the theorems about them state results
  of the form \<open>Ret\<close>, so they include that the loops end. All other recursion is structural.

  \<^bold>\<open>Not modelled.\<close>
  \<^item> MPI, the C library, the linker and the operating system: parameters, as above. The laws speak
    of single calls; a data race is outside them, and no theorem claims anything about one. They do not
    carry the extent of a window: the transfer theorems ask that the object is \<open>symmetric\<close>, inside the bounds
    the code itself checks, and after start-up those bounds reach 1024 bytes past the heap's window
    (\<open>heap_exceeds_window\<close>); MPI makes no promise for an object there.
  \<^item> The code the build leaves out (\<open>Makefile.am\<close> sets \<open>ONLY_MSPACES=1\<close> and no other option of dlmalloc):
    the global \<open>dlmalloc\<close> interface, locks and footers, \<open>internal_inspect_all\<close>, MORECORE and
    Windows emulation, \<open>PROCEED_ON_ERROR\<close>.
  \<^item> Diagnostic printing under \<open>SHMEM_DEBUG\<close>, and the linker symbols of systems other than Linux: the
    two symbols are an argument (\<open>image\<close>) of \<open>oshmpi_initialize\<close>.
  \<^item> The branch \<open>ABUSE_MPICH_FOR_GLOBALS\<close> of \<open>oshmpi_initialize\<close> (\<open>shmem-internals.c\<close>, lines 368-369), which
    makes the etext window with \<open>MPI_Win_create_dynamic\<close>: no file of the build defines the macro, so
    \<open>init_etext\<close> is the \<open>#else\<close> branch.
  \<^item> The headers that only declare (\<open>shmem.h\<close>, \<open>shmemx.h\<close>, \<open>dlmalloc.h\<close>), the compiler wrapper, tests and
    benchmarks.
\<close>

end
